(* ===== verification/Prelude.thy ===== *)
theory Prelude
  imports Main "HOL-Library.Word" "HOL-Library.Multiset"
begin

text \<open>
  Shared vocabulary of the development: widths of the C integer types, the
  collections the component theories add their rewrite rules to, generic lemmas on
  lists of lists (the abstract form of an array of queues or hash buckets), on
  array updates and on machine words, and linked lists in a store of link fields.
\<close>

unbundle bit_operations_syntax

section \<open>C types and collections\<close>

type_synonym u8 = "8 word"
type_synonym u16 = "16 word"
type_synonym u32 = "32 word"

named_theorems txt_simps \<open>arithmetic form of the character tests\<close>

section \<open>Arrays of lists\<close>

lemma concat_split_nth:
  "i < length ls \<Longrightarrow> concat ls = concat (take i ls) @ ls ! i @ concat (drop (Suc i) ls)"
  by (metis concat.simps(2) concat_append id_take_nth_drop)

lemma concat_split_update:
  "i < length ls \<Longrightarrow> concat (ls[i := xs]) = concat (take i ls) @ xs @ concat (drop (Suc i) ls)"
  by (simp add: upd_conv_take_nth_drop)

lemma length_concat_update:
  "i < length ls \<Longrightarrow>
   length (concat (ls[i := xs])) + length (ls ! i) = length (concat ls) + length xs"
  by (simp add: concat_split_nth [of i ls] concat_split_update)

lemma length_nth_le_concat: "i < length ls \<Longrightarrow> length (ls ! i) \<le> length (concat ls)"
  by (simp add: concat_split_nth [of i ls])

lemma mset_concat_update:
  "i < length ls \<Longrightarrow>
   mset (concat (ls[i := xs])) + mset (ls ! i) = mset (concat ls) + mset xs"
  by (simp add: concat_split_nth [of i ls] concat_split_update union_ac)

lemma set_concat_update:
  "i < length ls \<Longrightarrow> set (concat (ls[i := xs])) \<subseteq> set (concat ls) \<union> set xs"
  by (auto simp add: concat_split_nth [of i ls] concat_split_update)

lemma distinct_concat_shrink:
  assumes "i < length ls" "distinct (concat ls)" "set xs \<subseteq> set (ls ! i)" "distinct xs"
  shows "distinct (concat (ls[i := xs]))"
  using assms
  by (auto simp add: concat_split_nth [of i ls] concat_split_update)

lemma distinct_concat_insert:
  assumes "i < length ls" "distinct (concat ls)" "set xs = insert p (set (ls ! i))" "distinct xs"
    and "p \<notin> set (concat ls)"
  shows "distinct (concat (ls[i := xs]))"
  using assms
  by (auto simp add: concat_split_nth [of i ls] concat_split_update)

lemma distinct_concat_disjoint:
  assumes "distinct (concat ls)" "i < length ls" "j < length ls" "i \<noteq> j"
  shows "set (ls ! i) \<inter> set (ls ! j) = {}"
proof -
  have "set (ls ! j) \<subseteq> set (concat (take i ls)) \<union> set (concat (drop (Suc i) ls))"
  proof (cases "j < i")
    case True
    with assms have "ls ! j \<in> set (take i ls)"
      by (metis in_set_conv_nth length_take min_less_iff_conj nth_take)
    then show ?thesis by auto
  next
    case False
    with assms have "ls ! j = drop (Suc i) ls ! (j - Suc i)" "j - Suc i < length (drop (Suc i) ls)"
      by auto
    then have "ls ! j \<in> set (drop (Suc i) ls)" by (metis nth_mem)
    then show ?thesis by auto
  qed
  moreover have "set (ls ! i) \<inter> (set (concat (take i ls)) \<union> set (concat (drop (Suc i) ls))) = {}"
    using assms(1,2) by (auto simp add: concat_split_nth [of i ls] simp del: set_concat)
  ultimately show ?thesis by blast
qed

lemma concat_nonempty: "i < length ls \<Longrightarrow> ls ! i \<noteq> [] \<Longrightarrow> concat ls \<noteq> []"
  by (metis concat_eq_Nil_conv nth_mem)

lemma distinct_concat_nth:
  "distinct (concat ls) \<Longrightarrow> i < length ls \<Longrightarrow> distinct (ls ! i)"
  by (simp add: distinct_concat_iff)

section \<open>Linked lists in a store of link fields\<close>

text \<open>
  \<open>plist lnk p xs\<close>: following the link fields from the pointer \<open>p\<close> visits exactly the
  cells \<open>xs\<close> and ends in a null link.
\<close>

fun plist :: "('p \<Rightarrow> 'p option) \<Rightarrow> 'p option \<Rightarrow> 'p list \<Rightarrow> bool" where
  "plist lnk p [] \<longleftrightarrow> p = None"
| "plist lnk p (x # xs) \<longleftrightarrow> p = Some x \<and> plist lnk (lnk x) xs"

lemma plist_None [simp]: "plist lnk None xs \<longleftrightarrow> xs = []"
  by (cases xs) auto

lemma plist_Some: "plist lnk (Some x) xs \<longleftrightarrow> (\<exists>ys. xs = x # ys \<and> plist lnk (lnk x) ys)"
  by (cases xs) auto

lemma plist_unique: "plist lnk p xs \<Longrightarrow> plist lnk p ys \<Longrightarrow> xs = ys"
  by (induction xs arbitrary: p ys) (auto simp: plist_Some)

lemma plist_cong: "(\<And>x. x \<in> set xs \<Longrightarrow> lnk' x = lnk x) \<Longrightarrow> plist lnk' p xs = plist lnk p xs"
  by (induction xs arbitrary: p) auto

lemma plist_frame [simp]: "y \<notin> set xs \<Longrightarrow> plist (lnk(y := v)) p xs = plist lnk p xs"
  by (induction xs arbitrary: p) auto

lemma plist_head: "plist lnk p xs \<Longrightarrow> p = (if xs = [] then None else Some (hd xs))"
  by (cases xs) auto

lemma plist_last_link: "plist lnk p (xs @ [x]) \<Longrightarrow> lnk x = None"
  by (induction xs arbitrary: p) auto

lemma plist_snoc:
  assumes "plist lnk p (xs @ [x])" "y \<notin> set (xs @ [x])" "x \<notin> set xs" "lnk y = None"
  shows "plist (lnk(x := Some y)) p (xs @ [x, y])"
  using assms by (induction xs arbitrary: p) auto

lemma plist_butlast:
  assumes "plist lnk p (xs @ [x, y])" "x \<notin> set xs"
  shows "plist (lnk(x := None)) p (xs @ [x])"
  using assms by (induction xs arbitrary: p) auto

section \<open>Machine words\<close>

lemma unat_word16_add1: "unat (w :: u16) < 65535 \<Longrightarrow> unat (w + 1) = unat w + 1"
  by (simp add: unat_word_ariths)

lemma unat_word16_sub1: "0 < unat (w :: u16) \<Longrightarrow> unat (w - 1) = unat w - 1"
  by (simp add: unat_sub_if')

lemma unat_u16_less: "unat (w :: u16) < 65536"
  using unsigned_less [of w] by simp

lemma unat_of_nat_word16: "n < 65536 \<Longrightarrow> unat (of_nat n :: u16) = n"
  by (simp add: unat_of_nat)

lemma unat_ucast_u8_u32 [simp]: "unat (ucast (x :: u8) :: u32) = unat x"
  using unsigned_less [of x, where 'a = nat]
  by (simp add: unsigned_ucast_eq take_bit_nat_eq_self)

lemma unat_u8_less [simp]: "unat (x :: u8) < 256"
  using unsigned_less [of x, where 'a = nat] by simp

lemma unat_ucast_u32_u8: "unat (ucast (x :: u32) :: u8) = unat x mod 256"
  by (simp add: unsigned_ucast_eq take_bit_eq_mod)

lemma ucast_u8_u32_id [simp]: "ucast (ucast (x :: u8) :: u32) = x"
  by (simp add: word_unat_eq_iff unat_ucast_u32_u8)

lemma unat_drop_bit: "unat (drop_bit n (x :: 'a::len word)) = unat x div 2 ^ n"
proof -
  have "unat (drop_bit n x) = drop_bit n (unat x)"
    by (simp only: unsigned_drop_bit_eq take_bit_nat_eq_self [OF unsigned_less])
  then show ?thesis by (simp add: drop_bit_eq_div)
qed

lemma drop_4_div: "unat (drop_bit 4 (x :: 'a::len word)) = unat x div 16"
  unfolding unat_drop_bit by simp

lemma and_15_mod: "unat ((x :: 'a::len word) AND 0xF) = unat x mod 16"
proof -
  have "x AND 0xF = take_bit 4 x" by (simp add: take_bit_eq_mask mask_eq_exp_minus_1)
  then have "unat (x AND 0xF) = take_bit 4 (unat x)" by (simp only: unsigned_take_bit_eq)
  then show ?thesis by (simp add: take_bit_eq_mod)
qed

lemma neg_uint_less [simp]: "0 < n \<Longrightarrow> - uint (x :: 'a::len word) < n"
proof -
  have "0 \<le> uint x" by simp
  then show "0 < n \<Longrightarrow> - uint x < n" by linarith
qed

lemma sint_u32_small: "unat (x :: u32) < 2 ^ 31 \<Longrightarrow> sint x = int (unat x)"
proof -
  assume "unat x < 2 ^ 31"
  then have "unat x < 2147483648" by simp
  moreover have "uint x = int (unat x)" by simp
  ultimately have "uint x < 2147483648" by linarith
  moreover have "0 \<le> uint x" by simp
  then have "- 2147483648 \<le> uint x" by linarith
  ultimately show ?thesis by (simp add: sint_uint signed_take_bit_int_eq_self)
qed

lemma drop_overwrite:
  "p + length w \<le> n \<Longrightarrow> n \<le> length xs \<Longrightarrow>
   drop n (take p xs @ w @ drop (p + length w) xs) = drop n xs"
  by (simp add: add.commute)

lemma length_overwrite:
  "p + length w \<le> length xs \<Longrightarrow>
   length (take p xs @ w @ drop (p + length w) xs) = length xs"
  by simp

lemma unat_add_le_bound:
  fixes x y :: "'a::len word"
  assumes "unat x + n \<le> unat y"
  shows "unat (x + of_nat n) = unat x + n"
proof -
  have "unat x + n < 2 ^ LENGTH('a)"
    using assms unsigned_less [of y, where 'a = nat] by linarith
  then show ?thesis
    by (simp add: unat_word_ariths unsigned_of_nat take_bit_nat_eq_self)
qed

lemma unat_plus1_less: "x < (y :: 'a::len word) \<Longrightarrow> unat (x + 1) = unat x + 1"
  using unat_add_le_bound [of x 1 y] by (simp add: word_less_nat_alt)

lemma unat_of_nat_u32: "n < 2 ^ 32 \<Longrightarrow> unat (of_nat n :: u32) = n"
  by (simp add: unsigned_of_nat take_bit_nat_eq_self)

lemma word_eq_of_nat: "unat x = n \<Longrightarrow> x = of_nat n"
  by (drule sym) simp

lemma unat_and_mask: "unat ((x :: 'a::len word) AND mask n) = unat x mod 2 ^ n"
proof -
  have "unat (take_bit n x) = take_bit n (unat x)" by (rule unsigned_take_bit_eq)
  then show ?thesis by (simp add: take_bit_eq_mod flip: take_bit_eq_mask)
qed

lemma and_7_mask: "(x :: 'a::len word) AND 7 = x AND mask 3"
  by (simp add: mask_eq_exp_minus_1)

end
