(* ===== verification/PktQueue.thy ===== *)
theory PktQueue
  imports Prelude
begin

text \<open>
  The multiple-precedence packet queue of the wireless driver
  (\<open>target/linux/package/bcmwl/src/driver/bcmutils.c\<close>, \<open>pktq_*\<close>). Packets are pointers;
  \<open>plink\<close> is the store of their link fields (PKTLINK, PKTSETLINK), \<open>pfreed\<close> the packets
  handed to PKTFREE so far, \<open>que\<close> the queue header. An operation returns \<open>None\<close> where the
  C code would dereference a null pointer or index past the array \<open>q\<close>; the loops that
  follow links are partial functions, so that a loop that does not end is \<open>None\<close> too.
  \<open>ASSERT\<close> expands to nothing in this build, so the asserted conditions are the callers'
  contract and appear as hypotheses. \<open>pq_abs s ls\<close> relates a state to one list of packets
  per precedence; each operation is shown to refine an operation on such lists.
\<close>

section \<open>State\<close>

type_synonym pkt = nat

record pktq_prec =
  q_head :: "pkt option"
  q_tail :: "pkt option"
  q_len :: u16
  q_max :: u16

record pktq =
  num_prec :: u16
  hi_prec :: u16
  pq_max :: u16
  pq_len :: u16
  pq :: "pktq_prec list"

record qstate =
  plink :: "pkt \<Rightarrow> pkt option"
  pfreed :: "pkt list"
  que :: pktq

section \<open>Operations\<close>

definition pktq_pfull :: "qstate \<Rightarrow> nat \<Rightarrow> bool" where
  "pktq_pfull s prec \<longleftrightarrow> q_max (pq (que s) ! prec) \<le> q_len (pq (que s) ! prec)"

definition pktq_full :: "qstate \<Rightarrow> bool" where
  "pktq_full s \<longleftrightarrow> pq_max (que s) \<le> pq_len (que s)"

definition pktq_empty :: "qstate \<Rightarrow> bool" where
  "pktq_empty s \<longleftrightarrow> pq_len (que s) = 0"

definition pktq_plen :: "qstate \<Rightarrow> nat \<Rightarrow> nat" where
  "pktq_plen s prec = unat (q_len (pq (que s) ! prec))"

definition upd_q :: "qstate \<Rightarrow> nat \<Rightarrow> pktq_prec \<Rightarrow> qstate" where
  "upd_q s prec q = s\<lparr>que := (que s)\<lparr>pq := (pq (que s))[prec := q]\<rparr>\<rparr>"

definition raise_hi :: "qstate \<Rightarrow> nat \<Rightarrow> qstate" where
  "raise_hi s prec =
     (if unat (hi_prec (que s)) < prec
      then s\<lparr>que := (que s)\<lparr>hi_prec := of_nat (prec mod 256)\<rparr>\<rparr> else s)"

definition incr_len :: "qstate \<Rightarrow> qstate" where
  "incr_len s = s\<lparr>que := (que s)\<lparr>pq_len := pq_len (que s) + 1\<rparr>\<rparr>"

definition decr_len :: "qstate \<Rightarrow> qstate" where
  "decr_len s = s\<lparr>que := (que s)\<lparr>pq_len := pq_len (que s) - 1\<rparr>\<rparr>"

definition set_link :: "qstate \<Rightarrow> pkt \<Rightarrow> pkt option \<Rightarrow> qstate" where
  "set_link s p v = s\<lparr>plink := (plink s)(p := v)\<rparr>"

definition pktq_penq :: "qstate \<Rightarrow> nat \<Rightarrow> pkt \<Rightarrow> (pkt \<times> qstate) option" where
  "pktq_penq s prec p =
     (if prec < length (pq (que s)) then
        (let q = pq (que s) ! prec in
         case (case q_head q of
                 Some _ \<Rightarrow>
                   (case q_tail q of None \<Rightarrow> None | Some t \<Rightarrow> Some (set_link s t (Some p), q))
               | None \<Rightarrow> Some (s, q\<lparr>q_head := Some p\<rparr>)) of
           None \<Rightarrow> None
         | Some (s, q) \<Rightarrow>
             (let s = upd_q s prec (q\<lparr>q_tail := Some p, q_len := q_len q + 1\<rparr>)
              in Some (p, raise_hi (incr_len s) prec)))
      else None)"

definition pktq_penq_head :: "qstate \<Rightarrow> nat \<Rightarrow> pkt \<Rightarrow> (pkt \<times> qstate) option" where
  "pktq_penq_head s prec p =
     (if prec < length (pq (que s)) then
        (let q = pq (que s) ! prec;
             q1 = (if q_head q = None then q\<lparr>q_tail := Some p\<rparr> else q);
             s = set_link s p (q_head q);
             s = upd_q s prec (q1\<lparr>q_head := Some p, q_len := q_len q + 1\<rparr>)
         in Some (p, raise_hi (incr_len s) prec))
      else None)"

text \<open>The statements \<open>pktq_pdeq\<close>, \<open>pktq_deq\<close> and \<open>pktq_mdeq\<close> share: unlink the head of
  the queue at one precedence.\<close>

definition take_head :: "qstate \<Rightarrow> nat \<Rightarrow> pkt option \<times> qstate" where
  "take_head s prec =
     (let q = pq (que s) ! prec in
      case q_head q of
        None \<Rightarrow> (None, s)
      | Some p \<Rightarrow>
          (let q1 = q\<lparr>q_head := plink s p\<rparr>;
               q2 = (if plink s p = None then q1\<lparr>q_tail := None\<rparr> else q1);
               s = decr_len (upd_q s prec (q2\<lparr>q_len := q_len q - 1\<rparr>))
           in (Some p, set_link s p None)))"

definition pktq_pdeq :: "qstate \<Rightarrow> nat \<Rightarrow> (pkt option \<times> qstate) option" where
  "pktq_pdeq s prec =
     (if prec < length (pq (que s)) then Some (take_head s prec) else None)"

text \<open>The loop \<open>for (prev = NULL; p != q->tail; p = PKTLINK (p)) prev = p\<close>.\<close>

partial_function (option) walk_tail ::
  "(pkt \<Rightarrow> pkt option) \<Rightarrow> pkt option \<Rightarrow> pkt option \<Rightarrow> pkt option \<Rightarrow> (pkt option \<times> pkt option) option"
where
  "walk_tail lnk t p prev =
     (if p = t then Some (p, prev)
      else (case p of None \<Rightarrow> None | Some a \<Rightarrow> walk_tail lnk t (lnk a) (Some a)))"

definition take_tail :: "qstate \<Rightarrow> nat \<Rightarrow> (pkt option \<times> qstate) option" where
  "take_tail s prec =
     (let q = pq (que s) ! prec in
      if q_head q = None then Some (None, s)
      else (case walk_tail (plink s) (q_tail q) (q_head q) None of
              None \<Rightarrow> None
            | Some (p, prev) \<Rightarrow>
                (let s1 = (case prev of Some a \<Rightarrow> set_link s a None | None \<Rightarrow> s);
                     q1 = (if prev = None then q\<lparr>q_head := None\<rparr> else q);
                     s2 = upd_q s1 prec (q1\<lparr>q_tail := prev, q_len := q_len q - 1\<rparr>)
                 in Some (p, decr_len s2))))"

definition pktq_pdeq_tail :: "qstate \<Rightarrow> nat \<Rightarrow> (pkt option \<times> qstate) option" where
  "pktq_pdeq_tail s prec =
     (if prec < length (pq (que s)) then take_tail s prec else None)"

partial_function (option) pflush_loop :: "qstate \<Rightarrow> nat \<Rightarrow> pkt option \<Rightarrow> qstate option" where
  "pflush_loop s prec p =
     (case p of
        None \<Rightarrow> Some s
      | Some a \<Rightarrow>
          (let q = pq (que s) ! prec; nxt = plink s a;
               s1 = set_link s a None;
               s2 = s1\<lparr>pfreed := pfreed s @ [a]\<rparr>;
               s3 = upd_q s2 prec (q\<lparr>q_head := nxt, q_len := q_len q - 1\<rparr>)
           in pflush_loop (decr_len s3) prec nxt))"

definition pktq_pflush :: "qstate \<Rightarrow> nat \<Rightarrow> qstate option" where
  "pktq_pflush s prec =
     (if prec < length (pq (que s)) then
        (case pflush_loop s prec (q_head (pq (que s) ! prec)) of
           None \<Rightarrow> None
         | Some s' \<Rightarrow> Some (upd_q s' prec ((pq (que s') ! prec)\<lparr>q_tail := None\<rparr>)))
      else None)"

definition pktq_init :: "qstate \<Rightarrow> nat \<Rightarrow> nat \<Rightarrow> qstate" where
  "pktq_init s np max_len =
     s\<lparr>que := \<lparr>num_prec = of_nat np, hi_prec = 0, pq_max = of_nat max_len, pq_len = 0,
       pq = replicate np \<lparr>q_head = None, q_tail = None, q_len = 0, q_max = of_nat max_len\<rparr>
            @ drop np (pq (que s))\<rparr>\<rparr>"

definition pktq_setmax :: "qstate \<Rightarrow> nat \<Rightarrow> nat \<times> qstate" where
  "pktq_setmax s max_len =
     (if max_len = 0 then (unat (pq_max (que s)), s)
      else (let m = of_nat max_len; k = unat (num_prec (que s)); qs = pq (que s);
                qs' = map (\<lambda>q. q\<lparr>q_max := m\<rparr>) (take k qs) @ drop k qs
            in (unat m, s\<lparr>que := (que s)\<lparr>pq_max := m, pq := qs'\<rparr>\<rparr>)))"

text \<open>\<open>while ((prec = pq->hi_prec) > 0 && pq->q[prec].head == NULL) pq->hi_prec--\<close>\<close>

fun hi_scan :: "pktq_prec list \<Rightarrow> nat \<Rightarrow> nat" where
  "hi_scan qs 0 = 0"
| "hi_scan qs (Suc n) = (if q_head (qs ! Suc n) = None then hi_scan qs n else Suc n)"

definition lower_hi :: "qstate \<Rightarrow> nat \<Rightarrow> qstate" where
  "lower_hi s prec = s\<lparr>que := (que s)\<lparr>hi_prec := of_nat prec\<rparr>\<rparr>"

definition pktq_deq :: "qstate \<Rightarrow> ((pkt \<times> nat) option \<times> qstate) option" where
  "pktq_deq s =
     (if pq_len (que s) = 0 then Some (None, s)
      else if unat (hi_prec (que s)) < length (pq (que s)) then
        (let prec = hi_scan (pq (que s)) (unat (hi_prec (que s)));
             s = lower_hi s prec
         in case take_head s prec of
              (None, s) \<Rightarrow> Some (None, s)
            | (Some p, s) \<Rightarrow> Some (Some (p, prec), s))
      else None)"

text \<open>\<open>for (prec = 0; prec < pq->hi_prec; prec++) if (pq->q[prec].head) break\<close>\<close>

function lo_scan :: "pktq_prec list \<Rightarrow> nat \<Rightarrow> nat \<Rightarrow> nat" where
  "lo_scan qs prec hi =
     (if prec < hi then (if q_head (qs ! prec) \<noteq> None then prec else lo_scan qs (Suc prec) hi)
      else prec)"
  by pat_completeness auto
termination
  by (relation "measure (\<lambda>(qs, prec, hi). hi - prec)") auto

declare lo_scan.simps [simp del]

definition pktq_deq_tail :: "qstate \<Rightarrow> ((pkt \<times> nat) option \<times> qstate) option" where
  "pktq_deq_tail s =
     (if pq_len (que s) = 0 then Some (None, s)
      else if unat (hi_prec (que s)) < length (pq (que s)) then
        (let prec = lo_scan (pq (que s)) 0 (unat (hi_prec (que s)))
         in case take_tail s prec of
              None \<Rightarrow> None
            | Some (None, s) \<Rightarrow> Some (None, s)
            | Some (Some p, s) \<Rightarrow> Some (Some (p, prec), set_link s p None))
      else None)"

definition pktq_peek_tail :: "qstate \<Rightarrow> (pkt option \<times> nat) option option" where
  "pktq_peek_tail s =
     (if pq_len (que s) = 0 then Some None
      else if unat (hi_prec (que s)) < length (pq (que s)) then
        (let prec = lo_scan (pq (que s)) 0 (unat (hi_prec (que s)))
         in Some (Some (q_tail (pq (que s) ! prec), prec)))
      else None)"

fun flush_from :: "qstate \<Rightarrow> nat list \<Rightarrow> qstate option" where
  "flush_from s [] = Some s"
| "flush_from s (i # is) =
     (case pktq_pflush s i of None \<Rightarrow> None | Some s' \<Rightarrow> flush_from s' is)"

definition pktq_flush :: "qstate \<Rightarrow> qstate option" where
  "pktq_flush s = flush_from s [0 ..< unat (num_prec (que s))]"

definition pktq_mlen :: "qstate \<Rightarrow> u32 \<Rightarrow> nat option" where
  "pktq_mlen s prec_bmp =
     (if unat (hi_prec (que s)) < length (pq (que s)) then
        Some (sum_list (map (\<lambda>prec. if bit prec_bmp prec
                                    then unat (q_len (pq (que s) ! prec)) else 0)
               [0 ..< Suc (unat (hi_prec (que s)))]))
      else None)"

text \<open>\<open>while ((prec_bmp & (1 << prec)) == 0 || pq->q[prec].head == NULL) if (prec-- == 0)
  return NULL\<close>\<close>

fun m_scan :: "u32 \<Rightarrow> pktq_prec list \<Rightarrow> nat \<Rightarrow> nat option" where
  "m_scan bmp qs 0 = (if \<not> bit bmp 0 \<or> q_head (qs ! 0) = None then None else Some 0)"
| "m_scan bmp qs (Suc n) =
     (if \<not> bit bmp (Suc n) \<or> q_head (qs ! Suc n) = None then m_scan bmp qs n
      else Some (Suc n))"

definition pktq_mdeq :: "qstate \<Rightarrow> u32 \<Rightarrow> ((pkt \<times> nat) option \<times> qstate) option" where
  "pktq_mdeq s prec_bmp =
     (if pq_len (que s) = 0 then Some (None, s)
      else if unat (hi_prec (que s)) < length (pq (que s)) then
        (let hi = hi_scan (pq (que s)) (unat (hi_prec (que s)));
             s = lower_hi s hi
         in case m_scan prec_bmp (pq (que s)) hi of
              None \<Rightarrow> Some (None, s)
            | Some prec \<Rightarrow>
                (case take_head s prec of
                   (None, s) \<Rightarrow> Some (None, s)
                 | (Some p, s) \<Rightarrow> Some (Some (p, prec), s)))
      else None)"


section \<open>Abstraction: one list of packets per precedence\<close>

definition q_rep :: "(pkt \<Rightarrow> pkt option) \<Rightarrow> pktq_prec \<Rightarrow> pkt list \<Rightarrow> bool" where
  "q_rep lnk q xs \<longleftrightarrow>
     plist lnk (q_head q) xs \<and>
     q_tail q = (if xs = [] then None else Some (last xs)) \<and>
     unat (q_len q) = length xs"

definition pq_abs :: "qstate \<Rightarrow> pkt list list \<Rightarrow> bool" where
  "pq_abs s ls \<longleftrightarrow>
     length ls = unat (num_prec (que s)) \<and> 0 < length ls \<and> length ls \<le> 16 \<and>
     length ls \<le> length (pq (que s)) \<and>
     (\<forall>i < length ls. q_rep (plink s) (pq (que s) ! i) (ls ! i)) \<and>
     distinct (concat ls) \<and>
     unat (pq_len (que s)) = length (concat ls) \<and>
     unat (hi_prec (que s)) < length ls \<and>
     (\<forall>i < length ls. ls ! i \<noteq> [] \<longrightarrow> i \<le> unat (hi_prec (que s)))"

lemma pq_absD:
  assumes "pq_abs s ls"
  shows "length ls = unat (num_prec (que s))" "0 < length ls" "length ls \<le> 16"
    "length ls \<le> length (pq (que s))"
    "i < length ls \<Longrightarrow> q_rep (plink s) (pq (que s) ! i) (ls ! i)"
    "distinct (concat ls)" "unat (pq_len (que s)) = length (concat ls)"
    "unat (hi_prec (que s)) < length ls"
    "i < length ls \<Longrightarrow> ls ! i \<noteq> [] \<Longrightarrow> i \<le> unat (hi_prec (que s))"
  using assms [unfolded pq_abs_def] by blast+

lemma q_repD:
  assumes "q_rep lnk q xs"
  shows "plist lnk (q_head q) xs" "xs = [] \<Longrightarrow> q_tail q = None"
    "xs \<noteq> [] \<Longrightarrow> q_tail q = Some (last xs)" "unat (q_len q) = length xs"
    "q_head q = (if xs = [] then None else Some (hd xs))"
  using assms plist_head [of lnk "q_head q" xs] by (simp_all add: q_rep_def)

lemma q_rep_cong:
  "q_rep lnk q xs \<Longrightarrow> (\<And>x. x \<in> set xs \<Longrightarrow> lnk' x = lnk x) \<Longrightarrow> q_rep lnk' q xs"
  using plist_cong [of xs lnk' lnk "q_head q"] by (simp add: q_rep_def)

text \<open>The one rule every operation uses: only the queue at precedence \<open>i\<close> and links of its
  packets (or of a packet in no queue) change.\<close>

lemma pq_abs_updI:
  assumes abs: "pq_abs s ls" and i: "i < length ls"
    and np: "num_prec (que s') = num_prec (que s)"
    and qs: "pq (que s') = (pq (que s))[i := q']"
    and rep: "q_rep (plink s') q' xs"
    and frame: "\<And>j x. j < length ls \<Longrightarrow> j \<noteq> i \<Longrightarrow> x \<in> set (ls ! j) \<Longrightarrow> plink s' x = plink s x"
    and dist: "distinct (concat (ls[i := xs]))"
    and len: "unat (pq_len (que s')) = length (concat (ls[i := xs]))"
    and hi: "unat (hi_prec (que s')) < length ls"
    and hi_max: "\<And>j. j < length ls \<Longrightarrow> (ls[i := xs]) ! j \<noteq> [] \<Longrightarrow> j \<le> unat (hi_prec (que s'))"
  shows "pq_abs s' (ls[i := xs])"
proof -
  have reps: "q_rep (plink s') (pq (que s') ! j) ((ls[i := xs]) ! j)" if j: "j < length ls" for j
  proof (cases "j = i")
    case True
    with i j rep pq_absD(4) [OF abs] show ?thesis by (simp add: qs)
  next
    case False
    with pq_absD(5) [OF abs j] frame [OF j False] have "q_rep (plink s') (pq (que s) ! j) (ls ! j)"
      by (blast intro: q_rep_cong)
    with False show ?thesis by (simp add: qs)
  qed
  show ?thesis
    unfolding pq_abs_def
    using reps dist len hi hi_max pq_absD(1-4) [OF abs] by (simp add: np qs)
qed

lemmas pq_update_simps =
  upd_q_def raise_hi_def incr_len_def decr_len_def set_link_def lower_hi_def

lemma pq_notin_other:
  "pq_abs s ls \<Longrightarrow> i < length ls \<Longrightarrow> j < length ls \<Longrightarrow> j \<noteq> i \<Longrightarrow>
   x \<in> set (ls ! i) \<Longrightarrow> x \<notin> set (ls ! j)"
  using distinct_concat_disjoint [of ls i j] pq_absD(6) [of s ls] by blast

lemma pq_notin_concat:
  "x \<notin> set (concat ls) \<Longrightarrow> j < length ls \<Longrightarrow> x \<notin> set (ls ! j)"
  by auto

lemma pq_len_le:
  assumes "pq_abs s ls" "i < length ls"
  shows "length (ls ! i) \<le> length (concat ls)" "length (concat ls) < 65536"
    "length (ls ! i) = unat (q_len (pq (que s) ! i))"
  using length_nth_le_concat [OF assms(2)] pq_absD(7) [OF assms(1)]
    unat_u16_less [of "pq_len (que s)"] q_repD(4) [OF pq_absD(5) [OF assms]]
  by auto

section \<open>The operations refine list operations\<close>

lemma pq_not_full:
  assumes abs: "pq_abs s ls" and room: "\<not> pktq_full s"
  shows "length (concat ls) + 1 < 65536" "unat (pq_len (que s) + 1) = length (concat ls) + 1"
proof -
  have "unat (pq_len (que s)) < unat (pq_max (que s))"
    using room by (simp add: pktq_full_def word_le_nat_alt)
  moreover have "unat (pq_max (que s)) < 65536"
    using unat_u16_less [of "pq_max (que s)"] by simp
  ultimately show *: "length (concat ls) + 1 < 65536"
    using pq_absD(7) [OF abs] by simp
  show "unat (pq_len (que s) + 1) = length (concat ls) + 1"
    using * pq_absD(7) [OF abs] by (simp add: unat_word16_add1)
qed

lemma q_rep_snoc:
  assumes rep: "q_rep lnk q xs" and p: "p \<notin> set xs" "lnk p = None" and d: "distinct xs"
    and len: "length xs + 1 < 65536"
  shows "q_rep (if xs = [] then lnk else lnk(last xs := Some p))
           ((if xs = [] then q\<lparr>q_head := Some p\<rparr> else q)\<lparr>q_tail := Some p, q_len := q_len q + 1\<rparr>)
           (xs @ [p])"
proof -
  have l: "unat (q_len q + 1) = length xs + 1"
    using q_repD(4) [OF rep] len by (simp add: unat_word16_add1)
  show ?thesis
  proof (cases xs rule: rev_cases)
    case Nil
    with l p show ?thesis by (simp add: q_rep_def)
  next
    case (snoc ys y)
    have "plist (lnk(y := Some p)) (q_head q) (ys @ [y, p])"
      using q_repD(1) [OF rep] p d snoc by (intro plist_snoc) auto
    with l snoc q_repD(5) [OF rep] show ?thesis by (simp add: q_rep_def)
  qed
qed


lemma pktq_penq_refines:
  assumes abs: "pq_abs s ls" and prec: "prec < length ls"
    and link: "plink s p = None" and room: "\<not> pktq_full s"
    and fresh: "p \<notin> set (concat ls)"
  shows "\<exists>s'. pktq_penq s prec p = Some (p, s') \<and> pq_abs s' (ls[prec := ls ! prec @ [p]]) \<and>
              pfreed s' = pfreed s"
proof -
  let ?q = "pq (que s) ! prec" and ?xs = "ls ! prec"
  let ?lnk = "if ?xs = [] then plink s else (plink s)(last ?xs := Some p)"
  let ?q' = "(if ?xs = [] then ?q\<lparr>q_head := Some p\<rparr> else ?q)\<lparr>q_tail := Some p, q_len := q_len ?q + 1\<rparr>"
  have rep: "q_rep (plink s) ?q ?xs" by (rule pq_absD(5) [OF abs prec])
  have len: "length ?xs + 1 < 65536"
    using pq_len_le(1) [OF abs prec] pq_not_full(1) [OF abs room] by linarith
  have p: "p \<notin> set ?xs" using fresh prec by (rule pq_notin_concat)
  have bound: "prec < length (pq (que s))" "prec < 256"
    using prec pq_absD(3,4) [OF abs] by auto
  define hi where "hi = (if unat (hi_prec (que s)) < prec then of_nat (prec mod 256) else hi_prec (que s))"
  define s' where "s' = s\<lparr>plink := ?lnk, que := (que s)\<lparr>pq := (pq (que s))[prec := ?q'],
      pq_len := pq_len (que s) + 1, hi_prec := hi\<rparr>\<rparr>"
  have eq: "pktq_penq s prec p = Some (p, s')"
    using bound q_repD(2,3,5) [OF rep]
    by (auto simp: pktq_penq_def pq_update_simps s'_def hi_def Let_def)
  have hi: "unat hi = max (unat (hi_prec (que s))) prec"
    using bound(2) by (auto simp: hi_def unat_of_nat_word16)
  have "pq_abs s' (ls[prec := ?xs @ [p]])"
  proof (rule pq_abs_updI [OF abs prec])
    show "q_rep (plink s') ?q' (?xs @ [p])"
      using q_rep_snoc [OF rep p link _ len] distinct_concat_nth [OF pq_absD(6) [OF abs] prec]
      by (simp add: s'_def)
    show "plink s' x = plink s x" if "j < length ls" "j \<noteq> prec" "x \<in> set (ls ! j)" for j x
      using that pq_notin_other [OF abs prec that(1,2), of "last ?xs"] by (auto simp: s'_def)
    show "distinct (concat (ls[prec := ?xs @ [p]]))"
      using distinct_concat_nth [OF pq_absD(6) [OF abs] prec] p
      by (intro distinct_concat_insert [OF prec pq_absD(6) [OF abs] _ _ fresh]) auto
    show "unat (pq_len (que s')) = length (concat (ls[prec := ?xs @ [p]]))"
      using length_concat_update [OF prec, of "?xs @ [p]"] pq_not_full(2) [OF abs room]
      by (simp add: s'_def)
    show "unat (hi_prec (que s')) < length ls"
      using pq_absD(8) [OF abs] prec by (simp add: s'_def hi)
    show "j \<le> unat (hi_prec (que s'))" if "j < length ls" "ls[prec := ?xs @ [p]] ! j \<noteq> []" for j
      using pq_absD(9) [OF abs that(1)] that by (cases "j = prec") (auto simp: s'_def hi)
  qed (simp_all add: s'_def)
  with eq show ?thesis by (auto simp: s'_def)
qed


lemma pq_head_iff:
  "pq_abs s ls \<Longrightarrow> i < length ls \<Longrightarrow>
   q_head (pq (que s) ! i) = (if ls ! i = [] then None else Some (hd (ls ! i)))"
  using q_repD(5) [OF pq_absD(5)] by blast

lemma pktq_penq_head_refines:
  assumes abs: "pq_abs s ls" and prec: "prec < length ls"
    and room: "\<not> pktq_full s" and fresh: "p \<notin> set (concat ls)"
  shows "\<exists>s'. pktq_penq_head s prec p = Some (p, s') \<and> pq_abs s' (ls[prec := p # ls ! prec]) \<and>
              pfreed s' = pfreed s"
proof -
  let ?q = "pq (que s) ! prec" and ?xs = "ls ! prec"
  let ?q' = "(if q_head ?q = None then ?q\<lparr>q_tail := Some p\<rparr> else ?q)
               \<lparr>q_head := Some p, q_len := q_len ?q + 1\<rparr>"
  have rep: "q_rep (plink s) ?q ?xs" by (rule pq_absD(5) [OF abs prec])
  have "length ?xs + 1 < 65536"
    using pq_len_le(1) [OF abs prec] pq_not_full(1) [OF abs room] by linarith
  then have len: "unat (q_len ?q + 1) = length ?xs + 1"
    using q_repD(4) [OF rep] by (simp add: unat_word16_add1)
  have p: "p \<notin> set ?xs" using fresh prec by (rule pq_notin_concat)
  have bound: "prec < length (pq (que s))" "prec < 256"
    using prec pq_absD(3,4) [OF abs] by auto
  define hi where "hi = (if unat (hi_prec (que s)) < prec then of_nat (prec mod 256) else hi_prec (que s))"
  define s' where "s' = s\<lparr>plink := (plink s)(p := q_head ?q), que := (que s)\<lparr>pq := (pq (que s))[prec := ?q'],
      pq_len := pq_len (que s) + 1, hi_prec := hi\<rparr>\<rparr>"
  have eq: "pktq_penq_head s prec p = Some (p, s')"
    using bound by (auto simp: pktq_penq_head_def pq_update_simps s'_def hi_def Let_def)
  have hi: "unat hi = max (unat (hi_prec (que s))) prec"
    using bound(2) by (auto simp: hi_def unat_of_nat_word16)
  have "pq_abs s' (ls[prec := p # ?xs])"
  proof (rule pq_abs_updI [OF abs prec])
    show "q_rep (plink s') ?q' (p # ?xs)"
      using q_repD [OF rep] p len by (auto simp: s'_def q_rep_def)
    show "plink s' x = plink s x" if "j < length ls" "j \<noteq> prec" "x \<in> set (ls ! j)" for j x
      using that fresh by (auto simp: s'_def)
    show "distinct (concat (ls[prec := p # ?xs]))"
      using distinct_concat_nth [OF pq_absD(6) [OF abs] prec] p
      by (intro distinct_concat_insert [OF prec pq_absD(6) [OF abs] _ _ fresh]) auto
    show "unat (pq_len (que s')) = length (concat (ls[prec := p # ?xs]))"
      using length_concat_update [OF prec, of "p # ?xs"] pq_not_full(2) [OF abs room]
      by (simp add: s'_def)
    show "unat (hi_prec (que s')) < length ls"
      using pq_absD(8) [OF abs] prec by (simp add: s'_def hi)
    show "j \<le> unat (hi_prec (que s'))" if "j < length ls" "ls[prec := p # ?xs] ! j \<noteq> []" for j
      using pq_absD(9) [OF abs that(1)] that by (cases "j = prec") (auto simp: s'_def hi)
  qed (simp_all add: s'_def)
  with eq show ?thesis by (auto simp: s'_def)
qed

lemma pq_shrink_len:
  assumes abs: "pq_abs s ls" and i: "i < length ls" and ne: "ls ! i \<noteq> []"
    and xs: "length xs + 1 = length (ls ! i)"
  shows "unat (pq_len (que s) - 1) = length (concat (ls[i := xs]))"
    "unat (q_len (pq (que s) ! i) - 1) = length xs"
proof -
  have "0 < length (ls ! i)" using ne by simp
  then have "0 < unat (pq_len (que s))" "0 < unat (q_len (pq (que s) ! i))"
    using pq_len_le [OF abs i] pq_absD(7) [OF abs] by linarith+
  then show "unat (pq_len (que s) - 1) = length (concat (ls[i := xs]))"
    "unat (q_len (pq (que s) ! i) - 1) = length xs"
    using length_concat_update [OF i, of xs] xs pq_len_le(3) [OF abs i] pq_absD(7) [OF abs]
    by (auto simp: unat_word16_sub1)
qed

lemma take_head_empty:
  "pq_abs s ls \<Longrightarrow> prec < length ls \<Longrightarrow> ls ! prec = [] \<Longrightarrow> take_head s prec = (None, s)"
  by (simp add: take_head_def pq_head_iff Let_def)

lemma take_head_refines:
  assumes abs: "pq_abs s ls" and prec: "prec < length ls" and xs: "ls ! prec = x # xs"
  shows "\<exists>s'. take_head s prec = (Some x, s') \<and> pq_abs s' (ls[prec := xs]) \<and>
              plink s' x = None \<and> pfreed s' = pfreed s"
proof -
  let ?q = "pq (que s) ! prec"
  let ?q' = "(if plink s x = None then ?q\<lparr>q_head := plink s x, q_tail := None\<rparr>
              else ?q\<lparr>q_head := plink s x\<rparr>)\<lparr>q_len := q_len ?q - 1\<rparr>"
  have rep: "q_rep (plink s) ?q (x # xs)"
    using pq_absD(5) [OF abs prec] xs by simp
  have dist: "distinct (x # xs)"
    using distinct_concat_nth [OF pq_absD(6) [OF abs] prec] xs by simp
  have bound: "prec < length (pq (que s))" using prec pq_absD(4) [OF abs] by auto
  define s' where "s' = s\<lparr>plink := (plink s)(x := None), que := (que s)\<lparr>pq := (pq (que s))[prec := ?q'],
      pq_len := pq_len (que s) - 1\<rparr>\<rparr>"
  have eq: "take_head s prec = (Some x, s')"
    using q_repD(5) [OF rep] by (auto simp: take_head_def pq_update_simps s'_def Let_def)
  have tl: "plist (plink s) (plink s x) xs" using q_repD(1) [OF rep] by simp
  have "pq_abs s' (ls[prec := xs])"
  proof (rule pq_abs_updI [OF abs prec])
    show "q_rep (plink s') ?q' xs"
      using tl plist_head [OF tl] q_repD(3) [OF rep] dist pq_shrink_len(2) [OF abs prec, of xs] xs
      by (auto simp: s'_def q_rep_def split: if_splits)
    show "plink s' z = plink s z" if "j < length ls" "j \<noteq> prec" "z \<in> set (ls ! j)" for j z
      using that pq_notin_other [OF abs prec that(1,2), of x] xs by (auto simp: s'_def)
    show "distinct (concat (ls[prec := xs]))"
      using dist xs by (intro distinct_concat_shrink [OF prec pq_absD(6) [OF abs]]) auto
    show "unat (pq_len (que s')) = length (concat (ls[prec := xs]))"
      using pq_shrink_len(1) [OF abs prec, of xs] xs by (simp add: s'_def)
    show "unat (hi_prec (que s')) < length ls"
      using pq_absD(8) [OF abs] by (simp add: s'_def)
    show "j \<le> unat (hi_prec (que s'))" if "j < length ls" "ls[prec := xs] ! j \<noteq> []" for j
      using pq_absD(9) [OF abs that(1)] that xs by (cases "j = prec") (auto simp: s'_def)
  qed (simp_all add: s'_def)
  with eq show ?thesis by (auto simp: s'_def)
qed

lemma walk_tail_plist:
  "plist lnk p (xs @ [x]) \<Longrightarrow> distinct (xs @ [x]) \<Longrightarrow>
   walk_tail lnk (Some x) p prev = Some (Some x, if xs = [] then prev else Some (last xs))"
proof (induction xs arbitrary: p prev)
  case Nil
  then show ?case by (simp add: walk_tail.simps)
next
  case (Cons a xs)
  then have "p = Some a" "plist lnk (lnk a) (xs @ [x])" "a \<noteq> x" by auto
  with Cons.IH [of "lnk a" "Some a"] Cons.prems(2) show ?case
    by (subst walk_tail.simps) simp
qed

lemma take_tail_empty:
  "pq_abs s ls \<Longrightarrow> prec < length ls \<Longrightarrow> ls ! prec = [] \<Longrightarrow> take_tail s prec = Some (None, s)"
  by (simp add: take_tail_def pq_head_iff Let_def)

lemma take_tail_refines:
  assumes abs: "pq_abs s ls" and prec: "prec < length ls" and xs: "ls ! prec = xs @ [x]"
  shows "\<exists>s'. take_tail s prec = Some (Some x, s') \<and> pq_abs s' (ls[prec := xs]) \<and>
              plink s' x = None \<and> pfreed s' = pfreed s"
proof -
  let ?q = "pq (que s) ! prec"
  let ?prev = "if xs = [] then None else Some (last xs)"
  let ?q' = "(if xs = [] then ?q\<lparr>q_head := None\<rparr> else ?q)\<lparr>q_tail := ?prev, q_len := q_len ?q - 1\<rparr>"
  have rep: "q_rep (plink s) ?q (xs @ [x])"
    using pq_absD(5) [OF abs prec] xs by simp
  have dist: "distinct (xs @ [x])"
    using distinct_concat_nth [OF pq_absD(6) [OF abs] prec] xs by simp
  have bound: "prec < length (pq (que s))" using prec pq_absD(4) [OF abs] by auto
  define s' where "s' = s\<lparr>plink := (if xs = [] then plink s else (plink s)(last xs := None)),
      que := (que s)\<lparr>pq := (pq (que s))[prec := ?q'], pq_len := pq_len (que s) - 1\<rparr>\<rparr>"
  have eq: "take_tail s prec = Some (Some x, s')"
    using q_repD(3,5) [OF rep] walk_tail_plist [OF q_repD(1) [OF rep] dist, of None]
    by (auto simp: take_tail_def pq_update_simps s'_def Let_def)
  have "plist (plink s') (q_head ?q') xs"
  proof (cases xs rule: rev_cases)
    case Nil
    then show ?thesis by simp
  next
    case (snoc ys y)
    then show ?thesis
      using q_repD(1) [OF rep] dist plist_butlast [of "plink s" "q_head ?q" ys y x]
      by (simp add: s'_def)
  qed
  then have rep': "q_rep (plink s') ?q' xs"
    using pq_shrink_len(2) [OF abs prec, of xs] xs by (simp add: q_rep_def)
  have "pq_abs s' (ls[prec := xs])"
  proof (rule pq_abs_updI [OF abs prec _ _ rep'])
    show "plink s' z = plink s z" if "j < length ls" "j \<noteq> prec" "z \<in> set (ls ! j)" for j z
      using that pq_notin_other [OF abs prec that(1,2), of "last xs"] xs by (auto simp: s'_def)
    show "distinct (concat (ls[prec := xs]))"
      using dist xs by (intro distinct_concat_shrink [OF prec pq_absD(6) [OF abs]]) auto
    show "unat (pq_len (que s')) = length (concat (ls[prec := xs]))"
      using pq_shrink_len(1) [OF abs prec, of xs] xs by (simp add: s'_def)
    show "unat (hi_prec (que s')) < length ls"
      using pq_absD(8) [OF abs] by (simp add: s'_def)
    show "j \<le> unat (hi_prec (que s'))" if "j < length ls" "ls[prec := xs] ! j \<noteq> []" for j
      using pq_absD(9) [OF abs that(1)] that xs by (cases "j = prec") (auto simp: s'_def)
  qed (simp_all add: s'_def)
  moreover have "plink s' x = None"
    using plist_last_link [OF q_repD(1) [OF rep]] by (simp add: s'_def)
  ultimately show ?thesis using eq by (auto simp: s'_def)
qed


section \<open>Choosing a precedence\<close>

lemma hi_scan_spec:
  "hi_scan qs n \<le> n"
  "hi_scan qs n < j \<Longrightarrow> j \<le> n \<Longrightarrow> q_head (qs ! j) = None"
  "hi_scan qs n \<noteq> 0 \<Longrightarrow> q_head (qs ! hi_scan qs n) \<noteq> None"
  by (induction n) (auto simp: le_Suc_eq split: if_splits)

lemma lo_scan_spec:
  "prec \<le> hi \<Longrightarrow>
   prec \<le> lo_scan qs prec hi \<and> lo_scan qs prec hi \<le> hi \<and>
   (\<forall>j. prec \<le> j \<and> j < lo_scan qs prec hi \<longrightarrow> q_head (qs ! j) = None) \<and>
   (lo_scan qs prec hi < hi \<longrightarrow> q_head (qs ! lo_scan qs prec hi) \<noteq> None)"
proof (induction qs prec hi rule: lo_scan.induct)
  case (1 qs prec hi)
  show ?case
  proof (cases "prec < hi \<and> q_head (qs ! prec) = None")
    case True
    with 1 have IH: "Suc prec \<le> lo_scan qs (Suc prec) hi \<and> lo_scan qs (Suc prec) hi \<le> hi \<and>
       (\<forall>j. Suc prec \<le> j \<and> j < lo_scan qs (Suc prec) hi \<longrightarrow> q_head (qs ! j) = None) \<and>
       (lo_scan qs (Suc prec) hi < hi \<longrightarrow> q_head (qs ! lo_scan qs (Suc prec) hi) \<noteq> None)"
      by auto
    have "q_head (qs ! j) = None" if "prec \<le> j" "j < lo_scan qs (Suc prec) hi" for j
      using that True IH by (cases "j = prec") auto
    with IH True show ?thesis by (subst (1 2 3 4 5) lo_scan.simps) auto
  next
    case False
    with 1(2) show ?thesis by (subst (1 2 3 4 5) lo_scan.simps) auto
  qed
qed

lemma m_scan_None:
  "m_scan bmp qs n = None \<longleftrightarrow> (\<forall>j \<le> n. bit bmp j \<longrightarrow> q_head (qs ! j) = None)"
  by (induction n) (auto simp: le_Suc_eq)

lemma m_scan_Some:
  "m_scan bmp qs n = Some i \<Longrightarrow>
   i \<le> n \<and> bit bmp i \<and> q_head (qs ! i) \<noteq> None \<and>
   (\<forall>j. i < j \<and> j \<le> n \<and> bit bmp j \<longrightarrow> q_head (qs ! j) = None)"
  by (induction n) (auto simp: le_Suc_eq split: if_splits)

lemma lower_hi_abs:
  assumes "pq_abs s ls" "hi < length ls" "\<And>j. hi < j \<Longrightarrow> j < length ls \<Longrightarrow> ls ! j = []"
  shows "pq_abs (lower_hi s hi) ls"
proof -
  have "hi < 65536" using assms(1,2) pq_absD(3) by fastforce
  then have "unat (of_nat hi :: u16) = hi" by (rule unat_of_nat_word16)
  with assms show ?thesis
    unfolding pq_abs_def lower_hi_def by (auto simp: not_less [symmetric])
qed

lemma pq_empty_iff:
  "pq_abs s ls \<Longrightarrow> pq_len (que s) = 0 \<longleftrightarrow> concat ls = []"
  using pq_absD(7) [of s ls] by (metis length_0_conv unat_eq_zero)

text \<open>Above the hint every queue is empty, so the scan finds the highest non-empty one.\<close>

lemma pq_hi_scan:
  assumes abs: "pq_abs s ls" and ne: "concat ls \<noteq> []"
  defines "hi \<equiv> hi_scan (pq (que s)) (unat (hi_prec (que s)))"
  shows "hi < length ls" "ls ! hi \<noteq> []" "\<And>j. hi < j \<Longrightarrow> j < length ls \<Longrightarrow> ls ! j = []"
proof -
  show lt: "hi < length ls"
    using hi_scan_spec(1) [of "pq (que s)" "unat (hi_prec (que s))"] pq_absD(8) [OF abs]
    by (simp add: hi_def)
  show above: "ls ! j = []" if "hi < j" "j < length ls" for j
  proof (rule ccontr)
    assume "ls ! j \<noteq> []"
    with pq_absD(9) [OF abs that(2)] have "q_head (pq (que s) ! j) = None"
      using hi_scan_spec(2) that(1) by (simp add: hi_def)
    with \<open>ls ! j \<noteq> []\<close> pq_head_iff [OF abs that(2)] show False by simp
  qed
  show "ls ! hi \<noteq> []"
  proof (cases "hi = 0")
    case True
    from ne obtain i where "i < length ls" "ls ! i \<noteq> []"
      by (auto simp: in_set_conv_nth)
    with above True show ?thesis by (cases i) auto
  next
    case False
    then have "q_head (pq (que s) ! hi) \<noteq> None"
      using hi_scan_spec(3) by (simp add: hi_def)
    with pq_head_iff [OF abs lt] show ?thesis by (auto split: if_splits)
  qed
qed

lemma pktq_deq_refines:
  assumes abs: "pq_abs s ls" and i: "i < length ls" and head: "ls ! i = x # xs"
    and top: "\<And>j. i < j \<Longrightarrow> j < length ls \<Longrightarrow> ls ! j = []"
  shows "\<exists>s'. pktq_deq s = Some (Some (x, i), s') \<and> pq_abs s' (ls[i := xs]) \<and>
              plink s' x = None \<and> pfreed s' = pfreed s"
proof -
  let ?hi = "hi_scan (pq (que s)) (unat (hi_prec (que s)))"
  have ne: "concat ls \<noteq> []" using concat_nonempty [OF i] head by simp
  note hi = pq_hi_scan [OF abs ne]
  have [simp]: "?hi = i"
    using hi head i top by (metis list.distinct(1) nat_neq_iff)
  have abs': "pq_abs (lower_hi s i) ls" using abs i top by (rule lower_hi_abs)
  from take_head_refines [OF abs' i head] obtain s' where
    s': "take_head (lower_hi s i) i = (Some x, s')" "pq_abs s' (ls[i := xs])"
      "plink s' x = None" "pfreed s' = pfreed s" by (auto simp: lower_hi_def)
  have "pq_len (que s) \<noteq> 0" "unat (hi_prec (que s)) < length (pq (que s))"
    using pq_empty_iff [OF abs] ne pq_absD(4,8) [OF abs] by auto
  with s' show ?thesis by (simp add: pktq_deq_def Let_def)
qed

lemma pktq_deq_empty:
  "pq_abs s ls \<Longrightarrow> concat ls = [] \<Longrightarrow> pktq_deq s = Some (None, s)"
  using pq_empty_iff [of s ls] by (simp add: pktq_deq_def)


lemma pktq_deq_tail_refines:
  assumes abs: "pq_abs s ls" and i: "i < length ls" and tail: "ls ! i = xs @ [x]"
    and bottom: "\<And>j. j < i \<Longrightarrow> ls ! j = []"
  shows "\<exists>s'. pktq_deq_tail s = Some (Some (x, i), s') \<and> pq_abs s' (ls[i := xs]) \<and>
              plink s' x = None \<and> pfreed s' = pfreed s"
proof -
  let ?hi = "unat (hi_prec (que s))"
  have ne: "concat ls \<noteq> []" using concat_nonempty [OF i] tail by simp
  have le: "i \<le> ?hi" using pq_absD(9) [OF abs i] tail by simp
  note scan = lo_scan_spec [of 0 ?hi "pq (que s)"]
  have [simp]: "lo_scan (pq (que s)) 0 ?hi = i"
  proof (rule antisym)
    show "lo_scan (pq (que s)) 0 ?hi \<le> i"
      using scan pq_head_iff [OF abs i] tail by (metis append_is_Nil_conv le0 list.distinct(1) not_le option.distinct(1))
    show "i \<le> lo_scan (pq (que s)) 0 ?hi"
    proof (rule ccontr)
      assume "\<not> i \<le> lo_scan (pq (que s)) 0 ?hi"
      with scan le have lt: "lo_scan (pq (que s)) 0 ?hi < i"
        and "q_head (pq (que s) ! lo_scan (pq (que s)) 0 ?hi) \<noteq> None" by auto
      with bottom [OF lt] pq_head_iff [OF abs, of "lo_scan (pq (que s)) 0 ?hi"] i show False by simp
    qed
  qed
  from take_tail_refines [OF abs i tail] obtain s' where
    s': "take_tail s i = Some (Some x, s')" "pq_abs s' (ls[i := xs])"
      "plink s' x = None" "pfreed s' = pfreed s" by auto
  have "set_link s' x None = s'" using s'(3) by (simp add: set_link_def fun_upd_idem)
  moreover have "pq_len (que s) \<noteq> 0" "?hi < length (pq (que s))"
    using pq_empty_iff [OF abs] ne pq_absD(4,8) [OF abs] by auto
  ultimately show ?thesis using s' by (simp add: pktq_deq_tail_def Let_def)
qed

lemma pktq_mdeq_refines:
  assumes abs: "pq_abs s ls" and i: "i < length ls" and head: "ls ! i = x # xs" and m: "bit bmp i"
    and top: "\<And>j. i < j \<Longrightarrow> j < length ls \<Longrightarrow> bit bmp j \<Longrightarrow> ls ! j = []"
  shows "\<exists>s'. pktq_mdeq s bmp = Some (Some (x, i), s') \<and> pq_abs s' (ls[i := xs]) \<and>
              plink s' x = None \<and> pfreed s' = pfreed s"
proof -
  let ?hi = "hi_scan (pq (que s)) (unat (hi_prec (que s)))"
  have ne: "concat ls \<noteq> []" using concat_nonempty [OF i] head by simp
  note hi = pq_hi_scan [OF abs ne]
  have abs': "pq_abs (lower_hi s ?hi) ls" using abs hi(1,3) by (rule lower_hi_abs)
  have "i \<le> ?hi" using hi(3) [of i] i head by (metis list.distinct(1) not_le)
  then obtain k where k: "m_scan bmp (pq (que s)) ?hi = Some k"
    using m pq_head_iff [OF abs i] head m_scan_None [of bmp "pq (que s)" ?hi] by fastforce
  have "k = i"
  proof (rule antisym)
    show "k \<le> i"
      using m_scan_Some [OF k] top [of k] hi(1) pq_head_iff [OF abs, of k]
      by (metis leI le_less_trans)
    show "i \<le> k"
      using m_scan_Some [OF k] m \<open>i \<le> ?hi\<close> pq_head_iff [OF abs i] head
      by (metis leI list.distinct(1) option.distinct(1))
  qed
  from take_head_refines [OF abs' i head] obtain s' where
    s': "take_head (lower_hi s ?hi) i = (Some x, s')" "pq_abs s' (ls[i := xs])"
      "plink s' x = None" "pfreed s' = pfreed s" by (auto simp: lower_hi_def)
  have "pq_len (que s) \<noteq> 0" "unat (hi_prec (que s)) < length (pq (que s))"
    using pq_empty_iff [OF abs] ne pq_absD(4,8) [OF abs] by auto
  moreover have "pq (que (lower_hi s ?hi)) = pq (que s)" by (simp add: lower_hi_def)
  ultimately show ?thesis using s' k \<open>k = i\<close> by (simp add: pktq_mdeq_def Let_def)
qed

lemma pktq_mdeq_none:
  assumes abs: "pq_abs s ls" and none: "\<And>j. j < length ls \<Longrightarrow> bit bmp j \<Longrightarrow> ls ! j = []"
  shows "\<exists>s'. pktq_mdeq s bmp = Some (None, s') \<and> pq_abs s' ls"
proof (cases "concat ls = []")
  case True
  with pq_empty_iff [OF abs] abs show ?thesis by (simp add: pktq_mdeq_def)
next
  case False
  let ?hi = "hi_scan (pq (que s)) (unat (hi_prec (que s)))"
  note hi = pq_hi_scan [OF abs False]
  have "m_scan bmp (pq (que s)) ?hi = None"
    using none hi(1) pq_head_iff [OF abs] by (auto simp: m_scan_None)
  moreover have "pq (que (lower_hi s ?hi)) = pq (que s)" by (simp add: lower_hi_def)
  moreover have "pq_len (que s) \<noteq> 0" "unat (hi_prec (que s)) < length (pq (que s))"
    using pq_empty_iff [OF abs] False pq_absD(4,8) [OF abs] by auto
  ultimately show ?thesis
    using lower_hi_abs [OF abs hi(1,3)] by (simp add: pktq_mdeq_def Let_def)
qed


section \<open>Flushing, counting, configuration\<close>

text \<open>The flush loop in closed form: the links of the freed packets are cleared, the head is
  null, both lengths drop by the number of packets.\<close>

lemma pflush_loop_eq:
  assumes "plist (plink s) p xs" "distinct xs" "prec < length (pq (que s))"
    "q_head (pq (que s) ! prec) = p"
  shows "pflush_loop s prec p =
     Some (s\<lparr>plink := (\<lambda>x. if x \<in> set xs then None else plink s x), pfreed := pfreed s @ xs,
       que := (que s)\<lparr>pq := (pq (que s))[prec := (pq (que s) ! prec)\<lparr>q_head := None,
                 q_len := q_len (pq (que s) ! prec) - of_nat (length xs)\<rparr>],
               pq_len := pq_len (que s) - of_nat (length xs)\<rparr>\<rparr>)"
  using assms
proof (induction xs arbitrary: s p)
  case Nil
  then have "(pq (que s))[prec := (pq (que s) ! prec)\<lparr>q_head := None\<rparr>] = pq (que s)"
    by (metis list_update_id plist.simps(1) pktq_prec.surjective pktq_prec.update_convs(1))
  with Nil show ?case by (simp add: pflush_loop.simps)
next
  case (Cons x xs)
  let ?q = "pq (que s) ! prec"
  let ?s = "decr_len (upd_q ((set_link s x None)\<lparr>pfreed := pfreed s @ [x]\<rparr>) prec
              (?q\<lparr>q_head := plink s x, q_len := q_len ?q - 1\<rparr>))"
  have p: "p = Some x" and tl: "plist (plink s) (plink s x) xs" and x: "x \<notin> set xs"
    using Cons.prems(1,2) by auto
  have step: "pflush_loop s prec (Some x) = pflush_loop ?s prec (plink s x)"
    by (subst pflush_loop.simps) (simp add: Let_def set_link_def)
  have "plist (plink ?s) (plink s x) xs"
    using tl x by (simp add: pq_update_simps)
  from Cons.IH [OF this] Cons.prems x show ?case
    by (simp add: p step pq_update_simps fun_eq_iff diff_diff_eq [symmetric] cong: if_cong)
qed

lemma pktq_pflush_refines:
  assumes abs: "pq_abs s ls" and prec: "prec < length ls"
  shows "\<exists>s'. pktq_pflush s prec = Some s' \<and> pq_abs s' (ls[prec := []]) \<and>
              pfreed s' = pfreed s @ ls ! prec"
proof -
  let ?q = "pq (que s) ! prec" and ?xs = "ls ! prec"
  have rep: "q_rep (plink s) ?q ?xs" by (rule pq_absD(5) [OF abs prec])
  have dist: "distinct ?xs" by (rule distinct_concat_nth [OF pq_absD(6) [OF abs] prec])
  have bound: "prec < length (pq (que s))" using prec pq_absD(4) [OF abs] by auto
  let ?q' = "?q\<lparr>q_head := None, q_len := q_len ?q - of_nat (length ?xs), q_tail := None\<rparr>"
  define s' where "s' = s\<lparr>plink := (\<lambda>x. if x \<in> set ?xs then None else plink s x),
      pfreed := pfreed s @ ?xs,
      que := (que s)\<lparr>pq_len := pq_len (que s) - of_nat (length ?xs), pq := (pq (que s))[prec := ?q']\<rparr>\<rparr>"
  have eq: "pktq_pflush s prec = Some s'"
    using pflush_loop_eq [OF q_repD(1) [OF rep] dist bound refl] bound
    by (simp add: pktq_pflush_def upd_q_def s'_def)
  have lens: "unat (q_len ?q - of_nat (length ?xs)) = 0"
    "unat (pq_len (que s) - of_nat (length ?xs)) = length (concat ls) - length ?xs"
    using pq_len_le [OF abs prec] pq_absD(7) [OF abs]
    by (simp_all add: unat_sub_if' unat_of_nat_word16)
  have "pq_abs s' (ls[prec := []])"
  proof (rule pq_abs_updI [OF abs prec])
    show "q_rep (plink s') ?q' []"
      using lens(1) by (simp add: q_rep_def)
    show "plink s' z = plink s z" if "j < length ls" "j \<noteq> prec" "z \<in> set (ls ! j)" for j z
      using that pq_notin_other [OF abs prec that(1,2), of z] by (auto simp: s'_def)
    show "distinct (concat (ls[prec := []]))"
      by (intro distinct_concat_shrink [OF prec pq_absD(6) [OF abs]]) auto
    show "unat (pq_len (que s')) = length (concat (ls[prec := []]))"
      using length_concat_update [OF prec, of "[]"] lens(2) by (simp add: s'_def)
    show "unat (hi_prec (que s')) < length ls"
      using pq_absD(8) [OF abs] by (simp add: s'_def)
    show "j \<le> unat (hi_prec (que s'))" if "j < length ls" "ls[prec := []] ! j \<noteq> []" for j
      using pq_absD(9) [OF abs that(1)] that by (cases "j = prec") (auto simp: s'_def)
  qed (simp_all add: s'_def)
  with eq show ?thesis by (auto simp: s'_def)
qed

lemma flush_from_refines:
  assumes "pq_abs s ls" "k \<le> length ls"
  shows "\<exists>s'. flush_from s [k ..< length ls] = Some s' \<and>
              pq_abs s' (take k ls @ replicate (length ls - k) []) \<and>
              pfreed s' = pfreed s @ concat (drop k ls)"
  using assms
proof (induction "length ls - k" arbitrary: k s ls)
  case 0
  then show ?case by simp
next
  case (Suc n)
  then have k: "k < length ls" and n: "n = length (ls[k := []]) - Suc k" by auto
  from pktq_pflush_refines [OF Suc.prems(1) k] obtain s1 where
    s1: "pktq_pflush s k = Some s1" "pq_abs s1 (ls[k := []])" "pfreed s1 = pfreed s @ ls ! k"
    by blast
  from Suc.hyps(1) [OF n s1(2)] k obtain s2 where
    s2: "flush_from s1 [Suc k ..< length ls] = Some s2"
      "pq_abs s2 (take (Suc k) (ls[k := []]) @ replicate (length ls - Suc k) [])"
      "pfreed s2 = pfreed s1 @ concat (drop (Suc k) ls)" by auto
  have "take (Suc k) (ls[k := []]) @ replicate (length ls - Suc k) [] =
        take k ls @ replicate (length ls - k) []"
    using k by (simp add: take_Suc_conv_app_nth Suc_diff_Suc [symmetric])
  with s1 s2 k show ?case
    by (simp add: upt_conv_Cons Cons_nth_drop_Suc [symmetric])
qed

lemma pktq_flush_refines:
  assumes abs: "pq_abs s ls"
  shows "\<exists>s'. pktq_flush s = Some s' \<and> pq_abs s' (replicate (length ls) []) \<and>
              pfreed s' = pfreed s @ concat ls \<and> pktq_empty s'"
  using flush_from_refines [OF abs, of 0] pq_absD(1) [OF abs] pq_empty_iff
  by (fastforce simp: pktq_flush_def pktq_empty_def)

lemma pktq_mlen_refines:
  assumes abs: "pq_abs s ls"
  shows "pktq_mlen s bmp =
         Some (\<Sum>i \<leftarrow> [0 ..< length ls]. if bit bmp i then length (ls ! i) else 0)"
proof -
  let ?hi = "unat (hi_prec (que s))"
  let ?g = "\<lambda>i. if bit bmp i then length (ls ! i) else 0"
  have hi: "Suc ?hi \<le> length ls" "?hi < length (pq (que s))"
    using pq_absD(4,8) [OF abs] by auto
  have "map (\<lambda>i. if bit bmp i then unat (q_len (pq (que s) ! i)) else 0) [0 ..< Suc ?hi] =
        map ?g [0 ..< Suc ?hi]"
    using hi pq_len_le(3) [OF abs] by auto
  moreover have "sum_list (map ?g [Suc ?hi ..< length ls]) = 0"
    using pq_absD(9) [OF abs] by fastforce
  moreover have "[0 ..< length ls] = [0 ..< Suc ?hi] @ [Suc ?hi ..< length ls]"
    using hi(1) by (metis upt_add_eq_append le0 le_add_diff_inverse)
  ultimately show ?thesis using hi(2) by (simp only: pktq_mlen_def if_True map_append sum_list_append) simp
qed

lemma pktq_init_refines:
  assumes "0 < np" "np \<le> 16"
  shows "pq_abs (pktq_init s np max_len) (replicate np [])"
proof -
  have "unat (of_nat np :: u16) = np" using assms by (intro unat_of_nat_word16) simp
  with assms show ?thesis
    by (auto simp: pq_abs_def pktq_init_def q_rep_def nth_append)
qed

lemma pktq_setmax_refines:
  assumes abs: "pq_abs s ls"
  shows "pq_abs (snd (pktq_setmax s m)) ls"
    "m \<noteq> 0 \<Longrightarrow> m < 65536 \<Longrightarrow> fst (pktq_setmax s m) = m"
proof -
  have "q_rep lnk (q\<lparr>q_max := v\<rparr>) xs = q_rep lnk q xs" for lnk q v xs
    by (simp add: q_rep_def)
  with abs show "pq_abs (snd (pktq_setmax s m)) ls"
    by (auto simp: pq_abs_def pktq_setmax_def Let_def nth_append)
  show "fst (pktq_setmax s m) = m" if "m \<noteq> 0" "m < 65536"
    using that by (simp add: pktq_setmax_def Let_def unat_of_nat_word16)
qed


section \<open>The interface a transmit path relies on\<close>

text \<open>What a user of the queue may assume: a relation to one list of packets per precedence,
  and dequeueing that takes the first packet of the highest non-empty precedence. From this
  alone follows the order in which a driver that dequeues until the queue is empty sends.\<close>

fun drain :: "('s \<Rightarrow> (('p \<times> nat) option \<times> 's) option) \<Rightarrow> nat \<Rightarrow> 's \<Rightarrow> (('p \<times> nat) list \<times> 's) option" where
  "drain deq 0 s = Some ([], s)"
| "drain deq (Suc n) s =
     (case deq s of
        None \<Rightarrow> None
      | Some (None, s') \<Rightarrow> Some ([], s')
      | Some (Some x, s') \<Rightarrow> map_option (\<lambda>(xs, t). (x # xs, t)) (drain deq n s'))"

definition prio_order :: "'p list list \<Rightarrow> ('p \<times> nat) list" where
  "prio_order ls = concat (map (\<lambda>i. map (\<lambda>x. (x, i)) (ls ! i)) (rev [0 ..< length ls]))"

lemma prio_order_top:
  assumes i: "i < length ls" and head: "ls ! i = x # xs"
    and top: "\<And>j. i < j \<Longrightarrow> j < length ls \<Longrightarrow> ls ! j = []"
  shows "prio_order ls = (x, i) # prio_order (ls[i := xs])"
proof -
  have split: "rev [0 ..< length ls] = rev [Suc i ..< length ls] @ i # rev [0 ..< i]"
    using i upt_add_eq_append [of 0 i "length ls - i"] by (simp add: upt_conv_Cons)
  have low: "map (\<lambda>k. map (\<lambda>x. (x, k)) (ls[i := xs] ! k)) (rev [0 ..< i]) =
        map (\<lambda>k. map (\<lambda>x. (x, k)) (ls ! k)) (rev [0 ..< i])"
    by auto
  have high: "concat (map (\<lambda>k. map (\<lambda>x. (x, k)) (ls ! k)) (rev [Suc i ..< length ls])) = []"
    "concat (map (\<lambda>k. map (\<lambda>x. (x, k)) (ls[i := xs] ! k)) (rev [Suc i ..< length ls])) = []"
    using top by auto
  show ?thesis
    by (simp only: prio_order_def length_list_update split map_append list.map concat_append
        concat.simps low high head nth_list_update_eq [OF i] append_Nil append_Cons)
qed

lemma prio_order_empty: "concat ls = [] \<Longrightarrow> prio_order ls = []"
  by (auto simp: prio_order_def)

lemma highest_nonempty:
  assumes "concat ls \<noteq> []"
  obtains i where "i < length ls" "ls ! i \<noteq> []" "\<And>j. i < j \<Longrightarrow> j < length ls \<Longrightarrow> ls ! j = []"
proof -
  let ?S = "{i. i < length ls \<and> ls ! i \<noteq> []}"
  have "finite ?S" by simp
  moreover from assms have "?S \<noteq> {}" by (auto simp: in_set_conv_nth)
  ultimately have "Max ?S \<in> ?S" by (rule Max_in)
  moreover have "ls ! j = []" if "Max ?S < j" "j < length ls" for j
  proof -
    have "j \<notin> ?S" using that(1) Max_ge [OF \<open>finite ?S\<close>, of j] by (metis not_le)
    with that(2) show ?thesis by simp
  qed
  ultimately show ?thesis using that by blast
qed

locale prio_queue =
  fixes R :: "'s \<Rightarrow> 'p list list \<Rightarrow> bool"
    and enq :: "'s \<Rightarrow> nat \<Rightarrow> 'p \<Rightarrow> ('p \<times> 's) option"
    and deq :: "'s \<Rightarrow> (('p \<times> nat) option \<times> 's) option"
    and ready :: "'s \<Rightarrow> 'p \<Rightarrow> bool"
  assumes enq_appends: "R s ls \<Longrightarrow> i < length ls \<Longrightarrow> ready s p \<Longrightarrow> p \<notin> set (concat ls) \<Longrightarrow>
      \<exists>s'. enq s i p = Some (p, s') \<and> R s' (ls[i := ls ! i @ [p]])"
    and deq_empty: "R s ls \<Longrightarrow> concat ls = [] \<Longrightarrow> deq s = Some (None, s)"
    and deq_top: "R s ls \<Longrightarrow> i < length ls \<Longrightarrow> ls ! i = x # xs \<Longrightarrow>
      (\<And>j. i < j \<Longrightarrow> j < length ls \<Longrightarrow> ls ! j = []) \<Longrightarrow>
      \<exists>s'. deq s = Some (Some (x, i), s') \<and> R s' (ls[i := xs])"
begin

lemma drain_order:
  assumes "R s ls" "length (concat ls) < n"
  shows "\<exists>s' ls'. drain deq n s = Some (prio_order ls, s') \<and> R s' ls' \<and> concat ls' = []"
  using assms
proof (induction n arbitrary: s ls)
  case 0
  then show ?case by simp
next
  case (Suc n)
  show ?case
  proof (cases "concat ls = []")
    case True
    then have "drain deq (Suc n) s = Some (prio_order ls, s)"
      using deq_empty [OF Suc.prems(1)] prio_order_empty [OF True] by simp
    with True Suc.prems(1) show ?thesis by blast
  next
    case False
    then obtain i where i: "i < length ls" "ls ! i \<noteq> []"
      and top: "\<And>j. i < j \<Longrightarrow> j < length ls \<Longrightarrow> ls ! j = []" by (rule highest_nonempty) blast
    then obtain x xs where head: "ls ! i = x # xs" by (cases "ls ! i") auto
    from deq_top [OF Suc.prems(1) i(1) head top] obtain s1 where
      s1: "deq s = Some (Some (x, i), s1)" "R s1 (ls[i := xs])" by blast
    have "length (concat (ls[i := xs])) < n"
      using length_concat_update [OF i(1), of xs] head Suc.prems(2) by simp
    from Suc.IH [OF s1(2) this] obtain s' ls' where
      "drain deq n s1 = Some (prio_order (ls[i := xs]), s')" "R s' ls'" "concat ls' = []"
      by blast
    with s1(1) show ?thesis by (auto simp: prio_order_top [OF i(1) head top])
  qed
qed

text \<open>A packet queued last at a precedence is delivered after everything already queued at
  that precedence or above.\<close>

lemma enq_then_drain:
  assumes "R s ls" "i < length ls" "ready s p" "p \<notin> set (concat ls)" "length (concat ls) + 1 < n"
  shows "\<exists>s1 s' ls'. enq s i p = Some (p, s1) \<and>
           drain deq n s1 = Some (prio_order (ls[i := ls ! i @ [p]]), s') \<and>
           R s' ls' \<and> concat ls' = []"
proof -
  from enq_appends [OF assms(1-4)] obtain s1 where
    "enq s i p = Some (p, s1)" "R s1 (ls[i := ls ! i @ [p]])" by blast
  moreover have "length (concat (ls[i := ls ! i @ [p]])) < n"
    using length_concat_update [OF assms(2), of "ls ! i @ [p]"] assms(5) by simp
  ultimately show ?thesis using drain_order by blast
qed

end

definition penq_ready :: "qstate \<Rightarrow> pkt \<Rightarrow> bool" where
  "penq_ready s p \<longleftrightarrow> plink s p = None \<and> \<not> pktq_full s"

interpretation pktq_if: prio_queue pq_abs pktq_penq pktq_deq penq_ready
proof unfold_locales
  show "\<exists>s'. pktq_penq s i p = Some (p, s') \<and> pq_abs s' (ls[i := ls ! i @ [p]])"
    if "pq_abs s ls" "i < length ls" "penq_ready s p" "p \<notin> set (concat ls)" for s ls i p
    using pktq_penq_refines [OF that(1,2) _ _ that(4)] that(3) by (auto simp: penq_ready_def)
  show "pktq_deq s = Some (None, s)" if "pq_abs s ls" "concat ls = []" for s ls
    using that by (rule pktq_deq_empty)
  show "\<exists>s'. pktq_deq s = Some (Some (x, i), s') \<and> pq_abs s' (ls[i := xs])"
    if "pq_abs s ls" "i < length ls" "ls ! i = x # xs"
      "\<And>j. i < j \<Longrightarrow> j < length ls \<Longrightarrow> ls ! j = []" for s ls i x xs
    using pktq_deq_refines [OF that] by blast
qed


section \<open>Runs of the driver\<close>

text \<open>One step of a driver that respects the asserted contract: it queues a packet that is in
  no queue and has no link, takes packets from the queue or flushes it. \<open>pq_run s ins outs\<close>: the
  state \<open>s\<close> is reached having queued \<open>ins\<close> and received \<open>outs\<close>.\<close>

inductive pq_run :: "qstate \<Rightarrow> pkt multiset \<Rightarrow> pkt multiset \<Rightarrow> bool" where
  run_init: "0 < np \<Longrightarrow> np \<le> 16 \<Longrightarrow> pfreed s = [] \<Longrightarrow> pq_run (pktq_init s np m) {#} {#}"
| run_penq: "pq_run s ins outs \<Longrightarrow> prec < unat (num_prec (que s)) \<Longrightarrow> penq_ready s p \<Longrightarrow>
    p \<notin># ins - outs \<Longrightarrow> pktq_penq s prec p = Some (p, s') \<Longrightarrow> pq_run s' (add_mset p ins) outs"
| run_penq_head: "pq_run s ins outs \<Longrightarrow> prec < unat (num_prec (que s)) \<Longrightarrow> penq_ready s p \<Longrightarrow>
    p \<notin># ins - outs \<Longrightarrow> pktq_penq_head s prec p = Some (p, s') \<Longrightarrow>
    pq_run s' (add_mset p ins) outs"
| run_deq: "pq_run s ins outs \<Longrightarrow> pktq_deq s = Some (Some (p, i), s') \<Longrightarrow>
    pq_run s' ins (add_mset p outs)"
| run_deq_tail: "pq_run s ins outs \<Longrightarrow> pktq_deq_tail s = Some (Some (p, i), s') \<Longrightarrow>
    pq_run s' ins (add_mset p outs)"
| run_mdeq: "pq_run s ins outs \<Longrightarrow> pktq_mdeq s bmp = Some (r, s') \<Longrightarrow>
    pq_run s' ins (case r of None \<Rightarrow> outs | Some (p, i) \<Rightarrow> add_mset p outs)"
| run_setmax: "pq_run s ins outs \<Longrightarrow> pq_run (snd (pktq_setmax s m)) ins outs"
| run_flush: "pq_run s ins outs \<Longrightarrow> pktq_flush s = Some s' \<Longrightarrow>
    pq_run s' ins (outs + (mset (pfreed s') - mset (pfreed s)))"

lemma lowest_nonempty:
  assumes "concat ls \<noteq> []"
  obtains i where "i < length ls" "ls ! i \<noteq> []" "\<And>j. j < i \<Longrightarrow> ls ! j = []"
proof -
  let ?S = "{i. i < length ls \<and> ls ! i \<noteq> []}"
  have "finite ?S" by simp
  moreover from assms have "?S \<noteq> {}" by (auto simp: in_set_conv_nth)
  ultimately have min: "Min ?S \<in> ?S" by (rule Min_in)
  have "ls ! j = []" if "j < Min ?S" for j
  proof -
    have "j \<notin> ?S" using that Min_le [OF \<open>finite ?S\<close>, of j] by (metis not_le)
    with that min show ?thesis by auto
  qed
  with min that show ?thesis by blast
qed

definition pq_conserved :: "qstate \<Rightarrow> pkt multiset \<Rightarrow> pkt multiset \<Rightarrow> bool" where
  "pq_conserved s ins outs \<longleftrightarrow> (\<exists>ls. pq_abs s ls \<and> ins = mset (concat ls) + outs)"

lemma pq_conservedI: "pq_abs s ls \<Longrightarrow> ins = mset (concat ls) + outs \<Longrightarrow> pq_conserved s ins outs"
  by (auto simp: pq_conserved_def)

lemma mset_concat_remove:
  assumes "i < length ls" "mset (ls ! i) = add_mset x (mset xs)"
  shows "mset (concat ls) = add_mset x (mset (concat (ls[i := xs])))"
  using mset_concat_update [OF assms(1), of xs] assms(2) by simp

lemma mset_concat_add:
  assumes "i < length ls" "mset xs = add_mset x (mset (ls ! i))"
  shows "mset (concat (ls[i := xs])) = add_mset x (mset (concat ls))"
  using mset_concat_update [OF assms(1), of xs] assms(2) by simp

lemma conserved_add:
  assumes "i < length ls" "mset xs = add_mset p (mset (ls ! i))" "pq_abs s' (ls[i := xs])"
    "ins = mset (concat ls) + outs"
  shows "pq_conserved s' (add_mset p ins) outs"
  using assms by (intro pq_conservedI [OF assms(3)]) (simp only: mset_concat_add union_mset_add_mset_left)

lemma conserved_remove:
  assumes "i < length ls" "mset (ls ! i) = add_mset p (mset xs)" "pq_abs s' (ls[i := xs])"
    "ins = mset (concat ls) + outs"
  shows "pq_conserved s' ins (add_mset p outs)"
  using assms
  by (intro pq_conservedI [OF assms(3)])
    (simp only: mset_concat_remove [OF assms(1,2)] union_mset_add_mset_left union_mset_add_mset_right)

lemma pktq_deq_tail_empty:
  "pq_abs s ls \<Longrightarrow> concat ls = [] \<Longrightarrow> pktq_deq_tail s = Some (None, s)"
  using pq_empty_iff [of s ls] by (simp add: pktq_deq_tail_def)

lemma pq_run_conserved: "pq_run s ins outs \<Longrightarrow> pq_conserved s ins outs"
proof (induction rule: pq_run.induct)
  case (run_init np s m)
  then show ?case by (intro pq_conservedI [OF pktq_init_refines]) auto
next
  case (run_penq s ins outs prec p s')
  then obtain ls where ls: "pq_abs s ls" "ins = mset (concat ls) + outs" by (auto simp: pq_conserved_def)
  have prec: "prec < length ls" using run_penq.hyps(2) pq_absD(1) [OF ls(1)] by simp
  have "p \<notin> set (concat ls)" using run_penq.hyps(4) ls(2) by simp
  from pktq_penq_refines [OF ls(1) prec _ _ this] run_penq.hyps(3,5)
  have "pq_abs s' (ls[prec := ls ! prec @ [p]])" by (auto simp: penq_ready_def)
  then show ?case using ls(2) by (intro conserved_add [OF prec]) auto
next
  case (run_penq_head s ins outs prec p s')
  then obtain ls where ls: "pq_abs s ls" "ins = mset (concat ls) + outs" by (auto simp: pq_conserved_def)
  have prec: "prec < length ls" using run_penq_head.hyps(2) pq_absD(1) [OF ls(1)] by simp
  have "p \<notin> set (concat ls)" using run_penq_head.hyps(4) ls(2) by simp
  from pktq_penq_head_refines [OF ls(1) prec _ this] run_penq_head.hyps(3,5)
  have "pq_abs s' (ls[prec := p # ls ! prec])" by (auto simp: penq_ready_def)
  then show ?case using ls(2) by (intro conserved_add [OF prec]) auto
next
  case (run_deq s ins outs p i s')
  then obtain ls where ls: "pq_abs s ls" "ins = mset (concat ls) + outs" by (auto simp: pq_conserved_def)
  have "concat ls \<noteq> []" using pktq_deq_empty [OF ls(1)] run_deq.hyps(2) by auto
  then obtain k where k: "k < length ls" "ls ! k \<noteq> []"
    "\<And>j. k < j \<Longrightarrow> j < length ls \<Longrightarrow> ls ! j = []" by (rule highest_nonempty) blast
  then obtain x xs where head: "ls ! k = x # xs" by (cases "ls ! k") auto
  from pktq_deq_refines [OF ls(1) k(1) head k(3)] run_deq.hyps(2)
  have "p = x" "pq_abs s' (ls[k := xs])" by auto
  then show ?case using ls(2) head by (intro conserved_remove [OF k(1)]) auto
next
  case (run_deq_tail s ins outs p i s')
  then obtain ls where ls: "pq_abs s ls" "ins = mset (concat ls) + outs" by (auto simp: pq_conserved_def)
  have "concat ls \<noteq> []" using pktq_deq_tail_empty [OF ls(1)] run_deq_tail.hyps(2) by auto
  then obtain k where k: "k < length ls" "ls ! k \<noteq> []" "\<And>j. j < k \<Longrightarrow> ls ! j = []"
    by (rule lowest_nonempty) blast
  then obtain x xs where tail: "ls ! k = xs @ [x]" by (cases "ls ! k" rule: rev_cases) auto
  from pktq_deq_tail_refines [OF ls(1) k(1) tail k(3)] run_deq_tail.hyps(2)
  have "p = x" "pq_abs s' (ls[k := xs])" by auto
  then show ?case using ls(2) tail by (intro conserved_remove [OF k(1)]) auto
next
  case (run_mdeq s ins outs bmp r s')
  then obtain ls where ls: "pq_abs s ls" "ins = mset (concat ls) + outs" by (auto simp: pq_conserved_def)
  show ?case
  proof (cases "\<forall>j < length ls. bit bmp j \<longrightarrow> ls ! j = []")
    case True
    then obtain t where "pktq_mdeq s bmp = Some (None, t)" "pq_abs t ls"
      using pktq_mdeq_none [OF ls(1), of bmp] by blast
    with run_mdeq.hyps(2) have "r = None" "pq_abs s' ls" by auto
    with ls(2) show ?thesis by (auto intro: pq_conservedI)
  next
    case False
    let ?ms = "map (\<lambda>j. if bit bmp j then ls ! j else []) [0 ..< length ls]"
    from False have "concat ?ms \<noteq> []" by auto
    then obtain k where k: "k < length ?ms" "?ms ! k \<noteq> []"
      "\<And>j. k < j \<Longrightarrow> j < length ?ms \<Longrightarrow> ?ms ! j = []" by (rule highest_nonempty) blast
    then have k': "k < length ls" "bit bmp k" "ls ! k \<noteq> []" by (auto split: if_splits)
    then obtain x xs where head: "ls ! k = x # xs" by (cases "ls ! k") auto
    have "ls ! j = []" if "k < j" "j < length ls" "bit bmp j" for j
      using k(3) [of j] that by simp
    from pktq_mdeq_refines [OF ls(1) k'(1) head k'(2) this] run_mdeq.hyps(2)
    have "r = Some (x, k)" "pq_abs s' (ls[k := xs])" by auto
    then show ?thesis using ls(2) head by (auto intro: conserved_remove [OF k'(1)])
  qed
next
  case (run_setmax s ins outs m)
  then show ?case by (auto simp: pq_conserved_def dest: pktq_setmax_refines(1))
next
  case (run_flush s ins outs s')
  then obtain ls where ls: "pq_abs s ls" "ins = mset (concat ls) + outs" by (auto simp: pq_conserved_def)
  from pktq_flush_refines [OF ls(1)] run_flush.hyps(2)
  have "pq_abs s' (replicate (length ls) [])" "pfreed s' = pfreed s @ concat ls" by auto
  then show ?case using ls(2) by (intro pq_conservedI) (auto simp: union_commute)
qed


section \<open>Properties\<close>

text \<open>A queue of two precedences: packets 1 and 2 at precedence 1, packet 3 at precedence 0,
  with a hint above the highest non-empty precedence of nothing.\<close>

definition ex_pq :: qstate where
  "ex_pq = \<lparr>plink = (\<lambda>_. None)(1 := Some 2), pfreed = [],
     que = \<lparr>num_prec = 2, hi_prec = 1, pq_max = 8, pq_len = 3,
       pq = [\<lparr>q_head = Some 3, q_tail = Some 3, q_len = 1, q_max = 8\<rparr>,
             \<lparr>q_head = Some 1, q_tail = Some 2, q_len = 2, q_max = 8\<rparr>]\<rparr>\<rparr>"

lemma ex_pq_abs: "pq_abs ex_pq [[3], [1, 2]]"
  by (simp add: pq_abs_def q_rep_def ex_pq_def All_less_Suc)

text \<open>queueing a packet with no link at a precedence in use, while the queue is not full,
  dereferences no null pointer, appends the packet to that precedence's queue and leaves every
  other queue, the counters and the precedence hint consistent.\<close>

theorem pktq_penq_correct:
  assumes "pq_abs s ls" and "prec < length ls" and "plink s p = None" and "\<not> pktq_full s"
    and "p \<notin> set (concat ls)"
  shows "\<exists>s'. pktq_penq s prec p = Some (p, s') \<and> pq_abs s' (ls[prec := ls ! prec @ [p]]) \<and>
              pfreed s' = pfreed s"
  using assms by (rule pktq_penq_refines)

theorem pktq_penq_correct_witness:
  "\<exists>s'. pktq_penq ex_pq 0 7 = Some (7, s') \<and> pq_abs s' [[3, 7], [1, 2]] \<and> pfreed s' = []"
  using pktq_penq_correct [OF ex_pq_abs, of 0 7]
  by (simp add: pktq_full_def ex_pq_def)

text \<open>dequeueing takes the first packet of the highest non-empty precedence: no precedence
  above it holds a packet, the packet leaves the queue with a cleared link, and nothing is freed.\<close>

theorem pktq_deq_correct:
  assumes "pq_abs s ls" and "concat ls \<noteq> []"
  shows "\<exists>s' i x xs. pktq_deq s = Some (Some (x, i), s') \<and> i < length ls \<and> ls ! i = x # xs \<and>
           (\<forall>j. i < j \<and> j < length ls \<longrightarrow> ls ! j = []) \<and>
           pq_abs s' (ls[i := xs]) \<and> plink s' x = None \<and> pfreed s' = pfreed s"
proof -
  from assms(2) obtain i where i: "i < length ls" "ls ! i \<noteq> []"
    and top: "\<And>j. i < j \<Longrightarrow> j < length ls \<Longrightarrow> ls ! j = []" by (rule highest_nonempty) blast
  then obtain x xs where head: "ls ! i = x # xs" by (cases "ls ! i") auto
  from pktq_deq_refines [OF assms(1) i(1) head top] i(1) head top show ?thesis by blast
qed

theorem pktq_deq_correct_witness:
  "\<exists>s' i x xs. pktq_deq ex_pq = Some (Some (x, i), s') \<and> i < 2 \<and> [[3], [1, 2]] ! i = x # xs \<and>
     pq_abs s' ([[3], [1, 2]][i := xs])"
  using pktq_deq_correct [OF ex_pq_abs] by fastforce

text \<open>the dequeue restricted to a set of precedences takes the first packet of the highest
  precedence that is in the set and not empty, and reports no packet exactly when every queue of
  the set is empty.\<close>

theorem pktq_mdeq_correct:
  assumes "pq_abs s ls"
  shows "\<exists>r s'. pktq_mdeq s bmp = Some (r, s') \<and>
     (case r of
        None \<Rightarrow> (\<forall>j < length ls. bit bmp j \<longrightarrow> ls ! j = []) \<and> pq_abs s' ls
      | Some (x, i) \<Rightarrow>
          (\<exists>xs. i < length ls \<and> bit bmp i \<and> ls ! i = x # xs \<and>
             (\<forall>j. i < j \<and> j < length ls \<and> bit bmp j \<longrightarrow> ls ! j = []) \<and>
             pq_abs s' (ls[i := xs]) \<and> plink s' x = None))"
proof (cases "\<forall>j < length ls. bit bmp j \<longrightarrow> ls ! j = []")
  case True
  with pktq_mdeq_none [OF assms, of bmp] show ?thesis by fastforce
next
  case False
  let ?ms = "map (\<lambda>j. if bit bmp j then ls ! j else []) [0 ..< length ls]"
  from False have "concat ?ms \<noteq> []" by auto
  then obtain k where k: "k < length ?ms" "?ms ! k \<noteq> []"
    "\<And>j. k < j \<Longrightarrow> j < length ?ms \<Longrightarrow> ?ms ! j = []" by (rule highest_nonempty) blast
  then have k': "k < length ls" "bit bmp k" "ls ! k \<noteq> []" by (auto split: if_splits)
  then obtain x xs where head: "ls ! k = x # xs" by (cases "ls ! k") auto
  have top: "ls ! j = []" if "k < j" "j < length ls" "bit bmp j" for j
    using k(3) [of j] that by simp
  from pktq_mdeq_refines [OF assms k'(1) head k'(2) top] k' head top show ?thesis by fastforce
qed

theorem pktq_mdeq_correct_witness:
  "\<exists>r s'. pktq_mdeq ex_pq 1 = Some (r, s') \<and>
     (case r of None \<Rightarrow> False | Some (x, i) \<Rightarrow> i = 0 \<and> x = 3)"
  using pktq_mdeq_correct [OF ex_pq_abs, of 1]
  by (fastforce simp: less_Suc_eq bit_1_iff split: option.splits)

text \<open>C39: flushing returns, hands every queued packet to the packet allocator exactly once, in
  the order of the precedences, and leaves an empty queue.\<close>

theorem pktq_flush_correct:
  assumes "pq_abs s ls"
  shows "\<exists>s'. pktq_flush s = Some s' \<and> pq_abs s' (replicate (length ls) []) \<and>
              pfreed s' = pfreed s @ concat ls \<and> pktq_empty s'"
  using assms by (rule pktq_flush_refines)

theorem pktq_flush_correct_witness:
  "\<exists>s'. pktq_flush ex_pq = Some s' \<and> pq_abs s' [[], []] \<and> pfreed s' = [3, 1, 2] \<and> pktq_empty s'"
  using pktq_flush_correct [OF ex_pq_abs] by (simp add: ex_pq_def numeral_eq_Suc)

text \<open>C17: a transmit path that queues one more packet and then dequeues until the queue reports
  empty sends all packets, from the highest precedence down and in arrival order within one
  precedence; obtained from the queue interface.\<close>

theorem pktq_send_order:
  assumes "pq_abs s ls" and "i < length ls" and "penq_ready s p" and "p \<notin> set (concat ls)"
    and "length (concat ls) + 1 < n"
  shows "\<exists>s1 s' ls'. pktq_penq s i p = Some (p, s1) \<and>
           drain pktq_deq n s1 = Some (prio_order (ls[i := ls ! i @ [p]]), s') \<and>
           pq_abs s' ls' \<and> concat ls' = []"
  using assms by (rule pktq_if.enq_then_drain)

theorem pktq_send_order_witness:
  "\<exists>s1 s'. pktq_penq ex_pq 0 7 = Some (7, s1) \<and>
     drain pktq_deq 9 s1 = Some ([(1, 1), (2, 1), (3, 0), (7, 0)], s')"
proof -
  have "penq_ready ex_pq 7" by (simp add: penq_ready_def pktq_full_def ex_pq_def)
  from pktq_send_order [OF ex_pq_abs _ this, of 0 9]
  show ?thesis by (auto simp: prio_order_def)
qed

text \<open>C5: in every run of queueing, dequeueing (from the top, from the bottom, from a set of
  precedences), flushing and reconfiguring, the queue stays consistent and no packet is lost or
  duplicated: what was queued is what is still queued plus what was handed out or freed.\<close>

theorem pktq_run_conserves:
  assumes "pq_run s ins outs"
  shows "\<exists>ls. pq_abs s ls \<and> ins = mset (concat ls) + outs"
  using pq_run_conserved [OF assms] by (simp add: pq_conserved_def)

theorem pktq_run_conserves_witness:
  "\<exists>s ls. pktq_penq (pktq_init ex_pq 4 10) 2 7 = Some (7, s) \<and>
     pq_abs s ls \<and> {#7#} = mset (concat ls)"
proof -
  let ?s0 = "pktq_init ex_pq 4 10"
  have run: "pq_run ?s0 {#} {#}" by (rule run_init) (simp_all add: ex_pq_def)
  obtain s where s: "pktq_penq ?s0 2 7 = Some (7, s)"
    by (simp add: pktq_penq_def pktq_init_def ex_pq_def Let_def numeral_eq_Suc)
  have "penq_ready ?s0 7" by (simp add: penq_ready_def pktq_full_def pktq_init_def ex_pq_def)
  from run_penq [OF run _ this _ s] have "pq_run s {#7#} {#}"
    by (simp add: pktq_init_def ex_pq_def)
  from pktq_run_conserves [OF this] s show ?thesis by auto
qed

end
