(* ===== verification/BcmText.thy ===== *)
theory BcmText
  imports Prelude
begin

text \<open>
  Text and number routines of the wireless driver (\<open>bcmutils.c\<close>): the character class
  table and its macros, \<open>bcm_strtoul\<close>, the parser and the printer of Ethernet addresses.
  A \<open>char *\<close> is the list of the bytes from the pointer to the end of the buffer; reading
  at the empty list is an access past the buffer and makes the result \<open>None\<close>.
\<close>

unbundle bit_operations_syntax

section \<open>Character classes\<close>

abbreviation BCM_U :: u8 where "BCM_U \<equiv> 0x01"
abbreviation BCM_L :: u8 where "BCM_L \<equiv> 0x02"
abbreviation BCM_D :: u8 where "BCM_D \<equiv> 0x04"
abbreviation BCM_C :: u8 where "BCM_C \<equiv> 0x08"
abbreviation BCM_P :: u8 where "BCM_P \<equiv> 0x10"
abbreviation BCM_S :: u8 where "BCM_S \<equiv> 0x20"
abbreviation BCM_X :: u8 where "BCM_X \<equiv> 0x40"
abbreviation BCM_SP :: u8 where "BCM_SP \<equiv> 0x80"

definition bcm_ctype :: "u8 list" where
  "bcm_ctype = [
     BCM_C, BCM_C, BCM_C, BCM_C, BCM_C, BCM_C, BCM_C, BCM_C,
     BCM_C, BCM_C OR BCM_S, BCM_C OR BCM_S, BCM_C OR BCM_S, BCM_C OR BCM_S, BCM_C OR BCM_S, BCM_C, BCM_C,
     BCM_C, BCM_C, BCM_C, BCM_C, BCM_C, BCM_C, BCM_C, BCM_C,
     BCM_C, BCM_C, BCM_C, BCM_C, BCM_C, BCM_C, BCM_C, BCM_C,
     BCM_S OR BCM_SP, BCM_P, BCM_P, BCM_P, BCM_P, BCM_P, BCM_P, BCM_P,
     BCM_P, BCM_P, BCM_P, BCM_P, BCM_P, BCM_P, BCM_P, BCM_P,
     BCM_D, BCM_D, BCM_D, BCM_D, BCM_D, BCM_D, BCM_D, BCM_D,
     BCM_D, BCM_D, BCM_P, BCM_P, BCM_P, BCM_P, BCM_P, BCM_P,
     BCM_P, BCM_U OR BCM_X, BCM_U OR BCM_X, BCM_U OR BCM_X, BCM_U OR BCM_X, BCM_U OR BCM_X, BCM_U OR BCM_X, BCM_U,
     BCM_U, BCM_U, BCM_U, BCM_U, BCM_U, BCM_U, BCM_U, BCM_U,
     BCM_U, BCM_U, BCM_U, BCM_U, BCM_U, BCM_U, BCM_U, BCM_U,
     BCM_U, BCM_U, BCM_U, BCM_P, BCM_P, BCM_P, BCM_P, BCM_P,
     BCM_P, BCM_L OR BCM_X, BCM_L OR BCM_X, BCM_L OR BCM_X, BCM_L OR BCM_X, BCM_L OR BCM_X, BCM_L OR BCM_X, BCM_L,
     BCM_L, BCM_L, BCM_L, BCM_L, BCM_L, BCM_L, BCM_L, BCM_L,
     BCM_L, BCM_L, BCM_L, BCM_L, BCM_L, BCM_L, BCM_L, BCM_L,
     BCM_L, BCM_L, BCM_L, BCM_P, BCM_P, BCM_P, BCM_P, BCM_C,
     0, 0, 0, 0, 0, 0, 0, 0,
     0, 0, 0, 0, 0, 0, 0, 0,
     0, 0, 0, 0, 0, 0, 0, 0,
     0, 0, 0, 0, 0, 0, 0, 0,
     BCM_S OR BCM_SP, BCM_P, BCM_P, BCM_P, BCM_P, BCM_P, BCM_P, BCM_P,
     BCM_P, BCM_P, BCM_P, BCM_P, BCM_P, BCM_P, BCM_P, BCM_P,
     BCM_P, BCM_P, BCM_P, BCM_P, BCM_P, BCM_P, BCM_P, BCM_P,
     BCM_P, BCM_P, BCM_P, BCM_P, BCM_P, BCM_P, BCM_P, BCM_P,
     BCM_U, BCM_U, BCM_U, BCM_U, BCM_U, BCM_U, BCM_U, BCM_U,
     BCM_U, BCM_U, BCM_U, BCM_U, BCM_U, BCM_U, BCM_U, BCM_U,
     BCM_U, BCM_U, BCM_U, BCM_U, BCM_U, BCM_U, BCM_U, BCM_P,
     BCM_U, BCM_U, BCM_U, BCM_U, BCM_U, BCM_U, BCM_U, BCM_L,
     BCM_L, BCM_L, BCM_L, BCM_L, BCM_L, BCM_L, BCM_L, BCM_L,
     BCM_L, BCM_L, BCM_L, BCM_L, BCM_L, BCM_L, BCM_L, BCM_L,
     BCM_L, BCM_L, BCM_L, BCM_L, BCM_L, BCM_L, BCM_L, BCM_P,
     BCM_L, BCM_L, BCM_L, BCM_L, BCM_L, BCM_L, BCM_L, BCM_L]"

definition bcm_ismask :: "u8 \<Rightarrow> u8" where
  "bcm_ismask x = bcm_ctype ! unat x"

definition bcm_isdigit :: "u8 \<Rightarrow> bool" where
  "bcm_isdigit c \<longleftrightarrow> bcm_ismask c AND BCM_D \<noteq> 0"

definition bcm_islower :: "u8 \<Rightarrow> bool" where
  "bcm_islower c \<longleftrightarrow> bcm_ismask c AND BCM_L \<noteq> 0"

definition bcm_isspace :: "u8 \<Rightarrow> bool" where
  "bcm_isspace c \<longleftrightarrow> bcm_ismask c AND BCM_S \<noteq> 0"

definition bcm_isupper :: "u8 \<Rightarrow> bool" where
  "bcm_isupper c \<longleftrightarrow> bcm_ismask c AND BCM_U \<noteq> 0"

definition bcm_isxdigit :: "u8 \<Rightarrow> bool" where
  "bcm_isxdigit c \<longleftrightarrow> bcm_ismask c AND (BCM_D OR BCM_X) \<noteq> 0"

definition bcm_tolower :: "u8 \<Rightarrow> u8" where
  "bcm_tolower c = (if bcm_isupper c then c + 0x61 - 0x41 else c)"

definition bcm_toupper :: "u8 \<Rightarrow> u8" where
  "bcm_toupper c = (if bcm_islower c then c + 0x41 - 0x61 else c)"

text \<open>The classes as ranges of character codes.\<close>

definition ctype_class :: "nat \<Rightarrow> u8" where
  "ctype_class n =
     (if n < 32 \<or> n = 127 then (if 9 \<le> n \<and> n \<le> 13 then BCM_C OR BCM_S else BCM_C)
      else if n = 32 \<or> n = 160 then BCM_S OR BCM_SP
      else if 48 \<le> n \<and> n \<le> 57 then BCM_D
      else if 65 \<le> n \<and> n \<le> 70 then BCM_U OR BCM_X
      else if 71 \<le> n \<and> n \<le> 90 then BCM_U
      else if 97 \<le> n \<and> n \<le> 102 then BCM_L OR BCM_X
      else if 103 \<le> n \<and> n \<le> 122 then BCM_L
      else if n < 127 then BCM_P
      else if n < 160 then 0
      else if n < 192 \<or> n = 215 \<or> n = 247 then BCM_P
      else if n < 223 then BCM_U else BCM_L)"

lemma bcm_ctype_class: "bcm_ctype = map ctype_class [0 ..< 256]"
  by code_simp

lemma bcm_ismask_class: "bcm_ismask x = ctype_class (unat x)"
proof -
  have "unat x < 256" using unsigned_less [of x, where 'a = nat] by simp
  then show ?thesis by (simp add: bcm_ismask_def bcm_ctype_class)
qed

lemma bcm_isdigit_iff [txt_simps]: "bcm_isdigit c \<longleftrightarrow> 48 \<le> unat c \<and> unat c \<le> 57"
  by (simp add: bcm_isdigit_def bcm_ismask_class ctype_class_def)

lemma bcm_isspace_iff [txt_simps]:
  "bcm_isspace c \<longleftrightarrow> 9 \<le> unat c \<and> unat c \<le> 13 \<or> unat c = 32 \<or> unat c = 160"
  by (auto simp add: bcm_isspace_def bcm_ismask_class ctype_class_def)

lemma bcm_isxdigit_iff [txt_simps]:
  "bcm_isxdigit c \<longleftrightarrow> 48 \<le> unat c \<and> unat c \<le> 57 \<or> 65 \<le> unat c \<and> unat c \<le> 70 \<or>
     97 \<le> unat c \<and> unat c \<le> 102"
  by (auto simp add: bcm_isxdigit_def bcm_ismask_class ctype_class_def)

lemma bcm_islower_iff [txt_simps]:
  "bcm_islower c \<longleftrightarrow> 97 \<le> unat c \<and> unat c \<le> 122 \<or> 223 \<le> unat c \<and> unat c \<noteq> 247"
  using unsigned_less [of c, where 'a = nat]
  by (auto simp add: bcm_islower_def bcm_ismask_class ctype_class_def)


section \<open>Parsing numbers: \<open>bcm_strtoul\<close>\<close>

text \<open>\<open>while (bcm_isspace (*cp)) cp++\<close>\<close>

fun skip_space :: "u8 list \<Rightarrow> u8 list option" where
  "skip_space [] = None"
| "skip_space (c # cs) = (if bcm_isspace c then skip_space cs else Some (c # cs))"

text \<open>An optional sign: \<open>'+'\<close> is skipped, \<open>'-'\<close> is skipped and remembered.\<close>

fun take_sign :: "u8 list \<Rightarrow> (bool \<times> u8 list) option" where
  "take_sign [] = None"
| "take_sign (c # cs) =
     (if c = 0x2B then Some (False, cs) else if c = 0x2D then Some (True, cs)
      else Some (False, c # cs))"

text \<open>The base prefix: \<open>cp[1]\<close> is read only when \<open>cp[0]\<close> is \<open>'0'\<close>.\<close>

fun take_base :: "u8 list \<Rightarrow> u32 \<Rightarrow> (u32 \<times> u8 list) option" where
  "take_base [] base = None"
| "take_base (c # cs) base =
     (if base = 0 then
        (if c = 0x30 then
           (case cs of [] \<Rightarrow> None
            | x # xs \<Rightarrow> if x = 0x78 \<or> x = 0x58 then Some (16, xs) else Some (8, x # xs))
         else Some (10, c # cs))
      else if base = 16 \<and> c = 0x30 then
        (case cs of [] \<Rightarrow> None
         | x # xs \<Rightarrow> if x = 0x78 \<or> x = 0x58 then Some (16, xs) else Some (16, c # x # xs))
      else Some (base, c # cs))"

definition digit_value :: "u8 \<Rightarrow> u32" where
  "digit_value c =
     (if bcm_isdigit c then ucast c - 0x30 else ucast (bcm_toupper c) - 0x41 + 10)"

fun digits_loop :: "u8 list \<Rightarrow> u32 \<Rightarrow> u32 \<Rightarrow> (u32 \<times> u8 list) option" where
  "digits_loop [] base result = None"
| "digits_loop (c # cs) base result =
     (if bcm_isxdigit c \<and> digit_value c < base
      then digits_loop cs base (result * base + digit_value c)
      else Some (result, c # cs))"

definition bcm_strtoul :: "u8 list \<Rightarrow> u32 \<Rightarrow> (u32 \<times> u8 list) option" where
  "bcm_strtoul cp base =
     (case skip_space cp of
        None \<Rightarrow> None
      | Some cp \<Rightarrow>
          (case take_sign cp of
             None \<Rightarrow> None
           | Some (neg, cp) \<Rightarrow>
               (case take_base cp base of
                  None \<Rightarrow> None
                | Some (base, cp) \<Rightarrow>
                    (case digits_loop cp base 0 of
                       None \<Rightarrow> None
                     | Some (result, cp) \<Rightarrow>
                         Some (if neg then result * -1 else result, cp)))))"

section \<open>Ethernet addresses\<close>

text \<open>One round of the loop stores octet \<open>i\<close> and stops at the terminating NUL or after six
  octets; a store outside the six octets makes the result \<open>None\<close>.\<close>

function atoe_loop :: "u8 list \<Rightarrow> nat \<Rightarrow> u8 list \<Rightarrow> (bool \<times> u8 list) option" where
  "atoe_loop p i octet =
     (if i < length octet then
        (case bcm_strtoul p 16 of
           None \<Rightarrow> None
         | Some (v, p) \<Rightarrow>
             (let octet = octet[i := ucast v]; i = i + 1 in
              case p of
                [] \<Rightarrow> None
              | c # p \<Rightarrow> if c = 0 \<or> i = 6 then Some (i = 6, octet) else atoe_loop p i octet))
      else None)"
  by pat_completeness auto
termination
  by (relation "measure (\<lambda>(p, i, octet). length octet - i)") auto

declare atoe_loop.simps [simp del]

definition bcm_ether_atoe :: "u8 list \<Rightarrow> u8 list \<Rightarrow> (bool \<times> u8 list) option" where
  "bcm_ether_atoe p octet = atoe_loop p 0 octet"

definition hex_digit :: "u8 \<Rightarrow> u8" where
  "hex_digit x = (if x < 10 then 0x30 + x else 0x61 + (x - 10))"

text \<open>\<open>snprintf (buf, 18, "%02x:%02x:%02x:%02x:%02x:%02x", ...)\<close>\<close>

definition hex02 :: "u8 \<Rightarrow> u8 list" where
  "hex02 x = [hex_digit (drop_bit 4 x), hex_digit (x AND 0xF)]"

definition bcm_ether_ntoa :: "u8 list \<Rightarrow> u8 list" where
  "bcm_ether_ntoa octet =
     take 17 (hex02 (octet ! 0) @ [0x3A] @ hex02 (octet ! 1) @ [0x3A] @ hex02 (octet ! 2) @
       [0x3A] @ hex02 (octet ! 3) @ [0x3A] @ hex02 (octet ! 4) @ [0x3A] @ hex02 (octet ! 5)) @ [0]"

section \<open>Correctness of the number parser\<close>

text \<open>The value of a digit of any base up to 16, and of a string of digits.\<close>

definition dval :: "u8 \<Rightarrow> nat option" where
  "dval c =
     (let n = unat c in
      if 48 \<le> n \<and> n \<le> 57 then Some (n - 48)
      else if 65 \<le> n \<and> n \<le> 70 then Some (n - 55)
      else if 97 \<le> n \<and> n \<le> 102 then Some (n - 87)
      else None)"

definition is_digit_of :: "nat \<Rightarrow> u8 \<Rightarrow> bool" where
  "is_digit_of b c \<longleftrightarrow> (case dval c of None \<Rightarrow> False | Some v \<Rightarrow> v < b)"

definition num_of :: "nat \<Rightarrow> u8 list \<Rightarrow> nat" where
  "num_of b ds = foldl (\<lambda>r c. r * b + the (dval c)) 0 ds"

lemma unat_bcm_toupper:
  "97 \<le> unat c \<Longrightarrow> unat c \<le> 122 \<Longrightarrow> unat (bcm_toupper c) = unat c - 32"
proof -
  assume c: "97 \<le> unat c" "unat c \<le> 122"
  then have "bcm_toupper c = c - 0x20" by (simp add: bcm_toupper_def txt_simps)
  with c show ?thesis by (simp add: unat_sub_if' word_le_nat_alt)
qed

lemma bcm_toupper_upper:
  "65 \<le> unat c \<Longrightarrow> unat c \<le> 90 \<Longrightarrow> bcm_toupper c = c"
  by (simp add: bcm_toupper_def txt_simps)

lemma unat_digit_value:
  assumes "bcm_isxdigit c"
  shows "dval c = Some (unat (digit_value c))" "unat (digit_value c) < 16"
proof -
  have sub: "unat (ucast x - k :: u32) = unat x - unat k" if "unat k \<le> unat x" for x :: u8 and k :: u32
    using that unsigned_less [of x, where 'a = nat]
    by (simp add: unat_sub_if')
  have "dval c = Some (unat (digit_value c)) \<and> unat (digit_value c) < 16"
  proof (cases "bcm_isdigit c")
    case True
    then show ?thesis by (auto simp add: digit_value_def dval_def sub txt_simps)
  next
    case False
    have up: "unat (bcm_toupper c) = (if 97 \<le> unat c then unat c - 32 else unat c)"
      "65 \<le> unat (bcm_toupper c)" "unat (bcm_toupper c) \<le> 70"
      using False assms
      by (auto simp: txt_simps unat_bcm_toupper bcm_toupper_upper)
    have "unat (ucast (bcm_toupper c) - 0x41 + 10 :: u32) = unat (bcm_toupper c) - 55"
      using up(2,3) sub [of "0x37" "bcm_toupper c"] by simp
    with False assms up show ?thesis
      by (auto simp: digit_value_def dval_def txt_simps)
  qed
  then show "dval c = Some (unat (digit_value c))" "unat (digit_value c) < 16" by auto
qed

lemma dval_None: "\<not> bcm_isxdigit c \<Longrightarrow> dval c = None"
  by (auto simp: dval_def txt_simps)

lemma is_digit_of_iff:
  "is_digit_of (unat base) c \<longleftrightarrow> bcm_isxdigit c \<and> digit_value c < base"
  by (cases "bcm_isxdigit c") (auto simp: is_digit_of_def unat_digit_value dval_None word_less_nat_alt)

lemma digits_loop_value:
  assumes "list_all (is_digit_of (unat base)) ds" "\<not> is_digit_of (unat base) c"
  shows "digits_loop (ds @ c # rest) base r =
    Some (of_nat (foldl (\<lambda>r c. r * unat base + the (dval c)) (unat r) ds), c # rest)"
  using assms
proof (induction ds arbitrary: r)
  case Nil
  then show ?case by (auto simp add: is_digit_of_iff)
next
  case (Cons d ds)
  have d: "bcm_isxdigit d" "digit_value d < base" using Cons.prems by (auto simp: is_digit_of_iff)
  have fold_mod: "(of_nat (foldl (\<lambda>r c. r * unat base + the (dval c)) m ds) :: u32) =
      of_nat (foldl (\<lambda>r c. r * unat base + the (dval c)) n ds)"
    if "(of_nat m :: u32) = of_nat n" for m n
    using that by (induction ds arbitrary: m n) simp_all
  have "(of_nat (unat (r * base + digit_value d)) :: u32) =
      of_nat (unat r * unat base + unat (digit_value d))" by simp
  from fold_mod [OF this] d Cons show ?case by (simp add: unat_digit_value)
qed

text \<open>Which base \<open>b\<close> a prefix \<open>pre\<close> selects before the digits \<open>ds\<close> and the character
  \<open>c\<close> that ends them.\<close>

definition base_prefix :: "nat \<Rightarrow> u8 list \<Rightarrow> u8 list \<Rightarrow> u8 \<Rightarrow> nat \<Rightarrow> bool" where
  "base_prefix base pre ds c b \<longleftrightarrow>
     base \<in> {0, 16} \<and> pre \<in> {[0x30, 0x78], [0x30, 0x58]} \<and> b = 16 \<or>
     base = 0 \<and> pre = [0x30] \<and> hd (ds @ [c]) \<notin> {0x78, 0x58} \<and> b = 8 \<or>
     base = 0 \<and> pre = [] \<and> ds \<noteq> [] \<and> hd ds \<noteq> 0x30 \<and> b = 10 \<or>
     2 \<le> base \<and> base \<le> 16 \<and> pre = [] \<and> ds \<noteq> [] \<and> b = base \<and>
       (base = 16 \<longrightarrow> ds = [0x30] \<longrightarrow> c \<notin> {0x78, 0x58})"

lemma dval_x: "dval 0x78 = None" "dval 0x58 = None"
  by (simp_all add: dval_def)

lemma take_base_prefix:
  assumes "base_prefix base pre ds c b" "list_all (is_digit_of b) ds"
  shows "take_base (pre @ ds @ c # rest) (of_nat base) = Some (of_nat b, ds @ c # rest)"
proof -
  have base: "(of_nat base = (0 :: u32)) = (base = 0)" "(of_nat base = (16 :: u32)) = (base = 16)"
    if "base \<le> 16"
    using that by (simp_all add: word_unat_eq_iff unsigned_of_nat take_bit_nat_eq_self)
  consider "base \<in> {0, 16}" "pre \<in> {[0x30, 0x78], [0x30, 0x58]}" "b = 16"
    | "base = 0" "pre = [0x30]" "hd (ds @ [c]) \<notin> {0x78, 0x58}" "b = 8"
    | "base = 0" "pre = []" "ds \<noteq> []" "hd ds \<noteq> 0x30" "b = 10"
    | "2 \<le> base" "base \<le> 16" "pre = []" "ds \<noteq> []" "b = base"
      "base = 16 \<longrightarrow> ds = [0x30] \<longrightarrow> c \<notin> {0x78, 0x58}"
    using assms(1) unfolding base_prefix_def by blast
  then show ?thesis
  proof cases
    case 1
    then show ?thesis by auto
  next
    case 2
    then show ?thesis by (cases ds) auto
  next
    case 3
    then show ?thesis by (cases ds) auto
  next
    case 4
    then obtain d ds' where ds: "ds = d # ds'" by (cases ds) auto
    show ?thesis
    proof (cases ds')
      case Nil
      with 4 ds base show ?thesis by auto
    next
      case (Cons e es)
      with assms(2) ds 4 have "e \<noteq> 0x78" "e \<noteq> 0x58"
        by (auto simp: is_digit_of_def dval_x)
      with 4 ds Cons base show ?thesis by simp
    qed
  qed
qed

lemma digit_not_space_sign:
  "is_digit_of b c \<Longrightarrow> \<not> bcm_isspace c \<and> c \<noteq> 0x2B \<and> c \<noteq> 0x2D"
  by (auto simp: is_digit_of_def dval_def txt_simps split: if_splits)

lemma skip_space_append:
  "list_all bcm_isspace sp \<Longrightarrow> skip_space (sp @ cs) = skip_space cs"
  by (induction sp) simp_all

lemma skip_space_stop: "\<not> bcm_isspace c \<Longrightarrow> skip_space (c # cs) = Some (c # cs)"
  by simp

lemma base_prefix_head:
  assumes "base_prefix base pre ds c b" "list_all (is_digit_of b) ds"
  obtains d xs where "pre @ ds @ c # rest = d # xs" "\<not> bcm_isspace d" "d \<noteq> 0x2B" "d \<noteq> 0x2D"
proof -
  have "\<not> bcm_isspace 0x30" by (simp add: txt_simps)
  moreover have "pre \<noteq> [] \<longrightarrow> hd pre = 0x30" "pre = [] \<longrightarrow> ds \<noteq> []"
    using assms(1) by (auto simp: base_prefix_def)
  ultimately show ?thesis
    using that assms(2) by (cases pre; cases ds) (auto dest: digit_not_space_sign)
qed

lemma bcm_strtoul_value:
  assumes "list_all bcm_isspace sp" "sg \<in> {[], [0x2B], [0x2D]}"
    and "base_prefix base pre ds c b" "list_all (is_digit_of b) ds" "\<not> is_digit_of b c"
  shows "bcm_strtoul (sp @ sg @ pre @ ds @ c # rest) (of_nat base) =
    Some (if sg = [0x2D] then - of_nat (num_of b ds) else of_nat (num_of b ds), c # rest)"
proof -
  obtain d xs where head: "pre @ ds @ c # rest = d # xs"
    "\<not> bcm_isspace d" "d \<noteq> 0x2B" "d \<noteq> 0x2D" using base_prefix_head [OF assms(3,4)] .
  have "\<not> bcm_isspace 0x2B" "\<not> bcm_isspace 0x2D" by (simp_all add: txt_simps)
  with assms(1,2) head
  have skip: "skip_space (sp @ sg @ pre @ ds @ c # rest) = Some (sg @ pre @ ds @ c # rest)"
    by (auto simp: skip_space_append)
  have sign: "take_sign (sg @ pre @ ds @ c # rest) = Some (sg = [0x2D], pre @ ds @ c # rest)"
    using assms(2) head by auto
  have "b \<le> 16" using assms(3) by (auto simp: base_prefix_def)
  then have b: "unat (of_nat b :: u32) = b" by (simp add: unsigned_of_nat take_bit_nat_eq_self)
  show ?thesis
    using digits_loop_value [of "of_nat b" ds c rest 0] assms(4,5)
    by (simp add: bcm_strtoul_def skip sign take_base_prefix [OF assms(3,4)] b num_of_def)
qed

section \<open>Termination inside the buffer, and the address round trip\<close>

lemma skip_space_total:
  "0 \<in> set cp \<Longrightarrow> \<exists>cs. skip_space cp = Some cs \<and> 0 \<in> set cs"
  by (induction cp) (auto simp: txt_simps)

lemma take_sign_total:
  "0 \<in> set cp \<Longrightarrow> \<exists>neg cs. take_sign cp = Some (neg, cs) \<and> 0 \<in> set cs"
  by (cases cp) auto

lemma take_base_total:
  "0 \<in> set cp \<Longrightarrow> \<exists>b cs. take_base cp base = Some (b, cs) \<and> 0 \<in> set cs"
  by (cases cp) (auto split: list.splits)

lemma digits_loop_total:
  "0 \<in> set cp \<Longrightarrow> \<exists>v cs. digits_loop cp base r = Some (v, cs) \<and> 0 \<in> set cs"
  by (induction cp arbitrary: r) (auto simp: txt_simps)

lemma bcm_strtoul_total:
  assumes "0 \<in> set cp"
  obtains v c cs where "bcm_strtoul cp base = Some (v, c # cs)" "0 \<in> set (c # cs)"
proof -
  from skip_space_total [OF assms] obtain c1 where 1: "skip_space cp = Some c1" "0 \<in> set c1" by blast
  from take_sign_total [OF this(2)] obtain n c2
    where 2: "take_sign c1 = Some (n, c2)" "0 \<in> set c2" by blast
  from take_base_total [OF this(2)] obtain b c3
    where 3: "take_base c2 base = Some (b, c3)" "0 \<in> set c3" by blast
  from digits_loop_total [OF this(2)] obtain v c4
    where 4: "digits_loop c3 b 0 = Some (v, c4)" "0 \<in> set c4" by blast
  then obtain c cs where "c4 = c # cs" by (cases c4) auto
  with 1 2 3 4 show ?thesis by (intro that) (simp_all add: bcm_strtoul_def)
qed

lemma atoe_loop_total:
  "0 \<in> set p \<Longrightarrow> length octet = 6 \<Longrightarrow> i < 6 \<Longrightarrow>
   \<exists>ok octet'. atoe_loop p i octet = Some (ok, octet') \<and> length octet' = 6"
proof (induction p i octet rule: atoe_loop.induct)
  case (1 p i octet)
  obtain v c cs where s: "bcm_strtoul p 16 = Some (v, c # cs)" "0 \<in> set (c # cs)"
    using bcm_strtoul_total [OF 1(2)] .
  show ?case
  proof (cases "c = 0 \<or> i + 1 = 6")
    case True
    with 1 s show ?thesis by (subst atoe_loop.simps) auto
  next
    case False
    with s have "0 \<in> set cs" by auto
    with False 1 s show ?thesis by (subst atoe_loop.simps) (auto simp: Let_def)
  qed
qed

lemma dval_hex_digit: "x < 16 \<Longrightarrow> dval (hex_digit x) = Some (unat x)"
proof -
  assume "x < 16"
  then have "unat x < 16" by (simp add: word_less_nat_alt)
  then show ?thesis
    by (auto simp: hex_digit_def dval_def word_less_nat_alt unat_word_ariths unat_sub_if')
qed

lemma nibbles:
  fixes x :: u8
  shows "drop_bit 4 x < 16" "x AND 0xF < 16"
    "unat (drop_bit 4 x) * 16 + unat (x AND 0xF) = unat x"
proof -
  have "unat (x AND 0xF) = unat x mod 16" by (rule and_15_mod)
  moreover have "unat (drop_bit 4 x) = unat x div 16"
    by (rule drop_4_div)
  ultimately show "drop_bit 4 x < 16" "x AND 0xF < 16"
    "unat (drop_bit 4 x) * 16 + unat (x AND 0xF) = unat x"
    using unat_u8_less [of x] by (auto simp: word_less_nat_alt less_mult_imp_div_less)
qed

lemma strtoul_hex02:
  assumes "c = 0x3A \<or> c = 0"
  shows "bcm_strtoul (hex02 x @ c # rest) 16 = Some (ucast x, c # rest)"
proof -
  have digits: "list_all (is_digit_of 16) (hex02 x)"
    using nibbles(1,2) [of x]
    by (simp add: hex02_def is_digit_of_def dval_hex_digit nibbles word_less_nat_alt)
  have "num_of 16 (hex02 x) = unat x"
    by (simp add: num_of_def hex02_def dval_hex_digit nibbles)
  moreover have "\<not> is_digit_of 16 c" using assms by (auto simp: is_digit_of_def dval_def)
  moreover have "base_prefix 16 [] (hex02 x) c 16" by (simp add: base_prefix_def hex02_def)
  ultimately show ?thesis
    using bcm_strtoul_value [of "[]" "[]" 16 "[]" "hex02 x" c 16 rest] digits by simp
qed

lemma atoe_step_colon:
  assumes "i < length octet" "Suc i \<noteq> 6"
  shows "atoe_loop (hex02 x @ 0x3A # rest) i octet = atoe_loop rest (Suc i) (octet[i := x])"
  using assms by (subst atoe_loop.simps) (simp add: strtoul_hex02)

lemma atoe_step_nul:
  assumes "i < length octet"
  shows "atoe_loop (hex02 x @ 0 # rest) i octet = Some (Suc i = 6, octet[i := x])"
  using assms by (subst atoe_loop.simps) (simp add: strtoul_hex02)

lemma length_hex02 [simp]: "length (hex02 x) = 2"
  by (simp add: hex02_def)

lemma atoe_ntoa:
  assumes "length ea = 6" "length octet = 6"
  shows "bcm_ether_atoe (bcm_ether_ntoa ea @ rest) octet = Some (True, ea)"
proof -
  obtain a b c d e f where ea: "ea = [a, b, c, d, e, f]"
    using assms(1) by (auto simp: length_Suc_conv numeral_eq_Suc)
  have "bcm_ether_ntoa ea @ rest = hex02 a @ 0x3A # hex02 b @ 0x3A # hex02 c @ 0x3A #
      hex02 d @ 0x3A # hex02 e @ 0x3A # hex02 f @ 0 # rest"
    by (simp add: bcm_ether_ntoa_def ea hex02_def)
  then have "bcm_ether_atoe (bcm_ether_ntoa ea @ rest) octet =
      Some (True, octet[0 := a, Suc 0 := b, Suc (Suc 0) := c, Suc (Suc (Suc 0)) := d,
        Suc (Suc (Suc (Suc 0))) := e, Suc (Suc (Suc (Suc (Suc 0)))) := f])"
    using assms(2) by (simp add: bcm_ether_atoe_def atoe_step_colon atoe_step_nul)
  moreover obtain a' b' c' d' e' f' where "octet = [a', b', c', d', e', f']"
    using assms(2) by (auto simp: length_Suc_conv numeral_eq_Suc)
  ultimately show ?thesis by (simp add: ea)
qed

section \<open>Properties\<close>

text \<open>C32: on spaces, an optional sign, a base prefix and digits, \<open>bcm_strtoul\<close> returns the
  value of the digits in the selected base modulo $2^{32}$, negated for \<open>'-'\<close>, and a pointer
  to the first character that is not a digit of that base.\<close>

theorem bcm_strtoul_correct:
  assumes "list_all bcm_isspace sp" and "sg \<in> {[], [0x2B], [0x2D]}"
    and "base_prefix base pre ds c b" and "list_all (is_digit_of b) ds" and "\<not> is_digit_of b c"
  shows "bcm_strtoul (sp @ sg @ pre @ ds @ c # rest) (of_nat base) =
    Some (if sg = [0x2D] then - of_nat (num_of b ds) else of_nat (num_of b ds), c # rest)"
  using assms by (rule bcm_strtoul_value)

theorem bcm_strtoul_correct_witness:
  "bcm_strtoul [0x20, 0x09, 0x2D, 0x30, 0x78, 0x31, 0x46, 0x2C] 0 = Some (- 31, [0x2C]) \<and>
   bcm_strtoul [0x30, 0x31, 0x37, 0x39, 0] 0 = Some (15, [0x39, 0])"
proof -
  have 1: "list_all bcm_isspace [0x20, 0x09]" "list_all (is_digit_of 16) [0x31, 0x46]"
    "\<not> is_digit_of 16 0x2C" "num_of 16 [0x31, 0x46] = 31"
    by (simp_all add: txt_simps is_digit_of_def dval_def num_of_def)
  have 2: "list_all (is_digit_of 8) [0x31, 0x37]" "\<not> is_digit_of 8 0x39"
    "num_of 8 [0x31, 0x37] = 15"
    by (simp_all add: is_digit_of_def dval_def num_of_def)
  show ?thesis
    using bcm_strtoul_correct [of "[0x20, 0x09]" "[0x2D]" 0 "[0x30, 0x78]" "[0x31, 0x46]" "0x2C" 16 "[]"]
      bcm_strtoul_correct [of "[]" "[]" 0 "[0x30]" "[0x31, 0x37]" "0x39" 8 "[0]"] 1 2
    by (simp add: base_prefix_def)
qed

text \<open>on every NUL-terminated text the address parser returns, reads nothing past the NUL
  and stores nothing outside the six octets.\<close>

theorem bcm_ether_atoe_total:
  assumes "0 \<in> set p" and "length octet = 6"
  shows "\<exists>ok octet'. bcm_ether_atoe p octet = Some (ok, octet') \<and> length octet' = 6"
  unfolding bcm_ether_atoe_def using assms by (rule atoe_loop_total) simp

theorem bcm_ether_atoe_total_witness:
  "\<exists>ok octet'. bcm_ether_atoe [0x30, 0x3A, 0x7A, 0] (replicate 6 0) = Some (ok, octet') \<and>
     length octet' = 6"
  using bcm_ether_atoe_total [of "[0x30, 0x3A, 0x7A, 0]" "replicate 6 0"] by simp

text \<open>parsing the printed form of an Ethernet address succeeds and gives the address back,
  whatever the octets held before and whatever follows the terminating NUL.\<close>

theorem bcm_ether_roundtrip:
  assumes "length ea = 6" and "length octet = 6"
  shows "bcm_ether_atoe (bcm_ether_ntoa ea @ rest) octet = Some (True, ea)"
  using assms by (rule atoe_ntoa)

theorem bcm_ether_roundtrip_witness:
  "bcm_ether_atoe (bcm_ether_ntoa [0, 0x11, 0xFF, 0xA0, 9, 0x7F]) (replicate 6 0) =
     Some (True, [0, 0x11, 0xFF, 0xA0, 9, 0x7F])"
  using bcm_ether_roundtrip [of "[0, 0x11, 0xFF, 0xA0, 9, 0x7F]" "replicate 6 0" "[]"] by simp

end
