(* ===== verification/BcmBuf.thy ===== *)
theory BcmBuf
  imports Prelude
begin

text \<open>
  Buffer routines of the wireless driver (\<open>bcmutils.c\<close>): tag/length/value elements,
  the command buffer \<open>bcm_mkiovar\<close>, the bounded print buffer \<open>bcm_bprintf\<close>, the length
  check of a variable and the error strings. A pointer into a buffer is the list of the
  bytes from it on; an access past the buffer makes the result \<open>None\<close>.
\<close>

section \<open>Tag, length, value\<close>

text \<open>\<open>((buflen) >= 2 && (int)(buflen) >= (int)(2 + (elt)->len))\<close>\<close>

definition bcm_valid_tlv :: "u8 list \<Rightarrow> int \<Rightarrow> bool option" where
  "bcm_valid_tlv elt buflen =
     (if 2 \<le> buflen then
        (case elt of
           i # l # _ \<Rightarrow> Some (2 + uint l \<le> buflen)
         | _ \<Rightarrow> None)
      else Some False)"

text \<open>The result is the next element (\<open>None\<close> is the null pointer) and \<open>*buflen\<close>.\<close>

definition bcm_next_tlv :: "u8 list \<Rightarrow> int \<Rightarrow> (u8 list option \<times> int) option" where
  "bcm_next_tlv elt buflen =
     (case bcm_valid_tlv elt buflen of
        None \<Rightarrow> None
      | Some False \<Rightarrow> Some (None, buflen)
      | Some True \<Rightarrow>
          (let len = uint (elt ! 1);
               elt = drop (2 + nat len) elt;
               buflen = buflen - (2 + len)
           in case bcm_valid_tlv elt buflen of
                None \<Rightarrow> None
              | Some False \<Rightarrow> Some (None, buflen)
              | Some True \<Rightarrow> Some (Some elt, buflen)))"

function parse_tlvs_loop :: "u8 list \<Rightarrow> int \<Rightarrow> u32 \<Rightarrow> u8 list option option" where
  "parse_tlvs_loop elt totlen key =
     (if 2 \<le> totlen then
        (case elt of
           i # l # _ \<Rightarrow>
             (let len = uint l in
              if ucast i = key \<and> len + 2 \<le> totlen then Some (Some elt)
              else parse_tlvs_loop (drop (nat len + 2) elt) (totlen - (len + 2)) key)
         | _ \<Rightarrow> None)
      else Some None)"
  by pat_completeness auto
termination
  by (relation "measure (\<lambda>(elt, totlen, key). nat totlen)")
    (auto simp: Let_def)

declare parse_tlvs_loop.simps [simp del]

definition bcm_parse_tlvs :: "u8 list \<Rightarrow> int \<Rightarrow> u32 \<Rightarrow> u8 list option option" where
  "bcm_parse_tlvs buf buflen key = parse_tlvs_loop buf buflen key"

section \<open>Command buffers\<close>

definition strlen :: "u8 list \<Rightarrow> nat" where
  "strlen s = length (takeWhile (\<lambda>c. c \<noteq> 0) s)"

text \<open>\<open>strncpy (buf, name, n)\<close> pads with zeros up to \<open>n\<close>; \<open>memcpy (&buf[i], data, n)\<close>.\<close>

definition strncpy :: "u8 list \<Rightarrow> u8 list \<Rightarrow> nat \<Rightarrow> u8 list option" where
  "strncpy buf s n =
     (if n \<le> length buf
      then Some (take n (takeWhile (\<lambda>c. c \<noteq> 0) s @ replicate n 0) @ drop n buf) else None)"

definition memcpy :: "u8 list \<Rightarrow> nat \<Rightarrow> u8 list \<Rightarrow> nat \<Rightarrow> u8 list option" where
  "memcpy buf i data n =
     (if i + n \<le> length buf \<and> n \<le> length data
      then Some (take i buf @ take n data @ drop (i + n) buf) else None)"

definition bcm_mkiovar ::
  "u8 list \<Rightarrow> u8 list \<Rightarrow> u32 \<Rightarrow> u8 list \<Rightarrow> u32 \<Rightarrow> (u32 \<times> u8 list) option" where
  "bcm_mkiovar name data datalen buf buflen =
     (let len = of_nat (strlen name) + 1 :: u32 in
      if buflen < len + datalen then Some (0, buf)
      else (case strncpy buf name (unat buflen) of
              None \<Rightarrow> None
            | Some buf \<Rightarrow>
                (case memcpy buf (unat len) data (unat datalen) of
                   None \<Rightarrow> None
                 | Some buf \<Rightarrow> Some (len + datalen, buf))))"

section \<open>Bounded printing\<close>

text \<open>\<open>sb_mem\<close> is the memory behind \<open>origbuf\<close> and \<open>sb_pos\<close> the offset of \<open>buf\<close> in it.
  \<open>vsnprintf\<close> of the C library writes at most \<open>size - 1\<close> characters of the formatted text
  \<open>out\<close> and a NUL, and returns the length of the whole text.\<close>

record bcmstrbuf =
  sb_mem :: "u8 list"
  sb_pos :: nat
  sb_size :: u32
  sb_origsize :: u32

definition bcm_binit :: "u8 list \<Rightarrow> u32 \<Rightarrow> bcmstrbuf" where
  "bcm_binit buf n = \<lparr>sb_mem = buf, sb_pos = 0, sb_size = n, sb_origsize = n\<rparr>"

definition vsnprintf :: "u8 list \<Rightarrow> nat \<Rightarrow> nat \<Rightarrow> u8 list \<Rightarrow> u8 list option" where
  "vsnprintf mem pos n out =
     (if n = 0 then Some mem
      else let w = take (n - 1) out @ [0] in
           if pos + length w \<le> length mem
           then Some (take pos mem @ w @ drop (pos + length w) mem) else None)"

definition bcm_bprintf :: "bcmstrbuf \<Rightarrow> u8 list \<Rightarrow> (int \<times> bcmstrbuf) option" where
  "bcm_bprintf b out =
     (case vsnprintf (sb_mem b) (sb_pos b) (unat (sb_size b)) out of
        None \<Rightarrow> None
      | Some mem \<Rightarrow>
          (let r = int (length out); b = b\<lparr>sb_mem := mem\<rparr> in
           if r = -1 \<or> sint (sb_size b) \<le> r \<or> r = 0 then Some (r, b\<lparr>sb_size := 0\<rparr>)
           else Some (r, b\<lparr>sb_pos := sb_pos b + length out,
                          sb_size := sb_size b - of_nat (length out)\<rparr>)))"

section \<open>Variables and errors\<close>

abbreviation BCME_BUFTOOSHORT :: int where "BCME_BUFTOOSHORT \<equiv> - 14"
abbreviation BCME_BUFTOOLONG :: int where "BCME_BUFTOOLONG \<equiv> - 15"
abbreviation BCME_UNSUPPORTED :: int where "BCME_UNSUPPORTED \<equiv> - 23"
abbreviation BCME_LAST :: int where "BCME_LAST \<equiv> - 37"

text \<open>The types \<open>IOVT_VOID\<close> (0), \<open>IOVT_BOOL\<close> to \<open>IOVT_UINT32\<close> (1 to 7) and
  \<open>IOVT_BUFFER\<close> (8).\<close>

record bcm_iovar =
  iov_type :: u16
  iov_minlen :: u16

definition bcm_iovar_lencheck :: "bcm_iovar \<Rightarrow> int \<Rightarrow> bool \<Rightarrow> int" where
  "bcm_iovar_lencheck vi len is_set =
     (if iov_type vi \<in> {1, 2, 3, 4, 5, 6, 7} then (if len < 4 then BCME_BUFTOOSHORT else 0)
      else if iov_type vi = 8 then (if len < uint (iov_minlen vi) then BCME_BUFTOOSHORT else 0)
      else if iov_type vi = 0 then
        (if \<not> is_set then BCME_UNSUPPORTED else if len \<noteq> 0 then BCME_BUFTOOLONG else 0)
      else BCME_UNSUPPORTED)"

definition bcmerrorstrtable :: "string list" where
  "bcmerrorstrtable = [
     ''OK'', ''Undefined error'', ''Bad Argument'', ''Bad Option'', ''Not up'', ''Not down'',
     ''Not AP'', ''Not STA'', ''Bad Key Index'', ''Radio Off'', ''Not band locked'',
     ''No clock'', ''Bad Rate valueset'', ''Bad Band'', ''Buffer too short'',
     ''Buffer too long'', ''Busy'', ''Not Associated'', ''Bad SSID len'',
     ''Out of Range Channel'', ''Bad Channel'', ''Bad Address'', ''Not Enough Resources'',
     ''Unsupported'', ''Bad length'', ''Not Ready'', ''Not Permitted'', ''No Memory'',
     ''Associated'', ''Not In Range'', ''Not Found'', ''WME Not Enabled'', ''TSPEC Not Found'',
     ''ACM Not Supported'', ''Not WME Association'', ''SDIO Bus Error'',
     ''Dongle Not Accessible'', ''Incorrect version'']"

text \<open>\<open>Inl e\<close> stands for the text \<open>snprintf\<close> makes of \<open>"Undefined error %d"\<close> and \<open>e\<close>;
  the outer \<open>None\<close> is an access past the table.\<close>

definition bcmerrorstr :: "int \<Rightarrow> (int + string) option" where
  "bcmerrorstr bcmerror =
     (if 0 < bcmerror \<or> bcmerror < BCME_LAST then Some (Inl bcmerror)
      else if nat (- bcmerror) < length bcmerrorstrtable
           then Some (Inr (bcmerrorstrtable ! nat (- bcmerror))) else None)"

section \<open>Elements are found inside the buffer\<close>

definition tlv_bytes :: "(u8 \<times> u8 list) list \<Rightarrow> u8 list" where
  "tlv_bytes ts = concat (map (\<lambda>(i, v). i # of_nat (length v) # v) ts)"

abbreviation tlv_fits :: "(u8 \<times> u8 list) list \<Rightarrow> bool" where
  "tlv_fits ts \<equiv> list_all (\<lambda>(i, v). length v \<le> 255) ts"

lemma tlv_bytes_simps [simp]:
  "tlv_bytes [] = []"
  "tlv_bytes ((i, v) # ts) = i # of_nat (length v) # v @ tlv_bytes ts"
  by (simp_all add: tlv_bytes_def)

lemma uint_of_length: "length v \<le> 255 \<Longrightarrow> uint (of_nat (length v) :: u8) = int (length v)"
  by (simp add: unsigned_of_nat take_bit_nat_eq_self flip: of_nat_take_bit)

lemma parse_tlvs_loop_encoded:
  assumes "tlv_fits ts" "totlen = int (length (tlv_bytes ts))"
  shows "parse_tlvs_loop (tlv_bytes ts @ rest) totlen key =
    Some (case dropWhile (\<lambda>(i, v). ucast i \<noteq> key) ts of
            [] \<Rightarrow> None | us \<Rightarrow> Some (tlv_bytes us @ rest))"
  using assms
proof (induction ts arbitrary: totlen)
  case Nil
  then show ?case by (simp add: parse_tlvs_loop.simps)
next
  case (Cons t ts)
  obtain i v where t: "t = (i, v)" by (cases t)
  with Cons.prems have v: "length v \<le> 255" by simp
  show ?case
    using Cons.prems Cons.IH [of "totlen - (int (length v) + 2)"] t
    by (subst parse_tlvs_loop.simps) (simp add: uint_of_length [OF v] nat_add_distrib)
qed

definition tlv_at :: "u8 list \<Rightarrow> int \<Rightarrow> u32 \<Rightarrow> u8 list \<Rightarrow> bool" where
  "tlv_at buf buflen key e \<longleftrightarrow>
     (\<exists>k. e = drop k buf \<and> int k + 2 + uint (e ! 1) \<le> buflen \<and> ucast (e ! 0) = key)"

lemma parse_tlvs_loop_safe:
  assumes "buflen \<le> int (length elt)"
  shows "\<exists>r. parse_tlvs_loop elt buflen key = Some r \<and>
             (\<forall>e. r = Some e \<longrightarrow> tlv_at elt buflen key e)"
  using assms
proof (induction elt buflen key rule: parse_tlvs_loop.induct)
  case (1 elt totlen key)
  show ?case
  proof (cases "2 \<le> totlen")
    case False
    then show ?thesis by (subst parse_tlvs_loop.simps) simp
  next
    case True
    then have "2 \<le> length elt" using 1(2) by linarith
    then obtain i l xs where elt: "elt = i # l # xs"
      by (cases elt; cases "tl elt") auto
    show ?thesis
    proof (cases "ucast i = key \<and> uint l + 2 \<le> totlen")
      case True
      with \<open>2 \<le> totlen\<close> elt show ?thesis
        by (subst parse_tlvs_loop.simps) (auto simp: tlv_at_def intro!: exI [of _ 0])
    next
      case False
      have "totlen - (uint l + 2) \<le> int (length (drop (nat (uint l) + 2) elt))"
      proof -
        have "int (nat (uint l) + 2) = uint l + 2" by simp
        then show ?thesis using 1(2) unfolding length_drop by linarith
      qed
      with 1(1) [OF \<open>2 \<le> totlen\<close> elt refl refl False] obtain r where
        r: "parse_tlvs_loop (drop (nat (uint l) + 2) elt) (totlen - (uint l + 2)) key = Some r"
        "\<And>e. r = Some e \<Longrightarrow> tlv_at (drop (nat (uint l) + 2) elt) (totlen - (uint l + 2)) key e"
        by blast
      have "tlv_at elt totlen key e" if "r = Some e" for e
      proof -
        from r(2) [OF that] obtain k where
          "e = drop k (drop (nat (uint l) + 2) elt)" "int k + 2 + uint (e ! 1) \<le> totlen - (uint l + 2)"
          "ucast (e ! 0) = key" by (auto simp: tlv_at_def)
        then show ?thesis unfolding tlv_at_def
          by (intro exI [of _ "k + (nat (uint l) + 2)"]) simp
      qed
      moreover have "parse_tlvs_loop elt totlen key = Some r"
        using \<open>2 \<le> totlen\<close> False r(1) elt by (subst parse_tlvs_loop.simps) (auto simp: Let_def)
      ultimately show ?thesis by blast
    qed
  qed
qed

lemma bcm_next_tlv_encoded:
  assumes "tlv_fits (t # ts)" "buflen = int (length (tlv_bytes (t # ts)))"
  shows "bcm_next_tlv (tlv_bytes (t # ts) @ rest) buflen =
    Some (if ts = [] then None else Some (tlv_bytes ts @ rest), int (length (tlv_bytes ts)))"
proof -
  obtain i v where t: "t = (i, v)" by (cases t)
  with assms have v: "length v \<le> 255" by simp
  show ?thesis
  proof (cases ts)
    case Nil
    with assms t show ?thesis
      by (simp add: bcm_next_tlv_def bcm_valid_tlv_def uint_of_length [OF v])
  next
    case (Cons u us)
    obtain j w where u: "u = (j, w)" by (cases u)
    with assms Cons have w: "length w \<le> 255" by simp
    from assms t u Cons show ?thesis
      by (simp add: bcm_next_tlv_def bcm_valid_tlv_def uint_of_length [OF v] uint_of_length [OF w])
  qed
qed

section \<open>Buffers\<close>

lemma bcm_mkiovar_layout:
  assumes "strlen name + 1 + unat datalen < 2 ^ 32" "length data = unat datalen"
    and "unat buflen \<le> length buf"
  shows "bcm_mkiovar name data datalen buf buflen =
    (let k = strlen name + 1 + length data in
     if unat buflen < k then Some (0, buf)
     else Some (of_nat k,
       takeWhile (\<lambda>c. c \<noteq> 0) name @ 0 # data @ replicate (unat buflen - k) 0 @
       drop (unat buflen) buf))"
proof -
  let ?n = "takeWhile (\<lambda>c. c \<noteq> 0) name"
  have n: "length ?n = strlen name" by (simp add: strlen_def)
  have len: "unat (of_nat (strlen name) + 1 :: u32) = strlen name + 1"
    using assms(1) by (simp add: unat_word_ariths unsigned_of_nat take_bit_nat_eq_self)
  have sum: "unat (of_nat (strlen name) + 1 + datalen) = strlen name + 1 + length data"
    using assms(1,2) len by (simp add: unat_word_ariths)
  show ?thesis
  proof (cases "unat buflen < strlen name + 1 + length data")
    case True
    then show ?thesis using sum by (simp add: bcm_mkiovar_def word_less_nat_alt)
  next
    case False
    then have "strlen name \<le> unat buflen" by simp
    then have take: "take (unat buflen) (?n @ replicate (unat buflen) 0) =
        ?n @ replicate (unat buflen - strlen name) 0"
      using n by simp
    have rep: "replicate (unat buflen - strlen name) (0 :: u8) =
        0 # replicate (length data) 0 @ replicate (unat buflen - (strlen name + 1 + length data)) 0"
      using False by (simp flip: replicate_add replicate_Suc)
    have w: "(of_nat (strlen name) + 1 + datalen :: u32) = of_nat (strlen name + 1 + length data)"
      using assms(2) by simp
    show ?thesis
      using False sum assms n
      by (simp add: bcm_mkiovar_def word_less_nat_alt strncpy_def memcpy_def len take rep w Let_def
          del: replicate.simps)
  qed
qed

text \<open>A sequence of prints into one buffer.\<close>

fun bprints :: "bcmstrbuf \<Rightarrow> u8 list list \<Rightarrow> bcmstrbuf option" where
  "bprints b [] = Some b"
| "bprints b (out # outs) =
     (case bcm_bprintf b out of None \<Rightarrow> None | Some (r, b) \<Rightarrow> bprints b outs)"

definition sb_ok :: "u8 list \<Rightarrow> u32 \<Rightarrow> bcmstrbuf \<Rightarrow> bool" where
  "sb_ok buf n b \<longleftrightarrow> length (sb_mem b) = length buf \<and>
     sb_pos b + unat (sb_size b) \<le> unat n \<and> sb_pos b \<le> unat n \<and> sb_origsize b = n \<and>
     drop (unat n) (sb_mem b) = drop (unat n) buf"

lemma vsnprintf_frame:
  assumes "pos + k \<le> n" "n \<le> length mem"
  shows "\<exists>mem'. vsnprintf mem pos k out = Some mem' \<and> length mem' = length mem \<and>
    take pos mem' = take pos mem \<and> drop n mem' = drop n mem \<and>
    (length out < k \<longrightarrow> take (pos + length out + 1) mem' = take pos mem @ out @ [0])"
proof (cases "k = 0")
  case True
  then show ?thesis by (simp add: vsnprintf_def)
next
  case False
  define w where "w = take (k - 1) out @ [0]"
  have w: "pos + length w \<le> n" using assms(1) False by (auto simp: w_def)
  have "vsnprintf mem pos k out = Some (take pos mem @ w @ drop (pos + length w) mem)"
    using False assms(2) w by (simp add: vsnprintf_def Let_def w_def)
  moreover have "length out < k \<longrightarrow> w = out @ [0]" by (simp add: w_def)
  ultimately show ?thesis
    using w assms(2) drop_overwrite [OF w assms(2)] by auto
qed

lemma bcm_bprintf_ok:
  assumes "sb_ok buf n b" "unat n \<le> length buf" "unat n < 2 ^ 31"
  shows "\<exists>r b'. bcm_bprintf b out = Some (r, b') \<and> sb_ok buf n b' \<and>
    (out \<noteq> [] \<and> length out < unat (sb_size b) \<longrightarrow>
      sb_pos b' = sb_pos b + length out \<and>
      unat (sb_size b') = unat (sb_size b) - length out \<and>
      take (sb_pos b' + 1) (sb_mem b') = take (sb_pos b) (sb_mem b) @ out @ [0])"
proof -
  obtain mem' where mem': "vsnprintf (sb_mem b) (sb_pos b) (unat (sb_size b)) out = Some mem'"
    "length mem' = length (sb_mem b)" "drop (unat n) mem' = drop (unat n) (sb_mem b)"
    "length out < unat (sb_size b) \<longrightarrow>
      take (sb_pos b + length out + 1) mem' = take (sb_pos b) (sb_mem b) @ out @ [0]"
    using vsnprintf_frame [of "sb_pos b" "unat (sb_size b)" "unat n" "sb_mem b" out] assms
    by (auto simp: sb_ok_def)
  have sz: "sint (sb_size b) = int (unat (sb_size b))"
    using assms(1,3) by (intro sint_u32_small) (simp add: sb_ok_def)
  show ?thesis
  proof (cases "out \<noteq> [] \<and> length out < unat (sb_size b)")
    case True
    then have "unat (sb_size b - of_nat (length out)) = unat (sb_size b) - length out"
      using unsigned_less [of "sb_size b", where 'a = nat]
      by (simp add: unat_sub_if' unsigned_of_nat take_bit_nat_eq_self)
    moreover have "\<not> sint (sb_size b) \<le> int (length out)" using sz True by linarith
    ultimately show ?thesis using True mem' assms
      by (auto simp: bcm_bprintf_def sb_ok_def Let_def)
  next
    case False
    moreover from False sz have "sint (sb_size b) \<le> int (length out) \<or> out = []" by linarith
    ultimately show ?thesis using mem' assms by (auto simp: bcm_bprintf_def sb_ok_def Let_def)
  qed
qed

lemma bprints_ok:
  assumes "sb_ok buf n b" "unat n \<le> length buf" "unat n < 2 ^ 31"
  shows "\<exists>b'. bprints b outs = Some b' \<and> sb_ok buf n b' \<and>
    ([] \<notin> set outs \<and> length (concat outs) < unat (sb_size b) \<and> outs \<noteq> [] \<longrightarrow>
      take (sb_pos b + length (concat outs) + 1) (sb_mem b') =
        take (sb_pos b) (sb_mem b) @ concat outs @ [0])"
  using assms
proof (induction outs arbitrary: b)
  case Nil
  then show ?case by simp
next
  case (Cons out outs)
  obtain r b1 where b1: "bcm_bprintf b out = Some (r, b1)" "sb_ok buf n b1"
    "out \<noteq> [] \<and> length out < unat (sb_size b) \<longrightarrow>
      sb_pos b1 = sb_pos b + length out \<and> unat (sb_size b1) = unat (sb_size b) - length out \<and>
      take (sb_pos b1 + 1) (sb_mem b1) = take (sb_pos b) (sb_mem b) @ out @ [0]"
    using bcm_bprintf_ok [OF Cons.prems] by blast
  from Cons.IH [OF b1(2) Cons.prems(2,3)] obtain b' where b':
    "bprints b1 outs = Some b'" "sb_ok buf n b'"
    "[] \<notin> set outs \<and> length (concat outs) < unat (sb_size b1) \<and> outs \<noteq> [] \<longrightarrow>
      take (sb_pos b1 + length (concat outs) + 1) (sb_mem b') =
        take (sb_pos b1) (sb_mem b1) @ concat outs @ [0]" by blast
  have "take (sb_pos b + length (concat (out # outs)) + 1) (sb_mem b') =
      take (sb_pos b) (sb_mem b) @ concat (out # outs) @ [0]"
    if "[] \<notin> set (out # outs)" "length (concat (out # outs)) < unat (sb_size b)"
  proof (cases "outs = []")
    case True
    with that b1 b' show ?thesis by auto
  next
    case False
    have out: "out \<noteq> []" "length out < unat (sb_size b)" using that by auto
    have "take (sb_pos b1) (sb_mem b1) = take (sb_pos b1) (take (sb_pos b1 + 1) (sb_mem b1))"
      by (simp add: min_def)
    also have "\<dots> = take (sb_pos b1) (take (sb_pos b) (sb_mem b) @ out @ [0])"
      using mp [OF b1(3) conjI [OF out]] by (metis (no_types))
    also have "\<dots> = take (sb_pos b) (sb_mem b) @ out"
    proof -
      have "length (sb_mem b) = length buf" "sb_pos b \<le> unat n"
        using Cons.prems by (auto simp: sb_ok_def)
      with out b1(3) Cons.prems show ?thesis by simp
    qed
    finally show ?thesis using that False out b1(3) b'(3) by (simp add: add.assoc)
  qed
  with b1(1) b' show ?case by simp
qed

lemma bcm_binit_ok: "unat n \<le> length buf \<Longrightarrow> sb_ok buf n (bcm_binit buf n)"
  by (simp add: sb_ok_def bcm_binit_def)

lemma bcmerrorstr_in_table: "bcmerrorstr e \<noteq> None"
  by (auto simp: bcmerrorstr_def bcmerrorstrtable_def)

section \<open>Properties\<close>

text \<open>C36: whatever bytes the buffer holds, the search for an element returns, reads only bytes
  of the buffer, and an element it reports has the wanted tag and lies wholly in the buffer.\<close>

theorem bcm_parse_tlvs_safe:
  assumes "buflen \<le> int (length buf)"
  shows "\<exists>r. bcm_parse_tlvs buf buflen key = Some r \<and>
             (\<forall>e. r = Some e \<longrightarrow> tlv_at buf buflen key e)"
  unfolding bcm_parse_tlvs_def using assms by (rule parse_tlvs_loop_safe)

theorem bcm_parse_tlvs_safe_witness:
  "\<exists>r. bcm_parse_tlvs [7, 200, 1, 2] 4 7 = Some r \<and> (\<forall>e. r = Some e \<longrightarrow> tlv_at [7, 200, 1, 2] 4 7 e)"
  using bcm_parse_tlvs_safe [of 4 "[7, 200, 1, 2]" 7] by simp

text \<open>in a buffer that holds a sequence of elements the search returns the position of the
  first element with the wanted tag, or the null pointer when no element has it; stepping with
  \<open>bcm_next_tlv\<close> goes from each element to the following one and stops after the last.\<close>

theorem bcm_tlvs_correct:
  assumes "tlv_fits (t # ts)" and "buflen = int (length (tlv_bytes (t # ts)))"
  shows "bcm_parse_tlvs (tlv_bytes (t # ts) @ rest) buflen key =
      Some (case dropWhile (\<lambda>(i, v). ucast i \<noteq> key) (t # ts) of
              [] \<Rightarrow> None | us \<Rightarrow> Some (tlv_bytes us @ rest)) \<and>
    bcm_next_tlv (tlv_bytes (t # ts) @ rest) buflen =
      Some (if ts = [] then None else Some (tlv_bytes ts @ rest), int (length (tlv_bytes ts)))"
  unfolding bcm_parse_tlvs_def
  using parse_tlvs_loop_encoded [OF assms] bcm_next_tlv_encoded [OF assms] by blast

theorem bcm_tlvs_correct_witness:
  "bcm_parse_tlvs [1, 2, 5, 6, 48, 1, 9, 3, 0] 9 48 = Some (Some [48, 1, 9, 3, 0])"
  using bcm_tlvs_correct [of "(1, [5, 6])" "[(48, [9]), (3, [])]" 9 "[]" 48] by simp

text \<open>a command buffer that is long enough receives the NUL-terminated name, the data and
  zeros up to its length, and the number of bytes used is returned; a buffer that is too short
  is left as it is and 0 is returned; nothing past the buffer changes.\<close>

theorem bcm_mkiovar_correct:
  assumes "strlen name + 1 + unat datalen < 2 ^ 32" and "length data = unat datalen"
    and "unat buflen \<le> length buf"
  shows "bcm_mkiovar name data datalen buf buflen =
    (let k = strlen name + 1 + length data in
     if unat buflen < k then Some (0, buf)
     else Some (of_nat k,
       takeWhile (\<lambda>c. c \<noteq> 0) name @ 0 # data @ replicate (unat buflen - k) 0 @
       drop (unat buflen) buf))"
  using assms by (rule bcm_mkiovar_layout)

theorem bcm_mkiovar_correct_witness:
  "bcm_mkiovar [0x75, 0x70, 0] [1, 2] 2 [9, 9, 9, 9, 9, 9, 9] 6 = Some (5, [0x75, 0x70, 0, 1, 2, 0, 9])"
  using bcm_mkiovar_correct [of "[0x75, 0x70, 0]" 2 "[1, 2]" 6 "[9, 9, 9, 9, 9, 9, 9]"]
  by (simp add: strlen_def)

text \<open>printing any sequence of texts into a print buffer never writes past the size it was
  initialised with; while the non-empty texts fit, the buffer holds their concatenation and a
  terminating NUL.\<close>

theorem bcm_bprintf_bounded:
  assumes "unat n \<le> length buf" and "unat n < 2 ^ 31"
  shows "\<exists>b. bprints (bcm_binit buf n) outs = Some b \<and>
    drop (unat n) (sb_mem b) = drop (unat n) buf \<and> length (sb_mem b) = length buf \<and>
    ([] \<notin> set outs \<and> length (concat outs) < unat n \<and> outs \<noteq> [] \<longrightarrow>
      take (length (concat outs) + 1) (sb_mem b) = concat outs @ [0])"
  using bprints_ok [OF bcm_binit_ok [OF assms(1)] assms, of outs]
  by (auto simp: sb_ok_def bcm_binit_def)

theorem bcm_bprintf_bounded_witness:
  "\<exists>b. bprints (bcm_binit [1, 1, 1, 1, 1, 1, 1, 1] 6) [[0x61, 0x62], [0x63]] = Some b \<and>
     drop 6 (sb_mem b) = [1, 1] \<and> take 4 (sb_mem b) = [0x61, 0x62, 0x63, 0]"
proof -
  have four: "(4 :: nat) = Suc (Suc (Suc (Suc 0)))" by simp
  show ?thesis
    using bcm_bprintf_bounded [of 6 "[1, 1, 1, 1, 1, 1, 1, 1]" "[[0x61, 0x62], [0x63]]"]
    unfolding four by auto
qed

end
