(* ===== verification/BcmCrc.thy ===== *)
theory BcmCrc
  imports Prelude
begin

text \<open>
  The 32-bit cyclic redundancy check of the wireless driver (\<open>hndcrc32\<close> in
  \<open>bcmutils.c\<close>), in the variant compiled for MIPS: bytes up to a word boundary, then
  words, then the remaining bytes. Memory is a function from 32-bit addresses to bytes and
  all pointer arithmetic is modulo $2^{32}$, as on the machine.
\<close>

section \<open>The code\<close>

definition crc32_table :: "u32 list" where
  "crc32_table = [
     0x00000000, 0x77073096, 0xEE0E612C, 0x990951BA, 0x076DC419, 0x706AF48F,
     0xE963A535, 0x9E6495A3, 0x0EDB8832, 0x79DCB8A4, 0xE0D5E91E, 0x97D2D988,
     0x09B64C2B, 0x7EB17CBD, 0xE7B82D07, 0x90BF1D91, 0x1DB71064, 0x6AB020F2,
     0xF3B97148, 0x84BE41DE, 0x1ADAD47D, 0x6DDDE4EB, 0xF4D4B551, 0x83D385C7,
     0x136C9856, 0x646BA8C0, 0xFD62F97A, 0x8A65C9EC, 0x14015C4F, 0x63066CD9,
     0xFA0F3D63, 0x8D080DF5, 0x3B6E20C8, 0x4C69105E, 0xD56041E4, 0xA2677172,
     0x3C03E4D1, 0x4B04D447, 0xD20D85FD, 0xA50AB56B, 0x35B5A8FA, 0x42B2986C,
     0xDBBBC9D6, 0xACBCF940, 0x32D86CE3, 0x45DF5C75, 0xDCD60DCF, 0xABD13D59,
     0x26D930AC, 0x51DE003A, 0xC8D75180, 0xBFD06116, 0x21B4F4B5, 0x56B3C423,
     0xCFBA9599, 0xB8BDA50F, 0x2802B89E, 0x5F058808, 0xC60CD9B2, 0xB10BE924,
     0x2F6F7C87, 0x58684C11, 0xC1611DAB, 0xB6662D3D, 0x76DC4190, 0x01DB7106,
     0x98D220BC, 0xEFD5102A, 0x71B18589, 0x06B6B51F, 0x9FBFE4A5, 0xE8B8D433,
     0x7807C9A2, 0x0F00F934, 0x9609A88E, 0xE10E9818, 0x7F6A0DBB, 0x086D3D2D,
     0x91646C97, 0xE6635C01, 0x6B6B51F4, 0x1C6C6162, 0x856530D8, 0xF262004E,
     0x6C0695ED, 0x1B01A57B, 0x8208F4C1, 0xF50FC457, 0x65B0D9C6, 0x12B7E950,
     0x8BBEB8EA, 0xFCB9887C, 0x62DD1DDF, 0x15DA2D49, 0x8CD37CF3, 0xFBD44C65,
     0x4DB26158, 0x3AB551CE, 0xA3BC0074, 0xD4BB30E2, 0x4ADFA541, 0x3DD895D7,
     0xA4D1C46D, 0xD3D6F4FB, 0x4369E96A, 0x346ED9FC, 0xAD678846, 0xDA60B8D0,
     0x44042D73, 0x33031DE5, 0xAA0A4C5F, 0xDD0D7CC9, 0x5005713C, 0x270241AA,
     0xBE0B1010, 0xC90C2086, 0x5768B525, 0x206F85B3, 0xB966D409, 0xCE61E49F,
     0x5EDEF90E, 0x29D9C998, 0xB0D09822, 0xC7D7A8B4, 0x59B33D17, 0x2EB40D81,
     0xB7BD5C3B, 0xC0BA6CAD, 0xEDB88320, 0x9ABFB3B6, 0x03B6E20C, 0x74B1D29A,
     0xEAD54739, 0x9DD277AF, 0x04DB2615, 0x73DC1683, 0xE3630B12, 0x94643B84,
     0x0D6D6A3E, 0x7A6A5AA8, 0xE40ECF0B, 0x9309FF9D, 0x0A00AE27, 0x7D079EB1,
     0xF00F9344, 0x8708A3D2, 0x1E01F268, 0x6906C2FE, 0xF762575D, 0x806567CB,
     0x196C3671, 0x6E6B06E7, 0xFED41B76, 0x89D32BE0, 0x10DA7A5A, 0x67DD4ACC,
     0xF9B9DF6F, 0x8EBEEFF9, 0x17B7BE43, 0x60B08ED5, 0xD6D6A3E8, 0xA1D1937E,
     0x38D8C2C4, 0x4FDFF252, 0xD1BB67F1, 0xA6BC5767, 0x3FB506DD, 0x48B2364B,
     0xD80D2BDA, 0xAF0A1B4C, 0x36034AF6, 0x41047A60, 0xDF60EFC3, 0xA867DF55,
     0x316E8EEF, 0x4669BE79, 0xCB61B38C, 0xBC66831A, 0x256FD2A0, 0x5268E236,
     0xCC0C7795, 0xBB0B4703, 0x220216B9, 0x5505262F, 0xC5BA3BBE, 0xB2BD0B28,
     0x2BB45A92, 0x5CB36A04, 0xC2D7FFA7, 0xB5D0CF31, 0x2CD99E8B, 0x5BDEAE1D,
     0x9B64C2B0, 0xEC63F226, 0x756AA39C, 0x026D930A, 0x9C0906A9, 0xEB0E363F,
     0x72076785, 0x05005713, 0x95BF4A82, 0xE2B87A14, 0x7BB12BAE, 0x0CB61B38,
     0x92D28E9B, 0xE5D5BE0D, 0x7CDCEFB7, 0x0BDBDF21, 0x86D3D2D4, 0xF1D4E242,
     0x68DDB3F8, 0x1FDA836E, 0x81BE16CD, 0xF6B9265B, 0x6FB077E1, 0x18B74777,
     0x88085AE6, 0xFF0F6A70, 0x66063BCA, 0x11010B5C, 0x8F659EFF, 0xF862AE69,
     0x616BFFD3, 0x166CCF45, 0xA00AE278, 0xD70DD2EE, 0x4E048354, 0x3903B3C2,
     0xA7672661, 0xD06016F7, 0x4969474D, 0x3E6E77DB, 0xAED16A4A, 0xD9D65ADC,
     0x40DF0B66, 0x37D83BF0, 0xA9BCAE53, 0xDEBB9EC5, 0x47B2CF7F, 0x30B5FFE9,
     0xBDBDF21C, 0xCABAC28A, 0x53B39330, 0x24B4A3A6, 0xBAD03605, 0xCDD70693,
     0x54DE5729, 0x23D967BF, 0xB3667A2E, 0xC4614AB8, 0x5D681B02, 0x2A6F2B94,
     0xB40BBE37, 0xC30C8EA1, 0x5A05DF1B, 0x2D02EF8D]"

text \<open>\<open>CRC_INNER_LOOP (32, c, x)\<close>\<close>

definition crc_step :: "u32 \<Rightarrow> u8 \<Rightarrow> u32" where
  "crc_step c x = drop_bit 8 c XOR crc32_table ! unat ((c XOR ucast x) AND 0xFF)"

text \<open>\<open>while (pdata < pend) CRC_INNER_LOOP (32, crc, *pdata++)\<close>\<close>

function crc_bytes :: "(u32 \<Rightarrow> u8) \<Rightarrow> u32 \<Rightarrow> u32 \<Rightarrow> u32 \<Rightarrow> u32 \<times> u32" where
  "crc_bytes mem pdata pend crc =
     (if pdata < pend then crc_bytes mem (pdata + 1) pend (crc_step crc (mem pdata))
      else (pdata, crc))"
  by pat_completeness auto
termination
proof (relation "measure (\<lambda>(mem, pdata, pend, crc). unat pend - unat pdata)")
  fix mem :: "u32 \<Rightarrow> u8" and pdata pend crc :: u32
  assume "pdata < pend"
  then have "unat pdata < unat pend" "unat (pdata + 1) = unat pdata + 1"
    by (simp_all add: word_less_nat_alt unat_plus1_less)
  then
  show "((mem, pdata + 1, pend, crc_step crc (mem pdata)), mem, pdata, pend, crc)
    \<in> measure (\<lambda>(mem, pdata, pend, crc). unat pend - unat pdata)" by simp
qed simp

declare crc_bytes.simps [simp del]

text \<open>The loop over words copies four bytes to \<open>tmp\<close> and adds them in memory order.\<close>

partial_function (option) crc_words ::
  "(u32 \<Rightarrow> u8) \<Rightarrow> u32 \<Rightarrow> u32 \<Rightarrow> u32 \<Rightarrow> (u32 \<times> u32) option"
where
  "crc_words mem pdata pend crc =
     (if pdata < pend then
        crc_words mem (pdata + 4) pend
          (crc_step (crc_step (crc_step (crc_step crc (mem pdata)) (mem (pdata + 1)))
             (mem (pdata + 2))) (mem (pdata + 3)))
      else Some (pdata, crc))"

definition hndcrc32 :: "(u32 \<Rightarrow> u8) \<Rightarrow> u32 \<Rightarrow> u32 \<Rightarrow> u32 \<Rightarrow> u32 option" where
  "hndcrc32 mem pdata nbytes crc =
     (let pend = (pdata + 3) AND 0xFFFFFFFC;
          nbytes = nbytes - (pend - pdata);
          (pdata, crc) = crc_bytes mem pdata pend crc;
          pend = pdata + (nbytes AND 0xFFFFFFFC)
      in case crc_words mem pdata pend crc of
           None \<Rightarrow> None
         | Some (pdata, crc) \<Rightarrow>
             (let pend = pdata + (nbytes AND 0x03)
              in Some (snd (crc_bytes mem pdata pend crc))))"

section \<open>The table against the bitwise definition\<close>

text \<open>One step of the division by the polynomial, least significant bit first.\<close>

definition crc_bit :: "u32 \<Rightarrow> u32" where
  "crc_bit c = (if bit c 0 then drop_bit 1 c XOR 0xEDB88320 else drop_bit 1 c)"

definition crc_byte_ref :: "u32 \<Rightarrow> u8 \<Rightarrow> u32" where
  "crc_byte_ref c x = (crc_bit ^^ 8) (c XOR ucast x)"

lemma crc_bit_8:
  "(crc_bit ^^ 8) x =
   crc_bit (crc_bit (crc_bit (crc_bit (crc_bit (crc_bit (crc_bit (crc_bit x)))))))"
  by (simp add: eval_nat_numeral)

lemma crc_bit_xor: "crc_bit (a XOR b) = crc_bit a XOR crc_bit b"
  by (rule bit_word_eqI) (auto simp: crc_bit_def bit_simps)

lemma crc_bits_xor: "(crc_bit ^^ n) (a XOR b) = (crc_bit ^^ n) a XOR (crc_bit ^^ n) b"
  by (induction n) (simp_all add: crc_bit_xor)

lemma crc_bits_shift:
  "(\<forall>i < n. \<not> bit z i) \<Longrightarrow> (crc_bit ^^ n) z = drop_bit n z"
proof (induction n arbitrary: z)
  case 0
  then show ?case by simp
next
  case (Suc n)
  then have "crc_bit z = drop_bit 1 z" by (simp add: crc_bit_def)
  moreover have "(crc_bit ^^ n) (drop_bit 1 z) = drop_bit n (drop_bit 1 z)"
    by (rule Suc.IH) (use Suc.prems in \<open>auto simp: bit_simps\<close>)
  ultimately show ?case by (simp add: funpow_Suc_right del: funpow.simps)
qed

text \<open>The map is linear and injective, so the table is determined by its entry 1: the odd
  entries add entry 1 to the even ones, and entry \<open>n\<close> follows entry \<open>2 n\<close> by one step.\<close>

fun evens :: "'a list \<Rightarrow> 'a list" where
  "evens (x # y # zs) = x # evens zs"
| "evens _ = []"

fun odds :: "'a list \<Rightarrow> 'a list" where
  "odds (x # y # zs) = y # odds zs"
| "odds _ = []"

lemma evens_odds_nth:
  "2 * n + 1 < length xs \<Longrightarrow>
   n < length (evens xs) \<and> n < length (odds xs) \<and> evens xs ! n = xs ! (2 * n) \<and>
   odds xs ! n = xs ! (2 * n + 1)"
proof (induction xs arbitrary: n rule: evens.induct)
  case (1 x y zs)
  then show ?case by (cases n) auto
qed auto

lemma crc32_table_evens: "map crc_bit (evens crc32_table) = take 128 crc32_table"
  unfolding crc32_table_def evens.simps list.map
  by (simp add: crc_bit_def)

lemma crc32_table_odds:
  "odds crc32_table = map (\<lambda>x. x XOR 0x77073096) (evens crc32_table)"
  unfolding crc32_table_def evens.simps odds.simps list.map by simp

lemma crc32_table_first: "crc32_table ! 0 = 0" "crc32_table ! 1 = 0x77073096" "length crc32_table = 256"
  by (simp_all add: crc32_table_def)

lemma crc_bit_inj: "crc_bit a = crc_bit b \<Longrightarrow> a = b"
proof -
  assume "crc_bit a = crc_bit b"
  then have z: "crc_bit (a XOR b) = 0" by (simp add: crc_bit_xor)
  let ?z = "a XOR b"
  have "bit (crc_bit ?z) 31 = bit ?z 0"
    by (auto simp: crc_bit_def bit_simps dest: bit_imp_le_length)
  with z have even: "\<not> bit ?z 0" by simp
  with z have "drop_bit 1 ?z = 0" by (simp add: crc_bit_def)
  then have "\<not> bit ?z (Suc n)" for n by (metis bit_0_eq bit_drop_bit_eq bot_apply bot_bool_def comp_apply plus_1_eq_Suc)
  with even have "?z = 0" by (intro bit_word_eqI) (metis bit_0_eq bot_apply bot_bool_def not0_implies_Suc)
  then have "(a XOR b) XOR b = 0 XOR b" by (simp only:)
  then show "a = b" by (simp add: xor.assoc)
qed

lemma table_even_odd:
  assumes "n < 128"
  shows "crc_bit (crc32_table ! (2 * n)) = crc32_table ! n"
    "crc32_table ! (2 * n + 1) = crc32_table ! (2 * n) XOR 0x77073096"
proof -
  note nth = evens_odds_nth [of n crc32_table] and len = crc32_table_first(3)
  from nth len assms have 1: "n < length (evens crc32_table)" "n < length (odds crc32_table)"
    "evens crc32_table ! n = crc32_table ! (2 * n)"
    "odds crc32_table ! n = crc32_table ! (2 * n + 1)" by auto
  have "map crc_bit (evens crc32_table) ! n = take 128 crc32_table ! n"
    by (simp only: crc32_table_evens)
  with 1 assms show "crc_bit (crc32_table ! (2 * n)) = crc32_table ! n" by simp
  from 1 show "crc32_table ! (2 * n + 1) = crc32_table ! (2 * n) XOR 0x77073096"
    using arg_cong [OF crc32_table_odds, of "\<lambda>xs. xs ! n"] by simp
qed

lemma of_nat_double: "n < 128 \<Longrightarrow> (of_nat (2 * n + 1) :: u32) = of_nat (2 * n) XOR 1"
  "n < 128 \<Longrightarrow> crc_bit (of_nat (2 * n)) = of_nat n"
proof -
  have even: "\<not> bit (of_nat (2 * n) :: u32) 0" by (simp add: bit_0)
  show "(of_nat (2 * n + 1) :: u32) = of_nat (2 * n) XOR 1"
    using even by (simp add: xor_one_eq)
  assume "n < 128"
  then have "unat (drop_bit 1 (of_nat (2 * n) :: u32)) = n"
    unfolding unat_drop_bit by (subst unat_of_nat_u32) simp_all
  then have "drop_bit 1 (of_nat (2 * n) :: u32) = of_nat n" by (rule word_eq_of_nat)
  with even show "crc_bit (of_nat (2 * n)) = of_nat n" by (simp add: crc_bit_def)
qed

lemma crc32_table_nth: "n < 256 \<Longrightarrow> crc32_table ! n = (crc_bit ^^ 8) (word_of_nat n)"
proof (induction n rule: less_induct)
  case (less n)
  let ?T = "\<lambda>n. (crc_bit ^^ 8) (word_of_nat n)"
  have T1: "?T 1 = 0x77073096" by (simp add: crc_bit_8 crc_bit_def)
  have T0: "?T 0 = 0" by (simp add: crc_bit_8 crc_bit_def)
  have T_even: "crc32_table ! (2 * m) = ?T (2 * m)"
    if "m < 128" "crc32_table ! m = ?T m" for m
  proof (rule crc_bit_inj)
    have "crc_bit (?T (2 * m)) = (crc_bit ^^ 8) (crc_bit (of_nat (2 * m)))"
      by (simp add: funpow_swap1)
    then show "crc_bit (crc32_table ! (2 * m)) = crc_bit (?T (2 * m))"
      using that by (simp only: table_even_odd of_nat_double)
  qed
  show ?case
  proof (cases "n = 0")
    case True
    with T0 show ?thesis by (simp add: crc32_table_first)
  next
    case False
    define m where "m = n div 2"
    with False less.prems have m: "m < 128" "m < n" by auto
    with less have IH: "crc32_table ! m = ?T m" by simp
    note even = T_even [OF m(1) IH]
    show ?thesis
    proof (cases "even n")
      case True
      then have "n = 2 * m" by (simp add: m_def)
      with even show ?thesis by (simp only:)
    next
      case False
      then have n: "n = 2 * m + 1" by (simp add: m_def)
      have "?T (2 * m + 1) = ?T (2 * m) XOR ?T 1"
        by (simp only: of_nat_double [OF m(1)] crc_bits_xor of_nat_1)
      with even T1 m show ?thesis unfolding n by (simp only: table_even_odd)
    qed
  qed
qed

lemma and_FF_less: "unat (y AND 0xFF :: u32) < 256"
proof -
  have "y AND 0xFF = take_bit 8 y" by (simp add: take_bit_eq_mask mask_eq_exp_minus_1)
  then have "unat (y AND 0xFF) = take_bit 8 (unat y)" by (simp only: unsigned_take_bit_eq)
  then show ?thesis by (simp add: take_bit_eq_mod)
qed

lemma crc_step_ref: "crc_step c x = crc_byte_ref c x"
proof -
  let ?y = "c XOR ucast x"
  let ?hi = "?y AND NOT 0xFF"
  have y: "?y = ?hi XOR (?y AND 0xFF)" by (rule bit_word_eqI) (auto simp: bit_simps)
  have ff: "(0xFF :: u32) = mask 8" by (simp add: mask_eq_exp_minus_1)
  have "(crc_bit ^^ 8) ?hi = drop_bit 8 ?hi"
    by (rule crc_bits_shift) (simp add: ff bit_simps)
  also have "\<dots> = drop_bit 8 c"
    by (rule bit_word_eqI) (auto simp: ff bit_simps dest: bit_imp_le_length)
  finally have hi: "(crc_bit ^^ 8) ?hi = drop_bit 8 c" .
  have "crc_byte_ref c x = (crc_bit ^^ 8) (?hi XOR (?y AND 0xFF))"
    unfolding crc_byte_ref_def using y by metis
  also have "\<dots> = drop_bit 8 c XOR (crc_bit ^^ 8) (?y AND 0xFF)"
    by (simp only: crc_bits_xor hi)
  also have "\<dots> = crc_step c x"
    by (simp add: crc_step_def crc32_table_nth [OF and_FF_less])
  finally show ?thesis by simp
qed

section \<open>The three loops run over consecutive bytes\<close>

definition bytes_at :: "(u32 \<Rightarrow> u8) \<Rightarrow> u32 \<Rightarrow> nat \<Rightarrow> u8 list" where
  "bytes_at mem a n = map (\<lambda>i. mem (a + of_nat i)) [0 ..< n]"

lemma bytes_at_0 [simp]: "bytes_at mem a 0 = []"
  by (simp add: bytes_at_def)

lemma bytes_at_Suc: "bytes_at mem a (Suc n) = mem a # bytes_at mem (a + 1) n"
  by (simp add: bytes_at_def upt_conv_Cons map_Suc_upt [symmetric] add.assoc del: upt_Suc)

lemma bytes_at_add: "bytes_at mem a (m + n) = bytes_at mem a m @ bytes_at mem (a + of_nat m) n"
  by (induction m arbitrary: a) (simp_all add: bytes_at_Suc add.assoc)

lemma bytes_at_4:
  "bytes_at mem a (4 + n) =
   [mem a, mem (a + 1), mem (a + 2), mem (a + 3)] @ bytes_at mem (a + 4) n"
  by (simp add: eval_nat_numeral bytes_at_Suc add.assoc)

abbreviation no_wrap :: "u32 \<Rightarrow> nat \<Rightarrow> bool" where
  "no_wrap a n \<equiv> unat a + n < 2 ^ 32"

lemma unat_offset: "no_wrap a n \<Longrightarrow> unat (a + of_nat n) = unat a + n"
  by (simp add: unat_word_ariths unsigned_of_nat take_bit_nat_eq_self)

lemma crc_bytes_run:
  "no_wrap a n \<Longrightarrow>
   crc_bytes mem a (a + of_nat n) crc = (a + of_nat n, foldl crc_step crc (bytes_at mem a n))"
proof (induction n arbitrary: a crc)
  case 0
  then show ?case by (simp add: crc_bytes.simps)
next
  case (Suc n)
  then have "unat (a + 1) = unat a + 1" using unat_offset [of a 1] by simp
  then have IH: "crc_bytes mem (a + 1) ((a + 1) + of_nat n) c =
      (a + 1 + of_nat n, foldl crc_step c (bytes_at mem (a + 1) n))" for c
    using Suc by (intro Suc.IH) simp
  have "a < a + of_nat (Suc n)" using unat_offset [OF Suc.prems] by (simp add: word_less_nat_alt)
  then show ?case
    using IH by (subst crc_bytes.simps) (simp add: bytes_at_Suc add.assoc)
qed

lemma crc_words_run:
  "no_wrap a (4 * k) \<Longrightarrow>
   crc_words mem a (a + of_nat (4 * k)) crc =
     Some (a + of_nat (4 * k), foldl crc_step crc (bytes_at mem a (4 * k)))"
proof (induction k arbitrary: a crc)
  case 0
  then show ?case by (simp add: crc_words.simps)
next
  case (Suc k)
  then have "unat (a + 4) = unat a + 4" using unat_offset [of a 4] by simp
  then have IH: "crc_words mem (a + 4) ((a + 4) + of_nat (4 * k)) c =
      Some (a + 4 + of_nat (4 * k), foldl crc_step c (bytes_at mem (a + 4) (4 * k)))" for c
    using Suc by (intro Suc.IH) simp
  have "a < a + of_nat (4 * Suc k)" using unat_offset [OF Suc.prems] by (simp add: word_less_nat_alt)
  moreover have "bytes_at mem a (4 * Suc k) = bytes_at mem a (4 + 4 * k)" by simp
  ultimately show ?case
    using IH by (subst crc_words.simps) (simp add: bytes_at_4 add.assoc)
qed

section \<open>Masks of the address arithmetic\<close>

lemma unat_and_3: "unat (x AND 0x03 :: u32) = unat x mod 4"
proof -
  have "x AND 0x03 = take_bit 2 x" by (simp add: take_bit_eq_mask mask_eq_exp_minus_1)
  then have "unat (x AND 0x03) = take_bit 2 (unat x)" by (simp only: unsigned_take_bit_eq)
  then show ?thesis by (simp add: take_bit_eq_mod)
qed

lemma unat_and_FFFFFFFC: "unat (x AND 0xFFFFFFFC :: u32) = unat x - unat x mod 4"
proof -
  have F: "(0xFFFFFFFC :: u32) = NOT 0x03" by simp
  have "(x AND NOT 0x03) + (x AND 0x03) = (x AND NOT 0x03) OR (x AND 0x03)"
    by (rule disjunctive_add_eq_or) (rule bit_word_eqI, auto simp: bit_simps)
  also have "\<dots> = x" by (rule bit_word_eqI) (auto simp: bit_simps)
  finally have "x AND 0xFFFFFFFC = x - (x AND 0x03)" unfolding F by (simp add: algebra_simps)
  then have "unat (x AND 0xFFFFFFFC) = unat (x - (x AND 0x03))" by simp
  also have "\<dots> = unat x - unat (x AND 0x03)"
    by (rule unat_sub) (simp add: word_le_nat_alt unat_and_3)
  finally show ?thesis by (simp add: unat_and_3)
qed

section \<open>The checksum of an aligned prefix, words and a rest\<close>

definition crc_ref :: "u32 \<Rightarrow> u8 list \<Rightarrow> u32" where
  "crc_ref crc bs = foldl crc_byte_ref crc bs"

definition align_pad :: "u32 \<Rightarrow> nat" where
  "align_pad a = (4 - unat a mod 4) mod 4"

lemma align_pad_less: "align_pad a < 4" by (simp add: align_pad_def)

lemma round_up_4: "(x + 3) - (x + 3) mod 4 = x + (4 - x mod 4) mod (4 :: nat)"
proof -
  have m: "(x + 3) mod 4 = (x mod 4 + 3) mod 4" by (rule mod_add_left_eq [symmetric])
  have "x mod 4 < 4" by simp
  then consider "x mod 4 = 0" | "x mod 4 = 1" | "x mod 4 = 2" | "x mod 4 = 3" by linarith
  then show ?thesis unfolding m by cases simp_all
qed

lemma align_pad_mult: "\<exists>q. unat a + align_pad a = 4 * q"
  by (metis align_pad_def minus_mod_eq_mult_div round_up_4)

lemma aligned_up:
  assumes "no_wrap a (align_pad a)"
  shows "(a + 3) AND 0xFFFFFFFC = a + of_nat (align_pad a)"
proof -
  obtain q where q: "unat a + align_pad a = 4 * q" using align_pad_mult by blast
  have "q < 2 ^ 30" using assms q by simp
  then have "unat a + 3 < 2 ^ 32" using q by simp
  then have "unat (a + 3) = unat a + 3" using unat_offset [of a 3] by simp
  then have "unat ((a + 3) AND 0xFFFFFFFC) = (unat a + 3) - (unat a + 3) mod 4"
    by (simp add: unat_and_FFFFFFFC)
  also have "\<dots> = unat a + align_pad a" by (simp only: align_pad_def round_up_4)
  also have "\<dots> = unat (a + of_nat (align_pad a))" using assms by (simp add: unat_offset)
  finally show ?thesis by (simp add: word_unat_eq_iff)
qed

text \<open>What the code does once the prefix is done, for a remaining count \<open>m\<close>.\<close>

lemma crc_tail_run:
  assumes "no_wrap a m" "unat nb = m"
  shows "(case crc_words mem a (a + (nb AND 0xFFFFFFFC)) crc of
       None \<Rightarrow> None
     | Some (pdata, crc) \<Rightarrow> Some (snd (crc_bytes mem pdata (pdata + (nb AND 0x03)) crc))) =
   Some (foldl crc_step crc (bytes_at mem a m))"
proof -
  let ?k = "m div 4" and ?r = "m mod 4"
  have m: "m = 4 * ?k + ?r" by simp
  have "unat (nb AND 0xFFFFFFFC) = 4 * ?k"
    unfolding unat_and_FFFFFFFC assms(2) by (rule minus_mod_eq_mult_div)
  then have fc: "nb AND 0xFFFFFFFC = of_nat (4 * ?k)" by (rule word_eq_of_nat)
  have "unat (nb AND 0x03) = ?r" unfolding unat_and_3 assms(2) ..
  then have r3: "nb AND 0x03 = of_nat ?r" by (rule word_eq_of_nat)
  have "no_wrap a (4 * ?k)" using assms(1) m by linarith
  moreover have "no_wrap (a + of_nat (4 * ?k)) ?r"
    using assms(1) m unat_offset [OF \<open>no_wrap a (4 * ?k)\<close>] by linarith
  moreover have "bytes_at mem a m = bytes_at mem a (4 * ?k) @ bytes_at mem (a + of_nat (4 * ?k)) ?r"
    using m bytes_at_add by metis
  ultimately show ?thesis
    unfolding fc r3 by (simp only: crc_words_run crc_bytes_run option.case prod.case snd_conv foldl_append)
qed

lemma crc_step_is_ref: "foldl crc_step crc bs = crc_ref crc bs"
  by (simp add: crc_ref_def crc_step_ref [abs_def])

lemma hndcrc32_bytes:
  assumes "no_wrap a (unat nbytes)" "align_pad a \<le> unat nbytes"
  shows "hndcrc32 mem a nbytes crc = Some (crc_ref crc (bytes_at mem a (unat nbytes)))"
proof -
  let ?p = "align_pad a" and ?m = "unat nbytes - align_pad a"
  have p: "no_wrap a ?p" and m: "unat nbytes = ?p + ?m" using assms by linarith+
  have "unat (nbytes - of_nat ?p) = ?m"
    using assms(2) align_pad_less [of a]
    by (simp add: unat_sub word_le_nat_alt unsigned_of_nat take_bit_nat_eq_self)
  moreover have "no_wrap (a + of_nat ?p) ?m"
    using assms unat_offset [OF p] by linarith
  moreover have "bytes_at mem a (unat nbytes) = bytes_at mem a ?p @ bytes_at mem (a + of_nat ?p) ?m"
    using m bytes_at_add by metis
  ultimately show ?thesis
    using crc_tail_run [of "a + of_nat ?p" ?m "nbytes - of_nat ?p" mem
        "foldl crc_step crc (bytes_at mem a ?p)"]
    unfolding hndcrc32_def Let_def aligned_up [OF p] crc_bytes_run [OF p] prod.case
      add_diff_cancel_left' crc_step_is_ref [symmetric]
    by simp
qed

lemma wrapped_count:
  assumes "unat nbytes < p" "p < 4"
  shows "(nbytes - of_nat p :: u32) AND 0xFFFFFFFC = - 4"
    "(nbytes - of_nat p) AND 0x03 = of_nat (unat nbytes + 4 - p)"
proof -
  consider "unat nbytes = 0" "p = 1" | "unat nbytes = 0" "p = 2" | "unat nbytes = 0" "p = 3"
    | "unat nbytes = 1" "p = 2" | "unat nbytes = 1" "p = 3" | "unat nbytes = 2" "p = 3"
    using assms by linarith
  then have "(nbytes - of_nat p :: u32) AND 0xFFFFFFFC = - 4 \<and>
    (nbytes - of_nat p) AND 0x03 = of_nat (unat nbytes + 4 - p)"
    by cases (drule word_eq_of_nat, simp)+
  then show "(nbytes - of_nat p :: u32) AND 0xFFFFFFFC = - 4"
    "(nbytes - of_nat p) AND 0x03 = of_nat (unat nbytes + 4 - p)" by blast+
qed

lemma hndcrc32_short:
  assumes "no_wrap a 8" "unat nbytes < align_pad a"
  shows "hndcrc32 mem a nbytes crc = Some (crc_ref crc (bytes_at mem a (unat nbytes + 4)))"
proof -
  let ?p = "align_pad a"
  let ?a = "a + of_nat ?p" and ?nb = "nbytes - of_nat ?p"
  let ?r = "unat nbytes + 4 - ?p"
  have p: "no_wrap a ?p" using assms align_pad_less [of a] by linarith
  obtain q where q: "unat a + ?p = 4 * q" using align_pad_mult by blast
  have ua: "unat ?a = unat a + ?p" using unat_offset [OF p] .
  have "4 \<le> unat ?a" using q assms(2) ua by (cases q) auto
  then have "?a + - 4 < ?a"
    using unsigned_less [of ?a, where 'a = nat] by (simp add: word_less_nat_alt unat_sub_if')
  then have "\<not> ?a < ?a + - 4" by (rule less_not_sym)
  then have words: "crc_words mem ?a (?a + - 4) c = Some (?a, c)" for c
    by (subst crc_words.simps) (simp only: if_False)
  have "no_wrap ?a ?r" using ua assms align_pad_less [of a] by linarith
  moreover have "unat nbytes + 4 = ?p + ?r" using align_pad_less [of a] by linarith
  then have "bytes_at mem a (unat nbytes + 4) = bytes_at mem a ?p @ bytes_at mem ?a ?r"
    using bytes_at_add by metis
  ultimately show ?thesis
    using wrapped_count [OF assms(2) align_pad_less] crc_bytes_run [of ?a ?r mem] words
    unfolding hndcrc32_def Let_def aligned_up [OF p] crc_bytes_run [OF p] prod.case
      add_diff_cancel_left' crc_step_is_ref [symmetric]
    by (simp del: of_nat_diff)
qed

section \<open>Properties\<close>

text \<open>C30: The checksum computed by bytes, words and remaining bytes through the table is, for every start address
  and every count (with bytes that do not wrap around the address space), the bitwise checksum (reflected polynomial \<open>0xEDB88320\<close>): of exactly the given bytes when they reach at
  least to the first word boundary; of four bytes more when they do not, because the unsigned count then wraps.\<close>

theorem hndcrc32_correct:
  assumes "no_wrap a (if align_pad a \<le> unat nbytes then unat nbytes else 8)"
  shows "hndcrc32 mem a nbytes crc =
    Some (crc_ref crc (bytes_at mem a (if align_pad a \<le> unat nbytes then unat nbytes else unat nbytes + 4)))"
  using assms hndcrc32_bytes [of a nbytes mem crc] hndcrc32_short [of a nbytes mem crc] by (simp split: if_splits)

theorem hndcrc32_correct_witness:
  "hndcrc32 (\<lambda>a. ucast (a - 0x1003) + 0x31) 0x1003 9 0xFFFFFFFF = Some (NOT 0xCBF43926)"
proof -
  have pad: "align_pad 0x1003 \<le> 9" by (simp add: align_pad_def)
  have bytes: "bytes_at (\<lambda>a. ucast (a - 0x1003) + 0x31) 0x1003 9 =
      [0x31, 0x32, 0x33, 0x34, 0x35, 0x36, 0x37, 0x38, 0x39]"
    by (simp add: bytes_at_def upt_conv_Cons)
  have "crc_ref 0xFFFFFFFF [0x31, 0x32, 0x33, 0x34, 0x35, 0x36, 0x37, 0x38, 0x39] = NOT 0xCBF43926"
    by (simp add: crc_ref_def crc_byte_ref_def crc_bit_8 crc_bit_def)
  with bytes show ?thesis
    using hndcrc32_correct [of "0x1003" 9 "\<lambda>a. ucast (a - 0x1003) + 0x31" "0xFFFFFFFF"] pad by simp
qed

text \<open>a count below the distance to the next word boundary makes the unsigned count wrap:
  the function then returns the checksum of four bytes more than it was given.\<close>

theorem hndcrc32_overread:
  assumes "no_wrap a 8" and "unat nbytes < align_pad a"
  shows "hndcrc32 mem a nbytes crc = Some (crc_ref crc (bytes_at mem a (unat nbytes + 4)))"
  using assms by (rule hndcrc32_short)

theorem hndcrc32_overread_witness:
  "hndcrc32 (\<lambda>a. ucast (a - 0x1000)) 0x1001 0 7 = Some (crc_ref 7 [1, 2, 3, 4])"
  using hndcrc32_overread [of "0x1001" 0 "\<lambda>a. ucast (a - 0x1000)" 7]
  by (simp add: align_pad_def bytes_at_def upt_conv_Cons)

end
