(* ===== verification/BcmPower.thy ===== *)
theory BcmPower
  imports Prelude
begin

text \<open>
  Arithmetic helpers of the wireless driver (\<open>bcmutils.c\<close>): conversion between quarter-dBm
  units and milliwatts through a table of one decade, and the bit count of a bitmap. An
  access outside the table makes the result \<open>None\<close>; the scaling loop over an unsigned value
  is a partial function, so that a loop that does not end would be \<open>None\<close> too.
\<close>

section \<open>Power conversion\<close>

abbreviation QDBM_OFFSET :: int where "QDBM_OFFSET \<equiv> 153"
abbreviation QDBM_TABLE_LEN :: nat where "QDBM_TABLE_LEN \<equiv> 40"
abbreviation QDBM_TABLE_LOW_BOUND :: nat where "QDBM_TABLE_LOW_BOUND \<equiv> 6493"

definition nqdBm_to_mW_map :: "nat list" where
  "nqdBm_to_mW_map = [
     6683, 7079, 7499, 7943, 8414, 8913, 9441, 10000,
     10593, 11220, 11885, 12589, 13335, 14125, 14962, 15849,
     16788, 17783, 18836, 19953, 21135, 22387, 23714, 25119,
     26607, 28184, 29854, 31623, 33497, 35481, 37584, 39811,
     42170, 44668, 47315, 50119, 53088, 56234, 59566, 63096]"

text \<open>\<open>while (idx < 0) { idx += 40; factor *= 10; }\<close>\<close>

function scale_idx :: "int \<Rightarrow> nat \<Rightarrow> int \<times> nat" where
  "scale_idx idx factor = (if idx < 0 then scale_idx (idx + 40) (factor * 10) else (idx, factor))"
  by pat_completeness auto
termination
  by (relation "measure (\<lambda>(idx, factor). nat (- idx))") auto

declare scale_idx.simps [simp del]

definition bcm_qdbm_to_mw :: "u8 \<Rightarrow> u16 option" where
  "bcm_qdbm_to_mw qdbm =
     (let idx = uint qdbm - QDBM_OFFSET in
      if int QDBM_TABLE_LEN < idx then Some 0xFFFF
      else (let (idx, factor) = scale_idx idx 1 in
            if nat idx < length nqdBm_to_mW_map
            then Some (of_nat ((nqdBm_to_mW_map ! nat idx + factor div 2) div factor))
            else None))"

text \<open>\<open>while (mw_uint < QDBM_TABLE_LOW_BOUND) { mw_uint *= 10; offset -= 40; }\<close>\<close>

partial_function (option) scale_mw :: "nat \<Rightarrow> int \<Rightarrow> (nat \<times> int) option" where
  "scale_mw mw offset =
     (if mw < QDBM_TABLE_LOW_BOUND then scale_mw (mw * 10) (offset - 40) else Some (mw, offset))"

text \<open>The first table position whose upper boundary is above the value.\<close>

function find_qdbm :: "nat \<Rightarrow> nat \<Rightarrow> nat" where
  "find_qdbm mw qdbm =
     (if qdbm < QDBM_TABLE_LEN - 1 then
        (let boundary = nqdBm_to_mW_map ! qdbm +
           (nqdBm_to_mW_map ! (qdbm + 1) - nqdBm_to_mW_map ! qdbm) div 2
         in if mw < boundary then qdbm else find_qdbm mw (qdbm + 1))
      else qdbm)"
  by pat_completeness auto
termination
  by (relation "measure (\<lambda>(mw, qdbm). QDBM_TABLE_LEN - qdbm)") auto

declare find_qdbm.simps [simp del]

definition bcm_mw_to_qdbm :: "u16 \<Rightarrow> u8 option" where
  "bcm_mw_to_qdbm mw =
     (if unat mw \<le> 1 then Some 0
      else (case scale_mw (unat mw) QDBM_OFFSET of
              None \<Rightarrow> None
            | Some (mw, offset) \<Rightarrow> Some (of_nat (find_qdbm mw 0) + of_int offset)))"

section \<open>Bit count\<close>

text \<open>\<open>while (tmp) { bitcount++; tmp &= (tmp - 1); }\<close>\<close>

partial_function (option) count_byte :: "u8 \<Rightarrow> u32 \<Rightarrow> u32 option" where
  "count_byte tmp bitcount =
     (if tmp \<noteq> 0 then count_byte (tmp AND (tmp - 1)) (bitcount + 1) else Some bitcount)"

fun count_bytes :: "u8 list \<Rightarrow> u32 \<Rightarrow> u32 option" where
  "count_bytes [] bitcount = Some bitcount"
| "count_bytes (b # bs) bitcount =
     (case count_byte b bitcount of None \<Rightarrow> None | Some n \<Rightarrow> count_bytes bs n)"

definition bcm_bitcount :: "u8 list \<Rightarrow> nat \<Rightarrow> u32 option" where
  "bcm_bitcount bitmap len =
     (if len \<le> length bitmap then count_bytes (take len bitmap) 0 else None)"

section \<open>Lemmas on the conversion\<close>

lemma all_u8_upto:
  assumes "\<And>n. n \<in> set [lo ..< hi] \<Longrightarrow> P (of_nat n :: u8)" "lo \<le> unat q" "unat q < hi"
  shows "P q"
  using assms(1) [of "unat q"] assms(2,3) by simp

lemma scale_mw_ok:
  "0 < mw \<Longrightarrow> \<exists>m k. scale_mw mw offset = Some (m, offset - 40 * int k) \<and> m = mw * 10 ^ k \<and>
     QDBM_TABLE_LOW_BOUND \<le> m \<and> (k = 0 \<or> m < 10 * QDBM_TABLE_LOW_BOUND)"
proof (induction "QDBM_TABLE_LOW_BOUND - mw" arbitrary: mw offset rule: less_induct)
  case less
  show ?case
  proof (cases "mw < QDBM_TABLE_LOW_BOUND")
    case False
    then show ?thesis by (subst scale_mw.simps) (auto intro!: exI [of _ 0])
  next
    case True
    obtain m k where "scale_mw (mw * 10) (offset - 40) = Some (m, offset - 40 - 40 * int k)"
      "m = mw * 10 * 10 ^ k" "QDBM_TABLE_LOW_BOUND \<le> m" "k = 0 \<or> m < 10 * QDBM_TABLE_LOW_BOUND"
    proof -
      have "\<exists>m k. scale_mw (mw * 10) (offset - 40) = Some (m, offset - 40 - 40 * int k) \<and>
          m = mw * 10 * 10 ^ k \<and> QDBM_TABLE_LOW_BOUND \<le> m \<and>
          (k = 0 \<or> m < 10 * QDBM_TABLE_LOW_BOUND)"
        using less.hyps [of "mw * 10" "offset - 40"] True less.prems by simp
      then show ?thesis using that by blast
    qed
    with True show ?thesis
      by (subst scale_mw.simps) (auto intro!: exI [of _ "Suc k"])
  qed
qed

definition boundary :: "nat \<Rightarrow> nat" where
  "boundary q = nqdBm_to_mW_map ! q + (nqdBm_to_mW_map ! (q + 1) - nqdBm_to_mW_map ! q) div 2"

lemma find_qdbm_spec:
  "q \<le> 39 \<Longrightarrow> find_qdbm mw q \<le> 39 \<and> q \<le> find_qdbm mw q \<and>
   (find_qdbm mw q = 39 \<or> mw < boundary (find_qdbm mw q)) \<and>
   (\<forall>j. q \<le> j \<and> j < find_qdbm mw q \<longrightarrow> boundary j \<le> mw)"
proof (induction mw q rule: find_qdbm.induct)
  case (1 mw q)
  show ?case
  proof (cases "q < 39 \<and> \<not> mw < boundary q")
    case True
    then have "find_qdbm mw q = find_qdbm mw (q + 1)"
      by (subst find_qdbm.simps) (simp add: boundary_def Let_def)
    moreover have "find_qdbm mw (q + 1) \<le> 39 \<and> q + 1 \<le> find_qdbm mw (q + 1) \<and>
        (find_qdbm mw (q + 1) = 39 \<or> mw < boundary (find_qdbm mw (q + 1))) \<and>
        (\<forall>j. q + 1 \<le> j \<and> j < find_qdbm mw (q + 1) \<longrightarrow> boundary j \<le> mw)"
      using True by (intro 1) (auto simp: boundary_def)
    ultimately show ?thesis using True
      by (metis Suc_eq_plus1 Suc_leD antisym_conv1 leI less_eq_Suc_le)
  next
    case False
    then have "find_qdbm mw q = q"
      using 1(2) by (subst find_qdbm.simps) (auto simp add: boundary_def Let_def)
    with False 1(2) show ?thesis by auto
  qed
qed

lemma qdbm_to_mw_in_table:
  assumes "unat qdbm \<le> 192"
  shows "bcm_qdbm_to_mw qdbm \<noteq> None"
proof -
  have idx: "0 \<le> fst (scale_idx idx f) \<and> fst (scale_idx idx f) < 40" if "idx < 40" for idx f
    using that
  proof (induction idx f rule: scale_idx.induct)
    case (1 idx f)
    then show ?case by (subst (1 2) scale_idx.simps) auto
  qed
  have "uint qdbm - 153 < 40"
  proof -
    have "uint qdbm = int (unat qdbm)" by simp
    with assms show ?thesis by linarith
  qed
  with idx [of "uint qdbm - 153" 1] show ?thesis
    by (auto simp: bcm_qdbm_to_mw_def nqdBm_to_mW_map_def Let_def split: prod.splits)
qed

text \<open>The round trip, decade by decade: \<open>mw_entry k i\<close> is the milliwatt value of table entry
  \<open>i\<close> scaled down \<open>k\<close> times; scaled up again it falls between the boundaries of entry \<open>i\<close>.\<close>

definition mw_entry :: "nat \<Rightarrow> nat \<Rightarrow> nat" where
  "mw_entry k i = (nqdBm_to_mW_map ! i + 10 ^ k div 2) div 10 ^ k"

definition entry_ok :: "nat \<Rightarrow> nat \<Rightarrow> bool" where
  "entry_ok k i \<longleftrightarrow>
     (let m = mw_entry k i * 10 ^ k in
      (i = 39 \<or> m < boundary i) \<and> (i = 0 \<or> boundary (i - 1) \<le> m) \<and>
      QDBM_TABLE_LOW_BOUND \<le> m \<and> m < 10 * QDBM_TABLE_LOW_BOUND \<and>
      1 < mw_entry k i \<and> mw_entry k i < 2 ^ 16)"

text \<open>All entries of a decade at once, along the table.\<close>

fun decade_ok :: "nat \<Rightarrow> nat \<Rightarrow> nat list \<Rightarrow> bool" where
  "decade_ok k lo [] \<longleftrightarrow> True"
| "decade_ok k lo (a # xs) \<longleftrightarrow>
     (let v = (a + 10 ^ k div 2) div 10 ^ k; m = v * 10 ^ k in
      lo \<le> m \<and> QDBM_TABLE_LOW_BOUND \<le> m \<and> m < 10 * QDBM_TABLE_LOW_BOUND \<and> 1 < v \<and> v < 65536 \<and>
      (case xs of [] \<Rightarrow> True
       | b # ys \<Rightarrow> m < a + (b - a) div 2 \<and> decade_ok k (a + (b - a) div 2) xs))"

lemma decade_ok_nth:
  "decade_ok k lo xs \<Longrightarrow> i < length xs \<Longrightarrow>
   (let v = (xs ! i + 10 ^ k div 2) div 10 ^ k; m = v * 10 ^ k in
    (i + 1 = length xs \<or> m < xs ! i + (xs ! (i + 1) - xs ! i) div 2) \<and>
    (if i = 0 then lo \<le> m else xs ! (i - 1) + (xs ! i - xs ! (i - 1)) div 2 \<le> m) \<and>
    QDBM_TABLE_LOW_BOUND \<le> m \<and> m < 10 * QDBM_TABLE_LOW_BOUND \<and> 1 < v \<and> v < 65536)"
proof (induction k lo xs arbitrary: i rule: decade_ok.induct)
  case (2 k lo a xs)
  show ?case
  proof (cases i)
    case 0
    with 2 show ?thesis by (auto simp: Let_def split: list.splits)
  next
    case (Suc j)
    with 2 obtain b ys where xs: "xs = b # ys" by (cases xs) auto
    with 2 have "decade_ok k (a + (b - a) div 2) xs" by (simp add: Let_def)
    with 2(1) [OF refl refl xs, of j] 2(3) Suc xs show ?thesis
      by (cases j) (simp_all add: Let_def)
  qed
qed simp

lemma table_decades:
  "decade_ok 0 0 nqdBm_to_mW_map" "decade_ok 1 0 nqdBm_to_mW_map"
  "decade_ok 2 0 nqdBm_to_mW_map" "decade_ok 3 (boundary 11) (drop 12 nqdBm_to_mW_map)"
  by (simp_all add: nqdBm_to_mW_map_def boundary_def Let_def)

lemma length_map [simp]: "length nqdBm_to_mW_map = 40"
  by (simp add: nqdBm_to_mW_map_def)

lemma entry_ok_decade:
  "k \<le> 2 \<Longrightarrow> i < 40 \<Longrightarrow> entry_ok k i" "12 \<le> i \<Longrightarrow> i < 40 \<Longrightarrow> entry_ok 3 i"
proof -
  assume i: "i < 40"
  { assume "k \<le> 2"
    then have "k = 0 \<or> k = 1 \<or> k = 2" by linarith
    then have "decade_ok k 0 nqdBm_to_mW_map" using table_decades by blast
    from decade_ok_nth [OF this, of i] i show "entry_ok k i"
      by (auto simp: entry_ok_def mw_entry_def boundary_def Let_def split: if_splits) }
  assume "12 \<le> i"
  then obtain j where j: "i = 12 + j" using le_Suc_ex by blast
  with i decade_ok_nth [OF table_decades(4), of j] show "entry_ok 3 i"
    by (cases j) (simp_all add: entry_ok_def mw_entry_def boundary_def Let_def numeral_3_eq_3)
qed

lemma boundary_step: "j < 38 \<Longrightarrow> boundary j \<le> boundary (j + 1)"
proof -
  assume "j < 38"
  have "sorted nqdBm_to_mW_map" by (simp add: nqdBm_to_mW_map_def)
  then have "nqdBm_to_mW_map ! j \<le> nqdBm_to_mW_map ! (j + 1)"
    using \<open>j < 38\<close> by (intro sorted_nth_mono) simp_all
  then show ?thesis unfolding boundary_def by linarith
qed

lemma boundary_mono: "j \<le> k \<Longrightarrow> k < 39 \<Longrightarrow> boundary j \<le> boundary k"
proof (induction k)
  case (Suc k)
  then show ?case using boundary_step [of k] by (cases "j = Suc k") auto
qed simp

lemma find_qdbm_eq:
  assumes "i \<le> 39" "i = 39 \<or> m < boundary i" "i = 0 \<or> boundary (i - 1) \<le> m"
  shows "find_qdbm m 0 = i"
proof (rule ccontr)
  let ?j = "find_qdbm m 0"
  assume ne: "?j \<noteq> i"
  note spec = find_qdbm_spec [of 0 m]
  show False
  proof (cases "?j < i")
    case True
    then have "m < boundary ?j" using spec assms(1) by auto
    also have "\<dots> \<le> boundary (i - 1)" using True assms(1) by (intro boundary_mono) auto
    finally show False using assms(3) True by auto
  next
    case False
    with ne spec assms(1) have "i < ?j" "i \<noteq> 39" by auto
    with spec assms(2) show False by auto
  qed
qed

lemma scale_mw_eq:
  assumes "0 < mw" "QDBM_TABLE_LOW_BOUND \<le> mw * 10 ^ k" "mw * 10 ^ k < 10 * QDBM_TABLE_LOW_BOUND"
  shows "scale_mw mw offset = Some (mw * 10 ^ k, offset - 40 * int k)"
proof -
  obtain m k' where s: "scale_mw mw offset = Some (m, offset - 40 * int k')" "m = mw * 10 ^ k'"
    "QDBM_TABLE_LOW_BOUND \<le> m" "k' = 0 \<or> m < 10 * QDBM_TABLE_LOW_BOUND"
    using scale_mw_ok [OF assms(1), of offset] by blast
  have step: "10 * (mw * 10 ^ a) \<le> mw * 10 ^ b" if "a < b" for a b
  proof -
    have "(10 :: nat) ^ Suc a \<le> 10 ^ b" using that by (intro power_increasing) auto
    then show ?thesis by simp
  qed
  consider "k' = k" | "k' < k" | "k < k'" by linarith
  then have "k' = k"
  proof cases
    case 2
    with step [OF 2] assms(3) s(2,3) show ?thesis by linarith
  next
    case 3
    with step [OF 3] assms(2) s(2,4) show ?thesis by linarith
  qed
  with s show ?thesis by simp
qed

lemma scale_idx_eq: "i < 40 \<Longrightarrow> scale_idx (int i - 40 * int k) f = (int i, f * 10 ^ k)"
proof (induction k arbitrary: f)
  case 0
  then show ?case by (simp add: scale_idx.simps)
next
  case (Suc k)
  then have "scale_idx (int i - 40 * int (Suc k)) f = scale_idx (int i - 40 * int k) (f * 10)"
    by (subst scale_idx.simps) (simp add: algebra_simps)
  with Suc show ?case by simp
qed

lemma qdbm_mw_qdbm:
  assumes "45 \<le> unat q" "unat q \<le> 192"
  shows "\<exists>mw. bcm_qdbm_to_mw q = Some mw \<and> bcm_mw_to_qdbm mw = Some q"
proof -
  define k where "k = (192 - unat q) div 40"
  define i where "i = unat q + 40 * k - 153"
  have k3: "k \<le> 3" "40 * k \<le> 192 - unat q" "192 - unat q < 40 * k + 40"
    using assms unfolding k_def by auto
  have i: "i < 40" "unat q + 40 * k = i + 153" "k = 3 \<longrightarrow> 12 \<le> i"
    using k3 assms unfolding i_def by auto
  have ok: "entry_ok k i"
  proof (cases "k = 3")
    case True
    with i show ?thesis using entry_ok_decade(2) by simp
  next
    case False
    with k3(1) i(1) show ?thesis using entry_ok_decade(1) by simp
  qed
  let ?v = "mw_entry k i"
  have idx: "uint q - 153 = int i - 40 * int k"
  proof -
    have "uint q = int (unat q)" by simp
    with i(2) show ?thesis by linarith
  qed
  have to: "bcm_qdbm_to_mw q = Some (of_nat ?v)"
    using i(1) unfolding bcm_qdbm_to_mw_def idx
    by (simp add: scale_idx_eq mw_entry_def)
  have v: "1 < ?v" "unat (of_nat ?v :: u16) = ?v"
    using ok by (simp_all add: entry_ok_def Let_def unat_of_nat_word16)
  have "scale_mw ?v 153 = Some (?v * 10 ^ k, 153 - 40 * int k)"
    using ok v(1) by (intro scale_mw_eq) (simp_all add: entry_ok_def Let_def)
  moreover have "find_qdbm (?v * 10 ^ k) 0 = i"
    using ok i(1) by (intro find_qdbm_eq) (simp_all add: entry_ok_def Let_def)
  moreover have "(of_nat i + of_int (153 - 40 * int k) :: u8) = q"
  proof -
    have "int i + (153 - 40 * int k) = int (unat q)" using i(2) by linarith
    then have "(of_int (int i + (153 - 40 * int k)) :: u8) = of_int (int (unat q))" by (simp only:)
    then show ?thesis by simp
  qed
  ultimately have "bcm_mw_to_qdbm (of_nat ?v) = Some q"
    using v by (simp add: bcm_mw_to_qdbm_def)
  with to show ?thesis by blast
qed

section \<open>Lemmas on the bit count\<close>

lemma bit_minus_lowest:
  fixes x :: "'a::len word"
  assumes "bit x k" "\<And>j. j < k \<Longrightarrow> \<not> bit x j"
  shows "bit (x AND (x - 1)) j \<longleftrightarrow> bit x j \<and> j \<noteq> k"
proof -
  define hi where "hi = push_bit (Suc k) (drop_bit (Suc k) x)"
  define low where "low = (push_bit k 1 :: 'a word)"
  have h: "bit hi j \<longleftrightarrow> k < j \<and> bit x j" for j
    unfolding hi_def
    by (auto simp: bit_push_bit_iff bit_drop_bit_eq dest: bit_imp_le_length simp del: push_bit_Suc)
  have k: "k < LENGTH('a)" using assms(1) by (rule bit_imp_le_length)
  have e: "bit low j \<longleftrightarrow> j = k" for j
    using k unfolding low_def by (auto simp: bit_simps)
  have "x = hi OR low"
    by (rule bit_word_eqI) (use assms in \<open>auto simp: bit_or_iff h e linorder_neq_iff\<close>)
  also have "\<dots> = hi + low"
    by (rule disjunctive_add_eq_or [symmetric], rule bit_word_eqI) (auto simp: bit_and_iff h e)
  finally have "x - 1 = hi + mask k" by (simp add: low_def push_bit_eq_mult mask_eq_exp_minus_1)
  also have "\<dots> = hi OR mask k"
    by (rule disjunctive_add_eq_or, rule bit_word_eqI) (auto simp: bit_and_iff h bit_mask_iff)
  finally have "bit (x - 1) j \<longleftrightarrow> k < j \<and> bit x j \<or> (j < k \<and> j < LENGTH('a))" for j
    by (simp add: bit_or_iff h bit_mask_iff conj_commute)
  with assms show ?thesis by (auto simp: bit_and_iff linorder_neq_iff)
qed

definition ones :: "u8 \<Rightarrow> nat" where
  "ones x = card {i. i < 8 \<and> bit x i}"

lemma ones_step:
  assumes "x \<noteq> 0"
  shows "ones x = Suc (ones (x AND (x - 1)))"
proof -
  from assms obtain i where "bit x i" by (auto simp: bit_eq_iff)
  define k where "k = (LEAST i. bit x i)"
  have k: "bit x k" "\<And>j. j < k \<Longrightarrow> \<not> bit x j"
    using LeastI [of "bit x", OF \<open>bit x i\<close>] not_less_Least unfolding k_def by auto
  have "k < 8" using bit_imp_le_length [OF k(1)] by simp
  then have "{i. i < 8 \<and> bit x i} = insert k {i. i < 8 \<and> bit (x AND (x - 1)) i}"
    using k(1) by (auto simp: bit_minus_lowest [OF k])
  moreover have "k \<notin> {i. i < 8 \<and> bit (x AND (x - 1)) i}"
    by (simp add: bit_minus_lowest [OF k])
  ultimately show ?thesis by (simp add: ones_def)
qed

lemma count_byte_ones: "count_byte x n = Some (n + of_nat (ones x))"
proof (induction "ones x" arbitrary: x n rule: less_induct)
  case less
  show ?case
  proof (cases "x = 0")
    case True
    then show ?thesis by (subst count_byte.simps) (simp add: ones_def)
  next
    case False
    with less [of "x AND (x - 1)"] ones_step [OF False] show ?thesis
      by (subst count_byte.simps) simp
  qed
qed

lemma count_bytes_ones: "count_bytes bs n = Some (n + of_nat (sum_list (map ones bs)))"
  by (induction bs arbitrary: n) (simp_all add: count_byte_ones)

section \<open>Properties\<close>

text \<open>converting a power from 45 quarter-dBm up to the last table entry to milliwatts and
  back gives the same value: all loops end, every table access is inside the table.\<close>

theorem bcm_qdbm_roundtrip:
  assumes "45 \<le> unat q" and "unat q \<le> 192"
  shows "\<exists>mw. bcm_qdbm_to_mw q = Some mw \<and> bcm_mw_to_qdbm mw = Some q"
  using assms by (rule qdbm_mw_qdbm)

theorem bcm_qdbm_roundtrip_witness:
  "\<exists>mw. bcm_qdbm_to_mw 80 = Some mw \<and> bcm_mw_to_qdbm mw = Some 80"
  using bcm_qdbm_roundtrip [of 80] by simp

text \<open>the conversion to milliwatts reads outside the table for exactly one input, the value
  one past the last entry; the clamp starts only above it.\<close>

theorem bcm_qdbm_table_bound: "bcm_qdbm_to_mw q = None \<longleftrightarrow> q = 193"
proof -
  consider "unat q \<le> 192" | "unat q = 193" | "193 < unat q" by linarith
  then show ?thesis
  proof cases
    case 1
    then have "q \<noteq> 193" by auto
    with qdbm_to_mw_in_table [OF 1] show ?thesis by simp
  next
    case 2
    then have "q = 193" by (drule_tac word_eq_of_nat) simp
    then show ?thesis by (simp add: bcm_qdbm_to_mw_def scale_idx.simps)
  next
    case 3
    then have "q \<noteq> 193" by auto
    moreover have "uint q = int (unat q)" by simp
    with 3 have "40 < uint q - 153" by linarith
    ultimately show ?thesis by (simp add: bcm_qdbm_to_mw_def)
  qed
qed

text \<open>the bit count of a bitmap terminates and is the number of bits set in its bytes.\<close>

theorem bcm_bitcount_correct:
  assumes "len \<le> length bitmap"
  shows "bcm_bitcount bitmap len = Some (of_nat (sum_list (map ones (take len bitmap))))"
  using assms by (simp add: bcm_bitcount_def count_bytes_ones)

theorem bcm_bitcount_correct_witness:
  "bcm_bitcount [0xFF, 0x81, 7] 2 = Some (of_nat (ones 0xFF + ones 0x81))"
  using bcm_bitcount_correct [of 2 "[0xFF, 0x81, 7]"] by (simp add: numeral_2_eq_2)

end
