(* ===== verification/BcmPkt.thy ===== *)
theory BcmPkt
  imports Prelude "HOL-Library.Monad_Syntax"
begin

text \<open>
  Packet chains and packet priorities of the wireless driver (\<open>bcmutils.c\<close>): copying and
  measuring a chain of buffers, and the priority of an Ethernet frame from its VLAN tag and
  its IP header. The buffers of a chain are linked by \<open>PKTNEXT\<close>, here the store \<open>nxt\<close>;
  \<open>data\<close> gives the bytes of a buffer. A read outside a frame makes the result \<open>None\<close>.
\<close>

section \<open>Chains\<close>

text \<open>The loop that skips \<open>offset\<close> bytes.\<close>

partial_function (option) pkt_skip ::
  "('p \<Rightarrow> 'p option) \<Rightarrow> ('p \<Rightarrow> u8 list) \<Rightarrow> 'p option \<Rightarrow> nat \<Rightarrow> ('p option \<times> nat) option"
where
  "pkt_skip nxt data p offset =
     (case p of
        None \<Rightarrow> Some (None, offset)
      | Some a \<Rightarrow>
          if offset \<noteq> 0 then
            (if offset < length (data a) then Some (p, offset)
             else pkt_skip nxt data (nxt a) (offset - length (data a)))
          else Some (p, offset))"

text \<open>The loop that copies; \<open>out\<close> is what \<open>bcopy\<close> has written to the buffer so far.\<close>

partial_function (option) pkt_copy_loop ::
  "('p \<Rightarrow> 'p option) \<Rightarrow> ('p \<Rightarrow> u8 list) \<Rightarrow> 'p option \<Rightarrow> nat \<Rightarrow> nat \<Rightarrow> u8 list \<Rightarrow> u8 list option"
where
  "pkt_copy_loop nxt data p offset len out =
     (case p of
        None \<Rightarrow> Some out
      | Some a \<Rightarrow>
          if len \<noteq> 0 then
            (let n = min (length (data a) - offset) len
             in pkt_copy_loop nxt data (nxt a) 0 (len - n) (out @ take n (drop offset (data a))))
          else Some out)"

text \<open>The result is the bytes written to the buffer; the C function returns their number.\<close>

definition pktcopy ::
  "('p \<Rightarrow> 'p option) \<Rightarrow> ('p \<Rightarrow> u8 list) \<Rightarrow> 'p option \<Rightarrow> nat \<Rightarrow> int \<Rightarrow> u8 list option" where
  "pktcopy nxt data p offset len =
     (let len = (if len < 0 then 4096 else nat len) in
      case pkt_skip nxt data p offset of
        None \<Rightarrow> None
      | Some (None, _) \<Rightarrow> Some []
      | Some (Some a, offset) \<Rightarrow> pkt_copy_loop nxt data (Some a) offset len [])"

partial_function (option) totlen_loop ::
  "('p \<Rightarrow> 'p option) \<Rightarrow> ('p \<Rightarrow> u8 list) \<Rightarrow> 'p option \<Rightarrow> u32 \<Rightarrow> u32 option"
where
  "totlen_loop nxt data p tot =
     (case p of None \<Rightarrow> Some tot
      | Some a \<Rightarrow> totlen_loop nxt data (nxt a) (tot + of_nat (length (data a))))"

definition pkttotlen :: "('p \<Rightarrow> 'p option) \<Rightarrow> ('p \<Rightarrow> u8 list) \<Rightarrow> 'p option \<Rightarrow> u32 option" where
  "pkttotlen nxt data p = totlen_loop nxt data p 0"

partial_function (option) pktlast :: "('p \<Rightarrow> 'p option) \<Rightarrow> 'p \<Rightarrow> 'p option" where
  "pktlast nxt p = (case nxt p of None \<Rightarrow> Some p | Some q \<Rightarrow> pktlast nxt q)"

section \<open>Priority of a frame\<close>

definition rd8 :: "u8 list \<Rightarrow> nat \<Rightarrow> u8 option" where
  "rd8 d i = (if i < length d then Some (d ! i) else None)"

text \<open>\<open>ntoh16\<close> of a field: the bytes are in network order.\<close>

definition rd16 :: "u8 list \<Rightarrow> nat \<Rightarrow> u16 option" where
  "rd16 d i = do { a \<leftarrow> rd8 d i; b \<leftarrow> rd8 d (i + 1); Some (push_bit 8 (ucast a) OR ucast b) }"

definition wr16 :: "u8 list \<Rightarrow> nat \<Rightarrow> u16 \<Rightarrow> u8 list" where
  "wr16 d i v = d[i := ucast (drop_bit 8 v), i + 1 := ucast v]"

definition IP_VER :: "u8 list \<Rightarrow> nat \<Rightarrow> u8 option" where
  "IP_VER d body = do { v \<leftarrow> rd8 d body; Some (drop_bit 4 (v AND 0xF0)) }"

definition IP_TOS :: "u8 list \<Rightarrow> nat \<Rightarrow> u8 option" where
  "IP_TOS d body = do {
     ver \<leftarrow> IP_VER d body;
     if ver = 4 then rd8 d (body + 1)
     else if ver = 6 then do {
       a \<leftarrow> rd8 d body; b \<leftarrow> rd8 d (body + 1);
       Some (push_bit 4 (a AND 0x0F) OR drop_bit 4 (b AND 0xF0)) }
     else Some 0 }"

text \<open>The part the two branches of the code share: the precedence bits of the TOS byte, or 7
  for a 40-byte IPv4 TCP acknowledgement from one of four ports.\<close>

definition ip_prio :: "u8 list \<Rightarrow> nat \<Rightarrow> nat option" where
  "ip_prio d body = do {
     tos_tc \<leftarrow> IP_TOS d body;
     ver \<leftarrow> IP_VER d body;
     let prio = unat (drop_bit 5 tos_tc);
     if ver = 4 then do {
       prot \<leftarrow> rd8 d (body + 9);
       if prot = 6 then do {
         ip_len \<leftarrow> rd16 d (body + 2);
         src_port \<leftarrow> rd16 d (body + 20);
         if ip_len = 40 \<and> src_port \<in> {10110, 10120, 10130, 10140} then do {
           flags \<leftarrow> rd8 d (body + 20 + 13);
           Some (if flags AND 0x10 \<noteq> 0 then 7 else prio) }
         else Some prio }
       else Some prio }
     else Some prio }"

abbreviation PKTPRIO_VDSCP :: nat where "PKTPRIO_VDSCP \<equiv> 0x100"
abbreviation PKTPRIO_VLAN :: nat where "PKTPRIO_VLAN \<equiv> 0x200"
abbreviation PKTPRIO_UPD :: nat where "PKTPRIO_UPD \<equiv> 0x400"
abbreviation PKTPRIO_DSCP :: nat where "PKTPRIO_DSCP \<equiv> 0x800"

text \<open>The result is the returned value, the priority stored in the packet and the frame.\<close>

definition pktsetprio :: "u8 list \<Rightarrow> bool \<Rightarrow> (nat \<times> nat \<times> u8 list) option" where
  "pktsetprio d update_vtag = do {
     ether_type \<leftarrow> rd16 d 12;
     if ether_type = 0x8100 then do {
       vlan_tag \<leftarrow> rd16 d 14;
       let vlan_prio = unat (drop_bit 13 vlan_tag AND 7);
       inner \<leftarrow> rd16 d 16;
       dscp_prio \<leftarrow> (if inner = 0x0800 then ip_prio d 18 else Some 0);
       let (priority, rc) = (if dscp_prio \<noteq> 0 then (dscp_prio, PKTPRIO_VDSCP)
                             else (vlan_prio, PKTPRIO_VLAN));
       if update_vtag \<and> priority \<noteq> vlan_prio then
         (let vlan_tag = (vlan_tag AND NOT (push_bit 13 7)) OR push_bit 13 (of_nat priority)
          in Some ((rc OR PKTPRIO_UPD) OR priority, priority, wr16 d 14 vlan_tag))
       else Some (rc OR priority, priority, d) }
     else if ether_type = 0x0800 then do {
       priority \<leftarrow> ip_prio d 14;
       Some (PKTPRIO_DSCP OR priority, priority, d) }
     else Some (0, 0, d) }"

section \<open>Chains: the copy is a slice of the concatenated buffers\<close>

lemma pkt_skip_spec:
  "plist nxt p ps \<Longrightarrow>
   \<exists>q qs k. pkt_skip nxt data p offset = Some (q, k) \<and> plist nxt q qs \<and>
     drop offset (concat (map data ps)) = drop k (concat (map data qs)) \<and>
     (qs \<noteq> [] \<longrightarrow> k = 0 \<or> k < length (data (hd qs))) \<and>
     (qs = [] \<longrightarrow> drop offset (concat (map data ps)) = [])"
proof (induction ps arbitrary: p offset)
  case Nil
  then show ?case by (subst pkt_skip.simps) (auto intro: exI [of _ "[]"])
next
  case (Cons a ps)
  then have p: "p = Some a" "plist nxt (nxt a) ps" by auto
  show ?case
  proof (cases "offset \<noteq> 0 \<and> \<not> offset < length (data a)")
    case True
    with p Cons.IH [OF p(2), of "offset - length (data a)"] show ?thesis
      by (subst pkt_skip.simps) auto
  next
    case False
    with p Cons.prems show ?thesis
      by (subst pkt_skip.simps) (auto intro!: exI [of _ "a # ps"])
  qed
qed

lemma pkt_copy_loop_spec:
  "plist nxt p ps \<Longrightarrow> (ps \<noteq> [] \<longrightarrow> k \<le> length (data (hd ps))) \<Longrightarrow>
   pkt_copy_loop nxt data p k len out =
     Some (out @ take len (if ps = [] then [] else drop k (concat (map data ps))))"
proof (induction ps arbitrary: p k len out)
  case Nil
  then show ?case by (subst pkt_copy_loop.simps) simp
next
  case (Cons a ps)
  then have p: "p = Some a" "plist nxt (nxt a) ps" "k \<le> length (data a)" by auto
  show ?case
  proof (cases "len = 0")
    case True
    with p show ?thesis by (subst pkt_copy_loop.simps) simp
  next
    case False
    with p Cons.IH [OF p(2), of 0] show ?thesis
      by (subst pkt_copy_loop.simps) (auto simp: Let_def min_def)
  qed
qed

lemma pktcopy_spec:
  assumes "plist nxt p ps"
  shows "pktcopy nxt data p offset len =
    Some (take (if len < 0 then 4096 else nat len) (drop offset (concat (map data ps))))"
proof -
  obtain q qs k where s: "pkt_skip nxt data p offset = Some (q, k)" "plist nxt q qs"
    "drop offset (concat (map data ps)) = drop k (concat (map data qs))"
    "qs \<noteq> [] \<longrightarrow> k = 0 \<or> k < length (data (hd qs))"
    "qs = [] \<longrightarrow> drop offset (concat (map data ps)) = []"
    using pkt_skip_spec [OF assms, of data offset] by blast
  show ?thesis
  proof (cases qs)
    case Nil
    with s show ?thesis by (simp add: pktcopy_def)
  next
    case (Cons a as)
    with s pkt_copy_loop_spec [OF s(2), of k data] show ?thesis
      by (auto simp add: pktcopy_def Let_def)
  qed
qed

lemma totlen_loop_spec:
  "plist nxt p ps \<Longrightarrow>
   totlen_loop nxt data p n = Some (n + of_nat (length (concat (map data ps))))"
  by (induction ps arbitrary: p n) (subst totlen_loop.simps, simp)+

lemma pktlast_spec: "plist nxt (Some p) ps \<Longrightarrow> pktlast nxt p = Some (last ps)"
proof (induction ps arbitrary: p)
  case (Cons a ps)
  then show ?case
    by (subst pktlast.simps) (cases ps; auto)
qed simp

section \<open>Priorities\<close>

lemma ip_prio_le: "ip_prio d body = Some p \<Longrightarrow> p \<le> 7"
proof -
  have "unat (drop_bit 5 (x :: u8)) \<le> 7" for x
  proof -
    have "unat x div 32 < 8" by (rule less_mult_imp_div_less) simp
    then show ?thesis by (simp only: unat_drop_bit) simp
  qed
  then show "ip_prio d body = Some p \<Longrightarrow> p \<le> 7"
    by (auto simp: ip_prio_def Let_def split: Option.bind_splits if_splits)
qed

lemma rd8_wr16: "i \<noteq> j \<Longrightarrow> i \<noteq> j + 1 \<Longrightarrow> rd8 (wr16 d j v) i = rd8 d i"
  by (auto simp: rd8_def wr16_def)

lemma rd16_wr16_other: "i + 1 < j \<or> j + 1 < i \<Longrightarrow> rd16 (wr16 d j v) i = rd16 d i"
  by (auto simp: rd16_def rd8_wr16)

lemma rd16_wr16_same: "j + 1 < length d \<Longrightarrow> rd16 (wr16 d j v) j = Some v"
proof -
  have "push_bit 8 (ucast (ucast (drop_bit 8 v) :: u8)) OR ucast (ucast v :: u8) = v"
    by (rule bit_word_eqI) (auto simp: bit_simps)
  then show "j + 1 < length d \<Longrightarrow> rd16 (wr16 d j v) j = Some v"
    by (simp add: rd16_def rd8_def wr16_def)
qed

lemma ip_prio_wr16: "j + 1 < body \<Longrightarrow> ip_prio (wr16 d j v) body = ip_prio d body"
proof -
  assume j: "j + 1 < body"
  then have r: "rd8 (wr16 d j v) body = rd8 d body" "rd8 (wr16 d j v) (body + k) = rd8 d (body + k)"
    "rd16 (wr16 d j v) (body + k) = rd16 d (body + k)" for k
    by (auto simp: rd8_wr16 rd16_wr16_other)
  have r33: "rd8 (wr16 d j v) (body + 20 + 13) = rd8 d (body + 20 + 13)"
    using j by (simp add: rd8_wr16)
  show ?thesis unfolding ip_prio_def IP_TOS_def IP_VER_def r r33 by (rule refl)
qed

lemma new_tag:
  fixes vtag :: u16
  assumes "p \<le> 7"
  defines "vtag' \<equiv> (vtag AND NOT (push_bit 13 7)) OR push_bit 13 (of_nat p)"
  shows "unat (drop_bit 13 vtag' AND 7) = p" "vtag' AND 0x1FFF = vtag AND 0x1FFF"
proof -
  have p: "(of_nat p :: u16) AND mask 3 = of_nat p"
    using assms(1) by (simp add: word_unat_eq_iff unat_and_mask unat_of_nat_word16)
  have 7: "(7 :: u16) = mask 3" "(0x1FFF :: u16) = mask 13" by (simp_all add: mask_eq_exp_minus_1)
  have "drop_bit 13 vtag' AND mask 3 = of_nat p AND mask 3"
    unfolding vtag'_def 7 by (rule bit_word_eqI) (auto simp: bit_simps)
  with p have "drop_bit 13 vtag' AND 7 = of_nat p" by (simp only: 7)
  then show "unat (drop_bit 13 vtag' AND 7) = p"
    using assms(1) by (simp only: unat_of_nat_word16)
  show "vtag' AND 0x1FFF = vtag AND 0x1FFF"
    unfolding vtag'_def 7 by (rule bit_word_eqI) (auto simp: bit_simps)
qed

lemma unat_and_7_le: "unat (x AND 7 :: u16) \<le> 7"
proof -
  have "unat x mod 8 < 8" by simp
  then show ?thesis by (simp only: and_7_mask unat_and_mask) simp
qed

text \<open>The three ways out of \<open>pktsetprio\<close>.\<close>

lemma pktsetprio_cases:
  assumes "pktsetprio d upd = Some (r, p, d')"
  obtains (vlan) vtag inner dscp vlan where
      "rd16 d 12 = Some 0x8100" "rd16 d 14 = Some vtag" "rd16 d 16 = Some inner"
      "(if inner = 0x0800 then ip_prio d 18 else Some 0) = Some dscp"
      "vlan = unat (drop_bit 13 vtag AND 7)" "p = (if dscp \<noteq> 0 then dscp else vlan)"
      "d' = (if upd \<and> p \<noteq> vlan
             then wr16 d 14 ((vtag AND NOT (push_bit 13 7)) OR push_bit 13 (of_nat p)) else d)"
    | (ip) "rd16 d 12 = Some 0x0800" "ip_prio d 14 = Some p" "d' = d"
    | (other) e where "rd16 d 12 = Some e" "e \<noteq> 0x8100" "e \<noteq> 0x0800" "p = 0" "d' = d"
proof -
  obtain e where e: "rd16 d 12 = Some e"
    using assms by (auto simp: pktsetprio_def split: Option.bind_splits)
  consider "e = 0x8100" | "e = 0x0800" | "e \<noteq> 0x8100" "e \<noteq> 0x0800" by blast
  then show ?thesis
  proof cases
    case 1
    with assms e show ?thesis
      by (auto simp: pktsetprio_def Let_def split: Option.bind_splits if_splits intro!: vlan)
  next
    case 2
    with assms e show ?thesis
      by (auto simp: pktsetprio_def split: Option.bind_splits intro!: ip)
  next
    case 3
    with assms e show ?thesis by (auto simp: pktsetprio_def intro: other)
  qed
qed

lemma rd16_Some_length: "rd16 d i = Some v \<Longrightarrow> i + 1 < length d"
  by (auto simp: rd16_def rd8_def split: Option.bind_splits if_splits)

definition retagged :: "u8 list \<Rightarrow> nat \<Rightarrow> u8 list \<Rightarrow> bool" where
  "retagged d p d' \<longleftrightarrow>
     length d' = length d \<and> (\<forall>i. i \<noteq> 14 \<and> i \<noteq> 15 \<longrightarrow> rd8 d' i = rd8 d i) \<and>
     (rd16 d 12 = Some 0x8100 \<longrightarrow>
        (\<exists>t t'. rd16 d 14 = Some t \<and> rd16 d' 14 = Some t' \<and>
           unat (drop_bit 13 t' AND 7) = p \<and> t' AND 0x1FFF = t AND 0x1FFF))"

lemma pktsetprio_retagged:
  assumes "pktsetprio d True = Some (r, p, d')"
  shows "p \<le> 7 \<and> retagged d p d'"
  using assms
proof (cases rule: pktsetprio_cases)
  case (vlan vtag inner dscp vlan)
  have p: "p \<le> 7"
  proof (cases "dscp \<noteq> 0")
    case True
    with vlan(4,6) ip_prio_le show ?thesis by (auto split: if_splits)
  next
    case False
    with vlan(5,6) unat_and_7_le show ?thesis by simp
  qed
  show ?thesis
  proof (cases "p = vlan")
    case True
    with vlan p show ?thesis by (auto simp: retagged_def)
  next
    case False
    with vlan have "d' = wr16 d 14 ((vtag AND NOT (push_bit 13 7)) OR push_bit 13 (of_nat p))"
      by simp
    moreover from this have "length d' = length d" by (simp add: wr16_def)
    ultimately show ?thesis
      using p new_tag [OF p, of vtag] vlan(2) rd16_Some_length [OF vlan(2)]
      by (simp add: retagged_def rd8_wr16 rd16_wr16_same)
  qed
next
  case ip
  then show ?thesis by (auto simp: retagged_def dest: ip_prio_le)
next
  case (other e)
  then show ?thesis by (simp add: retagged_def)
qed

lemma pktsetprio_stable:
  assumes "pktsetprio d True = Some (r, p, d')"
  shows "\<exists>r'. pktsetprio d' upd = Some (r', p, d')"
  using assms
proof (cases rule: pktsetprio_cases)
  case (vlan vtag inner dscp vlan)
  from pktsetprio_retagged [OF assms] have p: "p \<le> 7" by simp
  show ?thesis
  proof (cases "p = vlan")
    case True
    with vlan show ?thesis by (auto simp: pktsetprio_def Let_def split: if_splits)
  next
    case False
    define t' where "t' = (vtag AND NOT (push_bit 13 7)) OR push_bit 13 (of_nat p)"
    have t': "unat (drop_bit 13 t' AND 7) = p" unfolding t'_def by (rule new_tag [OF p])
    have d': "d' = wr16 d 14 t'" using vlan False by (simp add: t'_def)
    have len: "14 + 1 < length d" using rd16_Some_length [OF vlan(2)] .
    have "rd16 d' 12 = Some 0x8100" unfolding d' using vlan(1) by (simp add: rd16_wr16_other)
    moreover have "rd16 d' 14 = Some t'" unfolding d' by (rule rd16_wr16_same [OF len])
    moreover have "rd16 d' 16 = Some inner"
      unfolding d' using vlan(3) by (simp add: rd16_wr16_other)
    moreover have "(if inner = 0x0800 then ip_prio d' 18 else Some 0) = Some dscp"
      unfolding d' using vlan(4) by (simp add: ip_prio_wr16 cong: if_cong)
    moreover have "dscp \<noteq> 0" "p = dscp" using False vlan(6) by (auto split: if_splits)
    ultimately show ?thesis
      using t' by (simp add: pktsetprio_def Let_def)
  qed
next
  case ip
  then show ?thesis by (auto simp: pktsetprio_def)
next
  case (other e)
  then show ?thesis by (auto simp: pktsetprio_def)
qed

section \<open>Properties\<close>

text \<open>copying from a chain of buffers terminates and yields exactly the requested slice of
  the concatenated buffers (at most 4096 bytes for a negative length).\<close>

theorem pktcopy_correct:
  assumes "plist nxt p ps"
  shows "pktcopy nxt data p offset len =
    Some (take (if len < 0 then 4096 else nat len) (drop offset (concat (map data ps))))"
  using assms by (rule pktcopy_spec)

theorem pktcopy_correct_witness:
  "pktcopy [1 \<mapsto> (2 :: nat)] (\<lambda>a. if a = 1 then [10, 11] else [12, 13, 14]) (Some 1) 1 3 =
     Some [11, 12, 13]"
  using pktcopy_correct [of "[1 \<mapsto> (2 :: nat)]" "Some 1" "[1, 2]"
      "\<lambda>a. if a = 1 then [10, 11] else [12, 13, 14]" 1 3]
  by (simp add: numeral_3_eq_3)

text \<open>setting the priority of a frame with the tag update on yields a priority of at most 7;
  the frame keeps its length and every byte except the VLAN tag, the tag of a tagged frame then
  carries that priority and keeps its other bits; a second call finds the same priority and
  changes nothing.\<close>

theorem pktsetprio_correct:
  assumes "pktsetprio d True = Some (r, p, d')"
  shows "p \<le> 7 \<and> retagged d p d' \<and> (\<exists>r'. pktsetprio d' True = Some (r', p, d'))"
  using pktsetprio_retagged [OF assms] pktsetprio_stable [OF assms] by blast

definition ex_frame :: "u8 list" where
  "ex_frame = replicate 12 0 @ [0x81, 0, 0x2F, 0xFF, 8, 0, 0x45, 0xA0] @ replicate 32 0"

theorem pktsetprio_correct_witness:
  "\<exists>d'. pktsetprio ex_frame True = Some (0x505, 5, d') \<and> retagged ex_frame 5 d' \<and>
     pktsetprio d' True \<noteq> None"
proof -
  have "pktsetprio ex_frame True = Some (0x505, 5, wr16 ex_frame 14 0xAFFF)"
    by (simp add: pktsetprio_def ex_frame_def rd16_def rd8_def ip_prio_def IP_TOS_def IP_VER_def
        nth_append nth_Cons' Let_def)
  from pktsetprio_correct [OF this] this show ?thesis by auto
qed

end
