(* ===== verification/NvramHash.thy ===== *)
theory NvramHash
  imports Prelude
begin

text \<open>
  The variable table of the NVRAM driver (\<open>nvram.c\<close> and the allocator in \<open>nvram_linux.c\<close>
  under \<open>target/linux/brcm-2.4/files/arch/mips/bcm947xx\<close>; the copies under
  \<open>brcm5354-2.4\<close> are identical). Names are hashed into 257 buckets of tuples; the values live
  in the page-aligned buffer \<open>nvram_buf\<close>, which is filled from \<open>nvram_offset\<close> upwards and
  emptied only by a rehash. A tuple therefore holds its name and the offset of its value.
  \<open>nv_kmalloc\<close> lists the outcomes of the coming calls of \<open>kmalloc\<close> (success when it is used up).
\<close>

section \<open>State\<close>

type_synonym cstr = "u8 list"

abbreviation NVRAM_SPACE :: nat where "NVRAM_SPACE \<equiv> 0x8000"
abbreviation ENOMEM :: int where "ENOMEM \<equiv> 12"

record nvram_tuple =
  t_name :: cstr
  t_value :: nat

record nvram =
  nv_hash :: "nvram_tuple list list"
  nv_dead :: "nvram_tuple list"
  nv_buf :: "u8 list"
  nv_offset :: nat
  nv_kmalloc :: "bool list"

text \<open>The string at an offset of the buffer.\<close>

definition cstr_at :: "u8 list \<Rightarrow> nat \<Rightarrow> cstr" where
  "cstr_at buf off = takeWhile (\<lambda>c. c \<noteq> 0) (drop off buf)"

definition strcpy :: "u8 list \<Rightarrow> nat \<Rightarrow> cstr \<Rightarrow> u8 list" where
  "strcpy buf off v = take off buf @ (v @ [0]) @ drop (off + length (v @ [0])) buf"

definition kmalloc :: "nvram \<Rightarrow> bool \<times> nvram" where
  "kmalloc s = (case nv_kmalloc s of [] \<Rightarrow> (True, s) | b # bs \<Rightarrow> (b, s\<lparr>nv_kmalloc := bs\<rparr>))"

section \<open>Operations\<close>

text \<open>\<open>char\<close> is signed on this platform.\<close>

definition hash :: "cstr \<Rightarrow> u32" where
  "hash s = foldl (\<lambda>h c. 31 * h + scast c) 0 s"

definition bucket :: "cstr \<Rightarrow> nat" where
  "bucket name = unat (hash name) mod 257"

definition nvram_find :: "nvram \<Rightarrow> cstr \<Rightarrow> nvram_tuple option" where
  "nvram_find s name = find (\<lambda>t. t_name t = name) (nv_hash s ! bucket name)"

definition nvram_get0 :: "nvram \<Rightarrow> cstr \<Rightarrow> cstr option" where
  "nvram_get0 s name = map_option (\<lambda>t. cstr_at (nv_buf s) (t_value t)) (nvram_find s name)"

text \<open>Copying a value to the end of the used part of the buffer.\<close>

definition copy_value :: "nvram \<Rightarrow> nvram_tuple \<Rightarrow> cstr \<Rightarrow> nvram_tuple \<times> nvram" where
  "copy_value s t v =
     (t\<lparr>t_value := nv_offset s\<rparr>,
      s\<lparr>nv_buf := strcpy (nv_buf s) (nv_offset s) v, nv_offset := nv_offset s + length v + 1\<rparr>)"

definition nvram_realloc ::
  "nvram \<Rightarrow> nvram_tuple option \<Rightarrow> cstr \<Rightarrow> cstr \<Rightarrow> nvram_tuple option \<times> nvram" where
  "nvram_realloc s t name v =
     (if NVRAM_SPACE < nv_offset s + length v + 1 then (None, s)
      else (case t of
              None \<Rightarrow>
                (case kmalloc s of
                   (False, s) \<Rightarrow> (None, s)
                 | (True, s) \<Rightarrow>
                     (let (t, s) = copy_value s \<lparr>t_name = name, t_value = 0\<rparr> v in (Some t, s)))
            | Some t \<Rightarrow>
                if cstr_at (nv_buf s) (t_value t) \<noteq> v
                then (let (t, s) = copy_value s t v in (Some t, s))
                else (Some t, s)))"

text \<open>An existing tuple is updated in place (the allocator returns the same tuple, so the branch
  that retires the old tuple is not reached); a new one is put in front of its bucket.\<close>

fun replace_tuple :: "nvram_tuple list \<Rightarrow> nvram_tuple \<Rightarrow> nvram_tuple list" where
  "replace_tuple [] u = []"
| "replace_tuple (t # ts) u =
     (if t_name t = t_name u then u # ts else t # replace_tuple ts u)"

definition nvram_set0 :: "nvram \<Rightarrow> cstr \<Rightarrow> cstr \<Rightarrow> int \<times> nvram" where
  "nvram_set0 s name v =
     (let i = bucket name; t = nvram_find s name in
      case nvram_realloc s t name v of
        (None, s) \<Rightarrow> (- ENOMEM, s)
      | (Some u, s) \<Rightarrow>
          (case t of
             Some _ \<Rightarrow> (0, s\<lparr>nv_hash := (nv_hash s)[i := replace_tuple (nv_hash s ! i) u]\<rparr>)
           | None \<Rightarrow> (0, s\<lparr>nv_hash := (nv_hash s)[i := u # nv_hash s ! i]\<rparr>)))"

fun remove_tuple :: "nvram_tuple list \<Rightarrow> cstr \<Rightarrow> nvram_tuple list" where
  "remove_tuple [] name = []"
| "remove_tuple (t # ts) name = (if t_name t = name then ts else t # remove_tuple ts name)"

definition nvram_unset0 :: "nvram \<Rightarrow> cstr \<Rightarrow> int \<times> nvram" where
  "nvram_unset0 s name =
     (let i = bucket name in
      case nvram_find s name of
        None \<Rightarrow> (0, s)
      | Some t \<Rightarrow>
          (0, s\<lparr>nv_hash := (nv_hash s)[i := remove_tuple (nv_hash s ! i) name],
                nv_dead := t # nv_dead s\<rparr>))"

definition nvram_free :: "nvram \<Rightarrow> nvram" where
  "nvram_free s = s\<lparr>nv_hash := map (\<lambda>_. []) (nv_hash s), nv_dead := [], nv_offset := 0\<rparr>"

text \<open>\<open>sprintf ("%s=%s")\<close> of a tuple.\<close>

definition entry_text :: "nvram \<Rightarrow> nvram_tuple \<Rightarrow> cstr" where
  "entry_text s t = t_name t @ [0x3D] @ cstr_at (nv_buf s) (t_value t)"

text \<open>The loop over one bucket: it ends at the first tuple that does not fit, the loop over the
  buckets goes on.\<close>

fun getall_bucket :: "nvram \<Rightarrow> nvram_tuple list \<Rightarrow> nat \<Rightarrow> u8 list \<times> nat \<Rightarrow> u8 list \<times> nat" where
  "getall_bucket s [] cnt (buf, len) = (buf, len)"
| "getall_bucket s (t # ts) cnt (buf, len) =
     (let txt = entry_text s t in
      if length txt + 1 < cnt - len
      then getall_bucket s ts cnt (strcpy buf len txt, len + length txt + 1)
      else (buf, len))"

definition nvram_getall0 :: "nvram \<Rightarrow> nat \<Rightarrow> u8 list" where
  "nvram_getall0 s cnt =
     fst (foldl (\<lambda>acc ts. getall_bucket s ts cnt acc) (replicate cnt 0, 0) (nv_hash s))"

section \<open>Invariant\<close>

definition value_ok :: "nvram \<Rightarrow> nvram_tuple \<Rightarrow> bool" where
  "value_ok s t \<longleftrightarrow> t_value t + length (cstr_at (nv_buf s) (t_value t)) < nv_offset s"

definition bucket_ok :: "nvram \<Rightarrow> nat \<Rightarrow> nvram_tuple list \<Rightarrow> bool" where
  "bucket_ok s i ts \<longleftrightarrow>
     distinct (map t_name ts) \<and>
     (\<forall>t \<in> set ts. bucket (t_name t) = i \<and> 0 \<notin> set (t_name t) \<and> value_ok s t)"

definition nv_ok :: "nvram \<Rightarrow> bool" where
  "nv_ok s \<longleftrightarrow>
     length (nv_hash s) = 257 \<and> length (nv_buf s) = NVRAM_SPACE \<and> nv_offset s \<le> NVRAM_SPACE \<and>
     (\<forall>i < 257. bucket_ok s i (nv_hash s ! i))"

definition nvram_initial :: nvram where
  "nvram_initial = \<lparr>nv_hash = replicate 257 [], nv_dead = [], nv_buf = replicate NVRAM_SPACE 0,
     nv_offset = 0, nv_kmalloc = []\<rparr>"

lemma nv_ok_initial: "nv_ok nvram_initial"
  by (simp add: nv_ok_def nvram_initial_def bucket_ok_def)

lemma bucket_less: "bucket name < 257"
  by (simp add: bucket_def)

lemma cstr_at_nonul: "0 \<notin> set (cstr_at buf off)"
  by (auto simp: cstr_at_def dest: set_takeWhileD)

lemma length_strcpy:
  "off + length v + 1 \<le> length buf \<Longrightarrow> length (strcpy buf off v) = length buf"
  by (simp add: strcpy_def)

lemma cstr_at_strcpy_same:
  "0 \<notin> set v \<Longrightarrow> off + length v + 1 \<le> length buf \<Longrightarrow> cstr_at (strcpy buf off v) off = v"
  by (simp add: cstr_at_def strcpy_def takeWhile_append)

text \<open>A string that ends before the copied range is not affected.\<close>

lemma takeWhile_prefix_cong:
  "length (takeWhile P xs) < n \<Longrightarrow> n \<le> length xs \<Longrightarrow> take n ys = take n xs \<Longrightarrow>
   takeWhile P ys = takeWhile P xs"
proof (induction xs arbitrary: n ys)
  case (Cons x xs)
  then obtain m where n: "n = Suc m" by (cases n) auto
  with Cons.prems obtain zs where "ys = x # zs" by (cases ys) auto
  show ?case
    using Cons.IH [of m zs] Cons.prems n \<open>ys = x # zs\<close> by (cases "P x") simp_all
qed simp

lemma cstr_at_prefix:
  assumes "off + length (cstr_at buf off) < n" "n \<le> length buf" "take n buf' = take n buf"
  shows "cstr_at buf' off = cstr_at buf off"
  unfolding cstr_at_def
proof (rule takeWhile_prefix_cong [where n = "n - off"])
  show "take (n - off) (drop off buf') = take (n - off) (drop off buf)"
    using assms(3) by (metis drop_take)
qed (use assms in \<open>auto simp: cstr_at_def\<close>)

lemma take_strcpy: "off \<le> length buf \<Longrightarrow> take off (strcpy buf off v) = take off buf"
  by (simp add: strcpy_def)

lemma value_ok_frame:
  assumes "value_ok s t" "nv_offset s \<le> length (nv_buf s)" "nv_offset s \<le> nv_offset s'"
    and "take (nv_offset s) (nv_buf s') = take (nv_offset s) (nv_buf s)"
  shows "value_ok s' t" "cstr_at (nv_buf s') (t_value t) = cstr_at (nv_buf s) (t_value t)"
proof -
  show "cstr_at (nv_buf s') (t_value t) = cstr_at (nv_buf s) (t_value t)"
    using assms by (intro cstr_at_prefix [where n = "nv_offset s"]) (auto simp: value_ok_def)
  with assms show "value_ok s' t" by (simp add: value_ok_def)
qed

section \<open>Lookup\<close>

lemma nvram_find_Some:
  assumes "nv_ok s" "nvram_find s name = Some t"
  shows "t \<in> set (nv_hash s ! bucket name)" "t_name t = name" "value_ok s t"
proof -
  show t: "t \<in> set (nv_hash s ! bucket name)" "t_name t = name"
    using assms(2) by (auto simp: nvram_find_def find_Some_iff)
  with assms(1) bucket_less [of name] show "value_ok s t"
    by (auto simp: nv_ok_def bucket_ok_def)
qed

lemma find_distinct:
  "distinct (map t_name ts) \<Longrightarrow> t \<in> set ts \<Longrightarrow> find (\<lambda>u. t_name u = t_name t) ts = Some t"
  by (induction ts) (auto simp: image_iff)

lemma nvram_find_iff:
  assumes "nv_ok s"
  shows "nvram_find s name = Some t \<longleftrightarrow> t_name t = name \<and> (\<exists>i < 257. t \<in> set (nv_hash s ! i))"
proof
  assume "nvram_find s name = Some t"
  with nvram_find_Some [OF assms this] bucket_less
  show "t_name t = name \<and> (\<exists>i < 257. t \<in> set (nv_hash s ! i))" by blast
next
  assume "t_name t = name \<and> (\<exists>i < 257. t \<in> set (nv_hash s ! i))"
  then obtain i where i: "t_name t = name" "i < 257" "t \<in> set (nv_hash s ! i)" by blast
  with assms have "bucket_ok s i (nv_hash s ! i)" by (simp add: nv_ok_def)
  with i have "i = bucket name" "distinct (map t_name (nv_hash s ! i))" by (auto simp: bucket_ok_def)
  with i find_distinct [of "nv_hash s ! i" t] show "nvram_find s name = Some t"
    by (simp add: nvram_find_def)
qed

lemma replace_tuple_set:
  "distinct (map t_name ts) \<Longrightarrow> t \<in> set ts \<Longrightarrow> t_name t = t_name u \<Longrightarrow>
   set (replace_tuple ts u) = insert u (set ts - {t}) \<and>
   map t_name (replace_tuple ts u) = map t_name ts"
  by (induction ts) (auto simp: image_iff)

lemma remove_tuple_set:
  "distinct (map t_name ts) \<Longrightarrow>
   set (remove_tuple ts name) = {t \<in> set ts. t_name t \<noteq> name} \<and>
   distinct (map t_name (remove_tuple ts name))"
  by (induction ts) (auto simp: image_iff)

text \<open>The tuples of the table, in all buckets.\<close>

definition tuples :: "nvram \<Rightarrow> nvram_tuple set" where
  "tuples s = (\<Union>ts \<in> set (nv_hash s). set ts)"

lemma tuples_iff: "nv_ok s \<Longrightarrow> t \<in> tuples s \<longleftrightarrow> (\<exists>i < 257. t \<in> set (nv_hash s ! i))"
proof -
  assume "nv_ok s"
  then have "set (nv_hash s) = (\<lambda>i. nv_hash s ! i) ` {..<257}"
    by (auto simp: nv_ok_def set_conv_nth)
  then show ?thesis by (auto simp: tuples_def)
qed

text \<open>A change of one bucket.\<close>

lemma nv_ok_update:
  assumes ok: "nv_ok s" and i: "i < 257"
    and "length (nv_buf s') = NVRAM_SPACE" "nv_offset s \<le> nv_offset s'" "nv_offset s' \<le> NVRAM_SPACE"
    and buf: "take (nv_offset s) (nv_buf s') = take (nv_offset s) (nv_buf s)"
    and hash: "nv_hash s' = (nv_hash s)[i := ts]" and ts: "bucket_ok s' i ts"
  shows "nv_ok s'"
proof -
  have "bucket_ok s' j (nv_hash s' ! j)" if "j < 257" for j
  proof (cases "j = i")
    case True
    with ts hash ok i show ?thesis by (simp add: nv_ok_def)
  next
    case False
    then have j: "nv_hash s' ! j = nv_hash s ! j" by (simp add: hash)
    have "bucket_ok s j (nv_hash s ! j)" using ok that by (simp add: nv_ok_def)
    moreover have "value_ok s' t" if "value_ok s t" for t
      using value_ok_frame(1) [OF that _ assms(4) buf] ok by (simp add: nv_ok_def)
    ultimately show ?thesis unfolding j by (auto simp: bucket_ok_def)
  qed
  with assms show ?thesis by (simp add: nv_ok_def)
qed

section \<open>Setting and unsetting\<close>

lemma copy_value_ok:
  assumes "nv_ok s" "0 \<notin> set v" "nv_offset s + length v + 1 \<le> NVRAM_SPACE"
    and "copy_value s t v = (u, s')"
  shows "t_name u = t_name t" "value_ok s' u" "cstr_at (nv_buf s') (t_value u) = v"
    "nv_hash s' = nv_hash s" "nv_dead s' = nv_dead s" "length (nv_buf s') = NVRAM_SPACE"
    "nv_offset s' = nv_offset s + length v + 1" "nv_kmalloc s' = nv_kmalloc s"
    "take (nv_offset s) (nv_buf s') = take (nv_offset s) (nv_buf s)"
proof -
  have len: "nv_offset s + length v + 1 \<le> length (nv_buf s)" using assms(1,3) by (simp add: nv_ok_def)
  have u: "u = t\<lparr>t_value := nv_offset s\<rparr>"
    and s': "s' = s\<lparr>nv_buf := strcpy (nv_buf s) (nv_offset s) v, nv_offset := nv_offset s + length v + 1\<rparr>"
    using assms(4) by (auto simp: copy_value_def)
  show v: "cstr_at (nv_buf s') (t_value u) = v"
    using cstr_at_strcpy_same [OF assms(2) len] by (simp add: u s')
  with u s' show "value_ok s' u" by (simp add: value_ok_def)
  show "length (nv_buf s') = NVRAM_SPACE"
    using length_strcpy [OF len] assms(1) by (simp add: s' nv_ok_def)
  show "take (nv_offset s) (nv_buf s') = take (nv_offset s) (nv_buf s)"
    using take_strcpy len by (simp add: s')
  show "t_name u = t_name t" by (simp add: u)
  show "nv_hash s' = nv_hash s" "nv_dead s' = nv_dead s" "nv_kmalloc s' = nv_kmalloc s"
    "nv_offset s' = nv_offset s + length v + 1" by (simp_all add: s')
qed

text \<open>What the table holds after a change, as a set of tuples.\<close>

lemma get0_frame:
  assumes "nv_ok s" "nv_ok s'" "nv_offset s \<le> nv_offset s'"
    and "take (nv_offset s) (nv_buf s') = take (nv_offset s) (nv_buf s)"
    and "nvram_find s' n = nvram_find s n"
  shows "nvram_get0 s' n = nvram_get0 s n"
proof (cases "nvram_find s n")
  case None
  with assms(5) show ?thesis by (simp add: nvram_get0_def)
next
  case (Some t)
  with nvram_find_Some(3) [OF assms(1)] have "value_ok s t" by blast
  from value_ok_frame(2) [OF this _ assms(3,4)] assms(1,5) Some show ?thesis
    by (simp add: nvram_get0_def nv_ok_def)
qed

lemma kmalloc_frame:
  "kmalloc s = (b, s') \<Longrightarrow> \<exists>k. s' = s\<lparr>nv_kmalloc := k\<rparr>"
  by (auto simp: kmalloc_def split: list.splits intro: exI [of _ "nv_kmalloc s"])

lemma nv_ok_kmalloc [simp]: "nv_ok (s\<lparr>nv_kmalloc := k\<rparr>) = nv_ok s"
  by (simp add: nv_ok_def bucket_ok_def value_ok_def)

lemma get0_kmalloc [simp]:
  "nvram_get0 (s\<lparr>nv_kmalloc := k\<rparr>) n = nvram_get0 s n"
  "nvram_find (s\<lparr>nv_kmalloc := k\<rparr>) n = nvram_find s n"
  by (simp_all add: nvram_get0_def nvram_find_def)

lemma find_update_bucket:
  assumes "length (nv_hash s) = 257"
  shows "nvram_find (s\<lparr>nv_hash := (nv_hash s)[bucket name := ts]\<rparr>) n =
    (if bucket n = bucket name then find (\<lambda>t. t_name t = n) ts else nvram_find s n)"
  using assms bucket_less [of name] by (simp add: nvram_find_def nth_list_update)

lemma find_replace:
  "find (\<lambda>t. t_name t = n) (replace_tuple ts u) =
   (if n = t_name u then (if t_name u \<in> t_name ` set ts then Some u else None)
    else find (\<lambda>t. t_name t = n) ts)"
  by (induction ts) auto

lemma find_remove:
  "distinct (map t_name ts) \<Longrightarrow>
   find (\<lambda>t. t_name t = n) (remove_tuple ts name) =
   (if n = name then None else find (\<lambda>t. t_name t = n) ts)"
  by (induction ts) (auto simp: find_None_iff image_iff)

text \<open>The new tuple \<open>u\<close>, stored in bucket \<open>bucket name\<close> of a state \<open>s1\<close> that extends \<open>s\<close>.\<close>

definition extends :: "nvram \<Rightarrow> nvram \<Rightarrow> bool" where
  "extends s s1 \<longleftrightarrow> nv_hash s1 = nv_hash s \<and> length (nv_buf s1) = NVRAM_SPACE \<and>
     nv_offset s \<le> nv_offset s1 \<and> nv_offset s1 \<le> NVRAM_SPACE \<and>
     take (nv_offset s) (nv_buf s1) = take (nv_offset s) (nv_buf s)"

lemma extends_refl: "nv_ok s \<Longrightarrow> extends s s"
  by (simp add: extends_def nv_ok_def)

lemma store_tuple_ok:
  assumes ok: "nv_ok s" and ext: "extends s s1" and u: "t_name u = name" "value_ok s1 u" "0 \<notin> set name"
    and ts: "ts = (case nvram_find s name of Some _ \<Rightarrow> replace_tuple (nv_hash s ! bucket name) u
                   | None \<Rightarrow> u # nv_hash s ! bucket name)"
  defines "s' \<equiv> s1\<lparr>nv_hash := (nv_hash s1)[bucket name := ts]\<rparr>"
  shows "nv_ok s'" "nvram_get0 s' n =
    (if n = name then Some (cstr_at (nv_buf s1) (t_value u)) else nvram_get0 s n)"
proof -
  let ?i = "bucket name" let ?b = "nv_hash s ! bucket name"
  have b: "bucket_ok s ?i ?b" using ok bucket_less by (simp add: nv_ok_def)
  have v: "value_ok s' t" if "value_ok s t" for t
    using value_ok_frame(1) [OF that] ok ext by (simp add: extends_def nv_ok_def s'_def value_ok_def)
  have vu: "value_ok s' u" using u(2) by (simp add: value_ok_def s'_def)
  have ts_ok: "bucket_ok s' ?i ts"
  proof (cases "nvram_find s name")
    case None
    then have "name \<notin> t_name ` set ?b" by (auto simp: nvram_find_def find_None_iff)
    with None b v vu u ts show ?thesis by (auto simp: bucket_ok_def)
  next
    case (Some t)
    with nvram_find_Some [OF ok Some] b u(1)
    have "set ts = insert u (set ?b - {t}) \<and> map t_name ts = map t_name ?b"
      using replace_tuple_set [of ?b t u] ts by (simp add: bucket_ok_def)
    with b v vu u show ?thesis by (auto simp: bucket_ok_def)
  qed
  show ok': "nv_ok s'"
    by (rule nv_ok_update [OF ok bucket_less, of s' name ts])
      (use ext ts_ok in \<open>auto simp: extends_def s'_def\<close>)
  have find: "nvram_find s' n = (if n = name then Some u else nvram_find s n)"
  proof (cases "nvram_find s name")
    case None
    with ok ext ts u(1) show ?thesis
      unfolding s'_def by (subst find_update_bucket)
        (auto simp: extends_def nv_ok_def nvram_find_def)
  next
    case (Some t)
    with nvram_find_Some [OF ok Some] have "name \<in> t_name ` set ?b" by auto
    with Some ok ext ts u(1) show ?thesis
      unfolding s'_def by (subst find_update_bucket)
        (auto simp: extends_def nv_ok_def nvram_find_def find_replace)
  qed
  show "nvram_get0 s' n =
    (if n = name then Some (cstr_at (nv_buf s1) (t_value u)) else nvram_get0 s n)"
  proof (cases "n = name")
    case True
    with find show ?thesis by (simp add: nvram_get0_def s'_def)
  next
    case False
    with get0_frame [OF ok ok', of n] find ext show ?thesis
      by (simp add: extends_def s'_def)
  qed
qed

text \<open>The outcome of the allocator: nothing, the same tuple, or a tuple with a copied value.\<close>

lemma nvram_realloc_cases:
  assumes ok: "nv_ok s" and v: "0 \<notin> set v" and t: "nvram_find s name = t"
    and eq: "nvram_realloc s t name v = (r, s1)"
  shows "case r of
      None \<Rightarrow> (\<exists>k. s1 = s\<lparr>nv_kmalloc := k\<rparr>) \<and>
        (NVRAM_SPACE < nv_offset s + length v + 1 \<or> t = None \<and> False \<in> set (nv_kmalloc s))
    | Some u \<Rightarrow> extends s s1 \<and> t_name u = name \<and> value_ok s1 u \<and>
        cstr_at (nv_buf s1) (t_value u) = v \<and> nv_offset s1 \<le> nv_offset s + length v + 1 \<and>
        set (nv_kmalloc s1) \<subseteq> set (nv_kmalloc s) \<and> nv_dead s1 = nv_dead s"
proof (cases "NVRAM_SPACE < nv_offset s + length v + 1")
  case True
  with eq have "r = None" "s1 = s" by (auto simp: nvram_realloc_def)
  moreover have "\<exists>k. s = s\<lparr>nv_kmalloc := k\<rparr>"
    by (rule exI [of _ "nv_kmalloc s"]) simp
  ultimately show ?thesis using True by simp
next
  case False
  then have len: "nv_offset s + length v + 1 \<le> NVRAM_SPACE" by simp
  show ?thesis
  proof (cases t)
    case None
    obtain b s0 where k: "kmalloc s = (b, s0)" by fastforce
    then obtain k' where s0: "s0 = s\<lparr>nv_kmalloc := k'\<rparr>" using kmalloc_frame by blast
    have sub: "set (nv_kmalloc s0) \<subseteq> set (nv_kmalloc s)" "\<not> b \<Longrightarrow> False \<in> set (nv_kmalloc s)"
      using k by (auto simp: kmalloc_def split: list.splits)
    show ?thesis
    proof (cases b)
      case False
      with None k eq len sub s0 show ?thesis by (auto simp: nvram_realloc_def)
    next
      case True
      obtain u s2 where c: "copy_value s0 \<lparr>t_name = name, t_value = 0\<rparr> v = (u, s2)" by fastforce
      with True None k eq len have "r = Some u" "s1 = s2" by (auto simp: nvram_realloc_def)
      moreover have "nv_ok s0" "nv_offset s0 = nv_offset s" "nv_buf s0 = nv_buf s"
        "nv_hash s0 = nv_hash s" "nv_dead s0 = nv_dead s" using ok s0 by simp_all
      ultimately show ?thesis
        using copy_value_ok [OF _ v _ c] len sub by (auto simp: extends_def)
    qed
  next
    case (Some t0)
    with t nvram_find_Some [OF ok] have t0: "t_name t0 = name" "value_ok s t0" by blast+
    show ?thesis
    proof (cases "cstr_at (nv_buf s) (t_value t0) = v")
      case True
      with Some eq len have "r = Some t0" "s1 = s" by (auto simp: nvram_realloc_def)
      with True t0 extends_refl [OF ok] show ?thesis by simp
    next
      case False
      obtain u s2 where c: "copy_value s t0 v = (u, s2)" by fastforce
      with False Some eq len have "r = Some u" "s1 = s2" by (auto simp: nvram_realloc_def)
      then show ?thesis
        using copy_value_ok [OF ok v len c] len t0 by (auto simp: extends_def)
    qed
  qed
qed

lemma nvram_set0_spec:
  assumes ok: "nv_ok s" and "0 \<notin> set name" "0 \<notin> set v" and eq: "nvram_set0 s name v = (r, s')"
  shows "nv_ok s'"
    "r = 0 \<and> nvram_get0 s' = (nvram_get0 s)(name \<mapsto> v) \<or> r = - ENOMEM \<and> nvram_get0 s' = nvram_get0 s"
    "nv_offset s + length v + 1 \<le> NVRAM_SPACE \<Longrightarrow> False \<notin> set (nv_kmalloc s) \<Longrightarrow> r = 0"
    "r = 0 \<Longrightarrow> nv_offset s' \<le> nv_offset s + length v + 1"
    "r = 0 \<Longrightarrow> set (nv_kmalloc s') \<subseteq> set (nv_kmalloc s)"
proof -
  obtain q s1 where re: "nvram_realloc s (nvram_find s name) name v = (q, s1)" by fastforce
  note cases = nvram_realloc_cases [OF ok assms(3) refl re]
  have "nv_ok s' \<and>
    (r = 0 \<and> nvram_get0 s' = (nvram_get0 s)(name \<mapsto> v) \<or> r = - ENOMEM \<and> nvram_get0 s' = nvram_get0 s) \<and>
    (nv_offset s + length v + 1 \<le> NVRAM_SPACE \<longrightarrow> False \<notin> set (nv_kmalloc s) \<longrightarrow> r = 0) \<and>
    (r = 0 \<longrightarrow> nv_offset s' \<le> nv_offset s + length v + 1 \<and>
      set (nv_kmalloc s') \<subseteq> set (nv_kmalloc s))"
  proof (cases q)
    case None
    with cases obtain k where "s1 = s\<lparr>nv_kmalloc := k\<rparr>"
      "NVRAM_SPACE < nv_offset s + length v + 1 \<or> False \<in> set (nv_kmalloc s)" by auto
    moreover have "r = - ENOMEM" "s' = s1"
      using eq re None by (auto simp: nvram_set0_def Let_def)
    ultimately show ?thesis using ok by (auto simp: fun_eq_iff)
  next
    case (Some u)
    with cases have u: "extends s s1" "t_name u = name" "value_ok s1 u"
      "cstr_at (nv_buf s1) (t_value u) = v" "nv_offset s1 \<le> nv_offset s + length v + 1"
      "set (nv_kmalloc s1) \<subseteq> set (nv_kmalloc s)" by auto
    let ?ts = "case nvram_find s name of Some _ \<Rightarrow> replace_tuple (nv_hash s ! bucket name) u
                   | None \<Rightarrow> u # nv_hash s ! bucket name"
    have "nv_hash s1 = nv_hash s" using u(1) by (simp add: extends_def)
    with eq re Some have r: "r = 0" "s' = s1\<lparr>nv_hash := (nv_hash s1)[bucket name := ?ts]\<rparr>"
      by (auto simp: nvram_set0_def Let_def split: option.splits)
    from store_tuple_ok [OF ok u(1-3) assms(2) refl] u(4-6) r show ?thesis
      by (auto simp: fun_eq_iff)
  qed
  then show "nv_ok s'"
    "r = 0 \<and> nvram_get0 s' = (nvram_get0 s)(name \<mapsto> v) \<or> r = - ENOMEM \<and> nvram_get0 s' = nvram_get0 s"
    "nv_offset s + length v + 1 \<le> NVRAM_SPACE \<Longrightarrow> False \<notin> set (nv_kmalloc s) \<Longrightarrow> r = 0"
    "r = 0 \<Longrightarrow> nv_offset s' \<le> nv_offset s + length v + 1"
    "r = 0 \<Longrightarrow> set (nv_kmalloc s') \<subseteq> set (nv_kmalloc s)" by blast+
qed

lemma nvram_set0_fail:
  assumes ok: "nv_ok s" and "0 \<notin> set v" and eq: "nvram_set0 s name v = (r, s')" and "r \<noteq> 0"
  shows "\<exists>k. s' = s\<lparr>nv_kmalloc := k\<rparr> \<and> set k \<subseteq> set (nv_kmalloc s)"
proof -
  obtain q s1 where re: "nvram_realloc s (nvram_find s name) name v = (q, s1)" by fastforce
  have q: "q = None" "s' = s1"
    using eq re assms(4) by (auto simp: nvram_set0_def Let_def split: option.splits)
  have same: "\<exists>k. s = s\<lparr>nv_kmalloc := k\<rparr> \<and> set k \<subseteq> set (nv_kmalloc s)"
    by (rule exI [of _ "nv_kmalloc s"]) simp
  have "kmalloc s = (b, s2) \<Longrightarrow> \<exists>k. s2 = s\<lparr>nv_kmalloc := k\<rparr> \<and> set k \<subseteq> set (nv_kmalloc s)" for b s2
    using same by (auto simp: kmalloc_def split: list.splits)
  with re q same show ?thesis
    by (auto simp: nvram_realloc_def Let_def split: if_splits option.splits prod.splits bool.splits)
qed

lemma nvram_unset0_spec:
  assumes ok: "nv_ok s" and eq: "nvram_unset0 s name = (r, s')"
  shows "r = 0" "nv_ok s'" "nvram_get0 s' = (nvram_get0 s)(name := None)"
proof -
  have "r = 0 \<and> nv_ok s' \<and> nvram_get0 s' = (nvram_get0 s)(name := None)"
  proof (cases "nvram_find s name")
    case None
    with eq ok show ?thesis by (auto simp: nvram_unset0_def nvram_get0_def fun_eq_iff)
  next
    case (Some t)
    let ?b = "nv_hash s ! bucket name"
    define s1 where "s1 = s\<lparr>nv_dead := t # nv_dead s\<rparr>"
    have s': "r = 0" "s' = s1\<lparr>nv_hash := (nv_hash s1)[bucket name := remove_tuple ?b name]\<rparr>"
      using eq Some by (auto simp: nvram_unset0_def s1_def Let_def)
    have b: "bucket_ok s (bucket name) ?b" using ok bucket_less by (simp add: nv_ok_def)
    then have dist: "distinct (map t_name ?b)" by (simp add: bucket_ok_def)
    have "bucket_ok s' (bucket name) (remove_tuple ?b name)"
      using b remove_tuple_set [OF dist, of name]
      by (auto simp: bucket_ok_def value_ok_def s' s1_def)
    then have ok': "nv_ok s'"
      by (intro nv_ok_update [OF ok bucket_less, of s' name "remove_tuple ?b name"])
        (use ok in \<open>simp_all add: s' s1_def nv_ok_def\<close>)
    have find: "nvram_find s' n = (if n = name then None else nvram_find s n)" for n
    proof -
      have "nvram_find s' n = (if bucket n = bucket name
          then find (\<lambda>t. t_name t = n) (remove_tuple ?b name) else nvram_find s1 n)"
        unfolding s'(2) using ok by (intro find_update_bucket) (simp add: nv_ok_def s1_def)
      then show ?thesis
        using find_remove [OF dist, of n name] by (auto simp: nvram_find_def s1_def)
    qed
    have "nvram_get0 s' n = ((nvram_get0 s)(name := None)) n" for n
      using find [of n] by (simp add: nvram_get0_def s' s1_def)
    with s'(1) ok' show ?thesis by auto
  qed
  then show "r = 0" "nv_ok s'" "nvram_get0 s' = (nvram_get0 s)(name := None)" by blast+
qed

section \<open>The interface of the variable table\<close>

locale var_store =
  fixes var_get :: "'s \<Rightarrow> 'n \<Rightarrow> 'v option"
    and var_set :: "'s \<Rightarrow> 'n \<Rightarrow> 'v \<Rightarrow> int \<times> 's"
    and var_inv :: "'s \<Rightarrow> bool"
    and var_arg :: "'n \<Rightarrow> 'v \<Rightarrow> bool"
    and var_room :: "'s \<Rightarrow> 'v list \<Rightarrow> bool"
  assumes set_inv: "var_inv s \<Longrightarrow> var_arg n v \<Longrightarrow> var_set s n v = (r, s') \<Longrightarrow> var_inv s'"
    and set_room: "var_inv s \<Longrightarrow> var_arg n v \<Longrightarrow> var_room s (v # vs) \<Longrightarrow>
      var_set s n v = (r, s') \<Longrightarrow> r = 0 \<and> var_get s' = (var_get s)(n \<mapsto> v) \<and> var_room s' vs"
begin

text \<open>A run of assignments; the results of the single assignments are ignored.\<close>

primrec set_all :: "'s \<Rightarrow> ('n \<times> 'v) list \<Rightarrow> 's" where
  "set_all s [] = s"
| "set_all s (kv # kvs) = set_all (snd (var_set s (fst kv) (snd kv))) kvs"

lemma set_all_inv:
  "var_inv s \<Longrightarrow> list_all (\<lambda>(n, v). var_arg n v) kvs \<Longrightarrow> var_inv (set_all s kvs)"
proof (induction kvs arbitrary: s)
  case (Cons kv kvs)
  obtain n v where kv: "kv = (n, v)" by (cases kv)
  obtain r s' where "var_set s n v = (r, s')" by fastforce
  with Cons kv set_inv [of s n v r s'] show ?case by simp
qed simp

lemma set_all_get:
  "var_inv s \<Longrightarrow> list_all (\<lambda>(n, v). var_arg n v) kvs \<Longrightarrow> var_room s (map snd kvs @ vs) \<Longrightarrow>
   var_get (set_all s kvs) = var_get s ++ map_of (rev kvs) \<and> var_room (set_all s kvs) vs"
proof (induction kvs arbitrary: s)
  case (Cons kv kvs)
  obtain n v where kv: "kv = (n, v)" by (cases kv)
  obtain r s' where s': "var_set s n v = (r, s')" by fastforce
  with Cons.prems kv have "r = 0 \<and> var_get s' = (var_get s)(n \<mapsto> v) \<and> var_room s' (map snd kvs @ vs)"
    by (intro set_room [of s n v "map snd kvs @ vs"]) simp_all
  moreover have "var_inv s'" using Cons.prems kv s' set_inv [of s n v r s'] by simp
  ultimately show ?case
    using Cons.IH [of s'] Cons.prems kv s'
    by (auto simp: fun_eq_iff map_add_def split: option.splits)
qed simp

end

definition nv_room :: "nvram \<Rightarrow> cstr list \<Rightarrow> bool" where
  "nv_room s vs \<longleftrightarrow> nv_offset s + sum_list (map (\<lambda>v. length v + 1) vs) \<le> NVRAM_SPACE \<and>
     False \<notin> set (nv_kmalloc s)"

interpretation nvs: var_store nvram_get0 nvram_set0 nv_ok
  "\<lambda>n v. 0 \<notin> set n \<and> 0 \<notin> set v" nv_room
proof
  fix s n v r s'
  assume "nv_ok s" "0 \<notin> set n \<and> 0 \<notin> set v" "nvram_set0 s n v = (r, s')"
  then show "nv_ok s'" using nvram_set0_spec(1) by blast
next
  fix s n v vs r s'
  assume a: "nv_ok s" "0 \<notin> set n \<and> 0 \<notin> set v" "nv_room s (v # vs)" "nvram_set0 s n v = (r, s')"
  then have "0 \<notin> set n" "0 \<notin> set v" by auto
  note spec = nvram_set0_spec [OF a(1) this a(4)]
  have r: "r = 0" using a(3) by (intro spec(3)) (simp_all add: nv_room_def)
  with spec(2,4,5) a(3) show "r = 0 \<and> nvram_get0 s' = (nvram_get0 s)(n \<mapsto> v) \<and> nv_room s' vs"
    by (auto simp: nv_room_def)
qed

end
