(* ===== verification/NvramImage.thy ===== *)
theory NvramImage
  imports NvramHash
begin

text \<open>
  The stored form of the NVRAM (\<open>nvram.c\<close>, \<open>nvram_linux.c\<close>, \<open>utils.c\<close>, \<open>bcmnvram.h\<close>):
  the 8-bit checksum, regenerating the header and the \<open>name=value\<close> data area from the variable
  table, rebuilding the table from an image, and the read-only access before the driver runs.
  The header is five words followed by the data area; pointers into the data area are the list
  of the bytes from the pointer on. \<open>strtoul\<close> stands for the kernel's \<open>simple_strtoul (s, NULL, 0)\<close>.
\<close>

section \<open>Checksum\<close>

definition crc8_table :: "u8 list" where
  "crc8_table = [
     0x00, 0xF7, 0xB9, 0x4E, 0x25, 0xD2, 0x9C, 0x6B, 0x4A, 0xBD, 0xF3, 0x04,
     0x6F, 0x98, 0xD6, 0x21, 0x94, 0x63, 0x2D, 0xDA, 0xB1, 0x46, 0x08, 0xFF,
     0xDE, 0x29, 0x67, 0x90, 0xFB, 0x0C, 0x42, 0xB5, 0x7F, 0x88, 0xC6, 0x31,
     0x5A, 0xAD, 0xE3, 0x14, 0x35, 0xC2, 0x8C, 0x7B, 0x10, 0xE7, 0xA9, 0x5E,
     0xEB, 0x1C, 0x52, 0xA5, 0xCE, 0x39, 0x77, 0x80, 0xA1, 0x56, 0x18, 0xEF,
     0x84, 0x73, 0x3D, 0xCA, 0xFE, 0x09, 0x47, 0xB0, 0xDB, 0x2C, 0x62, 0x95,
     0xB4, 0x43, 0x0D, 0xFA, 0x91, 0x66, 0x28, 0xDF, 0x6A, 0x9D, 0xD3, 0x24,
     0x4F, 0xB8, 0xF6, 0x01, 0x20, 0xD7, 0x99, 0x6E, 0x05, 0xF2, 0xBC, 0x4B,
     0x81, 0x76, 0x38, 0xCF, 0xA4, 0x53, 0x1D, 0xEA, 0xCB, 0x3C, 0x72, 0x85,
     0xEE, 0x19, 0x57, 0xA0, 0x15, 0xE2, 0xAC, 0x5B, 0x30, 0xC7, 0x89, 0x7E,
     0x5F, 0xA8, 0xE6, 0x11, 0x7A, 0x8D, 0xC3, 0x34, 0xAB, 0x5C, 0x12, 0xE5,
     0x8E, 0x79, 0x37, 0xC0, 0xE1, 0x16, 0x58, 0xAF, 0xC4, 0x33, 0x7D, 0x8A,
     0x3F, 0xC8, 0x86, 0x71, 0x1A, 0xED, 0xA3, 0x54, 0x75, 0x82, 0xCC, 0x3B,
     0x50, 0xA7, 0xE9, 0x1E, 0xD4, 0x23, 0x6D, 0x9A, 0xF1, 0x06, 0x48, 0xBF,
     0x9E, 0x69, 0x27, 0xD0, 0xBB, 0x4C, 0x02, 0xF5, 0x40, 0xB7, 0xF9, 0x0E,
     0x65, 0x92, 0xDC, 0x2B, 0x0A, 0xFD, 0xB3, 0x44, 0x2F, 0xD8, 0x96, 0x61,
     0x55, 0xA2, 0xEC, 0x1B, 0x70, 0x87, 0xC9, 0x3E, 0x1F, 0xE8, 0xA6, 0x51,
     0x3A, 0xCD, 0x83, 0x74, 0xC1, 0x36, 0x78, 0x8F, 0xE4, 0x13, 0x5D, 0xAA,
     0x8B, 0x7C, 0x32, 0xC5, 0xAE, 0x59, 0x17, 0xE0, 0x2A, 0xDD, 0x93, 0x64,
     0x0F, 0xF8, 0xB6, 0x41, 0x60, 0x97, 0xD9, 0x2E, 0x45, 0xB2, 0xFC, 0x0B,
     0xBE, 0x49, 0x07, 0xF0, 0x9B, 0x6C, 0x22, 0xD5, 0xF4, 0x03, 0x4D, 0xBA,
     0xD1, 0x26, 0x68, 0x9F]"

primrec hndcrc8 :: "u8 list \<Rightarrow> u8 \<Rightarrow> u8" where
  "hndcrc8 [] crc = crc"
| "hndcrc8 (b # bs) crc = hndcrc8 bs (crc8_table ! unat ((crc XOR b) AND 0xFF))"

section \<open>Header and image\<close>

record nvram_header =
  h_magic :: u32
  h_len :: u32
  h_crc_ver_init :: u32
  h_config_refresh :: u32
  h_config_ncdl :: u32
  h_data :: "u8 list"

abbreviation NVRAM_MAGIC :: u32 where "NVRAM_MAGIC \<equiv> 0x48534C46"
abbreviation NVRAM_VERSION :: u32 where "NVRAM_VERSION \<equiv> 1"
abbreviation NVRAM_HEADER_SIZE :: nat where "NVRAM_HEADER_SIZE \<equiv> 20"
abbreviation SDRAM_INIT :: u32 where "SDRAM_INIT \<equiv> 0x419"
abbreviation SDRAM_CONFIG :: u32 where "SDRAM_CONFIG \<equiv> 0"
abbreviation SDRAM_REFRESH :: u32 where "SDRAM_REFRESH \<equiv> 0x8040"

definition ROUNDUP :: "nat \<Rightarrow> nat \<Rightarrow> nat" where
  "ROUNDUP x y = ((x + (y - 1)) div y) * y"

definition cs :: "string \<Rightarrow> cstr" where
  "cs s = map of_char s"

text \<open>\<open>htol32\<close>: the bytes of a word, least significant first.\<close>

definition htol32 :: "u32 \<Rightarrow> u8 list" where
  "htol32 w = [ucast w, ucast (drop_bit 8 w), ucast (drop_bit 16 w), ucast (drop_bit 24 w)]"

definition hex_upper :: "u32 \<Rightarrow> nat \<Rightarrow> u8" where
  "hex_upper w i =
     (let d = ucast (drop_bit (4 * i) w AND 0xF) in if d < 10 then 0x30 + d else 0x41 + (d - 10))"

text \<open>\<open>sprintf (buf, "0x%04X", w)\<close> and \<open>sprintf (buf, "0x%08X", w)\<close> (the arguments of the
  first have 16 bits).\<close>

definition hex04 :: "u32 \<Rightarrow> cstr" where
  "hex04 w = [0x30, 0x78] @ map (hex_upper w) [3, 2, 1, 0]"

definition hex08 :: "u32 \<Rightarrow> cstr" where
  "hex08 w = [0x30, 0x78] @ map (hex_upper w) [7, 6, 5, 4, 3, 2, 1, 0]"

section \<open>Rebuilding the table from an image\<close>

text \<open>The loop of \<open>nvram_rehash\<close> over the data area: the name/value pairs in order; \<open>None\<close> is a
  read past the end of the area.\<close>

function parse_env :: "u8 list \<Rightarrow> (cstr \<times> cstr) list option" where
  "parse_env d =
     (case d of
        [] \<Rightarrow> None
      | c # _ \<Rightarrow>
          if c = 0 then Some []
          else (let str = takeWhile (\<lambda>c. c \<noteq> 0) d in
                if 0x3D \<notin> set str then Some []
                else (let name = takeWhile (\<lambda>c. c \<noteq> 0x3D) str;
                          v = drop (length name + 1) str
                      in map_option (\<lambda>kvs. (name, v) # kvs) (parse_env (drop (length str + 1) d)))))"
  by pat_completeness auto
termination
  by (relation "measure length") auto

declare parse_env.simps [simp del]

fun set_pairs :: "nvram \<Rightarrow> (cstr \<times> cstr) list \<Rightarrow> nvram" where
  "set_pairs s [] = s"
| "set_pairs s ((n, v) # kvs) = set_pairs (snd (nvram_set0 s n v)) kvs"

text \<open>\<open>if (!_nvram_get (name)) _nvram_set (name, buf)\<close>\<close>

definition set_default :: "cstr \<Rightarrow> cstr \<Rightarrow> nvram \<Rightarrow> nvram" where
  "set_default name v s =
     (if nvram_get0 s name = None then snd (nvram_set0 s name v) else s)"

definition data_end :: nat where
  "data_end = NVRAM_SPACE - NVRAM_HEADER_SIZE - 2"

definition nvram_rehash :: "nvram \<Rightarrow> nvram_header \<Rightarrow> (int \<times> nvram \<times> nvram_header) option" where
  "nvram_rehash s header =
     (let s = nvram_free s;
          header = header\<lparr>h_data := (h_data header)[data_end := 0, data_end + 1 := 0]\<rparr>
      in case parse_env (h_data header) of
           None \<Rightarrow> None
         | Some kvs \<Rightarrow>
             (let s = set_pairs s kvs;
                  s = set_default (cs ''sdram_init'') (hex04 (drop_bit 16 (h_crc_ver_init header))) s;
                  s = set_default (cs ''sdram_config'')
                        (hex04 (h_config_refresh header AND 0xFFFF)) s;
                  s = set_default (cs ''sdram_refresh'')
                        (hex04 (drop_bit 16 (h_config_refresh header) AND 0xFFFF)) s;
                  s = set_default (cs ''sdram_ncdl'') (hex08 (h_config_ncdl header)) s
              in Some (0, s, header)))"

section \<open>Regenerating the image\<close>

fun commit_bucket :: "nvram \<Rightarrow> nvram_tuple list \<Rightarrow> u8 list \<times> nat \<Rightarrow> u8 list \<times> nat" where
  "commit_bucket s [] (buf, pos) = (buf, pos)"
| "commit_bucket s (t # ts) (buf, pos) =
     (let txt = entry_text s t in
      if data_end < pos + length txt + 1 then (buf, pos)
      else commit_bucket s ts (strcpy buf pos txt, pos + length txt + 1))"

definition sdram_words :: "(cstr \<Rightarrow> u32) \<Rightarrow> nvram \<Rightarrow> u32 \<times> u32 \<times> u32" where
  "sdram_words strtoul s =
     (let ver = push_bit 8 NVRAM_VERSION in
      case (nvram_get0 s (cs ''sdram_init''), nvram_get0 s (cs ''sdram_config''),
            nvram_get0 s (cs ''sdram_refresh''), nvram_get0 s (cs ''sdram_ncdl'')) of
        (Some init, Some config, Some refresh, Some ncdl) \<Rightarrow>
          (ver OR push_bit 16 (strtoul init AND 0xFFFF),
           (strtoul config AND 0xFFFF) OR push_bit 16 (strtoul refresh AND 0xFFFF),
           strtoul ncdl)
      | _ \<Rightarrow> (ver OR push_bit 16 SDRAM_INIT, SDRAM_CONFIG OR push_bit 16 SDRAM_REFRESH, 0))"

definition nvram_regen :: "(cstr \<Rightarrow> u32) \<Rightarrow> nvram \<Rightarrow> nvram_header" where
  "nvram_regen strtoul s =
     (let (crc_ver_init, config_refresh, config_ncdl) = sdram_words strtoul s;
          (data, pos) = foldl (\<lambda>acc ts. commit_bucket s ts acc)
            (replicate (NVRAM_SPACE - NVRAM_HEADER_SIZE) 0, 0) (nv_hash s);
          len = ROUNDUP (NVRAM_HEADER_SIZE + pos + 2) 4;
          crc = hndcrc8 (drop 1 (htol32 crc_ver_init) @ htol32 config_refresh @ htol32 config_ncdl)
                  0xFF;
          crc = hndcrc8 (take (len - NVRAM_HEADER_SIZE) data) crc
      in \<lparr>h_magic = NVRAM_MAGIC, h_len = of_nat len, h_crc_ver_init = crc_ver_init OR ucast crc,
          h_config_refresh = config_refresh, h_config_ncdl = config_ncdl, h_data = data\<rparr>)"

definition nvram_commit0 ::
  "(cstr \<Rightarrow> u32) \<Rightarrow> nvram \<Rightarrow> (int \<times> nvram \<times> nvram_header) option" where
  "nvram_commit0 strtoul s = nvram_rehash s (nvram_regen strtoul s)"

text \<open>\<open>_nvram_init\<close>: \<open>header\<close> is what \<open>_nvram_read\<close> fills in.\<close>

definition nvram_init0 :: "nvram \<Rightarrow> nvram_header \<Rightarrow> (int \<times> nvram) option" where
  "nvram_init0 s header =
     (case kmalloc s of
        (False, s) \<Rightarrow> Some (- ENOMEM, s)
      | (True, s) \<Rightarrow>
          if h_magic header = NVRAM_MAGIC
          then map_option (\<lambda>(r, s, h). (0, s)) (nvram_rehash s header)
          else Some (0, s))"

text \<open>\<open>nvram_set\<close>: when the table is full, consolidate the space and try again.\<close>

definition nvram_set :: "(cstr \<Rightarrow> u32) \<Rightarrow> nvram \<Rightarrow> cstr \<Rightarrow> cstr \<Rightarrow> (int \<times> nvram) option" where
  "nvram_set strtoul s name v =
     (case nvram_set0 s name v of
        (r, s) \<Rightarrow>
          if r \<noteq> 0 then
            (case kmalloc s of
               (False, s) \<Rightarrow> Some (r, s)
             | (True, s) \<Rightarrow>
                 (case nvram_commit0 strtoul s of
                    None \<Rightarrow> None
                  | Some (r', s, h) \<Rightarrow>
                      if r' = 0 then Some (nvram_set0 s name v) else Some (r, s)))
          else Some (r, s))"

section \<open>Read-only access\<close>

text \<open>The search of \<open>early_nvram_get\<close> in the data area of the buffer.\<close>

function early_search :: "u8 list \<Rightarrow> cstr \<Rightarrow> cstr option option" where
  "early_search d name =
     (case d of
        [] \<Rightarrow> None
      | c # _ \<Rightarrow>
          if c = 0 then Some None
          else (let str = takeWhile (\<lambda>c. c \<noteq> 0) d in
                if 0x3D \<notin> set str then Some None
                else (let len = length (takeWhile (\<lambda>c. c \<noteq> 0x3D) str);
                          v = drop (len + 1) str
                      in if len = length name \<and> take len d = name then Some (Some v)
                         else early_search (drop (length str + 1) d) name)))"
  by pat_completeness auto
termination
  by (relation "measure (\<lambda>(d, name). length d)") auto

declare early_search.simps [simp del]

definition early_nvram_get :: "u8 list \<Rightarrow> cstr \<Rightarrow> cstr option option" where
  "early_nvram_get data name = early_search (data[data_end := 0, data_end + 1 := 0]) name"

section \<open>Writing entries one after the other\<close>

text \<open>\<open>taken lim f xs pos\<close>: the elements a writing loop takes when it may fill \<open>lim\<close> bytes, starts
  at \<open>pos\<close> and writes \<open>f x\<close> for \<open>x\<close>; \<open>flat\<close>: the bytes of texts, each with its NUL.\<close>

fun taken :: "nat \<Rightarrow> ('a \<Rightarrow> u8 list) \<Rightarrow> 'a list \<Rightarrow> nat \<Rightarrow> 'a list" where
  "taken lim f [] pos = []"
| "taken lim f (x # xs) pos =
     (if pos + length (f x) + 1 \<le> lim then x # taken lim f xs (pos + length (f x) + 1) else [])"

definition flat :: "u8 list list \<Rightarrow> u8 list" where
  "flat xs = concat (map (\<lambda>x. x @ [0]) xs)"

lemma flat_simps [simp]:
  "flat [] = []" "flat (x # xs) = x @ 0 # flat xs" "flat (xs @ ys) = flat xs @ flat ys"
  by (simp_all add: flat_def)

fun taken_all :: "nat \<Rightarrow> ('a \<Rightarrow> u8 list) \<Rightarrow> 'a list list \<Rightarrow> nat \<Rightarrow> 'a list" where
  "taken_all lim f [] pos = []"
| "taken_all lim f (b # bs) pos =
     (let xs = taken lim f b pos in xs @ taken_all lim f bs (pos + length (flat (map f xs))))"

lemma strcpy_zeros:
  "length pre + length x + 1 \<le> n \<Longrightarrow>
   strcpy (pre @ replicate (n - length pre) 0) (length pre) x =
     (pre @ x @ [0]) @ replicate (n - (length pre + length x + 1)) 0"
  by (simp add: strcpy_def)

lemma commit_bucket_taken:
  assumes "data_end \<le> n"
  shows "length pre \<le> data_end \<Longrightarrow>
   commit_bucket s ts (pre @ replicate (n - length pre) 0, length pre) =
     (let out = pre @ flat (map (entry_text s) (taken data_end (entry_text s) ts (length pre)))
      in (out @ replicate (n - length out) 0, length out)) \<and>
   length (pre @ flat (map (entry_text s) (taken data_end (entry_text s) ts (length pre)))) \<le> data_end"
proof (induction ts arbitrary: pre)
  case Nil
  then show ?case by simp
next
  case (Cons t ts)
  let ?x = "entry_text s t"
  show ?case
  proof (cases "data_end < length pre + length ?x + 1")
    case True
    then show ?thesis using Cons.prems by simp
  next
    case False
    then have len: "length pre + length ?x + 1 \<le> data_end" by simp
    with assms have "strcpy (pre @ replicate (n - length pre) 0) (length pre) ?x =
        (pre @ ?x @ [0]) @ replicate (n - length (pre @ ?x @ [0])) 0"
      using strcpy_zeros [of pre ?x n] by simp
    with Cons.IH [of "pre @ ?x @ [0]"] len show ?thesis by (simp add: Let_def)
  qed
qed

lemma commit_buckets_taken:
  assumes "data_end \<le> n"
  shows "length pre \<le> data_end \<Longrightarrow>
   foldl (\<lambda>acc ts. commit_bucket s ts acc) (pre @ replicate (n - length pre) 0, length pre) bs =
     (let out = pre @ flat (map (entry_text s) (taken_all data_end (entry_text s) bs (length pre)))
      in (out @ replicate (n - length out) 0, length out)) \<and>
   length (pre @ flat (map (entry_text s) (taken_all data_end (entry_text s) bs (length pre)))) \<le> data_end"
proof (induction bs arbitrary: pre)
  case Nil
  then show ?case by simp
next
  case (Cons b bs)
  let ?out = "pre @ flat (map (entry_text s) (taken data_end (entry_text s) b (length pre)))"
  have b: "commit_bucket s b (pre @ replicate (n - length pre) 0, length pre) =
      (?out @ replicate (n - length ?out) 0, length ?out)" "length ?out \<le> data_end"
    using commit_bucket_taken [OF assms Cons.prems, of s b] by (simp_all add: Let_def)
  have "foldl (\<lambda>acc ts. commit_bucket s ts acc)
      (pre @ replicate (n - length pre) 0, length pre) (b # bs) =
    foldl (\<lambda>acc ts. commit_bucket s ts acc) (?out @ replicate (n - length ?out) 0, length ?out) bs"
    by (simp only: foldl_Cons b)
  moreover have "pre @ flat (map (entry_text s) (taken_all data_end (entry_text s) (b # bs) (length pre))) =
      ?out @ flat (map (entry_text s) (taken_all data_end (entry_text s) bs (length ?out)))"
    by (simp add: Let_def)
  ultimately show ?case using Cons.IH [OF b(2)] by (simp only:)
qed

lemma getall_bucket_taken:
  "length pre < cnt \<Longrightarrow>
   getall_bucket s ts cnt (pre @ replicate (cnt - length pre) 0, length pre) =
     (let out = pre @ flat (map (entry_text s) (taken (cnt - 1) (entry_text s) ts (length pre)))
      in (out @ replicate (cnt - length out) 0, length out)) \<and>
   length (pre @ flat (map (entry_text s) (taken (cnt - 1) (entry_text s) ts (length pre)))) < cnt"
proof (induction ts arbitrary: pre)
  case Nil
  then show ?case by simp
next
  case (Cons t ts)
  let ?x = "entry_text s t"
  show ?case
  proof (cases "length ?x + 1 < cnt - length pre")
    case False
    then show ?thesis using Cons.prems by simp
  next
    case True
    then have "strcpy (pre @ replicate (cnt - length pre) 0) (length pre) ?x =
        (pre @ ?x @ [0]) @ replicate (cnt - length (pre @ ?x @ [0])) 0"
      using strcpy_zeros [of pre ?x cnt] by simp
    with Cons.IH [of "pre @ ?x @ [0]"] True show ?thesis by (simp add: Let_def)
  qed
qed

lemma getall_buckets_taken:
  "length pre < cnt \<Longrightarrow>
   foldl (\<lambda>acc ts. getall_bucket s ts cnt acc) (pre @ replicate (cnt - length pre) 0, length pre) bs =
     (let out = pre @ flat (map (entry_text s) (taken_all (cnt - 1) (entry_text s) bs (length pre)))
      in (out @ replicate (cnt - length out) 0, length out)) \<and>
   length (pre @ flat (map (entry_text s) (taken_all (cnt - 1) (entry_text s) bs (length pre)))) < cnt"
proof (induction bs arbitrary: pre)
  case Nil
  then show ?case by simp
next
  case (Cons b bs)
  let ?out = "pre @ flat (map (entry_text s) (taken (cnt - 1) (entry_text s) b (length pre)))"
  have b: "getall_bucket s b cnt (pre @ replicate (cnt - length pre) 0, length pre) =
      (?out @ replicate (cnt - length ?out) 0, length ?out)" "length ?out < cnt"
    using getall_bucket_taken [OF Cons.prems, of s b] by (simp_all add: Let_def)
  have "foldl (\<lambda>acc ts. getall_bucket s ts cnt acc)
      (pre @ replicate (cnt - length pre) 0, length pre) (b # bs) =
    foldl (\<lambda>acc ts. getall_bucket s ts cnt acc) (?out @ replicate (cnt - length ?out) 0, length ?out) bs"
    by (simp only: foldl_Cons b)
  moreover have "pre @ flat (map (entry_text s) (taken_all (cnt - 1) (entry_text s) (b # bs) (length pre))) =
      ?out @ flat (map (entry_text s) (taken_all (cnt - 1) (entry_text s) bs (length ?out)))"
    by (simp add: Let_def)
  ultimately show ?case using Cons.IH [OF b(2)] by (simp only:)
qed

lemma taken_all_fit:
  "pos + length (flat (map f (concat bs))) \<le> lim \<Longrightarrow> taken_all lim f bs pos = concat bs"
proof (induction bs arbitrary: pos)
  case (Cons b bs)
  have fit: "pos + length (flat (map f xs)) \<le> lim \<Longrightarrow> taken lim f xs pos = xs" for xs pos
    by (induction xs arbitrary: pos) auto
  from Cons.prems have "taken lim f b pos = b" by (intro fit) simp
  with Cons show ?case by (simp add: Let_def)
qed simp

lemma taken_all_subset:
  "set (taken_all lim f bs pos) \<subseteq> {x \<in> set (concat bs). length (f x) + 1 \<le> lim}"
proof (induction bs arbitrary: pos)
  case (Cons b bs)
  have "set (taken lim f b pos) \<subseteq> {x \<in> set b. length (f x) + 1 \<le> lim}" for pos
    by (induction b arbitrary: pos) auto
  with Cons show ?case by (fastforce simp: Let_def)
qed simp

section \<open>Parsing what was written\<close>

definition name_ok :: "cstr \<Rightarrow> bool" where
  "name_ok n \<longleftrightarrow> n \<noteq> [] \<and> 0 \<notin> set n \<and> 0x3D \<notin> set n"

definition entry :: "cstr \<times> cstr \<Rightarrow> cstr" where
  "entry kv = fst kv @ [0x3D] @ snd kv"

lemma takeWhile_entry:
  "name_ok n \<Longrightarrow> 0 \<notin> set v \<Longrightarrow> takeWhile (\<lambda>c. c \<noteq> 0) (entry (n, v) @ 0 # rest) = entry (n, v)"
  "name_ok n \<Longrightarrow> takeWhile (\<lambda>c. c \<noteq> 0x3D) (entry (n, v)) = n"
proof -
  show "takeWhile (\<lambda>c. c \<noteq> 0) (entry (n, v) @ 0 # rest) = entry (n, v)"
    if "name_ok n" "0 \<notin> set v"
  proof -
    have "\<forall>c \<in> set (entry (n, v)). c \<noteq> 0" using that by (auto simp: entry_def name_ok_def)
    then show ?thesis by simp
  qed
  show "takeWhile (\<lambda>c. c \<noteq> 0x3D) (entry (n, v)) = n" if "name_ok n"
    using that by (auto simp: entry_def name_ok_def takeWhile_append)
qed

lemma parse_env_entry:
  assumes "name_ok n" "0 \<notin> set v"
  shows "parse_env (entry (n, v) @ 0 # rest) = map_option (\<lambda>kvs. (n, v) # kvs) (parse_env rest)"
proof -
  obtain c cs where c: "entry (n, v) = c # cs" "c \<noteq> 0"
    using assms by (cases n) (auto simp: entry_def name_ok_def)
  have "0x3D \<in> set (entry (n, v))" by (simp add: entry_def)
  moreover have "drop (length n + 1) (entry (n, v)) = v" by (simp add: entry_def)
  ultimately show ?thesis
    using takeWhile_entry(1) [OF assms, of rest] takeWhile_entry(2) [OF assms(1), of v] c
    by (subst parse_env.simps) (simp add: Let_def)
qed

lemma early_search_entry:
  assumes "name_ok n" "0 \<notin> set v"
  shows "early_search (entry (n, v) @ 0 # rest) name =
    (if name = n then Some (Some v) else early_search rest name)"
proof -
  obtain c cs where c: "entry (n, v) = c # cs" "c \<noteq> 0"
    using assms by (cases n) (auto simp: entry_def name_ok_def)
  have "0x3D \<in> set (entry (n, v))" by (simp add: entry_def)
  moreover have "drop (length n + 1) (entry (n, v)) = v" by (simp add: entry_def)
  moreover have "length n = length name \<and> take (length n) (entry (n, v) @ 0 # rest) = name \<longleftrightarrow> name = n"
    by (auto simp: entry_def)
  ultimately show ?thesis
    using takeWhile_entry(1) [OF assms, of rest] takeWhile_entry(2) [OF assms(1), of v] c
    by (subst early_search.simps) (simp add: Let_def)
qed

abbreviation pairs_ok :: "(cstr \<times> cstr) list \<Rightarrow> bool" where
  "pairs_ok kvs \<equiv> list_all (\<lambda>(n, v). name_ok n \<and> 0 \<notin> set v) kvs"

lemma parse_env_flat:
  "pairs_ok kvs \<Longrightarrow> parse_env (flat (map entry kvs) @ 0 # rest) = Some kvs"
proof (induction kvs)
  case Nil
  then show ?case by (simp add: parse_env.simps)
next
  case (Cons kv kvs)
  then show ?case by (cases kv) (simp add: parse_env_entry)
qed

lemma early_search_flat:
  "pairs_ok kvs \<Longrightarrow> early_search (flat (map entry kvs) @ 0 # rest) name = Some (map_of kvs name)"
proof (induction kvs)
  case Nil
  then show ?case by (simp add: early_search.simps)
next
  case (Cons kv kvs)
  then show ?case by (cases kv) (simp add: early_search_entry)
qed

lemma set_pairs_set_all: "set_pairs s kvs = nvs.set_all s kvs"
  by (induction s kvs rule: set_pairs.induct) simp_all

section \<open>What a commit keeps\<close>

definition pair_of :: "nvram \<Rightarrow> nvram_tuple \<Rightarrow> cstr \<times> cstr" where
  "pair_of s t = (t_name t, cstr_at (nv_buf s) (t_value t))"

definition committed :: "nvram \<Rightarrow> (cstr \<times> cstr) list" where
  "committed s = map (pair_of s) (taken_all data_end (entry_text s) (nv_hash s) 0)"

definition all_pairs :: "nvram \<Rightarrow> (cstr \<times> cstr) list" where
  "all_pairs s = map (pair_of s) (concat (nv_hash s))"

definition names_ok :: "nvram \<Rightarrow> bool" where
  "names_ok s \<longleftrightarrow> (\<forall>t \<in> tuples s. name_ok (t_name t))"

definition sdram_names :: "cstr set" where
  "sdram_names = {cs ''sdram_init'', cs ''sdram_config'', cs ''sdram_refresh'', cs ''sdram_ncdl''}"

lemma data_end_val: "data_end = 32746"
  by (simp add: data_end_def)

lemma entry_text_pair: "entry_text s t = entry (pair_of s t)"
  by (simp add: entry_text_def entry_def pair_of_def)

lemma committed_taken: "map (entry_text s) (taken_all data_end (entry_text s) (nv_hash s) 0) =
    map entry (committed s)"
  by (simp add: committed_def entry_text_pair)

lemma tuples_concat: "tuples s = set (concat (nv_hash s))"
  by (simp add: tuples_def)

lemma committed_subset: "set (committed s) \<subseteq> pair_of s ` {t \<in> tuples s. length (entry_text s t) + 1 \<le> data_end}"
  unfolding committed_def tuples_concat using taken_all_subset [of data_end "entry_text s" "nv_hash s" 0]
  by auto

lemma pair_get:
  assumes "nv_ok s" "t \<in> tuples s" "pair_of s t = (n, v)"
  shows "nvram_get0 s n = Some v"
proof -
  from assms(1,2) have "nvram_find s (t_name t) = Some t"
    by (simp add: nvram_find_iff tuples_iff)
  with assms(3) show ?thesis by (auto simp: nvram_get0_def pair_of_def)
qed

lemma get_pair:
  assumes "nv_ok s" "nvram_get0 s n = Some v"
  shows "(n, v) \<in> set (all_pairs s)"
proof -
  from assms(2) obtain t where t: "nvram_find s n = Some t" "v = cstr_at (nv_buf s) (t_value t)"
    by (auto simp: nvram_get0_def)
  with assms(1) have "t_name t = n" "t \<in> tuples s" by (auto simp: nvram_find_iff tuples_iff)
  with t show ?thesis unfolding all_pairs_def by (force simp: tuples_concat pair_of_def)
qed

lemma committed_get:
  "nv_ok s \<Longrightarrow> (n, v) \<in> set (committed s) \<Longrightarrow> nvram_get0 s n = Some v"
  using committed_subset [of s] pair_get [of s _ n v] by force

lemma map_of_functional:
  assumes "\<And>v w. (n, v) \<in> set xs \<Longrightarrow> (n, w) \<in> set xs \<Longrightarrow> v = w"
  shows "map_of xs n = Some v \<longleftrightarrow> (n, v) \<in> set xs"
proof
  assume v: "(n, v) \<in> set xs"
  then obtain w where "map_of xs n = Some w" by (meson weak_map_of_SomeI)
  with assms v map_of_SomeD [OF this] show "map_of xs n = Some v" by blast
qed (rule map_of_SomeD)

lemma committed_map_of:
  assumes "nv_ok s"
  shows "map_of (committed s) n = Some v \<longleftrightarrow> (n, v) \<in> set (committed s)"
    "map_of (rev (committed s)) n = Some v \<longleftrightarrow> (n, v) \<in> set (committed s)"
proof -
  have f: "v = w" if "(n, v) \<in> set (committed s)" "(n, w) \<in> set (committed s)" for v w
    using committed_get [OF assms that(1)] committed_get [OF assms that(2)] by simp
  show "map_of (committed s) n = Some v \<longleftrightarrow> (n, v) \<in> set (committed s)"
    by (rule map_of_functional) (rule f)
  show "map_of (rev (committed s)) n = Some v \<longleftrightarrow> (n, v) \<in> set (committed s)"
    by (subst map_of_functional) (use f in auto)
qed

lemma committed_ok:
  assumes "names_ok s"
  shows "pairs_ok (committed s)"
proof -
  have "name_ok n \<and> 0 \<notin> set v" if "(n, v) \<in> set (committed s)" for n v
    using that committed_subset [of s] assms cstr_at_nonul by (force simp: names_ok_def pair_of_def)
  then show ?thesis by (auto simp: list_all_iff)
qed

lemma regen_data:
  "\<exists>k. h_data (nvram_regen f s) = flat (map entry (committed s)) @ 0 # replicate k 0"
  "length (flat (map entry (committed s))) \<le> data_end"
  "length (h_data (nvram_regen f s)) = data_end + 2"
  "(h_data (nvram_regen f s))[data_end := 0, data_end + 1 := 0] = h_data (nvram_regen f s)"
proof -
  let ?n = "NVRAM_SPACE - NVRAM_HEADER_SIZE"
  let ?out = "flat (map entry (committed s))"
  have n: "?n = data_end + 2" "data_end \<le> ?n" by (simp_all add: data_end_def)
  have run: "foldl (\<lambda>acc ts. commit_bucket s ts acc) (replicate ?n 0, 0) (nv_hash s) =
      (?out @ replicate (?n - length ?out) 0, length ?out)" "length ?out \<le> data_end"
    using commit_buckets_taken [OF n(2), of "[]" s "nv_hash s"]
    by (simp_all add: Let_def committed_taken)
  have data: "h_data (nvram_regen f s) = ?out @ replicate (?n - length ?out) 0"
    unfolding nvram_regen_def run(1) by (simp add: Let_def split: prod.split)
  have "Suc (Suc (data_end - length ?out)) = ?n - length ?out" using run(2) n by simp
  then obtain k where k: "?n - length ?out = Suc (Suc k)" by metis
  then have "h_data (nvram_regen f s) = ?out @ 0 # replicate (Suc k) 0" using data by simp
  then show "\<exists>k. h_data (nvram_regen f s) = ?out @ 0 # replicate k 0" by blast
  show "length ?out \<le> data_end" by (rule run(2))
  show len: "length (h_data (nvram_regen f s)) = data_end + 2" using data run(2) n by simp
  have "h_data (nvram_regen f s) ! i = 0" if "data_end \<le> i" "i < data_end + 2" for i
    using that run(2) n unfolding data by (simp add: nth_append)
  then have z: "h_data (nvram_regen f s) ! data_end = 0" "h_data (nvram_regen f s) ! (data_end + 1) = 0"
    by simp_all
  show "(h_data (nvram_regen f s))[data_end := 0, data_end + 1 := 0] = h_data (nvram_regen f s)"
    using z by (metis list_update_id)
qed

text \<open>Rebuilding the table from a written data area. A default is only set for a missing
  variable, and its result is not looked at.\<close>

lemma nv_ok_free:
  assumes "nv_ok s"
  shows "nv_ok (nvram_free s)" "nvram_get0 (nvram_free s) = Map.empty"
    "nv_offset (nvram_free s) = 0" "nv_kmalloc (nvram_free s) = nv_kmalloc s"
  using assms bucket_less
  by (simp_all add: nv_ok_def nvram_free_def bucket_ok_def nvram_get0_def nvram_find_def fun_eq_iff)

lemma hex_upper_nonzero: "hex_upper w i \<noteq> 0"
proof -
  define d :: u8 where "d = ucast (drop_bit (4 * i) w AND 0xF)"
  have "unat (drop_bit (4 * i) w AND 0xF) \<le> 15"
    using and_15_mod [of "drop_bit (4 * i) w"] by simp
  then have d: "unat d \<le> 15"
    by (simp add: d_def unsigned_ucast_eq take_bit_nat_eq_self)
  have "0x30 + d \<noteq> 0" "0x41 + (d - 10) \<noteq> 0"
  proof -
    have "unat (0x30 + d) = 48 + unat d" using d by (simp add: unat_add_lem [THEN iffD1])
    then show "0x30 + d \<noteq> 0" by force
    have "unat (0x37 + d) = 55 + unat d" using d by (simp add: unat_add_lem [THEN iffD1])
    moreover have "0x41 + (d - 10) = 0x37 + d" by simp
    ultimately show "0x41 + (d - 10) \<noteq> 0" by force
  qed
  then show ?thesis by (simp add: hex_upper_def d_def Let_def)
qed

lemma sdram_name_nonul: "n \<in> sdram_names \<Longrightarrow> 0 \<notin> set n"
  by (auto simp: sdram_names_def cs_def)

lemma set_default_spec:
  assumes ok: "nv_ok s" and "0 \<notin> set name" "0 \<notin> set v"
  shows "nv_ok (set_default name v s)"
    "n \<noteq> name \<Longrightarrow> nvram_get0 (set_default name v s) n = nvram_get0 s n"
    "nvram_get0 s n = Some w \<Longrightarrow> nvram_get0 (set_default name v s) n = Some w"
    "nv_room s (v # vs) \<Longrightarrow> nv_room (set_default name v s) vs"
proof -
  obtain r s' where s': "nvram_set0 s name v = (r, s')" by fastforce
  show "nv_room (set_default name v s) vs" if "nv_room s (v # vs)"
    using nvs.set_room [of s name v vs r s'] that assms s'
    by (auto simp: set_default_def nv_room_def)
  note spec = nvram_set0_spec [OF assms s'] and s'
  then show "nv_ok (set_default name v s)"
    "n \<noteq> name \<Longrightarrow> nvram_get0 (set_default name v s) n = nvram_get0 s n"
    "nvram_get0 s n = Some w \<Longrightarrow> nvram_get0 (set_default name v s) n = Some w"
    using ok by (auto simp: set_default_def)
qed

lemma rehash_spec:
  assumes ok: "nv_ok s" and mem: "False \<notin> set (nv_kmalloc s)"
    and kvs: "pairs_ok kvs" "sum_list (map (\<lambda>kv. length (snd kv) + 1) kvs) \<le> NVRAM_SPACE"
    and data: "parse_env ((h_data h)[data_end := 0, data_end + 1 := 0]) = Some kvs"
    and dist: "\<And>n v w. (n, v) \<in> set kvs \<Longrightarrow> (n, w) \<in> set kvs \<Longrightarrow> v = w"
  obtains s' where
    "nvram_rehash s h = Some (0, s', h\<lparr>h_data := (h_data h)[data_end := 0, data_end + 1 := 0]\<rparr>)"
    "nv_ok s'" "\<And>n v. map_of kvs n = Some v \<Longrightarrow> nvram_get0 s' n = Some v"
    "\<And>n. n \<notin> sdram_names \<Longrightarrow> nvram_get0 s' n = map_of kvs n"
    "\<And>vs. sum_list (map (\<lambda>v. length v + 1) (map snd kvs @ vs)) + 32 \<le> NVRAM_SPACE \<Longrightarrow> nv_room s' vs"
proof -
  let ?s0 = "nvram_free s" let ?s1 = "set_pairs ?s0 kvs"
  note free = nv_ok_free [OF ok]
  have arg: "list_all (\<lambda>(n, v). 0 \<notin> set n \<and> 0 \<notin> set v) kvs"
    using kvs(1) by (auto simp: list_all_iff name_ok_def)
  have room0: "nv_room ?s0 vs \<longleftrightarrow> sum_list (map (\<lambda>v. length v + 1) vs) \<le> NVRAM_SPACE" for vs
    using mem free by (simp add: nv_room_def)
  then have "nv_room ?s0 (map snd kvs @ [])"
    using kvs(2) by (simp add: comp_def)
  from nvs.set_all_get [OF free(1) arg this] nvs.set_all_inv [OF free(1) arg] free(2)
  have s1: "nv_ok ?s1" "nvram_get0 ?s1 = map_of (rev kvs)"
    by (simp_all add: set_pairs_set_all)
  have rev: "map_of (rev kvs) n = map_of kvs n" for n
  proof -
    have "map_of (rev kvs) n = Some v \<longleftrightarrow> map_of kvs n = Some v" for v
      using dist by (subst (1 2) map_of_functional) auto
    then show ?thesis by (metis option.exhaust)
  qed
  define ds where "ds = [(cs ''sdram_init'', hex04 (drop_bit 16 (h_crc_ver_init h))),
    (cs ''sdram_config'', hex04 (h_config_refresh h AND 0xFFFF)),
    (cs ''sdram_refresh'', hex04 (drop_bit 16 (h_config_refresh h) AND 0xFFFF)),
    (cs ''sdram_ncdl'', hex08 (h_config_ncdl h))]"
  define s' where "s' = foldl (\<lambda>s kv. set_default (fst kv) (snd kv) s) ?s1 ds"
  have ds: "\<forall>(n, v) \<in> set ds. n \<in> sdram_names \<and> 0 \<notin> set n \<and> 0 \<notin> set v"
    using sdram_name_nonul hex_upper_nonzero by (auto simp: ds_def sdram_names_def hex04_def hex08_def)
  have run: "nvram_rehash s h = Some (0, s', h\<lparr>h_data := (h_data h)[data_end := 0, data_end + 1 := 0]\<rparr>)"
    using data by (simp add: nvram_rehash_def s'_def ds_def Let_def)
  have defaults: "nv_ok (foldl (\<lambda>s kv. set_default (fst kv) (snd kv) s) u xs) \<and>
      (\<forall>n v. nvram_get0 u n = Some v \<longrightarrow>
         nvram_get0 (foldl (\<lambda>s kv. set_default (fst kv) (snd kv) s) u xs) n = Some v) \<and>
      (\<forall>n. n \<notin> sdram_names \<longrightarrow>
         nvram_get0 (foldl (\<lambda>s kv. set_default (fst kv) (snd kv) s) u xs) n = nvram_get0 u n)"
    if "nv_ok u" "\<forall>(n, v) \<in> set xs. n \<in> sdram_names \<and> 0 \<notin> set n \<and> 0 \<notin> set v" for u xs
    using that
  proof (induction xs arbitrary: u)
    case (Cons kv xs)
    obtain n v where kv: "kv = (n, v)" by (cases kv)
    with Cons.prems have nv: "n \<in> sdram_names" "0 \<notin> set n" "0 \<notin> set v" by auto
    note d = set_default_spec [OF Cons.prems(1) nv(2,3)]
    show ?case using Cons.IH [OF d(1)] Cons.prems(2) kv nv(1) d(2,3) by fastforce
  qed simp
  have room: "nv_room (foldl (\<lambda>s kv. set_default (fst kv) (snd kv) s) u xs) vs"
    if "nv_ok u" "\<forall>(n, v) \<in> set xs. n \<in> sdram_names \<and> 0 \<notin> set n \<and> 0 \<notin> set v"
      "nv_room u (map snd xs @ vs)" for u xs vs
    using that
  proof (induction xs arbitrary: u)
    case (Cons kv xs)
    obtain n v where kv: "kv = (n, v)" by (cases kv)
    with Cons.prems have nv: "0 \<notin> set n" "0 \<notin> set v" "nv_room u (v # (map snd xs @ vs))" by auto
    note d = set_default_spec [OF Cons.prems(1) nv(1,2)]
    show ?case using Cons.IH [OF d(1)] Cons.prems(2) kv d(4) [OF nv(3)] by simp
  qed simp
  have "nv_room s' vs"
    if "sum_list (map (\<lambda>v. length v + 1) (map snd kvs @ vs)) + 32 \<le> NVRAM_SPACE" for vs
  proof -
    have "nv_room ?s0 (map snd kvs @ (map snd ds @ vs))"
      using that by (simp add: room0 ds_def hex04_def hex08_def)
    from nvs.set_all_get [OF free(1) arg this] have "nv_room ?s1 (map snd ds @ vs)"
      by (simp add: set_pairs_set_all)
    with room [OF s1(1) ds] show ?thesis by (simp add: s'_def)
  qed
  with defaults [OF s1(1) ds] run that s1(2) rev show ?thesis
    by (auto simp: s'_def)
qed

text \<open>A commit.\<close>

lemma flat_entries_values:
  "sum_list (map (\<lambda>kv. length (snd kv) + 1) kvs) \<le> length (flat (map entry kvs))"
  by (induction kvs) (auto simp: entry_def)

lemma commit_spec:
  assumes ok: "nv_ok s" and names: "names_ok s" and mem: "False \<notin> set (nv_kmalloc s)"
  obtains s' where "nvram_commit0 f s = Some (0, s', nvram_regen f s)" "nv_ok s'"
    "\<And>n v. map_of (committed s) n = Some v \<Longrightarrow> nvram_get0 s' n = Some v"
    "\<And>n. n \<notin> sdram_names \<Longrightarrow> nvram_get0 s' n = map_of (committed s) n"
    "\<And>vs. sum_list (map (\<lambda>v. length v + 1) (map snd (committed s) @ vs)) + 32 \<le> NVRAM_SPACE \<Longrightarrow>
       nv_room s' vs"
    "\<And>n. early_nvram_get (h_data (nvram_regen f s)) n = Some (map_of (committed s) n)"
proof -
  note kvs = committed_ok [OF names]
  obtain k where data: "h_data (nvram_regen f s) = flat (map entry (committed s)) @ 0 # replicate k 0"
    using regen_data(1) by blast
  have same: "nvram_regen f s\<lparr>h_data := (h_data (nvram_regen f s))[data_end := 0, data_end + 1 := 0]\<rparr> =
      nvram_regen f s" by (simp add: regen_data(4) del: One_nat_def)
  have parse: "parse_env ((h_data (nvram_regen f s))[data_end := 0, data_end + 1 := 0]) =
      Some (committed s)"
    unfolding regen_data(4) unfolding data by (rule parse_env_flat [OF kvs])
  have sum: "sum_list (map (\<lambda>kv. length (snd kv) + 1) (committed s)) \<le> NVRAM_SPACE"
    using flat_entries_values [of "committed s"] regen_data(2) [of s] by (simp add: data_end_val)
  have dist: "v = w" if "(n, v) \<in> set (committed s)" "(n, w) \<in> set (committed s)" for n v w
    using committed_get [OF ok that(1)] committed_get [OF ok that(2)] by simp
  have early: "early_nvram_get (h_data (nvram_regen f s)) n = Some (map_of (committed s) n)" for n
    unfolding early_nvram_get_def regen_data(4) unfolding data by (rule early_search_flat [OF kvs])
  show ?thesis
  proof (rule rehash_spec [OF ok mem kvs sum parse dist], goal_cases)
    case (3 s')
    show ?case
      by (rule that [of s']) (use 3 early in \<open>simp_all add: nvram_commit0_def same del: One_nat_def\<close>)
  qed
qed

lemma map_of_all_pairs:
  assumes "nv_ok s"
  shows "map_of (all_pairs s) n = nvram_get0 s n"
proof -
  have "(n, v) \<in> set (all_pairs s) \<longleftrightarrow> nvram_get0 s n = Some v" for v
    using get_pair [OF assms] pair_get [OF assms] by (force simp: all_pairs_def tuples_concat)
  then have "map_of (all_pairs s) n = Some v \<longleftrightarrow> nvram_get0 s n = Some v" for v
    by (subst map_of_functional) auto
  then show ?thesis by (metis option.exhaust)
qed

lemma committed_all:
  "length (flat (map entry (all_pairs s))) \<le> data_end \<Longrightarrow> committed s = all_pairs s"
proof -
  have "entry_text s = entry \<circ> pair_of s" by (simp add: fun_eq_iff entry_text_pair)
  then show "length (flat (map entry (all_pairs s))) \<le> data_end \<Longrightarrow> committed s = all_pairs s"
    using taken_all_fit [of 0 "entry_text s" "nv_hash s" data_end]
    by (simp add: committed_def all_pairs_def)
qed

lemma entry_text_kmalloc [simp]: "entry_text (s\<lparr>nv_kmalloc := k\<rparr>) = entry_text s"
  by (simp add: entry_text_def fun_eq_iff)

lemma commit_bucket_kmalloc [simp]:
  "commit_bucket (s\<lparr>nv_kmalloc := k\<rparr>) ts acc = commit_bucket s ts acc"
  by (induction s ts acc rule: commit_bucket.induct) (simp_all add: Let_def)

lemma regen_kmalloc [simp]:
  "nvram_regen f (s\<lparr>nv_kmalloc := k\<rparr>) = nvram_regen f s"
  "committed (s\<lparr>nv_kmalloc := k\<rparr>) = committed s"
  "names_ok (s\<lparr>nv_kmalloc := k\<rparr>) = names_ok s"
  by (simp_all add: nvram_regen_def sdram_words_def committed_def pair_of_def fun_eq_iff
      names_ok_def tuples_def)

text \<open>Setting with a second attempt after a commit.\<close>

lemma nvram_set_ok:
  assumes "nv_ok s" "names_ok s" "False \<notin> set (nv_kmalloc s)" "0 \<notin> set name" "0 \<notin> set v"
    and "sum_list (map (\<lambda>w. length w + 1) (map snd (committed s) @ [v])) + 32 \<le> NVRAM_SPACE"
  shows "\<exists>s'. nvram_set f s name v = Some (0, s') \<and> nv_ok s' \<and> nvram_get0 s' name = Some v \<and>
    (\<forall>n w. n \<noteq> name \<and> map_of (committed s) n = Some w \<longrightarrow> nvram_get0 s' n = Some w)"
proof -
  have old: "nvram_get0 s n = Some w" if "map_of (committed s) n = Some w" for n w
    using committed_get [OF assms(1)] map_of_SomeD [OF that] .
  obtain r s1 where s1: "nvram_set0 s name v = (r, s1)" by fastforce
  note first = nvram_set0_spec [OF assms(1,4,5) s1]
  show ?thesis
  proof (cases "r = 0")
    case True
    then show ?thesis using s1 first(1,2) old by (auto simp: nvram_set_def)
  next
    case False
    then obtain k where k: "s1 = s\<lparr>nv_kmalloc := k\<rparr>" "set k \<subseteq> set (nv_kmalloc s)"
      using nvram_set0_fail [OF assms(1,5) s1] by blast
    obtain b s2 where b: "kmalloc s1 = (b, s2)" by fastforce
    have "b"
      using b k assms(3) by (cases b) (auto simp: kmalloc_def split: list.splits)
    have "\<exists>k. s2 = s\<lparr>nv_kmalloc := k\<rparr> \<and> set k \<subseteq> set (nv_kmalloc s)"
      using b k assms(3) by (auto simp: kmalloc_def split: list.splits)
    then obtain k2 where k2: "s2 = s\<lparr>nv_kmalloc := k2\<rparr>" "set k2 \<subseteq> set (nv_kmalloc s)" by blast
    have s2: "nv_ok s2" "names_ok s2" "False \<notin> set (nv_kmalloc s2)" "committed s2 = committed s"
      using assms(1-3) k2 by auto
    obtain s3 where s3: "nvram_commit0 f s2 = Some (0, s3, nvram_regen f s2)" "nv_ok s3"
      "\<And>n v. map_of (committed s) n = Some v \<Longrightarrow> nvram_get0 s3 n = Some v"
      "\<And>vs. sum_list (map (\<lambda>v. length v + 1) (map snd (committed s) @ vs)) + 32 \<le> NVRAM_SPACE \<Longrightarrow>
       nv_room s3 vs"
      by (rule commit_spec [OF s2(1-3), of f]) (use s2(4) in auto)
    obtain r4 s4 where s4: "nvram_set0 s3 name v = (r4, s4)" by fastforce
    have "r4 = 0 \<and> nvram_get0 s4 = (nvram_get0 s3)(name \<mapsto> v) \<and> nv_room s4 []"
      using s4 s3(2) assms(4,5) s3(4) [OF assms(6)] by (intro nvs.set_room) auto
    moreover have "nv_ok s4" using nvs.set_inv [OF s3(2) _ s4] assms(4,5) by simp
    moreover have "nvram_set f s name v = Some (r4, s4)"
      using s1 False b \<open>b\<close> s3(1) s4 by (simp add: nvram_set_def)
    ultimately show ?thesis using s3(3) by auto
  qed
qed

section \<open>Properties\<close>

text \<open>C22: \<open>_nvram_set\<close> either returns 0 and the variable, and no other, has the new value, or
  returns \<open>-ENOMEM\<close> and every variable keeps its value; it succeeds when the value fits in the
  buffer and no allocation fails. \<open>_nvram_unset\<close> removes the variable and no other. Both keep the
  table well-formed.\<close>

theorem nvram_set_unset_map:
  assumes "nv_ok s" "0 \<notin> set name" "0 \<notin> set v" "nvram_set0 s name v = (r, s')"
    and "nvram_unset0 s name = (r2, s2)"
  shows "nv_ok s' \<and>
    (r = 0 \<and> nvram_get0 s' = (nvram_get0 s)(name \<mapsto> v) \<or> r = - ENOMEM \<and> nvram_get0 s' = nvram_get0 s) \<and>
    (nv_offset s + length v + 1 \<le> NVRAM_SPACE \<and> False \<notin> set (nv_kmalloc s) \<longrightarrow> r = 0) \<and>
    r2 = 0 \<and> nv_ok s2 \<and> nvram_get0 s2 = (nvram_get0 s)(name := None)"
  using nvram_set0_spec(1,2,3) [OF assms(1-4)] nvram_unset0_spec [OF assms(1,5)] by blast

lemma initial_fields: "nv_offset nvram_initial = 0" "nv_kmalloc nvram_initial = []"
  by (simp_all add: nvram_initial_def)

lemma nvram_set_unset_map_witness:
  "nvram_get0 (snd (nvram_set0 nvram_initial [0x61] [0x62])) [0x61] = Some [0x62]"
  using nvram_set_unset_map [of nvram_initial "[0x61]" "[0x62]", OF nv_ok_initial _ _
      prod.collapse [symmetric] prod.collapse [symmetric]] initial_fields by auto

text \<open>C12: A commit of a well-formed table of proper names succeeds. The variables that fit in the
  image (\<open>committed\<close>, in the order of the buckets) keep their values; every other one, the SDRAM
  parameters apart (they get a default), is gone from the table; and the read-only search of the
  written data area finds exactly the variables that fit.\<close>

theorem nvram_commit_keeps:
  assumes "nv_ok s" "names_ok s" "False \<notin> set (nv_kmalloc s)"
  shows "\<exists>s' h. nvram_commit0 f s = Some (0, s', h) \<and> nv_ok s' \<and>
    (\<forall>n v. map_of (committed s) n = Some v \<longrightarrow> nvram_get0 s n = Some v \<and> nvram_get0 s' n = Some v) \<and>
    (\<forall>n. n \<notin> sdram_names \<longrightarrow> nvram_get0 s' n = map_of (committed s) n) \<and>
    (\<forall>n. early_nvram_get (h_data h) n = Some (map_of (committed s) n)) \<and>
    (length (flat (map entry (all_pairs s))) \<le> data_end \<longrightarrow>
       map_of (committed s) = nvram_get0 s)"
proof -
  obtain s' where s': "nvram_commit0 f s = Some (0, s', nvram_regen f s)" "nv_ok s'"
    "\<And>n v. map_of (committed s) n = Some v \<Longrightarrow> nvram_get0 s' n = Some v"
    "\<And>n. n \<notin> sdram_names \<Longrightarrow> nvram_get0 s' n = map_of (committed s) n"
    "\<And>n. early_nvram_get (h_data (nvram_regen f s)) n = Some (map_of (committed s) n)"
    by (rule commit_spec [OF assms]) blast
  moreover have "nvram_get0 s n = Some v" if "map_of (committed s) n = Some v" for n v
    using committed_get [OF assms(1)] map_of_SomeD [OF that] .
  moreover have "map_of (committed s) = nvram_get0 s"
    if "length (flat (map entry (all_pairs s))) \<le> data_end"
    using committed_all [OF that] map_of_all_pairs [OF assms(1)] by auto
  ultimately show ?thesis by blast
qed

lemma names_ok_initial: "names_ok nvram_initial"
  by (simp add: names_ok_def nvram_initial_def tuples_def)

lemma kmalloc_initial: "False \<notin> set (nv_kmalloc nvram_initial)"
  by (simp add: nvram_initial_def)

lemma nvram_commit_keeps_witness:
  "\<exists>s' h. nvram_commit0 (\<lambda>_. 0) nvram_initial = Some (0, s', h) \<and> nv_ok s'"
  using nvram_commit_keeps [OF nv_ok_initial names_ok_initial kmalloc_initial, of "\<lambda>_. 0"] by blast

text \<open>\<open>nvram_set\<close> succeeds, after consolidating the space if need be, whenever the values that a
  commit keeps, the four SDRAM values and the new value fit in the buffer together; the
  committed variables keep their values.\<close>

theorem nvram_set_retry:
  assumes "nv_ok s" "names_ok s" "False \<notin> set (nv_kmalloc s)" "0 \<notin> set name" "0 \<notin> set v"
    and "sum_list (map (\<lambda>w. length w + 1) (map snd (committed s) @ [v])) + 32 \<le> NVRAM_SPACE"
  shows "\<exists>s'. nvram_set f s name v = Some (0, s') \<and> nv_ok s' \<and> nvram_get0 s' name = Some v \<and>
    (\<forall>n w. n \<noteq> name \<and> map_of (committed s) n = Some w \<longrightarrow> nvram_get0 s' n = Some w)"
  by (rule nvram_set_ok [OF assms])

lemma nvram_set_retry_witness:
  "\<exists>s'. nvram_set (\<lambda>_. 0) nvram_initial [0x61] [0x62] = Some (0, s') \<and> nvram_get0 s' [0x61] = Some [0x62]"
proof -
  have "committed nvram_initial = []"
    using committed_subset [of nvram_initial] by (simp add: nvram_initial_def tuples_def)
  then show ?thesis
    using nvram_set_retry [OF nv_ok_initial names_ok_initial kmalloc_initial,
        of "[0x61]" "[0x62]" "\<lambda>_. 0"] by auto
qed

text \<open>The names are not charged to the buffer: a variable whose name alone is as long as the
  data area can be set, is found in the table, and is dropped by a commit that returns 0.\<close>

theorem nvram_commit_drops:
  assumes "name_ok name" "data_end \<le> length name"
  shows "\<exists>s s' h. nvram_set0 nvram_initial name [] = (0, s) \<and> nvram_get0 s name = Some [] \<and>
    nvram_commit0 f s = Some (0, s', h) \<and> nvram_get0 s' name = None"
proof -
  have nul: "0 \<notin> set name" using assms(1) by (simp add: name_ok_def)
  obtain r s where s: "nvram_set0 nvram_initial name [] = (r, s)" by fastforce
  note spec = nvram_set0_spec [OF nv_ok_initial nul _ s, simplified]
  have r: "r = 0" using spec(3) by (simp add: nvram_initial_def)
  have empty: "nvram_get0 nvram_initial = Map.empty"
    using bucket_less by (simp add: fun_eq_iff nvram_get0_def nvram_find_def nvram_initial_def)
  have get: "nvram_get0 s = [name \<mapsto> []]" using spec(2) r empty by simp
  have only: "t_name t = name" if "t \<in> tuples s" for t
    using pair_get [OF spec(1) that, of "t_name t" "cstr_at (nv_buf s) (t_value t)"] get
    by (simp add: pair_of_def split: if_splits)
  have names: "names_ok s" using only assms(1) by (simp add: names_ok_def)
  have none: "committed s = []"
  proof (rule ccontr)
    assume "committed s \<noteq> []"
    then obtain kv where "kv \<in> set (committed s)" by (cases "committed s") auto
    with committed_subset [of s] obtain t where "t \<in> tuples s" "length (entry_text s t) + 1 \<le> data_end"
      by blast
    with only [of t] assms(2) show False by (simp add: entry_text_def)
  qed
  have mem: "False \<notin> set (nv_kmalloc s)" using spec(5) [OF r] by (auto simp: nvram_initial_def)
  have "name \<notin> sdram_names"
    using assms(2) by (auto simp: sdram_names_def cs_def data_end_val)
  then obtain s' where "nvram_commit0 f s = Some (0, s', nvram_regen f s)" "nvram_get0 s' name = None"
    using none by (auto intro: commit_spec [OF spec(1) names mem, of f])
  with s r get show ?thesis by auto
qed

lemma nvram_commit_drops_witness:
  "\<exists>s s' h. nvram_set0 nvram_initial (replicate 0x8000 0x61) [] = (0, s) \<and>
    nvram_get0 s (replicate 0x8000 0x61) = Some [] \<and>
    nvram_commit0 (\<lambda>_. 0) s = Some (0, s', h) \<and> nvram_get0 s' (replicate 0x8000 0x61) = None"
  using nvram_commit_drops [of "replicate 0x8000 0x61" "\<lambda>_. 0"]
  by (simp add: name_ok_def data_end_val)

text \<open>When all the entries with their NULs, and one byte more, fit in the caller's buffer,
  \<open>_nvram_getall\<close> fills it with every \<open>name=value\<close> of the table and zeros.\<close>

theorem nvram_getall_entries:
  assumes "length (flat (map entry (all_pairs s))) < cnt"
  shows "nvram_getall0 s cnt = flat (map entry (all_pairs s)) @
    replicate (cnt - length (flat (map entry (all_pairs s)))) 0"
proof -
  have e: "entry_text s = entry \<circ> pair_of s" by (simp add: fun_eq_iff entry_text_pair)
  have fl: "map (entry_text s) (concat (nv_hash s)) = map entry (all_pairs s)"
    by (simp add: all_pairs_def e)
  have "taken_all (cnt - 1) (entry_text s) (nv_hash s) 0 = concat (nv_hash s)"
    by (rule taken_all_fit) (use assms fl in simp)
  with getall_buckets_taken [of "[]" cnt s "nv_hash s"] assms fl show ?thesis
    by (simp add: nvram_getall0_def Let_def)
qed

lemma nvram_getall_entries_witness: "nvram_getall0 nvram_initial 3 = [0, 0, 0]"
proof -
  have "all_pairs nvram_initial = []" by (simp add: all_pairs_def nvram_initial_def)
  then show ?thesis
    using nvram_getall_entries [of nvram_initial 3] by (simp add: numeral_3_eq_3)
qed

end
