(* ===== verification/NvramFlash.thy ===== *)
theory NvramFlash
  imports NvramImage
begin

text \<open>
  Storing the image in flash and reading it back (\<open>nvram_read\<close>, \<open>nvram_commit\<close> and
  \<open>_nvram_init\<close> of \<open>nvram_linux.c\<close> and \<open>nvram.c\<close>). The MTD layer is a parameter: its
  operations are the fields of \<open>mtd\<close>, over flash contents of any type \<open>'f\<close>. What the driver
  relies on of a NOR flash is the predicate \<open>nor_flash\<close>: writing clears bits, and a write that fails or is short
  has stored a prefix; erasing a block sets its bits, and an erase that fails leaves the block as it was or erased. An erase
  is asynchronous in the code, which sleeps until the callback: here it is one operation with its outcome. A loss of power
  is an operation that fails. The machine is little-endian.
\<close>

section \<open>Flash\<close>

record 'f mtd =
  mtd_size :: nat
  mtd_erasesize :: nat
  mtd_read :: "'f \<Rightarrow> nat \<Rightarrow> nat \<Rightarrow> int \<times> u8 list"
  mtd_write :: "'f \<Rightarrow> nat \<Rightarrow> u8 list \<Rightarrow> int \<times> nat \<times> 'f"
  mtd_erase :: "'f \<Rightarrow> nat \<Rightarrow> int \<times> 'f"
  mtd_unlock :: "('f \<Rightarrow> nat \<Rightarrow> nat \<Rightarrow> 'f) option"

abbreviation ENODEV :: int where "ENODEV \<equiv> 19"
abbreviation EINVAL :: int where "EINVAL \<equiv> 22"
abbreviation EIO :: int where "EIO \<equiv> 5"
abbreviation NVRAM_CLEAR_MAGIC :: u32 where "NVRAM_CLEAR_MAGIC \<equiv> 0"
abbreviation NVRAM_INVALID_MAGIC :: u32 where "NVRAM_INVALID_MAGIC \<equiv> 0xFFFFFFFF"

section \<open>The image as bytes\<close>

definition header_bytes :: "nvram_header \<Rightarrow> u8 list" where
  "header_bytes h = htol32 (h_magic h) @ htol32 (h_len h) @ htol32 (h_crc_ver_init h) @
     htol32 (h_config_refresh h) @ htol32 (h_config_ncdl h) @ h_data h"

definition le32 :: "u8 list \<Rightarrow> nat \<Rightarrow> u32" where
  "le32 b i = ucast (b ! i) OR push_bit 8 (ucast (b ! (i + 1))) OR
     push_bit 16 (ucast (b ! (i + 2))) OR push_bit 24 (ucast (b ! (i + 3)))"

definition header_of :: "u8 list \<Rightarrow> nvram_header" where
  "header_of b = \<lparr>h_magic = le32 b 0, h_len = le32 b 4, h_crc_ver_init = le32 b 8,
     h_config_refresh = le32 b 12, h_config_ncdl = le32 b 16, h_data = drop 20 b\<rparr>"

section \<open>Operations\<close>

text \<open>\<open>_nvram_read\<close>: the NVRAM region of the flash, or what early initialisation left in
  \<open>nvram_buf\<close>.\<close>

definition nvram_read :: "'f mtd option \<Rightarrow> 'f \<Rightarrow> nvram \<Rightarrow> u8 list" where
  "nvram_read mtd fl s =
     (case mtd of
        None \<Rightarrow> nv_buf s
      | Some m \<Rightarrow>
          (case mtd_read m fl (mtd_size m - NVRAM_SPACE) NVRAM_SPACE of
             (ret, b) \<Rightarrow>
               if ret \<noteq> 0 \<or> length b \<noteq> NVRAM_SPACE \<or> h_magic (header_of b) \<noteq> NVRAM_MAGIC
               then nv_buf s else b))"

definition nvram_start :: "'f mtd option \<Rightarrow> 'f \<Rightarrow> nvram \<Rightarrow> (int \<times> nvram) option" where
  "nvram_start mtd fl s = nvram_init0 s (header_of (nvram_read mtd fl s))"

definition unlock :: "'f mtd \<Rightarrow> 'f \<Rightarrow> nat \<Rightarrow> 'f" where
  "unlock m fl off = (case mtd_unlock m of None \<Rightarrow> fl | Some u \<Rightarrow> u fl off (mtd_erasesize m))"

text \<open>A write that must be complete.\<close>

definition write_all :: "'f mtd \<Rightarrow> 'f \<Rightarrow> nat \<Rightarrow> u8 list \<Rightarrow> int \<times> 'f" where
  "write_all m fl off b =
     (case mtd_write m fl off b of
        (ret, len, fl) \<Rightarrow> (if ret \<noteq> 0 \<or> len \<noteq> length b then - EIO else 0, fl))"

text \<open>The erase loop.\<close>

function erase_blocks :: "'f mtd \<Rightarrow> 'f \<Rightarrow> nat \<Rightarrow> nat \<Rightarrow> int \<times> 'f" where
  "erase_blocks m fl offset lim =
     (if offset < lim \<and> 0 < mtd_erasesize m then
        (case mtd_erase m (unlock m fl offset) offset of
           (ret, fl) \<Rightarrow> if ret \<noteq> 0 then (ret, fl)
                       else erase_blocks m fl (offset + mtd_erasesize m) lim)
      else (0, fl))"
  by pat_completeness auto
termination
  by (relation "measure (\<lambda>(m, fl, offset, lim). lim - offset)") auto

declare erase_blocks.simps [simp del]

text \<open>\<open>nvram_commit\<close> from the erasing on: \<open>backup\<close> is what stands before the NVRAM region in its
  erase block. After the erasure the partition is written with an all-ones magic number, then the
  magic number.\<close>

definition write_image :: "'f mtd \<Rightarrow> 'f \<Rightarrow> nat \<Rightarrow> u8 list \<Rightarrow> nvram_header \<Rightarrow> int \<times> 'f" where
  "write_image m fl offset backup header =
     (let i = length backup; len = unat (h_len header);
          header = header\<lparr>h_magic := NVRAM_INVALID_MAGIC\<rparr>
      in case write_all m fl offset (take (i + len) (backup @ header_bytes header)) of
           (ret, fl) \<Rightarrow>
             if ret \<noteq> 0 then (ret, fl)
             else
               (case write_all m fl (offset + i) (htol32 NVRAM_MAGIC) of
                  (ret, fl) \<Rightarrow>
                    if ret \<noteq> 0 then (ret, fl) else (fst (mtd_read m fl offset 4), fl)))"

definition nvram_write_flash ::
  "'f mtd \<Rightarrow> 'f \<Rightarrow> nat \<Rightarrow> u8 list \<Rightarrow> nvram_header \<Rightarrow> int \<times> 'f" where
  "nvram_write_flash m fl offset backup header =
     (case erase_blocks m fl offset (mtd_size m - NVRAM_SPACE + unat (h_len header)) of
        (ret, fl) \<Rightarrow>
          if ret \<noteq> 0 then (ret, fl) else write_image m fl offset backup header)"

definition nvram_commit ::
  "(cstr \<Rightarrow> u32) \<Rightarrow> 'f mtd option \<Rightarrow> bool \<Rightarrow> nvram \<Rightarrow> 'f \<Rightarrow> (int \<times> nvram \<times> 'f) option" where
  "nvram_commit strtoul mtd in_interrupt s fl =
     (case mtd of
        None \<Rightarrow> Some (- ENODEV, s, fl)
      | Some m \<Rightarrow>
          if in_interrupt then Some (- EINVAL, s, fl)
          else
            (let erasesize = ROUNDUP NVRAM_SPACE (mtd_erasesize m) in
             case kmalloc s of
               (False, s) \<Rightarrow> Some (- ENOMEM, s, fl)
             | (True, s) \<Rightarrow>
                 (let i = erasesize - NVRAM_SPACE; offset = mtd_size m - erasesize;
                      (ret, backup) = (if 0 < i then mtd_read m fl offset i else (0, []))
                  in if ret \<noteq> 0 \<or> length backup \<noteq> i then Some (- EIO, s, fl)
                     else
                       (case write_all m (unlock m fl offset) (offset + i)
                               (htol32 NVRAM_CLEAR_MAGIC) of
                          (ret, fl) \<Rightarrow>
                            if ret \<noteq> 0 then Some (ret, s, fl)
                            else
                              (case nvram_commit0 strtoul s of
                                 None \<Rightarrow> None
                               | Some (ret, s, header) \<Rightarrow>
                                   if ret \<noteq> 0 then Some (ret, s, fl)
                                   else
                                     (case nvram_write_flash m fl offset backup header of
                                        (ret, fl) \<Rightarrow> Some (ret, s, fl)))))))"

section \<open>NOR flash\<close>

text \<open>Writing \<open>b\<close> at \<open>off\<close> clears bits.\<close>

definition program :: "u8 list \<Rightarrow> nat \<Rightarrow> u8 list \<Rightarrow> u8 list" where
  "program c off b = take off c @ map2 (AND) (drop off c) b @ drop (off + length b) c"

definition erased :: "u8 list \<Rightarrow> nat \<Rightarrow> nat \<Rightarrow> u8 list" where
  "erased c off n = take off c @ replicate n 0xFF @ drop (off + n) c"

definition nor_flash :: "'f mtd \<Rightarrow> ('f \<Rightarrow> u8 list) \<Rightarrow> bool" where
  "nor_flash m content \<longleftrightarrow>
     0 < mtd_erasesize m \<and> ROUNDUP NVRAM_SPACE (mtd_erasesize m) \<le> mtd_size m \<and>
     (\<forall>fl. length (content fl) = mtd_size m) \<and>
     (\<forall>fl off n ret b. off + n \<le> mtd_size m \<longrightarrow> mtd_read m fl off n = (ret, b) \<longrightarrow>
        ret = 0 \<longrightarrow> b = take n (drop off (content fl))) \<and>
     (\<forall>fl off b ret len fl'. off + length b \<le> mtd_size m \<longrightarrow> mtd_write m fl off b = (ret, len, fl') \<longrightarrow>
        (\<exists>k \<le> length b. content fl' = program (content fl) off (take k b) \<and>
           (ret = 0 \<and> len = length b \<longrightarrow> k = length b))) \<and>
     (\<forall>fl off ret fl'. off + mtd_erasesize m \<le> mtd_size m \<longrightarrow> mtd_erase m fl off = (ret, fl') \<longrightarrow>
        content fl' = erased (content fl) off (mtd_erasesize m) \<or>
        ret \<noteq> 0 \<and> content fl' = content fl) \<and>
     (\<forall>u fl off n. mtd_unlock m = Some u \<longrightarrow> content (u fl off n) = content fl)"

section \<open>Images\<close>

lemma length_htol32 [simp]: "length (htol32 w) = 4"
  by (simp add: htol32_def)

lemma le32_htol32: "le32 (htol32 w @ b) 0 = w"
proof -
  have "bit (le32 (htol32 w @ b) 0) n \<longleftrightarrow> bit w n" if "n < 32" for n
  proof -
    have n: "n < 8 \<or> (8 \<le> n \<and> n < 16) \<or> (16 \<le> n \<and> n < 24) \<or> (24 \<le> n \<and> n < 32)" using that by auto
    then show ?thesis
      by (auto simp: le32_def htol32_def bit_simps)
  qed
  then show ?thesis by (intro bit_word_eqI) simp
qed

lemma le32_append: "length a = i \<Longrightarrow> le32 (a @ b) i = le32 b 0"
  by (simp add: le32_def nth_append numeral_2_eq_2)

lemma header_of_bytes: "header_of (header_bytes h) = h"
proof -
  have split: "header_bytes h = (htol32 (h_magic h) @ htol32 (h_len h)) @ htol32 (h_crc_ver_init h) @
     htol32 (h_config_refresh h) @ htol32 (h_config_ncdl h) @ h_data h"
    "header_bytes h = (htol32 (h_magic h) @ htol32 (h_len h) @ htol32 (h_crc_ver_init h)) @
     htol32 (h_config_refresh h) @ htol32 (h_config_ncdl h) @ h_data h"
    "header_bytes h = (htol32 (h_magic h) @ htol32 (h_len h) @ htol32 (h_crc_ver_init h) @
     htol32 (h_config_refresh h)) @ htol32 (h_config_ncdl h) @ h_data h"
    by (simp_all add: header_bytes_def)
  have "le32 (header_bytes h) 0 = h_magic h" by (simp add: header_bytes_def le32_htol32)
  moreover have "le32 (header_bytes h) 4 = h_len h"
    unfolding header_bytes_def by (subst le32_append) (simp_all add: le32_htol32)
  moreover have "le32 (header_bytes h) 8 = h_crc_ver_init h"
    unfolding split(1) by (subst le32_append) (simp_all add: le32_htol32)
  moreover have "le32 (header_bytes h) 12 = h_config_refresh h"
    unfolding split(2) by (subst le32_append) (simp_all add: le32_htol32)
  moreover have "le32 (header_bytes h) 16 = h_config_ncdl h"
    unfolding split(3) by (subst le32_append) (simp_all add: le32_htol32)
  moreover have "drop 20 (header_bytes h) = h_data h" by (simp add: header_bytes_def)
  ultimately show ?thesis by (simp add: header_of_def)
qed

text \<open>The first and the last byte of a valid magic number.\<close>

lemma magic_byte:
  assumes "h_magic (header_of b) = NVRAM_MAGIC"
  shows "b ! 0 = 0x46" "b ! 3 = 0x48"
proof -
  have w: "le32 b 0 = 0x48534C46" using assms by (simp add: header_of_def)
  have "b ! 0 = ucast (le32 b 0)"
    by (rule bit_word_eqI) (auto simp: le32_def bit_simps dest: bit_imp_le_length)
  with w show "b ! 0 = 0x46" by simp
  have "b ! 3 = ucast (drop_bit 24 (le32 b 0))"
    by (rule bit_word_eqI) (auto simp: le32_def bit_simps dest: bit_imp_le_length)
  with w show "b ! 3 = 0x48" by simp
qed

section \<open>Effects on the contents\<close>

lemma program_nth:
  assumes "off + length b \<le> length c"
  shows "length (program c off b) = length c"
    "i < length c \<Longrightarrow> program c off b ! i =
       (if off \<le> i \<and> i < off + length b then c ! i AND b ! (i - off) else c ! i)"
  using assms by (auto simp: program_def nth_append)

lemma erased_nth:
  assumes "off + n \<le> length c"
  shows "length (erased c off n) = length c"
    "i < length c \<Longrightarrow> erased c off n ! i = (if off \<le> i \<and> i < off + n then 0xFF else c ! i)"
  using assms by (auto simp: erased_def nth_append)

lemma erased_erased:
  "off + n + k \<le> length c \<Longrightarrow> erased (erased c off n) (off + n) k = erased c off (n + k)"
  by (rule nth_equalityI) (auto simp: erased_nth)

lemma erased_0 [simp]: "erased c off 0 = c"
  by (simp add: erased_def)

lemma nor_flashD:
  assumes "nor_flash m content"
  shows "0 < mtd_erasesize m" "ROUNDUP NVRAM_SPACE (mtd_erasesize m) \<le> mtd_size m"
    "length (content fl) = mtd_size m"
    "off + n \<le> mtd_size m \<Longrightarrow> mtd_read m fl off n = (ret, b) \<Longrightarrow> ret = 0 \<Longrightarrow>
       b = take n (drop off (content fl))"
    "off + mtd_erasesize m \<le> mtd_size m \<Longrightarrow> mtd_erase m fl off = (ret, fl') \<Longrightarrow>
       content fl' = erased (content fl) off (mtd_erasesize m) \<or> ret \<noteq> 0 \<and> content fl' = content fl"
    "content (unlock m fl off) = content fl"
  using assms unfolding nor_flash_def by (blast, blast, blast, blast, blast, auto simp: unlock_def split: option.splits)

lemma write_all_effect:
  assumes "nor_flash m content" "off + length b \<le> mtd_size m" "write_all m fl off b = (ret, fl')"
  shows "\<exists>k. content fl' = program (content fl) off (take k b) \<and> (ret = 0 \<longrightarrow> k = length b)"
proof -
  obtain r len f where w: "mtd_write m fl off b = (r, len, f)" by (metis prod_cases3)
  with assms(3) have f: "f = fl'" "ret = 0 \<Longrightarrow> r = 0 \<and> len = length b"
    by (auto simp: write_all_def split: if_splits)
  from w assms(1,2) obtain k where "k \<le> length b" "content f = program (content fl) off (take k b)"
    "r = 0 \<and> len = length b \<longrightarrow> k = length b"
    unfolding nor_flash_def by meson
  with f show ?thesis by blast
qed

lemma erase_blocks_effect:
  assumes nor: "nor_flash m content"
  shows "offset + n * mtd_erasesize m \<le> mtd_size m \<Longrightarrow> lim \<le> offset + n * mtd_erasesize m \<Longrightarrow>
    erase_blocks m fl offset lim = (ret, fl') \<Longrightarrow>
    \<exists>j \<le> n. content fl' = erased (content fl) offset (j * mtd_erasesize m) \<and>
      (ret = 0 \<longrightarrow> lim \<le> offset + j * mtd_erasesize m)"
proof (induction n arbitrary: offset fl)
  case 0
  then show ?case by (subst (asm) erase_blocks.simps) simp
next
  case (Suc n)
  let ?e = "mtd_erasesize m"
  show ?case
  proof (cases "offset < lim")
    case False
    with Suc.prems(3) have "ret = 0" "fl' = fl" by (simp_all add: erase_blocks.simps)
    with False show ?thesis by (intro exI [of _ 0]) simp
  next
    case True
    obtain r f where e: "mtd_erase m (unlock m fl offset) offset = (r, f)" by fastforce
    have "offset + ?e \<le> mtd_size m" using Suc.prems(1) by simp
    from nor_flashD(5) [OF nor this e] nor_flashD(6) [OF nor]
    have f: "content f = erased (content fl) offset ?e \<or> r \<noteq> 0 \<and> content f = content fl" by simp
    show ?thesis
    proof (cases "r = 0")
      case False
      then have "ret \<noteq> 0" "fl' = f"
        using Suc.prems(3) True e nor_flashD(1) [OF nor] by (auto simp: erase_blocks.simps [of m fl])
      with f show ?thesis
        by (metis One_nat_def Suc_le_mono erased_0 le0 mult.left_neutral mult_zero_left)
    next
      case r: True
      then have run: "erase_blocks m f (offset + ?e) lim = (ret, fl')"
        using Suc.prems(3) True e nor_flashD(1) [OF nor] by (simp add: erase_blocks.simps [of m fl])
      from Suc.IH [of "offset + ?e", OF _ _ run] Suc.prems(1,2)
      obtain j where j: "j \<le> n" "content fl' = erased (content f) (offset + ?e) (j * ?e)"
        "ret = 0 \<longrightarrow> lim \<le> offset + ?e + j * ?e" by (auto simp: algebra_simps)
      have "offset + ?e + n * ?e \<le> length (content fl)"
        using Suc.prems(1) nor_flashD(3) [OF nor, of fl] by simp
      with mult_le_mono1 [OF j(1), of ?e] have "offset + ?e + j * ?e \<le> length (content fl)"
        by linarith
      with f r j have "content fl' = erased (content fl) offset (Suc j * ?e)"
        by (simp add: erased_erased)
      with j show ?thesis by (intro exI [of _ "Suc j"]) (simp add: algebra_simps)
    qed
  qed
qed

text \<open>What the last stage of a commit leaves in the flash: the image behind the old backup, or a
  region that is not a valid image.\<close>

definition stored :: "nat \<Rightarrow> u8 list \<Rightarrow> nvram_header \<Rightarrow> u8 list \<Rightarrow> u8 list \<Rightarrow> bool" where
  "stored offset backup header c c' \<longleftrightarrow>
     take offset c' = take offset c \<and>
     take (length backup + unat (h_len header)) (drop offset c') =
       backup @ take (unat (h_len header)) (header_bytes header)"

definition broken :: "nat \<Rightarrow> u8 list \<Rightarrow> bool" where
  "broken base c \<longleftrightarrow> c ! base \<noteq> 0x46 \<or> c ! (base + 3) \<noteq> 0x48"

lemma htol32_consts: "htol32 0xFFFFFFFF = [0xFF, 0xFF, 0xFF, 0xFF]"
  "htol32 0x48534C46 = [0x46, 0x4C, 0x53, 0x48]" "htol32 0 = [0, 0, 0, 0]"
  by (simp_all add: htol32_def)

lemma and_FF [simp]: "0xFF AND (x :: u8) = x"
proof -
  have "(0xFF :: u8) = - 1" by simp
  then show ?thesis by (simp only: and_eq_not_not_or) simp
qed

lemma two_writes:
  fixes c :: "u8 list" and k1 k2 :: nat and m0 m1 m2 m3 :: u8
  assumes c: "\<forall>x. offset \<le> x \<and> x < offset + length b + length d + 4 \<longrightarrow> c ! x = 0xFF"
    and len: "offset + length b + length d + 4 \<le> length c"
  defines "c1 \<equiv> program c offset (take k1 (b @ [0xFF, 0xFF, 0xFF, 0xFF] @ d))"
  defines "c2 \<equiv> program c1 (offset + length b) (take k2 [m0, m1, m2, m3])"
  shows "c1 ! (offset + length b) = 0xFF"
    "length b + length d + 4 \<le> k1 \<Longrightarrow> k2 < 4 \<Longrightarrow> c2 ! (offset + length b + 3) = 0xFF"
    "length b + length d + 4 \<le> k1 \<Longrightarrow> 4 \<le> k2 \<Longrightarrow> take offset c2 = take offset c \<and>
       take (length b + length d + 4) (drop offset c2) = b @ [m0, m1, m2, m3] @ d"
proof -
  define B where "B = b @ [0xFF, 0xFF, 0xFF, 0xFF] @ d"
  have lB: "length B = length b + length d + 4" by (simp add: B_def)
  have l1: "offset + length (take k1 B) \<le> length c" using len by (simp add: lB)
  note n1 = program_nth [OF l1, folded c1_def [folded B_def]]
  have l2: "offset + length b + length (take k2 [m0, m1, m2, m3]) \<le> length c1"
    using len n1(1) by (simp add: min_def)
  note n2 = program_nth [OF l2, folded c2_def]
  have ff: "B ! x = 0xFF" if "length b \<le> x" "x < length b + 4" for x
  proof -
    have "x - length b \<in> {0, 1, 2, 3}" using that by auto
    with that show ?thesis by (auto simp: B_def nth_append)
  qed
  have c1: "c1 ! x = (if x - offset < k1 then B ! (x - offset) else 0xFF)"
    if "offset \<le> x" "x < offset + length b + length d + 4" for x
    using that c len by (auto simp: n1 lB)
  show "c1 ! (offset + length b) = 0xFF" using c1 [of "offset + length b"] ff [of "length b"] by auto
  show "c2 ! (offset + length b + 3) = 0xFF" if "length b + length d + 4 \<le> k1" "k2 < 4"
    using that c1 [of "offset + length b + 3"] ff [of "length b + 3"] len n1(1)
    by (auto simp: n2)
  assume k: "length b + length d + 4 \<le> k1" "4 \<le> k2"
  have "take offset c2 = take offset c"
    by (rule nth_equalityI) (use len n1 n2 in auto)
  moreover have "take (length b + length d + 4) (drop offset c2) = b @ [m0, m1, m2, m3] @ d"
  proof (rule nth_equalityI)
    show "length (take (length b + length d + 4) (drop offset c2)) = length (b @ [m0, m1, m2, m3] @ d)"
      using len n1(1) n2(1) by simp
    fix i
    assume "i < length (take (length b + length d + 4) (drop offset c2))"
    then have i: "i < length b + length d + 4" by simp
    have e: "take (length b + length d + 4) (drop offset c2) ! i = c2 ! (offset + i)"
      using i len n1(1) n2(1) by simp
    have b1: "c1 ! (offset + i) = B ! i" using c1 [of "offset + i"] i k by simp
    show "take (length b + length d + 4) (drop offset c2) ! i = (b @ [m0, m1, m2, m3] @ d) ! i"
    proof (cases "length b \<le> i \<and> i < length b + 4")
      case True
      then have "c2 ! (offset + i) = 0xFF AND [m0, m1, m2, m3] ! (i - length b)"
        using b1 ff [of i] i len n1(1) k by (simp add: n2)
      moreover have "i - length b \<in> {0, 1, 2, 3}" using True by auto
      ultimately show ?thesis using e True by (auto simp: nth_append)
    next
      case False
      then have "c2 ! (offset + i) = B ! i"
        using b1 i len n1(1) by (auto simp: n2)
      with e False show ?thesis by (auto simp: B_def nth_append)
    qed
  qed
  ultimately show "take offset c2 = take offset c \<and>
    take (length b + length d + 4) (drop offset c2) = b @ [m0, m1, m2, m3] @ d" by blast
qed

lemma write_image_effect:
  assumes nor: "nor_flash m content"
    and fit: "offset + length backup + unat (h_len h) \<le> mtd_size m"
    and h: "h_magic h = NVRAM_MAGIC" "NVRAM_HEADER_SIZE \<le> unat (h_len h)"
      "unat (h_len h) \<le> length (header_bytes h)"
    and ff: "\<And>x. offset \<le> x \<Longrightarrow> x < offset + length backup + unat (h_len h) \<Longrightarrow> content fl ! x = 0xFF"
    and run: "write_image m fl offset backup h = (ret, fl')"
  shows "(broken (offset + length backup) (content fl') \<and> ret \<noteq> 0) \<or>
    stored offset backup h (content fl) (content fl')"
proof -
  let ?base = "offset + length backup" let ?len = "unat (h_len h)"
  define d where "d = take (?len - 4) (drop 4 (header_bytes h))"
  let ?b1 = "backup @ [0xFF, 0xFF, 0xFF, 0xFF] @ d"
  have img: "take ?len (header_bytes h) = [0x46, 0x4C, 0x53, 0x48] @ d"
    using h(1,2) by (simp add: header_bytes_def htol32_consts d_def take_Cons' split: if_splits)
  have blank: "take (length backup + ?len)
      (backup @ header_bytes (h\<lparr>h_magic := NVRAM_INVALID_MAGIC\<rparr>)) = ?b1"
    using h(2) by (simp add: header_bytes_def htol32_consts d_def take_Cons' split: if_splits)
  have d: "length d + 4 = ?len" using h(2,3) by (simp add: d_def)
  have end1: "offset + length backup + length d + 4 = ?base + ?len" using d by simp
  obtain r2 f2 where w1: "write_all m fl offset ?b1 = (r2, f2)" by fastforce
  have fit1: "offset + length ?b1 \<le> mtd_size m" using d fit by simp
  obtain k1 where k1: "content f2 = program (content fl) offset (take k1 ?b1)"
    "r2 = 0 \<Longrightarrow> k1 = length ?b1" using write_all_effect [OF nor fit1 w1] by blast
  have k1': "r2 = 0 \<Longrightarrow> length backup + length d + 4 \<le> k1" using k1(2) by simp
  have room: "offset + length backup + length d + 4 \<le> length (content fl)"
    unfolding end1 using fit nor_flashD(3) [OF nor, of fl] by simp
  have ff': "\<forall>x. offset \<le> x \<and> x < offset + length backup + length d + 4 \<longrightarrow> content fl ! x = 0xFF"
    unfolding end1 using ff by simp
  note two = two_writes [where c = "content fl" and ?k1.0 = k1, OF ff' room, folded k1(1)]
  show ?thesis
  proof (cases "r2 = 0")
    case False
    with run blank w1 have "fl' = f2" "ret \<noteq> 0" by (auto simp: write_image_def Let_def)
    with two(1) show ?thesis by (simp add: broken_def)
  next
    case r2: True
    obtain r3 f3 where w2: "write_all m f2 ?base (htol32 NVRAM_MAGIC) = (r3, f3)" by fastforce
    have fit2: "?base + length (htol32 NVRAM_MAGIC) \<le> mtd_size m" using fit d by simp
    obtain k2 where k2: "content f3 = program (content f2) ?base (take k2 (htol32 NVRAM_MAGIC))"
      "r3 = 0 \<Longrightarrow> k2 = length (htol32 NVRAM_MAGIC)" 
    using write_all_effect [OF nor fit2 w2] by blast
    have fl': "fl' = f3" "r3 \<noteq> 0 \<Longrightarrow> ret \<noteq> 0"
      using run blank w1 r2 w2 by (auto simp: write_image_def Let_def split: if_splits)
    show ?thesis
    proof (cases "4 \<le> k2")
      case False
      then have "ret \<noteq> 0" using k2(2) fl'(2) by auto
      moreover have "content f3 ! (?base + 3) = 0xFF"
        using two(2) [OF k1' [OF r2], of k2] False by (simp add: k2(1) htol32_consts)
      ultimately show ?thesis by (simp add: broken_def fl'(1))
    next
      case True
      from two(3) [OF k1' [OF r2] True] d
      have "stored offset backup h (content fl) (content f3)"
        by (simp add: k2(1) htol32_consts stored_def img add.assoc)
      then show ?thesis by (simp add: fl'(1))
    qed
  qed
qed

lemma write_flash_effect:
  assumes nor: "nor_flash m content"
    and off: "offset + length backup = mtd_size m - NVRAM_SPACE"
    and rnd: "ROUNDUP NVRAM_SPACE (mtd_erasesize m) = length backup + NVRAM_SPACE"
    and len: "NVRAM_HEADER_SIZE \<le> unat (h_len h)" "unat (h_len h) \<le> NVRAM_SPACE"
    and h: "h_magic h = NVRAM_MAGIC" "length (header_bytes h) = NVRAM_SPACE"
    and c: "content fl ! (offset + length backup) = 0"
    and run: "nvram_write_flash m fl offset backup h = (ret, fl')"
  shows "(broken (offset + length backup) (content fl') \<and> ret \<noteq> 0) \<or>
    stored offset backup h (content fl) (content fl')"
proof -
  let ?e = "mtd_erasesize m" let ?base = "offset + length backup" let ?len = "unat (h_len h)"
  define n where "n = (NVRAM_SPACE + (?e - 1)) div ?e"
  have ne: "n * ?e = length backup + NVRAM_SPACE" using rnd by (simp add: n_def ROUNDUP_def)
  have size: "?base + NVRAM_SPACE = mtd_size m" using off nor_flashD(2) [OF nor] rnd by simp
  have c_len: "length (content f) = mtd_size m" for f by (rule nor_flashD(3) [OF nor])
  obtain r1 f1 where er: "erase_blocks m fl offset (mtd_size m - NVRAM_SPACE + ?len) = (r1, f1)"
    by fastforce
  have "offset + n * ?e \<le> mtd_size m" "mtd_size m - NVRAM_SPACE + ?len \<le> offset + n * ?e"
    using ne size len(2) by simp_all
  from erase_blocks_effect [OF nor this er] obtain j where j: "j \<le> n"
    "content f1 = erased (content fl) offset (j * ?e)"
    "r1 = 0 \<longrightarrow> mtd_size m - NVRAM_SPACE + ?len \<le> offset + j * ?e" by blast
  have je: "offset + j * ?e \<le> length (content fl)"
    using mult_le_mono1 [OF j(1), of ?e] ne size c_len [of fl] by linarith
  note n1 = erased_nth [OF je, folded j(2)]
  show ?thesis
  proof (cases "r1 = 0")
    case False
    with run er have "fl' = f1" "ret \<noteq> 0" by (auto simp: nvram_write_flash_def)
    moreover have "content f1 ! ?base \<noteq> 0x46"
      using c size c_len [of fl] by (simp add: n1)
    ultimately show ?thesis by (simp add: broken_def)
  next
    case True
    have ff: "content f1 ! x = 0xFF" if "offset \<le> x" "x < offset + length backup + ?len" for x
    proof -
      have "x < offset + j * ?e" using that j(3) True size by linarith
      with that je show ?thesis by (simp add: n1)
    qed
    have "write_image m f1 offset backup h = (ret, fl')"
      using run er True by (simp add: nvram_write_flash_def)
    from write_image_effect [OF nor _ h(1) len(1) _ ff this] size len(2) h(2)
    have "(broken ?base (content fl') \<and> ret \<noteq> 0) \<or> stored offset backup h (content f1) (content fl')"
      by simp
    moreover have "take offset (content f1) = take offset (content fl)"
      by (rule nth_equalityI) (use n1 je in auto)
    ultimately show ?thesis by (simp add: stored_def)
  qed
qed

section \<open>A commit as a whole\<close>

lemma commit_total:
  assumes "names_ok s"
  obtains s' where "nvram_commit0 f s = Some (0, s', nvram_regen f s)"
proof -
  let ?h = "nvram_regen f s"
  obtain k where data: "h_data ?h = flat (map entry (committed s)) @ 0 # replicate k 0"
    using regen_data(1) by blast
  have same: "?h\<lparr>h_data := (h_data ?h)[data_end := 0, data_end + 1 := 0]\<rparr> = ?h"
    by (simp add: regen_data(4) del: One_nat_def)
  have "parse_env (h_data ?h) = Some (committed s)"
    unfolding data by (rule parse_env_flat [OF committed_ok [OF assms]])
  then show thesis
    using that by (simp add: nvram_commit0_def nvram_rehash_def same Let_def del: One_nat_def)
qed

lemma regen_header:
  "h_magic (nvram_regen f s) = NVRAM_MAGIC"
  "length (header_bytes (nvram_regen f s)) = NVRAM_SPACE"
  "length (flat (map entry (committed s))) + 22 \<le> unat (h_len (nvram_regen f s))"
  "unat (h_len (nvram_regen f s)) \<le> NVRAM_SPACE"
proof -
  let ?n = "NVRAM_SPACE - NVRAM_HEADER_SIZE" let ?pos = "length (flat (map entry (committed s)))"
  show "h_magic (nvram_regen f s) = NVRAM_MAGIC"
    by (simp add: nvram_regen_def Let_def split: prod.split)
  show "length (header_bytes (nvram_regen f s)) = NVRAM_SPACE"
    using regen_data(3) [of f s] by (simp add: header_bytes_def data_end_val)
  have "data_end \<le> ?n" by (simp add: data_end_def)
  from commit_buckets_taken [OF this, of "[]" s "nv_hash s"]
  have run: "snd (foldl (\<lambda>acc ts. commit_bucket s ts acc) (replicate ?n 0, 0) (nv_hash s)) = ?pos"
    by (simp add: Let_def committed_taken)
  have pos: "?pos \<le> 32746" using regen_data(2) [of s] by (simp add: data_end_val)
  have "h_len (nvram_regen f s) = of_nat (ROUNDUP (NVRAM_HEADER_SIZE + ?pos + 2) 4)"
    unfolding run [symmetric] by (simp add: nvram_regen_def Let_def split: prod.split)
  moreover have rnd: "?pos + 22 \<le> ROUNDUP (NVRAM_HEADER_SIZE + ?pos + 2) 4"
    "ROUNDUP (NVRAM_HEADER_SIZE + ?pos + 2) 4 \<le> 32768"
    using pos by (simp_all add: ROUNDUP_def)
  ultimately show "?pos + 22 \<le> unat (h_len (nvram_regen f s))"
    "unat (h_len (nvram_regen f s)) \<le> NVRAM_SPACE"
    by (simp_all add: unat_of_nat_u32)
qed

lemma nor_size:
  assumes nor: "nor_flash m content"
  shows "NVRAM_SPACE \<le> ROUNDUP NVRAM_SPACE (mtd_erasesize m)" "NVRAM_SPACE \<le> mtd_size m"
proof -
  have "0 < mtd_erasesize m" by (rule nor_flashD(1) [OF nor])
  then show "NVRAM_SPACE \<le> ROUNDUP NVRAM_SPACE (mtd_erasesize m)"
    using div_mod_decomp [of "NVRAM_SPACE + (mtd_erasesize m - 1)" "mtd_erasesize m"]
      mod_less_divisor [of "mtd_erasesize m" "NVRAM_SPACE + (mtd_erasesize m - 1)"]
    unfolding ROUNDUP_def by linarith
  then show "NVRAM_SPACE \<le> mtd_size m" using nor_flashD(2) [OF nor] by simp
qed

lemma stored_region:
  assumes "stored offset backup h c c'" "offset + length backup \<le> length c'"
    and "backup = take (length backup) (drop offset c)"
  shows "take (unat (h_len h)) (drop (offset + length backup) c') = take (unat (h_len h)) (header_bytes h)"
    "take (offset + length backup) c' = take (offset + length backup) c"
proof -
  let ?i = "length backup" let ?len = "unat (h_len h)"
  have t: "take offset c' = take offset c" "take (?i + ?len) (drop offset c') =
       backup @ take ?len (header_bytes h)"
    using assms(1) by (simp_all add: stored_def)
  have "take ?len (drop (offset + ?i) c') = drop ?i (take (?i + ?len) (drop offset c'))"
    by (simp add: drop_take add.commute)
  with t(2) show "take ?len (drop (offset + ?i) c') = take ?len (header_bytes h)" by simp
  have "take ?i (drop offset c') = take ?i (take (?i + ?len) (drop offset c'))" by simp
  with t(2) have "take ?i (drop offset c') = backup" by simp
  then show "take (offset + ?i) c' = take (offset + ?i) c"
    using t(1) assms(3) by (simp add: take_add)
qed

text \<open>The region of the NVRAM in the contents of the flash, and when a reader takes it for valid.\<close>

definition nvram_region :: "'f mtd \<Rightarrow> u8 list \<Rightarrow> u8 list" where
  "nvram_region m c = drop (mtd_size m - NVRAM_SPACE) c"

definition valid_image :: "u8 list \<Rightarrow> bool" where
  "valid_image b \<longleftrightarrow> h_magic (header_of b) = NVRAM_MAGIC"

definition has_image :: "nvram_header \<Rightarrow> u8 list \<Rightarrow> bool" where
  "has_image h b \<longleftrightarrow> take (unat (h_len h)) b = take (unat (h_len h)) (header_bytes h)"

lemma broken_invalid:
  assumes "broken base c" "base + 3 < length c"
  shows "\<not> valid_image (drop base c)"
proof
  assume "valid_image (drop base c)"
  from magic_byte [OF this [unfolded valid_image_def]] assms show False by (simp add: broken_def)
qed

text \<open>A region that is what it was, is no valid image, or holds the new image; a commit that
  succeeds stores it and leaves the rest of the flash alone.\<close>

definition commit_outcome ::
  "'f mtd \<Rightarrow> nvram_header \<Rightarrow> int \<Rightarrow> u8 list \<Rightarrow> u8 list \<Rightarrow> bool" where
  "commit_outcome m h ret c c' \<longleftrightarrow>
     (nvram_region m c' = nvram_region m c \<or> \<not> valid_image (nvram_region m c') \<or>
      has_image h (nvram_region m c')) \<and>
     (ret = 0 \<longrightarrow> has_image h (nvram_region m c') \<and>
        take (mtd_size m - NVRAM_SPACE) c' = take (mtd_size m - NVRAM_SPACE) c)"

lemma commit_effect:
  assumes nor: "nor_flash m content" and names: "names_ok s"
    and run: "nvram_commit f (Some m) intr s fl = Some (ret, s', fl')"
  shows "commit_outcome m (nvram_regen f s) ret (content fl) (content fl')"
proof -
  let ?h = "nvram_regen f s"
  define erasesize where "erasesize = ROUNDUP NVRAM_SPACE (mtd_erasesize m)"
  define i where "i = erasesize - NVRAM_SPACE"
  define offset where "offset = mtd_size m - erasesize"
  have es: "NVRAM_SPACE \<le> erasesize" "erasesize \<le> mtd_size m"
    using nor_size(1) [OF nor] nor_flashD(2) [OF nor] by (simp_all add: erasesize_def)
  have base: "offset + i = mtd_size m - NVRAM_SPACE" "offset + i + NVRAM_SPACE = mtd_size m"
    using es by (simp_all add: offset_def i_def)
  have c_len: "length (content f) = mtd_size m" for f by (rule nor_flashD(3) [OF nor])
  have same: "commit_outcome m ?h ret (content fl) (content fl')" if "ret \<noteq> 0" "content fl' = content fl"
    using that by (simp add: commit_outcome_def)
  have bad: "commit_outcome m ?h ret (content fl) (content fl')"
    if "ret \<noteq> 0" "broken (offset + i) (content fl')"
    using that broken_invalid [OF that(2)] base c_len by (simp add: commit_outcome_def nvram_region_def)
  obtain b s1 where k: "kmalloc s = (b, s1)" by fastforce
  then obtain k1 where s1: "s1 = s\<lparr>nv_kmalloc := k1\<rparr>" using kmalloc_frame by blast
  obtain r0 backup where rd: "(if 0 < i then mtd_read m fl offset i else (0, [])) = (r0, backup)"
    by fastforce
  note run' = run [unfolded nvram_commit_def Let_def option.case, folded erasesize_def,
      folded i_def offset_def, unfolded k rd prod.case]
  consider "intr \<or> \<not> b \<or> r0 \<noteq> 0 \<or> length backup \<noteq> i" | "\<not> intr" b "r0 = 0" "length backup = i" by blast
  then show ?thesis
  proof cases
    case 1
    with run' have "ret \<noteq> 0" "fl' = fl" by (auto split: if_splits bool.splits)
    with same show ?thesis by simp
  next
    case 2
    have backup: "backup = take (length backup) (drop offset (content fl))"
      using nor_flashD(4) [OF nor, of offset i fl r0 backup] rd 2 base by (auto split: if_splits)
    obtain r1 f1 where w: "write_all m (unlock m fl offset) (offset + i) (htol32 0) = (r1, f1)"
      by fastforce
    have "offset + i + length (htol32 0) \<le> mtd_size m" using base by simp
    from write_all_effect [OF nor this w] obtain n1 where
      e: "content f1 = program (content (unlock m fl offset)) (offset + i) (take n1 (htol32 0))"
        "r1 = 0 \<longrightarrow> n1 = length (htol32 0)" by blast
    have n1: "content f1 = program (content fl) (offset + i) (take n1 [0, 0, 0, 0])"
      "r1 = 0 \<longrightarrow> n1 = 4" using e nor_flashD(6) [OF nor] by (simp_all add: htol32_consts)
    have len1: "offset + i + length (take n1 [0, 0, 0, 0 :: u8]) \<le> length (content fl)"
    proof -
      have "length (take n1 [0, 0, 0, 0 :: u8]) \<le> 4" by simp
      with base(2) c_len [of fl] show ?thesis by linarith
    qed
    have cleared: "content f1 ! (offset + i) = 0" if "0 < n1"
    proof -
      have "offset + i < length (content fl)" using base(2) c_len [of fl] by linarith
      with program_nth(2) [OF len1 this] that show ?thesis by (simp add: n1(1))
    qed
    have "take offset (content f1) = take offset (content fl)"
      by (rule nth_equalityI) (use program_nth [OF len1] n1(1) len1 in auto)
    note head = this
    obtain s2 where com: "nvram_commit0 f s1 = Some (0, s2, ?h)"
      using commit_total [of s1 f] names s1 by auto
    obtain r2 f2 where wf: "nvram_write_flash m f1 offset backup ?h = (r2, f2)" by fastforce
    have res: "ret = (if r1 \<noteq> 0 then r1 else r2)" "fl' = (if r1 \<noteq> 0 then f1 else f2)"
      using run' 2 w com wf by auto
    show ?thesis
    proof (cases "r1 = 0")
      case False
      show ?thesis
      proof (cases n1)
        case 0
        with False res same n1(1) show ?thesis by (simp add: program_def)
      next
        case (Suc n)
        with cleared bad False res show ?thesis by (simp add: broken_def)
      qed
    next
      case True
      have "(broken (offset + i) (content fl') \<and> ret \<noteq> 0) \<or>
          stored offset backup ?h (content f1) (content fl')"
        using write_flash_effect [OF nor _ _ _ _ regen_header(1,2) _ wf] 2(4) base(1) es
          regen_header(3) [of s f] regen_header(4) [of f s] cleared n1(2) True res
        by (simp add: erasesize_def [symmetric] i_def)
      then show ?thesis
      proof
        assume "broken (offset + i) (content fl') \<and> ret \<noteq> 0"
        with bad show ?thesis by blast
      next
        assume "stored offset backup ?h (content f1) (content fl')"
        then have st: "stored offset backup ?h (content fl) (content fl')"
          using head by (simp add: stored_def)
        have "offset + length backup \<le> length (content fl')" using base c_len 2(4) by simp
        from stored_region [OF st this backup] 2(4) base(1) show ?thesis
          by (simp add: commit_outcome_def has_image_def nvram_region_def)
      qed
    qed
  qed
qed

section \<open>Reading the image back\<close>

lemma has_image_header:
  assumes img: "has_image (nvram_regen f s) b"
  shows "valid_image b"
    "\<exists>r. (h_data (header_of b))[data_end := 0, data_end + 1 := 0] =
      flat (map entry (committed s)) @ 0 # r"
proof -
  let ?h = "nvram_regen f s" let ?flat = "flat (map entry (committed s))"
  let ?len = "unat (h_len ?h)"
  note hdr = regen_header(1) [of f s] regen_header(3) [of s f]
  have nth: "b ! i = header_bytes ?h ! i" if "i < ?len" for i
    using img that nth_take [of i ?len b] nth_take [of i ?len "header_bytes ?h"]
    by (simp add: has_image_def)
  have "le32 b 0 = le32 (header_bytes ?h) 0"
    using hdr(2) by (simp add: le32_def nth)
  then show "valid_image b"
    using hdr(1) by (simp add: valid_image_def header_of_def header_bytes_def le32_htol32)
  obtain k where data: "h_data ?h = ?flat @ 0 # replicate k 0" using regen_data(1) by blast
  have "take (?len - 20) (drop 20 b) = take (?len - 20) (drop 20 (header_bytes ?h))"
    using img by (simp add: has_image_def flip: drop_take)
  moreover have "drop 20 (header_bytes ?h) = ?flat @ 0 # replicate k 0"
    by (simp add: header_bytes_def data)
  moreover have "take (length ?flat + 1) xs = take (length ?flat + 1) (take (?len - 20) xs)" for xs :: "u8 list"
    using hdr(2) by simp
  ultimately have "take (length ?flat + 1) (drop 20 b) = take (length ?flat + 1) (?flat @ 0 # replicate k 0)"
    by metis
  then have pre: "take (length ?flat + 1) (drop 20 b) = ?flat @ [0]" by simp
  define r where "r = drop (length ?flat + 1) (drop 20 b)"
  have b: "h_data (header_of b) = ?flat @ 0 # r"
    using append_take_drop_id [of "length ?flat + 1" "drop 20 b"] unfolding pre
    by (simp add: header_of_def r_def)
  have "length ?flat \<le> data_end" by (rule regen_data(2))
  then show "\<exists>r. (h_data (header_of b))[data_end := 0, data_end + 1 := 0] = ?flat @ 0 # r"
    unfolding b by (cases "data_end - length ?flat") (auto simp: list_update_append Suc_diff_le)
qed

lemma start_restores:
  assumes nor: "nor_flash m content" and ok: "nv_ok s" and names: "names_ok s"
    and img: "has_image (nvram_regen f s) (nvram_region m (content fl))"
    and read: "mtd_read m fl (mtd_size m - NVRAM_SPACE) NVRAM_SPACE = (0, b)"
    and s0: "nv_ok s0" "False \<notin> set (nv_kmalloc s0)"
  obtains s1 where "nvram_start (Some m) fl s0 = Some (0, s1)" "nv_ok s1"
    "\<And>n v. map_of (committed s) n = Some v \<Longrightarrow> nvram_get0 s1 n = Some v"
    "\<And>n. n \<notin> sdram_names \<Longrightarrow> nvram_get0 s1 n = map_of (committed s) n"
proof -
  have size: "NVRAM_SPACE \<le> mtd_size m"
    using nor_size [OF nor] by simp
  have b: "b = nvram_region m (content fl)"
    using nor_flashD(4) [OF nor _ read] nor_flashD(3) [OF nor, of fl] size
    by (simp add: nvram_region_def)
  then have len: "length b = NVRAM_SPACE" using nor_flashD(3) [OF nor, of fl] size
    by (simp add: nvram_region_def)
  note hd = has_image_header [OF img, folded b]
  then obtain r where data: "(h_data (header_of b))[data_end := 0, data_end + 1 := 0] =
      flat (map entry (committed s)) @ 0 # r" by blast
  have parse: "parse_env ((h_data (header_of b))[data_end := 0, data_end + 1 := 0]) = Some (committed s)"
    unfolding data by (rule parse_env_flat [OF committed_ok [OF names]])
  have sum: "sum_list (map (\<lambda>kv. length (snd kv) + 1) (committed s)) \<le> NVRAM_SPACE"
    using flat_entries_values [of "committed s"] regen_data(2) [of s] by (simp add: data_end_val)
  have dist: "v = w" if "(n, v) \<in> set (committed s)" "(n, w) \<in> set (committed s)" for n v w
    using committed_get [OF ok that(1)] committed_get [OF ok that(2)] by simp
  obtain q s' where k: "kmalloc s0 = (q, s')" by fastforce
  with s0(2) have q: "q" "False \<notin> set (nv_kmalloc s')"
    by (cases q; auto simp: kmalloc_def split: list.splits)+
  have ok': "nv_ok s'" using kmalloc_frame [OF k] s0(1) by auto
  have start: "nvram_start (Some m) fl s0 = map_option (\<lambda>(r, s, h). (0, s)) (nvram_rehash s' (header_of b))"
    using read len hd(1) k q(1) by (simp add: nvram_start_def nvram_read_def nvram_init0_def valid_image_def)
  show thesis
  proof (rule rehash_spec [OF ok' q(2) committed_ok [OF names] sum parse dist], goal_cases)
    case (3 s1)
    show ?case by (rule that [of s1]) (use 3 start in \<open>simp_all del: One_nat_def\<close>)
  qed
qed

section \<open>Properties\<close>

lemma commit_returns:
  assumes "names_ok s"
  shows "\<exists>ret s' fl'. nvram_commit f m intr s fl = Some (ret, s', fl')"
proof -
  obtain b s1 where k: "kmalloc s = (b, s1)" by fastforce
  have "names_ok s1" using kmalloc_frame [OF k] assms by auto
  then obtain s2 where "nvram_commit0 f s1 = Some (0, s2, nvram_regen f s1)"
    using commit_total by blast
  then show ?thesis
    by (auto simp: nvram_commit_def k Let_def split: option.split prod.split bool.split)
qed

text \<open>A flash in memory on which every operation succeeds.\<close>

definition ram_content :: "u8 list \<Rightarrow> u8 list" where
  "ram_content fl = take 0x10000 (fl @ replicate 0x10000 0)"

definition ram_mtd :: "u8 list mtd" where
  "ram_mtd = \<lparr>mtd_size = 0x10000, mtd_erasesize = 0x10000,
     mtd_read = (\<lambda>fl off n. (0, take n (drop off (ram_content fl)))),
     mtd_write = (\<lambda>fl off b. (0, length b, program (ram_content fl) off b)),
     mtd_erase = (\<lambda>fl off. (0, erased (ram_content fl) off 0x10000)),
     mtd_unlock = None\<rparr>"

lemma ram_content_id: "length c = 0x10000 \<Longrightarrow> ram_content c = c"
  by (simp add: ram_content_def)

lemma length_ram: "length (ram_content fl) = 0x10000"
  by (simp add: ram_content_def)

lemma nor_ram: "nor_flash ram_mtd ram_content"
proof -
  have w: "ram_content (program (ram_content fl) off b) = program (ram_content fl) off b"
    if "off + length b \<le> 0x10000" for fl off b
    using that by (intro ram_content_id) (simp add: program_nth length_ram)
  have e: "ram_content (erased (ram_content fl) off 0x10000) = erased (ram_content fl) off 0x10000"
    if "off + 0x10000 \<le> 0x10000" for fl off
    using that by (intro ram_content_id) (simp add: erased_nth length_ram)
  show ?thesis
    unfolding nor_flash_def using w e
    by (auto simp: ram_mtd_def ROUNDUP_def length_ram intro!: exI [of _ "length _"])
qed

lemma ram_erase: "fst (erase_blocks ram_mtd fl offset lim) = 0"
  by (induction ram_mtd fl offset lim rule: erase_blocks.induct)
    (subst erase_blocks.simps, simp add: ram_mtd_def unlock_def)

lemma ram_commit:
  "\<exists>s' fl'. nvram_commit f (Some ram_mtd) False nvram_initial fl = Some (0, s', fl')"
proof -
  have w: "write_all ram_mtd g off b = (0, program (ram_content g) off b)" for g off b
    by (simp add: write_all_def ram_mtd_def)
  have wi: "fst (write_image ram_mtd g off b h) = 0" for g off b h
    by (simp add: write_image_def w Let_def) (simp add: ram_mtd_def)
  have wf: "fst (nvram_write_flash ram_mtd g off b h) = 0" for g off b h
    using ram_erase wi by (simp add: nvram_write_flash_def split_beta)
  obtain s2 where "nvram_commit0 f nvram_initial = Some (0, s2, nvram_regen f nvram_initial)"
    using commit_total [OF names_ok_initial] by blast
  moreover have "kmalloc nvram_initial = (True, nvram_initial)"
    by (simp add: kmalloc_def nvram_initial_def)
  moreover have "mtd_read ram_mtd fl 0 0x8000 = (0, take 0x8000 (ram_content fl))"
    "mtd_erasesize ram_mtd = 0x10000" "mtd_size ram_mtd = 0x10000" by (simp_all add: ram_mtd_def)
  ultimately show ?thesis
    using wf by (auto simp: nvram_commit_def ROUNDUP_def w length_ram Let_def split_beta prod_eq_iff)
qed

text \<open>C3: A commit of a table of proper names always returns, and whichever operation of the flash
  fails, however far it got, it leaves the NVRAM region as it was, or without a valid magic
  number, or with the complete new image; it returns 0 only when the new image is stored and
  nothing before the region has changed.\<close>

theorem nvram_commit_atomic:
  assumes "nor_flash m content" "names_ok s"
  shows "\<exists>ret s' fl'. nvram_commit f (Some m) intr s fl = Some (ret, s', fl') \<and>
    (nvram_region m (content fl') = nvram_region m (content fl) \<or>
       \<not> valid_image (nvram_region m (content fl')) \<or>
       has_image (nvram_regen f s) (nvram_region m (content fl'))) \<and>
    (ret = 0 \<longrightarrow> has_image (nvram_regen f s) (nvram_region m (content fl')) \<and>
       take (mtd_size m - NVRAM_SPACE) (content fl') = take (mtd_size m - NVRAM_SPACE) (content fl))"
proof -
  obtain ret s' fl' where run: "nvram_commit f (Some m) intr s fl = Some (ret, s', fl')"
    using commit_returns [OF assms(2), of f "Some m" intr fl] by blast
  with commit_effect [OF assms run] show ?thesis unfolding commit_outcome_def by blast
qed

lemma nvram_commit_atomic_witness:
  "\<exists>ret s' fl'. nvram_commit (\<lambda>_. 0) (Some ram_mtd) False nvram_initial [] = Some (ret, s', fl')"
  using nvram_commit_atomic [OF nor_ram names_ok_initial, of "\<lambda>_. 0" False "[]"] by blast

text \<open>C37: After a commit that returned 0 the next start of the driver, when the flash can be read
  and memory can be allocated, finds every committed variable with its value, and no other but the
  SDRAM parameters.\<close>

theorem nvram_commit_persists:
  assumes "nor_flash m content" "nv_ok s" "names_ok s"
    and "nvram_commit f (Some m) intr s fl = Some (0, s', fl')"
    and "mtd_read m fl' (mtd_size m - NVRAM_SPACE) NVRAM_SPACE = (0, b)"
    and "nv_ok s0" "False \<notin> set (nv_kmalloc s0)"
  shows "\<exists>s1. nvram_start (Some m) fl' s0 = Some (0, s1) \<and> nv_ok s1 \<and>
    (\<forall>n v. map_of (committed s) n = Some v \<longrightarrow> nvram_get0 s1 n = Some v) \<and>
    (\<forall>n. n \<notin> sdram_names \<longrightarrow> nvram_get0 s1 n = map_of (committed s) n)"
proof -
  have "has_image (nvram_regen f s) (nvram_region m (content fl'))"
    using commit_effect [OF assms(1,3,4)] by (simp add: commit_outcome_def)
  from start_restores [OF assms(1-3) this assms(5-7)] show ?thesis by metis
qed

lemma nvram_commit_persists_witness:
  "\<exists>s' fl' s1. nvram_commit (\<lambda>_. 0) (Some ram_mtd) False nvram_initial [] = Some (0, s', fl') \<and>
    nvram_start (Some ram_mtd) fl' nvram_initial = Some (0, s1) \<and> nv_ok s1"
proof -
  obtain s' fl' where c: "nvram_commit (\<lambda>_. 0) (Some ram_mtd) False nvram_initial [] = Some (0, s', fl')"
    using ram_commit by blast
  have "mtd_read ram_mtd fl' (mtd_size ram_mtd - NVRAM_SPACE) NVRAM_SPACE =
      (0, take NVRAM_SPACE (drop 0x8000 (ram_content fl')))" by (simp add: ram_mtd_def)
  from nvram_commit_persists [OF nor_ram nv_ok_initial names_ok_initial c this nv_ok_initial
      kmalloc_initial] c
  show ?thesis by blast
qed

end
