(* ===== verification/NvramDev.thy ===== *)
theory NvramDev
  imports NvramFlash
begin

text \<open>
  The ways into the variable table: the character device of \<open>nvram_linux.c\<close>, the user-mode
  library \<open>package/nvram/src/nvram.c\<close> on top of it, and the kernel's \<open>getvar\<close> and early access.
  \<open>cfu\<close> and \<open>ctu\<close> say whether copying from and to user space succeeds, \<open>mem\<close> whether the user's
  \<open>malloc\<close> does. A result \<open>None\<close> is a read behind the end of a buffer. The device file is open
  and the buffer mapped, so an offset read from the device points into \<open>nv_buf\<close>.
\<close>

section \<open>The character device\<close>

abbreviation EFAULT :: int where "EFAULT \<equiv> 14"

text \<open>\<open>tmp\<close> has 100 bytes, longer requests are allocated.\<close>

definition alloc_name :: "nvram \<Rightarrow> nat \<Rightarrow> bool \<times> nvram" where
  "alloc_name s cnt = (if 100 < cnt then kmalloc s else (True, s))"

definition cstr_of :: "u8 list \<Rightarrow> cstr option" where
  "cstr_of b = (if 0 \<in> set b then Some (takeWhile (\<lambda>c. c \<noteq> 0) b) else None)"

definition dev_nvram_read ::
  "bool \<Rightarrow> bool \<Rightarrow> nvram \<Rightarrow> u8 list \<Rightarrow> nat \<Rightarrow> (int \<times> u8 list \<times> nvram) option" where
  "dev_nvram_read cfu ctu s ubuf cnt =
     (case alloc_name s cnt of
        (False, s) \<Rightarrow> Some (- ENOMEM, ubuf, s)
      | (True, s) \<Rightarrow>
          if \<not> cfu then Some (- EFAULT, ubuf, s)
          else
            (case cstr_of (take cnt ubuf) of
               None \<Rightarrow> None
             | Some name \<Rightarrow>
                 if name = [] then
                   (if \<not> ctu then Some (- EFAULT, ubuf, s)
                    else Some (int cnt, nvram_getall0 s cnt @ drop cnt ubuf, s))
                 else
                   (case nvram_find s name of
                      None \<Rightarrow> Some (0, ubuf, s)
                    | Some t \<Rightarrow>
                        if \<not> ctu then Some (- EFAULT, ubuf, s)
                        else Some (4, htol32 (of_nat (t_value t)) @ drop 4 ubuf, s))))"

text \<open>\<open>ret ? : count\<close>\<close>

definition or_count :: "int \<Rightarrow> nat \<Rightarrow> int" where
  "or_count ret cnt = (if ret \<noteq> 0 then ret else int cnt)"

definition dev_nvram_write ::
  "(cstr \<Rightarrow> u32) \<Rightarrow> bool \<Rightarrow> nvram \<Rightarrow> u8 list \<Rightarrow> nat \<Rightarrow> (int \<times> nvram) option" where
  "dev_nvram_write strtoul cfu s ubuf cnt =
     (case alloc_name s cnt of
        (False, s) \<Rightarrow> Some (- ENOMEM, s)
      | (True, s) \<Rightarrow>
          if \<not> cfu then Some (- EFAULT, s)
          else
            (case cstr_of (take cnt ubuf) of
               None \<Rightarrow> None
             | Some str \<Rightarrow>
                 (let name = takeWhile (\<lambda>c. c \<noteq> 0x3D) str in
                  if 0x3D \<in> set str
                  then map_option (\<lambda>(ret, s). (or_count ret cnt, s))
                         (nvram_set strtoul s name (drop (length name + 1) str))
                  else (case nvram_unset0 s name of
                          (ret, s) \<Rightarrow> Some (or_count ret cnt, s)))))"

section \<open>The user-mode library\<close>

text \<open>A system call that fails returns -1.\<close>

definition sysret :: "int \<Rightarrow> int" where
  "sysret r = (if r < 0 then -1 else r)"

definition user_nvram_get ::
  "bool \<Rightarrow> bool \<Rightarrow> bool \<Rightarrow> nvram \<Rightarrow> cstr \<Rightarrow> (cstr option \<times> nvram) option" where
  "user_nvram_get mem cfu ctu s name =
     (let cnt = length name + 1 in
      if 100 < cnt \<and> \<not> mem then Some (None, s)
      else
        (case dev_nvram_read cfu ctu s (name @ [0] @ replicate (100 - cnt) 0) cnt of
           None \<Rightarrow> None
         | Some (ret, off, s) \<Rightarrow>
             if sysret ret = 4 then Some (Some (cstr_at (nv_buf s) (unat (le32 off 0))), s)
             else Some (None, s)))"

definition user_nvram_set ::
  "(cstr \<Rightarrow> u32) \<Rightarrow> bool \<Rightarrow> bool \<Rightarrow> nvram \<Rightarrow> cstr \<Rightarrow> cstr option \<Rightarrow> (int \<times> nvram) option" where
  "user_nvram_set strtoul mem cfu s name val =
     (let buf = (case val of None \<Rightarrow> name @ [0] | Some v \<Rightarrow> name @ [0x3D] @ v @ [0]);
          cnt = length name + 1 + (case val of None \<Rightarrow> 0 | Some v \<Rightarrow> length v + 1)
      in if 100 < cnt \<and> \<not> mem then Some (- ENOMEM, s)
         else map_option (\<lambda>(ret, s). (if sysret ret = int cnt then 0 else sysret ret, s))
                (dev_nvram_write strtoul cfu s buf cnt))"

definition user_nvram_unset ::
  "(cstr \<Rightarrow> u32) \<Rightarrow> bool \<Rightarrow> bool \<Rightarrow> nvram \<Rightarrow> cstr \<Rightarrow> (int \<times> nvram) option" where
  "user_nvram_unset strtoul mem cfu s name = user_nvram_set strtoul mem cfu s name None"

section \<open>Early access and \<open>getvar\<close>\<close>

text \<open>\<open>early_nvram_getall\<close> from its loop on: \<open>d\<close> is the data area of the buffer.\<close>

function early_getall_loop :: "u8 list \<Rightarrow> nat \<Rightarrow> u8 list \<times> nat \<Rightarrow> u8 list option" where
  "early_getall_loop d cnt (buf, len) =
     (case d of
        [] \<Rightarrow> None
      | c # _ \<Rightarrow>
          if c = 0 then Some buf
          else (let var = takeWhile (\<lambda>c. c \<noteq> 0) d in
                if cnt - len \<le> length var + 1 then Some buf
                else early_getall_loop (drop (length var + 1) d) cnt
                       (strcpy buf len var, len + length var + 1)))"
  by pat_completeness auto
termination
  by (relation "measure (\<lambda>(d, cnt, buf, len). length d)") auto

declare early_getall_loop.simps [simp del]

definition early_nvram_getall :: "u8 list \<Rightarrow> nat \<Rightarrow> u8 list option" where
  "early_nvram_getall data cnt =
     early_getall_loop (data[data_end := 0, data_end + 1 := 0]) cnt (replicate cnt 0, 0)"

text \<open>The search of \<open>getvar\<close> through \<open>vars\<close>, then through the NVRAM (\<open>get\<close>).\<close>

function getvar_search :: "u8 list \<Rightarrow> cstr \<Rightarrow> cstr option option" where
  "getvar_search d name =
     (case d of
        [] \<Rightarrow> None
      | c # _ \<Rightarrow>
          if c = 0 then Some None
          else if take (length name + 1) d = name @ [0x3D]
          then Some (Some (takeWhile (\<lambda>c. c \<noteq> 0) (drop (length name + 1) d)))
          else getvar_search (drop (length (takeWhile (\<lambda>c. c \<noteq> 0) d) + 1) d) name)"
  by pat_completeness auto
termination
  by (relation "measure (\<lambda>(d, name). length d)") auto

declare getvar_search.simps [simp del]

definition getvar :: "(cstr \<Rightarrow> cstr option) \<Rightarrow> u8 list option \<Rightarrow> cstr \<Rightarrow> cstr option option" where
  "getvar get vars name =
     (case vars of
        None \<Rightarrow> Some (get name)
      | Some d \<Rightarrow>
          (case getvar_search d name of
             None \<Rightarrow> None
           | Some None \<Rightarrow> Some (get name)
           | Some (Some v) \<Rightarrow> Some (Some v)))"

definition getintvar ::
  "(cstr \<Rightarrow> u32) \<Rightarrow> (cstr \<Rightarrow> cstr option) \<Rightarrow> u8 list option \<Rightarrow> cstr \<Rightarrow> u32 option" where
  "getintvar strtoul get vars name =
     map_option (\<lambda>r. case r of None \<Rightarrow> 0 | Some v \<Rightarrow> strtoul v) (getvar get vars name)"

section \<open>Lemmas\<close>

lemma cstr_of_text: "0 \<notin> set x \<Longrightarrow> cstr_of (x @ 0 # r) = Some x"
proof -
  assume "0 \<notin> set x"
  then have "\<forall>c \<in> set x. c \<noteq> 0" by auto
  then show ?thesis by (simp add: cstr_of_def)
qed

lemma alloc_name_ok:
  assumes "100 < cnt \<longrightarrow> False \<notin> set (nv_kmalloc s)"
  obtains k where "alloc_name s cnt = (True, s\<lparr>nv_kmalloc := k\<rparr>)"
    "False \<notin> set (nv_kmalloc s) \<Longrightarrow> False \<notin> set k"
proof -
  let ?k = "if 100 < cnt then tl (nv_kmalloc s) else nv_kmalloc s"
  show thesis
  proof (rule that [of ?k])
    show "alloc_name s cnt = (True, s\<lparr>nv_kmalloc := ?k\<rparr>)"
      "False \<notin> set (nv_kmalloc s) \<Longrightarrow> False \<notin> set ?k"
      using assms by (cases "nv_kmalloc s"; auto simp: alloc_name_def kmalloc_def)+
  qed
qed

lemma user_get_value:
  assumes "nv_ok s" "name \<noteq> []" "0 \<notin> set name"
    and "100 < length name + 1 \<longrightarrow> mem \<and> False \<notin> set (nv_kmalloc s)" "nvram_get0 s name = Some v"
  shows "\<exists>s'. user_nvram_get mem True True s name = Some (Some v, s')"
proof -
  let ?cnt = "length name + 1"
  obtain k where k: "alloc_name s ?cnt = (True, s\<lparr>nv_kmalloc := k\<rparr>)"
    using alloc_name_ok [of ?cnt s] assms(4) by blast
  obtain t where t: "nvram_find s name = Some t" "cstr_at (nv_buf s) (t_value t) = v"
    using assms(5) by (auto simp: nvram_get0_def)
  have "value_ok s t" by (rule nvram_find_Some(3) [OF assms(1) t(1)])
  with assms(1) have "t_value t < 2 ^ 32" by (simp add: value_ok_def nv_ok_def)
  then have "unat (of_nat (t_value t) :: u32) = t_value t" by (rule unat_of_nat_u32)
  moreover have "cstr_of (take ?cnt (name @ [0] @ replicate (100 - ?cnt) 0)) = Some name"
    using cstr_of_text [OF assms(3), of "[]"] by simp
  ultimately show ?thesis
    using k t assms(2,4) by (simp add: user_nvram_get_def dev_nvram_read_def le32_htol32 sysret_def)
qed

lemma user_set_ok:
  assumes "nv_ok s" "names_ok s" "False \<notin> set (nv_kmalloc s)" "name_ok name" "0 \<notin> set v"
    and "sum_list (map (\<lambda>w. length w + 1) (map snd (committed s) @ [v])) + 32 \<le> NVRAM_SPACE"
    and "100 < length name + length v + 2 \<longrightarrow> mem"
  shows "\<exists>s'. user_nvram_set f mem True s name (Some v) = Some (0, s') \<and> nv_ok s' \<and>
    nvram_get0 s' name = Some v \<and>
    (\<forall>n w. n \<noteq> name \<and> map_of (committed s) n = Some w \<longrightarrow> nvram_get0 s' n = Some w)"
proof -
  let ?cnt = "length name + 1 + (length v + 1)" let ?buf = "name @ [0x3D] @ v @ [0]"
  obtain k where k: "alloc_name s ?cnt = (True, s\<lparr>nv_kmalloc := k\<rparr>)" "False \<notin> set k"
    using alloc_name_ok [of ?cnt s] assms(3) by blast
  have nul: "0 \<notin> set (entry (name, v))" "0 \<notin> set name"
    using assms(4,5) by (auto simp: entry_def name_ok_def)
  have str: "cstr_of (take ?cnt ?buf) = Some (entry (name, v))"
    using cstr_of_text [OF nul(1), of "[]"] by (simp add: entry_def)
  have name: "takeWhile (\<lambda>c. c \<noteq> 0x3D) (entry (name, v)) = name" by (rule takeWhile_entry(2) [OF assms(4)])
  have e: "0x3D \<in> set (entry (name, v))" "drop (length name + 1) (entry (name, v)) = v"
    by (simp_all add: entry_def)
  obtain s' where s': "nvram_set f (s\<lparr>nv_kmalloc := k\<rparr>) name v = Some (0, s')" "nv_ok s'"
    "nvram_get0 s' name = Some v"
    "\<forall>n w. n \<noteq> name \<and> map_of (committed s) n = Some w \<longrightarrow> nvram_get0 s' n = Some w"
    using nvram_set_ok [of "s\<lparr>nv_kmalloc := k\<rparr>" name v f] assms k(2) nul(2) by auto
  have "dev_nvram_write f True s ?buf ?cnt = Some (int ?cnt, s')"
    using k(1) str name e s'(1) by (simp add: dev_nvram_write_def or_count_def Let_def del: One_nat_def)
  then have "user_nvram_set f mem True s name (Some v) = Some (0, s')"
    using assms(7) by (simp add: user_nvram_set_def sysret_def)
  with s'(2-4) show ?thesis by blast
qed

lemma early_getall_entry:
  assumes "x \<noteq> []" "0 \<notin> set x" "length x + 1 < cnt - len"
  shows "early_getall_loop (x @ 0 # rest) cnt (buf, len) =
    early_getall_loop rest cnt (strcpy buf len x, len + length x + 1)"
proof -
  obtain c cs where "x = c # cs" "c \<noteq> 0" using assms(1,2) by (cases x) auto
  moreover have "takeWhile (\<lambda>c. c \<noteq> 0) (x @ 0 # rest) = x"
    using assms(2) by (subst takeWhile_append2) auto
  ultimately show ?thesis
    using assms(3) by (subst early_getall_loop.simps) (simp add: Let_def)
qed

lemma early_getall_flat:
  "pairs_ok kvs \<Longrightarrow> length pre + length (flat (map entry kvs)) < cnt \<Longrightarrow>
   early_getall_loop (flat (map entry kvs) @ 0 # rest) cnt
     (pre @ replicate (cnt - length pre) 0, length pre) =
   Some (pre @ flat (map entry kvs) @
     replicate (cnt - length pre - length (flat (map entry kvs))) 0)"
proof (induction kvs arbitrary: pre)
  case Nil
  then show ?case by (simp add: early_getall_loop.simps)
next
  case (Cons kv kvs)
  let ?x = "entry kv"
  have x: "?x \<noteq> []" "0 \<notin> set ?x" using Cons.prems(1)
    by (cases kv; auto simp: entry_def name_ok_def)+
  have "length ?x + 1 < cnt - length pre" using Cons.prems(2) by simp
  note step = early_getall_entry [OF x this, of "flat (map entry kvs) @ 0 # rest"
      "pre @ replicate (cnt - length pre) 0"]
  have "strcpy (pre @ replicate (cnt - length pre) 0) (length pre) ?x =
      (pre @ ?x @ [0]) @ replicate (cnt - length (pre @ ?x @ [0])) 0"
    using strcpy_zeros [of pre ?x cnt] Cons.prems(2) by simp
  with Cons.IH [of "pre @ ?x @ [0]"] Cons.prems step show ?case by simp
qed

lemma getvar_entry:
  assumes "name_ok n" "0 \<notin> set v" "name_ok name"
  shows "getvar_search (entry (n, v) @ 0 # rest) name =
    (if name = n then Some (Some v) else getvar_search rest name)"
proof -
  obtain c cs where c: "entry (n, v) = c # cs" "c \<noteq> 0"
    using assms by (cases n) (auto simp: entry_def name_ok_def)
  have "take (length name + 1) (entry (n, v) @ 0 # rest) = name @ [0x3D] \<longleftrightarrow> name = n"
  proof
    assume "take (length name + 1) (entry (n, v) @ 0 # rest) = name @ [0x3D]"
    then obtain r where r: "n @ 0x3D # (v @ 0 # rest) = name @ 0x3D # r"
      by (metis append_take_drop_id append_assoc append_Cons append_Nil entry_def fst_conv snd_conv)
    have "takeWhile (\<lambda>c. c \<noteq> 0x3D) (n @ 0x3D # (v @ 0 # rest)) = n"
      "takeWhile (\<lambda>c. c \<noteq> 0x3D) (name @ 0x3D # r) = name"
      using assms by (auto simp: name_ok_def takeWhile_append)
    with r show "name = n" by simp
  qed (simp add: entry_def)
  moreover have "takeWhile (\<lambda>c. c \<noteq> 0) (drop (length n + 1) (entry (n, v) @ 0 # rest)) = v"
  proof -
    have "\<forall>c \<in> set v. c \<noteq> 0" using assms(2) by auto
    then show ?thesis by (simp add: entry_def)
  qed
  ultimately show ?thesis
    using takeWhile_entry(1) [OF assms(1,2), of rest] c
    by (subst getvar_search.simps) auto
qed

lemma getvar_flat:
  "pairs_ok kvs \<Longrightarrow> name_ok name \<Longrightarrow>
   getvar_search (flat (map entry kvs) @ 0 # rest) name = Some (map_of kvs name)"
proof (induction kvs)
  case Nil
  then show ?case by (simp add: getvar_search.simps)
next
  case (Cons kv kvs)
  then show ?case by (cases kv) (simp add: getvar_entry)
qed

section \<open>Properties\<close>

text \<open>A variable set through the user-mode library is read back by it with the value that was
  set, and the other variables that a commit keeps are not changed, when the values fit in the
  buffer, memory can be allocated and the name fits the library's local buffer.\<close>

theorem user_set_get:
  assumes "nv_ok s" "names_ok s" "False \<notin> set (nv_kmalloc s)" "name_ok name" "0 \<notin> set v"
    and "sum_list (map (\<lambda>w. length w + 1) (map snd (committed s) @ [v])) + 32 \<le> NVRAM_SPACE"
    and "length name < 100"
  shows "\<exists>s' s''. user_nvram_set f True True s name (Some v) = Some (0, s') \<and>
    user_nvram_get True True True s' name = Some (Some v, s'') \<and>
    (\<forall>n w. n \<noteq> name \<and> map_of (committed s) n = Some w \<longrightarrow> nvram_get0 s' n = Some w)"
proof -
  obtain s' where s': "user_nvram_set f True True s name (Some v) = Some (0, s')" "nv_ok s'"
    "nvram_get0 s' name = Some v"
    "\<forall>n w. n \<noteq> name \<and> map_of (committed s) n = Some w \<longrightarrow> nvram_get0 s' n = Some w"
    using user_set_ok [OF assms(1-6), of True f] by blast
  have "name \<noteq> []" "0 \<notin> set name" using assms(4) by (auto simp: name_ok_def)
  from user_get_value [OF s'(2) this _ s'(3), of True] assms(7)
  obtain s'' where "user_nvram_get True True True s' name = Some (Some v, s'')" by auto
  with s' show ?thesis by blast
qed

lemma committed_initial: "committed nvram_initial = []"
  using committed_subset [of nvram_initial] by (simp add: nvram_initial_def tuples_def)

lemma user_set_get_witness:
  "\<exists>s' s''. user_nvram_set (\<lambda>_. 0) True True nvram_initial [0x61] (Some [0x62]) = Some (0, s') \<and>
    user_nvram_get True True True s' [0x61] = Some (Some [0x62], s'')"
  using user_set_get [OF nv_ok_initial names_ok_initial kmalloc_initial, of "[0x61]" "[0x62]" "\<lambda>_. 0"]
  by (simp add: name_ok_def committed_initial)

text \<open>The early listing of a regenerated image gives every committed \<open>name=value\<close> and zeros,
  when they fit in the caller's buffer with one byte more.\<close>

theorem early_getall_entries:
  assumes "names_ok s" "length (flat (map entry (committed s))) < cnt"
  shows "early_nvram_getall (h_data (nvram_regen f s)) cnt =
    Some (flat (map entry (committed s)) @
      replicate (cnt - length (flat (map entry (committed s)))) 0)"
proof -
  obtain k where data: "h_data (nvram_regen f s) = flat (map entry (committed s)) @ 0 # replicate k 0"
    using regen_data(1) by blast
  show ?thesis
    unfolding early_nvram_getall_def regen_data(4) unfolding data
    using early_getall_flat [OF committed_ok [OF assms(1)], of "[]"] assms(2) by simp
qed

lemma early_getall_entries_witness:
  "early_nvram_getall (h_data (nvram_regen (\<lambda>_. 0) nvram_initial)) 3 = Some [0, 0, 0]"
  using early_getall_entries [OF names_ok_initial, of 3 "\<lambda>_. 0"]
  by (simp add: committed_initial numeral_3_eq_3)

text \<open>\<open>getvar\<close> returns the first entry of the name in \<open>vars\<close>, and asks the NVRAM only when
  there is none.\<close>

theorem getvar_first:
  assumes "pairs_ok kvs" "name_ok name"
  shows "getvar get (Some (flat (map entry kvs) @ 0 # rest)) name =
    Some (case map_of kvs name of Some v \<Rightarrow> Some v | None \<Rightarrow> get name)"
  using getvar_flat [OF assms, of rest] by (simp add: getvar_def split: option.split)

lemma getvar_first_witness:
  "getvar (\<lambda>_. None) (Some (flat (map entry [([0x61], [0x62]), ([0x61], [0x63])]) @ 0 # [])) [0x61] =
    Some (Some [0x62])"
  by (subst getvar_first) (simp_all add: name_ok_def)

end
