(* ===== verification/DmaAttach.thy ===== *)
theory DmaAttach
  imports Prelude "HOL-Library.Multiset"
begin

text \<open>
  Attaching and detaching a DMA engine (\<open>hnddma.c\<close> of the wireless driver): the tunables and
  address offsets of \<open>dma_info_t\<close>, the allocation of the aligned descriptor rings, and the
  release of everything on failure. Memory is the list of live blocks; the results of the
  allocators (\<open>MALLOC\<close>, \<open>DMA_ALLOC_CONSISTENT\<close>) are lists in the state, a failure when used up.
  Releasing a block that is not live is the result \<open>None\<close>. The driver is built with \<open>BCMDMA64\<close>,
  and debugging output and assertions are compiled out. Sizes are natural numbers: the code computes them in 32 bits, where
  they do not wrap for the numbers of descriptors that the assertions allow (at most \<open>D32MAXDD\<close> and \<open>D64MAXDD\<close>, 512 each).
\<close>

section \<open>Memory\<close>

datatype block = Info nat | Malloc nat nat | Consistent nat nat nat

record dma_heap =
  h_live :: "block list"
  h_malloc :: "nat option list"
  h_dma :: "(nat \<times> nat) option list"

definition heap_malloc :: "(nat \<Rightarrow> block) \<Rightarrow> dma_heap \<Rightarrow> nat option \<times> dma_heap" where
  "heap_malloc blk h =
     (case h_malloc h of
        [] \<Rightarrow> (None, h)
      | None # r \<Rightarrow> (None, h\<lparr>h_malloc := r\<rparr>)
      | Some p # r \<Rightarrow> (Some p, h\<lparr>h_live := blk p # h_live h, h_malloc := r\<rparr>))"

definition heap_consistent :: "nat \<Rightarrow> dma_heap \<Rightarrow> (nat \<times> nat) option \<times> dma_heap" where
  "heap_consistent n h =
     (case h_dma h of
        [] \<Rightarrow> (None, h)
      | None # r \<Rightarrow> (None, h\<lparr>h_dma := r\<rparr>)
      | Some (va, pa) # r \<Rightarrow>
          (Some (va, pa), h\<lparr>h_live := Consistent va n pa # h_live h, h_dma := r\<rparr>))"

definition heap_free :: "block \<Rightarrow> dma_heap \<Rightarrow> dma_heap option" where
  "heap_free b h =
     (if b \<in> set (h_live h) then Some (h\<lparr>h_live := remove1 b (h_live h)\<rparr>) else None)"

section \<open>Engine configuration\<close>

abbreviation SB_PCI_DMA :: u32 where "SB_PCI_DMA \<equiv> 0x40000000"
abbreviation SB_PCI_DMA_SZ :: nat where "SB_PCI_DMA_SZ \<equiv> 0x40000000"
abbreviation SB_PCIE_DMA_H32 :: u32 where "SB_PCIE_DMA_H32 \<equiv> 0x80000000"
abbreviation BCMEXTRAHDROOM :: u32 where "BCMEXTRAHDROOM \<equiv> 160"
abbreviation D32RINGALIGN :: nat where "D32RINGALIGN \<equiv> 4096"
abbreviation D64RINGALIGN :: nat where "D64RINGALIGN \<equiv> 8192"
abbreviation D64MAXDD :: nat where "D64MAXDD \<equiv> 512"
abbreviation DMA_CONSISTENT_ALIGN :: nat where "DMA_CONSISTENT_ALIGN \<equiv> 4096"

datatype direction = DMA_TX | DMA_RX

text \<open>The size of a pointer on the 32-bit target; the block of the \<open>dma_info_t\<close> itself is \<open>Info\<close>.\<close>

abbreviation SIZEOF_PTR :: nat where "SIZEOF_PTR \<equiv> 4"

record dma_cfg =
  c_self :: nat
  dma64 :: bool
  addrext :: bool
  dma64align :: nat
  ntxd :: u32
  nrxd :: u32
  m_txp :: "nat option"
  m_rxp :: "nat option"
  m_txp_dmah :: "nat option"
  m_rxp_dmah :: "nat option"
  m_txd :: "nat option"
  txdpa :: nat
  txdalign :: nat
  txdalloc :: nat
  m_rxd :: "nat option"
  rxdpa :: nat
  rxdalign :: nat
  rxdalloc :: nat
  rxbufsize :: u32
  nrxpost :: u32
  rxoffset :: u32
  ddoffsetlow :: u32
  ddoffsethigh :: u32
  dataoffsetlow :: u32
  dataoffsethigh :: u32

definition ISALIGNED :: "nat \<Rightarrow> nat \<Rightarrow> bool" where
  "ISALIGNED a x \<longleftrightarrow> (of_nat a :: u32) AND (of_nat x - 1) = 0"

definition ring_roundup :: "nat \<Rightarrow> nat \<Rightarrow> nat" where
  "ring_roundup x y = (x + (y - 1)) div y * y"

definition ring_alloc_size :: "nat \<Rightarrow> nat \<Rightarrow> nat" where
  "ring_alloc_size len align =
     (if \<not> ISALIGNED DMA_CONSISTENT_ALIGN align then len + align else len)"

definition set_ring :: "direction \<Rightarrow> nat \<Rightarrow> nat \<Rightarrow> nat \<Rightarrow> nat \<Rightarrow> dma_cfg \<Rightarrow> dma_cfg" where
  "set_ring direction d va pa sz di =
     (case direction of
        DMA_TX \<Rightarrow> di\<lparr>m_txd := Some d, txdalign := d - va, txdpa := pa + (d - va), txdalloc := sz\<rparr>
      | DMA_RX \<Rightarrow> di\<lparr>m_rxd := Some d, rxdalign := d - va, rxdpa := pa + (d - va), rxdalloc := sz\<rparr>)"

definition dma_alloc_ring :: "nat \<Rightarrow> nat \<Rightarrow> direction \<Rightarrow> dma_cfg \<Rightarrow> dma_heap \<Rightarrow> bool \<times> dma_cfg \<times> dma_heap"
  where
  "dma_alloc_ring ddlen align direction di h =
     (let sz = ring_alloc_size (unat (if direction = DMA_TX then ntxd di else nrxd di) * ddlen) align in
      case heap_consistent sz h of
        (None, h) \<Rightarrow> (False, di, h)
      | (Some (va, pa), h) \<Rightarrow> (True, set_ring direction (ring_roundup va align) va pa sz di, h))"

definition dma32_alloc :: "dma_cfg \<Rightarrow> direction \<Rightarrow> dma_heap \<Rightarrow> bool \<times> dma_cfg \<times> dma_heap" where
  "dma32_alloc di direction h = dma_alloc_ring 8 D32RINGALIGN direction di h"

definition dma64_alloc :: "dma_cfg \<Rightarrow> direction \<Rightarrow> dma_heap \<Rightarrow> bool \<times> dma_cfg \<times> dma_heap" where
  "dma64_alloc di direction h = dma_alloc_ring 16 (dma64align di) direction di h"

definition dma_alloc :: "dma_cfg \<Rightarrow> direction \<Rightarrow> dma_heap \<Rightarrow> bool \<times> dma_cfg \<times> dma_heap" where
  "dma_alloc di direction h =
     (if dma64 di then dma64_alloc di direction h else dma32_alloc di direction h)"

section \<open>Detaching\<close>

definition free_if :: "block option \<Rightarrow> dma_heap option \<Rightarrow> dma_heap option" where
  "free_if b h = (case b of None \<Rightarrow> h | Some b \<Rightarrow> Option.bind h (heap_free b))"

text \<open>The blocks that \<open>_dma_detach\<close> releases, in its order. The two engines keep the ring in
  \<open>txd64\<close> or \<open>txd32\<close>; either is \<open>m_txd\<close>.\<close>

definition ring_block :: "nat option \<Rightarrow> nat \<Rightarrow> nat \<Rightarrow> nat \<Rightarrow> block option" where
  "ring_block d align sz pa = map_option (\<lambda>d. Consistent (d - align) sz (pa - align)) d"

definition detach_blocks :: "dma_cfg \<Rightarrow> block option list" where
  "detach_blocks di =
     [ring_block (m_txd di) (txdalign di) (txdalloc di) (txdpa di),
      ring_block (m_rxd di) (rxdalign di) (rxdalloc di) (rxdpa di),
      map_option (\<lambda>p. Malloc p (unat (ntxd di) * SIZEOF_PTR)) (m_txp di),
      map_option (\<lambda>p. Malloc p (unat (nrxd di) * SIZEOF_PTR)) (m_rxp di),
      map_option (\<lambda>p. Malloc p (unat (ntxd di) * SIZEOF_PTR)) (m_txp_dmah di),
      map_option (\<lambda>p. Malloc p (unat (nrxd di) * SIZEOF_PTR)) (m_rxp_dmah di),
      Some (Info (c_self di))]"

definition dma_detach :: "dma_cfg \<Rightarrow> dma_heap \<Rightarrow> dma_heap option" where
  "dma_detach di h = foldl (\<lambda>h b. free_if b h) (Some h) (detach_blocks di)"

section \<open>Attaching\<close>

text \<open>What the bus says: \<open>e_dma64\<close> the core flag, \<open>e_pci\<close> a PCI bus, \<open>e_pcie\<close> a PCIe bus core,
  \<open>e_addrext\<close> the result of probing the address extension bits.\<close>

record dma_env =
  e_dma64 :: bool
  e_pci :: bool
  e_pcie :: bool
  e_addrext :: bool

definition dma_setup ::
  "dma_env \<Rightarrow> nat \<Rightarrow> u32 \<Rightarrow> u32 \<Rightarrow> u32 \<Rightarrow> u32 \<Rightarrow> u32 \<Rightarrow> dma_cfg" where
  "dma_setup env self ntx nrx bufsize post offset =
     (let offs = (if e_pci env
                  then if e_pcie env \<and> e_dma64 env then (0, SB_PCIE_DMA_H32) else (SB_PCI_DMA, 0)
                  else (0, 0))
      in \<lparr>c_self = self, dma64 = e_dma64 env, addrext = e_addrext env,
          dma64align =
            (if \<not> e_dma64 env then 0
             else if unat ntx < D64MAXDD div 2 \<and> unat nrx < D64MAXDD div 2 then D64RINGALIGN div 2
             else D64RINGALIGN),
          ntxd = ntx, nrxd = nrx, m_txp = None, m_rxp = None, m_txp_dmah = None, m_rxp_dmah = None,
          m_txd = None, txdpa = 0, txdalign = 0, txdalloc = 0,
          m_rxd = None, rxdpa = 0, rxdalign = 0, rxdalloc = 0,
          rxbufsize = (if bufsize > BCMEXTRAHDROOM then bufsize - BCMEXTRAHDROOM else bufsize),
          nrxpost = post, rxoffset = offset,
          ddoffsetlow = fst offs, ddoffsethigh = snd offs,
          dataoffsetlow = fst offs, dataoffsethigh = snd offs\<rparr>)"

text \<open>The allocations in the order of the code, each skipped when its count is zero; the step that
  fails makes the attachment fail.\<close>

definition alloc_vector ::
  "u32 \<Rightarrow> (nat option \<Rightarrow> dma_cfg \<Rightarrow> dma_cfg) \<Rightarrow> dma_cfg \<times> dma_heap \<Rightarrow> bool \<times> dma_cfg \<times> dma_heap" where
  "alloc_vector n upd s =
     (case s of (di, h) \<Rightarrow>
        if n = 0 then (True, di, h)
        else (case heap_malloc (\<lambda>p. Malloc p (unat n * SIZEOF_PTR)) h of
                (None, h) \<Rightarrow> (False, di, h)
              | (Some p, h) \<Rightarrow> (True, upd (Some p) di, h)))"

definition alloc_ring :: "direction \<Rightarrow> dma_cfg \<times> dma_heap \<Rightarrow> bool \<times> dma_cfg \<times> dma_heap" where
  "alloc_ring direction s =
     (case s of (di, h) \<Rightarrow>
        if (if direction = DMA_TX then ntxd di else nrxd di) = 0 then (True, di, h)
        else dma_alloc di direction h)"

definition pa_check :: "(dma_cfg \<Rightarrow> nat) \<Rightarrow> dma_cfg \<times> dma_heap \<Rightarrow> bool \<times> dma_cfg \<times> dma_heap" where
  "pa_check pa s =
     (case s of (di, h) \<Rightarrow>
        (\<not> (ddoffsetlow di = SB_PCI_DMA \<and> SB_PCI_DMA_SZ < pa di \<and> \<not> addrext di), di, h))"

text \<open>Run steps until one fails.\<close>

fun steps_until :: "('s \<Rightarrow> bool \<times> 's) list \<Rightarrow> 's \<Rightarrow> bool \<times> 's" where
  "steps_until [] s = (True, s)"
| "steps_until (f # fs) s = (case f s of (ok, s) \<Rightarrow> if ok then steps_until fs s else (False, s))"

definition attach_steps :: "u32 \<Rightarrow> u32 \<Rightarrow> (dma_cfg \<times> dma_heap \<Rightarrow> bool \<times> dma_cfg \<times> dma_heap) list" where
  "attach_steps ntx nrx =
     [alloc_vector ntx (\<lambda>p di. di\<lparr>m_txp := p\<rparr>), alloc_vector nrx (\<lambda>p di. di\<lparr>m_rxp := p\<rparr>),
      alloc_ring DMA_TX, alloc_ring DMA_RX, pa_check txdpa, pa_check rxdpa,
      alloc_vector ntx (\<lambda>p di. di\<lparr>m_txp_dmah := p\<rparr>), alloc_vector nrx (\<lambda>p di. di\<lparr>m_rxp_dmah := p\<rparr>)]"

text \<open>\<open>dma_attach\<close>: the outer \<open>None\<close> is a bad release, the inner one the null handle.\<close>

definition dma_attach ::
  "dma_env \<Rightarrow> u32 \<Rightarrow> u32 \<Rightarrow> u32 \<Rightarrow> u32 \<Rightarrow> u32 \<Rightarrow> dma_heap \<Rightarrow> (dma_cfg option \<times> dma_heap) option" where
  "dma_attach env ntx nrx bufsize post offset h =
     (case heap_malloc Info h of
        (None, h) \<Rightarrow> Some (None, h)
      | (Some self, h) \<Rightarrow>
          (case steps_until (attach_steps ntx nrx)
                  (dma_setup env self ntx nrx bufsize post offset, h) of
             (True, di, h) \<Rightarrow> Some (Some di, h)
           | (False, di, h) \<Rightarrow> map_option (\<lambda>h. (None, h)) (dma_detach di h)))"

section \<open>Accounting\<close>

text \<open>The blocks an engine owns, and a heap that holds them on top of \<open>M\<close>.\<close>

fun somes :: "'a option list \<Rightarrow> 'a list" where
  "somes [] = []"
| "somes (None # xs) = somes xs"
| "somes (Some x # xs) = x # somes xs"

definition owned :: "dma_cfg \<Rightarrow> block list" where
  "owned di = somes (detach_blocks di)"

definition holds :: "dma_cfg \<Rightarrow> block multiset \<Rightarrow> dma_heap \<Rightarrow> bool" where
  "holds di M h \<longleftrightarrow> mset (h_live h) = mset (owned di) + M"

lemma free_all:
  "mset (h_live h) = mset (somes bs) + M \<Longrightarrow>
   \<exists>h'. foldl (\<lambda>h b. free_if b h) (Some h) bs = Some h' \<and> mset (h_live h') = M"
proof (induction bs arbitrary: h)
  case Nil
  then show ?case by simp
next
  case (Cons b bs)
  show ?case
  proof (cases b)
    case None
    with Cons show ?thesis by (simp add: free_if_def)
  next
    case (Some c)
    have "c \<in># mset (h_live h)" unfolding Cons.prems using Some by simp
    then have "c \<in> set (h_live h)" by simp
    then have "free_if b (Some h) = Some (h\<lparr>h_live := remove1 c (h_live h)\<rparr>)"
      by (simp add: free_if_def heap_free_def Some)
    moreover have "mset (h_live (h\<lparr>h_live := remove1 c (h_live h)\<rparr>)) = mset (somes bs) + M"
      using Cons.prems Some by simp
    ultimately show ?thesis using Cons.IH [of "h\<lparr>h_live := remove1 c (h_live h)\<rparr>"] by simp
  qed
qed

lemma detach_frees: "holds di M h \<Longrightarrow> \<exists>h'. dma_detach di h = Some h' \<and> mset (h_live h') = M"
  unfolding dma_detach_def holds_def owned_def by (rule free_all)

lemma ring_roundup_le: "0 < y \<Longrightarrow> x \<le> ring_roundup x y"
  using div_mod_decomp [of "x + (y - 1)" y] mod_less_divisor [of y "x + (y - 1)"]
  unfolding ring_roundup_def by linarith

lemma ring_roundup_bound: "0 < y \<Longrightarrow> ring_roundup x y < x + y"
  using div_mod_decomp [of "x + (y - 1)" y] unfolding ring_roundup_def by linarith

lemma ring_roundup_aligned [simp]: "y dvd x \<Longrightarrow> 0 < y \<Longrightarrow> ring_roundup x y = x"
  using ring_roundup_le [of y x] ring_roundup_bound [of y x]
  by (elim dvdE) (auto simp: ring_roundup_def intro!: div_nat_eqI)

lemma steps_until_inv:
  assumes "P k s" "\<And>i s ok s'. i < length fs \<Longrightarrow> P (k + i) s \<Longrightarrow> (fs ! i) s = (ok, s') \<Longrightarrow>
      if ok then P (Suc (k + i)) s' else Q s'"
    and "steps_until fs s = (ok, s')"
  shows "if ok then P (k + length fs) s' else Q s'"
  using assms
proof (induction fs arbitrary: k s)
  case Nil
  then show ?case by simp
next
  case (Cons f fs)
  obtain ok1 s1 where f: "f s = (ok1, s1)" by fastforce
  have one: "if ok1 then P (Suc k) s1 else Q s1"
    using Cons.prems(2) [of 0 s ok1 s1] Cons.prems(1) f by (auto split: if_splits)
  show ?case
  proof (cases ok1)
    case False
    with one f Cons.prems(3) show ?thesis by auto
  next
    case True
    have "if ok then P (Suc k + length fs) s' else Q s'"
    proof (rule Cons.IH)
      show "P (Suc k) s1" using one True by simp
      show "steps_until fs s1 = (ok, s')" using f True Cons.prems(3) by simp
      fix i s ok s'
      assume "i < length fs" "P (Suc k + i) s" "(fs ! i) s = (ok, s')"
      then show "if ok then P (Suc (Suc k + i)) s' else Q s'"
        using Cons.prems(2) [of "Suc i" s ok s'] by (auto split: if_splits)
    qed
    then show ?thesis by (auto split: if_splits)
  qed
qed

text \<open>The effect of setting one of the pointers on what is owned.\<close>

definition opt_mset :: "'a option \<Rightarrow> 'a multiset" where
  "opt_mset x = (case x of None \<Rightarrow> {#} | Some y \<Rightarrow> {#y#})"

lemma opt_mset_simps [simp]: "opt_mset None = {#}" "opt_mset (Some y) = {#y#}"
  by (simp_all add: opt_mset_def)

lemma mset_somes: "mset (somes (x # xs)) = opt_mset x + mset (somes xs)"
  by (cases x) simp_all

lemma owned_mset:
  "mset (owned di) =
     opt_mset (ring_block (m_txd di) (txdalign di) (txdalloc di) (txdpa di)) +
     opt_mset (ring_block (m_rxd di) (rxdalign di) (rxdalloc di) (rxdpa di)) +
     opt_mset (map_option (\<lambda>p. Malloc p (unat (ntxd di) * SIZEOF_PTR)) (m_txp di)) +
     opt_mset (map_option (\<lambda>p. Malloc p (unat (nrxd di) * SIZEOF_PTR)) (m_rxp di)) +
     opt_mset (map_option (\<lambda>p. Malloc p (unat (ntxd di) * SIZEOF_PTR)) (m_txp_dmah di)) +
     opt_mset (map_option (\<lambda>p. Malloc p (unat (nrxd di) * SIZEOF_PTR)) (m_rxp_dmah di)) +
     {#Info (c_self di)#}"
  unfolding owned_def detach_blocks_def by (simp only: mset_somes) simp

lemma alloc_vector_step:
  assumes "holds di M h" "alloc_vector n upd (di, h) = (ok, di', h')"
    and "\<And>p. mset (owned (upd (Some p) di)) = add_mset (Malloc p (unat n * SIZEOF_PTR)) (mset (owned di))"
  shows "holds di' M h'" "di' = di \<or> ok \<and> (\<exists>p. di' = upd (Some p) di)"
  using assms
  by (auto simp: alloc_vector_def heap_malloc_def holds_def split: if_splits option.splits list.splits)

text \<open>A ring of \<open>n\<close> descriptors at \<open>d\<close> is aligned and inside its allocation; the allocator
  returns whole pages.\<close>

definition ring_align :: "dma_cfg \<Rightarrow> nat" where
  "ring_align di = (if dma64 di then dma64align di else D32RINGALIGN)"

definition ring_bytes :: "dma_cfg \<Rightarrow> direction \<Rightarrow> nat" where
  "ring_bytes di d = unat (if d = DMA_TX then ntxd di else nrxd di) * (if dma64 di then 16 else 8)"

text \<open>All but the fields of the rings.\<close>

definition same_cfg :: "dma_cfg \<Rightarrow> dma_cfg \<Rightarrow> bool" where
  "same_cfg di di' \<longleftrightarrow> ntxd di' = ntxd di \<and> nrxd di' = nrxd di \<and> dma64 di' = dma64 di \<and>
     dma64align di' = dma64align di \<and> m_txp di' = m_txp di \<and> m_rxp di' = m_rxp di \<and>
     m_txp_dmah di' = m_txp_dmah di \<and> m_rxp_dmah di' = m_rxp_dmah di \<and> c_self di' = c_self di"

definition tx_ring_of :: "dma_cfg \<Rightarrow> nat option \<times> nat \<times> nat \<times> nat" where
  "tx_ring_of di = (m_txd di, txdalign di, txdalloc di, txdpa di)"

definition rx_ring_of :: "dma_cfg \<Rightarrow> nat option \<times> nat \<times> nat \<times> nat" where
  "rx_ring_of di = (m_rxd di, rxdalign di, rxdalloc di, rxdpa di)"

definition placed :: "nat \<Rightarrow> nat \<Rightarrow> nat option \<Rightarrow> nat \<Rightarrow> nat \<Rightarrow> bool" where
  "placed al len d align alloc \<longleftrightarrow>
     (\<exists>x. d = Some x \<and> al dvd x \<and> align \<le> x \<and> x + len \<le> x - align + alloc)"

definition pages :: "dma_heap \<Rightarrow> bool" where
  "pages h \<longleftrightarrow> (\<forall>va pa. Some (va, pa) \<in> set (h_dma h) \<longrightarrow> DMA_CONSISTENT_ALIGN dvd va)"

definition align_ok :: "dma_cfg \<Rightarrow> bool" where
  "align_ok di \<longleftrightarrow> (dma64 di \<longrightarrow> dma64align di = 4096 \<or> dma64align di = 8192)"

lemma ISALIGNED_page: "ISALIGNED DMA_CONSISTENT_ALIGN 4096" "\<not> ISALIGNED DMA_CONSISTENT_ALIGN 8192"
  by (simp_all add: ISALIGNED_def)

lemma roundup_placed:
  assumes "al = 4096 \<or> al = 8192" "DMA_CONSISTENT_ALIGN dvd va"
  shows "placed al len (Some (ring_roundup va al)) (ring_roundup va al - va)
    (ring_alloc_size len al)"
proof -
  have pos: "0 < al" using assms(1) by auto
  have "al dvd ring_roundup va al" by (simp add: ring_roundup_def)
  moreover have "va \<le> ring_roundup va al" "ring_roundup va al < va + al"
    using ring_roundup_le [OF pos] ring_roundup_bound [OF pos] by auto
  moreover have "al = 4096 \<Longrightarrow> ring_roundup va al = va" using assms(2) by simp
  ultimately show ?thesis
    using assms(1) ISALIGNED_page by (auto simp: placed_def ring_alloc_size_def)
qed

lemma alloc_ring_step:
  assumes hold: "holds di M h" and run: "alloc_ring d (di, h) = (ok, di', h')" and al: "align_ok di"
    and null: "if d = DMA_TX then m_txd di = None else m_rxd di = None"
  shows "holds di' M h' \<and> same_cfg di di' \<and> set (h_dma h') \<subseteq> set (h_dma h) \<and>
    (d = DMA_TX \<longrightarrow> rx_ring_of di' = rx_ring_of di) \<and> (d = DMA_RX \<longrightarrow> tx_ring_of di' = tx_ring_of di) \<and>
    (pages h \<and> ok \<and> d = DMA_TX \<and> ntxd di \<noteq> 0 \<longrightarrow>
       placed (ring_align di) (ring_bytes di d) (m_txd di') (txdalign di') (txdalloc di')) \<and>
    (pages h \<and> ok \<and> d = DMA_RX \<and> nrxd di \<noteq> 0 \<longrightarrow>
       placed (ring_align di) (ring_bytes di d) (m_rxd di') (rxdalign di') (rxdalloc di'))"
proof -
  let ?al = "ring_align di" let ?n = "if d = DMA_TX then ntxd di else nrxd di"
  have al': "?al = 4096 \<or> ?al = 8192" using al by (auto simp: ring_align_def align_ok_def)
  then have pos: "0 < ?al" by auto
  define sz where "sz = ring_alloc_size (ring_bytes di d) ?al"
  define dd :: nat where "dd = (if dma64 di then 16 else 8)"
  have "alloc_ring d (di, h) = (if ?n = 0 then (True, di, h) else dma_alloc_ring dd ?al d di h)"
    by (simp add: alloc_ring_def dma_alloc_def dma32_alloc_def dma64_alloc_def ring_align_def dd_def)
  moreover have "dma_alloc_ring dd ?al d di h = (case heap_consistent sz h of
        (None, h) \<Rightarrow> (False, di, h)
      | (Some (va, pa), h) \<Rightarrow> (True, set_ring d (ring_roundup va ?al) va pa sz di, h))"
  proof -
    have "ring_alloc_size (unat ?n * dd) ?al = sz" by (simp add: sz_def ring_bytes_def dd_def)
    then show ?thesis by (simp only: dma_alloc_ring_def Let_def)
  qed
  ultimately have alloc: "alloc_ring d (di, h) = (if ?n = 0 then (True, di, h)
      else case heap_consistent sz h of
        (None, h) \<Rightarrow> (False, di, h)
      | (Some (va, pa), h) \<Rightarrow> (True, set_ring d (ring_roundup va ?al) va pa sz di, h))" by simp
  have same: "same_cfg di di" by (simp add: same_cfg_def)
  show ?thesis
  proof (cases "?n = 0 \<or> \<not> ok")
    case True
    then have "di' = di" "h' = h \<or> \<not> ok \<and> (\<exists>r. h' = h\<lparr>h_dma := r\<rparr> \<and> set r \<subseteq> set (h_dma h))"
      using run alloc by (auto simp: heap_consistent_def split: if_splits option.splits list.splits)
    with True hold same show ?thesis
      by (cases "h' = h") (auto simp: holds_def)
  next
    case False
    then obtain va pa r where h: "h_dma h = Some (va, pa) # r"
      "h' = h\<lparr>h_live := Consistent va sz pa # h_live h, h_dma := r\<rparr>"
      "di' = set_ring d (ring_roundup va ?al) va pa sz di"
      using run alloc by (auto simp: heap_consistent_def split: if_splits option.splits list.splits)
    have va: "ring_roundup va ?al - (ring_roundup va ?al - va) = va"
      using ring_roundup_le [OF pos, of va] by simp
    have placed: "pages h \<Longrightarrow> placed ?al (ring_bytes di d) (Some (ring_roundup va ?al))
        (ring_roundup va ?al - va) sz"
      unfolding sz_def by (rule roundup_placed [OF al']) (simp add: pages_def h(1))
    show ?thesis
      using hold null va placed same h False
      by (cases d) (auto simp: set_ring_def holds_def owned_mset ring_block_def same_cfg_def
          rx_ring_of_def tx_ring_of_def)
  qed
qed

section \<open>The attachment\<close>

definition tx_placed :: "dma_cfg \<Rightarrow> bool" where
  "tx_placed di \<longleftrightarrow> ntxd di = 0 \<or>
     placed (ring_align di) (ring_bytes di DMA_TX) (m_txd di) (txdalign di) (txdalloc di)"

definition rx_placed :: "dma_cfg \<Rightarrow> bool" where
  "rx_placed di \<longleftrightarrow> nrxd di = 0 \<or>
     placed (ring_align di) (ring_bytes di DMA_RX) (m_rxd di) (rxdalign di) (rxdalloc di)"

text \<open>What holds before step \<open>k\<close>: what is owned, the pointers that are still null, and where the
  rings are.\<close>

definition attach_inv :: "u32 \<Rightarrow> u32 \<Rightarrow> block multiset \<Rightarrow> nat \<Rightarrow> dma_cfg \<times> dma_heap \<Rightarrow> bool" where
  "attach_inv ntx nrx M k s =
     (case s of (di, h) \<Rightarrow>
        holds di M h \<and> ntxd di = ntx \<and> nrxd di = nrx \<and> align_ok di \<and> pages h \<and>
        (k \<le> 0 \<longrightarrow> m_txp di = None) \<and> (k \<le> 1 \<longrightarrow> m_rxp di = None) \<and>
        (k \<le> 2 \<longrightarrow> m_txd di = None) \<and> (k \<le> 3 \<longrightarrow> m_rxd di = None) \<and>
        (k \<le> 6 \<longrightarrow> m_txp_dmah di = None) \<and> (k \<le> 7 \<longrightarrow> m_rxp_dmah di = None) \<and>
        (3 \<le> k \<longrightarrow> tx_placed di) \<and> (4 \<le> k \<longrightarrow> rx_placed di))"

lemma placed_cong:
  "same_cfg di di' \<Longrightarrow> tx_ring_of di' = tx_ring_of di \<Longrightarrow> tx_placed di' = tx_placed di"
  "same_cfg di di' \<Longrightarrow> rx_ring_of di' = rx_ring_of di \<Longrightarrow> rx_placed di' = rx_placed di"
  by (simp_all add: same_cfg_def tx_ring_of_def rx_ring_of_def tx_placed_def rx_placed_def
      ring_align_def ring_bytes_def)

lemma pages_subset: "set (h_dma h') \<subseteq> set (h_dma h) \<Longrightarrow> pages h \<Longrightarrow> pages h'"
  by (auto simp: pages_def)

lemma attach_ring_inv:
  assumes inv: "attach_inv ntx nrx M k (di, h)" and run: "alloc_ring d (di, h) = (ok, di', h')"
    and k: "k = (if d = DMA_TX then 2 else 3)"
  shows "holds di' M h' \<and> (ok \<longrightarrow> attach_inv ntx nrx M (Suc k) (di', h'))"
proof -
  have h: "holds di M h" "align_ok di" "pages h" "if d = DMA_TX then m_txd di = None else m_rxd di = None"
    using inv k by (auto simp: attach_inv_def split: if_splits)
  note step = alloc_ring_step [OF h(1) run h(2,4)]
  have al: "align_ok di'" "pages h'"
    using step h(2,3) pages_subset by (auto simp: align_ok_def same_cfg_def)
  have cfg: "ring_align di' = ring_align di" "ring_bytes di' = ring_bytes di"
    using step by (auto simp: same_cfg_def ring_align_def ring_bytes_def)
  show ?thesis
  proof (cases d)
    case DMA_TX
    with step al inv k h(3) cfg show ?thesis
      by (auto simp: attach_inv_def same_cfg_def rx_ring_of_def tx_placed_def)
  next
    case DMA_RX
    have "tx_placed di" using inv k DMA_RX by (simp add: attach_inv_def)
    then have "tx_placed di'" using placed_cong(1) [of di di'] step DMA_RX by blast
    with DMA_RX step al inv k h(3) cfg show ?thesis
      by (auto simp: attach_inv_def same_cfg_def tx_ring_of_def rx_placed_def)
  qed
qed

lemma attach_vector_inv:
  assumes inv: "attach_inv ntx nrx M k (di, h)"
    and run: "alloc_vector n upd (di, h) = (ok, di', h')"
    and own: "\<And>p. mset (owned (upd (Some p) di)) = add_mset (Malloc p (unat n * SIZEOF_PTR)) (mset (owned di))"
    and keep: "\<And>p h'. holds (upd (Some p) di) M h' \<Longrightarrow> pages h' \<Longrightarrow>
      attach_inv ntx nrx M (Suc k) (upd (Some p) di, h')"
    and skip: "attach_inv ntx nrx M (Suc k) (di, h)"
  shows "holds di' M h' \<and> (ok \<longrightarrow> attach_inv ntx nrx M (Suc k) (di', h'))"
proof -
  have h: "holds di M h" "pages h" using inv by (auto simp: attach_inv_def)
  note step = alloc_vector_step [OF h(1) run own]
  have alt: "ok \<Longrightarrow> di' = di \<and> h' = h \<or> (\<exists>p. di' = upd (Some p) di)" "h_dma h' = h_dma h"
    using run by (auto simp: alloc_vector_def heap_malloc_def split: if_splits option.splits list.splits)
  then have "pages h'" using h(2) by (simp add: pages_def)
  with step(1) alt(1) skip keep inv show ?thesis by blast
qed

lemma owned_upd:
  "m_txp di = None \<Longrightarrow> mset (owned (di\<lparr>m_txp := Some p\<rparr>)) =
     add_mset (Malloc p (unat (ntxd di) * SIZEOF_PTR)) (mset (owned di))"
  "m_rxp di = None \<Longrightarrow> mset (owned (di\<lparr>m_rxp := Some p\<rparr>)) =
     add_mset (Malloc p (unat (nrxd di) * SIZEOF_PTR)) (mset (owned di))"
  "m_txp_dmah di = None \<Longrightarrow> mset (owned (di\<lparr>m_txp_dmah := Some p\<rparr>)) =
     add_mset (Malloc p (unat (ntxd di) * SIZEOF_PTR)) (mset (owned di))"
  "m_rxp_dmah di = None \<Longrightarrow> mset (owned (di\<lparr>m_rxp_dmah := Some p\<rparr>)) =
     add_mset (Malloc p (unat (nrxd di) * SIZEOF_PTR)) (mset (owned di))"
  by (simp_all add: owned_mset)

lemma placed_upd:
  "tx_placed (di\<lparr>m_txp := p\<rparr>) = tx_placed di" "rx_placed (di\<lparr>m_txp := p\<rparr>) = rx_placed di"
  "tx_placed (di\<lparr>m_rxp := p\<rparr>) = tx_placed di" "rx_placed (di\<lparr>m_rxp := p\<rparr>) = rx_placed di"
  "tx_placed (di\<lparr>m_txp_dmah := p\<rparr>) = tx_placed di" "rx_placed (di\<lparr>m_txp_dmah := p\<rparr>) = rx_placed di"
  "tx_placed (di\<lparr>m_rxp_dmah := p\<rparr>) = tx_placed di" "rx_placed (di\<lparr>m_rxp_dmah := p\<rparr>) = rx_placed di"
  "align_ok (di\<lparr>m_txp := p\<rparr>) = align_ok di" "align_ok (di\<lparr>m_rxp := p\<rparr>) = align_ok di"
  "align_ok (di\<lparr>m_txp_dmah := p\<rparr>) = align_ok di" "align_ok (di\<lparr>m_rxp_dmah := p\<rparr>) = align_ok di"
  by (simp_all add: tx_placed_def rx_placed_def ring_align_def ring_bytes_def align_ok_def)

lemma attach_steps_inv:
  assumes "attach_inv ntx nrx M i s" "i < 8" "(attach_steps ntx nrx ! i) s = (ok, s')"
  shows "if ok then attach_inv ntx nrx M (Suc i) s' else holds (fst s') M (snd s')"
proof -
  obtain di h where s: "s = (di, h)" by (cases s)
  obtain di' h' where s': "s' = (di', h')" by (cases s')
  have inv: "attach_inv ntx nrx M i (di, h)" using assms(1) s by simp
  note run = assms(3) [unfolded s s']
  have "holds di' M h' \<and> (ok \<longrightarrow> attach_inv ntx nrx M (Suc i) (di', h'))"
  proof -
    consider "i = 0" | "i = 1" | "i = 2" | "i = 3" | "i = 4 \<or> i = 5" | "i = 6" | "i = 7"
      using assms(2) by linarith
    then show ?thesis
    proof cases
      case 1
      note i = inv [unfolded 1 attach_inv_def, simplified]
      show ?thesis
        by (rule attach_vector_inv [OF inv, of ntx "\<lambda>p di. di\<lparr>m_txp := p\<rparr>"])
          (use run [unfolded 1] i owned_upd(1) in \<open>simp_all add: 1 attach_steps_def attach_inv_def placed_upd\<close>)
    next
      case 2
      note i = inv [unfolded 2 attach_inv_def, simplified]
      show ?thesis
        by (rule attach_vector_inv [OF inv, of nrx "\<lambda>p di. di\<lparr>m_rxp := p\<rparr>"])
          (use run [unfolded 2] i owned_upd(2) in \<open>simp_all add: 2 attach_steps_def attach_inv_def placed_upd\<close>)
    next
      case 3
      show ?thesis
        by (rule attach_ring_inv [OF inv, of DMA_TX]) (use run 3 in \<open>simp_all add: attach_steps_def\<close>)
    next
      case 4
      show ?thesis
        by (rule attach_ring_inv [OF inv, of DMA_RX]) (use run 4 in \<open>simp_all add: attach_steps_def\<close>)
    next
      case 5
      with run have "di' = di" "h' = h" by (auto simp: attach_steps_def pa_check_def)
      moreover have "attach_inv ntx nrx M (Suc i) (di, h) \<and> holds di M h"
        using inv 5 by (elim disjE) (simp_all add: attach_inv_def)
      ultimately show ?thesis by simp
    next
      case 6
      note i = inv [unfolded 6 attach_inv_def, simplified]
      show ?thesis
        by (rule attach_vector_inv [OF inv, of ntx "\<lambda>p di. di\<lparr>m_txp_dmah := p\<rparr>"])
          (use run [unfolded 6] i owned_upd(3) in \<open>simp_all add: 6 attach_steps_def attach_inv_def placed_upd\<close>)
    next
      case 7
      note i = inv [unfolded 7 attach_inv_def, simplified]
      show ?thesis
        by (rule attach_vector_inv [OF inv, of nrx "\<lambda>p di. di\<lparr>m_rxp_dmah := p\<rparr>"])
          (use run [unfolded 7] i owned_upd(4) in \<open>simp_all add: 7 attach_steps_def attach_inv_def placed_upd\<close>)
    qed
  qed
  then show ?thesis by (auto simp: s')
qed

text \<open>The outcome of an attachment: a handle that owns exactly what was allocated and whose rings
  are placed, or no handle and no allocation left.\<close>

lemma dma_attach_outcome:
  assumes "pages h"
  shows "\<exists>r h'. dma_attach env ntx nrx bufsize post offset h = Some (r, h') \<and>
    (case r of
       None \<Rightarrow> mset (h_live h') = mset (h_live h)
     | Some di \<Rightarrow> tx_placed di \<and> rx_placed di \<and>
         (\<exists>h''. dma_detach di h' = Some h'' \<and> mset (h_live h'') = mset (h_live h)))"
proof (cases "fst (heap_malloc Info h)")
  case None
  then show ?thesis
    by (auto simp: dma_attach_def heap_malloc_def split: list.splits option.splits)
next
  case (Some self)
  then obtain r where m: "heap_malloc Info h =
      (Some self, h\<lparr>h_live := Info self # h_live h, h_malloc := r\<rparr>)"
    by (auto simp: heap_malloc_def split: list.splits option.splits)
  let ?di = "dma_setup env self ntx nrx bufsize post offset"
  let ?h = "h\<lparr>h_live := Info self # h_live h, h_malloc := r\<rparr>"
  let ?M = "mset (h_live h)"
  have init: "attach_inv ntx nrx ?M 0 (?di, ?h)"
    using assms by (simp add: attach_inv_def dma_setup_def holds_def owned_mset ring_block_def
        align_ok_def pages_def Let_def)
  obtain ok di h' where run: "steps_until (attach_steps ntx nrx) (?di, ?h) = (ok, di, h')"
    by (metis prod_cases3)
  have len: "length (attach_steps ntx nrx) = 8" by (simp add: attach_steps_def)
  have "if ok then attach_inv ntx nrx ?M (0 + length (attach_steps ntx nrx)) (di, h')
      else holds (fst (di, h')) ?M (snd (di, h'))"
    by (rule steps_until_inv [where P = "attach_inv ntx nrx ?M" and Q = "\<lambda>s. holds (fst s) ?M (snd s)",
          OF init _ run]) (use attach_steps_inv len in simp)
  then have final: "if ok then attach_inv ntx nrx ?M 8 (di, h') else holds di ?M h'"
    by (auto simp: len split: if_splits)
  show ?thesis
  proof (cases ok)
    case True
    with final have "holds di ?M h'" "tx_placed di" "rx_placed di" by (simp_all add: attach_inv_def)
    with detach_frees [OF this(1)] True run m show ?thesis by (simp add: dma_attach_def)
  next
    case False
    with final have "holds di ?M h'" by simp
    from detach_frees [OF this] False run m show ?thesis by (auto simp: dma_attach_def)
  qed
qed

section \<open>Properties\<close>

text \<open>C38: Attaching a DMA engine never releases a block that is not allocated. Without a handle
  (an allocation failed, or a ring lies out of the reach of the bus) everything allocated on the
  way has been released; with a handle both rings are aligned for the engine and lie inside
  their allocations, and detaching it releases exactly what the attachment allocated. The
  allocator of DMA memory is assumed to return whole pages.\<close>

theorem dma_attach_balanced:
  assumes "pages h"
  shows "\<exists>r h'. dma_attach env ntx nrx bufsize post offset h = Some (r, h') \<and>
    (case r of
       None \<Rightarrow> mset (h_live h') = mset (h_live h)
     | Some di \<Rightarrow> tx_placed di \<and> rx_placed di \<and>
         (\<exists>h''. dma_detach di h' = Some h'' \<and> mset (h_live h'') = mset (h_live h)))"
  by (rule dma_attach_outcome [OF assms])

lemma dma_attach_balanced_witness:
  "\<exists>r h'. dma_attach \<lparr>e_dma64 = True, e_pci = False, e_pcie = False, e_addrext = True\<rparr> 64 64 2048 16 30
     \<lparr>h_live = [], h_malloc = [Some 1, Some 2, Some 3], h_dma = [Some (8192, 8192), None]\<rparr> =
     Some (r, h')"
proof -
  have "pages \<lparr>h_live = [], h_malloc = [Some 1, Some 2, Some 3], h_dma = [Some (8192, 8192), None]\<rparr>"
    by (simp add: pages_def)
  from dma_attach_balanced [OF this] show ?thesis by blast
qed

end
