(* ===== verification/Ring.thy ===== *)
theory Ring
  imports Prelude
begin

text \<open>
  Index arithmetic of a descriptor ring whose size is a power of two: the masking of indices
  that the driver uses is the remainder, and the descriptors from an index on are a list.
\<close>

section \<open>Masked indices\<close>

definition XXD :: "u32 \<Rightarrow> u32 \<Rightarrow> u32" where
  "XXD x n = x AND (n - 1)"

definition ring_size :: "u32 \<Rightarrow> bool" where
  "ring_size n \<longleftrightarrow> (\<exists>k \<in> {0..9}. unat n = 2 ^ k)"

lemma ring_sizeE:
  assumes "ring_size n"
  obtains k where "k \<le> 9" "unat n = 2 ^ k" "n - 1 = mask k"
proof -
  from assms obtain k where k: "k \<le> 9" "unat n = 2 ^ k" by (auto simp: ring_size_def)
  then have "n = 2 ^ k" using word_eq_of_nat [OF k(2)] by simp
  then have "n - 1 = mask k" by (simp add: mask_eq_exp_minus_1)
  with k that show thesis by blast
qed

lemma ring_size_pos: "ring_size n \<Longrightarrow> 0 < unat n"
  by (erule ring_sizeE) simp

lemma ring_size_le: "ring_size n \<Longrightarrow> unat n \<le> 512"
proof (erule ring_sizeE)
  fix k assume "k \<le> 9" "unat n = 2 ^ k"
  then show "unat n \<le> 512" using power_increasing [of k 9 "2 :: nat"] by simp
qed

lemma XXD_mod: "ring_size n \<Longrightarrow> unat (XXD x n) = unat x mod unat n"
  by (erule ring_sizeE) (simp add: XXD_def unat_and_mask)

lemma XXD_less: "ring_size n \<Longrightarrow> unat (XXD x n) < unat n"
  using ring_size_pos by (simp add: XXD_mod)

lemma unat_mod_ring:
  assumes "ring_size n"
  shows "unat (x + y :: u32) mod unat n = (unat x + unat y) mod unat n"
    "unat h \<le> unat n \<Longrightarrow> unat (t - h :: u32) mod unat n = (unat t + (unat n - unat h)) mod unat n"
proof -
  obtain k where k: "k \<le> 9" "unat n = 2 ^ k" using assms by (rule ring_sizeE)
  have dvd: "(2 :: nat) ^ k dvd 2 ^ 32" by (rule le_imp_power_dvd) (use k in simp)
  then show add: "unat (x + y) mod unat n = (unat x + unat y) mod unat n" for x y :: u32
    by (simp add: unat_word_ariths k(2) mod_mod_cancel)
  assume h: "unat h \<le> unat n"
  have "(unat (t - h) + unat h) mod unat n = unat t mod unat n"
    using add [of "t - h" h] by simp
  then have "(unat (t - h) + unat h + (unat n - unat h)) mod unat n = (unat t + (unat n - unat h)) mod unat n"
    by (metis mod_add_left_eq)
  moreover have "unat (t - h) + unat h + (unat n - unat h) = unat (t - h) + unat n" using h by simp
  ultimately show "unat (t - h) mod unat n = (unat t + (unat n - unat h)) mod unat n"
    by (metis mod_add_self2)
qed

lemma next_index:
  "ring_size n \<Longrightarrow> unat (XXD (i + 1) n) = (unat i + 1) mod unat n"
  using unat_mod_ring(1) [of n i 1] by (simp add: XXD_mod)

lemma active_count:
  "ring_size n \<Longrightarrow> unat h < unat n \<Longrightarrow>
   unat (XXD (t - h) n) = (unat t + (unat n - unat h)) mod unat n"
  by (simp add: XXD_mod unat_mod_ring(2))

lemma prev_index:
  assumes "ring_size n"
  shows "unat (XXD (i - 1) n) = (unat i + (unat n - 1)) mod unat n"
  using unat_mod_ring(2) [OF assms, of 1 i] ring_size_pos [OF assms] XXD_mod [OF assms, of "i - 1"]
  by simp

section \<open>Segments\<close>

definition segment :: "'a list \<Rightarrow> nat \<Rightarrow> nat \<Rightarrow> nat \<Rightarrow> 'a list" where
  "segment xs n start m = map (\<lambda>j. xs ! ((start + j) mod n)) [0..<m]"

lemma length_segment [simp]: "length (segment xs n start m) = m"
  by (simp add: segment_def)

lemma segment_0 [simp]: "segment xs n start 0 = []"
  by (simp add: segment_def)

lemma segment_Suc: "segment xs n start (Suc m) = segment xs n start m @ [xs ! ((start + m) mod n)]"
  by (simp add: segment_def)

lemma segment_Cons:
  "segment xs n start (Suc m) = xs ! (start mod n) # segment xs n (Suc start) m"
  by (simp add: segment_def map_upt_Suc del: upt_Suc)

lemma segment_mod [simp]: "segment xs n (start mod n) m = segment xs n start m"
  by (simp add: segment_def mod_add_left_eq)

lemma segment_append:
  "segment xs n start (a + b) = segment xs n start a @ segment xs n (start + a) b"
  by (induction b) (simp_all add: segment_Suc add.assoc)

lemma ring_inj:
  fixes i j n :: nat
  assumes "i < n" "j < n" "(s + i) mod n = (s + j) mod n"
  shows "i = j"
proof -
  have "i \<le> j \<Longrightarrow> i < n \<Longrightarrow> j < n \<Longrightarrow> (s + i) mod n = (s + j) mod n \<Longrightarrow> i = j" for i j
  proof -
    assume a: "i \<le> j" "i < n" "j < n" "(s + i) mod n = (s + j) mod n"
    then have "(s + j - (s + i)) mod n = 0" by (metis add_le_cancel_left mod_eq_dvd_iff_nat dvd_imp_mod_0)
    with a show "i = j" by simp
  qed
  with assms show ?thesis by (metis nat_le_linear)
qed

lemma segment_update_outside:
  assumes "m \<le> j" "j < n"
  shows "segment (xs[(start + j) mod n := v]) n start m = segment xs n start m"
proof -
  have "(start + j) mod n \<noteq> (start + i) mod n" if "i < m" for i
    using ring_inj [of j n i start] that assms by auto
  then show ?thesis by (auto simp: segment_def)
qed

lemma segment_update_inside:
  assumes "j < m" "m \<le> n" "n \<le> length xs"
  shows "segment (xs[(start + j) mod n := v]) n start m = (segment xs n start m)[j := v]"
proof (rule nth_equalityI)
  fix i assume "i < length (segment (xs[(start + j) mod n := v]) n start m)"
  then have i: "i < m" by simp
  have lt: "(start + i) mod n < length xs" "(start + j) mod n < length xs"
    using assms by (auto intro: less_le_trans [OF mod_less_divisor])
  show "segment (xs[(start + j) mod n := v]) n start m ! i = (segment xs n start m)[j := v] ! i"
    using ring_inj [of i n j start] i assms lt
    by (cases "i = j") (auto simp: segment_def nth_list_update)
qed simp

section \<open>Active descriptors\<close>

definition ring_active :: "u32 \<Rightarrow> u32 \<Rightarrow> u32 \<Rightarrow> nat" where
  "ring_active n h t = unat (XXD (t - h) n)"

definition in_ring :: "u32 \<Rightarrow> u32 \<Rightarrow> bool" where
  "in_ring n i \<longleftrightarrow> unat i < unat n"

lemma in_ring_XXD [simp]: "ring_size n \<Longrightarrow> in_ring n (XXD x n)"
  by (simp add: in_ring_def XXD_less)

lemma ring_active_less: "ring_size n \<Longrightarrow> ring_active n h t < unat n"
  by (simp add: ring_active_def XXD_less)

lemma ring_end:
  assumes "ring_size n" "in_ring n h" "in_ring n t"
  shows "unat t = (unat h + ring_active n h t) mod unat n"
proof -
  have "ring_active n h t = (unat t + (unat n - unat h)) mod unat n"
    using assms active_count [of n h t] by (simp add: ring_active_def in_ring_def)
  then have "(unat h + ring_active n h t) mod unat n = (unat h + (unat t + (unat n - unat h))) mod unat n"
    by (simp add: mod_add_right_eq)
  also have "unat h + (unat t + (unat n - unat h)) = unat t + unat n" using assms(2) by (simp add: in_ring_def)
  finally show ?thesis using assms(3) by (simp add: in_ring_def)
qed

lemma ring_active_eqI:
  assumes "ring_size n" "in_ring n h" "in_ring n t" "unat t = (unat h + a) mod unat n" "a < unat n"
  shows "ring_active n h t = a"
  using ring_inj [of "ring_active n h t" "unat n" a "unat h"] ring_end [OF assms(1-3)] assms(4,5)
    ring_active_less [OF assms(1), of h t] by simp

lemma ring_full:
  assumes "ring_size n" "in_ring n h" "in_ring n t"
  shows "XXD (t + 1) n = h \<longleftrightarrow> ring_active n h t + 1 = unat n"
proof -
  let ?a = "ring_active n h t"
  have e: "unat (XXD (t + 1) n) = (unat h + (?a + 1)) mod unat n"
    using next_index [OF assms(1), of t] ring_end [OF assms] by (simp only: mod_add_left_eq add.assoc)
  have "XXD (t + 1) n = h \<longleftrightarrow> (unat h + (?a + 1)) mod unat n = unat h"
    using e by (metis unsigned_word_eqI)
  also have "\<dots> \<longleftrightarrow> ?a + 1 = unat n"
  proof
    assume h: "(unat h + (?a + 1)) mod unat n = unat h"
    have hn: "(unat h + 0) mod unat n = unat h" using assms(2) by (simp add: in_ring_def)
    show "?a + 1 = unat n"
    proof (rule ccontr)
      assume "?a + 1 \<noteq> unat n"
      with ring_active_less [OF assms(1), of h t] have "?a + 1 < unat n" by simp
      with ring_inj [of "?a + 1" "unat n" 0 "unat h"] h hn show False by simp
    qed
  next
    assume "?a + 1 = unat n"
    then show "(unat h + (?a + 1)) mod unat n = unat h" using assms(2) by (simp add: in_ring_def)
  qed
  finally show ?thesis .
qed

lemma ring_post:
  assumes "ring_size n" "in_ring n h" "in_ring n t" "ring_active n h t + 1 < unat n"
  shows "ring_active n h (XXD (t + 1) n) = ring_active n h t + 1"
proof (rule ring_active_eqI)
  show "unat (XXD (t + 1) n) = (unat h + (ring_active n h t + 1)) mod unat n"
    using next_index [OF assms(1), of t] ring_end [OF assms(1-3)]
    by (simp only: mod_add_left_eq add.assoc)
qed (use assms in simp_all)

lemma ring_take:
  assumes "ring_size n" "in_ring n h" "in_ring n t" "0 < ring_active n h t"
  shows "ring_active n (XXD (h + 1) n) t = ring_active n h t - 1"
proof (rule ring_active_eqI)
  obtain b where b: "ring_active n h t = Suc b" using assms(4) by (cases "ring_active n h t") auto
  have "(unat (XXD (h + 1) n) + b) mod unat n = (unat h + 1 + b) mod unat n"
    by (simp only: next_index [OF assms(1)] mod_add_left_eq)
  then show "unat t = (unat (XXD (h + 1) n) + (ring_active n h t - 1)) mod unat n"
    using ring_end [OF assms(1-3)] b by simp
  show "ring_active n h t - 1 < unat n" using ring_active_less [OF assms(1), of h t] by simp
qed (use assms in simp_all)

lemma ring_empty:
  assumes "ring_size n" "in_ring n h" "in_ring n t"
  shows "h = t \<longleftrightarrow> ring_active n h t = 0"
proof
  assume "h = t"
  then show "ring_active n h t = 0" by (simp add: ring_active_def XXD_def)
next
  assume "ring_active n h t = 0"
  with ring_end [OF assms] assms(2) have "unat h = unat t" by (simp add: in_ring_def)
  then show "h = t" by (rule unsigned_word_eqI)
qed

text \<open>Writing behind the active entries, the ring not full.\<close>

lemma segment_outside:
  assumes "ring_size n" "in_ring n h" "in_ring n t" "m \<le> ring_active n h t"
  shows "segment (xs[unat t := x]) (unat n) (unat h) m = segment xs (unat n) (unat h) m"
  using segment_update_outside [of m "ring_active n h t" "unat n" xs "unat h" x] ring_end [OF assms(1-3)]
    ring_active_less [OF assms(1), of h t] assms(4) by simp

lemma segment_post:
  assumes "ring_size n" "in_ring n h" "in_ring n t" "length xs = unat n"
  shows "segment (xs[unat t := x]) (unat n) (unat h) (Suc (ring_active n h t)) =
    segment xs (unat n) (unat h) (ring_active n h t) @ [x]"
  using segment_outside [OF assms(1-3) order_refl, of xs x] ring_end [OF assms(1-3)] assms(3,4)
  by (simp add: segment_Suc in_ring_def)

lemma ring_prev:
  assumes "ring_size n" "in_ring n h" "in_ring n t" "ring_active n h t = Suc b"
  shows "unat (XXD (t - 1) n) = (unat h + b) mod unat n"
proof -
  have "unat (XXD (t - 1) n) = ((unat h + Suc b) mod unat n + (unat n - 1)) mod unat n"
    using prev_index [OF assms(1), of t] ring_end [OF assms(1-3)] assms(4) by simp
  also have "\<dots> = (unat h + Suc b + (unat n - 1)) mod unat n" by (rule mod_add_left_eq)
  also have "unat h + Suc b + (unat n - 1) = (unat h + b) + unat n"
    using ring_size_pos [OF assms(1)] by simp
  finally show ?thesis by simp
qed

lemma segment_set_last:
  assumes "ring_size n" "in_ring n h" "in_ring n t" "ring_active n h t = Suc b" "length xs = unat n"
  shows "segment (xs[unat (XXD (t - 1) n) := x]) (unat n) (unat h) (Suc b) =
    segment xs (unat n) (unat h) b @ [x]"
proof -
  have lt: "b < unat n" using ring_active_less [OF assms(1), of h t] assms(4) by simp
  have "(unat h + b) mod unat n < length xs" using assms(5) ring_size_pos [OF assms(1)] by simp
  then show ?thesis
    using segment_update_outside [of b b "unat n" xs "unat h" x] lt ring_prev [OF assms(1-4)]
    by (simp add: segment_Suc)
qed

text \<open>Taking the first active entry.\<close>

lemma segment_take:
  assumes "ring_size n" "in_ring n h" "in_ring n t" "ring_active n h t = Suc b"
  shows "segment xs (unat n) (unat h) (Suc b) = xs ! unat h # segment xs (unat n) (unat (XXD (h + 1) n)) b"
    "segment (xs[unat h := x]) (unat n) (unat (XXD (h + 1) n)) b = segment xs (unat n) (unat (XXD (h + 1) n)) b"
proof -
  have h': "unat (XXD (h + 1) n) = Suc (unat h) mod unat n" using next_index [OF assms(1), of h] by simp
  have hn: "unat h < unat n" using assms(2) by (simp add: in_ring_def)
  show "segment xs (unat n) (unat h) (Suc b) = xs ! unat h # segment xs (unat n) (unat (XXD (h + 1) n)) b"
    using hn by (simp add: segment_Cons h')
  have "(Suc (unat h) + (unat n - 1)) mod unat n = unat h" using hn by simp
  moreover have "b \<le> unat n - 1" using ring_active_less [OF assms(1), of h t] assms(4) by simp
  ultimately have "segment (xs[unat h := x]) (unat n) (Suc (unat h)) b = segment xs (unat n) (Suc (unat h)) b"
    using segment_update_outside [of b "unat n - 1" "unat n" xs "Suc (unat h)" x] ring_size_pos [OF assms(1)]
    by simp
  then show "segment (xs[unat h := x]) (unat n) (unat (XXD (h + 1) n)) b = segment xs (unat n) (unat (XXD (h + 1) n)) b"
    by (simp add: h')
qed

end
