(* ===== verification/DmaCtl.thy ===== *)
theory DmaCtl
  imports DmaAttach Ring
begin

text \<open>
  The DMA engine: descriptors, registers, the software state \<open>dma_info_t\<close>, and the operations
  that only touch registers (\<open>hnddma.c\<close>, \<open>sbhnddma.h\<close>). Status registers are set by the hardware
  between calls; where the code reads a register repeatedly the values read are an argument.
  The bus is little-endian. Descriptor writes and register writes take effect at once.
\<close>

section \<open>Registers and descriptors\<close>

record dma32regs =
  r32_control :: u32
  r32_addr :: u32
  r32_ptr :: u32
  r32_status :: u32

record dma64regs =
  r64_control :: u32
  r64_ptr :: u32
  r64_addrlow :: u32
  r64_addrhigh :: u32
  r64_status0 :: u32
  r64_status1 :: u32

record dma32dd =
  dd_ctrl :: u32
  dd_addr :: u32

record dma64dd =
  dd_ctrl1 :: u32
  dd_ctrl2 :: u32
  dd_addrlow :: u32
  dd_addrhigh :: u32

abbreviation XC_XE :: u32 where "XC_XE \<equiv> 1"
abbreviation XC_SE :: u32 where "XC_SE \<equiv> 2"
abbreviation XC_LE :: u32 where "XC_LE \<equiv> 4"
abbreviation XC_AE :: u32 where "XC_AE \<equiv> 0x30000"
abbreviation XS_CD_MASK :: u32 where "XS_CD_MASK \<equiv> 0xFFF"
abbreviation XS_XS_MASK :: u32 where "XS_XS_MASK \<equiv> 0xF000"
abbreviation XS_XS_DISABLED :: u32 where "XS_XS_DISABLED \<equiv> 0"
abbreviation XS_XS_IDLE :: u32 where "XS_XS_IDLE \<equiv> 0x2000"
abbreviation XS_XS_STOPPED :: u32 where "XS_XS_STOPPED \<equiv> 0x3000"
abbreviation XS_AD_MASK :: u32 where "XS_AD_MASK \<equiv> 0xFFF00000"
abbreviation RC_RE :: u32 where "RC_RE \<equiv> 1"
abbreviation CTRL_BC_MASK :: u32 where "CTRL_BC_MASK \<equiv> 0x1FFF"
abbreviation CTRL_AE :: u32 where "CTRL_AE \<equiv> 0x30000"
abbreviation CTRL_EOT :: u32 where "CTRL_EOT \<equiv> 0x10000000"
abbreviation CTRL_IOC :: u32 where "CTRL_IOC \<equiv> 0x20000000"
abbreviation CTRL_EOF :: u32 where "CTRL_EOF \<equiv> 0x40000000"
abbreviation CTRL_SOF :: u32 where "CTRL_SOF \<equiv> 0x80000000"
abbreviation D64_XS0_CD_MASK :: u32 where "D64_XS0_CD_MASK \<equiv> 0x1FFF"
abbreviation D64_XS0_XS_MASK :: u32 where "D64_XS0_XS_MASK \<equiv> 0xF0000000"
abbreviation D64_XS0_XS_IDLE :: u32 where "D64_XS0_XS_IDLE \<equiv> 0x20000000"
abbreviation D64_XS0_XS_STOPPED :: u32 where "D64_XS0_XS_STOPPED \<equiv> 0x30000000"
abbreviation D64_XS1_AD_MASK :: u32 where "D64_XS1_AD_MASK \<equiv> 0x1FFFF"
abbreviation D64_CTRL2_BC_MASK :: u32 where "D64_CTRL2_BC_MASK \<equiv> 0x7FFF"
abbreviation D64_CTRL2_AE :: u32 where "D64_CTRL2_AE \<equiv> 0x30000"
abbreviation PCI32ADDR_HIGH :: u32 where "PCI32ADDR_HIGH \<equiv> 0xC0000000"

text \<open>A packet is known by a number. \<open>pkt_freed\<close> lists the packets given to \<open>PKTFREE\<close>, the latest
  last.\<close>

record dma_info =
  di_cfg :: dma_cfg
  txavail :: u32
  rxgiants :: u32
  rxnobuf :: u32
  txnobuf :: u32
  d32txregs :: dma32regs
  d32rxregs :: dma32regs
  d64txregs :: dma64regs
  d64rxregs :: dma64regs
  txd32 :: "dma32dd list"
  txd64 :: "dma64dd list"
  txin :: u32
  txout :: u32
  txp :: "nat option list"
  rxd32 :: "dma32dd list"
  rxd64 :: "dma64dd list"
  rxin :: u32
  rxout :: u32
  rxp :: "nat option list"
  pkt_freed :: "nat list"

definition TXD :: "dma_info \<Rightarrow> u32 \<Rightarrow> u32" where "TXD di x = XXD x (ntxd (di_cfg di))"
definition RXD :: "dma_info \<Rightarrow> u32 \<Rightarrow> u32" where "RXD di x = XXD x (nrxd (di_cfg di))"
definition NEXTTXD :: "dma_info \<Rightarrow> u32 \<Rightarrow> u32" where "NEXTTXD di i = TXD di (i + 1)"
definition PREVTXD :: "dma_info \<Rightarrow> u32 \<Rightarrow> u32" where "PREVTXD di i = TXD di (i - 1)"
definition NEXTRXD :: "dma_info \<Rightarrow> u32 \<Rightarrow> u32" where "NEXTRXD di i = RXD di (i + 1)"
definition NTXDACTIVE :: "dma_info \<Rightarrow> u32 \<Rightarrow> u32 \<Rightarrow> u32" where "NTXDACTIVE di h t = TXD di (t - h)"
definition NRXDACTIVE :: "dma_info \<Rightarrow> u32 \<Rightarrow> u32 \<Rightarrow> u32" where "NRXDACTIVE di h t = RXD di (t - h)"

definition B2I :: "u32 \<Rightarrow> u32 \<Rightarrow> u32" where "B2I bytes sz = bytes div sz"
definition I2B :: "u32 \<Rightarrow> u32 \<Rightarrow> u32" where "I2B index sz = index * sz"

text \<open>The sizes of the two descriptors.\<close>

abbreviation DD32 :: u32 where "DD32 \<equiv> 8"
abbreviation DD64 :: u32 where "DD64 \<equiv> 16"

section \<open>Descriptor updates\<close>

definition dma32_dd_upd ::
  "dma_cfg \<Rightarrow> dma32dd list \<Rightarrow> u32 \<Rightarrow> u32 \<Rightarrow> u32 \<Rightarrow> u32 \<Rightarrow> u32 \<times> dma32dd list" where
  "dma32_dd_upd di ddring pa outidx flags bufcount =
     (let flags = flags OR (bufcount AND CTRL_BC_MASK) in
      if dataoffsetlow di \<noteq> SB_PCI_DMA \<or> pa AND PCI32ADDR_HIGH = 0 then
        (flags, ddring[unat outidx := \<lparr>dd_ctrl = flags, dd_addr = pa + dataoffsetlow di\<rparr>])
      else
        (let ae = drop_bit 30 (pa AND PCI32ADDR_HIGH); pa = pa AND NOT PCI32ADDR_HIGH;
             flags = flags OR push_bit 16 ae
         in (flags, ddring[unat outidx := \<lparr>dd_ctrl = flags, dd_addr = pa + dataoffsetlow di\<rparr>])))"

definition dma64_dd_upd ::
  "dma_cfg \<Rightarrow> dma64dd list \<Rightarrow> u32 \<Rightarrow> u32 \<Rightarrow> u32 \<Rightarrow> u32 \<Rightarrow> u32 \<times> dma64dd list" where
  "dma64_dd_upd di ddring pa outidx flags bufcount =
     (let ctrl2 = bufcount AND D64_CTRL2_BC_MASK in
      if dataoffsetlow di \<noteq> SB_PCI_DMA \<or> pa AND PCI32ADDR_HIGH = 0 then
        (flags, ddring[unat outidx := \<lparr>dd_ctrl1 = flags, dd_ctrl2 = ctrl2,
           dd_addrlow = pa + dataoffsetlow di, dd_addrhigh = 0 + dataoffsethigh di\<rparr>])
      else
        (let ae = drop_bit 30 (pa AND PCI32ADDR_HIGH); pa = pa AND NOT PCI32ADDR_HIGH;
             ctrl2 = ctrl2 OR (push_bit 16 ae AND D64_CTRL2_AE)
         in (flags, ddring[unat outidx := \<lparr>dd_ctrl1 = flags, dd_ctrl2 = ctrl2,
              dd_addrlow = pa + dataoffsetlow di, dd_addrhigh = 0 + dataoffsethigh di\<rparr>])))"

section \<open>Ring base addresses\<close>

definition base32 :: "dma_cfg \<Rightarrow> u32 \<Rightarrow> dma32regs \<Rightarrow> dma32regs" where
  "base32 di pa r =
     (if ddoffsetlow di \<noteq> SB_PCI_DMA \<or> pa AND PCI32ADDR_HIGH = 0
      then r\<lparr>r32_addr := pa + ddoffsetlow di\<rparr>
      else (let ae = drop_bit 30 (pa AND PCI32ADDR_HIGH); pa = pa AND NOT PCI32ADDR_HIGH
            in r\<lparr>r32_addr := pa + ddoffsetlow di,
                 r32_control := (r32_control r AND NOT XC_AE) OR push_bit 16 ae\<rparr>))"

definition base64 :: "dma_cfg \<Rightarrow> u32 \<Rightarrow> dma64regs \<Rightarrow> dma64regs" where
  "base64 di pa r =
     (if ddoffsetlow di \<noteq> SB_PCI_DMA \<or> pa AND PCI32ADDR_HIGH = 0
      then r\<lparr>r64_addrlow := pa + ddoffsetlow di, r64_addrhigh := ddoffsethigh di\<rparr>
      else (let ae = drop_bit 30 (pa AND PCI32ADDR_HIGH); pa = pa AND NOT PCI32ADDR_HIGH
            in r\<lparr>r64_addrlow := pa + ddoffsetlow di, r64_addrhigh := ddoffsethigh di,
                 r64_control := (r64_control r AND NOT XC_AE) OR push_bit 16 ae\<rparr>))"

definition dma_ddtable_init :: "dma_info \<Rightarrow> direction \<Rightarrow> u32 \<Rightarrow> dma_info" where
  "dma_ddtable_init di direction pa =
     (let c = di_cfg di in
      if dma64 c then
        (if direction = DMA_TX then di\<lparr>d64txregs := base64 c pa (d64txregs di)\<rparr>
         else di\<lparr>d64rxregs := base64 c pa (d64rxregs di)\<rparr>)
      else
        (if direction = DMA_TX then di\<lparr>d32txregs := base32 c pa (d32txregs di)\<rparr>
         else di\<lparr>d32rxregs := base32 c pa (d32rxregs di)\<rparr>))"

section \<open>Register operations\<close>

text \<open>Probing the address extension bits: \<open>rd\<close> is what the control register gives back for a
  value written to it.\<close>

definition dma32_addrext :: "(u32 \<Rightarrow> u32) \<Rightarrow> dma32regs \<Rightarrow> bool \<times> dma32regs" where
  "dma32_addrext rd r =
     (let w = rd (r32_control r OR XC_AE)
      in (w AND XC_AE = XC_AE, r\<lparr>r32_control := w AND NOT XC_AE\<rparr>))"

definition dma64_addrext :: "(u32 \<Rightarrow> u32) \<Rightarrow> dma64regs \<Rightarrow> bool \<times> dma64regs" where
  "dma64_addrext rd r =
     (let w = rd (r64_control r OR XC_AE)
      in (w AND XC_AE = XC_AE, r\<lparr>r64_control := w AND NOT XC_AE\<rparr>))"

text \<open>\<open>tx\<close> and \<open>rx\<close> tell which channels exist. With 64-bit engines the probe only feeds an assertion.\<close>

definition dma_isaddrext :: "(u32 \<Rightarrow> u32) \<Rightarrow> bool \<Rightarrow> bool \<Rightarrow> dma_info \<Rightarrow> bool \<times> dma_info" where
  "dma_isaddrext rd tx rx di =
     (if dma64 (di_cfg di) then
        (if tx then (True, di\<lparr>d64txregs := snd (dma64_addrext rd (d64txregs di))\<rparr>)
         else if rx then (True, di\<lparr>d64rxregs := snd (dma64_addrext rd (d64rxregs di))\<rparr>)
         else (False, di))
      else if tx then
        (let (ae, r) = dma32_addrext rd (d32txregs di) in (ae, di\<lparr>d32txregs := r\<rparr>))
      else if rx then
        (let (ae, r) = dma32_addrext rd (d32rxregs di) in (ae, di\<lparr>d32rxregs := r\<rparr>))
      else (False, di))"

definition dma_fifoloopbackenable :: "dma_info \<Rightarrow> dma_info" where
  "dma_fifoloopbackenable di =
     (if dma64 (di_cfg di)
      then di\<lparr>d64txregs := (d64txregs di)\<lparr>r64_control := r64_control (d64txregs di) OR XC_LE\<rparr>\<rparr>
      else di\<lparr>d32txregs := (d32txregs di)\<lparr>r32_control := r32_control (d32txregs di) OR XC_LE\<rparr>\<rparr>)"

definition dma_rxenable :: "dma_info \<Rightarrow> dma_info" where
  "dma_rxenable di =
     (let w = push_bit 1 (rxoffset (di_cfg di)) OR RC_RE in
      if dma64 (di_cfg di) then di\<lparr>d64rxregs := (d64rxregs di)\<lparr>r64_control := w\<rparr>\<rparr>
      else di\<lparr>d32rxregs := (d32rxregs di)\<lparr>r32_control := w\<rparr>\<rparr>)"

definition zero32 :: dma32dd where "zero32 = \<lparr>dd_ctrl = 0, dd_addr = 0\<rparr>"
definition zero64 :: dma64dd where
  "zero64 = \<lparr>dd_ctrl1 = 0, dd_ctrl2 = 0, dd_addrlow = 0, dd_addrhigh = 0\<rparr>"

definition dma_rxinit :: "dma_info \<Rightarrow> dma_info" where
  "dma_rxinit di =
     (let c = di_cfg di in
      if nrxd c = 0 then di
      else
        (let di = di\<lparr>rxin := 0, rxout := 0\<rparr>;
             di = (if dma64 c then di\<lparr>rxd64 := replicate (unat (nrxd c)) zero64\<rparr>
                   else di\<lparr>rxd32 := replicate (unat (nrxd c)) zero32\<rparr>)
         in dma_ddtable_init (dma_rxenable di) DMA_RX (of_nat (rxdpa c))))"

definition dma32_txinit :: "dma_info \<Rightarrow> dma_info" where
  "dma32_txinit di =
     (let c = di_cfg di in
      if ntxd c = 0 then di
      else
        (let di = di\<lparr>txin := 0, txout := 0, txavail := ntxd c - 1,
                     txd32 := replicate (unat (ntxd c)) zero32,
                     d32txregs := (d32txregs di)\<lparr>r32_control := XC_XE\<rparr>\<rparr>
         in dma_ddtable_init di DMA_TX (of_nat (txdpa c))))"

definition dma64_txinit :: "dma_info \<Rightarrow> dma_info" where
  "dma64_txinit di =
     (let c = di_cfg di in
      if ntxd c = 0 then di
      else
        (let di = di\<lparr>txin := 0, txout := 0, txavail := ntxd c - 1,
                     txd64 := replicate (unat (ntxd c)) zero64,
                     d64txregs := (d64txregs di)\<lparr>r64_control := XC_XE\<rparr>\<rparr>
         in dma_ddtable_init di DMA_TX (of_nat (txdpa c))))"

definition dma32_txenabled :: "dma_info \<Rightarrow> bool" where
  "dma32_txenabled di =
     (let xc = r32_control (d32txregs di) in xc \<noteq> 0xFFFFFFFF \<and> xc AND XC_XE \<noteq> 0)"

definition dma64_txenabled :: "dma_info \<Rightarrow> bool" where
  "dma64_txenabled di =
     (let xc = r64_control (d64txregs di) in xc \<noteq> 0xFFFFFFFF \<and> xc AND XC_XE \<noteq> 0)"

definition dma32_txsuspend :: "dma_info \<Rightarrow> dma_info" where
  "dma32_txsuspend di =
     (if ntxd (di_cfg di) = 0 then di
      else di\<lparr>d32txregs := (d32txregs di)\<lparr>r32_control := r32_control (d32txregs di) OR XC_SE\<rparr>\<rparr>)"

definition dma64_txsuspend :: "dma_info \<Rightarrow> dma_info" where
  "dma64_txsuspend di =
     (if ntxd (di_cfg di) = 0 then di
      else di\<lparr>d64txregs := (d64txregs di)\<lparr>r64_control := r64_control (d64txregs di) OR XC_SE\<rparr>\<rparr>)"

definition dma32_txresume :: "dma_info \<Rightarrow> dma_info" where
  "dma32_txresume di =
     (if ntxd (di_cfg di) = 0 then di
      else di\<lparr>d32txregs := (d32txregs di)\<lparr>r32_control := r32_control (d32txregs di) AND NOT XC_SE\<rparr>\<rparr>)"

definition dma64_txresume :: "dma_info \<Rightarrow> dma_info" where
  "dma64_txresume di =
     (if ntxd (di_cfg di) = 0 then di
      else di\<lparr>d64txregs := (d64txregs di)\<lparr>r64_control := r64_control (d64txregs di) AND NOT XC_SE\<rparr>\<rparr>)"

definition dma32_txsuspended :: "dma_info \<Rightarrow> bool" where
  "dma32_txsuspended di \<longleftrightarrow>
     ntxd (di_cfg di) = 0 \<or> r32_control (d32txregs di) AND XC_SE = XC_SE"

definition dma64_txsuspended :: "dma_info \<Rightarrow> bool" where
  "dma64_txsuspended di \<longleftrightarrow>
     ntxd (di_cfg di) = 0 \<or> r64_control (d64txregs di) AND XC_SE = XC_SE"

definition dma32_txstopped :: "dma_info \<Rightarrow> bool" where
  "dma32_txstopped di \<longleftrightarrow> r32_status (d32txregs di) AND XS_XS_MASK = XS_XS_STOPPED"

definition dma64_txstopped :: "dma_info \<Rightarrow> bool" where
  "dma64_txstopped di \<longleftrightarrow> r64_status0 (d64txregs di) AND D64_XS0_XS_MASK = D64_XS0_XS_STOPPED"

definition dma32_rxstopped :: "dma_info \<Rightarrow> bool" where
  "dma32_rxstopped di \<longleftrightarrow> r32_status (d32rxregs di) AND XS_XS_MASK = XS_XS_STOPPED"

definition dma64_rxstopped :: "dma_info \<Rightarrow> bool" where
  "dma64_rxstopped di \<longleftrightarrow> r64_status0 (d64rxregs di) AND D64_XS0_XS_MASK = D64_XS0_XS_STOPPED"

definition dma32_rxidle :: "dma_info \<Rightarrow> bool" where
  "dma32_rxidle di \<longleftrightarrow>
     nrxd (di_cfg di) = 0 \<or> r32_status (d32rxregs di) AND XS_CD_MASK = r32_ptr (d32rxregs di)"

definition dma64_rxidle :: "dma_info \<Rightarrow> bool" where
  "dma64_rxidle di \<longleftrightarrow>
     nrxd (di_cfg di) = 0 \<or> r64_status0 (d64rxregs di) AND D64_XS0_CD_MASK = r64_ptr (d64rxregs di)"

definition dma32_rxenabled :: "dma_info \<Rightarrow> bool" where
  "dma32_rxenabled di =
     (let rc = r32_control (d32rxregs di) in rc \<noteq> 0xFFFFFFFF \<and> rc AND RC_RE \<noteq> 0)"

definition dma64_rxenabled :: "dma_info \<Rightarrow> bool" where
  "dma64_rxenabled di =
     (let rc = r64_control (d64rxregs di) in rc \<noteq> 0xFFFFFFFF \<and> rc AND RC_RE \<noteq> 0)"

text \<open>\<open>status2\<close> is the status after the delay.\<close>

definition dma32_txsuspendedidle :: "u32 \<Rightarrow> dma_info \<Rightarrow> bool" where
  "dma32_txsuspendedidle status2 di \<longleftrightarrow>
     ntxd (di_cfg di) = 0 \<or>
     r32_control (d32txregs di) AND XC_SE \<noteq> 0 \<and>
     r32_status (d32txregs di) AND XS_XS_MASK = XS_XS_IDLE \<and>
     status2 AND XS_XS_MASK = XS_XS_IDLE"

definition dma64_txsuspendedidle :: "dma_info \<Rightarrow> bool" where
  "dma64_txsuspendedidle di \<longleftrightarrow>
     ntxd (di_cfg di) = 0 \<or>
     r64_control (d64txregs di) AND XC_SE \<noteq> 0 \<and>
     r64_status0 (d64txregs di) AND D64_XS0_XS_MASK = D64_XS0_XS_IDLE"

text \<open>\<open>SPINWAIT\<close>: poll while the condition holds and time is left, 10 microseconds apart.
  \<open>polls\<close> are the values read; the result is the last one and the values left.\<close>

fun spinwait :: "(u32 \<Rightarrow> bool) \<Rightarrow> nat \<Rightarrow> (nat \<Rightarrow> u32) \<Rightarrow> nat \<Rightarrow> u32 \<times> nat" where
  "spinwait busy countdown polls i =
     (let w = polls i in
      if busy w \<and> 10 \<le> countdown then spinwait busy (countdown - 10) polls (Suc i)
      else (w, Suc i))"

declare spinwait.simps [simp del]

text \<open>Suspend, wait, disable, wait for the disabled state. \<open>mask\<close> selects the state from the status
  values \<open>polls\<close>; the three states are numbered alike in both engines.\<close>

definition dma32_txreset :: "(nat \<Rightarrow> u32) \<Rightarrow> dma_info \<Rightarrow> bool \<times> dma_info" where
  "dma32_txreset polls di =
     (if ntxd (di_cfg di) = 0 then (True, di)
      else
        (let st = (\<lambda>i. polls i AND XS_XS_MASK);
             (_, i) = spinwait (\<lambda>w. w \<noteq> XS_XS_DISABLED \<and> w \<noteq> XS_XS_IDLE \<and> w \<noteq> XS_XS_STOPPED)
                        (10000 + 9) st 0;
             (status, _) = spinwait (\<lambda>w. w \<noteq> XS_XS_DISABLED) (10000 + 9) st i
         in (status = XS_XS_DISABLED,
             di\<lparr>d32txregs := (d32txregs di)\<lparr>r32_control := 0\<rparr>\<rparr>)))"

definition dma64_txreset :: "(nat \<Rightarrow> u32) \<Rightarrow> dma_info \<Rightarrow> bool \<times> dma_info" where
  "dma64_txreset polls di =
     (if ntxd (di_cfg di) = 0 then (True, di)
      else
        (let st = (\<lambda>i. polls i AND D64_XS0_XS_MASK);
             (_, i) = spinwait (\<lambda>w. w \<noteq> 0 \<and> w \<noteq> D64_XS0_XS_IDLE \<and> w \<noteq> D64_XS0_XS_STOPPED)
                        (10000 + 9) st 0;
             (status, _) = spinwait (\<lambda>w. w \<noteq> 0) (10000 + 9) st i
         in (status = 0, di\<lparr>d64txregs := (d64txregs di)\<lparr>r64_control := 0\<rparr>\<rparr>)))"

definition dma32_rxreset :: "(nat \<Rightarrow> u32) \<Rightarrow> dma_info \<Rightarrow> bool \<times> dma_info" where
  "dma32_rxreset polls di =
     (if nrxd (di_cfg di) = 0 then (True, di)
      else
        (let (status, _) = spinwait (\<lambda>w. w \<noteq> XS_XS_DISABLED) (10000 + 9)
               (\<lambda>i. polls i AND XS_XS_MASK) 0
         in (status = XS_XS_DISABLED, di\<lparr>d32rxregs := (d32rxregs di)\<lparr>r32_control := 0\<rparr>\<rparr>)))"

definition dma64_rxreset :: "(nat \<Rightarrow> u32) \<Rightarrow> dma_info \<Rightarrow> bool \<times> dma_info" where
  "dma64_rxreset polls di =
     (if nrxd (di_cfg di) = 0 then (True, di)
      else
        (let (status, _) = spinwait (\<lambda>w. w \<noteq> 0) (10000 + 9) (\<lambda>i. polls i AND D64_XS0_XS_MASK) 0
         in (status = 0, di\<lparr>d64rxregs := (d64rxregs di)\<lparr>r64_control := 0\<rparr>\<rparr>)))"

definition dma_counterreset :: "dma_info \<Rightarrow> dma_info" where
  "dma_counterreset di = di\<lparr>rxgiants := 0, rxnobuf := 0, txnobuf := 0\<rparr>"

section \<open>Address width\<close>

definition dma_addrwidth :: "bool \<Rightarrow> bool \<Rightarrow> bool \<Rightarrow> bool \<Rightarrow> bool \<Rightarrow> bool \<Rightarrow> nat" where
  "dma_addrwidth core64 backplane64 sb_bus pci_bus pcie addrext32 =
     (if core64 then
        (if backplane64 \<and> (sb_bus \<or> pci_bus \<and> pcie) then 64 else 32)
      else if sb_bus \<or> pci_bus \<and> pcie \<or> addrext32 then 32
      else 30)"

section \<open>What the hardware sees\<close>

text \<open>The address and the byte count in a descriptor, the address extension bits put back.\<close>

definition bus_addr :: "dma_cfg \<Rightarrow> u32 \<Rightarrow> u32 \<Rightarrow> u32" where
  "bus_addr c addr ae =
     (if dataoffsetlow c = SB_PCI_DMA then (addr - SB_PCI_DMA) OR push_bit 30 ae
      else addr - dataoffsetlow c)"

definition view32 :: "dma_cfg \<Rightarrow> dma32dd \<Rightarrow> u32 \<times> u32" where
  "view32 c d = (bus_addr c (dd_addr d) (drop_bit 16 (dd_ctrl d) AND 3), dd_ctrl d AND CTRL_BC_MASK)"

definition view64 :: "dma_cfg \<Rightarrow> dma64dd \<Rightarrow> u32 \<times> u32" where
  "view64 c d =
     (bus_addr c (dd_addrlow d) (drop_bit 16 (dd_ctrl2 d) AND 3), dd_ctrl2 d AND D64_CTRL2_BC_MASK)"

definition frame_flags :: u32 where
  "frame_flags = CTRL_SOF OR CTRL_EOF OR CTRL_IOC OR CTRL_EOT"

lemma bit_mask_const:
  "bit (0xC0000000 :: u32) n \<longleftrightarrow> n = 30 \<or> n = 31"
  "bit (3 :: u32) n \<longleftrightarrow> n = 0 \<or> n = 1"
  "bit (0x1FFF :: u32) n \<longleftrightarrow> n < 13"
  "bit (0x7FFF :: u32) n \<longleftrightarrow> n < 15"
  "bit (0x30000 :: u32) n \<longleftrightarrow> n = 16 \<or> n = 17"
  "bit (0xF0000000 :: u32) n \<longleftrightarrow> n = 28 \<or> n = 29 \<or> n = 30 \<or> n = 31"
proof -
  have c: "(0xC0000000 :: u32) = push_bit 30 (mask 2)" "(3 :: u32) = mask 2" "(0x1FFF :: u32) = mask 13"
    "(0x7FFF :: u32) = mask 15" "(0x30000 :: u32) = push_bit 16 (mask 2)"
    "(0xF0000000 :: u32) = push_bit 28 (mask 4)"
    by (simp_all add: mask_eq_exp_minus_1)
  show "bit (0xC0000000 :: u32) n \<longleftrightarrow> n = 30 \<or> n = 31" unfolding c by (auto simp: bit_simps)
  show "bit (3 :: u32) n \<longleftrightarrow> n = 0 \<or> n = 1" unfolding c by (auto simp: bit_simps)
  show "bit (0x1FFF :: u32) n \<longleftrightarrow> n < 13" unfolding c by (auto simp: bit_simps)
  show "bit (0x7FFF :: u32) n \<longleftrightarrow> n < 15" unfolding c by (auto simp: bit_simps)
  show "bit (0x30000 :: u32) n \<longleftrightarrow> n = 16 \<or> n = 17" unfolding c by (auto simp: bit_simps)
  show "bit (0xF0000000 :: u32) n \<longleftrightarrow> n = 28 \<or> n = 29 \<or> n = 30 \<or> n = 31"
    unfolding c by (auto simp: bit_simps)
qed

lemma address_extension:
  fixes pa :: u32
  shows "(pa AND NOT PCI32ADDR_HIGH) OR push_bit 30 (drop_bit 30 (pa AND PCI32ADDR_HIGH)) = pa"
    "pa AND PCI32ADDR_HIGH = 0 \<Longrightarrow> drop_bit 30 (pa AND PCI32ADDR_HIGH) = 0"
    "drop_bit 30 (pa AND PCI32ADDR_HIGH) AND 3 = drop_bit 30 (pa AND PCI32ADDR_HIGH)"
proof -
  show "(pa AND NOT PCI32ADDR_HIGH) OR push_bit 30 (drop_bit 30 (pa AND PCI32ADDR_HIGH)) = pa"
  proof (rule bit_word_eqI)
    fix n assume "n < LENGTH(32)"
    then show "bit ((pa AND NOT PCI32ADDR_HIGH) OR push_bit 30 (drop_bit 30 (pa AND PCI32ADDR_HIGH))) n = bit pa n"
      by (auto simp: bit_simps bit_mask_const simp del: bit_numeral_word_iff)
  qed
  show "drop_bit 30 (pa AND PCI32ADDR_HIGH) AND 3 = drop_bit 30 (pa AND PCI32ADDR_HIGH)"
    by (rule bit_word_eqI) (auto simp: bit_simps bit_mask_const simp del: bit_numeral_word_iff)
qed simp

lemma small_and:
  "len \<le> 0x1FFF \<Longrightarrow> (len :: u32) AND CTRL_BC_MASK = len"
  "len \<le> 0x7FFF \<Longrightarrow> len AND D64_CTRL2_BC_MASK = len"
proof -
  have c: "(0x1FFF :: u32) = mask 13" "(0x7FFF :: u32) = mask 15" by (simp_all add: mask_eq_exp_minus_1)
  show "len AND CTRL_BC_MASK = len" if "len \<le> 0x1FFF"
  proof (rule unsigned_word_eqI)
    have "unat len \<le> 8191" using that by (simp add: word_le_nat_alt)
    then show "unat (len AND CTRL_BC_MASK) = unat len" unfolding c by (simp add: unat_and_mask)
  qed
  show "len AND D64_CTRL2_BC_MASK = len" if "len \<le> 0x7FFF"
  proof (rule unsigned_word_eqI)
    have "unat len \<le> 32767" using that by (simp add: word_le_nat_alt)
    then show "unat (len AND D64_CTRL2_BC_MASK) = unat len" unfolding c by (simp add: unat_and_mask)
  qed
qed

text \<open>The control word of a 32-bit descriptor: frame flags, address extension and byte count do
  not overlap.\<close>

lemma ctrl_fields:
  fixes fl len ae :: u32
  assumes fl: "fl AND 0xF0000000 = fl" and len: "len AND 0x1FFF = len" and ae: "ae AND 3 = ae"
  defines "w \<equiv> (fl OR len) OR push_bit 16 ae"
  shows "w AND 0x1FFF = len" "drop_bit 16 w AND 3 = ae" "w AND 0xF0000000 = fl"
proof -
  have b: "bit fl n \<Longrightarrow> 28 \<le> n" "bit len n \<Longrightarrow> n < 13" "bit ae n \<Longrightarrow> n < 2" for n
  proof -
    show "bit fl n \<Longrightarrow> 28 \<le> n"
      using arg_cong [OF fl, of "\<lambda>w. bit w n"] by (auto simp: bit_simps bit_mask_const simp del: bit_numeral_word_iff)
    show "bit len n \<Longrightarrow> n < 13"
      using arg_cong [OF len, of "\<lambda>w. bit w n"] by (auto simp: bit_simps bit_mask_const simp del: bit_numeral_word_iff)
    show "bit ae n \<Longrightarrow> n < 2"
      using arg_cong [OF ae, of "\<lambda>w. bit w n"] by (auto simp: bit_simps bit_mask_const simp del: bit_numeral_word_iff)
  qed
  have b': "bit fl n \<Longrightarrow> n < 32" "bit (x :: u32) n \<Longrightarrow> n < 32" for n x
    by (auto dest: bit_imp_le_length)
  show "w AND 0x1FFF = len"
  proof (rule bit_word_eqI)
    fix n show "bit (w AND 0x1FFF) n = bit len n"
      using b(1) [of n] b(2) [of n] by (auto simp: w_def bit_simps bit_mask_const simp del: bit_numeral_word_iff)
  qed
  show "drop_bit 16 w AND 3 = ae"
  proof (rule bit_word_eqI)
    fix n show "bit (drop_bit 16 w AND 3) n = bit ae n"
      using b(1) [of "n + 16"] b(2) [of "n + 16"] b(3) [of n]
      by (auto simp: w_def bit_simps bit_mask_const add.commute simp del: bit_numeral_word_iff)
  qed
  show "w AND 0xF0000000 = fl"
  proof (rule bit_word_eqI)
    fix n show "bit (w AND 0xF0000000) n = bit fl n"
      using b(1) [of n] b(2) [of n] b(3) [of "n - 16"] b'(1) [of n]
      by (auto simp: w_def bit_simps bit_mask_const simp del: bit_numeral_word_iff)
  qed
qed

lemma bus_addr_low:
  "dataoffsetlow c \<noteq> SB_PCI_DMA \<or> ae = 0 \<Longrightarrow> bus_addr c (pa + dataoffsetlow c) ae = pa"
  by (auto simp: bus_addr_def)

lemma bus_addr_ext:
  "dataoffsetlow c = SB_PCI_DMA \<Longrightarrow>
   bus_addr c ((pa AND NOT PCI32ADDR_HIGH) + dataoffsetlow c) (drop_bit 30 (pa AND PCI32ADDR_HIGH)) = pa"
proof -
  assume "dataoffsetlow c = SB_PCI_DMA"
  moreover have "x + SB_PCI_DMA - SB_PCI_DMA = x" for x :: u32 by (rule add_diff_cancel_right')
  ultimately have "bus_addr c ((pa AND NOT PCI32ADDR_HIGH) + dataoffsetlow c) (drop_bit 30 (pa AND PCI32ADDR_HIGH)) =
      (pa AND NOT PCI32ADDR_HIGH) OR push_bit 30 (drop_bit 30 (pa AND PCI32ADDR_HIGH))"
    unfolding bus_addr_def by (simp only: if_True refl)
  then show ?thesis by (simp only: address_extension(1))
qed

lemma dma32_dd_upd_view:
  assumes "fl AND 0xF0000000 = fl" "len \<le> 0x1FFF" "dma32_dd_upd c ring pa idx fl len = (f, ring')"
  shows "\<exists>d. ring' = ring[unat idx := d] \<and> dd_ctrl d = f \<and> view32 c d = (pa, len) \<and> f AND 0xF0000000 = fl"
proof -
  have len: "len AND CTRL_BC_MASK = len" by (rule small_and(1) [OF assms(2)])
  have nest: "drop_bit 30 (pa AND PCI32ADDR_HIGH) AND 3 = drop_bit 30 (pa AND PCI32ADDR_HIGH)"
    by (rule address_extension(3))
  show ?thesis
  proof (cases "dataoffsetlow c \<noteq> SB_PCI_DMA \<or> pa AND PCI32ADDR_HIGH = 0")
    case True
    define d where "d = \<lparr>dd_ctrl = fl OR len, dd_addr = pa + dataoffsetlow c\<rparr>"
    have r: "f = fl OR len" "ring' = ring[unat idx := d]"
      using assms(3) True len by (auto simp: dma32_dd_upd_def Let_def d_def)
    have "f = (fl OR len) OR push_bit 16 0" using r(1) by simp
    note cf = ctrl_fields [OF assms(1) len, of 0, simplified] 
    have "view32 c d = (pa, len)"
      using cf bus_addr_low [of c 0 pa] True by (simp add: view32_def d_def)
    with r cf show ?thesis by (auto simp: d_def)
  next
    case False
    define ae where "ae = drop_bit 30 (pa AND PCI32ADDR_HIGH)"
    define d where "d = \<lparr>dd_ctrl = (fl OR len) OR push_bit 16 ae,
        dd_addr = (pa AND NOT PCI32ADDR_HIGH) + dataoffsetlow c\<rparr>"
    have r: "f = (fl OR len) OR push_bit 16 ae" "ring' = ring[unat idx := d]"
      using assms(3) False len unfolding dma32_dd_upd_def Let_def d_def ae_def by auto
    note cf = ctrl_fields [OF assms(1) len nest [folded ae_def]]
    have "view32 c d = (pa, len)"
      using cf bus_addr_ext [of c pa] False by (simp add: view32_def d_def ae_def)
    with r cf show ?thesis by (auto simp: d_def)
  qed
qed

lemma dma64_dd_upd_view:
  assumes "len \<le> 0x7FFF" "dma64_dd_upd c ring pa idx fl len = (f, ring')"
  shows "\<exists>d. ring' = ring[unat idx := d] \<and> dd_ctrl1 d = fl \<and> view64 c d = (pa, len) \<and> f = fl"
proof -
  have len: "len AND D64_CTRL2_BC_MASK = len" by (rule small_and(2) [OF assms(1)])
  define ae where "ae = drop_bit 30 (pa AND PCI32ADDR_HIGH)"
  have nest: "ae AND 3 = ae" unfolding ae_def by (rule address_extension(3))
  have fields: "(len OR (push_bit 16 x AND D64_CTRL2_AE)) AND D64_CTRL2_BC_MASK = len \<and>
      drop_bit 16 (len OR (push_bit 16 x AND D64_CTRL2_AE)) AND 3 = x" if "x AND 3 = x" for x :: u32
  proof -
    have b: "bit len n \<Longrightarrow> n < 15" "bit x n \<Longrightarrow> n < 2" for n
      using arg_cong [OF len, of "\<lambda>w. bit w n"] arg_cong [OF that, of "\<lambda>w. bit w n"]
      by (auto simp: bit_simps bit_mask_const simp del: bit_numeral_word_iff)
    have "push_bit 16 x AND D64_CTRL2_AE = push_bit 16 (x AND 3)" by simp
    then have ae: "push_bit 16 x AND D64_CTRL2_AE = push_bit 16 x" using that by simp
    have "bit ((len OR push_bit 16 x) AND D64_CTRL2_BC_MASK) n = bit len n"
      "bit (drop_bit 16 (len OR push_bit 16 x) AND 3) n = bit x n" for n
      using b(1) [of n] b(2) [of n] b(1) [of "n + 16"]
      by (auto simp: bit_simps bit_mask_const add.commute simp del: bit_numeral_word_iff)
    then show ?thesis unfolding ae by (auto intro!: bit_word_eqI)
  qed
  show ?thesis
  proof (cases "dataoffsetlow c \<noteq> SB_PCI_DMA \<or> pa AND PCI32ADDR_HIGH = 0")
    case True
    define d where "d = \<lparr>dd_ctrl1 = fl, dd_ctrl2 = len, dd_addrlow = pa + dataoffsetlow c,
        dd_addrhigh = dataoffsethigh c\<rparr>"
    have r: "f = fl" "ring' = ring[unat idx := d]"
      using assms(2) True len by (auto simp: dma64_dd_upd_def Let_def d_def)
    have "view64 c d = (pa, len)"
      using fields [of 0] bus_addr_low [of c 0 pa] True by (simp add: view64_def d_def)
    with r show ?thesis by (auto simp: d_def)
  next
    case False
    define d where "d = \<lparr>dd_ctrl1 = fl, dd_ctrl2 = len OR (push_bit 16 ae AND D64_CTRL2_AE),
        dd_addrlow = (pa AND NOT PCI32ADDR_HIGH) + dataoffsetlow c, dd_addrhigh = dataoffsethigh c\<rparr>"
    have r: "f = fl" "ring' = ring[unat idx := d]"
      using assms(2) False len unfolding dma64_dd_upd_def Let_def d_def ae_def by auto
    have "view64 c d = (pa, len)"
      using fields [OF nest] bus_addr_ext [of c pa] False by (simp add: view64_def d_def ae_def)
    with r show ?thesis by (auto simp: d_def)
  qed
qed

section \<open>Polling\<close>

lemma spinwait_spec:
  assumes "spinwait busy (10 * n + 9) polls i = (w, k)"
  shows "i < k \<and> k \<le> i + n + 1 \<and> w = polls (k - 1) \<and> (\<forall>j. i \<le> j \<and> j < k - 1 \<longrightarrow> busy (polls j)) \<and>
    (busy w \<longrightarrow> k = i + n + 1)"
  using assms
proof (induction n arbitrary: i)
  case 0
  then show ?case by (subst (asm) spinwait.simps) (auto simp: Let_def)
next
  case (Suc n)
  show ?case
  proof (cases "busy (polls i)")
    case False
    with Suc.prems show ?thesis by (subst (asm) spinwait.simps) (auto simp: Let_def)
  next
    case True
    then have "spinwait busy (10 * n + 9) polls (Suc i) = (w, k)"
      using Suc.prems by (subst (asm) spinwait.simps) (simp add: Let_def add.commute)
    note ih = Suc.IH [OF this]
    have b: "busy (polls j)" if "i \<le> j" "j < k - 1" for j
    proof (cases "j = i")
      case False
      with that have "Suc i \<le> j" by simp
      with ih that show ?thesis by blast
    qed (simp add: True)
    have "Suc i < k" "k \<le> Suc i + n + 1" "busy w \<longrightarrow> k = Suc i + n + 1" using ih by blast+
    then have f: "i < k" "k \<le> i + Suc n + 1" "busy w \<longrightarrow> k = i + Suc n + 1" by simp_all
    have w: "w = polls (k - 1)" using ih by (elim conjE)
    show ?thesis by (intro conjI allI impI f(1,2) w f(3) [rule_format]) (elim conjE, rule b, assumption+)
  qed
qed

text \<open>Two waits in a row, the second for the state zero.\<close>

lemma spinwait_reaches:
  assumes zero: "\<And>j. t \<le> j \<Longrightarrow> polls j = 0" and t: "t \<le> i + n"
    and run: "spinwait (\<lambda>w. w \<noteq> 0) (10 * n + 9) polls i = (w, k)"
  shows "w = 0"
proof (rule ccontr)
  assume "w \<noteq> 0"
  with spinwait_spec [OF run] have "w = polls (i + n)" by simp
  with zero [OF t] \<open>w \<noteq> 0\<close> show False by simp
qed

end
