(* ===== verification/DmaTx.thy ===== *)
theory DmaTx
  imports DmaCtl
begin

text \<open>
  The transmit ring (\<open>hnddma.c\<close>): posting a packet, reclaiming sent ones, looking at the next one,
  and rotating the ring. The 32- and the 64-bit engine run the same code over their own
  descriptors; its loops are written once here, with the descriptor update as an argument. A
  chain of buffers is the list of their lengths and the bus addresses \<open>DMA_MAP\<close> gives them.
\<close>

section \<open>Posting\<close>

text \<open>The loop over the buffers: \<open>False\<close> when it jumps to \<open>outoftxd\<close>.\<close>

fun txwalk ::
  "('d list \<Rightarrow> u32 \<Rightarrow> u32 \<Rightarrow> u32 \<Rightarrow> u32 \<Rightarrow> u32 \<times> 'd list) \<Rightarrow> u32 \<Rightarrow> u32 \<Rightarrow> bool \<Rightarrow> (u32 \<times> u32) list \<Rightarrow>
   u32 \<Rightarrow> u32 \<Rightarrow> 'd list \<Rightarrow> bool \<times> u32 \<times> u32 \<times> 'd list" where
  "txwalk upd n tin first [] tout flags ring = (True, tout, flags, ring)"
| "txwalk upd n tin first ((len, pa) # bs) tout flags ring =
     (if XXD (tout + 1) n = tin then (False, tout, flags, ring)
      else if len = 0 then txwalk upd n tin False bs tout flags ring
      else
        (let flags = (if first then CTRL_SOF else 0) OR
                     (if bs = [] then CTRL_IOC OR CTRL_EOF else 0) OR
                     (if tout = n - 1 then CTRL_EOT else 0);
             (flags, ring) = upd ring pa tout flags len
         in txwalk upd n tin False bs (XXD (tout + 1) n) flags ring))"

text \<open>Setting the end-of-frame bits afterwards.\<close>

definition txfix :: "('d \<Rightarrow> u32 \<Rightarrow> 'd) \<Rightarrow> u32 \<Rightarrow> u32 \<Rightarrow> u32 \<Rightarrow> 'd list \<Rightarrow> 'd list" where
  "txfix setflags n tout flags ring =
     (if flags AND CTRL_EOF = 0
      then (let prev = unat (XXD (tout - 1) n)
            in ring[prev := setflags (ring ! prev) (flags OR (CTRL_IOC OR CTRL_EOF))])
      else ring)"

definition set_ctrl :: "dma32dd \<Rightarrow> u32 \<Rightarrow> dma32dd" where "set_ctrl d w = d\<lparr>dd_ctrl := w\<rparr>"
definition set_ctrl1 :: "dma64dd \<Rightarrow> u32 \<Rightarrow> dma64dd" where "set_ctrl1 d w = d\<lparr>dd_ctrl1 := w\<rparr>"

definition dma32_txfast :: "dma_info \<Rightarrow> nat \<Rightarrow> (u32 \<times> u32) list \<Rightarrow> bool \<Rightarrow> int \<times> dma_info" where
  "dma32_txfast di p0 bs commit =
     (let c = di_cfg di in
      case txwalk (dma32_dd_upd c) (ntxd c) (txin di) True bs (txout di) 0 (txd32 di) of
        (False, tout, flags, ring) \<Rightarrow>
          (-1, di\<lparr>txd32 := ring, pkt_freed := pkt_freed di @ [p0], txavail := 0,
                  txnobuf := txnobuf di + 1\<rparr>)
      | (True, tout, flags, ring) \<Rightarrow>
          (let di = di\<lparr>txd32 := txfix set_ctrl (ntxd c) tout flags ring,
                       txp := (txp di)[unat (PREVTXD di tout) := Some p0], txout := tout\<rparr>;
               di = (if commit then di\<lparr>d32txregs := (d32txregs di)\<lparr>r32_ptr := I2B tout DD32\<rparr>\<rparr> else di)
           in (0, di\<lparr>txavail := ntxd c - NTXDACTIVE di (txin di) (txout di) - 1\<rparr>)))"

definition dma64_txfast :: "dma_info \<Rightarrow> nat \<Rightarrow> (u32 \<times> u32) list \<Rightarrow> bool \<Rightarrow> int \<times> dma_info" where
  "dma64_txfast di p0 bs commit =
     (let c = di_cfg di in
      case txwalk (dma64_dd_upd c) (ntxd c) (txin di) True bs (txout di) 0 (txd64 di) of
        (False, tout, flags, ring) \<Rightarrow>
          (-1, di\<lparr>txd64 := ring, pkt_freed := pkt_freed di @ [p0], txavail := 0,
                  txnobuf := txnobuf di + 1\<rparr>)
      | (True, tout, flags, ring) \<Rightarrow>
          (let di = di\<lparr>txd64 := txfix set_ctrl1 (ntxd c) tout flags ring,
                       txp := (txp di)[unat (PREVTXD di tout) := Some p0], txout := tout\<rparr>;
               di = (if commit then di\<lparr>d64txregs := (d64txregs di)\<lparr>r64_ptr := I2B tout DD64\<rparr>\<rparr> else di)
           in (0, di\<lparr>txavail := ntxd c - NTXDACTIVE di (txin di) (txout di) - 1\<rparr>)))"

section \<open>Reclaiming\<close>

text \<open>The loop of \<open>getnexttxp\<close>: it may run round the ring for ever when the end index is not an
  index of the ring, so it is given \<open>fuel\<close> steps; the ring has at most 512 entries. \<open>zap\<close> marks a
  reclaimed descriptor.\<close>

fun reclaim_loop ::
  "('d \<Rightarrow> 'd) \<Rightarrow> nat \<Rightarrow> u32 \<Rightarrow> u32 \<Rightarrow> u32 \<Rightarrow> nat option \<Rightarrow> 'd list \<Rightarrow> nat option list \<Rightarrow>
   (nat option \<times> u32 \<times> 'd list \<times> nat option list) option" where
  "reclaim_loop zap fuel n i e p ring ps =
     (if i = e \<or> p \<noteq> None then Some (p, i, ring, ps)
      else
        (case fuel of
           0 \<Rightarrow> None
         | Suc fuel \<Rightarrow>
             reclaim_loop zap fuel n (XXD (i + 1) n) e (ps ! unat i)
               (ring[unat i := zap (ring ! unat i)]) (ps[unat i := None])))"

declare reclaim_loop.simps [simp del]

definition zap32 :: "dma32dd \<Rightarrow> dma32dd" where "zap32 d = d\<lparr>dd_addr := 0xDEADBEEF\<rparr>"
definition zap64 :: "dma64dd \<Rightarrow> dma64dd" where
  "zap64 d = d\<lparr>dd_addrlow := 0xDEADBEEF, dd_addrhigh := 0xDEADBEEF\<rparr>"

abbreviation RING_FUEL :: nat where "RING_FUEL \<equiv> 512"

definition dma32_getnexttxp :: "dma_info \<Rightarrow> bool \<Rightarrow> (nat option \<times> dma_info) option" where
  "dma32_getnexttxp di forceall =
     (let n = ntxd (di_cfg di) in
      if n = 0 then Some (None, di)
      else
        (let start = txin di;
             e = (if forceall then txout di
                  else B2I (r32_status (d32txregs di) AND XS_CD_MASK) DD32)
         in if start = 0 \<and> e > txout di then Some (None, di)
            else
              (case reclaim_loop zap32 RING_FUEL n start e None (txd32 di) (txp di) of
                 None \<Rightarrow> None
               | Some (p, i, ring, ps) \<Rightarrow>
                   (let di = di\<lparr>txd32 := ring, txp := ps, txin := i\<rparr>
                    in Some (p, di\<lparr>txavail := n - NTXDACTIVE di (txin di) (txout di) - 1\<rparr>)))))"

definition dma64_getnexttxp :: "dma_info \<Rightarrow> bool \<Rightarrow> (nat option \<times> dma_info) option" where
  "dma64_getnexttxp di forceall =
     (let n = ntxd (di_cfg di) in
      if n = 0 then Some (None, di)
      else
        (let start = txin di;
             e = (if forceall then txout di
                  else B2I (r64_status0 (d64txregs di) AND D64_XS0_CD_MASK) DD64)
         in if start = 0 \<and> e > txout di then Some (None, di)
            else
              (case reclaim_loop zap64 RING_FUEL n start e None (txd64 di) (txp di) of
                 None \<Rightarrow> None
               | Some (p, i, ring, ps) \<Rightarrow>
                   (let di = di\<lparr>txd64 := ring, txp := ps, txin := i\<rparr>
                    in Some (p, di\<lparr>txavail := n - NTXDACTIVE di (txin di) (txout di) - 1\<rparr>)))))"

text \<open>\<open>txreclaim\<close>: the packets are freed one after the other.\<close>

fun txreclaim_loop ::
  "(dma_info \<Rightarrow> bool \<Rightarrow> (nat option \<times> dma_info) option) \<Rightarrow> nat \<Rightarrow> bool \<Rightarrow> dma_info \<Rightarrow> dma_info option" where
  "txreclaim_loop getnext fuel forceall di =
     (case fuel of
        0 \<Rightarrow> None
      | Suc fuel \<Rightarrow>
          (case getnext di forceall of
             None \<Rightarrow> None
           | Some (None, di) \<Rightarrow> Some di
           | Some (Some p, di) \<Rightarrow>
               txreclaim_loop getnext fuel forceall (di\<lparr>pkt_freed := pkt_freed di @ [p]\<rparr>)))"

declare txreclaim_loop.simps [simp del]

definition dma32_txreclaim :: "dma_info \<Rightarrow> bool \<Rightarrow> dma_info option" where
  "dma32_txreclaim di forceall = txreclaim_loop dma32_getnexttxp (Suc RING_FUEL) forceall di"

definition dma64_txreclaim :: "dma_info \<Rightarrow> bool \<Rightarrow> dma_info option" where
  "dma64_txreclaim di forceall = txreclaim_loop dma64_getnexttxp (Suc RING_FUEL) forceall di"

fun peek_loop :: "nat \<Rightarrow> u32 \<Rightarrow> u32 \<Rightarrow> u32 \<Rightarrow> nat option list \<Rightarrow> nat option option" where
  "peek_loop fuel n i e ps =
     (if i = e then Some None
      else if ps ! unat i \<noteq> None then Some (ps ! unat i)
      else (case fuel of 0 \<Rightarrow> None | Suc fuel \<Rightarrow> peek_loop fuel n (XXD (i + 1) n) e ps))"

declare peek_loop.simps [simp del]

definition dma_peeknexttxp :: "dma_info \<Rightarrow> nat option option" where
  "dma_peeknexttxp di =
     (let n = ntxd (di_cfg di) in
      if n = 0 then Some None
      else
        (let e = (if dma64 (di_cfg di)
                  then B2I (r64_status0 (d64txregs di) AND D64_XS0_CD_MASK) DD64
                  else B2I (r32_status (d32txregs di) AND XS_CD_MASK) DD32)
         in peek_loop RING_FUEL n (txin di) e (txp di)))"

section \<open>Flow control\<close>

definition dma_txblock :: "dma_info \<Rightarrow> dma_info" where
  "dma_txblock di = di\<lparr>txavail := 0\<rparr>"

definition dma_txunblock :: "dma_info \<Rightarrow> dma_info" where
  "dma_txunblock di =
     di\<lparr>txavail := ntxd (di_cfg di) - NTXDACTIVE di (txin di) (txout di) - 1\<rparr>"

definition dma_txactive :: "dma_info \<Rightarrow> u32" where
  "dma_txactive di = NTXDACTIVE di (txin di) (txout di)"

section \<open>Rotating\<close>

definition rot32 :: "bool \<Rightarrow> dma32dd \<Rightarrow> dma32dd" where
  "rot32 is_last d =
     \<lparr>dd_ctrl = (dd_ctrl d AND NOT CTRL_EOT) OR (if is_last then CTRL_EOT else 0), dd_addr = dd_addr d\<rparr>"

definition rot64 :: "bool \<Rightarrow> dma64dd \<Rightarrow> dma64dd" where
  "rot64 is_last d =
     \<lparr>dd_ctrl1 = (dd_ctrl1 d AND NOT CTRL_EOT) OR (if is_last then CTRL_EOT else 0),
      dd_ctrl2 = dd_ctrl2 d, dd_addrlow = dd_addrlow d, dd_addrhigh = dd_addrhigh d\<rparr>"

text \<open>Moving the entries from \<open>old\<close> backwards until \<open>stop\<close>.\<close>

fun rotate_loop ::
  "(bool \<Rightarrow> 'd \<Rightarrow> 'd) \<Rightarrow> ('d \<Rightarrow> 'd) \<Rightarrow> nat \<Rightarrow> u32 \<Rightarrow> u32 \<Rightarrow> u32 \<Rightarrow> u32 \<Rightarrow> 'd list \<Rightarrow> nat option list \<Rightarrow>
   ('d list \<times> nat option list) option" where
  "rotate_loop mv zap fuel n rot old stop ring ps =
     (if old = stop then Some (ring, ps)
      else
        (case fuel of
           0 \<Rightarrow> None
         | Suc fuel \<Rightarrow>
             (let new = XXD (old + rot) n;
                  ring = ring[unat new := mv (new = n - 1) (ring ! unat old)];
                  ring = ring[unat old := zap (ring ! unat old)];
                  ps = (ps[unat new := ps ! unat old])[unat old := None]
              in rotate_loop mv zap fuel n rot (XXD (old - 1) n) stop ring ps)))"

declare rotate_loop.simps [simp del]

definition dma32_txrotate :: "dma_info \<Rightarrow> dma_info option" where
  "dma32_txrotate di =
     (let n = ntxd (di_cfg di); nactive = dma_txactive di;
          ad = B2I (drop_bit 20 (r32_status (d32txregs di) AND XS_AD_MASK)) DD32;
          rot = TXD di (ad - txin di)
      in if rot \<ge> n - nactive then Some di
         else
           (case rotate_loop rot32 zap32 RING_FUEL n rot (PREVTXD di (txout di)) (PREVTXD di (txin di))
                   (txd32 di) (txp di) of
              None \<Rightarrow> None
            | Some (ring, ps) \<Rightarrow>
                (let di = di\<lparr>txd32 := ring, txp := ps, txin := ad, txout := TXD di (txout di + rot)\<rparr>;
                     di = di\<lparr>txavail := n - NTXDACTIVE di (txin di) (txout di) - 1\<rparr>
                 in Some (di\<lparr>d32txregs := (d32txregs di)\<lparr>r32_ptr := I2B (txout di) DD32\<rparr>\<rparr>))))"

definition dma64_txrotate :: "dma_info \<Rightarrow> dma_info option" where
  "dma64_txrotate di =
     (let n = ntxd (di_cfg di); nactive = dma_txactive di;
          ad = B2I (r64_status1 (d64txregs di) AND D64_XS1_AD_MASK) DD64;
          rot = TXD di (ad - txin di)
      in if rot \<ge> n - nactive then Some di
         else
           (case rotate_loop rot64 zap64 RING_FUEL n rot (PREVTXD di (txout di)) (PREVTXD di (txin di))
                   (txd64 di) (txp di) of
              None \<Rightarrow> None
            | Some (ring, ps) \<Rightarrow>
                (let di = di\<lparr>txd64 := ring, txp := ps, txin := ad, txout := TXD di (txout di + rot)\<rparr>;
                     di = di\<lparr>txavail := n - NTXDACTIVE di (txin di) (txout di) - 1\<rparr>
                 in Some (di\<lparr>d64txregs := (d64txregs di)\<lparr>r64_ptr := I2B (txout di) DD64\<rparr>\<rparr>))))"

end
