(* ===== verification/DmaQueue.thy ===== *)
theory DmaQueue
  imports DmaTx
begin

text \<open>
  The transmit ring as a queue of packets: each packet with the descriptors that are still to be
  sent. What both engines promise of their descriptors is the locale \<open>dd_engine\<close>; the operations of
  \<open>DmaTx\<close> are shown to be the queue operations there, and the two engines are its instances.
\<close>

section \<open>The queue in the ring\<close>

text \<open>A descriptor as the hardware reads it: address and length, and its frame flags. The flag
  \<open>EOT\<close> belongs to the last index of the ring.\<close>

type_synonym desc = "(u32 \<times> u32) \<times> u32"

abbreviation FLAGS :: u32 where "FLAGS \<equiv> 0xF0000000"

definition dview :: "('d \<Rightarrow> u32 \<times> u32) \<Rightarrow> ('d \<Rightarrow> u32) \<Rightarrow> 'd \<Rightarrow> desc" where
  "dview vw df d = (vw d, df d AND FLAGS)"

definition eot_at :: "nat \<Rightarrow> nat \<Rightarrow> u32" where
  "eot_at n i = (if i mod n = n - 1 then CTRL_EOT else 0)"

fun eots :: "nat \<Rightarrow> nat \<Rightarrow> desc list \<Rightarrow> desc list" where
  "eots n i [] = []"
| "eots n i (d # ds) =
     (fst d, snd d OR eot_at n i) # eots n (Suc i) ds"

definition slots :: "nat \<times> desc list \<Rightarrow> nat option list" where
  "slots e = replicate (length (snd e) - 1) None @ [Some (fst e)]"

definition tx_ring ::
  "('d \<Rightarrow> desc) \<Rightarrow> u32 \<Rightarrow> u32 \<Rightarrow> u32 \<Rightarrow> 'd list \<Rightarrow> nat option list \<Rightarrow> (nat \<times> desc list) list \<Rightarrow> bool" where
  "tx_ring dv n h t ring ps q \<longleftrightarrow>
     ring_size n \<and> in_ring n h \<and> in_ring n t \<and> length ring = unat n \<and> length ps = unat n \<and>
     (\<forall>e \<in> set q. snd e \<noteq> [] \<and> (\<forall>d \<in> set (snd e). snd d AND CTRL_EOT = 0)) \<and>
     segment ps (unat n) (unat h) (ring_active n h t) = concat (map slots q) \<and>
     map dv (segment ring (unat n) (unat h) (ring_active n h t)) =
       eots (unat n) (unat h) (concat (map snd q)) \<and>
     (\<forall>j. ring_active n h t \<le> j \<and> j < unat n \<longrightarrow> ps ! ((unat h + j) mod unat n) = None)"

lemma length_eots [simp]: "length (eots n i ds) = length ds"
  by (induction ds arbitrary: i) auto

lemma eots_append: "eots n i (xs @ ys) = eots n i xs @ eots n (i + length xs) ys"
  by (induction xs arbitrary: i) auto

lemma eots_cong: "i mod n = j mod n \<Longrightarrow> eots n i ds = eots n j ds"
proof (induction ds arbitrary: i j)
  case (Cons d ds)
  then have "Suc i mod n = Suc j mod n" by (metis mod_Suc_eq)
  moreover have "eot_at n i = eot_at n j" using Cons.prems by (simp add: eot_at_def)
  ultimately show ?case using Cons.IH [of "Suc i" "Suc j"] by simp
qed simp

lemma length_slots: "snd e \<noteq> [] \<Longrightarrow> length (slots e) = length (snd e)"
  by (cases "snd e") (simp_all add: slots_def)

lemma tx_ring_active:
  assumes "tx_ring dv n h t ring ps q"
  shows "ring_active n h t = length (concat (map snd q))"
proof -
  have "length (map dv (segment ring (unat n) (unat h) (ring_active n h t))) =
      length (eots (unat n) (unat h) (concat (map snd q)))"
    using assms unfolding tx_ring_def by metis
  then show ?thesis by simp
qed

text \<open>The descriptors a chain of buffers should become.\<close>

definition sof_flag :: "bool \<Rightarrow> u32" where "sof_flag b = (if b then CTRL_SOF else 0)"
definition end_flag :: "bool \<Rightarrow> u32" where "end_flag b = (if b then CTRL_IOC OR CTRL_EOF else 0)"

definition frame :: "bool \<Rightarrow> (u32 \<times> u32) list \<Rightarrow> desc list" where
  "frame sof bs =
     map (\<lambda>j. ((snd (bs ! j), fst (bs ! j)), sof_flag (sof \<and> j = 0) OR end_flag (Suc j = length bs)))
       [0..<length bs]"

abbreviation nonempty :: "(u32 \<times> u32) list \<Rightarrow> (u32 \<times> u32) list" where
  "nonempty bs \<equiv> filter (\<lambda>b. fst b \<noteq> 0) bs"

text \<open>The descriptors as the loop writes them, before the end of frame is set.\<close>

fun posted :: "bool \<Rightarrow> (u32 \<times> u32) list \<Rightarrow> desc list" where
  "posted first [] = []"
| "posted first ((len, pa) # bs) =
     (if len = 0 then posted False bs
      else ((pa, len), sof_flag first OR end_flag (bs = [])) # posted False bs)"

lemma length_posted [simp]: "length (posted first bs) = length (nonempty bs)"
  by (induction first bs rule: posted.induct) auto

definition with_end :: "desc \<Rightarrow> desc" where
  "with_end d = (fst d, snd d OR end_flag True)"

definition set_end :: "desc list \<Rightarrow> desc list" where
  "set_end ds = butlast ds @ [with_end (last ds)]"

lemma set_end_Cons: "ds \<noteq> [] \<Longrightarrow> set_end (d # ds) = d # set_end ds" "set_end [d] = [with_end d]"
  by (simp_all add: set_end_def)

lemma end_flag_twice: "(x OR end_flag b) OR end_flag True = x OR end_flag True"
  by (cases b) (simp_all add: end_flag_def [of False] or.assoc)

lemma frame_Cons:
  "bs \<noteq> [] \<Longrightarrow> frame sof ((len, pa) # bs) = ((pa, len), sof_flag sof) # frame False bs"
  by (simp add: frame_def map_upt_Suc sof_flag_def [of False] end_flag_def [of False] del: upt_Suc)

lemma frame_single: "frame sof [(len, pa)] = [((pa, len), sof_flag sof OR end_flag True)]"
  by (simp add: frame_def)

lemma posted_frame:
  assumes "nonempty bs \<noteq> []"
  shows "set_end (posted first bs) = frame (first \<and> fst (hd bs) \<noteq> 0) (nonempty bs)"
  using assms
proof (induction first bs rule: posted.induct)
  case (2 first len pa bs)
  show ?case
  proof (cases "len = 0")
    case True
    with 2 have ne: "nonempty bs \<noteq> []" by simp
    with 2 True have ih: "set_end (posted False bs) = frame False (nonempty bs)" by simp
    with True show ?thesis by simp
  next
    case False
    show ?thesis
    proof (cases "nonempty bs = []")
      case True
      then have "posted False bs = []" by (metis length_posted length_0_conv)
      then have p: "posted first ((len, pa) # bs) = [((pa, len), sof_flag first OR end_flag (bs = []))]"
        using False by (simp only: posted.simps if_False)
      have "nonempty ((len, pa) # bs) = [(len, pa)]" using True False by (simp only: filter.simps fst_conv if_True not_False_eq_True)
      then show ?thesis
        using False by (simp only: p set_end_Cons frame_single with_end_def end_flag_twice fst_conv snd_conv
          list.sel simp_thms)
    next
      case ne: False
      then have "posted False bs \<noteq> []" by (metis length_posted length_0_conv)
      moreover have "bs \<noteq> []" using ne by (metis filter.simps(1))
      moreover from this 2(2) [OF False ne] have "set_end (posted False bs) = frame False (nonempty bs)" by simp
      ultimately show ?thesis using False ne by (simp add: frame_Cons set_end_Cons end_flag_def [of False])
    qed
  qed
qed simp

section \<open>Descriptors of an engine\<close>

locale dd_engine =
  fixes upd :: "'d list \<Rightarrow> u32 \<Rightarrow> u32 \<Rightarrow> u32 \<Rightarrow> u32 \<Rightarrow> u32 \<times> 'd list"
    and vw :: "'d \<Rightarrow> u32 \<times> u32"
    and df :: "'d \<Rightarrow> u32"
    and setf :: "'d \<Rightarrow> u32 \<Rightarrow> 'd"
    and mv :: "bool \<Rightarrow> 'd \<Rightarrow> 'd"
    and maxlen :: u32
  assumes upd: "fl AND FLAGS = fl \<Longrightarrow> len \<le> maxlen \<Longrightarrow> upd ring pa i fl len = (f, ring') \<Longrightarrow>
      \<exists>d. ring' = ring[unat i := d] \<and> df d = f \<and> vw d = (pa, len) \<and> f AND FLAGS = fl"
    and setf: "dview vw df (setf d (df d OR (CTRL_IOC OR CTRL_EOF))) = with_end (dview vw df d)"
    and mv: "dview vw df (mv b d) = (vw d, ((df d AND FLAGS) AND NOT CTRL_EOT) OR (if b then CTRL_EOT else 0))"

lemma word_flags:
  assumes "ring_size n" "in_ring n t"
  shows "((if first then CTRL_SOF else 0) OR (if l then CTRL_IOC OR CTRL_EOF else 0) OR
      (if t = n - 1 then CTRL_EOT else 0)) = (sof_flag first OR end_flag l) OR eot_at (unat n) (unat t)"
proof -
  have "n \<noteq> 0" using ring_size_pos [OF assms(1)] by auto
  then have "unat (n - 1) = unat n - 1" by (simp add: unat_minus_one)
  then have "t = n - 1 \<longleftrightarrow> unat t = unat n - 1" by (metis unsigned_word_eqI)
  moreover have "unat t mod unat n = unat t" using assms(2) by (simp add: in_ring_def)
  ultimately have "eot_at (unat n) (unat t) = (if t = n - 1 then CTRL_EOT else 0)" by (simp only: eot_at_def)
  then show ?thesis by (simp only: sof_flag_def end_flag_def or.assoc)
qed

lemma flags_in_mask: "((sof_flag b OR end_flag c) OR eot_at n i) AND FLAGS = (sof_flag b OR end_flag c) OR eot_at n i"
  by (cases b; cases c; cases "i mod n = n - 1") (simp_all add: sof_flag_def end_flag_def eot_at_def)

context dd_engine
begin

lemma txwalk_ok:
  assumes "txwalk upd n h first bs t fl ring = (True, t', fl', ring')" "ring_size n" "in_ring n h" "in_ring n t"
    "length ring = unat n" "\<forall>b \<in> set bs. fst b \<le> maxlen"
  shows "in_ring n t' \<and> length ring' = unat n \<and>
    ring_active n h t' = ring_active n h t + length (nonempty bs) \<and>
    map (dview vw df) (segment ring' (unat n) (unat h) (ring_active n h t')) =
      map (dview vw df) (segment ring (unat n) (unat h) (ring_active n h t)) @
      eots (unat n) (unat h + ring_active n h t) (posted first bs) \<and>
    (if nonempty bs = [] then fl' = fl \<and> ring' = ring \<and> t' = t
     else fl' = df (ring' ! ((unat h + (ring_active n h t' - 1)) mod unat n)))"
  using assms
proof (induction bs arbitrary: first t fl ring)
  case Nil
  then show ?case by simp
next
  case (Cons b bs)
  obtain len pa where b: "b = (len, pa)" by (cases b)
  have nf: "XXD (t + 1) n \<noteq> h" using Cons.prems(1) b by (auto split: if_splits)
  have bnds: "\<forall>b \<in> set bs. fst b \<le> maxlen" using Cons.prems(6) by simp
  show ?case
  proof (cases "len = 0")
    case True
    then have "txwalk upd n h False bs t fl ring = (True, t', fl', ring')" using Cons.prems(1) b nf by simp
    note ih = Cons.IH [OF this Cons.prems(2-5) bnds]
    have same: "posted first (b # bs) = posted False bs" "nonempty (b # bs) = nonempty bs"
      using b True by simp_all
    show ?thesis unfolding same by (rule ih)
  next
    case False
    let ?a = "ring_active n h t"
    define w where "w = (sof_flag first OR end_flag (bs = [])) OR eot_at (unat n) (unat t)"
    obtain f ring1 where u: "upd ring pa t w len = (f, ring1)" by (cases "upd ring pa t w len")
    have len: "len \<le> maxlen" using Cons.prems(6) b by simp
    obtain d where d: "ring1 = ring[unat t := d]" "df d = f" "vw d = (pa, len)" "f AND FLAGS = w"
      using upd [OF flags_in_mask [of first "bs = []" "unat n" "unat t", folded w_def] len u] by blast
    have run: "txwalk upd n h False bs (XXD (t + 1) n) f ring1 = (True, t', fl', ring')"
      using Cons.prems(1) b nf False u
      by (simp only: txwalk.simps if_False Let_def word_flags [OF Cons.prems(2,4)] w_def [symmetric] prod.case)
    have lt: "?a + 1 < unat n"
      using ring_full [OF Cons.prems(2-4)] nf ring_active_less [OF Cons.prems(2), of h t] by simp
    have a1: "ring_active n h (XXD (t + 1) n) = ?a + 1" by (rule ring_post [OF Cons.prems(2-4) lt])
    have len1: "length ring1 = unat n" using d(1) Cons.prems(5) by simp
    note ih = Cons.IH [OF run Cons.prems(2,3) in_ring_XXD [OF Cons.prems(2)] len1 bnds]
    have w_end: "eot_at (unat n) (unat t) = eot_at (unat n) (unat h + ?a)"
      using ring_end [OF Cons.prems(2-4)] by (simp add: eot_at_def)
    have seg: "map (dview vw df) (segment ring1 (unat n) (unat h) (?a + 1)) =
        map (dview vw df) (segment ring (unat n) (unat h) ?a) @
        [((pa, len), (sof_flag first OR end_flag (bs = [])) OR eot_at (unat n) (unat h + ?a))]"
      using segment_post [OF Cons.prems(2-5), of d] d w_end by (simp add: dview_def w_def)
    have last: "nonempty bs = [] \<longrightarrow> fl' = df (ring' ! ((unat h + (ring_active n h t' - 1)) mod unat n))"
    proof
      assume e: "nonempty bs = []"
      with ih have "fl' = f" "ring' = ring1" "t' = XXD (t + 1) n" by simp_all
      moreover have "unat t < length ring" using Cons.prems(4,5) by (simp add: in_ring_def)
      ultimately show "fl' = df (ring' ! ((unat h + (ring_active n h t' - 1)) mod unat n))"
        using a1 d ring_end [OF Cons.prems(2-4)] by simp
    qed
    have act: "ring_active n h t' = ?a + length (nonempty (b # bs))" using ih a1 b False by simp
    have ihd: "map (dview vw df) (segment ring' (unat n) (unat h) (ring_active n h t')) =
        map (dview vw df) (segment ring1 (unat n) (unat h) (ring_active n h (XXD (t + 1) n))) @
        eots (unat n) (unat h + ring_active n h (XXD (t + 1) n)) (posted False bs)"
      using ih by (elim conjE)
    have descs: "map (dview vw df) (segment ring' (unat n) (unat h) (ring_active n h t')) =
        map (dview vw df) (segment ring (unat n) (unat h) ?a) @
        eots (unat n) (unat h + ?a) (posted first (b # bs))"
      unfolding ihd a1 seg using b False by simp
    have ne: "nonempty (b # bs) \<noteq> []" using b False by simp
    have fl: "fl' = df (ring' ! ((unat h + (ring_active n h t' - 1)) mod unat n))"
      using ih last by (metis (no_types, lifting))
    from ih act descs fl ne show ?thesis by (metis (no_types, lifting))
  qed
qed

lemma txwalk_keeps:
  assumes "txwalk upd n h first bs t fl ring = (b, t', fl', ring')" "ring_size n" "in_ring n h" "in_ring n t"
    "length ring = unat n" "\<forall>b \<in> set bs. fst b \<le> maxlen" "k \<le> ring_active n h t"
  shows "segment ring' (unat n) (unat h) k = segment ring (unat n) (unat h) k \<and> length ring' = unat n"
  using assms
proof (induction bs arbitrary: first t fl ring)
  case (Cons x bs)
  obtain len pa where x: "x = (len, pa)" by (cases x)
  have bnds: "\<forall>b \<in> set bs. fst b \<le> maxlen" and len: "len \<le> maxlen" using Cons.prems(6) x by simp_all
  consider "XXD (t + 1) n = h" | "XXD (t + 1) n \<noteq> h" "len = 0" | "XXD (t + 1) n \<noteq> h" "len \<noteq> 0" by blast
  then show ?case
  proof cases
    case 1
    with Cons.prems x show ?thesis by simp
  next
    case 2
    then have "txwalk upd n h False bs t fl ring = (b, t', fl', ring')" using Cons.prems(1) x by simp
    from Cons.IH [OF this Cons.prems(2-5) bnds Cons.prems(7)] show ?thesis .
  next
    case 3
    define w where "w = (sof_flag first OR end_flag (bs = [])) OR eot_at (unat n) (unat t)"
    obtain f ring1 where u: "upd ring pa t w len = (f, ring1)" by (cases "upd ring pa t w len")
    obtain d where d: "ring1 = ring[unat t := d]"
      using upd [OF flags_in_mask [of first "bs = []" "unat n" "unat t", folded w_def] len u] by blast
    have run: "txwalk upd n h False bs (XXD (t + 1) n) f ring1 = (b, t', fl', ring')"
      using Cons.prems(1) x 3 u
      by (simp only: txwalk.simps if_False Let_def word_flags [OF Cons.prems(2,4)] w_def [symmetric] prod.case)
    have lt: "ring_active n h t + 1 < unat n"
      using ring_full [OF Cons.prems(2-4)] 3 ring_active_less [OF Cons.prems(2), of h t] by simp
    have k: "k \<le> ring_active n h (XXD (t + 1) n)"
      using ring_post [OF Cons.prems(2-4) lt] Cons.prems(7) by simp
    have len1: "length ring1 = unat n" using d Cons.prems(5) by simp
    from Cons.IH [OF run Cons.prems(2,3) in_ring_XXD [OF Cons.prems(2)] len1 bnds k]
    show ?thesis using segment_outside [OF Cons.prems(2-4,7), of ring d] d by simp
  qed
qed simp

lemma txwalk_fits:
  assumes "ring_size n" "in_ring n h" "in_ring n t"
  shows "fst (txwalk upd n h first bs t fl ring) \<longleftrightarrow>
    bs = [] \<or> ring_active n h t + length (nonempty (butlast bs)) + 1 < unat n"
  using assms
proof (induction bs arbitrary: first t fl ring)
  case (Cons x bs)
  obtain len pa where x: "x = (len, pa)" by (cases x)
  let ?a = "ring_active n h t"
  have full: "XXD (t + 1) n = h \<longleftrightarrow> ?a + 1 = unat n" by (rule ring_full [OF Cons.prems])
  have a: "?a < unat n" by (rule ring_active_less [OF Cons.prems(1)])
  consider "?a + 1 = unat n" | "?a + 1 < unat n" "len = 0" | "?a + 1 < unat n" "len \<noteq> 0" using a by linarith
  then show ?case
  proof cases
    case 2
    then have "XXD (t + 1) n \<noteq> h" using full by simp
    then have "txwalk upd n h first (x # bs) t fl ring = txwalk upd n h False bs t fl ring"
      using x 2 by simp
    with Cons.IH [OF Cons.prems] x 2 show ?thesis by (cases "bs = []") simp_all
  next
    case 3
    then have "XXD (t + 1) n \<noteq> h" using full by simp
    moreover define w where "w = (if first then CTRL_SOF else 0) OR (if bs = [] then CTRL_IOC OR CTRL_EOF else 0) OR
      (if t = n - 1 then CTRL_EOT else 0)"
    moreover obtain f ring1 where "upd ring pa t w len = (f, ring1)" by (cases "upd ring pa t w len")
    ultimately have
      run: "txwalk upd n h first (x # bs) t fl ring = txwalk upd n h False bs (XXD (t + 1) n) f ring1"
      using x 3 by (simp only: txwalk.simps if_False Let_def prod.case)
    have "ring_active n h (XXD (t + 1) n) = ?a + 1" by (rule ring_post [OF Cons.prems 3(1)])
    with Cons.IH [OF Cons.prems(1,2) in_ring_XXD [OF Cons.prems(1)]] run x 3
    show ?thesis by (cases "bs = []") simp_all
  qed (use x full in simp)
qed simp

text \<open>The end of the frame.\<close>

lemma posted_flags:
  "posted first bs \<noteq> [] \<Longrightarrow> \<exists>s c. snd (last (posted first bs)) = sof_flag s OR end_flag c"
proof (induction first bs rule: posted.induct)
  case (2 first len pa bs)
  show ?case
  proof (cases "len \<noteq> 0 \<and> posted False bs = []")
    case True
    then show ?thesis by auto
  next
    case False
    then have "posted False bs \<noteq> []" "last (posted first ((len, pa) # bs)) = last (posted False bs)"
      using 2(3) by (auto split: if_splits)
    with 2 show ?thesis by (cases "len = 0") auto
  qed
qed simp

lemma end_set:
  "((sof_flag s OR end_flag c) OR eot_at n i) AND CTRL_EOF = 0 \<longleftrightarrow> \<not> c"
  by (cases s; cases c; cases "i mod n = n - 1") (simp_all add: sof_flag_def end_flag_def eot_at_def)

lemma eots_snoc: "eots n i (ds @ [d]) = eots n i ds @ [(fst d, snd d OR eot_at n (i + length ds))]"
  by (simp add: eots_append)

lemma with_end_eot: "with_end (v, f OR e) = (fst (with_end (v, f)), snd (with_end (v, f)) OR e)"
  by (simp add: with_end_def ac_simps del: or.left_commute) (metis or.assoc or.commute)

lemma txfix_ok:
  assumes ring: "ring_size n" "in_ring n h" "in_ring n t" "length ring = unat n"
    and act: "ring_active n h t = Suc b" "b = a + length ds"
    and descs: "map (dview vw df) (segment ring (unat n) (unat h) (Suc b)) =
        D @ eots (unat n) (unat h + a) (ds @ [d])"
    and D: "length D = a"
    and d: "snd d = sof_flag s OR end_flag c"
    and fl: "fl = df (ring ! ((unat h + b) mod unat n))"
  shows "map (dview vw df) (segment (txfix setf n t fl ring) (unat n) (unat h) (Suc b)) =
      D @ eots (unat n) (unat h + a) (ds @ [with_end d])"
    "length (txfix setf n t fl ring) = unat n"
proof -
  let ?x = "ring ! ((unat h + b) mod unat n)"
  let ?v = "(fst d, snd d OR eot_at (unat n) (unat h + b))"
  have split: "map (dview vw df) (segment ring (unat n) (unat h) b) @ [dview vw df ?x] =
      (D @ eots (unat n) (unat h + a) ds) @ [?v]"
    using descs act(2) by (simp add: segment_Suc eots_snoc add.assoc)
  then have x: "dview vw df ?x = ?v" and init: "map (dview vw df) (segment ring (unat n) (unat h) b) =
      D @ eots (unat n) (unat h + a) ds" by simp_all
  have prev: "unat (XXD (t - 1) n) = (unat h + b) mod unat n" by (rule ring_prev [OF ring(1-3) act(1)])
  have eof: "fl AND CTRL_EOF = 0 \<longleftrightarrow> \<not> c"
  proof -
    have "fl AND CTRL_EOF = (fl AND FLAGS) AND CTRL_EOF" by (simp add: and.assoc)
    also have "fl AND FLAGS = (sof_flag s OR end_flag c) OR eot_at (unat n) (unat h + b)"
      using x d fl by (simp add: dview_def)
    finally show ?thesis by (simp only: end_set)
  qed
  show "length (txfix setf n t fl ring) = unat n" using ring(4) by (simp add: txfix_def Let_def)
  show "map (dview vw df) (segment (txfix setf n t fl ring) (unat n) (unat h) (Suc b)) =
      D @ eots (unat n) (unat h + a) (ds @ [with_end d])"
  proof (cases c)
    case True
    then have "with_end d = d" using d by (simp add: with_end_def end_flag_twice prod_eq_iff)
    moreover have "txfix setf n t fl ring = ring" using eof True by (simp add: txfix_def)
    ultimately show ?thesis using descs by simp
  next
    case False
    then have fx: "txfix setf n t fl ring =
        ring[unat (XXD (t - 1) n) := setf ?x (df ?x OR (CTRL_IOC OR CTRL_EOF))]"
      using eof prev fl by (simp only: txfix_def Let_def if_True simp_thms)
    have "dview vw df (setf ?x (df ?x OR (CTRL_IOC OR CTRL_EOF))) =
        (fst (with_end d), snd (with_end d) OR eot_at (unat n) (unat h + b))"
      using setf [of ?x] x with_end_eot [of "fst d" "snd d"] by (simp only: prod.collapse)
    then show ?thesis
      unfolding fx segment_set_last [OF ring(1-3) act(1) ring(4)]
      using init act(2) by (simp add: eots_snoc add.assoc)
  qed
qed

text \<open>Posting a packet with data, and failing to.\<close>

lemma frame_no_eot: "d \<in> set (frame sof bs) \<Longrightarrow> snd d AND CTRL_EOT = 0"
proof -
  have "(sof_flag x OR end_flag y) AND CTRL_EOT = 0" for x y
    by (cases x; cases y) (simp_all add: sof_flag_def end_flag_def)
  then show "d \<in> set (frame sof bs) \<Longrightarrow> snd d AND CTRL_EOT = 0" by (auto simp: frame_def)
qed

lemma length_frame [simp]: "length (frame sof bs) = length bs"
  by (simp add: frame_def)

lemma post_queue:
  assumes tx: "tx_ring (dview vw df) n h t ring ps q" and ne: "nonempty bs \<noteq> []"
    and len: "\<forall>b \<in> set bs. fst b \<le> maxlen"
    and run: "txwalk upd n h True bs t 0 ring = (True, t', fl, ring')"
  shows "tx_ring (dview vw df) n h t' (txfix setf n t' fl ring') (ps[unat (XXD (t' - 1) n) := Some p])
      (q @ [(p, frame (fst (hd bs) \<noteq> 0) (nonempty bs))])"
proof -
  let ?a = "ring_active n h t" and ?a' = "ring_active n h t'" and ?m = "length (nonempty bs)"
  have wf: "ring_size n" "in_ring n h" "in_ring n t" "length ring = unat n" "length ps = unat n"
    using tx by (simp_all add: tx_ring_def)
  note walk = txwalk_ok [OF run wf(1-4) len]
  have t': "in_ring n t'" and len': "length ring' = unat n" and act: "?a' = ?a + ?m" using walk by simp_all
  have p_ne: "posted True bs \<noteq> []" using ne by (metis length_posted length_0_conv)
  then obtain ds d where pd: "posted True bs = ds @ [d]" by (cases "posted True bs" rule: rev_cases) auto
  then obtain s c where d: "snd d = sof_flag s OR end_flag c" using posted_flags [OF p_ne] by auto
  have m: "?m = Suc (length ds)" using length_posted [of True bs] pd by simp
  have act': "?a' = Suc (?a + length ds)" using act m by simp
  have descs: "map (dview vw df) (segment ring' (unat n) (unat h) (Suc (?a + length ds))) =
      map (dview vw df) (segment ring (unat n) (unat h) ?a) @ eots (unat n) (unat h + ?a) (ds @ [d])"
    using walk pd act' by (metis (no_types, lifting))
  have fl: "fl = df (ring' ! ((unat h + (?a + length ds)) mod unat n))"
    using walk ne act' by (metis (no_types, lifting) diff_Suc_1)
  note fx = txfix_ok [OF wf(1,2) t' len' act' refl descs _ d fl]
  have old: "map (dview vw df) (segment ring (unat n) (unat h) ?a) = eots (unat n) (unat h) (concat (map snd q))"
    using tx by (simp add: tx_ring_def)
  have la: "?a = length (concat (map snd q))" by (rule tx_ring_active [OF tx])
  have "ds @ [with_end d] = set_end (posted True bs)" using pd by (simp add: set_end_def)
  also have "\<dots> = frame (fst (hd bs) \<noteq> 0) (nonempty bs)" using posted_frame [OF ne, of True] by simp
  finally have fr: "ds @ [with_end d] = frame (fst (hd bs) \<noteq> 0) (nonempty bs)" .
  have new_descs: "map (dview vw df) (segment (txfix setf n t' fl ring') (unat n) (unat h) ?a') =
      eots (unat n) (unat h) (concat (map snd (q @ [(p, frame (fst (hd bs) \<noteq> 0) (nonempty bs))])))"
    unfolding act' fx(1) [OF length_map [THEN trans, OF length_segment]] fr old
    by (simp add: eots_append la)
  have slot: "ps ! ((unat h + j) mod unat n) = None" if "?a \<le> j" "j < unat n" for j
    using tx that by (simp add: tx_ring_def)
  have lt: "?a + length ds < unat n" using ring_active_less [OF wf(1), of h t'] act' by simp
  have gap: "segment ps (unat n) (unat h + ?a) (length ds) = replicate (length ds) None"
    using slot lt by (intro nth_equalityI) (simp_all add: segment_def add.assoc)
  have new_slots: "segment (ps[unat (XXD (t' - 1) n) := Some p]) (unat n) (unat h) ?a' =
      concat (map slots (q @ [(p, frame (fst (hd bs) \<noteq> 0) (nonempty bs))]))"
    unfolding act' segment_set_last [OF wf(1,2) t' act' wf(5)]
    using gap tx m by (simp add: segment_append tx_ring_def slots_def)
  have rest: "ps[unat (XXD (t' - 1) n) := Some p] ! ((unat h + j) mod unat n) = None"
    if j: "?a' \<le> j" "j < unat n" for j
  proof -
    have "(unat h + j) mod unat n \<noteq> (unat h + (?a + length ds)) mod unat n"
      using ring_inj [of j "unat n" "?a + length ds" "unat h"] j act' by auto
    then show ?thesis using slot [of j] j act' ring_prev [OF wf(1,2) t' act'] by simp
  qed
  have all: "\<forall>e \<in> set (q @ [(p, frame (fst (hd bs) \<noteq> 0) (nonempty bs))]).
      snd e \<noteq> [] \<and> (\<forall>d \<in> set (snd e). snd d AND CTRL_EOT = 0)"
    using tx fr frame_no_eot by (auto simp: tx_ring_def)
  show ?thesis
    unfolding tx_ring_def
    by (intro conjI wf(1,2) t' fx(2) all new_slots new_descs) (use wf(5) rest length_segment in auto)
qed

lemma refuse_queue:
  assumes "tx_ring (dview vw df) n h t ring ps q" "\<forall>b \<in> set bs. fst b \<le> maxlen"
    "txwalk upd n h first bs t fl ring = (b, t', fl', ring')"
  shows "tx_ring (dview vw df) n h t ring' ps q"
  using assms(1) txwalk_keeps [OF assms(3) _ _ _ _ assms(2) order_refl] by (simp add: tx_ring_def)

end

section \<open>Reclaiming\<close>

text \<open>Queue without its first descriptor, and without its first packet.\<close>

fun drop_desc :: "(nat \<times> desc list) list \<Rightarrow> (nat \<times> desc list) list" where
  "drop_desc ((p, d # ds) # q) = (if ds = [] then q else (p, ds) # q)"
| "drop_desc q = q"

lemma slots_Cons: "ds \<noteq> [] \<Longrightarrow> slots (p, d # ds) = None # slots (p, ds)" "slots (p, [d]) = [Some p]"
  by (cases ds; simp add: slots_def)+

lemma take_queue:
  assumes tx: "tx_ring dv n h t ring ps ((p, d # ds) # q)"
  shows "ps ! unat h = (if ds = [] then Some p else None)"
    "tx_ring dv n (XXD (h + 1) n) t (ring[unat h := x]) (ps[unat h := None]) (drop_desc ((p, d # ds) # q))"
proof -
  have wf: "ring_size n" "in_ring n h" "in_ring n t" "length ring = unat n" "length ps = unat n"
    using tx by (simp_all add: tx_ring_def)
  obtain b where act: "ring_active n h t = Suc b" using tx_ring_active [OF tx] by simp
  let ?h = "XXD (h + 1) n" and ?q = "drop_desc ((p, d # ds) # q)"
  have act': "ring_active n ?h t = b" using ring_take [OF wf(1-3)] act by simp
  have h': "unat ?h = Suc (unat h) mod unat n" using next_index [OF wf(1), of h] by simp
  have "ps ! unat h # segment ps (unat n) (unat ?h) b = slots (p, d # ds) @ concat (map slots q)"
    using tx segment_take(1) [OF wf(1-3) act, of ps] by (simp add: tx_ring_def act)
  moreover have "slots (p, d # ds) @ concat (map slots q) = (if ds = [] then Some p else None) # concat (map slots ?q)"
    by (simp add: slots_Cons)
  ultimately have hd: "ps ! unat h = (if ds = [] then Some p else None)" and
    sl: "segment ps (unat n) (unat ?h) b = concat (map slots ?q)" by simp_all
  show "ps ! unat h = (if ds = [] then Some p else None)" by (rule hd)
  have "dv (ring ! unat h) # map dv (segment ring (unat n) (unat ?h) b) =
      eots (unat n) (unat h) (d # concat (map snd ?q))"
    using tx segment_take(1) [OF wf(1-3) act, of ring] by (simp add: tx_ring_def act)
  then have ds: "map dv (segment ring (unat n) (unat ?h) b) = eots (unat n) (unat ?h) (concat (map snd ?q))"
    using eots_cong [of "unat ?h" "unat n" "Suc (unat h)" "concat (map snd ?q)"] h' by simp
  have all: "\<forall>e \<in> set ?q. snd e \<noteq> [] \<and> (\<forall>d \<in> set (snd e). snd d AND CTRL_EOT = 0)"
    using tx by (simp add: tx_ring_def)
  have hn: "unat h < unat n" using wf(2) by (simp add: in_ring_def)
  have none: "ps ! ((unat h + i) mod unat n) = None" if "Suc b \<le> i" "i < unat n" for i
    using tx that by (simp only: tx_ring_def act)
  have rest: "ps[unat h := None] ! ((unat ?h + j) mod unat n) = None" if j: "b \<le> j" "j < unat n" for j
  proof -
    have e: "(unat ?h + j) mod unat n = (unat h + Suc j) mod unat n" by (simp add: h' mod_add_left_eq)
    show ?thesis
    proof (cases "Suc j = unat n")
      case True
      then show ?thesis using e hn wf(5) by simp
    next
      case False
      then have "ps ! ((unat h + Suc j) mod unat n) = None" using none [of "Suc j"] j by simp
      then show ?thesis using e by (cases "(unat h + Suc j) mod unat n = unat h") (simp_all add: hn wf(5))
    qed
  qed
  show "tx_ring dv n ?h t (ring[unat h := x]) (ps[unat h := None]) ?q"
    unfolding tx_ring_def act' segment_take(2) [OF wf(1-3) act]
    using wf all sl ds rest by simp
qed

lemma reclaim_Suc:
  "i \<noteq> e \<Longrightarrow> reclaim_loop zap (Suc fuel) n i e None ring ps =
    reclaim_loop zap fuel n (XXD (i + 1) n) e (ps ! unat i) (ring[unat i := zap (ring ! unat i)]) (ps[unat i := None])"
  by (subst reclaim_loop.simps) simp

text \<open>The loop stops at the hardware's index \<open>e\<close> or after a packet.\<close>

lemma reclaim_packet:
  assumes "tx_ring dv n h t ring ps ((p, ds) # q)" "in_ring n e" "length ds \<le> ring_active n h e"
    "length ds \<le> fuel"
  shows "\<exists>h' ring' ps'. reclaim_loop zap fuel n h e None ring ps = Some (Some p, h', ring', ps') \<and>
    tx_ring dv n h' t ring' ps' q"
  using assms
proof (induction ds arbitrary: h ring ps fuel)
  case Nil
  then show ?case by (simp add: tx_ring_def)
next
  case (Cons d ds)
  have wf: "ring_size n" "in_ring n h" using Cons.prems(1) by (simp_all add: tx_ring_def)
  have ne: "h \<noteq> e" using Cons.prems(3) ring_empty [OF wf Cons.prems(2)] by auto
  obtain fuel' where fuel: "fuel = Suc fuel'" using Cons.prems(4) by (cases fuel) auto
  note step = take_queue(1) [OF Cons.prems(1)] take_queue(2) [OF Cons.prems(1), of "zap (ring ! unat h)"]
  have run: "reclaim_loop zap fuel n h e None ring ps = reclaim_loop zap fuel' n (XXD (h + 1) n) e
      (if ds = [] then Some p else None) (ring[unat h := zap (ring ! unat h)]) (ps[unat h := None])"
    using ne fuel step(1) by (simp add: reclaim_Suc)
  show ?case
  proof (cases "ds = []")
    case True
    then show ?thesis using run step(2) by (simp add: reclaim_loop.simps)
  next
    case False
    have "ring_active n (XXD (h + 1) n) e = ring_active n h e - 1"
      using ring_take [OF wf Cons.prems(2)] Cons.prems(3) by simp
    with Cons.IH [of "XXD (h + 1) n" _ _ fuel'] step(2) run False Cons.prems(2-4) fuel show ?thesis by simp
  qed
qed

lemma reclaim_part:
  assumes "tx_ring dv n h t ring ps ((p, ds) # q)" "in_ring n e" "ring_active n h e < length ds"
    "ring_active n h e \<le> fuel"
  shows "\<exists>ring' ps'. reclaim_loop zap fuel n h e None ring ps = Some (None, e, ring', ps') \<and>
    tx_ring dv n e t ring' ps' ((p, drop (ring_active n h e) ds) # q)"
  using assms
proof (induction ds arbitrary: h ring ps fuel)
  case (Cons d ds)
  have wf: "ring_size n" "in_ring n h" using Cons.prems(1) by (simp_all add: tx_ring_def)
  show ?case
  proof (cases "h = e")
    case True
    then have "ring_active n h e = 0" using ring_empty [OF wf Cons.prems(2)] by simp
    with True Cons.prems(1) show ?thesis by (simp add: reclaim_loop.simps)
  next
    case False
    then obtain c where c: "ring_active n h e = Suc c"
      using ring_empty [OF wf Cons.prems(2)] by (cases "ring_active n h e") auto
    then obtain fuel' where fuel: "fuel = Suc fuel'" using Cons.prems(4) by (cases fuel) auto
    have ds: "ds \<noteq> []" using c Cons.prems(3) by auto
    note step = take_queue(1) [OF Cons.prems(1)] take_queue(2) [OF Cons.prems(1), of "zap (ring ! unat h)"]
    have run: "reclaim_loop zap fuel n h e None ring ps = reclaim_loop zap fuel' n (XXD (h + 1) n) e
        None (ring[unat h := zap (ring ! unat h)]) (ps[unat h := None])"
      using False fuel step(1) ds by (simp add: reclaim_Suc)
    have act: "ring_active n (XXD (h + 1) n) e = c"
      using ring_take [OF wf Cons.prems(2)] c by simp
    have q: "tx_ring dv n (XXD (h + 1) n) t (ring[unat h := zap (ring ! unat h)]) (ps[unat h := None]) ((p, ds) # q)"
      using step(2) ds by simp
    from Cons.IH [OF q Cons.prems(2), of fuel'] show ?thesis
      using run c act Cons.prems(3,4) fuel by simp
  qed
qed simp

section \<open>Rotating\<close>

definition ring_at :: "u32 \<Rightarrow> u32 \<Rightarrow> 'a list \<Rightarrow> nat \<Rightarrow> 'a" where
  "ring_at n h xs j = xs ! ((unat h + j) mod unat n)"

lemma ring_at_upd:
  assumes "length xs = unat n" "i < unat n" "j < unat n" "k = (unat h + i) mod unat n"
  shows "ring_at n h (xs[k := v]) j = (if i = j then v else ring_at n h xs j)"
proof -
  have "k < length xs" using assms(1,2,4) by simp
  moreover have "(unat h + i) mod unat n \<noteq> (unat h + j) mod unat n" if "i \<noteq> j"
    using ring_inj [of i "unat n" j "unat h"] assms(2,3) that by blast
  ultimately show ?thesis using assms(4) by (cases "i = j") (simp_all add: ring_at_def)
qed

text \<open>The last index of the ring.\<close>

lemma last_index:
  assumes "ring_size n" "in_ring n i"
  shows "i = n - 1 \<longleftrightarrow> unat i = unat n - 1"
proof -
  have "n \<noteq> 0" using ring_size_pos [OF assms(1)] by auto
  then have "unat (n - 1) = unat n - 1" by (simp add: unat_minus_one)
  then show ?thesis by (metis unsigned_word_eqI)
qed

text \<open>The entries from \<open>i\<close> on have been moved by \<open>r\<close>.\<close>

definition rotated ::
  "(bool \<Rightarrow> 'd \<Rightarrow> 'd) \<Rightarrow> u32 \<Rightarrow> u32 \<Rightarrow> nat \<Rightarrow> nat \<Rightarrow> 'd list \<Rightarrow> nat option list \<Rightarrow> nat \<Rightarrow>
   'd list \<Rightarrow> nat option list \<Rightarrow> bool" where
  "rotated mv n h a r R P i ring ps \<longleftrightarrow>
     length ring = unat n \<and> length ps = unat n \<and>
     (\<forall>j < i. ring_at n h ring j = ring_at n h R j \<and> ring_at n h ps j = ring_at n h P j) \<and>
     (\<forall>j. i \<le> j \<and> j < a \<longrightarrow>
        ring_at n h ring (j + r) = mv ((unat h + (j + r)) mod unat n = unat n - 1) (ring_at n h R j) \<and>
        ring_at n h ps (j + r) = ring_at n h P j) \<and>
     (\<forall>j < unat n. i \<le> j \<and> j < i + r \<or> a + r \<le> j \<longrightarrow> ring_at n h ps j = None)"

lemma rotated_step:
  assumes rot: "rotated mv n h a r R P (Suc i) ring ps" and i: "i < a" and r: "0 < r" "a + r < unat n"
    and old: "unat old = (unat h + i) mod unat n" and new: "unat new = (unat h + (i + r)) mod unat n"
    and b: "b \<longleftrightarrow> unat new = unat n - 1"
  shows "rotated mv n h a r R P i
      ((ring[unat new := mv b (ring ! unat old)])[unat old := zap ((ring[unat new := mv b (ring ! unat old)]) ! unat old)])
      ((ps[unat new := ps ! unat old])[unat old := None])"
    (is "rotated mv n h a r R P i ?ring ?ps")
proof -
  have len: "length ring = unat n" "length ps = unat n" using rot by (simp_all add: rotated_def)
  have lt: "i < unat n" "i + r < unat n" using i r by simp_all
  have r_at: "ring_at n h ?ring j =
      (if i = j then zap ((ring[unat new := mv b (ring ! unat old)]) ! unat old)
       else if i + r = j then mv b (ring_at n h R i) else ring_at n h ring j)" if "j < unat n" for j
  proof -
    have "ring ! unat old = ring_at n h R i" using rot by (simp add: rotated_def ring_at_def old)
    then show ?thesis
      using ring_at_upd [OF _ lt(1) that old, of "ring[unat new := mv b (ring ! unat old)]"]
        ring_at_upd [OF len(1) lt(2) that new] len(1) by simp
  qed
  have p_at: "ring_at n h ?ps j =
      (if i = j then None else if i + r = j then ring_at n h P i else ring_at n h ps j)" if "j < unat n" for j
  proof -
    have "ps ! unat old = ring_at n h P i" using rot by (simp add: rotated_def ring_at_def old)
    then show ?thesis
      using ring_at_upd [OF _ lt(1) that old, of "ps[unat new := ps ! unat old]"]
        ring_at_upd [OF len(2) lt(2) that new] len(2) by simp
  qed
  have head: "ring_at n h ?ring j = ring_at n h R j \<and> ring_at n h ?ps j = ring_at n h P j" if "j < i" for j
    using that r_at [of j] p_at [of j] rot lt by (simp add: rotated_def)
  have moved: "ring_at n h ?ring (j + r) = mv ((unat h + (j + r)) mod unat n = unat n - 1) (ring_at n h R j) \<and>
      ring_at n h ?ps (j + r) = ring_at n h P j" if j: "i \<le> j" "j < a" for j
  proof (cases "j = i")
    case True
    then show ?thesis using r_at [OF lt(2)] p_at [OF lt(2)] r b new by simp
  next
    case False
    then have "Suc i \<le> j" "j + r < unat n" using j r by simp_all
    then show ?thesis using r_at [of "j + r"] p_at [of "j + r"] rot j r by (simp add: rotated_def)
  qed
  have none: "ring_at n h ?ps j = None" if j: "j < unat n" "i \<le> j \<and> j < i + r \<or> a + r \<le> j" for j
  proof (cases "j = i")
    case False
    then have "i + r \<noteq> j" "Suc i \<le> j \<and> j < Suc i + r \<or> a + r \<le> j" using j i by auto
    then show ?thesis using p_at [OF j(1)] False rot j(1) by (auto simp: rotated_def)
  qed (use p_at lt in simp)
  show ?thesis unfolding rotated_def using len head moved none by simp
qed

lemma rotate_loop_run:
  assumes "ring_size n" "in_ring n h" "0 < unat rot" "a + unat rot < unat n"
    "unat stop = (unat h + (unat n - 1)) mod unat n"
    "rotated mv n h a (unat rot) R P i ring ps" "i \<le> a" "i \<le> fuel"
    "unat old = (unat h + (i + (unat n - 1))) mod unat n"
  shows "\<exists>ring' ps'. rotate_loop mv zap fuel n rot old stop ring ps = Some (ring', ps') \<and>
    rotated mv n h a (unat rot) R P 0 ring' ps'"
  using assms(6-)
proof (induction i arbitrary: fuel old ring ps)
  case 0
  then have "unat old = unat stop" using assms(5) by simp
  then have "old = stop" by (rule unsigned_word_eqI)
  with 0(1) show ?case by (simp add: rotate_loop.simps)
next
  case (Suc i)
  have pos: "0 < unat n" using assms(4) by simp
  have "unat h + (Suc i + (unat n - 1)) = (unat h + i) + unat n" using pos by simp
  then have old: "unat old = (unat h + i) mod unat n" using Suc.prems(4) mod_add_self2 by metis
  have in_old: "unat old < unat n" using old pos by simp
  have ne: "old \<noteq> stop"
  proof
    assume "old = stop"
    then have "(unat h + i) mod unat n = (unat h + (unat n - 1)) mod unat n" using old assms(5) by simp
    then have "i = unat n - 1" using ring_inj [of i "unat n" "unat n - 1" "unat h"] Suc.prems(2) assms(4) by simp
    then show False using Suc.prems(2) assms(4) by simp
  qed
  obtain fuel' where fuel: "fuel = Suc fuel'" "i \<le> fuel'" using Suc.prems(3) by (cases fuel) auto
  let ?new = "XXD (old + rot) n" and ?old = "XXD (old - 1) n"
  have new: "unat ?new = (unat h + (i + unat rot)) mod unat n"
    using XXD_mod [OF assms(1)] unat_mod_ring(1) [OF assms(1), of old rot] old
    by (simp add: mod_add_left_eq add.assoc)
  have b: "?new = n - 1 \<longleftrightarrow> unat ?new = unat n - 1"
    by (rule last_index [OF assms(1) in_ring_XXD [OF assms(1)]])
  have prev: "unat ?old = (unat h + (i + (unat n - 1))) mod unat n"
    using prev_index [OF assms(1), of old] old by (simp add: mod_add_left_eq add.assoc)
  have i: "i < a" "i \<le> a" using Suc.prems(2) by simp_all
  note st = rotated_step [OF Suc.prems(1) i(1) assms(3,4) old new b, of zap]
  from Suc.IH [OF st i(2) fuel(2) prev] show ?case
    using ne fuel(1) by (subst rotate_loop.simps) (simp add: Let_def)
qed

lemma segment_ring_at: "segment xs (unat n) (unat h) m = map (ring_at n h xs) [0..<m]"
  by (simp add: segment_def ring_at_def)

lemma eots_nth: "j < length ds \<Longrightarrow> eots n i ds ! j = (fst (ds ! j), snd (ds ! j) OR eot_at n (i + j))"
  by (induction ds arbitrary: i j) (auto simp: nth_Cons split: nat.split)

lemma clear_eot:
  "(fl :: u32) AND CTRL_EOT = 0 \<Longrightarrow> (fl OR eot_at n i) AND NOT CTRL_EOT = fl"
proof -
  assume 0: "fl AND CTRL_EOT = 0"
  have "CTRL_EOT AND NOT CTRL_EOT = 0" by simp
  then have "eot_at n i AND NOT CTRL_EOT = 0" by (cases "i mod n = n - 1") (simp_all add: eot_at_def)
  then have "(fl OR eot_at n i) AND NOT CTRL_EOT = fl AND NOT CTRL_EOT" by (simp only: bit.conj_disj_distrib2 or.right_neutral)
  also have "fl = (fl AND CTRL_EOT) OR (fl AND NOT CTRL_EOT)"
    by (simp only: bit.conj_disj_distrib [symmetric] bit.disj_cancel_right bit.conj_one_right)
  then have "fl AND NOT CTRL_EOT = fl" using 0 by simp
  finally show ?thesis .
qed

context dd_engine
begin

lemma rotate_queue:
  assumes tx: "tx_ring (dview vw df) n h t ring ps q"
    and rot: "rot \<noteq> 0" "rot < n - XXD (t - h) n" and ad: "in_ring n ad" "rot = XXD (ad - h) n"
  shows "\<exists>ring' ps'. rotate_loop mv zap RING_FUEL n rot (XXD (t - 1) n) (XXD (h - 1) n) ring ps =
      Some (ring', ps') \<and>
    tx_ring (dview vw df) n ad (XXD (t + rot) n) ring' ps' q"
proof -
  let ?a = "ring_active n h t"
  have wf: "ring_size n" "in_ring n h" "in_ring n t" "length ring = unat n" "length ps = unat n"
    using tx by (simp_all add: tx_ring_def)
  have a: "?a < unat n" by (rule ring_active_less [OF wf(1)])
  have "unat (n - XXD (t - h) n) = unat n - ?a"
    using a by (simp add: ring_active_def unat_sub word_le_nat_alt)
  then have lt: "?a + unat rot < unat n" using rot(2) a by (simp add: word_less_nat_alt)
  have pos: "0 < unat rot" using rot(1) by (simp add: unat_gt_0)
  have stop: "unat (XXD (h - 1) n) = (unat h + (unat n - 1)) mod unat n" by (rule prev_index [OF wf(1)])
  have old: "unat (XXD (t - 1) n) = (unat h + (?a + (unat n - 1))) mod unat n"
    using prev_index [OF wf(1), of t] ring_end [OF wf(1-3)] by (simp add: mod_add_left_eq add.assoc)
  have none: "ring_at n h ps j = None" if "?a \<le> j" "j < unat n" for j
    using tx that unfolding tx_ring_def ring_at_def by blast
  have init: "rotated mv n h ?a (unat rot) ring ps ?a ring ps"
    using wf none by (auto simp: rotated_def)
  have fuel: "?a \<le> RING_FUEL" using a ring_size_le [OF wf(1)] by simp
  obtain ring' ps' where run: "rotate_loop mv zap RING_FUEL n rot (XXD (t - 1) n) (XXD (h - 1) n) ring ps =
      Some (ring', ps')" and fin: "rotated mv n h ?a (unat rot) ring ps 0 ring' ps'"
    using rotate_loop_run [OF wf(1,2) pos lt stop init order_refl fuel old, of zap] by blast
  have adh: "unat ad = (unat h + unat rot) mod unat n"
    using ring_end [OF wf(1,2) ad(1)] ad(2) by (simp add: ring_active_def)
  have t': "unat (XXD (t + rot) n) = (unat ad + ?a) mod unat n"
    using XXD_mod [OF wf(1)] unat_mod_ring(1) [OF wf(1), of t rot] ring_end [OF wf(1-3)] adh
    by (simp add: mod_add_left_eq mod_add_right_eq ac_simps)
  have act: "ring_active n ad (XXD (t + rot) n) = ?a"
    by (rule ring_active_eqI [OF wf(1) ad(1) in_ring_XXD [OF wf(1)] t' a])
  have shift: "ring_at n ad xs j = ring_at n h xs (j + unat rot)" for xs :: "'b list" and j
    by (simp add: ring_at_def adh mod_add_left_eq mod_add_right_eq ac_simps)
  have slots': "segment ps' (unat n) (unat ad) ?a = segment ps (unat n) (unat h) ?a"
    using fin by (simp add: segment_ring_at shift rotated_def)
  let ?ds = "concat (map snd q)"
  have la: "?a = length ?ds" by (rule tx_ring_active [OF tx])
  have descs': "map (dview vw df) (segment ring' (unat n) (unat ad) ?a) = eots (unat n) (unat ad) ?ds"
  proof (rule nth_equalityI)
    fix j assume "j < length (map (dview vw df) (segment ring' (unat n) (unat ad) ?a))"
    then have j: "j < ?a" by simp
    have b: "(unat h + (j + unat rot)) mod unat n = (unat ad + j) mod unat n"
      by (simp add: adh mod_add_left_eq mod_add_right_eq ac_simps)
    have "map (dview vw df) (segment ring (unat n) (unat h) ?a) ! j = eots (unat n) (unat h) ?ds ! j"
      using tx by (simp add: tx_ring_def)
    then have o: "dview vw df (ring_at n h ring j) = (fst (?ds ! j), snd (?ds ! j) OR eot_at (unat n) (unat h + j))"
      using j la by (simp add: segment_ring_at eots_nth)
    then have vf: "vw (ring_at n h ring j) = fst (?ds ! j)"
      "df (ring_at n h ring j) AND FLAGS = snd (?ds ! j) OR eot_at (unat n) (unat h + j)"
      by (simp_all add: dview_def)
    have "?ds ! j \<in> set ?ds" by (rule nth_mem) (use j la in simp)
    moreover have "\<forall>d \<in> set ?ds. snd d AND CTRL_EOT = 0" using tx by (simp add: tx_ring_def)
    ultimately have "snd (?ds ! j) AND CTRL_EOT = 0" by blast
    note clear = clear_eot [OF this, of "unat n" "unat h + j"]
    have "segment ring' (unat n) (unat ad) ?a ! j = mv ((unat ad + j) mod unat n = unat n - 1) (ring_at n h ring j)"
      using fin j b by (simp add: segment_ring_at shift rotated_def)
    then have "map (dview vw df) (segment ring' (unat n) (unat ad) ?a) ! j =
        (fst (?ds ! j), snd (?ds ! j) OR eot_at (unat n) (unat ad + j))"
      using j vf mv [of _ "ring_at n h ring j"] clear
      by (simp only: nth_map length_segment vf clear eot_at_def mod_mod_trivial)
    then show "map (dview vw df) (segment ring' (unat n) (unat ad) ?a) ! j = eots (unat n) (unat ad) ?ds ! j"
      using j la by (simp add: eots_nth)
  qed (use la in simp)
  have rest: "ps' ! ((unat ad + j) mod unat n) = None" if j: "?a \<le> j" "j < unat n" for j
  proof -
    have e: "ps' ! ((unat ad + j) mod unat n) = ring_at n h ps' ((j + unat rot) mod unat n)"
      by (simp add: ring_at_def adh mod_add_left_eq mod_add_right_eq ac_simps)
    have "(j + unat rot) mod unat n < unat rot \<or> ?a + unat rot \<le> (j + unat rot) mod unat n"
    proof (cases "j + unat rot < unat n")
      case False
      then have "(j + unat rot) mod unat n = j + unat rot - unat n" using j lt by (simp add: mod_if)
      with j False show ?thesis by linarith
    qed (use j in simp)
    moreover have "(j + unat rot) mod unat n < unat n" using j by simp
    ultimately show ?thesis unfolding e using fin by (auto simp: rotated_def)
  qed
  have "tx_ring (dview vw df) n ad (XXD (t + rot) n) ring' ps' q"
    unfolding tx_ring_def act using tx fin slots' descs' rest ad(1) by (simp add: tx_ring_def rotated_def)
  with run show ?thesis by blast
qed

end

section \<open>The two engines\<close>

text \<open>Changing frame flags leaves the other fields of a control word alone.\<close>

lemma field_16: "drop_bit 16 w AND 3 = drop_bit 16 (w AND 0x30000 :: u32)"
  by (rule bit_word_eqI) (auto simp: bit_simps bit_mask_const simp del: bit_numeral_word_iff)

lemma masked:
  fixes w e m :: u32
  shows "e AND m = 0 \<Longrightarrow> (w OR e) AND m = w AND m" "e AND m = 0 \<Longrightarrow> (w AND NOT e) AND m = w AND m"
    "e AND m = e \<Longrightarrow> (w OR e) AND m = (w AND m) OR e" "(w AND NOT e) AND m = (w AND m) AND NOT e"
proof -
  show "e AND m = 0 \<Longrightarrow> (w OR e) AND m = w AND m" "e AND m = e \<Longrightarrow> (w OR e) AND m = (w AND m) OR e"
    by (simp_all only: bit.conj_disj_distrib2 or.right_neutral)
  show ac: "(w AND NOT e) AND m = (w AND m) AND NOT e" for w m by (simp only: and.assoc and.commute [of "NOT e"])
  assume z: "e AND m = 0"
  have s: "w AND m = (w AND m AND e) OR (w AND m AND NOT e)"
    by (simp only: bit.conj_disj_distrib [symmetric] bit.disj_cancel_right bit.conj_one_right)
  have "w AND m AND e = 0" using z by (simp only: and.commute [of m e] and_zero_eq)
  with s have "w AND m = w AND m AND NOT e" by (metis or.left_neutral)
  then show "(w AND NOT e) AND m = w AND m" using ac [of w m] by (metis and.assoc)
qed

lemma other_fields:
  fixes w :: u32
  shows "(w OR 0x60000000) AND 0x1FFF = w AND 0x1FFF"
    "drop_bit 16 (w OR 0x60000000) AND 3 = drop_bit 16 w AND 3"
    "(w AND NOT 0x10000000) AND 0x1FFF = w AND 0x1FFF"
    "drop_bit 16 (w AND NOT 0x10000000) AND 3 = drop_bit 16 w AND 3"
    "(w OR 0x10000000) AND 0x1FFF = w AND 0x1FFF"
    "drop_bit 16 (w OR 0x10000000) AND 3 = drop_bit 16 w AND 3"
proof -
  have z: "(0x60000000 :: u32) AND 0x1FFF = 0" "(0x60000000 :: u32) AND 0x30000 = 0"
    "(0x10000000 :: u32) AND 0x1FFF = 0" "(0x10000000 :: u32) AND 0x30000 = 0" by simp_all
  show "(w OR 0x60000000) AND 0x1FFF = w AND 0x1FFF" "(w OR 0x10000000) AND 0x1FFF = w AND 0x1FFF"
    "(w AND NOT 0x10000000) AND 0x1FFF = w AND 0x1FFF"
    by (rule masked(1) [OF z(1)] masked(1) [OF z(3)] masked(2) [OF z(3)])+
  show "drop_bit 16 (w OR 0x60000000) AND 3 = drop_bit 16 w AND 3"
    "drop_bit 16 (w OR 0x10000000) AND 3 = drop_bit 16 w AND 3"
    "drop_bit 16 (w AND NOT 0x10000000) AND 3 = drop_bit 16 w AND 3"
    by (simp_all only: field_16 masked(1) [OF z(2)] masked(1) [OF z(4)] masked(2) [OF z(4)])
qed

lemma frame_bits:
  fixes w :: u32
  shows "(w OR 0x60000000) AND FLAGS = (w AND FLAGS) OR 0x60000000"
    "(w AND NOT 0x10000000) AND FLAGS = (w AND FLAGS) AND NOT 0x10000000"
    "((w AND NOT 0x10000000) OR 0x10000000) AND FLAGS = ((w AND FLAGS) AND NOT 0x10000000) OR 0x10000000"
proof -
  have z: "(0x60000000 :: u32) AND FLAGS = 0x60000000" "(0x10000000 :: u32) AND FLAGS = 0x10000000" by simp_all
  show "(w OR 0x60000000) AND FLAGS = (w AND FLAGS) OR 0x60000000" by (rule masked(3) [OF z(1)])
  show "(w AND NOT 0x10000000) AND FLAGS = (w AND FLAGS) AND NOT 0x10000000" by (rule masked(4))
  then show "((w AND NOT 0x10000000) OR 0x10000000) AND FLAGS = ((w AND FLAGS) AND NOT 0x10000000) OR 0x10000000"
    using masked(3) [OF z(2), of "w AND NOT 0x10000000"] by (simp only:)
qed

lemma end_word: "end_flag True = 0x60000000" "(CTRL_IOC OR CTRL_EOF :: u32) = 0x60000000"
  by (simp_all add: end_flag_def)

lemma view_set_ctrl:
  "view32 c (set_ctrl d (dd_ctrl d OR 0x60000000)) = view32 c d"
  "view32 c (rot32 b d) = view32 c d"
  "view64 c (set_ctrl1 e w) = view64 c e"
  "view64 c (rot64 b e) = view64 c e"
proof -
  show "view32 c (set_ctrl d (dd_ctrl d OR 0x60000000)) = view32 c d"
    by (cases d) (simp only: view32_def set_ctrl_def dma32dd.select_convs dma32dd.update_convs other_fields)
  have "(dd_ctrl d AND NOT CTRL_EOT) OR 0 = dd_ctrl d AND NOT CTRL_EOT" by (simp only: or.right_neutral)
  then show "view32 c (rot32 b d) = view32 c d"
    unfolding view32_def rot32_def by (cases b) (simp_all only: if_True if_False dma32dd.select_convs other_fields)
  show "view64 c (set_ctrl1 e w) = view64 c e" by (simp add: view64_def set_ctrl1_def)
  show "view64 c (rot64 b e) = view64 c e" by (simp add: view64_def rot64_def)
qed

interpretation engine32: dd_engine "dma32_dd_upd c" "view32 c" dd_ctrl set_ctrl rot32 "0x1FFF" for c
proof (unfold_locales, goal_cases)
  case (1 fl len ring pa i f ring')
  from dma32_dd_upd_view [OF 1] show ?case by blast
next
  case (2 d)
  show ?case
    by (simp only: dview_def with_end_def end_word view_set_ctrl fst_conv snd_conv frame_bits)
      (simp add: set_ctrl_def frame_bits)
next
  case (3 b d)
  have "dd_ctrl (rot32 b d) AND FLAGS = ((dd_ctrl d AND FLAGS) AND NOT CTRL_EOT) OR (if b then CTRL_EOT else 0)"
    by (cases b) (simp_all only: rot32_def dma32dd.select_convs if_True if_False frame_bits or.right_neutral)
  then show ?case by (simp only: dview_def view_set_ctrl)
qed

interpretation engine64: dd_engine "dma64_dd_upd c" "view64 c" dd_ctrl1 set_ctrl1 rot64 "0x7FFF" for c
proof (unfold_locales, goal_cases)
  case (1 fl len ring pa i f ring')
  from dma64_dd_upd_view [OF 1(2,3)] 1(1) show ?case by blast
next
  case (2 d)
  show ?case
    by (simp only: dview_def with_end_def end_word view_set_ctrl fst_conv snd_conv frame_bits)
      (simp add: set_ctrl1_def frame_bits)
next
  case (3 b d)
  have "dd_ctrl1 (rot64 b d) AND FLAGS = ((dd_ctrl1 d AND FLAGS) AND NOT CTRL_EOT) OR (if b then CTRL_EOT else 0)"
    by (cases b) (simp_all only: rot64_def dma64dd.select_convs if_True if_False frame_bits or.right_neutral)
  then show ?case by (simp only: dview_def view_set_ctrl)
qed

end
