(* ===== verification/DmaSend.thy ===== *)
theory DmaSend
  imports DmaQueue
begin

text \<open>
  The transmit operations of both engines on the queue of packets that the ring holds
  (\<open>tx32\<close>, \<open>tx64\<close>), and the reset of a channel.
\<close>

section \<open>The queue of an engine\<close>

definition tx32 :: "dma_info \<Rightarrow> (nat \<times> desc list) list \<Rightarrow> bool" where
  "tx32 di q \<longleftrightarrow>
     tx_ring (dview (view32 (di_cfg di)) dd_ctrl) (ntxd (di_cfg di)) (txin di) (txout di) (txd32 di) (txp di) q"

definition tx64 :: "dma_info \<Rightarrow> (nat \<times> desc list) list \<Rightarrow> bool" where
  "tx64 di q \<longleftrightarrow>
     tx_ring (dview (view64 (di_cfg di)) dd_ctrl1) (ntxd (di_cfg di)) (txin di) (txout di) (txd64 di) (txp di) q"

abbreviation pending :: "(nat \<times> desc list) list \<Rightarrow> nat" where
  "pending q \<equiv> length (concat (map snd q))"

definition txfree :: "dma_info \<Rightarrow> (nat \<times> desc list) list \<Rightarrow> bool" where
  "txfree di q \<longleftrightarrow> unat (txavail di) + pending q + 1 = unat (ntxd (di_cfg di))"

lemma txavail_free:
  assumes "tx_ring dv n h t ring ps q"
  shows "unat (n - XXD (t - h) n - 1) + pending q + 1 = unat n"
proof -
  have a: "ring_active n h t = pending q" by (rule tx_ring_active [OF assms])
  have n: "ring_size n" using assms by (simp add: tx_ring_def)
  have lt: "unat (XXD (t - h) n) < unat n" by (rule XXD_less [OF n])
  then have "unat (n - XXD (t - h) n) = unat n - unat (XXD (t - h) n)"
    by (simp add: unat_sub word_le_nat_alt)
  moreover from this lt have "n - XXD (t - h) n \<noteq> 0" by (metis unat_0 zero_less_diff less_numeral_extra(3))
  then have "unat (n - XXD (t - h) n - 1) = unat (n - XXD (t - h) n) - 1" by (rule unat_minus_one)
  ultimately show ?thesis using lt a by (simp add: ring_active_def)
qed

definition ptr32 :: "dma_info \<Rightarrow> u32" where "ptr32 di = r32_ptr (d32txregs di)"
definition ptr64 :: "dma_info \<Rightarrow> u32" where "ptr64 di = r64_ptr (d64txregs di)"

section \<open>Posting\<close>

definition post_spec ::
  "(dma_info \<Rightarrow> (nat \<times> desc list) list \<Rightarrow> bool) \<Rightarrow> (dma_info \<Rightarrow> u32) \<Rightarrow> u32 \<Rightarrow> bool \<Rightarrow> dma_info \<Rightarrow> (nat \<times> desc list) list \<Rightarrow> nat \<Rightarrow>
   (u32 \<times> u32) list \<Rightarrow> int \<times> dma_info \<Rightarrow> bool" where
  "post_spec tx ptr sz commit di q p bs res \<longleftrightarrow>
     (let di' = snd res in
      if pending q + length (nonempty (butlast bs)) + 1 < unat (ntxd (di_cfg di)) then
        (let q' = q @ [(p, frame (fst (hd bs) \<noteq> 0) (nonempty bs))]
         in fst res = 0 \<and> tx di' q' \<and> txfree di' q' \<and> pkt_freed di' = pkt_freed di \<and>
            ptr di' = (if commit then I2B (txout di') sz else ptr di))
      else fst res = -1 \<and> tx di' q \<and> txavail di' = 0 \<and> pkt_freed di' = pkt_freed di @ [p])"

lemma dma32_txfast_queue:
  assumes tx: "tx32 di q" and ne: "\<exists>b \<in> set bs. fst b \<noteq> 0" and len: "\<forall>b \<in> set bs. fst b \<le> 0x1FFF"
  shows "post_spec tx32 ptr32 DD32 commit di q p bs (dma32_txfast di p bs commit)"
proof -
  let ?c = "di_cfg di"
  have ne': "nonempty bs \<noteq> []" "bs \<noteq> []" using ne by (auto simp: filter_empty_conv)
  obtain b t' fl ring' where run: "txwalk (dma32_dd_upd ?c) (ntxd ?c) (txin di) True bs (txout di) 0 (txd32 di) =
      (b, t', fl, ring')" by (metis prod_cases4)
  have wf: "ring_size (ntxd ?c)" "in_ring (ntxd ?c) (txin di)" "in_ring (ntxd ?c) (txout di)"
    using tx by (simp_all add: tx32_def tx_ring_def)
  have "ring_active (ntxd ?c) (txin di) (txout di) = pending q"
    using tx tx_ring_active unfolding tx32_def by blast
  then have b: "b \<longleftrightarrow> pending q + length (nonempty (butlast bs)) + 1 < unat (ntxd ?c)"
    using engine32.txwalk_fits [OF wf, of ?c True bs 0 "txd32 di"] run ne' by simp
  show ?thesis
  proof (cases b)
    case True
    note q' = engine32.post_queue [OF tx [unfolded tx32_def] ne'(1) len, of t' fl ring' p] 
    have q': "tx_ring (dview (view32 ?c) dd_ctrl) (ntxd ?c) (txin di) t' (txfix set_ctrl (ntxd ?c) t' fl ring')
        ((txp di)[unat (XXD (t' - 1) (ntxd ?c)) := Some p]) (q @ [(p, frame (fst (hd bs) \<noteq> 0) (nonempty bs))])"
      by (rule q') (use run True in simp)
    show ?thesis
      using b True run q' txavail_free [OF q']
      by (simp add: post_spec_def dma32_txfast_def tx32_def ptr32_def txfree_def PREVTXD_def NTXDACTIVE_def TXD_def Let_def)
  next
    case False
    then show ?thesis
      using b run engine32.refuse_queue [OF tx [unfolded tx32_def] len run]
      by (simp add: post_spec_def dma32_txfast_def tx32_def ptr32_def Let_def)
  qed
qed

lemma dma64_txfast_queue:
  assumes tx: "tx64 di q" and ne: "\<exists>b \<in> set bs. fst b \<noteq> 0" and len: "\<forall>b \<in> set bs. fst b \<le> 0x7FFF"
  shows "post_spec tx64 ptr64 DD64 commit di q p bs (dma64_txfast di p bs commit)"
proof -
  let ?c = "di_cfg di"
  have ne': "nonempty bs \<noteq> []" "bs \<noteq> []" using ne by (auto simp: filter_empty_conv)
  obtain b t' fl ring' where run: "txwalk (dma64_dd_upd ?c) (ntxd ?c) (txin di) True bs (txout di) 0 (txd64 di) =
      (b, t', fl, ring')" by (metis prod_cases4)
  have wf: "ring_size (ntxd ?c)" "in_ring (ntxd ?c) (txin di)" "in_ring (ntxd ?c) (txout di)"
    using tx by (simp_all add: tx64_def tx_ring_def)
  have "ring_active (ntxd ?c) (txin di) (txout di) = pending q"
    using tx tx_ring_active unfolding tx64_def by blast
  then have b: "b \<longleftrightarrow> pending q + length (nonempty (butlast bs)) + 1 < unat (ntxd ?c)"
    using engine64.txwalk_fits [OF wf, of ?c True bs 0 "txd64 di"] run ne' by simp
  show ?thesis
  proof (cases b)
    case True
    note q' = engine64.post_queue [OF tx [unfolded tx64_def] ne'(1) len, of t' fl ring' p] 
    have q': "tx_ring (dview (view64 ?c) dd_ctrl1) (ntxd ?c) (txin di) t' (txfix set_ctrl1 (ntxd ?c) t' fl ring')
        ((txp di)[unat (XXD (t' - 1) (ntxd ?c)) := Some p]) (q @ [(p, frame (fst (hd bs) \<noteq> 0) (nonempty bs))])"
      by (rule q') (use run True in simp)
    show ?thesis
      using b True run q' txavail_free [OF q']
      by (simp add: post_spec_def dma64_txfast_def tx64_def ptr64_def txfree_def PREVTXD_def NTXDACTIVE_def TXD_def Let_def)
  next
    case False
    then show ?thesis
      using b run engine64.refuse_queue [OF tx [unfolded tx64_def] len run]
      by (simp add: post_spec_def dma64_txfast_def tx64_def ptr64_def Let_def)
  qed
qed

section \<open>Taking the next sent packet\<close>

text \<open>\<open>c\<close> descriptors are done: the packets that lie in them entirely can be taken.\<close>

definition getnext_spec ::
  "(dma_info \<Rightarrow> (nat \<times> desc list) list \<Rightarrow> bool) \<Rightarrow> dma_info \<Rightarrow> (nat \<times> desc list) list \<Rightarrow> nat \<Rightarrow>
   (nat option \<times> dma_info) option \<Rightarrow> bool" where
  "getnext_spec tx di q c res \<longleftrightarrow>
     (case res of
        None \<Rightarrow> False
      | Some (r, di') \<Rightarrow>
          (let q' = (case q of [] \<Rightarrow> [] | (p, ds) # q' \<Rightarrow> if length ds \<le> c then q' else (p, drop c ds) # q')
           in r = (case q of [] \<Rightarrow> None | (p, ds) # q' \<Rightarrow> if length ds \<le> c then Some p else None) \<and>
              tx di' q' \<and> txfree di' q' \<and> pkt_freed di' = pkt_freed di))"

text \<open>The end index for \<open>c\<close> descriptors.\<close>

definition sent :: "u32 \<Rightarrow> dma_info \<Rightarrow> (nat \<times> desc list) list \<Rightarrow> bool \<Rightarrow> nat \<Rightarrow> bool" where
  "sent cd di q forceall c \<longleftrightarrow>
     (if forceall then c = pending q
      else c \<le> pending q \<and> unat cd = (unat (txin di) + c) mod unat (ntxd (di_cfg di)))"

definition cd32 :: "dma_info \<Rightarrow> u32" where "cd32 di = B2I (r32_status (d32txregs di) AND XS_CD_MASK) DD32"
definition cd64 :: "dma_info \<Rightarrow> u32" where "cd64 di = B2I (r64_status0 (d64txregs di) AND D64_XS0_CD_MASK) DD64"

lemma sent_end:
  assumes tx: "tx_ring dv (ntxd (di_cfg di)) (txin di) (txout di) ring ps q" and s: "sent cd di q forceall c"
  defines "e \<equiv> if forceall then txout di else cd"
  shows "in_ring (ntxd (di_cfg di)) e" "ring_active (ntxd (di_cfg di)) (txin di) e = c"
    "\<not> (txin di = 0 \<and> e > txout di)"
proof -
  let ?n = "ntxd (di_cfg di)"
  have wf: "ring_size ?n" "in_ring ?n (txin di)" "in_ring ?n (txout di)" using tx by (simp_all add: tx_ring_def)
  have a: "ring_active ?n (txin di) (txout di) = pending q" by (rule tx_ring_active [OF tx])
  have lt: "c < unat ?n"
    using s a ring_active_less [OF wf(1), of "txin di" "txout di"] by (simp add: sent_def split: if_splits)
  have e: "unat e = (unat (txin di) + c) mod unat ?n"
    using s a ring_end [OF wf] by (simp add: sent_def e_def split: if_splits)
  show in_e: "in_ring ?n e" using e lt by (simp add: in_ring_def)
  show "ring_active ?n (txin di) e = c" by (rule ring_active_eqI [OF wf(1,2) in_e e lt])
  have "c \<le> pending q" using s by (simp add: sent_def split: if_splits)
  then show "\<not> (txin di = 0 \<and> e > txout di)"
    using e lt ring_end [OF wf] a ring_active_less [OF wf(1), of "txin di" "txout di"]
    by (auto simp: word_less_nat_alt)
qed

lemma reclaim_queue:
  assumes tx: "tx_ring dv n h t ring ps q" and e: "in_ring n e" "ring_active n h e = c" "c \<le> pending q"
  shows "\<exists>r h' ring' ps'. reclaim_loop zap RING_FUEL n h e None ring ps = Some (r, h', ring', ps') \<and>
    tx_ring dv n h' t ring' ps'
      (case q of [] \<Rightarrow> [] | (p, ds) # q' \<Rightarrow> if length ds \<le> c then q' else (p, drop c ds) # q') \<and>
    r = (case q of [] \<Rightarrow> None | (p, ds) # q' \<Rightarrow> if length ds \<le> c then Some p else None)"
proof -
  have wf: "ring_size n" "in_ring n h" using tx by (simp_all add: tx_ring_def)
  have fuel: "c \<le> RING_FUEL" using e(2) ring_active_less [OF wf(1), of h e] ring_size_le [OF wf(1)] by simp
  show ?thesis
  proof (cases q)
    case Nil
    then have "h = e" using e ring_empty [OF wf e(1)] by simp
    then show ?thesis using tx Nil by (simp add: reclaim_loop.simps)
  next
    case (Cons x q')
    obtain p ds where q: "q = (p, ds) # q'" using Cons by (cases x) auto
    show ?thesis
    proof (cases "length ds \<le> c")
      case True
      have "length ds \<le> RING_FUEL" using True fuel by linarith
      from reclaim_packet [OF tx [unfolded q] e(1) _ this, of zap] show ?thesis
        using e(2) True q by auto
    next
      case False
      from reclaim_part [OF tx [unfolded q] e(1), of RING_FUEL zap] show ?thesis
        using e(2) False q fuel by auto
    qed
  qed
qed

lemma dma32_getnexttxp_queue:
  assumes tx: "tx32 di q" and s: "sent (cd32 di) di q forceall c"
  shows "getnext_spec tx32 di q c (dma32_getnexttxp di forceall)"
proof -
  let ?n = "ntxd (di_cfg di)"
  let ?e = "if forceall then txout di else cd32 di"
  note ring = tx [unfolded tx32_def]
  have le: "c \<le> pending q" using s by (simp add: sent_def split: if_splits)
  have n0: "?n \<noteq> 0" using ring ring_size_pos [of ?n] by (auto simp: tx_ring_def)
  note e = sent_end [OF ring s]
  obtain r h' ring' ps' where
    run: "reclaim_loop zap32 RING_FUEL ?n (txin di) ?e None (txd32 di) (txp di) = Some (r, h', ring', ps')" and
    q': "tx_ring (dview (view32 (di_cfg di)) dd_ctrl) ?n h' (txout di) ring' ps'
      (case q of [] \<Rightarrow> [] | (p, ds) # q' \<Rightarrow> if length ds \<le> c then q' else (p, drop c ds) # q')" and
    r: "r = (case q of [] \<Rightarrow> None | (p, ds) # q' \<Rightarrow> if length ds \<le> c then Some p else None)"
    using reclaim_queue [OF ring e(1,2) le, of zap32] by blast
  have eq: "dma32_getnexttxp di forceall = Some (r, di\<lparr>txd32 := ring', txp := ps', txin := h',
      txavail := ?n - XXD (txout di - h') ?n - 1\<rparr>)"
    unfolding dma32_getnexttxp_def Let_def cd32_def [symmetric]
    using n0 e(3) run by (simp only: if_False option.case prod.case) (simp add: NTXDACTIVE_def TXD_def)
  define q2 where "q2 = (case q of [] \<Rightarrow> [] | (p, ds) # q' \<Rightarrow> if length ds \<le> c then q' else (p, drop c ds) # q')"
  note q2 = q' [folded q2_def]
  show ?thesis
    unfolding getnext_spec_def eq Let_def option.case prod.case q2_def [symmetric]
    by (intro conjI r) (use q2 txavail_free [OF q2] in \<open>simp_all add: tx32_def txfree_def\<close>)
qed

lemma dma64_getnexttxp_queue:
  assumes tx: "tx64 di q" and s: "sent (cd64 di) di q forceall c"
  shows "getnext_spec tx64 di q c (dma64_getnexttxp di forceall)"
proof -
  let ?n = "ntxd (di_cfg di)"
  let ?e = "if forceall then txout di else cd64 di"
  note ring = tx [unfolded tx64_def]
  have le: "c \<le> pending q" using s by (simp add: sent_def split: if_splits)
  have n0: "?n \<noteq> 0" using ring ring_size_pos [of ?n] by (auto simp: tx_ring_def)
  note e = sent_end [OF ring s]
  obtain r h' ring' ps' where
    run: "reclaim_loop zap64 RING_FUEL ?n (txin di) ?e None (txd64 di) (txp di) = Some (r, h', ring', ps')" and
    q': "tx_ring (dview (view64 (di_cfg di)) dd_ctrl1) ?n h' (txout di) ring' ps'
      (case q of [] \<Rightarrow> [] | (p, ds) # q' \<Rightarrow> if length ds \<le> c then q' else (p, drop c ds) # q')" and
    r: "r = (case q of [] \<Rightarrow> None | (p, ds) # q' \<Rightarrow> if length ds \<le> c then Some p else None)"
    using reclaim_queue [OF ring e(1,2) le, of zap64] by blast
  have eq: "dma64_getnexttxp di forceall = Some (r, di\<lparr>txd64 := ring', txp := ps', txin := h',
      txavail := ?n - XXD (txout di - h') ?n - 1\<rparr>)"
    unfolding dma64_getnexttxp_def Let_def cd64_def [symmetric]
    using n0 e(3) run by (simp only: if_False option.case prod.case) (simp add: NTXDACTIVE_def TXD_def)
  define q2 where "q2 = (case q of [] \<Rightarrow> [] | (p, ds) # q' \<Rightarrow> if length ds \<le> c then q' else (p, drop c ds) # q')"
  note q2 = q' [folded q2_def]
  show ?thesis
    unfolding getnext_spec_def eq Let_def option.case prod.case q2_def [symmetric]
    by (intro conjI r) (use q2 txavail_free [OF q2] in \<open>simp_all add: tx64_def txfree_def\<close>)
qed

section \<open>Freeing all packets\<close>

locale tx_source =
  fixes tx :: "dma_info \<Rightarrow> (nat \<times> desc list) list \<Rightarrow> bool"
    and getnext :: "dma_info \<Rightarrow> bool \<Rightarrow> (nat option \<times> dma_info) option"
  assumes next_all: "tx di q \<Longrightarrow> getnext_spec tx di q (pending q) (getnext di True)"
    and freed: "tx (di\<lparr>pkt_freed := fs\<rparr>) q \<longleftrightarrow> tx di q"
    and small: "tx di q \<Longrightarrow> pending q < RING_FUEL \<and> (\<forall>e \<in> set q. snd e \<noteq> [])"
begin

lemma reclaim_all_loop:
  "tx di q \<Longrightarrow> length q < fuel \<Longrightarrow>
   \<exists>di'. txreclaim_loop getnext fuel True di = Some di' \<and> tx di' [] \<and> txfree di' [] \<and>
     pkt_freed di' = pkt_freed di @ map fst q"
proof (induction q arbitrary: di fuel)
  case Nil
  then obtain fuel' where "fuel = Suc fuel'" by (cases fuel) auto
  with next_all [OF Nil(1)] show ?case
    by (subst txreclaim_loop.simps) (auto simp: getnext_spec_def Let_def split: option.splits)
next
  case (Cons x q)
  obtain p ds where x: "x = (p, ds)" by (cases x)
  obtain fuel' where fuel: "fuel = Suc fuel'" "length q < fuel'" using Cons.prems(2) by (cases fuel) auto
  obtain di1 where d: "getnext di True = Some (Some p, di1)" "tx di1 q" "pkt_freed di1 = pkt_freed di"
    using next_all [OF Cons.prems(1)] x by (auto simp: getnext_spec_def Let_def split: option.splits)
  from Cons.IH [OF freed [THEN iffD2, OF d(2)] fuel(2), of "pkt_freed di1 @ [p]"]
  show ?case using d fuel x by (subst txreclaim_loop.simps) simp
qed

lemma reclaim_all:
  assumes "tx di q"
  shows "\<exists>di'. txreclaim_loop getnext (Suc RING_FUEL) True di = Some di' \<and> tx di' [] \<and> txfree di' [] \<and>
     pkt_freed di' = pkt_freed di @ map fst q"
proof (rule reclaim_all_loop [OF assms])
  have "length q \<le> pending q" if "\<forall>e \<in> set q. snd e \<noteq> []" for q :: "(nat \<times> desc list) list"
    using that
  proof (induction q)
    case (Cons e q)
    then have "0 < length (snd e)" "length q \<le> pending q" by simp_all
    then have "Suc (length q) \<le> length (snd e) + pending q" by linarith
    then show ?case by simp
  qed simp
  with small [OF assms] show "length q < Suc RING_FUEL" by (meson le_less_trans less_SucI)
qed

end

lemma tx_ring_small:
  assumes "tx_ring dv n h t ring ps q"
  shows "pending q < RING_FUEL \<and> (\<forall>e \<in> set q. snd e \<noteq> [])"
proof -
  have n: "ring_size n" and ne: "\<forall>e \<in> set q. snd e \<noteq> []" using assms unfolding tx_ring_def by blast+
  have "pending q < unat n" using ring_active_less [OF n, of h t] tx_ring_active [OF assms] by simp
  also have "unat n \<le> RING_FUEL" by (rule ring_size_le [OF n])
  finally show ?thesis using ne by blast
qed

interpretation source32: tx_source tx32 dma32_getnexttxp
proof (unfold_locales, goal_cases)
  case (1 di q)
  then show ?case by (rule dma32_getnexttxp_queue) (simp add: sent_def)
next
  case (2 di fs q)
  show ?case by (simp add: tx32_def)
next
  case (3 di q)
  then show ?case unfolding tx32_def by (rule tx_ring_small)
qed

interpretation source64: tx_source tx64 dma64_getnexttxp
proof (unfold_locales, goal_cases)
  case (1 di q)
  then show ?case by (rule dma64_getnexttxp_queue) (simp add: sent_def)
next
  case (2 di fs q)
  show ?case by (simp add: tx64_def)
next
  case (3 di q)
  then show ?case unfolding tx64_def by (rule tx_ring_small)
qed

section \<open>Rotating the ring\<close>

definition rotate_spec ::
  "(dma_info \<Rightarrow> (nat \<times> desc list) list \<Rightarrow> bool) \<Rightarrow> (dma_info \<Rightarrow> u32) \<Rightarrow> u32 \<Rightarrow> u32 \<Rightarrow> dma_info \<Rightarrow>
   (nat \<times> desc list) list \<Rightarrow> dma_info option \<Rightarrow> bool" where
  "rotate_spec tx ptr sz ad di q res \<longleftrightarrow>
     (case res of
        None \<Rightarrow> False
      | Some di' \<Rightarrow>
          tx di' q \<and>
          (if unat (TXD di (ad - txin di)) + pending q < unat (ntxd (di_cfg di))
           then txin di' = ad \<and> txfree di' q \<and> ptr di' = I2B (txout di') sz
           else di' = di))"

lemma rotate_room:
  assumes "tx_ring dv n h t ring ps q"
  shows "rot \<ge> n - XXD (t - h) n \<longleftrightarrow> \<not> unat rot + pending q < unat n"
proof -
  have "ring_active n h t = pending q" by (rule tx_ring_active [OF assms])
  moreover have "ring_active n h t < unat n" using assms by (simp add: tx_ring_def ring_active_less)
  ultimately show ?thesis
    by (simp add: ring_active_def word_le_nat_alt unat_sub) linarith
qed

definition ad32 :: "dma_info \<Rightarrow> u32" where
  "ad32 di = B2I (drop_bit 20 (r32_status (d32txregs di) AND XS_AD_MASK)) DD32"

lemma dma32_txrotate_queue:
  assumes tx: "tx32 di q" and ad: "in_ring (ntxd (di_cfg di)) (ad32 di)" "ad32 di \<noteq> txin di"
  shows "rotate_spec tx32 ptr32 DD32 (ad32 di) di q (dma32_txrotate di)"
proof -
  let ?n = "ntxd (di_cfg di)"
  let ?rot = "XXD (ad32 di - txin di) ?n"
  note ring = tx [unfolded tx32_def]
  have wf: "ring_size ?n" "in_ring ?n (txin di)" using ring by (simp_all add: tx_ring_def)
  have room: "?rot \<ge> ?n - XXD (txout di - txin di) ?n \<longleftrightarrow> \<not> unat ?rot + pending q < unat ?n"
    by (rule rotate_room [OF ring])
  have "?rot \<noteq> 0" using ring_empty [OF wf ad(1)] ad(2) by (auto simp: ring_active_def)
  show ?thesis
  proof (cases "unat ?rot + pending q < unat ?n")
    case False
    then have "dma32_txrotate di = Some di"
      using room by (simp add: dma32_txrotate_def dma_txactive_def NTXDACTIVE_def TXD_def ad32_def Let_def)
    then show ?thesis using tx False by (simp add: rotate_spec_def TXD_def)
  next
    case True
    then have lt: "?rot < ?n - XXD (txout di - txin di) ?n" using room by simp
    obtain ring' ps' where
      run: "rotate_loop rot32 zap32 RING_FUEL ?n ?rot (XXD (txout di - 1) ?n) (XXD (txin di - 1) ?n) (txd32 di) (txp di) =
        Some (ring', ps')" and
      q': "tx_ring (dview (view32 (di_cfg di)) dd_ctrl) ?n (ad32 di) (XXD (txout di + ?rot) ?n) ring' ps' q"
      using engine32.rotate_queue [OF ring \<open>?rot \<noteq> 0\<close> lt ad(1) refl, of zap32] by blast
    let ?t = "XXD (txout di + ?rot) ?n"
    have no: "(?rot \<ge> ?n - XXD (txout di - txin di) ?n) = False" using room True by simp
    have eq: "dma32_txrotate di = Some (di\<lparr>txd32 := ring', txp := ps', txin := ad32 di, txout := ?t,
        txavail := ?n - XXD (?t - ad32 di) ?n - 1, d32txregs := (d32txregs di)\<lparr>r32_ptr := I2B ?t DD32\<rparr>\<rparr>)"
      unfolding dma32_txrotate_def Let_def dma_txactive_def NTXDACTIVE_def TXD_def PREVTXD_def ad32_def [symmetric]
      by (simp only: no if_False run option.case prod.case) simp
    show ?thesis
      unfolding rotate_spec_def eq option.case
      using True q' txavail_free [OF q'] by (simp add: tx32_def txfree_def ptr32_def TXD_def)
  qed
qed

definition ad64 :: "dma_info \<Rightarrow> u32" where
  "ad64 di = B2I (r64_status1 (d64txregs di) AND D64_XS1_AD_MASK) DD64"

lemma dma64_txrotate_queue:
  assumes tx: "tx64 di q" and ad: "in_ring (ntxd (di_cfg di)) (ad64 di)" "ad64 di \<noteq> txin di"
  shows "rotate_spec tx64 ptr64 DD64 (ad64 di) di q (dma64_txrotate di)"
proof -
  let ?n = "ntxd (di_cfg di)"
  let ?rot = "XXD (ad64 di - txin di) ?n"
  note ring = tx [unfolded tx64_def]
  have wf: "ring_size ?n" "in_ring ?n (txin di)" using ring by (simp_all add: tx_ring_def)
  have room: "?rot \<ge> ?n - XXD (txout di - txin di) ?n \<longleftrightarrow> \<not> unat ?rot + pending q < unat ?n"
    by (rule rotate_room [OF ring])
  have "?rot \<noteq> 0" using ring_empty [OF wf ad(1)] ad(2) by (auto simp: ring_active_def)
  show ?thesis
  proof (cases "unat ?rot + pending q < unat ?n")
    case False
    then have "dma64_txrotate di = Some di"
      using room by (simp add: dma64_txrotate_def dma_txactive_def NTXDACTIVE_def TXD_def ad64_def Let_def)
    then show ?thesis using tx False by (simp add: rotate_spec_def TXD_def)
  next
    case True
    then have lt: "?rot < ?n - XXD (txout di - txin di) ?n" using room by simp
    obtain ring' ps' where
      run: "rotate_loop rot64 zap64 RING_FUEL ?n ?rot (XXD (txout di - 1) ?n) (XXD (txin di - 1) ?n) (txd64 di) (txp di) =
        Some (ring', ps')" and
      q': "tx_ring (dview (view64 (di_cfg di)) dd_ctrl1) ?n (ad64 di) (XXD (txout di + ?rot) ?n) ring' ps' q"
      using engine64.rotate_queue [OF ring \<open>?rot \<noteq> 0\<close> lt ad(1) refl, of zap64] by blast
    let ?t = "XXD (txout di + ?rot) ?n"
    have no: "(?rot \<ge> ?n - XXD (txout di - txin di) ?n) = False" using room True by simp
    have eq: "dma64_txrotate di = Some (di\<lparr>txd64 := ring', txp := ps', txin := ad64 di, txout := ?t,
        txavail := ?n - XXD (?t - ad64 di) ?n - 1, d64txregs := (d64txregs di)\<lparr>r64_ptr := I2B ?t DD64\<rparr>\<rparr>)"
      unfolding dma64_txrotate_def Let_def dma_txactive_def NTXDACTIVE_def TXD_def PREVTXD_def ad64_def [symmetric]
      by (simp only: no if_False run option.case prod.case) simp
    show ?thesis
      unfolding rotate_spec_def eq option.case
      using True q' txavail_free [OF q'] by (simp add: tx64_def txfree_def ptr64_def TXD_def)
  qed
qed

section \<open>Reset\<close>

lemma two_spinwaits:
  assumes zero: "\<And>j. t \<le> j \<Longrightarrow> polls j = (0 :: u32)" and t: "t \<le> 1000"
    and first: "spinwait busy (10000 + 9) polls 0 = (w, i)"
    and second: "spinwait (\<lambda>w. w \<noteq> 0) (10000 + 9) polls i = (w', k)"
  shows "w' = 0"
proof -
  have "i \<ge> 0" by simp
  then show ?thesis using spinwait_reaches [of t polls i 1000 w' k] zero t second by simp
qed

lemma txreset_cases:
  assumes "ntxd (di_cfg di) \<noteq> 0"
  shows "\<exists>w i w' k. spinwait (\<lambda>w. w \<noteq> XS_XS_DISABLED \<and> w \<noteq> XS_XS_IDLE \<and> w \<noteq> XS_XS_STOPPED) (10000 + 9)
      (\<lambda>i. polls i AND XS_XS_MASK) 0 = (w, i) \<and>
    spinwait (\<lambda>w. w \<noteq> XS_XS_DISABLED) (10000 + 9) (\<lambda>i. polls i AND XS_XS_MASK) i = (w', k) \<and>
    dma32_txreset polls di = (w' = 0, di\<lparr>d32txregs := (d32txregs di)\<lparr>r32_control := 0\<rparr>\<rparr>)"
    "\<exists>w i w' k. spinwait (\<lambda>w. w \<noteq> 0 \<and> w \<noteq> D64_XS0_XS_IDLE \<and> w \<noteq> D64_XS0_XS_STOPPED) (10000 + 9)
      (\<lambda>i. polls i AND D64_XS0_XS_MASK) 0 = (w, i) \<and>
    spinwait (\<lambda>w. w \<noteq> 0) (10000 + 9) (\<lambda>i. polls i AND D64_XS0_XS_MASK) i = (w', k) \<and>
    dma64_txreset polls di = (w' = 0, di\<lparr>d64txregs := (d64txregs di)\<lparr>r64_control := 0\<rparr>\<rparr>)"
  using assms by (simp_all add: dma32_txreset_def dma64_txreset_def Let_def split: prod.split)

lemma second_wait_end:
  assumes "spinwait (\<lambda>w. w \<noteq> (0 :: u32)) (10000 + 9) polls i = (w, k)"
  shows "w = polls (k - 1)"
proof -
  have "spinwait (\<lambda>w. w \<noteq> (0 :: u32)) (10 * 1000 + 9) polls i = (w, k)" using assms by simp
  from spinwait_spec [OF this] show ?thesis by (elim conjE)
qed

section \<open>Properties\<close>

text \<open>A transmit channel is always told to stop (its control register is cleared), and the
  reset returns \<open>TRUE\<close> only if the hardware reported the disabled state at some poll. If the
  hardware is disabled from the poll \<open>t \<le> 1000\<close> on, the reset returns \<open>TRUE\<close>.\<close>

theorem dma_txreset_stops:
  assumes "ntxd (di_cfg di) \<noteq> 0"
  shows "r32_control (d32txregs (snd (dma32_txreset polls di))) = 0 \<and>
    r64_control (d64txregs (snd (dma64_txreset polls di))) = 0 \<and>
    (fst (dma32_txreset polls di) \<longrightarrow> (\<exists>j. polls j AND XS_XS_MASK = 0)) \<and>
    (fst (dma64_txreset polls di) \<longrightarrow> (\<exists>j. polls j AND D64_XS0_XS_MASK = 0)) \<and>
    (\<forall>t \<le> 1000. (\<forall>j \<ge> t. polls j AND XS_XS_MASK = 0) \<longrightarrow> fst (dma32_txreset polls di)) \<and>
    (\<forall>t \<le> 1000. (\<forall>j \<ge> t. polls j AND D64_XS0_XS_MASK = 0) \<longrightarrow> fst (dma64_txreset polls di))"
proof -
  obtain w i w' k where r32:
    "spinwait (\<lambda>w. w \<noteq> XS_XS_DISABLED \<and> w \<noteq> XS_XS_IDLE \<and> w \<noteq> XS_XS_STOPPED) (10000 + 9)
      (\<lambda>i. polls i AND XS_XS_MASK) 0 = (w, i)"
    "spinwait (\<lambda>w. w \<noteq> XS_XS_DISABLED) (10000 + 9) (\<lambda>i. polls i AND XS_XS_MASK) i = (w', k)"
    "dma32_txreset polls di = (w' = 0, di\<lparr>d32txregs := (d32txregs di)\<lparr>r32_control := 0\<rparr>\<rparr>)"
    using txreset_cases(1) [OF assms, of polls] by blast
  obtain v i' v' k' where r64:
    "spinwait (\<lambda>w. w \<noteq> 0 \<and> w \<noteq> D64_XS0_XS_IDLE \<and> w \<noteq> D64_XS0_XS_STOPPED) (10000 + 9)
      (\<lambda>i. polls i AND D64_XS0_XS_MASK) 0 = (v, i')"
    "spinwait (\<lambda>w. w \<noteq> 0) (10000 + 9) (\<lambda>i. polls i AND D64_XS0_XS_MASK) i' = (v', k')"
    "dma64_txreset polls di = (v' = 0, di\<lparr>d64txregs := (d64txregs di)\<lparr>r64_control := 0\<rparr>\<rparr>)"
    using txreset_cases(2) [OF assms, of polls] by blast
  have "w' = 0" if "t \<le> 1000" "\<forall>j \<ge> t. polls j AND XS_XS_MASK = 0" for t
    by (rule two_spinwaits [OF _ that(1) r32(1,2)]) (use that(2) in blast)
  moreover have "v' = 0" if "t \<le> 1000" "\<forall>j \<ge> t. polls j AND D64_XS0_XS_MASK = 0" for t
    by (rule two_spinwaits [OF _ that(1) r64(1,2)]) (use that(2) in blast)
  moreover have "\<exists>j. polls j AND XS_XS_MASK = 0" if "w' = 0" using second_wait_end [OF r32(2)] that by metis
  moreover have "\<exists>j. polls j AND D64_XS0_XS_MASK = 0" if "v' = 0" using second_wait_end [OF r64(2)] that by metis
  ultimately show ?thesis unfolding r32(3) r64(3) by simp
qed

definition cfg4 :: dma_cfg where
  "cfg4 = \<lparr>c_self = 0, dma64 = False, addrext = True, dma64align = 4096, ntxd = 4, nrxd = 4, m_txp = None,
     m_rxp = None, m_txp_dmah = None, m_rxp_dmah = None, m_txd = None, txdpa = 0, txdalign = 0, txdalloc = 0,
     m_rxd = None, rxdpa = 0, rxdalign = 0, rxdalloc = 0, rxbufsize = 2048, nrxpost = 2, rxoffset = 30,
     ddoffsetlow = 0, ddoffsethigh = 0, dataoffsetlow = 0, dataoffsethigh = 0\<rparr>"

definition di4 :: dma_info where
  "di4 = \<lparr>di_cfg = cfg4, txavail = 3, rxgiants = 0, rxnobuf = 0, txnobuf = 0,
     d32txregs = \<lparr>r32_control = 1, r32_addr = 0, r32_ptr = 0, r32_status = 0x00800008\<rparr>,
     d32rxregs = \<lparr>r32_control = 1, r32_addr = 0, r32_ptr = 0, r32_status = 0\<rparr>,
     d64txregs = \<lparr>r64_control = 1, r64_ptr = 0, r64_addrlow = 0, r64_addrhigh = 0, r64_status0 = 16, r64_status1 = 16\<rparr>,
     d64rxregs = \<lparr>r64_control = 1, r64_ptr = 0, r64_addrlow = 0, r64_addrhigh = 0, r64_status0 = 0, r64_status1 = 0\<rparr>,
     txd32 = replicate 4 zero32, txd64 = replicate 4 zero64, txin = 0, txout = 0, txp = replicate 4 None,
     rxd32 = replicate 4 zero32, rxd64 = replicate 4 zero64, rxin = 0, rxout = 0, rxp = replicate 4 None,
     pkt_freed = []\<rparr>"

lemma dma_txreset_stops_witness:
  "fst (dma32_txreset (\<lambda>i. if i < 3 then 0x1000 else 0) di4)"
proof -
  have "ntxd (di_cfg di4) \<noteq> 0" by (simp add: di4_def cfg4_def)
  from dma_txreset_stops [OF this, of "\<lambda>i. if i < 3 then 0x1000 else 0"]
  have stop: "\<forall>t \<le> (1000 :: nat). (\<forall>j \<ge> t. (if j < (3 :: nat) then 0x1000 else 0) AND XS_XS_MASK = 0) \<longrightarrow>
      fst (dma32_txreset (\<lambda>i. if i < 3 then 0x1000 else 0) di4)" by (elim conjE)
  have "3 \<le> (1000 :: nat) \<longrightarrow> (\<forall>j \<ge> 3. (if j < (3 :: nat) then 0x1000 else 0) AND XS_XS_MASK = 0) \<longrightarrow>
      fst (dma32_txreset (\<lambda>i. if i < 3 then 0x1000 else 0) di4)"
    using stop by (rule spec)
  moreover have "(if j < 3 then 0x1000 else 0) AND XS_XS_MASK = 0" if "j \<ge> 3" for j :: nat using that by simp
  ultimately show ?thesis by (meson numeral_le_iff semiring_norm)
qed

text \<open>C1: Posting a chain with data, on an engine whose ring holds a queue of packets: if there are
  descriptors for it, the call returns 0, the packet is appended with one descriptor for each
  non-empty buffer in order (start of frame on the first one if the chain's first buffer has
  data, end of frame and interrupt on the last one, end of table at the last ring index only),
  the free count is right and a commit tells the chip. Otherwise it returns -1, the queue is
  unchanged, the packet is freed and the free count is 0.\<close>

theorem dma_txfast_refines:
  assumes "\<exists>b \<in> set bs. fst b \<noteq> 0"
  shows "(tx32 di q \<and> (\<forall>b \<in> set bs. fst b \<le> 0x1FFF) \<longrightarrow>
      post_spec tx32 ptr32 DD32 commit di q p bs (dma32_txfast di p bs commit)) \<and>
    (tx64 di q \<and> (\<forall>b \<in> set bs. fst b \<le> 0x7FFF) \<longrightarrow>
      post_spec tx64 ptr64 DD64 commit di q p bs (dma64_txfast di p bs commit))"
  using dma32_txfast_queue [OF _ assms] dma64_txfast_queue [OF _ assms] by blast

lemma tx_empty: "tx32 di4 []" "tx64 di4 []"
proof -
  have "ring_size 4" unfolding ring_size_def by (rule bexI [of _ 2]) simp_all
  moreover have "replicate 4 (None :: nat option) ! (j mod 4) = None" for j by simp
  moreover have "ring_active 4 0 0 = 0" by (simp add: ring_active_def XXD_def)
  ultimately show "tx32 di4 []" "tx64 di4 []"
    by (simp_all add: tx32_def tx64_def tx_ring_def di4_def cfg4_def in_ring_def)
qed

lemma dma_txfast_refines_witness:
  "post_spec tx32 ptr32 DD32 True di4 [] 7 [(10, 0x1000), (0, 0), (20, 0x2000)]
     (dma32_txfast di4 7 [(10, 0x1000), (0, 0), (20, 0x2000)] True) \<and>
   post_spec tx64 ptr64 DD64 True di4 [] 7 [(10, 0x1000), (0, 0), (20, 0x2000)]
     (dma64_txfast di4 7 [(10, 0x1000), (0, 0), (20, 0x2000)] True)"
proof -
  have "\<exists>b \<in> set [(10 :: u32, 0x1000 :: u32), (0, 0), (20, 0x2000)]. fst b \<noteq> 0" by simp
  from dma_txfast_refines [OF this, of di4 "[]" True 7] tx_empty show ?thesis by simp
qed

text \<open>With \<open>c\<close> descriptors sent, or all when forced, the next packet is returned and leaves the
  queue if all its descriptors are sent; otherwise nothing is returned and the packet stays with
  its remaining descriptors. The call returns and the free count is right.\<close>

theorem dma_getnexttxp_refines:
  "(tx32 di q \<and> sent (cd32 di) di q forceall c \<longrightarrow> getnext_spec tx32 di q c (dma32_getnexttxp di forceall)) \<and>
   (tx64 di q \<and> sent (cd64 di) di q forceall c \<longrightarrow> getnext_spec tx64 di q c (dma64_getnexttxp di forceall))"
  using dma32_getnexttxp_queue dma64_getnexttxp_queue by blast

definition one32 :: dma_info where "one32 = snd (dma32_txfast di4 7 [(10, 0x1000), (20, 0x2000)] True)"
definition one64 :: dma_info where "one64 = snd (dma64_txfast di4 7 [(10, 0x1000), (20, 0x2000)] True)"

lemma tx_one:
  "tx32 one32 [(7, frame True [(10, 0x1000), (20, 0x2000)])]"
  "tx64 one64 [(7, frame True [(10, 0x1000), (20, 0x2000)])]"
proof -
  have n: "ntxd (di_cfg di4) = 4" by (simp add: di4_def cfg4_def)
  have "post_spec tx32 ptr32 DD32 True di4 [] 7 [(10, 0x1000), (20, 0x2000)]
      (dma32_txfast di4 7 [(10, 0x1000), (20, 0x2000)] True)"
    by (rule dma32_txfast_queue [OF tx_empty(1)]) simp_all
  then show "tx32 one32 [(7, frame True [(10, 0x1000), (20, 0x2000)])]"
    by (simp add: post_spec_def n one32_def Let_def)
  have "post_spec tx64 ptr64 DD64 True di4 [] 7 [(10, 0x1000), (20, 0x2000)]
      (dma64_txfast di4 7 [(10, 0x1000), (20, 0x2000)] True)"
    by (rule dma64_txfast_queue [OF tx_empty(2)]) simp_all
  then show "tx64 one64 [(7, frame True [(10, 0x1000), (20, 0x2000)])]"
    by (simp add: post_spec_def n one64_def Let_def)
qed

lemmas eval_tx = one32_def one64_def di4_def cfg4_def dma32_txfast_def dma64_txfast_def dma32_dd_upd_def
  dma64_dd_upd_def txfix_def XXD_def PREVTXD_def NTXDACTIVE_def TXD_def I2B_def B2I_def zero32_def zero64_def
  set_ctrl_def set_ctrl1_def Let_def

lemma one_state:
  "cd32 one32 = 1" "txin one32 = 0" "ntxd (di_cfg one32) = 4" "ad32 one32 = 1"
  "cd64 one64 = 1" "txin one64 = 0" "ntxd (di_cfg one64) = 4" "ad64 one64 = 1"
  by (simp_all add: eval_tx cd32_def cd64_def ad32_def ad64_def)

lemma dma_getnexttxp_refines_witness:
  "getnext_spec tx32 one32 [(7, frame True [(10, 0x1000), (20, 0x2000)])] 1 (dma32_getnexttxp one32 False) \<and>
   getnext_spec tx64 one64 [(7, frame True [(10, 0x1000), (20, 0x2000)])] 2 (dma64_getnexttxp one64 True)"
  using dma_getnexttxp_refines [of one32 "[(7, frame True [(10, 0x1000), (20, 0x2000)])]" False 1]
    dma_getnexttxp_refines [of one64 "[(7, frame True [(10, 0x1000), (20, 0x2000)])]" True 2] tx_one one_state
  by (simp add: sent_def)

text \<open>Reclaiming everything returns, frees the packets of the queue in their order, each once, and
  leaves an empty ring with all descriptors free.\<close>

theorem dma_txreclaim_all:
  "(tx32 di q \<longrightarrow> (\<exists>di'. dma32_txreclaim di True = Some di' \<and> tx32 di' [] \<and> txfree di' [] \<and>
      pkt_freed di' = pkt_freed di @ map fst q)) \<and>
   (tx64 di q \<longrightarrow> (\<exists>di'. dma64_txreclaim di True = Some di' \<and> tx64 di' [] \<and> txfree di' [] \<and>
      pkt_freed di' = pkt_freed di @ map fst q))"
  unfolding dma32_txreclaim_def dma64_txreclaim_def
  using source32.reclaim_all source64.reclaim_all by blast

lemma dma_txreclaim_all_witness:
  "(\<exists>di'. dma32_txreclaim one32 True = Some di' \<and> tx32 di' []) \<and>
   (\<exists>di'. dma64_txreclaim one64 True = Some di' \<and> tx64 di' [])"
  using dma_txreclaim_all [of one32] dma_txreclaim_all [of one64] tx_one by blast

text \<open>C21: Rotating the ring to the hardware's active index, another one than the first: the queue of
  packets and their descriptors are the same afterwards, with the end of table again only at the
  last ring index; if the moved entries would overlap the others the ring is left alone.\<close>

theorem dma_txrotate_refines:
  "(tx32 di q \<and> in_ring (ntxd (di_cfg di)) (ad32 di) \<and> ad32 di \<noteq> txin di \<longrightarrow>
      rotate_spec tx32 ptr32 DD32 (ad32 di) di q (dma32_txrotate di)) \<and>
   (tx64 di q \<and> in_ring (ntxd (di_cfg di)) (ad64 di) \<and> ad64 di \<noteq> txin di \<longrightarrow>
      rotate_spec tx64 ptr64 DD64 (ad64 di) di q (dma64_txrotate di))"
  using dma32_txrotate_queue dma64_txrotate_queue by blast

lemma dma_txrotate_refines_witness:
  "rotate_spec tx32 ptr32 DD32 1 one32 [(7, frame True [(10, 0x1000), (20, 0x2000)])] (dma32_txrotate one32) \<and>
   rotate_spec tx64 ptr64 DD64 1 one64 [(7, frame True [(10, 0x1000), (20, 0x2000)])] (dma64_txrotate one64)"
  using dma_txrotate_refines [of one32 "[(7, frame True [(10, 0x1000), (20, 0x2000)])]"]
    dma_txrotate_refines [of one64 "[(7, frame True [(10, 0x1000), (20, 0x2000)])]"] tx_one one_state
  by (simp add: in_ring_def)

lemma replicate_four: "replicate 4 x = [x, x, x, x]"
  by (simp add: eval_nat_numeral)

text \<open>With the active index equal to the first, the entries are moved onto themselves: the packet is
  lost.\<close>

lemma txrotate_same_index:
  "map_option txp (dma32_txrotate (one32\<lparr>d32txregs := (d32txregs one32)\<lparr>r32_status := 0\<rparr>\<rparr>)) =
     Some [None, None, None, None]"
  by (simp add: eval_tx dma32_txrotate_def dma_txactive_def rotate_loop.simps replicate_four)

end
