(* ===== verification/DmaRecv.thy ===== *)
theory DmaRecv
  imports DmaQueue
begin

text \<open>
  The receive ring (\<open>hnddma.c\<close>): posting empty buffers, taking received frames, skipping frames
  that span several buffers, and reclaiming. \<open>bufs\<close> are the results of \<open>PKTGET\<close> with the bus
  address of each buffer, \<open>flen\<close> the frame length that the hardware wrote into a buffer.
\<close>

section \<open>Operations\<close>

definition dma32_getnextrxp :: "dma_info \<Rightarrow> bool \<Rightarrow> nat option \<times> dma_info" where
  "dma32_getnextrxp di forceall =
     (let i = rxin di in
      if i = rxout di then (None, di)
      else if \<not> forceall \<and> i = B2I (r32_status (d32rxregs di) AND XS_CD_MASK) DD32 then (None, di)
      else
        (let p = rxp di ! unat i;
             di = di\<lparr>rxp := (rxp di)[unat i := None]\<rparr>;
             di = di\<lparr>rxd32 := (rxd32 di)[unat i := zap32 (rxd32 di ! unat i)]\<rparr>
         in (p, di\<lparr>rxin := NEXTRXD di i\<rparr>)))"

definition dma64_getnextrxp :: "dma_info \<Rightarrow> bool \<Rightarrow> nat option \<times> dma_info" where
  "dma64_getnextrxp di forceall =
     (let i = rxin di in
      if i = rxout di then (None, di)
      else if \<not> forceall \<and> i = B2I (r64_status0 (d64rxregs di) AND D64_XS0_CD_MASK) DD64 then (None, di)
      else
        (let p = rxp di ! unat i;
             di = di\<lparr>rxp := (rxp di)[unat i := None]\<rparr>;
             di = di\<lparr>rxd64 := (rxd64 di)[unat i := zap64 (rxd64 di ! unat i)]\<rparr>
         in (p, di\<lparr>rxin := NEXTRXD di i\<rparr>)))"

definition dma_getnextrxp :: "dma_info \<Rightarrow> bool \<Rightarrow> nat option \<times> dma_info" where
  "dma_getnextrxp di forceall =
     (if nrxd (di_cfg di) = 0 then (None, di)
      else if dma64 (di_cfg di) then dma64_getnextrxp di forceall
      else dma32_getnextrxp di forceall)"

text \<open>The result has the packet with the length set by \<open>PKTSETLEN\<close>; \<open>skiplen\<close> is a signed 32-bit
  integer. \<open>None\<close>: out of \<open>fuel\<close>.\<close>

fun rx_loop ::
  "(nat \<Rightarrow> u32) \<Rightarrow> nat \<Rightarrow> int \<Rightarrow> dma_info \<Rightarrow> ((nat \<times> u32) option \<times> dma_info) option" where
  "rx_loop flen fuel skiplen di =
     (case fuel of
        0 \<Rightarrow> None
      | Suc fuel \<Rightarrow>
          (case dma_getnextrxp di False of
             (None, di) \<Rightarrow> Some (None, di)
           | (Some p, di) \<Rightarrow>
               (let c = di_cfg di in
                if 0 < skiplen then
                  (let skiplen = sint (word_of_int skiplen - rxbufsize c);
                       skiplen = (if skiplen < 0 then 0 else skiplen)
                   in rx_loop flen fuel skiplen (di\<lparr>pkt_freed := pkt_freed di @ [p]\<rparr>))
                else
                  (let len = flen p in
                   if len > rxbufsize c - rxoffset c then
                     rx_loop flen fuel (if len > 0 then sint (len - (rxbufsize c - rxoffset c)) else skiplen)
                       (di\<lparr>pkt_freed := pkt_freed di @ [p], rxgiants := rxgiants di + 1\<rparr>)
                   else Some (Some (p, rxoffset c + len), di)))))"

declare rx_loop.simps [simp del]

definition dma_rx :: "(nat \<Rightarrow> u32) \<Rightarrow> dma_info \<Rightarrow> ((nat \<times> u32) option \<times> dma_info) option" where
  "dma_rx flen di = rx_loop flen (Suc RING_FUEL) 0 di"

text \<open>Posting at most \<open>k\<close> buffers, the next being number \<open>i\<close>.\<close>

fun rxfill_loop :: "(nat \<Rightarrow> (nat \<times> u32) option) \<Rightarrow> nat \<Rightarrow> nat \<Rightarrow> u32 \<Rightarrow> dma_info \<Rightarrow> u32 \<times> dma_info" where
  "rxfill_loop bufs 0 i ro di = (ro, di)"
| "rxfill_loop bufs (Suc k) i ro di =
     (case bufs i of
        None \<Rightarrow> (ro, di\<lparr>rxnobuf := rxnobuf di + 1\<rparr>)
      | Some (p, pa) \<Rightarrow>
          (let c = di_cfg di;
               di = di\<lparr>rxp := (rxp di)[unat ro := Some p]\<rparr>;
               flags = (if ro = nrxd c - 1 then CTRL_EOT else 0);
               di = (if dma64 c then di\<lparr>rxd64 := snd (dma64_dd_upd c (rxd64 di) pa ro flags (rxbufsize c))\<rparr>
                     else di\<lparr>rxd32 := snd (dma32_dd_upd c (rxd32 di) pa ro flags (rxbufsize c))\<rparr>)
           in rxfill_loop bufs k (Suc i) (NEXTRXD di ro) di))"

definition dma_rxfill :: "(nat \<Rightarrow> (nat \<times> u32) option) \<Rightarrow> dma_info \<Rightarrow> dma_info" where
  "dma_rxfill bufs di =
     (let n = nrxpost (di_cfg di) - NRXDACTIVE di (rxin di) (rxout di);
          (ro, di) = rxfill_loop bufs (unat n) 0 (rxout di) di;
          di = di\<lparr>rxout := ro\<rparr>
      in if dma64 (di_cfg di) then di\<lparr>d64rxregs := (d64rxregs di)\<lparr>r64_ptr := I2B ro DD64\<rparr>\<rparr>
         else di\<lparr>d32rxregs := (d32rxregs di)\<lparr>r32_ptr := I2B ro DD32\<rparr>\<rparr>)"

fun rxreclaim_loop :: "nat \<Rightarrow> dma_info \<Rightarrow> dma_info option" where
  "rxreclaim_loop fuel di =
     (case fuel of
        0 \<Rightarrow> None
      | Suc fuel \<Rightarrow>
          (case dma_getnextrxp di True of
             (None, di) \<Rightarrow> Some di
           | (Some p, di) \<Rightarrow> rxreclaim_loop fuel (di\<lparr>pkt_freed := pkt_freed di @ [p]\<rparr>)))"

declare rxreclaim_loop.simps [simp del]

definition dma_rxreclaim :: "dma_info \<Rightarrow> dma_info option" where
  "dma_rxreclaim di = rxreclaim_loop (Suc RING_FUEL) di"

section \<open>The posted buffers\<close>

definition rx_entry :: "u32 \<Rightarrow> nat \<times> u32 \<Rightarrow> nat \<times> desc list" where
  "rx_entry bsz b = (fst b, [((snd b, bsz), 0)])"

definition rx_holds :: "dma_info \<Rightarrow> (nat \<times> u32) list \<Rightarrow> bool" where
  "rx_holds di q \<longleftrightarrow>
     (let c = di_cfg di; es = map (rx_entry (rxbufsize c)) q in
      if dma64 c then tx_ring (dview (view64 c) dd_ctrl1) (nrxd c) (rxin di) (rxout di) (rxd64 di) (rxp di) es
      else tx_ring (dview (view32 c) dd_ctrl) (nrxd c) (rxin di) (rxout di) (rxd32 di) (rxp di) es)"

lemma pending_entries [simp]: "length (concat (map snd (map (rx_entry bsz) q))) = length q"
  by (induction q) (simp_all add: rx_entry_def)

text \<open>One more entry at the end.\<close>

lemma post_one:
  assumes tx: "tx_ring dv n h t ring ps q" and room: "length (concat (map snd q)) + 1 < unat n"
    and x: "dv x = (fst d, snd d OR eot_at (unat n) (unat t))" and d: "snd d AND CTRL_EOT = 0"
  shows "tx_ring dv n h (XXD (t + 1) n) (ring[unat t := x]) (ps[unat t := Some p]) (q @ [(p, [d])])"
proof -
  let ?a = "ring_active n h t"
  have wf: "ring_size n" "in_ring n h" "in_ring n t" "length ring = unat n" "length ps = unat n"
    using tx by (simp_all add: tx_ring_def)
  have a: "?a = length (concat (map snd q))" by (rule tx_ring_active [OF tx])
  have act: "ring_active n h (XXD (t + 1) n) = Suc ?a" using ring_post [OF wf(1-3)] room a by simp
  have old: "map dv (segment ring (unat n) (unat h) ?a) = eots (unat n) (unat h) (concat (map snd q))"
    and sl: "segment ps (unat n) (unat h) ?a = concat (map slots q)" using tx by (simp_all add: tx_ring_def)
  have "eot_at (unat n) (unat t) = eot_at (unat n) (unat h + ?a)"
    using ring_end [OF wf(1-3)] by (simp add: eot_at_def)
  then have descs: "map dv (segment (ring[unat t := x]) (unat n) (unat h) (Suc ?a)) =
      eots (unat n) (unat h) (concat (map snd (q @ [(p, [d])])))"
    unfolding segment_post [OF wf(1-4)] map_append old by (simp add: x eots_append a)
  have sl': "segment (ps[unat t := Some p]) (unat n) (unat h) (Suc ?a) = concat (map slots (q @ [(p, [d])]))"
    unfolding segment_post [OF wf(1-3,5)] by (simp add: sl slots_def)
  have rest: "ps[unat t := Some p] ! ((unat h + j) mod unat n) = None" if j: "Suc ?a \<le> j" "j < unat n" for j
  proof -
    have "(unat h + j) mod unat n \<noteq> unat t"
      using ring_inj [of j "unat n" ?a "unat h"] ring_end [OF wf(1-3)] j by auto
    moreover have "ps ! ((unat h + j) mod unat n) = None" using tx j by (simp add: tx_ring_def)
    ultimately show ?thesis by simp
  qed
  have all: "\<forall>e \<in> set (q @ [(p, [d])]). snd e \<noteq> [] \<and> (\<forall>d \<in> set (snd e). snd d AND CTRL_EOT = 0)"
    using tx d by (auto simp: tx_ring_def)
  show ?thesis unfolding tx_ring_def act by (intro conjI wf all descs sl') (use wf rest in simp_all)
qed

section \<open>Taking a buffer\<close>

definition rxcd :: "dma_info \<Rightarrow> u32" where
  "rxcd di = (if dma64 (di_cfg di) then B2I (r64_status0 (d64rxregs di) AND D64_XS0_CD_MASK) DD64
              else B2I (r32_status (d32rxregs di) AND XS_CD_MASK) DD32)"

lemma rx_holds_ring:
  assumes "rx_holds di q"
  shows "ring_size (nrxd (di_cfg di))" "in_ring (nrxd (di_cfg di)) (rxin di)" "in_ring (nrxd (di_cfg di)) (rxout di)"
    "ring_active (nrxd (di_cfg di)) (rxin di) (rxout di) = length q" "length q < unat (nrxd (di_cfg di))"
    "nrxd (di_cfg di) \<noteq> 0" "rxin di = rxout di \<longleftrightarrow> q = []"
proof -
  let ?n = "nrxd (di_cfg di)"
  have r: "ring_size ?n \<and> in_ring ?n (rxin di) \<and> in_ring ?n (rxout di) \<and>
      ring_active ?n (rxin di) (rxout di) = length q"
  proof (cases "dma64 (di_cfg di)")
    case True
    with assms have h: "tx_ring (dview (view64 (di_cfg di)) dd_ctrl1) ?n (rxin di) (rxout di) (rxd64 di) (rxp di)
        (map (rx_entry (rxbufsize (di_cfg di))) q)" by (simp add: rx_holds_def Let_def)
    from tx_ring_active [OF h] h show ?thesis by (simp only: pending_entries tx_ring_def) 
  next
    case False
    with assms have h: "tx_ring (dview (view32 (di_cfg di)) dd_ctrl) ?n (rxin di) (rxout di) (rxd32 di) (rxp di)
        (map (rx_entry (rxbufsize (di_cfg di))) q)" by (simp add: rx_holds_def Let_def)
    from tx_ring_active [OF h] h show ?thesis by (simp only: pending_entries tx_ring_def)
  qed
  then show wf: "ring_size ?n" "in_ring ?n (rxin di)" "in_ring ?n (rxout di)" and
    act: "ring_active ?n (rxin di) (rxout di) = length q" by blast+
  show "length q < unat ?n" using ring_active_less [OF wf(1), of "rxin di" "rxout di"] act by simp
  then show "?n \<noteq> 0" by auto
  show "rxin di = rxout di \<longleftrightarrow> q = []" using ring_empty [OF wf] act by simp
qed

lemma getnextrxp_none:
  assumes "rx_holds di q" "q = [] \<or> \<not> forceall \<and> rxcd di = rxin di"
  shows "dma_getnextrxp di forceall = (None, di)"
proof (cases "rxin di = rxout di")
  case True
  then show ?thesis by (simp add: dma_getnextrxp_def dma32_getnextrxp_def dma64_getnextrxp_def)
next
  case False
  then have f: "forceall = False" "rxin di = rxcd di" using assms(2) rx_holds_ring(7) [OF assms(1)] by auto
  show ?thesis
  proof (cases "dma64 (di_cfg di)")
    case True
    with f(2) have "rxin di = B2I (r64_status0 (d64rxregs di) AND D64_XS0_CD_MASK) DD64" by (simp add: rxcd_def)
    with True f(1) show ?thesis by (simp only: dma_getnextrxp_def dma64_getnextrxp_def Let_def) simp
  next
    case F: False
    with f(2) have "rxin di = B2I (r32_status (d32rxregs di) AND XS_CD_MASK) DD32" by (simp add: rxcd_def)
    with F f(1) show ?thesis by (simp only: dma_getnextrxp_def dma32_getnextrxp_def Let_def) simp
  qed
qed

lemma getnextrxp_some:
  assumes "rx_holds di (b # q)" "forceall \<or> rxcd di \<noteq> rxin di"
  shows "\<exists>di'. dma_getnextrxp di forceall = (Some (fst b), di') \<and> rx_holds di' q \<and> di_cfg di' = di_cfg di \<and>
    pkt_freed di' = pkt_freed di \<and> rxcd di' = rxcd di \<and> rxgiants di' = rxgiants di \<and>
    rxin di' = XXD (rxin di + 1) (nrxd (di_cfg di))"
proof -
  let ?c = "di_cfg di"
  note r = rx_holds_ring [OF assms(1)]
  have ne: "rxin di \<noteq> rxout di" using r(7) by simp
  have e: "rx_entry (rxbufsize ?c) b = (fst b, [((snd b, rxbufsize ?c), 0)])" by (simp add: rx_entry_def)
  show ?thesis
  proof (cases "dma64 ?c")
    case True
    with assms(1) have h: "tx_ring (dview (view64 ?c) dd_ctrl1) (nrxd ?c) (rxin di) (rxout di) (rxd64 di) (rxp di)
        ((fst b, [((snd b, rxbufsize ?c), 0)]) # map (rx_entry (rxbufsize ?c)) q)"
      by (simp add: rx_holds_def e Let_def)
    show ?thesis
      using take_queue(1) [OF h] take_queue(2) [OF h, of "zap64 (rxd64 di ! unat (rxin di))"] ne assms(2) r(6) True
      by (auto simp: dma_getnextrxp_def dma64_getnextrxp_def rx_holds_def rxcd_def NEXTRXD_def RXD_def Let_def)
  next
    case False
    with assms(1) have h: "tx_ring (dview (view32 ?c) dd_ctrl) (nrxd ?c) (rxin di) (rxout di) (rxd32 di) (rxp di)
        ((fst b, [((snd b, rxbufsize ?c), 0)]) # map (rx_entry (rxbufsize ?c)) q)"
      by (simp add: rx_holds_def e Let_def)
    show ?thesis
      using take_queue(1) [OF h] take_queue(2) [OF h, of "zap32 (rxd32 di ! unat (rxin di))"] ne assms(2) r(6) False
      by (auto simp: dma_getnextrxp_def dma32_getnextrxp_def rx_holds_def rxcd_def NEXTRXD_def RXD_def Let_def)
  qed
qed

lemma rx_holds_other [simp]:
  "rx_holds (di\<lparr>pkt_freed := fs\<rparr>) q = rx_holds di q" "rx_holds (di\<lparr>rxgiants := g\<rparr>) q = rx_holds di q"
  "rx_holds (di\<lparr>rxnobuf := g\<rparr>) q = rx_holds di q" "rxcd (di\<lparr>pkt_freed := fs\<rparr>) = rxcd di"
  "rxcd (di\<lparr>rxgiants := g\<rparr>) = rxcd di"
  "rx_holds (di\<lparr>d32rxregs := r\<rparr>) q = rx_holds di q" "rx_holds (di\<lparr>d64rxregs := r'\<rparr>) q = rx_holds di q"
  by (simp_all add: rx_holds_def rxcd_def)

section \<open>Receiving\<close>

text \<open>The hardware has filled \<open>c\<close> of the posted buffers.\<close>

definition received :: "dma_info \<Rightarrow> nat \<Rightarrow> bool" where
  "received di c \<longleftrightarrow> unat (rxcd di) = (unat (rxin di) + c) mod unat (nrxd (di_cfg di))"

lemma received_none:
  assumes "rx_holds di q" "received di c" "c \<le> length q"
  shows "rxcd di = rxin di \<longleftrightarrow> c = 0"
proof -
  let ?n = "unat (nrxd (di_cfg di))"
  note r = rx_holds_ring [OF assms(1)]
  have h: "(unat (rxin di) + 0) mod ?n = unat (rxin di)" using r(2) by (simp add: in_ring_def)
  have "rxcd di = rxin di \<longleftrightarrow> unat (rxcd di) = unat (rxin di)" by (metis unsigned_word_eqI)
  also have "\<dots> \<longleftrightarrow> c = 0"
    using ring_inj [of c ?n 0 "unat (rxin di)"] r(5) assms(2,3) h by (auto simp: received_def)
  finally show ?thesis .
qed

lemma received_next:
  assumes "rx_holds di q" "received di (Suc c)" "di_cfg di' = di_cfg di" "rxcd di' = rxcd di"
    "rxin di' = XXD (rxin di + 1) (nrxd (di_cfg di))"
  shows "received di' c"
  using assms(2) next_index [OF rx_holds_ring(1) [OF assms(1)], of "rxin di"] assms(3-5)
  by (simp add: received_def mod_add_left_eq)

definition rx_result ::
  "(nat \<Rightarrow> u32) \<Rightarrow> dma_info \<Rightarrow> (nat \<times> u32) list \<Rightarrow> nat \<Rightarrow> (nat \<times> u32) option \<Rightarrow> dma_info \<Rightarrow> nat \<Rightarrow> bool" where
  "rx_result flen di q c r di' k \<longleftrightarrow>
     k \<le> c \<and> pkt_freed di' = pkt_freed di @ map fst (take k q) \<and> received di' (c - (if r = None then k else Suc k)) \<and>
     (case r of
        None \<Rightarrow> k = c \<and> rx_holds di' (drop k q)
      | Some (p, l) \<Rightarrow>
          k < c \<and> p = fst (q ! k) \<and> flen p \<le> rxbufsize (di_cfg di) - rxoffset (di_cfg di) \<and>
          l = rxoffset (di_cfg di) + flen p \<and> rx_holds di' (drop (Suc k) q))"

lemma rx_loop_run:
  assumes "rx_holds di q" "received di c" "c \<le> length q" "c < fuel"
  shows "\<exists>r di' k. rx_loop flen fuel skiplen di = Some (r, di') \<and> rx_result flen di q c r di' k \<and>
    (0 < k \<and> \<not> 0 < skiplen \<longrightarrow> flen (fst (q ! 0)) > rxbufsize (di_cfg di) - rxoffset (di_cfg di))"
  using assms
proof (induction c arbitrary: q di fuel skiplen)
  case 0
  then obtain fuel' where "fuel = Suc fuel'" by (cases fuel) auto
  moreover have "dma_getnextrxp di False = (None, di)"
    by (rule getnextrxp_none [OF 0(1)]) (use received_none [OF 0(1-3)] in simp)
  ultimately have "rx_loop flen fuel skiplen di = Some (None, di)" by (subst rx_loop.simps) simp
  then show ?case using 0 by (intro exI [of _ None] exI [of _ di] exI [of _ 0]) (simp add: rx_result_def)
next
  case (Suc c)
  let ?c = "di_cfg di"
  obtain b q' where q: "q = b # q'" using Suc.prems(3) by (cases q) auto
  obtain fuel' where fuel: "fuel = Suc fuel'" "c < fuel'" using Suc.prems(4) by (cases fuel) auto
  have "rxcd di \<noteq> rxin di" using received_none [OF Suc.prems(1-3)] by simp
  then obtain di1 where d: "dma_getnextrxp di False = (Some (fst b), di1)" "rx_holds di1 q'" "di_cfg di1 = ?c"
      "pkt_freed di1 = pkt_freed di" "rxcd di1 = rxcd di" "rxin di1 = XXD (rxin di + 1) (nrxd ?c)"
    using getnextrxp_some [OF Suc.prems(1) [unfolded q], of False] by blast
  have rc: "received di1 c" by (rule received_next [OF Suc.prems(1,2) d(3,5,6)])
  have go: "\<exists>r di' k. rx_loop flen fuel' sk di2 = Some (r, di') \<and> rx_result flen di q (Suc c) r di' (Suc k)"
    if "rx_holds di2 q'" "received di2 c" "di_cfg di2 = ?c" "pkt_freed di2 = pkt_freed di @ [fst b]" for sk di2
  proof -
    have "c \<le> length q'" using Suc.prems(3) q by simp
    from Suc.IH [OF that(1,2) this fuel(2), of sk] obtain r di' k where
      "rx_loop flen fuel' sk di2 = Some (r, di')" "rx_result flen di2 q' c r di' k" by blast
    then show ?thesis using that q by (intro exI [of _ r] exI [of _ di'] exI [of _ k])
      (auto simp: rx_result_def split: option.splits)
  qed
  have step: "rx_loop flen fuel skiplen di =
      (if 0 < skiplen then
         (let skiplen = sint (word_of_int skiplen - rxbufsize ?c); skiplen = (if skiplen < 0 then 0 else skiplen)
          in rx_loop flen fuel' skiplen (di1\<lparr>pkt_freed := pkt_freed di1 @ [fst b]\<rparr>))
       else if flen (fst b) > rxbufsize ?c - rxoffset ?c then
         rx_loop flen fuel' (if flen (fst b) > 0 then sint (flen (fst b) - (rxbufsize ?c - rxoffset ?c)) else skiplen)
           (di1\<lparr>pkt_freed := pkt_freed di1 @ [fst b], rxgiants := rxgiants di1 + 1\<rparr>)
       else Some (Some (fst b, rxoffset ?c + flen (fst b)), di1))"
    using d(1,3) fuel(1) by (subst rx_loop.simps) (simp add: Let_def)
  consider "0 < skiplen" | "\<not> 0 < skiplen" "flen (fst b) > rxbufsize ?c - rxoffset ?c"
    | "\<not> 0 < skiplen" "\<not> flen (fst b) > rxbufsize ?c - rxoffset ?c" by blast
  then show ?case
  proof cases
    case 1
    have g: "rx_holds (di1\<lparr>pkt_freed := pkt_freed di1 @ [fst b]\<rparr>) q'"
      "received (di1\<lparr>pkt_freed := pkt_freed di1 @ [fst b]\<rparr>) c" using d(2) rc by (simp_all add: received_def)
    from go [OF g] d(3,4) 1 step show ?thesis by (simp add: Let_def) blast
  next
    case 2
    have g: "rx_holds (di1\<lparr>pkt_freed := pkt_freed di1 @ [fst b], rxgiants := rxgiants di1 + 1\<rparr>) q'"
      "received (di1\<lparr>pkt_freed := pkt_freed di1 @ [fst b], rxgiants := rxgiants di1 + 1\<rparr>) c"
      using d(2) rc by (simp_all add: received_def)
    from go [OF g] d(3,4) 2 step q show ?thesis by (simp add: Let_def) blast
  next
    case 3
    then have "rx_loop flen fuel skiplen di = Some (Some (fst b, rxoffset ?c + flen (fst b)), di1)"
      using step by simp
    then show ?thesis using d rc q 3
      by (intro exI [of _ "Some (fst b, rxoffset ?c + flen (fst b))"] exI [of _ di1] exI [of _ 0])
        (auto simp: rx_result_def not_less)
  qed
qed

section \<open>Reclaiming\<close>

lemma rxreclaim_run:
  "rx_holds di q \<Longrightarrow> length q < fuel \<Longrightarrow>
   \<exists>di'. rxreclaim_loop fuel di = Some di' \<and> rx_holds di' [] \<and> pkt_freed di' = pkt_freed di @ map fst q"
proof (induction q arbitrary: di fuel)
  case Nil
  then obtain fuel' where "fuel = Suc fuel'" by (cases fuel) auto
  with Nil(1) show ?case using getnextrxp_none [OF Nil(1), of True]
    by (subst rxreclaim_loop.simps) simp
next
  case (Cons b q)
  obtain fuel' where fuel: "fuel = Suc fuel'" "length q < fuel'" using Cons.prems(2) by (cases fuel) auto
  obtain di1 where d: "dma_getnextrxp di True = (Some (fst b), di1)" "rx_holds di1 q" "pkt_freed di1 = pkt_freed di"
    using getnextrxp_some [OF Cons.prems(1), of True] by blast
  have "rx_holds (di1\<lparr>pkt_freed := pkt_freed di1 @ [fst b]\<rparr>) q" using d(2) by simp
  from Cons.IH [OF this fuel(2)] show ?case using d fuel by (subst rxreclaim_loop.simps) simp
qed

section \<open>Posting\<close>

abbreviation post_rx :: "nat \<Rightarrow> u32 \<Rightarrow> u32 \<Rightarrow> dma_info \<Rightarrow> dma_info" where
  "post_rx p pa ro di \<equiv>
     (let c = di_cfg di;
          di = di\<lparr>rxp := (rxp di)[unat ro := Some p]\<rparr>;
          flags = (if ro = nrxd c - 1 then CTRL_EOT else 0)
      in if dma64 c then di\<lparr>rxd64 := snd (dma64_dd_upd c (rxd64 di) pa ro flags (rxbufsize c))\<rparr>
         else di\<lparr>rxd32 := snd (dma32_dd_upd c (rxd32 di) pa ro flags (rxbufsize c))\<rparr>)"

text \<open>The longest buffer a descriptor can hold.\<close>

definition rx_maxbuf :: "dma_cfg \<Rightarrow> u32" where "rx_maxbuf c = (if dma64 c then 0x7FFF else 0x1FFF)"

lemma rx_flags:
  assumes "ring_size n" "in_ring n ro"
  shows "(if ro = n - 1 then CTRL_EOT else 0) = eot_at (unat n) (unat ro)"
proof -
  have "unat ro mod unat n = unat ro" using assms(2) by (simp add: in_ring_def)
  then show ?thesis using last_index [OF assms] by (simp only: eot_at_def)
qed

lemma eot_flags: "eot_at n i AND FLAGS = eot_at n i"
  by (cases "i mod n = n - 1") (simp_all add: eot_at_def)

lemma post_rx_holds:
  assumes rx: "rx_holds (di\<lparr>rxout := ro\<rparr>) q" and room: "length q + 1 < unat (nrxd (di_cfg di))"
    and buf: "rxbufsize (di_cfg di) \<le> rx_maxbuf (di_cfg di)"
  shows "rx_holds (post_rx p pa ro di \<lparr>rxout := XXD (ro + 1) (nrxd (di_cfg di))\<rparr>) (q @ [(p, pa)])"
proof -
  let ?c = "di_cfg di" and ?n = "nrxd (di_cfg di)"
  have wf: "ring_size ?n" "in_ring ?n ro" using rx_holds_ring(1,3) [OF rx] by simp_all
  note fl = rx_flags [OF wf]
  have e: "rx_entry (rxbufsize ?c) (p, pa) = (p, [((pa, rxbufsize ?c), 0)])" by (simp add: rx_entry_def)
  have rm: "length (concat (map snd (map (rx_entry (rxbufsize ?c)) q))) + 1 < unat ?n"
    unfolding pending_entries by (rule room)
  show ?thesis
  proof (cases "dma64 ?c")
    case True
    with buf have len: "rxbufsize ?c \<le> 0x7FFF" by (simp add: rx_maxbuf_def)
    obtain f ring' where u: "dma64_dd_upd ?c (rxd64 di) pa ro (eot_at (unat ?n) (unat ro)) (rxbufsize ?c) = (f, ring')"
      by fastforce
    from dma64_dd_upd_view [OF len u] obtain d where d: "ring' = (rxd64 di)[unat ro := d]"
        "dd_ctrl1 d = eot_at (unat ?n) (unat ro)" "view64 ?c d = (pa, rxbufsize ?c)" by blast
    have h: "tx_ring (dview (view64 ?c) dd_ctrl1) ?n (rxin di) ro (rxd64 di) (rxp di) (map (rx_entry (rxbufsize ?c)) q)"
      using rx True by (simp add: rx_holds_def Let_def)
    have x: "dview (view64 ?c) dd_ctrl1 d = (fst ((pa, rxbufsize ?c), 0), snd ((pa, rxbufsize ?c), 0) OR eot_at (unat ?n) (unat ro))"
      using d eot_flags by (simp add: dview_def)
    from post_one [OF h rm x, of p] show ?thesis using True u d(1) by (simp add: rx_holds_def fl e Let_def)
  next
    case False
    with buf have len: "rxbufsize ?c \<le> 0x1FFF" by (simp add: rx_maxbuf_def)
    obtain f ring' where u: "dma32_dd_upd ?c (rxd32 di) pa ro (eot_at (unat ?n) (unat ro)) (rxbufsize ?c) = (f, ring')"
      by fastforce
    from dma32_dd_upd_view [OF eot_flags len u] obtain d where d: "ring' = (rxd32 di)[unat ro := d]"
        "dd_ctrl d AND FLAGS = eot_at (unat ?n) (unat ro)" "view32 ?c d = (pa, rxbufsize ?c)" by metis
    have h: "tx_ring (dview (view32 ?c) dd_ctrl) ?n (rxin di) ro (rxd32 di) (rxp di) (map (rx_entry (rxbufsize ?c)) q)"
      using rx False by (simp add: rx_holds_def Let_def)
    have x: "dview (view32 ?c) dd_ctrl d = (fst ((pa, rxbufsize ?c), 0), snd ((pa, rxbufsize ?c), 0) OR eot_at (unat ?n) (unat ro))"
      using d by (simp add: dview_def)
    from post_one [OF h rm x, of p] show ?thesis using False u d(1) by (simp add: rx_holds_def fl e Let_def)
  qed
qed

lemma post_rx_frame:
  "di_cfg (post_rx p pa ro di) = di_cfg di" "rxnobuf (post_rx p pa ro di) = rxnobuf di"
  "pkt_freed (post_rx p pa ro di) = pkt_freed di" "rxout (post_rx p pa ro di) = rxout di"
  by (simp_all add: Let_def)

lemma rxfill_loop_run:
  assumes "rx_holds (di\<lparr>rxout := ro\<rparr>) q" "length q + k < unat (nrxd (di_cfg di))"
    "rxbufsize (di_cfg di) \<le> rx_maxbuf (di_cfg di)"
  shows "\<exists>m ro' di'. rxfill_loop bufs k i ro di = (ro', di') \<and> m \<le> k \<and> (\<forall>j < m. bufs (i + j) \<noteq> None) \<and>
    (if m < k then bufs (i + m) = None \<and> rxnobuf di' = rxnobuf di + 1 else rxnobuf di' = rxnobuf di) \<and>
    rx_holds (di'\<lparr>rxout := ro'\<rparr>) (q @ map (\<lambda>j. the (bufs (i + j))) [0..<m]) \<and>
    di_cfg di' = di_cfg di \<and> pkt_freed di' = pkt_freed di"
  using assms
proof (induction k arbitrary: i ro di q)
  case 0
  then show ?case by simp
next
  case (Suc k)
  let ?c = "di_cfg di"
  show ?case
  proof (cases "bufs i")
    case None
    then have "rxfill_loop bufs (Suc k) i ro di = (ro, di\<lparr>rxnobuf := rxnobuf di + 1\<rparr>)" by simp
    moreover have "rx_holds (di\<lparr>rxnobuf := rxnobuf di + 1, rxout := ro\<rparr>) q"
      using Suc.prems(1) by (cases "dma64 (di_cfg di)") (simp_all add: rx_holds_def Let_def)
    ultimately show ?thesis using None
      by (intro exI [of _ "0 :: nat"] exI [of _ ro] exI [of _ "di\<lparr>rxnobuf := rxnobuf di + 1\<rparr>"]) simp
  next
    case (Some b)
    obtain p pa where b: "b = (p, pa)" by (cases b)
    define di1 where "di1 = post_rx p pa ro di"
    have c1: "di_cfg di1 = ?c" and o1: "rxnobuf di1 = rxnobuf di" "pkt_freed di1 = pkt_freed di"
      unfolding di1_def by (rule post_rx_frame)+
    have run: "rxfill_loop bufs (Suc k) i ro di = rxfill_loop bufs k (Suc i) (XXD (ro + 1) (nrxd ?c)) di1"
      using Some b c1 by (simp add: di1_def Let_def NEXTRXD_def RXD_def)
    have rx1: "rx_holds (di1\<lparr>rxout := XXD (ro + 1) (nrxd ?c)\<rparr>) (q @ [(p, pa)])"
      unfolding di1_def by (rule post_rx_holds [OF Suc.prems(1) _ Suc.prems(3)]) (use Suc.prems(2) in simp)
    have "length (q @ [(p, pa)]) + k < unat (nrxd (di_cfg di1))" using Suc.prems(2) c1 by simp
    from Suc.IH [OF rx1 this, of "Suc i"] obtain m ro' di' where
      m: "rxfill_loop bufs k (Suc i) (XXD (ro + 1) (nrxd ?c)) di1 = (ro', di')" "m \<le> k"
        "\<forall>j < m. bufs (Suc i + j) \<noteq> None"
        "if m < k then bufs (Suc i + m) = None \<and> rxnobuf di' = rxnobuf di1 + 1 else rxnobuf di' = rxnobuf di1"
        "rx_holds (di'\<lparr>rxout := ro'\<rparr>) ((q @ [(p, pa)]) @ map (\<lambda>j. the (bufs (Suc i + j))) [0..<m])"
        "di_cfg di' = di_cfg di1" "pkt_freed di' = pkt_freed di1"
      using Suc.prems(3) c1 by auto
    have all: "\<forall>j < Suc m. bufs (i + j) \<noteq> None"
    proof (intro allI impI)
      fix j assume "j < Suc m"
      then show "bufs (i + j) \<noteq> None" using m(3) Some by (cases j) auto
    qed
    have "map (\<lambda>j. the (bufs (i + j))) [0..<Suc m] = (p, pa) # map (\<lambda>j. the (bufs (Suc i + j))) [0..<m]"
      using Some b by (simp add: map_upt_Suc del: upt_Suc)
    with m(5) have h: "rx_holds (di'\<lparr>rxout := ro'\<rparr>) (q @ map (\<lambda>j. the (bufs (i + j))) [0..<Suc m])"
      by (simp only: append_assoc append_Cons append_Nil)
    have last: "if Suc m < Suc k then bufs (i + Suc m) = None \<and> rxnobuf di' = rxnobuf di + 1
        else rxnobuf di' = rxnobuf di" using m(4) o1 by (cases "m < k") simp_all
    show ?thesis
    proof (intro exI conjI)
      show "rxfill_loop bufs (Suc k) i ro di = (ro', di')" using run m(1) by simp
      show "Suc m \<le> Suc k" using m(2) by simp
      show "di_cfg di' = ?c" "pkt_freed di' = pkt_freed di" using m(6,7) c1 o1 by simp_all
    qed (fact all last h)+
  qed
qed

definition rx_ptr :: "dma_info \<Rightarrow> u32" where
  "rx_ptr di = (if dma64 (di_cfg di) then r64_ptr (d64rxregs di) else r32_ptr (d32rxregs di))"

definition rx_dd :: "dma_info \<Rightarrow> u32" where
  "rx_dd di = (if dma64 (di_cfg di) then DD64 else DD32)"

lemma rxfill_count:
  assumes "rx_holds di q" "length q \<le> unat (nrxpost (di_cfg di))"
  shows "unat (nrxpost (di_cfg di) - NRXDACTIVE di (rxin di) (rxout di)) = unat (nrxpost (di_cfg di)) - length q"
  using rx_holds_ring(4) [OF assms(1)] assms(2)
  by (simp add: NRXDACTIVE_def RXD_def ring_active_def unat_sub word_le_nat_alt)

section \<open>Properties\<close>

text \<open>Filling the receive ring, where the number of buffers to keep posted is below the ring size and
  a buffer fits a descriptor: buffers are appended in the order they are allocated, each with the
  full buffer size, until the number is reached or the first allocation fails (that is counted
  once), and the chip is told the new end.\<close>

theorem dma_rxfill_posts:
  assumes "rx_holds di q" "length q \<le> unat (nrxpost (di_cfg di))" "nrxpost (di_cfg di) < nrxd (di_cfg di)"
    "rxbufsize (di_cfg di) \<le> rx_maxbuf (di_cfg di)"
  shows "\<exists>m. m \<le> unat (nrxpost (di_cfg di)) - length q \<and> (\<forall>j < m. bufs j \<noteq> None) \<and>
    (if m < unat (nrxpost (di_cfg di)) - length q
     then bufs m = None \<and> rxnobuf (dma_rxfill bufs di) = rxnobuf di + 1
     else rxnobuf (dma_rxfill bufs di) = rxnobuf di) \<and>
    rx_holds (dma_rxfill bufs di) (q @ map (\<lambda>j. the (bufs j)) [0..<m]) \<and>
    pkt_freed (dma_rxfill bufs di) = pkt_freed di \<and>
    rx_ptr (dma_rxfill bufs di) = I2B (rxout (dma_rxfill bufs di)) (rx_dd di)"
proof -
  let ?k = "unat (nrxpost (di_cfg di)) - length q"
  have "length q + ?k < unat (nrxd (di_cfg di))" using assms(2,3) by (simp add: word_less_nat_alt)
  moreover have "rx_holds (di\<lparr>rxout := rxout di\<rparr>) q" using assms(1) by simp
  ultimately obtain m ro' di' where m: "rxfill_loop bufs ?k 0 (rxout di) di = (ro', di')" "m \<le> ?k"
      "\<forall>j < m. bufs j \<noteq> None" "if m < ?k then bufs m = None \<and> rxnobuf di' = rxnobuf di + 1 else rxnobuf di' = rxnobuf di"
      "rx_holds (di'\<lparr>rxout := ro'\<rparr>) (q @ map (\<lambda>j. the (bufs j)) [0..<m])" "di_cfg di' = di_cfg di"
      "pkt_freed di' = pkt_freed di"
    using rxfill_loop_run [OF _ _ assms(4), of "rxout di" q ?k bufs 0, unfolded add_0] by blast
  have eq: "dma_rxfill bufs di = (if dma64 (di_cfg di)
      then di'\<lparr>rxout := ro', d64rxregs := (d64rxregs di')\<lparr>r64_ptr := I2B ro' DD64\<rparr>\<rparr>
      else di'\<lparr>rxout := ro', d32rxregs := (d32rxregs di')\<lparr>r32_ptr := I2B ro' DD32\<rparr>\<rparr>)"
    using rxfill_count [OF assms(1,2)] m(1,6) by (simp add: dma_rxfill_def Let_def)
  have "rx_holds (dma_rxfill bufs di) (q @ map (\<lambda>j. the (bufs j)) [0..<m])"
    using m(5) unfolding eq by (cases "dma64 (di_cfg di)") simp_all
  moreover have "rxnobuf (dma_rxfill bufs di) = rxnobuf di'" "pkt_freed (dma_rxfill bufs di) = pkt_freed di'"
    "rx_ptr (dma_rxfill bufs di) = I2B (rxout (dma_rxfill bufs di)) (rx_dd di)"
    unfolding eq using m(6) by (cases "dma64 (di_cfg di)"; simp add: rx_ptr_def rx_dd_def)+
  ultimately show ?thesis using m(2-4,7) by (intro exI [of _ m]) (simp only: simp_thms)
qed

definition rx4 :: dma_info where
  "rx4 = \<lparr>di_cfg = \<lparr>c_self = 0, dma64 = False, addrext = True, dma64align = 4096, ntxd = 4, nrxd = 4, m_txp = None,
     m_rxp = None, m_txp_dmah = None, m_rxp_dmah = None, m_txd = None, txdpa = 0, txdalign = 0, txdalloc = 0,
     m_rxd = None, rxdpa = 0, rxdalign = 0, rxdalloc = 0, rxbufsize = 2048, nrxpost = 3, rxoffset = 30,
     ddoffsetlow = 0, ddoffsethigh = 0, dataoffsetlow = 0, dataoffsethigh = 0\<rparr>,
     txavail = 3, rxgiants = 0, rxnobuf = 0, txnobuf = 0,
     d32txregs = \<lparr>r32_control = 1, r32_addr = 0, r32_ptr = 0, r32_status = 0\<rparr>,
     d32rxregs = \<lparr>r32_control = 1, r32_addr = 0, r32_ptr = 0, r32_status = 16\<rparr>,
     d64txregs = \<lparr>r64_control = 1, r64_ptr = 0, r64_addrlow = 0, r64_addrhigh = 0, r64_status0 = 0, r64_status1 = 0\<rparr>,
     d64rxregs = \<lparr>r64_control = 1, r64_ptr = 0, r64_addrlow = 0, r64_addrhigh = 0, r64_status0 = 0, r64_status1 = 0\<rparr>,
     txd32 = replicate 4 zero32, txd64 = replicate 4 zero64, txin = 0, txout = 0, txp = replicate 4 None,
     rxd32 = replicate 4 zero32, rxd64 = replicate 4 zero64, rxin = 0, rxout = 0, rxp = replicate 4 None,
     pkt_freed = []\<rparr>"

lemma rx4_empty: "rx_holds rx4 []"
proof -
  have "ring_size 4" unfolding ring_size_def by (rule bexI [of _ 2]) simp_all
  moreover have "replicate 4 (None :: nat option) ! (j mod 4) = None" for j by simp
  moreover have "ring_active 4 0 0 = 0" by (simp add: ring_active_def XXD_def)
  ultimately show ?thesis by (simp add: rx_holds_def tx_ring_def rx4_def in_ring_def)
qed

lemma rx4_cfg: "nrxpost (di_cfg rx4) = 3" "nrxd (di_cfg rx4) = 4" "rxbufsize (di_cfg rx4) = 2048"
  "dma64 (di_cfg rx4) = False" "rxout rx4 = 0" "rxin rx4 = 0"
  by (simp_all add: rx4_def)

lemma dma_rxfill_posts_witness:
  "\<exists>m \<le> 3. (\<forall>j < m. (if j < 2 then Some (j + 10, 0x1000) else None) \<noteq> (None :: (nat \<times> u32) option)) \<and>
     rx_holds (dma_rxfill (\<lambda>j. if j < 2 then Some (j + 10, 0x1000) else None) rx4)
       ([] @ map (\<lambda>j. the (if j < 2 then Some (j + 10, 0x1000) else None)) [0..<m])"
proof -
  have "length ([] :: (nat \<times> u32) list) \<le> unat (nrxpost (di_cfg rx4))" "nrxpost (di_cfg rx4) < nrxd (di_cfg rx4)"
    "rxbufsize (di_cfg rx4) \<le> rx_maxbuf (di_cfg rx4)" by (simp_all add: rx4_cfg rx_maxbuf_def)
  from dma_rxfill_posts [OF rx4_empty this, of "\<lambda>j. if j < 2 then Some (j + 10, 0x1000) else None"]
  obtain m where "m \<le> unat (nrxpost (di_cfg rx4)) - length ([] :: (nat \<times> u32) list)"
    "\<forall>j < m. (if j < 2 then Some (j + 10, 0x1000) else None) \<noteq> (None :: (nat \<times> u32) option)"
    "rx_holds (dma_rxfill (\<lambda>j. if j < 2 then Some (j + 10, 0x1000) else None) rx4)
       ([] @ map (\<lambda>j. the (if j < 2 then Some (j + 10, 0x1000) else None)) [0..<m])" by blast
  then show ?thesis by (intro exI [of _ m]) (simp add: rx4_cfg)
qed

text \<open>C9: With \<open>c\<close> posted buffers filled, receiving returns: the first \<open>k\<close> of them are freed in order
  and the next one is returned with its length if its frame fits a buffer, or all \<open>c\<close> are freed;
  the others stay posted in order. Buffers are freed only when the first frame is longer than a
  buffer. Reclaiming returns and frees all posted buffers in order.\<close>

theorem dma_rx_conserves:
  assumes "rx_holds di q" "received di c" "c \<le> length q"
  shows "(\<exists>r di' k. dma_rx flen di = Some (r, di') \<and> rx_result flen di q c r di' k \<and>
      (0 < k \<longrightarrow> flen (fst (q ! 0)) > rxbufsize (di_cfg di) - rxoffset (di_cfg di))) \<and>
    (\<exists>di'. dma_rxreclaim di = Some di' \<and> rx_holds di' [] \<and> pkt_freed di' = pkt_freed di @ map fst q)"
proof -
  have lt: "length q < RING_FUEL"
    using rx_holds_ring(5) [OF assms(1)] ring_size_le [OF rx_holds_ring(1) [OF assms(1)]] by linarith
  have "c < Suc RING_FUEL" "length q < Suc RING_FUEL" using lt assms(3) by linarith+
  then show ?thesis
    unfolding dma_rx_def dma_rxreclaim_def
    using rx_loop_run [OF assms, of "Suc RING_FUEL" flen 0] rxreclaim_run [OF assms(1), of "Suc RING_FUEL"]
    by (metis less_irrefl)
qed

definition rx4_two :: dma_info where
  "rx4_two = rx4\<lparr>rxp := [Some 10, Some 11, None, None], rxout := 2,
     rxd32 := [\<lparr>dd_ctrl = 2048, dd_addr = 0x1000\<rparr>, \<lparr>dd_ctrl = 2048, dd_addr = 0x2000\<rparr>, zero32, zero32]\<rparr>"

lemma rx4_two_holds: "rx_holds rx4_two [(10, 0x1000), (11, 0x2000)]"
proof -
  have n: "ring_size 4" unfolding ring_size_def by (rule bexI [of _ 2]) simp_all
  have a: "ring_active 4 0 2 = 2" by (simp add: ring_active_def XXD_def)
  have none: "[None, None :: nat option] ! (j - Suc (Suc 0)) = None" if "2 \<le> j" "j < 4" for j
  proof -
    have "j = 2 \<or> j = 3" using that by linarith
    then show ?thesis by auto
  qed
  show ?thesis
    by (simp add: rx_holds_def tx_ring_def rx4_two_def rx4_def n a none in_ring_def segment_def upt_rec
      rx_entry_def slots_def eot_at_def dview_def view32_def bus_addr_def zero32_def Let_def)
qed

lemma dma_rx_conserves_witness:
  "\<exists>r di'. dma_rx (\<lambda>p. if p = 10 then 5000 else 60) rx4_two = Some (r, di')"
proof -
  have "received rx4_two 2"
    by (simp add: received_def rxcd_def rx4_two_def rx4_def B2I_def)
  from dma_rx_conserves [OF rx4_two_holds this, of "\<lambda>p. if p = 10 then 5000 else 60"]
  show ?thesis by auto
qed

end
