(* ===== verification/SgRing.thy ===== *)
theory SgRing
  imports Ring
begin

text \<open>
  The packet rings of the SHDSL card (\<open>sg17ring.h\<close>, \<open>sg17ring_funcs.h\<close>): a ring of 128 hardware
  descriptors in the memory of the card, and behind it a ring of 8 socket buffers. The card advances
  \<open>CxDR\<close> over the descriptors it has processed, the driver writes behind \<open>LxDR\<close> and takes back at \<open>FxDR\<close>.
  A buffer is a value with the bus address it is mapped to; live mappings are listed.
\<close>

section \<open>State\<close>

abbreviation ERFULL :: int where "ERFULL \<equiv> 20"
abbreviation ERINIT :: int where "ERINIT \<equiv> 21"
abbreviation ETHER_MAX_LEN :: u32 where "ETHER_MAX_LEN \<equiv> 1532"
definition HW_RING_MASK :: u8 where "HW_RING_MASK = 0x7f"
definition SW_RING_MASK :: u8 where "SW_RING_MASK = 7"
definition LAST_FRAG :: u32 where "LAST_FRAG = 0x8000"
definition RX_RING :: u8 where "RX_RING = 1"
definition TX_RING :: u8 where "TX_RING = 2"

record sk_buff =
  skb_id :: nat
  skb_len :: u32
  skb_bus :: u32

record sg_ring =
  hw_ring :: "(u32 \<times> u32) list"
  hw_mask :: u8
  CxDR :: u8
  LxDR :: u8
  FxDR :: u8
  rg_type :: u8
  sw_ring :: "sk_buff option list"
  sw_mask :: u8
  rg_head :: u8
  rg_tail :: u8
  mapped :: "(u32 \<times> u32) list"

section \<open>Operations\<close>

definition sg_ring_inc :: "u8 \<Rightarrow> u8 \<Rightarrow> u8" where
  "sg_ring_inc ind mask' = (ind + 1) AND mask'"

definition sg_ring_dec :: "u8 \<Rightarrow> u8 \<Rightarrow> u8" where
  "sg_ring_dec ind mask' = (ind - 1) AND mask'"

definition sg_ring_have_space :: "sg_ring \<Rightarrow> bool" where
  "sg_ring_have_space r \<longleftrightarrow> sg_ring_inc (rg_tail r) (sw_mask r) \<noteq> rg_head r"

definition sg_ring_add_skb :: "sg_ring \<Rightarrow> sk_buff \<Rightarrow> int \<times> sg_ring" where
  "sg_ring_add_skb r skb =
     (if sg_ring_inc (rg_tail r) (sw_mask r) = rg_head r then (- ERFULL, r)
      else if rg_type r \<noteq> TX_RING \<and> rg_type r \<noteq> RX_RING then (- ERINIT, r)
      else
        (let desc_len = (if rg_type r = TX_RING then skb_len skb OR LAST_FRAG else 0);
             dma_len = (if rg_type r = TX_RING then skb_len skb else ETHER_MAX_LEN);
             ind = LxDR r AND hw_mask r
         in (0, r\<lparr>mapped := mapped r @ [(skb_bus skb, dma_len)],
                  hw_ring := (hw_ring r)[unat ind := (skb_bus skb, desc_len)],
                  LxDR := sg_ring_inc ind (hw_mask r),
                  sw_ring := (sw_ring r)[unat (rg_tail r) := Some skb],
                  rg_tail := sg_ring_inc (rg_tail r) (sw_mask r)\<rparr>)))"

text \<open>\<open>None\<close> is a null dereference. The result has the buffer, if there is one, and its length.\<close>

definition sg_ring_del_skb :: "sg_ring \<Rightarrow> (sk_buff option \<times> u32 \<times> sg_ring) option" where
  "sg_ring_del_skb r =
     (if FxDR r = CxDR r then Some (None, 0, r)
      else if rg_type r = TX_RING \<and> sw_ring r ! unat (rg_head r) = None then None
      else if rg_type r \<noteq> TX_RING \<and> rg_type r \<noteq> RX_RING then Some (None, 0, r)
      else
        (let dma_len = (if rg_type r = TX_RING then skb_len (the (sw_ring r ! unat (rg_head r))) else ETHER_MAX_LEN);
             (bus_addr, desc_len) = hw_ring r ! unat (FxDR r)
         in Some (sw_ring r ! unat (rg_head r), desc_len AND 0x7ff,
              r\<lparr>mapped := remove1 (bus_addr, dma_len) (mapped r),
                sw_ring := (sw_ring r)[unat (rg_head r) := None],
                FxDR := sg_ring_inc (FxDR r) (hw_mask r),
                rg_head := sg_ring_inc (rg_head r) (sw_mask r)\<rparr>)))"

text \<open>The loops of the driver: take buffers until there is none and do something with each; allocate
  buffers while there is space. \<open>alloc i\<close> is the outcome of the allocation \<open>i\<close>, a buffer that is not accepted
  is released. The buffers obtained and those released are logged.\<close>

partial_function (option) drain ::
  "('r \<Rightarrow> ('p option \<times> u32 \<times> 'r) option) \<Rightarrow> ('p \<Rightarrow> u32 \<Rightarrow> 's \<Rightarrow> 's option) \<Rightarrow> 'r \<Rightarrow> 's \<Rightarrow> ('r \<times> 's) option" where
  "drain del body r s =
     (case del r of
        None \<Rightarrow> None
      | Some (None, _, r) \<Rightarrow> Some (r, s)
      | Some (Some p, len, r) \<Rightarrow> Option.bind (body p len s) (drain del body r))"

partial_function (option) refill ::
  "('r \<Rightarrow> 'p \<Rightarrow> int \<times> 'r) \<Rightarrow> ('r \<Rightarrow> bool) \<Rightarrow> (nat \<Rightarrow> 'p option) \<Rightarrow> nat \<Rightarrow> 'r \<Rightarrow>
   (int \<times> 'p list \<times> 'p list \<times> 'r) option" where
  "refill add space alloc i r =
     (if space r then
        (case alloc i of
           None \<Rightarrow> Some (-12, [], [], r)
         | Some p \<Rightarrow> if fst (add r p) \<noteq> 0 then Some (-1, [p], [p], snd (add r p))
                     else Option.bind (refill add space alloc (i + 1) (snd (add r p)))
                       (\<lambda>(e, ps, fr, r). Some (e, p # ps, fr, r)))
      else Some (0, [], [], r))"

text \<open>What the card does: process the next descriptor; for a received frame it stores the length.\<close>

definition hw_complete :: "u32 \<Rightarrow> sg_ring \<Rightarrow> sg_ring" where
  "hw_complete len r =
     r\<lparr>hw_ring := (if rg_type r = RX_RING
         then (hw_ring r)[unat (CxDR r) := (fst (hw_ring r ! unat (CxDR r)), len)] else hw_ring r),
       CxDR := sg_ring_inc (CxDR r) (hw_mask r)\<rparr>"

section \<open>The interface of a packet ring\<close>

text \<open>Doing something with each element of a list; it may fail.\<close>

fun each :: "('a \<Rightarrow> 's \<Rightarrow> 's option) \<Rightarrow> 'a list \<Rightarrow> 's \<Rightarrow> 's option" where
  "each f [] s = Some s"
| "each f (x # xs) s = Option.bind (f x s) (each f xs)"

text \<open>
  A ring holds a list of buffers, each with the length in its descriptor, of which the card has
  processed the first \<open>c\<close>; it has room for \<open>cap\<close> buffers.
\<close>

locale packet_ring =
  fixes add :: "'r \<Rightarrow> 'p \<Rightarrow> int \<times> 'r"
    and del :: "'r \<Rightarrow> ('p option \<times> u32 \<times> 'r) option"
    and space :: "'r \<Rightarrow> bool"
    and holds :: "'r \<Rightarrow> ('p \<times> u32) list \<Rightarrow> nat \<Rightarrow> bool"
    and fresh :: "'p \<Rightarrow> u32"
    and cap :: nat
  assumes holds_le: "holds r q c \<Longrightarrow> c \<le> length q \<and> length q \<le> cap"
    and space_iff: "holds r q c \<Longrightarrow> space r \<longleftrightarrow> length q < cap"
    and add_room: "holds r q c \<Longrightarrow> length q < cap \<Longrightarrow>
      fst (add r p) = 0 \<and> holds (snd (add r p)) (q @ [(p, fresh p)]) c"
    and add_full: "holds r q c \<Longrightarrow> length q = cap \<Longrightarrow> add r p = (- ERFULL, r)"
    and del_none: "holds r q 0 \<Longrightarrow> del r = Some (None, 0, r)"
    and del_some: "holds r ((p, l) # q) (Suc c) \<Longrightarrow>
      \<exists>r'. del r = Some (Some p, l AND 0x7ff, r') \<and> holds r' q c"
begin

lemma drain_takes:
  "holds r q c \<Longrightarrow> \<exists>r'. holds r' (drop c q) 0 \<and>
     drain del body r s = map_option (Pair r') (each (\<lambda>(p, l). body p (l AND 0x7ff)) (take c q) s)"
proof (induction c arbitrary: r q s)
  case 0
  then show ?case using del_none [OF 0] by (subst drain.simps) auto
next
  case (Suc c)
  from holds_le [OF Suc.prems] obtain p l q' where q: "q = (p, l) # q'" by (cases q) auto
  from del_some [OF Suc.prems [unfolded q]] obtain r1 where
    r1: "del r = Some (Some p, l AND 0x7ff, r1)" "holds r1 q' c" by blast
  show ?case
  proof (cases "body p (l AND 0x7ff) s")
    case None
    from Suc.IH [OF r1(2)] obtain r' where "holds r' (drop c q') 0" by blast
    then show ?thesis using r1(1) q None by (subst drain.simps) auto
  next
    case (Some s1)
    from Suc.IH [OF r1(2), of s1] show ?thesis using r1(1) q Some by (subst drain.simps) simp
  qed
qed

lemma refill_fills:
  "holds r q c \<Longrightarrow> \<exists>e ps r'. refill add space alloc i r = Some (e, ps, [], r') \<and>
     holds r' (q @ map (\<lambda>p. (p, fresh p)) ps) c \<and>
     map Some ps = map (\<lambda>j. alloc (i + j)) [0..<length ps] \<and>
     (e = 0 \<and> length q + length ps = cap \<or> e = -12 \<and> length q + length ps < cap \<and> alloc (i + length ps) = None)"
proof (induction "cap - length q" arbitrary: r q i)
  case 0
  then have "length q = cap" using holds_le [OF 0(2)] by simp
  then show ?case using space_iff [OF 0(2)] 0(2) by (subst refill.simps) auto
next
  case (Suc k)
  then have room: "length q < cap" by simp
  then have sp: "space r" using space_iff [OF Suc.prems] by simp
  show ?case
  proof (cases "alloc i")
    case None
    then show ?thesis using sp Suc.prems room
      by (subst refill.simps) (intro exI [of _ "-12"] exI [of _ "[]"] exI [of _ r], simp)
  next
    case (Some p)
    note a = add_room [OF Suc.prems room, of p]
    have "k = cap - length (q @ [(p, fresh p)])" using Suc.hyps(2) by simp
    from Suc.hyps(1) [OF this conjunct2 [OF a], of "i + 1"] obtain e ps r' where
      r': "refill add space alloc (i + 1) (snd (add r p)) = Some (e, ps, [], r')"
        "holds r' ((q @ [(p, fresh p)]) @ map (\<lambda>p. (p, fresh p)) ps) c"
        "map Some ps = map (\<lambda>j. alloc (i + 1 + j)) [0..<length ps]"
        "e = 0 \<and> length (q @ [(p, fresh p)]) + length ps = cap \<or>
         e = -12 \<and> length (q @ [(p, fresh p)]) + length ps < cap \<and> alloc (i + 1 + length ps) = None" by blast
    have m: "map Some (p # ps) = map (\<lambda>j. alloc (i + j)) [0..<length (p # ps)]"
      using Some r'(3) by (simp add: map_upt_Suc del: upt_Suc)
    have "refill add space alloc i r = Some (e, p # ps, [], r')"
      using sp Some a r'(1) by (subst refill.simps) simp
    then show ?thesis
      using r'(2,4) m by (intro exI [of _ e] exI [of _ "p # ps"] exI [of _ r']) (simp del: upt_Suc)
  qed
qed

end

section \<open>The rings of the card\<close>

definition dma_map_of :: "u8 \<Rightarrow> sk_buff \<Rightarrow> u32 \<times> u32" where
  "dma_map_of t skb = (skb_bus skb, if t = TX_RING then skb_len skb else ETHER_MAX_LEN)"

text \<open>\<open>lk\<close>: mappings of buffers that the ring has forgotten.\<close>

definition sg_holds :: "u8 \<Rightarrow> (u32 \<times> u32) multiset \<Rightarrow> sg_ring \<Rightarrow> (sk_buff \<times> u32) list \<Rightarrow> nat \<Rightarrow> bool" where
  "sg_holds t lk r q c \<longleftrightarrow>
     rg_type r = t \<and> hw_mask r = HW_RING_MASK \<and> sw_mask r = SW_RING_MASK \<and>
     length (hw_ring r) = 128 \<and> length (sw_ring r) = 8 \<and>
     unat (rg_head r) < 8 \<and> unat (rg_tail r) = (unat (rg_head r) + length q) mod 8 \<and> length q \<le> 7 \<and> c \<le> length q \<and>
     unat (FxDR r) < 128 \<and> unat (LxDR r) = (unat (FxDR r) + length q) mod 128 \<and>
     unat (CxDR r) = (unat (FxDR r) + c) mod 128 \<and>
     segment (sw_ring r) 8 (unat (rg_head r)) (length q) = map (\<lambda>(skb, l). Some skb) q \<and>
     segment (hw_ring r) 128 (unat (FxDR r)) (length q) = map (\<lambda>(skb, l). (skb_bus skb, l)) q \<and>
     mset (mapped r) = lk + mset (map (\<lambda>(skb, l). dma_map_of t skb) q)"

definition fresh_len :: "u8 \<Rightarrow> sk_buff \<Rightarrow> u32" where
  "fresh_len t skb = (if t = TX_RING then skb_len skb OR LAST_FRAG else 0)"

lemma mask_eqs: "HW_RING_MASK = mask 7" "SW_RING_MASK = mask 3"
  by (simp_all add: HW_RING_MASK_def SW_RING_MASK_def mask_eq_exp_minus_1)

lemma unat_inc_hw: "unat (sg_ring_inc i HW_RING_MASK) = (unat i + 1) mod 128"
proof -
  have "unat (sg_ring_inc i HW_RING_MASK) = unat (i + 1) mod 2 ^ 7"
    by (simp only: sg_ring_inc_def mask_eqs unat_and_mask)
  also have "\<dots> = (unat i + 1) mod 128" by (simp add: unat_word_ariths mod_mod_cancel)
  finally show ?thesis .
qed

lemma unat_inc_sw: "unat (sg_ring_inc i SW_RING_MASK) = (unat i + 1) mod 8"
proof -
  have "unat (sg_ring_inc i SW_RING_MASK) = unat (i + 1) mod 2 ^ 3"
    by (simp only: sg_ring_inc_def mask_eqs unat_and_mask)
  also have "\<dots> = (unat i + 1) mod 8" by (simp add: unat_word_ariths mod_mod_cancel)
  finally show ?thesis .
qed

lemma unat_and_hw: "unat (i AND HW_RING_MASK) = unat i mod 128"
proof -
  have "unat (i AND HW_RING_MASK) = unat i mod 2 ^ 7" by (simp only: mask_eqs unat_and_mask)
  then show ?thesis by simp
qed

lemma sg_full:
  assumes "sg_holds t lk r q c"
  shows "sg_ring_inc (rg_tail r) (sw_mask r) = rg_head r \<longleftrightarrow> length q = 7"
proof -
  have h: "unat (rg_head r) < 8" "length q \<le> 7" "sw_mask r = SW_RING_MASK"
    "unat (rg_tail r) = (unat (rg_head r) + length q) mod 8" using assms by (simp_all add: sg_holds_def)
  have "sg_ring_inc (rg_tail r) (sw_mask r) = rg_head r \<longleftrightarrow>
      (unat (rg_head r) + (length q + 1)) mod 8 = unat (rg_head r)"
    by (simp only: word_unat_eq_iff h(3,4) unat_inc_sw mod_add_left_eq add.assoc)
  also have "\<dots> \<longleftrightarrow> length q = 7"
    using h(1,2) ring_inj [of "length q + 1" 8 0 "unat (rg_head r)"] by (cases "length q = 7") auto
  finally show ?thesis .
qed

lemma sg_idle:
  assumes "sg_holds t lk r q c"
  shows "FxDR r = CxDR r \<longleftrightarrow> c = 0"
proof -
  have h: "unat (FxDR r) < 128" "unat (CxDR r) = (unat (FxDR r) + c) mod 128" "c < 128"
    using assms by (simp_all add: sg_holds_def)
  show ?thesis
    using ring_inj [of c 128 0 "unat (FxDR r)"] h by (auto simp: word_unat_eq_iff)
qed

lemma sg_add_room:
  assumes h: "sg_holds t lk r q c" and t: "t = TX_RING \<or> t = RX_RING" and room: "length q < 7"
  shows "fst (sg_ring_add_skb r skb) = 0 \<and> sg_holds t lk (snd (sg_ring_add_skb r skb)) (q @ [(skb, fresh_len t skb)]) c"
proof -
  note f = h [unfolded sg_holds_def]
  have nf: "sg_ring_inc (rg_tail r) (sw_mask r) \<noteq> rg_head r" using sg_full [OF h] room by simp
  have ty: "\<not> (rg_type r \<noteq> TX_RING \<and> rg_type r \<noteq> RX_RING)" using f t by simp
  have l: "unat (LxDR r AND hw_mask r) = (unat (FxDR r) + length q) mod 128" using f by (simp add: unat_and_hw)
  define sw where "sw = (sw_ring r)[(unat (rg_head r) + length q) mod 8 := Some skb]"
  define hw where "hw = (hw_ring r)[(unat (FxDR r) + length q) mod 128 := (skb_bus skb, fresh_len t skb)]"
  have run: "sg_ring_add_skb r skb = (0, r\<lparr>mapped := mapped r @ [dma_map_of t skb], hw_ring := hw,
      LxDR := sg_ring_inc (LxDR r AND hw_mask r) (hw_mask r), sw_ring := sw,
      rg_tail := sg_ring_inc (rg_tail r) (sw_mask r)\<rparr>)"
    using nf ty f l by (simp add: sg_ring_add_skb_def Let_def sw_def hw_def dma_map_of_def fresh_len_def)
  have sw: "segment sw 8 (unat (rg_head r)) (Suc (length q)) = map (\<lambda>(skb, l). Some skb) (q @ [(skb, fresh_len t skb)])"
    using segment_update_outside [of "length q" "length q" 8 "sw_ring r" "unat (rg_head r)" "Some skb"] f room
    by (simp add: segment_Suc sw_def)
  have hw: "segment hw 128 (unat (FxDR r)) (Suc (length q)) =
      map (\<lambda>(skb, l). (skb_bus skb, l)) (q @ [(skb, fresh_len t skb)])"
    using segment_update_outside [of "length q" "length q" 128 "hw_ring r" "unat (FxDR r)" "(skb_bus skb, fresh_len t skb)"]
      f room by (simp add: segment_Suc hw_def)
  have i1: "unat (sg_ring_inc (rg_tail r) SW_RING_MASK) = (unat (rg_head r) + Suc (length q)) mod 8"
    using f unat_inc_sw [of "rg_tail r"] by (simp add: mod_Suc_eq)
  have i2: "unat (sg_ring_inc (LxDR r AND HW_RING_MASK) HW_RING_MASK) = (unat (FxDR r) + Suc (length q)) mod 128"
    using f l unat_inc_hw [of "LxDR r AND HW_RING_MASK"] by (simp add: mod_Suc_eq)
  show ?thesis
    unfolding run using f room sw hw i1 i2 by (simp add: sg_holds_def sw_def hw_def)
qed

lemma sg_del_some:
  assumes h: "sg_holds t lk r ((skb, l) # q) (Suc c)" and t: "t = TX_RING \<or> t = RX_RING"
  shows "\<exists>r'. sg_ring_del_skb r = Some (Some skb, l AND 0x7ff, r') \<and> sg_holds t lk r' q c"
proof -
  note f = h [unfolded sg_holds_def]
  have ne: "FxDR r \<noteq> CxDR r" using sg_idle [OF h] by simp
  have ty: "\<not> (rg_type r \<noteq> TX_RING \<and> rg_type r \<noteq> RX_RING)" using f t by simp
  have lt: "unat (rg_head r) mod 8 = unat (rg_head r)" "unat (FxDR r) mod 128 = unat (FxDR r)" using f by simp_all
  have "segment (sw_ring r) 8 (unat (rg_head r)) (Suc (length q)) = map (\<lambda>(skb, l). Some skb) ((skb, l) # q)"
    "segment (hw_ring r) 128 (unat (FxDR r)) (Suc (length q)) = map (\<lambda>(skb, l). (skb_bus skb, l)) ((skb, l) # q)"
    using f by simp_all
  then have s0: "sw_ring r ! unat (rg_head r) = Some skb"
    "segment (sw_ring r) 8 (Suc (unat (rg_head r))) (length q) = map (\<lambda>(skb, l). Some skb) q"
    and h0: "hw_ring r ! unat (FxDR r) = (skb_bus skb, l)"
    "segment (hw_ring r) 128 (Suc (unat (FxDR r))) (length q) = map (\<lambda>(skb, l). (skb_bus skb, l)) q"
    unfolding segment_Cons lt by simp_all
  define r' where "r' = r\<lparr>mapped := remove1 (dma_map_of t skb) (mapped r), sw_ring := (sw_ring r)[unat (rg_head r) := None],
      FxDR := sg_ring_inc (FxDR r) HW_RING_MASK, rg_head := sg_ring_inc (rg_head r) SW_RING_MASK\<rparr>"
  have run: "sg_ring_del_skb r = Some (Some skb, l AND 0x7ff, r')"
    using ne ty f s0(1) h0(1) t
    by (auto simp: sg_ring_del_skb_def Let_def r'_def dma_map_of_def)
  have hd: "unat (rg_head r') = Suc (unat (rg_head r)) mod 8" and fx: "unat (FxDR r') = Suc (unat (FxDR r)) mod 128"
    using unat_inc_sw [of "rg_head r"] unat_inc_hw [of "FxDR r"] by (simp_all add: r'_def)
  have "(Suc (unat (rg_head r)) + 7) mod 8 = unat (rg_head r)" using f by simp
  then have "segment ((sw_ring r)[unat (rg_head r) := None]) 8 (Suc (unat (rg_head r))) (length q) =
      segment (sw_ring r) 8 (Suc (unat (rg_head r))) (length q)"
    using segment_update_outside [of "length q" 7 8 "sw_ring r" "Suc (unat (rg_head r))" None] f by simp
  then have sw: "segment (sw_ring r') 8 (unat (rg_head r')) (length q) = map (\<lambda>(skb, l). Some skb) q"
    unfolding hd segment_mod using s0(2) by (simp add: r'_def)
  have hw: "segment (hw_ring r') 128 (unat (FxDR r')) (length q) = map (\<lambda>(skb, l). (skb_bus skb, l)) q"
    unfolding fx segment_mod using h0(2) by (simp add: r'_def)
  have mv: "unat (rg_tail r') = (unat (rg_head r') + length q) mod 8" "unat (LxDR r') = (unat (FxDR r') + length q) mod 128"
    "unat (CxDR r') = (unat (FxDR r') + c) mod 128"
    unfolding hd fx using f by (simp_all add: r'_def mod_add_left_eq)
  have "sg_holds t lk r' q c"
    unfolding sg_holds_def using f sw hw mv hd fx by (simp add: r'_def)
  with run show ?thesis by blast
qed


lemma sg_packet_ring:
  assumes t: "t = TX_RING \<or> t = RX_RING"
  shows "packet_ring sg_ring_add_skb sg_ring_del_skb sg_ring_have_space (sg_holds t lk) (fresh_len t) 7"
proof
  fix r q c
  assume h: "sg_holds t lk r q c"
  show "c \<le> length q \<and> length q \<le> 7" using h by (simp add: sg_holds_def)
  show "sg_ring_have_space r \<longleftrightarrow> length q < 7" using sg_full [OF h] h by (auto simp: sg_ring_have_space_def sg_holds_def)
  show "sg_ring_add_skb r p = (- ERFULL, r)" if "length q = 7" for p
    using sg_full [OF h] that by (simp add: sg_ring_add_skb_def)
qed (use sg_add_room [OF _ t] sg_del_some [OF _ t] sg_idle in \<open>auto simp: sg_ring_del_skb_def\<close>)

interpretation tx: packet_ring sg_ring_add_skb sg_ring_del_skb sg_ring_have_space "sg_holds TX_RING lk"
    "fresh_len TX_RING" 7
  for lk
  by (rule sg_packet_ring [OF disjI1 [OF refl]])

interpretation rx: packet_ring sg_ring_add_skb sg_ring_del_skb sg_ring_have_space "sg_holds RX_RING lk"
    "fresh_len RX_RING" 7
  for lk
  by (rule sg_packet_ring [OF disjI2 [OF refl]])

section \<open>Properties\<close>

text \<open>A ring with arrays of the right size and indices inside them.\<close>

definition ring_typed :: "sg_ring \<Rightarrow> bool" where
  "ring_typed r \<longleftrightarrow>
     hw_mask r = HW_RING_MASK \<and> sw_mask r = SW_RING_MASK \<and> length (hw_ring r) = 128 \<and> length (sw_ring r) = 8 \<and>
     unat (CxDR r) < 128 \<and> unat (LxDR r) < 128 \<and> unat (FxDR r) < 128 \<and> unat (rg_head r) < 8 \<and> unat (rg_tail r) < 8"

lemma inc_less: "unat (sg_ring_inc i HW_RING_MASK) < 128" "unat (sg_ring_inc i SW_RING_MASK) < 8"
  by (simp_all add: unat_inc_hw unat_inc_sw)

definition empty_ring_of :: "u8 \<Rightarrow> sg_ring" where
  "empty_ring_of t = \<lparr>hw_ring = replicate 128 (0, 0), hw_mask = HW_RING_MASK, CxDR = 0, LxDR = 0, FxDR = 0, rg_type = t,
     sw_ring = replicate 8 None, sw_mask = SW_RING_MASK, rg_head = 0, rg_tail = 0, mapped = []\<rparr>"


text \<open>C40: The ring arrays keep their sizes and every index stays inside its array, whatever the ring
  holds: adding, taking and the card's progress keep the ring typed, also when they fail.\<close>

theorem sg_ring_typed:
  assumes "ring_typed r"
  shows "ring_typed (snd (sg_ring_add_skb r skb)) \<and> ring_typed (hw_complete len r) \<and>
    (case sg_ring_del_skb r of None \<Rightarrow> rg_type r = TX_RING | Some (_, _, r') \<Rightarrow> ring_typed r')"
proof -
  have add: "ring_typed (snd (sg_ring_add_skb r skb))"
    using assms inc_less by (auto simp: sg_ring_add_skb_def ring_typed_def Let_def)
  have hw: "ring_typed (hw_complete len r)"
    using assms inc_less by (auto simp: hw_complete_def ring_typed_def)
  have del: "case sg_ring_del_skb r of None \<Rightarrow> rg_type r = TX_RING | Some (_, _, r') \<Rightarrow> ring_typed r'"
    using assms inc_less unfolding sg_ring_del_skb_def Let_def
    by (auto simp: ring_typed_def split: prod.splits if_splits)
  show ?thesis using add hw del by blast
qed

theorem sg_ring_typed_witness:
  "ring_typed (snd (sg_ring_add_skb (empty_ring_of TX_RING) \<lparr>skb_id = 1, skb_len = 60, skb_bus = 0x1000\<rparr>))"
  using sg_ring_typed [of "empty_ring_of TX_RING"] by (simp add: ring_typed_def empty_ring_of_def)



end
