(* ===== verification/Sg17Net.thy ===== *)
theory Sg17Net
  imports SgRing
begin

text \<open>
  The network device of the SHDSL card (\<open>sg17main.c\<close>): opening and closing, transmission, reception,
  the interrupt handler and the link state, over the two packet rings. Reads of the status register are
  arguments, writes to it acknowledge. Buffers taken from the kernel and given back to it are logged; allocation and padding
  outcomes are arguments, \<open>room\<close> is the space of a receive buffer, which \<open>skb_put\<close> must not exceed.
\<close>

section \<open>State\<close>

definition TXEN :: u8 where "TXEN = 0x01"
definition RXEN :: u8 where "RXEN = 0x02"
definition CMOD :: u8 where "CMOD = 0x10"
definition FMOD :: u8 where "FMOD = 0x20"
definition PMOD :: u8 where "PMOD = 0x40"
definition XRST :: u8 where "XRST = 0x80"
definition RDBE :: u8 where "RDBE = 0x01"
definition WTBE :: u8 where "WTBE = 0x02"
definition RODD :: u8 where "RODD = 0x04"
definition RXDE :: u8 where "RXDE = 0x08"
definition TXS :: u8 where "TXS = 0x01"
definition RXS :: u8 where "RXS = 0x02"
definition CRC :: u8 where "CRC = 0x04"
definition OFL :: u8 where "OFL = 0x08"
definition UFL :: u8 where "UFL = 0x10"
definition COL :: u8 where "COL = 0x40"
abbreviation ETH_ZLEN :: u32 where "ETH_ZLEN \<equiv> 60"

record hdlc_config =
  crc16 :: bool
  fill_7e :: bool
  inv :: bool
  rburst :: bool
  wburst :: bool

record net_device_stats =
  rx_packets :: u32
  rx_bytes :: u32
  tx_packets :: u32
  tx_bytes :: u32
  rx_errors :: u32
  rx_crc_errors :: u32
  rx_over_errors :: u32
  tx_errors :: u32
  tx_fifo_errors :: u32

record net_local =
  CRA :: u8
  CRB :: u8
  IMR :: u8
  RATE :: u8
  nl_rx :: sg_ring
  nl_tx :: sg_ring
  hdlc_cfg :: hdlc_config
  stats :: net_device_stats
  nsg_comp :: bool
  carrier_ok :: bool
  queue_stopped :: bool
  taken :: "sk_buff list"
  freed :: "sk_buff list"
  delivered :: "sk_buff list"

section \<open>Transceiver and link\<close>

definition sg17_tranceiver_down :: "net_local \<Rightarrow> net_local" where
  "sg17_tranceiver_down nl = nl\<lparr>CRA := 0, CRB := RXDE, IMR := 0\<rparr>"

definition sg17_tranceiver_up :: "net_local \<Rightarrow> net_local" where
  "sg17_tranceiver_up nl =
     (let c = hdlc_cfg nl;
          cra = XRST OR RXEN OR TXEN;
          cra = (if crc16 c then cra OR CMOD else cra);
          cra = (if fill_7e c then cra OR FMOD else cra);
          cra = (if inv c then cra OR PMOD else cra);
          crb = CRB nl OR RODD;
          crb = (if rburst c then crb OR RDBE else crb);
          crb = (if wburst c then crb OR WTBE else crb)
      in nl\<lparr>CRA := cra, CRB := crb\<rparr>)"

text \<open>\<open>rate\<close> is the line rate of the channel configuration.\<close>

definition sg17_link_up :: "u16 \<Rightarrow> net_local \<Rightarrow> net_local" where
  "sg17_link_up rate nl =
     nl\<lparr>carrier_ok := True, RATE := word_of_int (int (unat rate div 64) - 1), CRB := CRB nl AND NOT RXDE,
        IMR := UFL OR CRC OR OFL OR RXS OR TXS\<rparr>"

definition sg17_link_down :: "net_local \<Rightarrow> net_local" where
  "sg17_link_down nl = nl\<lparr>CRB := CRB nl OR RXDE, IMR := 0, carrier_ok := False\<rparr>"

text \<open>The rings as \<open>sg17_probe\<close> sets them up; the descriptors and indices are memory of the card.\<close>

definition probe_ring :: "u8 \<Rightarrow> sg_ring \<Rightarrow> sg_ring" where
  "probe_ring t r = r\<lparr>hw_mask := HW_RING_MASK, sw_mask := SW_RING_MASK, rg_type := t\<rparr>"

definition sg17_probe :: "int \<Rightarrow> net_local \<Rightarrow> int \<times> net_local" where
  "sg17_probe irq_err nl =
     (let nl = sg17_tranceiver_down (nl\<lparr>carrier_ok := False, queue_stopped := True\<rparr>);
          nl = nl\<lparr>nl_tx := probe_ring TX_RING (nl_tx nl), nl_rx := probe_ring RX_RING (nl_rx nl), nsg_comp := False,
                  CRA := XRST, hdlc_cfg := (hdlc_cfg nl)\<lparr>rburst := False, wburst := False\<rparr>\<rparr>
      in (irq_err, nl))"

section \<open>Transmission\<close>

definition free_skb :: "sk_buff \<Rightarrow> net_local \<Rightarrow> net_local" where
  "free_skb skb nl = nl\<lparr>freed := freed nl @ [skb]\<rparr>"

definition take_skb :: "sk_buff \<Rightarrow> net_local \<Rightarrow> net_local" where
  "take_skb skb nl = nl\<lparr>taken := taken nl @ [skb]\<rparr>"

definition xmit_add :: "sk_buff \<Rightarrow> net_local \<Rightarrow> int \<times> net_local" where
  "xmit_add skb nl =
     (case sg_ring_add_skb (nl_tx nl) skb of
        (e, r) \<Rightarrow>
          if e = - ERFULL then (1, nl\<lparr>nl_tx := r, queue_stopped := True\<rparr>)
          else (0, (take_skb skb nl)\<lparr>nl_tx := r, stats := (stats nl)\<lparr>tx_packets := tx_packets (stats nl) + 1,
                                          tx_bytes := tx_bytes (stats nl) + skb_len skb\<rparr>\<rparr>))"

text \<open>\<open>pad\<close> is the buffer that \<open>skb_pad\<close> returns; it releases the old one when it fails or copies.\<close>

definition sg17_start_xmit :: "sk_buff option \<Rightarrow> sk_buff \<Rightarrow> net_local \<Rightarrow> int \<times> net_local" where
  "sg17_start_xmit pad skb nl =
     (if \<not> carrier_ok nl then (0, free_skb skb (take_skb skb nl))
      else if skb_len skb < ETH_ZLEN then
        (case pad of
           None \<Rightarrow> (0, nl)
         | Some skb \<Rightarrow> xmit_add (skb\<lparr>skb_len := ETH_ZLEN\<rparr>) nl)
      else if skb_len skb > ETHER_MAX_LEN then (0, free_skb skb (take_skb skb nl))
      else xmit_add skb nl)"

definition xmit_free_buffs :: "net_local \<Rightarrow> net_local option" where
  "xmit_free_buffs nl =
     map_option
       (\<lambda>(r, nl). let nl = nl\<lparr>nl_tx := r\<rparr> in
          if queue_stopped nl \<and> sg_ring_have_space r then nl\<lparr>queue_stopped := False\<rparr> else nl)
       (drain sg_ring_del_skb (\<lambda>skb len nl. Some (free_skb skb nl)) (nl_tx nl) nl)"

definition sg17_tx_timeout :: "net_local \<Rightarrow> net_local option" where
  "sg17_tx_timeout nl =
     (let tmp = IMR nl;
          nl = nl\<lparr>IMR := 0\<rparr>;
          nl = (if carrier_ok nl then nl\<lparr>CRA := CRA nl OR TXEN\<rparr> else nl);
          nl = nl\<lparr>IMR := tmp\<rparr>
      in xmit_free_buffs nl)"

section \<open>Reception\<close>

definition skb_put :: "u32 \<Rightarrow> sk_buff \<Rightarrow> u32 \<Rightarrow> sk_buff option" where
  "skb_put room skb len = (if skb_len skb + len > room then None else Some (skb\<lparr>skb_len := skb_len skb + len\<rparr>))"

definition recv_frame :: "u32 \<Rightarrow> sk_buff \<Rightarrow> u32 \<Rightarrow> net_local \<Rightarrow> net_local option" where
  "recv_frame room skb len nl =
     (let len = (if len < ETH_ZLEN then ETH_ZLEN else len) in
      case skb_put room skb len of
        None \<Rightarrow> None
      | Some skb \<Rightarrow>
          Some (nl\<lparr>delivered := delivered nl @ [skb],
                   stats := (stats nl)\<lparr>rx_packets := rx_packets (stats nl) + 1,
                                       rx_bytes := rx_bytes (stats nl) + len\<rparr>\<rparr>))"

definition recv_init_frames :: "u32 \<Rightarrow> net_local \<Rightarrow> net_local option" where
  "recv_init_frames room nl =
     map_option (\<lambda>(r, nl). nl\<lparr>nl_rx := r\<rparr>) (drain sg_ring_del_skb (recv_frame room) (nl_rx nl) nl)"

definition recv_alloc_buffs :: "(nat \<Rightarrow> sk_buff option) \<Rightarrow> net_local \<Rightarrow> (int \<times> net_local) option" where
  "recv_alloc_buffs alloc nl =
     map_option (\<lambda>(e, ps, fr, r). (e, nl\<lparr>nl_rx := r, taken := taken nl @ ps, freed := freed nl @ fr\<rparr>))
       (refill sg_ring_add_skb sg_ring_have_space alloc 0 (nl_rx nl))"

definition recv_free_buffs :: "net_local \<Rightarrow> net_local option" where
  "recv_free_buffs nl =
     map_option (\<lambda>(r, nl). nl\<lparr>nl_rx := r\<rparr>)
       (drain sg_ring_del_skb (\<lambda>skb len nl. Some (free_skb skb nl)) (nl_rx nl) nl)"

section \<open>Opening, closing, interrupts\<close>

definition reset_ring :: "sg_ring \<Rightarrow> sg_ring" where
  "reset_ring r = r\<lparr>rg_head := 0, rg_tail := 0, FxDR := 0, CxDR := 0, LxDR := 0\<rparr>"

definition sg17_open :: "(nat \<Rightarrow> sk_buff option) \<Rightarrow> net_local \<Rightarrow> (int \<times> net_local) option" where
  "sg17_open alloc nl =
     (let nl = nl\<lparr>nl_tx := reset_ring (nl_tx nl), nl_rx := reset_ring (nl_rx nl)\<rparr> in
      map_option (\<lambda>(e, nl). (0, (sg17_tranceiver_up nl)\<lparr>queue_stopped := False\<rparr>)) (recv_alloc_buffs alloc nl))"

definition sg17_close :: "net_local \<Rightarrow> (int \<times> net_local) option" where
  "sg17_close nl =
     (let nl = nl\<lparr>CRA := XRST, queue_stopped := True\<rparr> in
      map_option (Pair 0) (Option.bind (recv_free_buffs nl) xmit_free_buffs))"

datatype irqreturn = IRQ_NONE | IRQ_HANDLED

definition count_errors :: "u8 \<Rightarrow> net_local \<Rightarrow> net_local" where
  "count_errors status nl =
     (let nl = (if status AND CRC \<noteq> 0 then
                  nl\<lparr>stats := (stats nl)\<lparr>rx_errors := rx_errors (stats nl) + 1,
                                         rx_crc_errors := rx_crc_errors (stats nl) + 1\<rparr>\<rparr> else nl);
          nl = (if status AND OFL \<noteq> 0 then
                  nl\<lparr>stats := (stats nl)\<lparr>rx_errors := rx_errors (stats nl) + 1,
                                         rx_over_errors := rx_over_errors (stats nl) + 1\<rparr>\<rparr> else nl)
      in (if status AND UFL \<noteq> 0 then
            nl\<lparr>CRA := CRA nl OR TXEN,
               stats := (stats nl)\<lparr>tx_errors := tx_errors (stats nl) + 1,
                                   tx_fifo_errors := tx_fifo_errors (stats nl) + 1\<rparr>\<rparr> else nl))"

text \<open>The status register is read twice.\<close>

definition sg17_interrupt ::
  "u32 \<Rightarrow> (nat \<Rightarrow> sk_buff option) \<Rightarrow> u8 \<Rightarrow> u8 \<Rightarrow> net_local \<Rightarrow> (irqreturn \<times> net_local) option" where
  "sg17_interrupt room alloc sr1 sr2 nl =
     (let mask' = IMR nl in
      if sr1 AND mask' = 0 then Some (IRQ_NONE, nl)
      else
        (let status = sr2;
             nl = nl\<lparr>IMR := 0\<rparr>
         in Option.bind
              (if status AND RXS \<noteq> 0
               then map_option snd (Option.bind (recv_init_frames room nl) (recv_alloc_buffs alloc)) else Some nl)
              (\<lambda>nl. Option.bind (if status AND TXS \<noteq> 0 then xmit_free_buffs nl else Some nl)
                 (\<lambda>nl. Some (IRQ_HANDLED, (count_errors status nl)\<lparr>IMR := mask'\<rparr>)))))"

section \<open>The device on its packets\<close>

definition frame_len :: "u32 \<Rightarrow> u32" where
  "frame_len l = (if l AND 0x7ff < ETH_ZLEN then ETH_ZLEN else l AND 0x7ff)"

definition received :: "sk_buff \<times> u32 \<Rightarrow> sk_buff" where
  "received = (\<lambda>(skb, l). skb\<lparr>skb_len := frame_len l\<rparr>)"

definition count_received :: "u32 list \<Rightarrow> net_device_stats \<Rightarrow> net_device_stats" where
  "count_received ls st = st\<lparr>rx_packets := rx_packets st + of_nat (length ls), rx_bytes := rx_bytes st + sum_list ls\<rparr>"

text \<open>Transmit and receive ring with their buffers; receive buffers are empty.\<close>

definition nic_holds ::
  "net_local \<Rightarrow> (u32 \<times> u32) multiset \<Rightarrow> (sk_buff \<times> u32) list \<Rightarrow> nat \<Rightarrow> (u32 \<times> u32) multiset \<Rightarrow> (sk_buff \<times> u32) list \<Rightarrow> nat \<Rightarrow> bool" where
  "nic_holds nl lt qt ct lr qr cr \<longleftrightarrow>
     sg_holds TX_RING lt (nl_tx nl) qt ct \<and> sg_holds RX_RING lr (nl_rx nl) qr cr \<and> (\<forall>(skb, l) \<in> set qr. skb_len skb = 0)"

definition fresh_alloc :: "(nat \<Rightarrow> sk_buff option) \<Rightarrow> bool" where
  "fresh_alloc alloc \<longleftrightarrow> (\<forall>i skb. alloc i = Some skb \<longrightarrow> skb_len skb = 0)"

definition fits :: "u32 \<Rightarrow> (sk_buff \<times> u32) list \<Rightarrow> bool" where
  "fits room q \<longleftrightarrow> (\<forall>(skb, l) \<in> set q. frame_len l \<le> room)"

lemma each_free:
  "each (\<lambda>(skb, l). (\<lambda>nl. Some (free_skb skb nl))) xs nl = Some (nl\<lparr>freed := freed nl @ map fst xs\<rparr>)"
  by (induction xs arbitrary: nl) (auto simp: free_skb_def)

lemma recv_frame_fits:
  assumes "skb_len skb = 0" "frame_len l \<le> room"
  shows "recv_frame room skb (l AND 0x7ff) nl =
    Some (nl\<lparr>delivered := delivered nl @ [received (skb, l)], stats := count_received [frame_len l] (stats nl)\<rparr>)"
  using assms by (simp add: recv_frame_def skb_put_def frame_len_def received_def count_received_def Let_def)

lemma each_receive:
  "\<forall>(skb, l) \<in> set xs. skb_len skb = 0 \<Longrightarrow> fits room xs \<Longrightarrow>
   each (\<lambda>(skb, l). recv_frame room skb (l AND 0x7ff)) xs nl =
     Some (nl\<lparr>delivered := delivered nl @ map received xs, stats := count_received (map (frame_len \<circ> snd) xs) (stats nl)\<rparr>)"
proof (induction xs arbitrary: nl)
  case Nil
  then show ?case by (simp add: count_received_def)
next
  case (Cons x xs)
  obtain skb l where x: "x = (skb, l)" by (cases x)
  have f: "skb_len skb = 0" "frame_len l \<le> room" using Cons.prems x by (simp_all add: fits_def)
  show ?case
    using Cons.IH Cons.prems x recv_frame_fits [OF f, of nl]
    by (simp add: fits_def count_received_def o_def add.assoc)
qed

text \<open>A frame that does not fit its buffer.\<close>

lemma each_too_long:
  assumes "\<forall>(skb, l) \<in> set xs. skb_len skb = 0" "\<not> fits room xs"
  shows "each (\<lambda>(skb, l). recv_frame room skb (l AND 0x7ff)) xs nl = None"
  using assms
proof (induction xs arbitrary: nl)
  case Nil
  then show ?case by (simp add: fits_def)
next
  case (Cons x xs)
  obtain skb l where x: "x = (skb, l)" by (cases x)
  have f: "skb_len skb = 0" using Cons.prems x by simp
  show ?case
  proof (cases "frame_len l \<le> room")
    case True
    then have "\<not> fits room xs" using Cons.prems(2) x by (auto simp: fits_def)
    then show ?thesis using Cons x recv_frame_fits [OF f True, of nl] by simp
  next
    case False
    then have "recv_frame room skb (l AND 0x7ff) nl = None"
      using f by (simp add: recv_frame_def skb_put_def frame_len_def Let_def)
    then show ?thesis using x by simp
  qed
qed

lemma xmit_free_sent:
  assumes "sg_holds TX_RING lt (nl_tx nl) q c"
  shows "\<exists>r. xmit_free_buffs nl = Some (nl\<lparr>nl_tx := r, freed := freed nl @ map fst (take c q),
      queue_stopped := queue_stopped nl \<and> length (drop c q) = 7\<rparr>) \<and> sg_holds TX_RING lt r (drop c q) 0"
proof -
  from tx.drain_takes [OF assms, of "\<lambda>skb len nl. Some (free_skb skb nl)" nl] obtain r where
    r: "sg_holds TX_RING lt r (drop c q) 0"
      "drain sg_ring_del_skb (\<lambda>skb len nl. Some (free_skb skb nl)) (nl_tx nl) nl =
        Some (r, nl\<lparr>freed := freed nl @ map fst (take c q)\<rparr>)"
    unfolding each_free by auto
  have "sg_ring_have_space r \<longleftrightarrow> length (drop c q) \<noteq> 7"
    using tx.space_iff [OF r(1)] tx.holds_le [OF r(1)] by auto
  then have sp: "(queue_stopped nl \<and> sg_ring_have_space r) \<longleftrightarrow> \<not> (queue_stopped nl \<longrightarrow> length (drop c q) = 7)" by blast
  let ?s = "nl\<lparr>freed := freed nl @ map fst (take c q), nl_tx := r\<rparr>"
  have run: "xmit_free_buffs nl = Some (if queue_stopped nl \<longrightarrow> length (drop c q) = 7 then ?s else ?s\<lparr>queue_stopped := False\<rparr>)"
    unfolding xmit_free_buffs_def r(2) Let_def using sp by simp
  have same: "?s\<lparr>queue_stopped := queue_stopped nl\<rparr> = ?s" by simp
  have "xmit_free_buffs nl = Some (?s\<lparr>queue_stopped := queue_stopped nl \<and> length (drop c q) = 7\<rparr>)"
  proof (cases "queue_stopped nl \<longrightarrow> length (drop c q) = 7")
    case True
    then have "(queue_stopped nl \<and> length (drop c q) = 7) = queue_stopped nl" by blast
    then show ?thesis unfolding run if_P [OF True] by (simp only: same)
  next
    case False
    then have "(queue_stopped nl \<and> length (drop c q) = 7) = False" by blast
    then show ?thesis unfolding run if_not_P [OF False] by (simp only:)
  qed
  then show ?thesis using r(1) by (intro exI [of _ r]) simp
qed

lemma recv_delivers:
  assumes "sg_holds RX_RING lr (nl_rx nl) q c" "\<forall>(skb, l) \<in> set q. skb_len skb = 0" "fits room (take c q)"
  shows "\<exists>r. recv_init_frames room nl = Some (nl\<lparr>nl_rx := r, delivered := delivered nl @ map received (take c q),
      stats := count_received (map (frame_len \<circ> snd) (take c q)) (stats nl)\<rparr>) \<and> sg_holds RX_RING lr r (drop c q) 0"
proof -
  have e: "\<forall>(skb, l) \<in> set (take c q). skb_len skb = 0" using assms(2) in_set_takeD by fastforce
  from rx.drain_takes [OF assms(1), of "recv_frame room" nl] obtain r where
    "sg_holds RX_RING lr r (drop c q) 0"
      "drain sg_ring_del_skb (recv_frame room) (nl_rx nl) nl =
        Some (r, nl\<lparr>delivered := delivered nl @ map received (take c q),
          stats := count_received (map (frame_len \<circ> snd) (take c q)) (stats nl)\<rparr>)"
    unfolding each_receive [OF e assms(3)] by auto
  then show ?thesis by (intro exI [of _ r]) (simp add: recv_init_frames_def)
qed

lemma recv_panics:
  assumes "sg_holds RX_RING lr (nl_rx nl) q c" "\<forall>(skb, l) \<in> set q. skb_len skb = 0" "\<not> fits room (take c q)"
  shows "recv_init_frames room nl = None"
proof -
  have e: "\<forall>(skb, l) \<in> set (take c q). skb_len skb = 0" using assms(2) in_set_takeD by fastforce
  show ?thesis
    using rx.drain_takes [OF assms(1), of "recv_frame room" nl] unfolding each_too_long [OF e assms(3)]
    by (auto simp: recv_init_frames_def)
qed

lemma recv_allocates:
  assumes "sg_holds RX_RING lr (nl_rx nl) q c"
  shows "\<exists>e ps r. recv_alloc_buffs alloc nl = Some (e, nl\<lparr>nl_rx := r, taken := taken nl @ ps\<rparr>) \<and>
    sg_holds RX_RING lr r (q @ map (\<lambda>skb. (skb, 0)) ps) c \<and> map Some ps = map alloc [0..<length ps] \<and>
    (e = 0 \<and> length q + length ps = 7 \<or> e = -12 \<and> length q + length ps < 7 \<and> alloc (length ps) = None)"
proof -
  have fr: "fresh_len RX_RING skb = 0" for skb by (simp add: fresh_len_def RX_RING_def TX_RING_def)
  from rx.refill_fills [OF assms, of alloc 0] obtain e ps r where
    r: "refill sg_ring_add_skb sg_ring_have_space alloc 0 (nl_rx nl) = Some (e, ps, [], r)"
      "sg_holds RX_RING lr r (q @ map (\<lambda>p. (p, fresh_len RX_RING p)) ps) c"
      "map Some ps = map (\<lambda>j. alloc (0 + j)) [0..<length ps]"
      "e = 0 \<and> length q + length ps = 7 \<or> e = -12 \<and> length q + length ps < 7 \<and> alloc (0 + length ps) = None"
    by blast
  then show ?thesis
    unfolding fr by (intro exI [of _ e] exI [of _ ps] exI [of _ r]) (simp add: recv_alloc_buffs_def)
qed

lemma recv_frees:
  assumes "sg_holds RX_RING lr (nl_rx nl) q c"
  shows "\<exists>r. recv_free_buffs nl = Some (nl\<lparr>nl_rx := r, freed := freed nl @ map fst (take c q)\<rparr>) \<and>
    sg_holds RX_RING lr r (drop c q) 0"
proof -
  from rx.drain_takes [OF assms, of "\<lambda>skb len nl. Some (free_skb skb nl)" nl] obtain r where
    "sg_holds RX_RING lr r (drop c q) 0"
      "drain sg_ring_del_skb (\<lambda>skb len nl. Some (free_skb skb nl)) (nl_rx nl) nl =
        Some (r, nl\<lparr>freed := freed nl @ map fst (take c q)\<rparr>)"
    unfolding each_free by auto
  then show ?thesis by (intro exI [of _ r]) (simp add: recv_free_buffs_def)
qed

end
