(* ===== verification/Sg17Run.thy ===== *)
theory Sg17Run
  imports Sg17Net
begin

text \<open>
  Runs of the network device of the SHDSL card: what each entry point does to the packets, and the
  packets in every run of the driver together with the card.
\<close>

section \<open>The entry points\<close>

text \<open>The error counters after an interrupt with a status: a bit of the status counts one error of its kind.\<close>

definition bit_count :: "u8 \<Rightarrow> u8 \<Rightarrow> u32" where
  "bit_count status b = (if status AND b \<noteq> 0 then 1 else 0)"

definition error_stats :: "u8 \<Rightarrow> net_device_stats \<Rightarrow> net_device_stats" where
  "error_stats status st = st
     \<lparr>rx_errors := rx_errors st + bit_count status CRC + bit_count status OFL,
      rx_crc_errors := rx_crc_errors st + bit_count status CRC,
      rx_over_errors := rx_over_errors st + bit_count status OFL,
      tx_errors := tx_errors st + bit_count status UFL,
      tx_fifo_errors := tx_fifo_errors st + bit_count status UFL\<rparr>"

lemma count_errors_simps [simp]:
  "IMR (count_errors st nl) = IMR nl" "nl_rx (count_errors st nl) = nl_rx nl" "nl_tx (count_errors st nl) = nl_tx nl"
  "taken (count_errors st nl) = taken nl" "freed (count_errors st nl) = freed nl"
  "delivered (count_errors st nl) = delivered nl" "queue_stopped (count_errors st nl) = queue_stopped nl"
  "carrier_ok (count_errors st nl) = carrier_ok nl"
  "stats (count_errors st nl) = error_stats st (stats nl)"
  "CRA (count_errors st nl) = (if st AND UFL \<noteq> 0 then CRA nl OR TXEN else CRA nl)"
  by (simp_all add: count_errors_def error_stats_def bit_count_def Let_def)

text \<open>What an interrupt does to the packets and the statistics, for the status it reads.\<close>

definition irq_spec ::
  "u8 \<Rightarrow> (nat \<Rightarrow> sk_buff option) \<Rightarrow> (u32 \<times> u32) multiset \<Rightarrow> (sk_buff \<times> u32) list \<Rightarrow> nat \<Rightarrow>
   (u32 \<times> u32) multiset \<Rightarrow> (sk_buff \<times> u32) list \<Rightarrow> nat \<Rightarrow> net_local \<Rightarrow> net_local \<Rightarrow> bool" where
  "irq_spec status alloc lt qt ct lr qr cr nl nl' \<longleftrightarrow>
     (let rxs = status AND RXS \<noteq> 0; txs = status AND TXS \<noteq> 0 in \<exists>ps. map Some ps = map alloc [0..<length ps] \<and> taken nl' = taken nl @ ps \<and>
        (if rxs then length (drop cr qr) + length ps = 7 \<or> alloc (length ps) = None else ps = []) \<and>
        delivered nl' = delivered nl @ (if rxs then map received (take cr qr) else []) \<and>
        freed nl' = freed nl @ (if txs then map fst (take ct qt) else []) \<and>
        stats nl' = error_stats status
          (if rxs then count_received (map (frame_len \<circ> snd) (take cr qr)) (stats nl) else stats nl) \<and>
        queue_stopped nl' = (queue_stopped nl \<and> (txs \<longrightarrow> length (drop ct qt) = 7)) \<and>
        sg_holds TX_RING lt (nl_tx nl') (if txs then drop ct qt else qt) (if txs then 0 else ct) \<and>
        sg_holds RX_RING lr (nl_rx nl') (if rxs then drop cr qr @ map (\<lambda>skb. (skb, 0)) ps else qr) (if rxs then 0 else cr))"

lemma receive_part:
  assumes "sg_holds RX_RING lr (nl_rx nl) qr cr" "\<forall>(skb, l) \<in> set qr. skb_len skb = 0" "fits room (take cr qr)"
  shows "\<exists>ps r. map_option snd (Option.bind (recv_init_frames room nl) (recv_alloc_buffs alloc)) =
      Some (nl\<lparr>nl_rx := r, delivered := delivered nl @ map received (take cr qr),
        stats := count_received (map (frame_len \<circ> snd) (take cr qr)) (stats nl), taken := taken nl @ ps\<rparr>) \<and>
    map Some ps = map alloc [0..<length ps] \<and> (length (drop cr qr) + length ps = 7 \<or> alloc (length ps) = None) \<and>
    sg_holds RX_RING lr r (drop cr qr @ map (\<lambda>skb. (skb, 0)) ps) 0"
proof -
  from recv_delivers [OF assms] obtain r1 where r1:
    "recv_init_frames room nl = Some (nl\<lparr>nl_rx := r1, delivered := delivered nl @ map received (take cr qr),
      stats := count_received (map (frame_len \<circ> snd) (take cr qr)) (stats nl)\<rparr>)"
    "sg_holds RX_RING lr r1 (drop cr qr) 0" by blast
  let ?nl1 = "nl\<lparr>nl_rx := r1, delivered := delivered nl @ map received (take cr qr),
      stats := count_received (map (frame_len \<circ> snd) (take cr qr)) (stats nl)\<rparr>"
  have "sg_holds RX_RING lr (nl_rx ?nl1) (drop cr qr) 0" using r1(2) by simp
  from recv_allocates [OF this, of alloc] obtain e ps r where
    a: "recv_alloc_buffs alloc ?nl1 = Some (e, ?nl1\<lparr>nl_rx := r, taken := taken ?nl1 @ ps\<rparr>)"
      "sg_holds RX_RING lr r (drop cr qr @ map (\<lambda>skb. (skb, 0)) ps) 0" "map Some ps = map alloc [0..<length ps]"
      "e = 0 \<and> length (drop cr qr) + length ps = 7 \<or> e = -12 \<and> length (drop cr qr) + length ps < 7 \<and> alloc (length ps) = None"
    by blast
  show ?thesis
    unfolding r1(1) bind.bind_lunit a(1)
    by (intro exI [of _ ps] exI [of _ r]) (use a(2-4) in auto)
qed

lemma interrupt_serves:
  assumes "nic_holds nl lt qt ct lr qr cr" "sr1 AND IMR nl \<noteq> 0" "sr2 AND RXS \<noteq> 0 \<longrightarrow> fits room (take cr qr)"
  shows "\<exists>nl'. sg17_interrupt room alloc sr1 sr2 nl = Some (IRQ_HANDLED, nl') \<and>
    irq_spec sr2 alloc lt qt ct lr qr cr nl nl' \<and>
    IMR nl' = IMR nl \<and> carrier_ok nl' = carrier_ok nl \<and> CRA nl' = (if sr2 AND UFL \<noteq> 0 then CRA nl OR TXEN else CRA nl)"
proof -
  let ?rxs = "sr2 AND RXS \<noteq> 0" and ?txs = "sr2 AND TXS \<noteq> 0" and ?nl0 = "nl\<lparr>IMR := 0\<rparr>"
  let ?st = "if ?rxs then count_received (map (frame_len \<circ> snd) (take cr qr)) (stats nl) else stats nl"
  have h: "sg_holds TX_RING lt (nl_tx nl) qt ct" "sg_holds RX_RING lr (nl_rx nl) qr cr"
    "\<forall>(skb, l) \<in> set qr. skb_len skb = 0" using assms(1) by (simp_all add: nic_holds_def)
  obtain ps r where a:
    "(if ?rxs then map_option snd (Option.bind (recv_init_frames room ?nl0) (recv_alloc_buffs alloc)) else Some ?nl0) =
      Some (?nl0\<lparr>nl_rx := r, delivered := delivered nl @ (if ?rxs then map received (take cr qr) else []), stats := ?st,
        taken := taken nl @ ps\<rparr>)"
    "map Some ps = map alloc [0..<length ps]"
    "if ?rxs then length (drop cr qr) + length ps = 7 \<or> alloc (length ps) = None else ps = []"
    "sg_holds RX_RING lr r (if ?rxs then drop cr qr @ map (\<lambda>skb. (skb, 0)) ps else qr) (if ?rxs then 0 else cr)"
  proof (cases ?rxs)
    case True
    have "sg_holds RX_RING lr (nl_rx ?nl0) qr cr" using h(2) by simp
    from receive_part [OF this h(3), of room alloc] assms(3) True that show ?thesis by auto
  next
    case False
    with h(2) show ?thesis by (intro that [where ps = "[]" and r = "nl_rx nl"]) simp_all
  qed
  let ?nl1 = "?nl0\<lparr>nl_rx := r, delivered := delivered nl @ (if ?rxs then map received (take cr qr) else []), stats := ?st,
        taken := taken nl @ ps\<rparr>"
  obtain r' where b: "(if ?txs then xmit_free_buffs ?nl1 else Some ?nl1) =
      Some (?nl1\<lparr>nl_tx := r', freed := freed nl @ (if ?txs then map fst (take ct qt) else []),
        queue_stopped := queue_stopped nl \<and> (?txs \<longrightarrow> length (drop ct qt) = 7)\<rparr>)"
    "sg_holds TX_RING lt r' (if ?txs then drop ct qt else qt) (if ?txs then 0 else ct)"
  proof (cases ?txs)
    case True
    have "sg_holds TX_RING lt (nl_tx ?nl1) qt ct" using h(1) by simp
    from xmit_free_sent [OF this] True that show ?thesis by auto
  next
    case False
    with h(1) show ?thesis by (intro that [of "nl_tx nl"]) simp_all
  qed
  show ?thesis
    unfolding sg17_interrupt_def Let_def a(1) if_not_P [OF assms(2)] bind.bind_lunit b(1)
    by (intro exI conjI, rule refl, unfold irq_spec_def Let_def, rule exI [of _ ps]) (use a(2-4) b(2) in simp_all)
qed

text \<open>Opening forgets what the rings hold and fills the receive ring anew.\<close>

definition ring_ready :: "u8 \<Rightarrow> sg_ring \<Rightarrow> bool" where
  "ring_ready t r \<longleftrightarrow> rg_type r = t \<and> hw_mask r = HW_RING_MASK \<and> sw_mask r = SW_RING_MASK \<and>
     length (hw_ring r) = 128 \<and> length (sw_ring r) = 8"

lemma holds_ready: "sg_holds t lk r q c \<Longrightarrow> ring_ready t r"
  by (simp add: sg_holds_def ring_ready_def)

lemma reset_holds: "ring_ready t r \<Longrightarrow> sg_holds t (mset (mapped r)) (reset_ring r) [] 0"
  by (simp add: ring_ready_def reset_ring_def sg_holds_def)

lemma tranceiver_up_simps [simp]:
  "nl_rx (sg17_tranceiver_up nl) = nl_rx nl" "nl_tx (sg17_tranceiver_up nl) = nl_tx nl"
  "taken (sg17_tranceiver_up nl) = taken nl" "freed (sg17_tranceiver_up nl) = freed nl"
  "delivered (sg17_tranceiver_up nl) = delivered nl"
  by (simp_all add: sg17_tranceiver_up_def Let_def)

lemma open_fills:
  assumes "ring_ready TX_RING (nl_tx nl)" "ring_ready RX_RING (nl_rx nl)" "fresh_alloc alloc"
  shows "\<exists>ps nl'. sg17_open alloc nl = Some (0, nl') \<and> taken nl' = taken nl @ ps \<and> freed nl' = freed nl \<and>
    delivered nl' = delivered nl \<and> map Some ps = map alloc [0..<length ps] \<and> (length ps = 7 \<or> alloc (length ps) = None) \<and>
    nic_holds nl' (mset (mapped (nl_tx nl))) [] 0 (mset (mapped (nl_rx nl))) (map (\<lambda>skb. (skb, 0)) ps) 0"
proof -
  let ?nl0 = "nl\<lparr>nl_tx := reset_ring (nl_tx nl), nl_rx := reset_ring (nl_rx nl)\<rparr>"
  have "sg_holds RX_RING (mset (mapped (nl_rx nl))) (nl_rx ?nl0) [] 0" using reset_holds [OF assms(2)] by simp
  from recv_allocates [OF this, of alloc, unfolded append_Nil list.size(3) add_0] obtain e ps r where
    a: "recv_alloc_buffs alloc ?nl0 = Some (e, ?nl0\<lparr>nl_rx := r, taken := taken ?nl0 @ ps\<rparr>)"
      "sg_holds RX_RING (mset (mapped (nl_rx nl))) r (map (\<lambda>skb. (skb, 0)) ps) 0"
      "map Some ps = map alloc [0..<length ps]"
      "e = 0 \<and> length ps = 7 \<or> e = -12 \<and> length ps < 7 \<and> alloc (length ps) = None" by blast
  have "skb_len skb = 0" if "skb \<in> set ps" for skb
  proof -
    have "Some skb \<in> set (map Some ps)" using that by simp
    then obtain i where "alloc i = Some skb" unfolding a(3) by auto
    then show ?thesis using assms(3) by (simp add: fresh_alloc_def)
  qed
  then have "\<forall>(skb, l) \<in> set (map (\<lambda>skb. (skb, 0)) ps). skb_len skb = 0" by auto
  then show ?thesis
    unfolding sg17_open_def Let_def a(1)
    by (intro exI [of _ ps]) (use a(2-4) reset_holds [OF assms(1)] in \<open>auto simp: nic_holds_def\<close>)
qed

lemma close_drops:
  assumes "nic_holds nl lt qt ct lr qr cr"
  shows "\<exists>nl'. sg17_close nl = Some (0, nl') \<and> taken nl' = taken nl \<and> delivered nl' = delivered nl \<and>
    freed nl' = freed nl @ map fst (take cr qr) @ map fst (take ct qt) \<and>
    nic_holds nl' lt (drop ct qt) 0 lr (drop cr qr) 0 \<and> queue_stopped nl' = (length (drop ct qt) = 7)"
proof -
  let ?nl0 = "nl\<lparr>CRA := XRST, queue_stopped := True\<rparr>"
  have h: "sg_holds TX_RING lt (nl_tx nl) qt ct" "sg_holds RX_RING lr (nl_rx ?nl0) qr cr"
    "\<forall>(skb, l) \<in> set qr. skb_len skb = 0" using assms(1) by (simp_all add: nic_holds_def)
  from recv_frees [OF h(2)] obtain r1 where
    r1: "recv_free_buffs ?nl0 = Some (?nl0\<lparr>nl_rx := r1, freed := freed ?nl0 @ map fst (take cr qr)\<rparr>)"
      "sg_holds RX_RING lr r1 (drop cr qr) 0" by blast
  let ?nl1 = "?nl0\<lparr>nl_rx := r1, freed := freed ?nl0 @ map fst (take cr qr)\<rparr>"
  have "sg_holds TX_RING lt (nl_tx ?nl1) qt ct" using h(1) by simp
  from xmit_free_sent [OF this] obtain r2 where
    r2: "xmit_free_buffs ?nl1 = Some (?nl1\<lparr>nl_tx := r2, freed := freed ?nl1 @ map fst (take ct qt),
        queue_stopped := queue_stopped ?nl1 \<and> length (drop ct qt) = 7\<rparr>)" "sg_holds TX_RING lt r2 (drop ct qt) 0" by blast
  have e: "\<forall>(skb, l) \<in> set (drop cr qr). skb_len skb = 0" using h(3) in_set_dropD by fastforce
  show ?thesis
    unfolding sg17_close_def Let_def r1(1) bind.bind_lunit r2(1) option.map
    by (rule exI, rule conjI, rule refl) (use r1(2) r2(2) e in \<open>simp add: nic_holds_def\<close>)
qed

lemma xmit_queues:
  assumes "sg_holds TX_RING lt (nl_tx nl) qt ct"
  shows "if length qt = 7 then xmit_add skb nl = (1, nl\<lparr>queue_stopped := True\<rparr>)
    else \<exists>r st. xmit_add skb nl = (0, nl\<lparr>taken := taken nl @ [skb], nl_tx := r, stats := st\<rparr>) \<and>
      sg_holds TX_RING lt r (qt @ [(skb, skb_len skb OR LAST_FRAG)]) ct"
proof (cases "length qt = 7")
  case True
  then show ?thesis using tx.add_full [OF assms True, of skb] by (simp add: xmit_add_def)
next
  case False
  then have "length qt < 7" using tx.holds_le [OF assms] by simp
  from tx.add_room [OF assms this, of skb] False show ?thesis
    by (auto simp: xmit_add_def take_skb_def fresh_len_def split: prod.splits)
qed

section \<open>Runs\<close>



text \<open>A device after \<open>sg17_probe\<close>: the arrays have their sizes, no buffer was taken yet.\<close>

definition probed :: "net_local \<Rightarrow> bool" where
  "probed nl \<longleftrightarrow> ring_ready TX_RING (nl_tx nl) \<and> ring_ready RX_RING (nl_rx nl) \<and>
     mapped (nl_tx nl) = [] \<and> mapped (nl_rx nl) = [] \<and> taken nl = [] \<and> freed nl = [] \<and> delivered nl = []"


definition ids :: "sk_buff list \<Rightarrow> nat multiset" where
  "ids xs = mset (map skb_id xs)"



lemma ids_received [simp]: "ids (map received xs) = ids (map fst xs)"
  by (simp add: ids_def received_def case_prod_beta o_def)

text \<open>
  Every buffer taken from the kernel was released, delivered, is in a ring or was lost, and the live mappings of
  a ring are one for each of its buffers and one for each buffer it lost.
\<close>

definition mappings :: "u8 \<Rightarrow> sk_buff list \<Rightarrow> (u32 \<times> u32) multiset" where
  "mappings t xs = mset (map (dma_map_of t) xs)"

lemma mappings_simps [simp]: "mappings t [] = {#}" "mappings t (xs @ ys) = mappings t xs + mappings t ys"
  by (simp_all add: mappings_def)













section \<open>Properties\<close>


text \<open>A device as the kernel registers it, and the same after it was opened with five buffers.\<close>

definition new_device :: net_local where
  "new_device = snd (sg17_probe 0 \<lparr>CRA = 0, CRB = 0, IMR = 0, RATE = 0, nl_rx = empty_ring_of 0, nl_tx = empty_ring_of 0,
     hdlc_cfg = \<lparr>crc16 = False, fill_7e = False, inv = False, rburst = False, wburst = False\<rparr>,
     stats = \<lparr>rx_packets = 0, rx_bytes = 0, tx_packets = 0, tx_bytes = 0, rx_errors = 0, rx_crc_errors = 0,
       rx_over_errors = 0, tx_errors = 0, tx_fifo_errors = 0\<rparr>,
     nsg_comp = False, carrier_ok = False, queue_stopped = False, taken = [], freed = [], delivered = []\<rparr>)"

definition five_buffers :: "nat \<Rightarrow> sk_buff option" where
  "five_buffers i = (if i < 5 then Some \<lparr>skb_id = i, skb_len = 0, skb_bus = 0x1000 + of_nat i * 0x800\<rparr> else None)"

lemma new_device_probed: "probed new_device"
  by (simp add: probed_def new_device_def sg17_probe_def Let_def sg17_tranceiver_down_def probe_ring_def empty_ring_of_def
      ring_ready_def)

lemma five_buffers_fresh: "fresh_alloc five_buffers"
  by (simp add: fresh_alloc_def five_buffers_def)




text \<open>C19: An interrupt for a device with \<open>cr\<close> received and \<open>ct\<close> sent buffers: with the reception bit the
  received frames are delivered in order, each with the length the card stored but at least 60 bytes, counted with
  their bytes, and the ring is filled up again until it is full or an allocation fails; with the transmission bit the sent
  buffers are released in order and a stopped queue is started when there is space. The interrupt mask is
  restored, an underflow starts the transmitter again, and every error bit of the status counts one error of its kind; no
  other counter changes. A frame longer than its buffer makes \<open>skb_put\<close> fail.\<close>

theorem sg17_interrupt_serves:
  assumes "nic_holds nl lt qt ct lr qr cr" "sr1 AND IMR nl \<noteq> 0"
  shows "if sr2 AND RXS \<noteq> 0 \<and> \<not> fits room (take cr qr) then sg17_interrupt room alloc sr1 sr2 nl = None
    else \<exists>nl'. sg17_interrupt room alloc sr1 sr2 nl = Some (IRQ_HANDLED, nl') \<and>
      irq_spec sr2 alloc lt qt ct lr qr cr nl nl' \<and>
      IMR nl' = IMR nl \<and> carrier_ok nl' = carrier_ok nl \<and> CRA nl' = (if sr2 AND UFL \<noteq> 0 then CRA nl OR TXEN else CRA nl)"
proof (cases "sr2 AND RXS \<noteq> 0 \<and> \<not> fits room (take cr qr)")
  case True
  have "sg_holds RX_RING lr (nl_rx (nl\<lparr>IMR := 0\<rparr>)) qr cr" "\<forall>(skb, l) \<in> set qr. skb_len skb = 0"
    using assms(1) by (simp_all add: nic_holds_def)
  from recv_panics [OF this conjunct2 [OF True]] have "sg17_interrupt room alloc sr1 sr2 nl = None"
    using True assms(2) by (simp add: sg17_interrupt_def Let_def)
  then show ?thesis using True by simp
next
  case False
  then have f: "sr2 AND RXS \<noteq> 0 \<longrightarrow> fits room (take cr qr)" by blast
  show ?thesis unfolding if_not_P [OF False] by (rule interrupt_serves [OF assms f])
qed

theorem sg17_interrupt_serves_witness:
  "\<exists>nl nl' lr qr. sg17_interrupt 1546 five_buffers 0xFF RXS (sg17_link_up 2304 nl) = Some (IRQ_HANDLED, nl') \<and>
     irq_spec RXS five_buffers {#} [] 0 lr qr 0 (sg17_link_up 2304 nl) nl'"
proof -
  have "ring_ready TX_RING (nl_tx new_device)" "ring_ready RX_RING (nl_rx new_device)" "mapped (nl_tx new_device) = []"
    using new_device_probed by (simp_all add: probed_def)
  with open_fills [OF _ _ five_buffers_fresh] obtain nl lr qr where "nic_holds nl {#} [] 0 lr qr 0"
    by (metis mset.simps(1))
  then have h: "nic_holds (sg17_link_up 2304 nl) {#} [] 0 lr qr 0" by (simp add: nic_holds_def sg17_link_up_def)
  have m: "0xFF AND IMR (sg17_link_up 2304 nl) \<noteq> 0"
    by (simp add: sg17_link_up_def UFL_def CRC_def OFL_def RXS_def TXS_def)
  have "RXS AND RXS \<noteq> 0" "RXS AND TXS = 0" by (simp_all add: RXS_def TXS_def)
  with sg17_interrupt_serves [OF h m, of RXS 1546 five_buffers] show ?thesis
    by (auto simp: fits_def)
qed

text \<open>Sending on a device whose transmit ring holds \<open>qt\<close>. Without carrier, or when it is too long, the
  packet is released. Else it is padded to 60 bytes if need be; if the ring has 7 packets the
  call returns 1, keeps the packet out of the ring and stops the queue, else the packet is appended with a
  descriptor that has its length and the flag of the last fragment.\<close>

theorem sg17_start_xmit_queues:
  assumes "sg_holds TX_RING lt (nl_tx nl) qt ct"
  shows "if \<not> carrier_ok nl \<or> skb_len skb > ETHER_MAX_LEN
    then sg17_start_xmit pad skb nl = (0, nl\<lparr>taken := taken nl @ [skb], freed := freed nl @ [skb]\<rparr>)
    else (case (if skb_len skb < ETH_ZLEN then map_option (\<lambda>p. p\<lparr>skb_len := ETH_ZLEN\<rparr>) pad else Some skb) of
        None \<Rightarrow> sg17_start_xmit pad skb nl = (0, nl)
      | Some f \<Rightarrow> ETH_ZLEN \<le> skb_len f \<and> skb_len f \<le> ETHER_MAX_LEN \<and>
          (if length qt = 7 then sg17_start_xmit pad skb nl = (1, nl\<lparr>queue_stopped := True\<rparr>)
           else \<exists>r st. sg17_start_xmit pad skb nl = (0, nl\<lparr>taken := taken nl @ [f], nl_tx := r, stats := st\<rparr>) \<and>
             sg_holds TX_RING lt r (qt @ [(f, skb_len f OR LAST_FRAG)]) ct))"
proof -
  note q = xmit_queues [OF assms]
  consider "\<not> carrier_ok nl" | "carrier_ok nl" "skb_len skb < ETH_ZLEN" | "carrier_ok nl" "skb_len skb > ETHER_MAX_LEN"
    | "carrier_ok nl" "\<not> skb_len skb < ETH_ZLEN" "\<not> skb_len skb > ETHER_MAX_LEN" by blast
  then show ?thesis
  proof cases
    case 1
    then show ?thesis by (simp add: sg17_start_xmit_def free_skb_def take_skb_def)
  next
    case 2
    have "\<not> skb_len skb > ETHER_MAX_LEN" using 2(2) by unat_arith
    note n = this
    show ?thesis
    proof (cases pad)
      case None
      then show ?thesis using 2 n by (simp add: sg17_start_xmit_def)
    next
      case (Some p)
      then show ?thesis using 2 n q [of "p\<lparr>skb_len := ETH_ZLEN\<rparr>"]
        by (cases "length qt = 7") (simp_all add: sg17_start_xmit_def)
    qed
  next
    case 3
    have "\<not> skb_len skb < ETH_ZLEN" using 3(2) by unat_arith
    then show ?thesis using 3 by (simp add: sg17_start_xmit_def free_skb_def take_skb_def)
  next
    case 4
    then have "ETH_ZLEN \<le> skb_len skb" "skb_len skb \<le> ETHER_MAX_LEN" by simp_all
    then show ?thesis using 4 q [of skb]
      by (cases "length qt = 7") (simp_all add: sg17_start_xmit_def)
  qed
qed

theorem sg17_start_xmit_queues_witness:
  "\<exists>r st. sg17_start_xmit None \<lparr>skb_id = 9, skb_len = 100, skb_bus = 0x8000\<rparr> (new_device\<lparr>carrier_ok := True\<rparr>) =
     (0, new_device\<lparr>carrier_ok := True, taken := [\<lparr>skb_id = 9, skb_len = 100, skb_bus = 0x8000\<rparr>], nl_tx := r, stats := st\<rparr>)"
proof -
  have "sg_holds TX_RING {#} (nl_tx (new_device\<lparr>carrier_ok := True\<rparr>)) [] 0"
    by (simp add: new_device_def sg17_probe_def Let_def sg17_tranceiver_down_def probe_ring_def empty_ring_of_def sg_holds_def)
  from sg17_start_xmit_queues [OF this, of "\<lparr>skb_id = 9, skb_len = 100, skb_bus = 0x8000\<rparr>" None] show ?thesis
    using new_device_probed by (auto simp: probed_def)
qed

text \<open>Closing a device takes back only the buffers that the card has processed, and starts the
  stopped queue again. The others stay in the rings, mapped; opening it again forgets them: they are neither released nor
  in a ring, and their mappings stay.\<close>

theorem sg17_reopen_leaks:
  assumes "nic_holds nl lt qt ct lr qr cr" "fresh_alloc alloc" "sg17_close nl = Some (e, nl1)"
    "sg17_open alloc nl1 = Some (e', nl2)"
  shows "\<exists>ps. freed nl2 = freed nl @ map fst (take cr qr) @ map fst (take ct qt) \<and> taken nl2 = taken nl @ ps \<and>
    delivered nl2 = delivered nl \<and> queue_stopped nl1 = (length (drop ct qt) = 7) \<and>
    nic_holds nl2 (lt + mset (map (\<lambda>(skb, l). dma_map_of TX_RING skb) (drop ct qt))) [] 0
      (lr + mset (map (\<lambda>(skb, l). dma_map_of RX_RING skb) (drop cr qr))) (map (\<lambda>skb. (skb, 0)) ps) 0"
proof -
  have c: "taken nl1 = taken nl" "delivered nl1 = delivered nl"
    "freed nl1 = freed nl @ map fst (take cr qr) @ map fst (take ct qt)" "queue_stopped nl1 = (length (drop ct qt) = 7)"
    "nic_holds nl1 lt (drop ct qt) 0 lr (drop cr qr) 0"
    using close_drops [OF assms(1)] assms(3) by auto
  have r: "sg_holds TX_RING lt (nl_tx nl1) (drop ct qt) 0" "sg_holds RX_RING lr (nl_rx nl1) (drop cr qr) 0"
    using c(5) by (simp_all add: nic_holds_def)
  have m: "mset (mapped (nl_tx nl1)) = lt + mset (map (\<lambda>(skb, l). dma_map_of TX_RING skb) (drop ct qt))"
    "mset (mapped (nl_rx nl1)) = lr + mset (map (\<lambda>(skb, l). dma_map_of RX_RING skb) (drop cr qr))"
    using r unfolding sg_holds_def by blast+
  from open_fills [OF holds_ready [OF r(1)] holds_ready [OF r(2)] assms(2)] assms(4) show ?thesis
    unfolding m c(1-3) using c(4) by auto
qed

theorem sg17_reopen_leaks_witness:
  "\<exists>nl lr qr nl2 ps. qr \<noteq> [] \<and> nic_holds nl {#} [] 0 lr qr 0 \<and> freed nl2 = freed nl \<and> taken nl2 = taken nl @ ps \<and>
     nic_holds nl2 {#} [] 0 (lr + mset (map (\<lambda>(skb, l). dma_map_of RX_RING skb) qr)) (map (\<lambda>skb. (skb, 0)) ps) 0"
proof -
  have "ring_ready TX_RING (nl_tx new_device)" "ring_ready RX_RING (nl_rx new_device)" "mapped (nl_tx new_device) = []"
    using new_device_probed by (simp_all add: probed_def)
  with open_fills [OF _ _ five_buffers_fresh] obtain nl lr ps where
    h: "nic_holds nl {#} [] 0 lr (map (\<lambda>skb. (skb, 0)) ps) 0" "length ps = 7 \<or> five_buffers (length ps) = None"
    by (metis mset.simps(1))
  define qr where "qr = map (\<lambda>skb. (skb, 0 :: u32)) ps"
  have ne: "qr \<noteq> []" using h(2) by (auto simp: five_buffers_def qr_def)
  note hq = h(1) [folded qr_def]
  from close_drops [OF hq] obtain nl1 where c: "sg17_close nl = Some (0, nl1)" "nic_holds nl1 {#} (drop 0 []) 0 lr (drop 0 qr) 0"
    by blast
  from c(2) have "ring_ready TX_RING (nl_tx nl1)" "ring_ready RX_RING (nl_rx nl1)"
    unfolding nic_holds_def using holds_ready by blast+
  from open_fills [OF this five_buffers_fresh] obtain nl2 where "sg17_open five_buffers nl1 = Some (0, nl2)" by blast
  from sg17_reopen_leaks [OF hq five_buffers_fresh c(1) this] obtain ps2 where
    "freed nl2 = freed nl" "taken nl2 = taken nl @ ps2"
      "nic_holds nl2 {#} [] 0 (lr + mset (map (\<lambda>(skb, l). dma_map_of RX_RING skb) qr)) (map (\<lambda>skb. (skb, 0)) ps2) 0"
    by auto
  then show ?thesis using hq ne by blast
qed

end
