(* ===== verification/EocRing.thy ===== *)
theory EocRing
  imports Ring
begin

text \<open>
  The ring of messages of the SHDSL embedded operations channel (\<open>eoc_ring.c\<close>, \<open>ring_buf.h\<close>,
  \<open>sg17eoc.h\<close>): a message is collected from blocks in the slot at the tail and taken as a whole
  at the head. A block is its contents; \<open>ok\<close> is the outcome of an allocation. The debugging
  output is left out.
\<close>

section \<open>State\<close>

abbreviation RING_SIZE :: nat where "RING_SIZE \<equiv> 64"
abbreviation MAX_SBUFS :: nat where "MAX_SBUFS \<equiv> 16"
abbreviation ENOMEM :: int where "ENOMEM \<equiv> 12"

record rbuf_buf =
  b_ptr :: "u8 list list"
  b_size :: "u16 list"
  b_used :: nat

record ring_buf =
  r_rb :: "rbuf_buf list"
  r_head :: nat
  r_tail :: nat

section \<open>Operations\<close>

definition inc_index :: "nat \<Rightarrow> nat" where
  "inc_index ind = (if ind + 1 < RING_SIZE then ind + 1 else 0)"

definition rbuf_free_buf :: "rbuf_buf \<Rightarrow> rbuf_buf" where
  "rbuf_free_buf cur = cur\<lparr>b_used := 0\<rparr>"

definition rbuf_count_size :: "rbuf_buf \<Rightarrow> int" where
  "rbuf_count_size cur = sum_list (map (\<lambda>i. uint (b_size cur ! i)) [0..<min (b_used cur) MAX_SBUFS])"

text \<open>\<open>raw\<close>: the allocated memory, or \<open>None\<close>.\<close>

definition rbuf_init :: "rbuf_buf list option \<Rightarrow> ring_buf option" where
  "rbuf_init raw =
     (case raw of
        None \<Rightarrow> None
      | Some bs \<Rightarrow> Some \<lparr>r_rb = map (\<lambda>b. b\<lparr>b_used := 0\<rparr>) bs, r_head = 0, r_tail = 0\<rparr>)"

definition rbuf_append :: "bool \<Rightarrow> ring_buf \<Rightarrow> u8 list \<Rightarrow> int \<Rightarrow> bool \<Rightarrow> int \<times> ring_buf" where
  "rbuf_append ok r in_buf size' end_flag =
     (if inc_index (r_tail r) \<noteq> r_head r then
        (let cur = r_rb r ! r_tail r in
         if b_used cur = MAX_SBUFS then (- ENOMEM, r\<lparr>r_rb := (r_rb r)[r_tail r := rbuf_free_buf cur]\<rparr>)
         else if \<not> ok then
           (- ENOMEM, r\<lparr>r_rb := (r_rb r)[r_tail r := cur\<lparr>b_ptr := (b_ptr cur)[b_used cur := []]\<rparr>]\<rparr>)
         else
           (let cur = cur\<lparr>b_ptr := (b_ptr cur)[b_used cur := take (nat size') in_buf],
                          b_size := (b_size cur)[b_used cur := word_of_int size'],
                          b_used := b_used cur + 1\<rparr>;
                r = r\<lparr>r_rb := (r_rb r)[r_tail r := cur]\<rparr>;
                r = (if end_flag then r\<lparr>r_tail := inc_index (r_tail r)\<rparr> else r)
            in (0, r)))
      else (-1, r))"

definition rbuf_abort_new :: "ring_buf \<Rightarrow> ring_buf" where
  "rbuf_abort_new r =
     (if inc_index (r_tail r) \<noteq> r_head r
      then r\<lparr>r_rb := (r_rb r)[r_head r := rbuf_free_buf (r_rb r ! r_head r)]\<rparr>
      else r)"

definition rbuf_get_cur :: "bool \<Rightarrow> ring_buf \<Rightarrow> int \<times> u8 list \<times> ring_buf" where
  "rbuf_get_cur ok r =
     (if r_head r \<noteq> r_tail r then
        (let cur = r_rb r ! r_head r; size' = rbuf_count_size cur in
         if \<not> ok then (-1, [], r)
         else
           (size', concat (map (\<lambda>i. take (unat (b_size cur ! i)) (b_ptr cur ! i)) [0..<b_used cur]),
            r\<lparr>r_rb := (r_rb r)[r_head r := rbuf_free_buf cur], r_head := inc_index (r_head r)\<rparr>))
      else (-1, [], r))"

text \<open>\<open>rbuf_free\<close> only walks to the tail; the calls that free memory are commented out.\<close>

function rbuf_free :: "ring_buf \<Rightarrow> ring_buf" where
  "rbuf_free r =
     (if r_head r \<noteq> r_tail r \<and> r_head r < RING_SIZE \<and> r_tail r < RING_SIZE
      then rbuf_free (r\<lparr>r_head := inc_index (r_head r)\<rparr>) else r)"
  by auto

termination
  by (relation "measure (\<lambda>r. (r_tail r + RING_SIZE - r_head r) mod RING_SIZE)")
    (auto simp: inc_index_def mod_if split: if_splits)

declare rbuf_free.simps [simp del]

section \<open>Messages in the ring\<close>

definition buf_ok :: "rbuf_buf \<Rightarrow> bool" where
  "buf_ok b \<longleftrightarrow>
     length (b_ptr b) = MAX_SBUFS \<and> length (b_size b) = MAX_SBUFS \<and> b_used b \<le> MAX_SBUFS \<and>
     (\<forall>i < b_used b. length (b_ptr b ! i) = unat (b_size b ! i))"

definition blocks :: "rbuf_buf \<Rightarrow> u8 list list" where
  "blocks b = take (b_used b) (b_ptr b)"

definition queued :: "ring_buf \<Rightarrow> nat" where
  "queued r = (r_tail r + RING_SIZE - r_head r) mod RING_SIZE"

definition eoc_holds :: "ring_buf \<Rightarrow> u8 list list list \<Rightarrow> u8 list list \<Rightarrow> bool" where
  "eoc_holds r msgs part \<longleftrightarrow>
     length (r_rb r) = RING_SIZE \<and> r_head r < RING_SIZE \<and> r_tail r < RING_SIZE \<and>
     (\<forall>b \<in> set (r_rb r). buf_ok b) \<and>
     map blocks (segment (r_rb r) RING_SIZE (r_head r) (queued r)) = msgs \<and>
     blocks (r_rb r ! r_tail r) = part \<and>
     (\<forall>j. queued r < j \<and> j < RING_SIZE \<longrightarrow> b_used (r_rb r ! ((r_head r + j) mod RING_SIZE)) = 0)"

lemma inc_index_mod: "i < RING_SIZE \<Longrightarrow> inc_index i = (i + 1) mod RING_SIZE"
  by (auto simp: inc_index_def mod_if)

lemma tail_pos:
  assumes "r_head r < RING_SIZE" "r_tail r < RING_SIZE"
  shows "r_tail r = (r_head r + queued r) mod RING_SIZE" "queued r < RING_SIZE"
  using assms by (auto simp: queued_def mod_if)

lemma queued_eqI:
  assumes "r_head r < RING_SIZE" "r_tail r < RING_SIZE" "r_tail r = (r_head r + k) mod RING_SIZE" "k < RING_SIZE"
  shows "queued r = k"
  using ring_inj [of "queued r" RING_SIZE k "r_head r"] tail_pos [OF assms(1,2)] assms(3,4) by simp

lemma ring_is_full:
  assumes "r_head r < RING_SIZE" "r_tail r < RING_SIZE"
  shows "inc_index (r_tail r) = r_head r \<longleftrightarrow> queued r = 63"
  using assms by (auto simp: queued_def inc_index_def mod_if)

lemma ring_is_empty:
  assumes "r_head r < RING_SIZE" "r_tail r < RING_SIZE"
  shows "r_head r = r_tail r \<longleftrightarrow> queued r = 0"
  using assms by (auto simp: queued_def mod_if)

lemma eoc_holds_facts:
  assumes "eoc_holds r msgs part"
  shows "length (r_rb r) = RING_SIZE" "r_head r < RING_SIZE" "r_tail r < RING_SIZE" "queued r = length msgs"
    "length msgs < RING_SIZE" "buf_ok (r_rb r ! r_tail r)" "length part = b_used (r_rb r ! r_tail r)"
    "blocks (r_rb r ! r_tail r) = part" "r_tail r = (r_head r + length msgs) mod RING_SIZE"
    "length part \<le> MAX_SBUFS"
proof -
  show l: "length (r_rb r) = RING_SIZE" and h: "r_head r < RING_SIZE" and t: "r_tail r < RING_SIZE"
    using assms unfolding eoc_holds_def by blast+
  have "length (map blocks (segment (r_rb r) RING_SIZE (r_head r) (queued r))) = length msgs"
    using assms unfolding eoc_holds_def by metis
  then show q: "queued r = length msgs" by simp
  show "length msgs < RING_SIZE" "r_tail r = (r_head r + length msgs) mod RING_SIZE"
    using tail_pos [OF h t] unfolding q by simp_all
  have "r_rb r ! r_tail r \<in> set (r_rb r)" using l t by simp
  then show b: "buf_ok (r_rb r ! r_tail r)" using assms unfolding eoc_holds_def by blast
  show p: "blocks (r_rb r ! r_tail r) = part" using assms unfolding eoc_holds_def by blast
  show "length part = b_used (r_rb r ! r_tail r)" "length part \<le> MAX_SBUFS"
    using b unfolding p [symmetric] by (auto simp: blocks_def buf_ok_def)
qed

lemma eoc_free_slot:
  assumes "eoc_holds r msgs part" "length msgs < j" "j < RING_SIZE"
  shows "b_used (r_rb r ! ((r_head r + j) mod RING_SIZE)) = 0"
proof -
  have "queued r < j" using eoc_holds_facts(4) [OF assms(1)] assms(2) by simp
  with assms(1,3) show ?thesis unfolding eoc_holds_def by simp
qed

text \<open>Writing the slot at the tail, completing the message in it, taking the one at the head.\<close>

lemma eoc_set_tail:
  assumes "eoc_holds r msgs part" "buf_ok b"
  shows "eoc_holds (r\<lparr>r_rb := (r_rb r)[r_tail r := b]\<rparr>) msgs (blocks b)"
proof -
  note f = eoc_holds_facts [OF assms(1)]
  let ?r = "r\<lparr>r_rb := (r_rb r)[r_tail r := b]\<rparr>"
  have q: "queued ?r = length msgs" using f(4) by (simp add: queued_def)
  have seg: "segment ((r_rb r)[r_tail r := b]) RING_SIZE (r_head r) (length msgs) =
      segment (r_rb r) RING_SIZE (r_head r) (length msgs)"
    using segment_update_outside [of "length msgs" "length msgs" RING_SIZE "r_rb r" "r_head r" b] f(5,9) by simp
  have other: "b_used (r_rb r ! ((r_head r + j) mod RING_SIZE)) = 0" if "length msgs < j" "j < RING_SIZE" for j
    by (rule eoc_free_slot [OF assms(1) that])
  have rest: "b_used ((r_rb r)[r_tail r := b] ! ((r_head r + j) mod RING_SIZE)) = 0"
    if j: "length msgs < j" "j < RING_SIZE" for j
  proof -
    have "r_tail r \<noteq> (r_head r + j) mod RING_SIZE"
      using ring_inj [of j RING_SIZE "length msgs" "r_head r"] f(5,9) j by auto
    then show ?thesis using other [OF j] by simp
  qed
  have ok: "\<forall>b' \<in> set ((r_rb r)[r_tail r := b]). buf_ok b'"
    using assms set_update_subset_insert [of "r_rb r" "r_tail r" b] unfolding eoc_holds_def by blast
  have "map blocks (segment (r_rb r) RING_SIZE (r_head r) (length msgs)) = msgs"
    using assms(1) f(4) unfolding eoc_holds_def by simp
  then show ?thesis
    unfolding eoc_holds_def q using f(1-3) seg ok rest by simp
qed

lemma eoc_finish:
  assumes "eoc_holds r msgs part" "length msgs + 1 < RING_SIZE"
  shows "eoc_holds (r\<lparr>r_tail := inc_index (r_tail r)\<rparr>) (msgs @ [part]) []"
proof -
  note f = eoc_holds_facts [OF assms(1)]
  let ?r = "r\<lparr>r_tail := inc_index (r_tail r)\<rparr>"
  have t: "inc_index (r_tail r) = (r_head r + Suc (length msgs)) mod RING_SIZE"
    using f(9) inc_index_mod [OF f(3)] by (simp add: mod_Suc_eq)
  have q: "queued ?r = Suc (length msgs)"
    by (rule queued_eqI) (use f(2) t assms(2) in simp_all)
  have other: "b_used (r_rb r ! ((r_head r + j) mod RING_SIZE)) = 0" if "length msgs < j" "j < RING_SIZE" for j
    by (rule eoc_free_slot [OF assms(1) that])
  have "blocks (r_rb r ! inc_index (r_tail r)) = []"
    using other [of "Suc (length msgs)"] assms(2) t by (simp add: blocks_def)
  moreover have "map blocks (segment (r_rb r) RING_SIZE (r_head r) (Suc (length msgs))) = msgs @ [part]"
  proof -
    have "map blocks (segment (r_rb r) RING_SIZE (r_head r) (length msgs)) = msgs"
      using assms(1) f(4) unfolding eoc_holds_def by simp
    then show ?thesis using f(8,9) by (simp add: segment_Suc)
  qed
  moreover have "\<forall>b \<in> set (r_rb r). buf_ok b" using assms(1) unfolding eoc_holds_def by blast
  ultimately show ?thesis
    unfolding eoc_holds_def q using f(1,2) t other by simp
qed

lemma eoc_take:
  assumes "eoc_holds r (m # msgs) part"
  shows "blocks (r_rb r ! r_head r) = m" "buf_ok (r_rb r ! r_head r)"
    "eoc_holds (r\<lparr>r_rb := (r_rb r)[r_head r := rbuf_free_buf (r_rb r ! r_head r)],
       r_head := inc_index (r_head r)\<rparr>) msgs part"
proof -
  note f = eoc_holds_facts [OF assms]
  let ?b = "rbuf_free_buf (r_rb r ! r_head r)" and ?h = "inc_index (r_head r)"
  let ?r = "r\<lparr>r_rb := (r_rb r)[r_head r := ?b], r_head := ?h\<rparr>"
  have all: "\<forall>b \<in> set (r_rb r). buf_ok b" using assms unfolding eoc_holds_def by blast
  have "r_rb r ! r_head r \<in> set (r_rb r)" using f(1,2) by simp
  then show ok: "buf_ok (r_rb r ! r_head r)" using all by blast
  then have "buf_ok ?b" by (simp add: buf_ok_def rbuf_free_buf_def)
  then have all': "\<forall>b \<in> set ((r_rb r)[r_head r := ?b]). buf_ok b"
    using all set_update_subset_insert [of "r_rb r" "r_head r" ?b] by blast
  have h: "?h = Suc (r_head r) mod RING_SIZE" using inc_index_mod [OF f(2)] by simp
  have seg: "map blocks (segment (r_rb r) RING_SIZE (r_head r) (Suc (length msgs))) = m # msgs"
    using assms f(4) unfolding eoc_holds_def by simp
  then show "blocks (r_rb r ! r_head r) = m" using f(2) by (simp add: segment_Cons)
  have tl: "map blocks (segment (r_rb r) RING_SIZE (Suc (r_head r)) (length msgs)) = msgs"
    using seg by (simp add: segment_Cons)
  have "(Suc (r_head r) + 63) mod RING_SIZE = r_head r" using f(2) by simp
  then have upd: "segment ((r_rb r)[r_head r := ?b]) RING_SIZE (Suc (r_head r)) (length msgs) =
      segment (r_rb r) RING_SIZE (Suc (r_head r)) (length msgs)"
    using segment_update_outside [of "length msgs" 63 RING_SIZE "r_rb r" "Suc (r_head r)" ?b] f(5) by simp
  have q: "queued ?r = length msgs"
    by (rule queued_eqI) (use f(3,5,9) h in \<open>simp_all add: mod_add_left_eq mod_Suc_eq\<close>)
  have ne: "r_head r \<noteq> r_tail r" using ring_is_empty [OF f(2,3)] f(4) by simp
  have rest: "b_used ((r_rb r)[r_head r := ?b] ! ((?h + j) mod RING_SIZE)) = 0"
    if j: "length msgs < j" "j < RING_SIZE" for j
  proof -
    have e: "(?h + j) mod RING_SIZE = (r_head r + Suc j) mod RING_SIZE" by (simp add: h mod_add_left_eq)
    show ?thesis
    proof (cases "Suc j = RING_SIZE")
      case True
      then have "(?h + j) mod RING_SIZE = r_head r" using e f(2) by simp
      then show ?thesis using f(1,2) by (simp add: rbuf_free_buf_def)
    next
      case False
      then have "Suc j < RING_SIZE" using j by simp
      then have "b_used (r_rb r ! ((r_head r + Suc j) mod RING_SIZE)) = 0"
        using eoc_free_slot [OF assms, of "Suc j"] j by simp
      then show ?thesis using e f(1,2)
        by (cases "r_head r = (?h + j) mod RING_SIZE") (simp_all add: rbuf_free_buf_def)
    qed
  qed
  have "blocks ((r_rb r)[r_head r := ?b] ! r_tail r) = part" using f(8) ne by simp
  moreover have "map blocks (segment ((r_rb r)[r_head r := ?b]) RING_SIZE ?h (length msgs)) = msgs"
    unfolding h segment_mod upd by (rule tl)
  moreover have "?h < RING_SIZE" using h by simp
  ultimately show "eoc_holds ?r msgs part"
    unfolding eoc_holds_def q using f(1,3) all' rest by simp
qed

section \<open>The operations on messages\<close>

lemma append_buf_ok:
  assumes "buf_ok b" "b_used b < MAX_SBUFS" "0 \<le> n" "n < 65536" "nat n \<le> length buf"
  defines "b' \<equiv> b\<lparr>b_ptr := (b_ptr b)[b_used b := take (nat n) buf],
      b_size := (b_size b)[b_used b := word_of_int n], b_used := b_used b + 1\<rparr>"
  shows "buf_ok b'" "blocks b' = blocks b @ [take (nat n) buf]"
proof -
  have "unat (word_of_int n :: u16) = nat n" using assms(3,4) by (simp add: unat_eq_nat_uint uint_word_of_int)
  then show "buf_ok b'" using assms by (auto simp: buf_ok_def less_Suc_eq nth_list_update)
  show "blocks b' = blocks b @ [take (nat n) buf]"
    using assms(1,2) by (simp add: b'_def blocks_def buf_ok_def take_Suc_conv_app_nth)
qed

lemma int_length_concat: "int (length (concat xss)) = sum_list (map (\<lambda>xs. int (length xs)) xss)"
  by (induction xss) simp_all

lemma message_size:
  assumes "buf_ok b"
  shows "rbuf_count_size b = int (length (concat (blocks b)))"
    "concat (map (\<lambda>i. take (unat (b_size b ! i)) (b_ptr b ! i)) [0..<b_used b]) = concat (blocks b)"
proof -
  have l: "length (b_ptr b ! i) = unat (b_size b ! i)" if "i < b_used b" for i
    using assms that by (auto simp: buf_ok_def)
  have u: "b_used b \<le> MAX_SBUFS" "length (b_ptr b) = MAX_SBUFS" using assms by (auto simp: buf_ok_def)
  have bl: "blocks b = map (\<lambda>i. b_ptr b ! i) [0..<b_used b]"
    using u by (intro nth_equalityI) (auto simp: blocks_def)
  show "concat (map (\<lambda>i. take (unat (b_size b ! i)) (b_ptr b ! i)) [0..<b_used b]) = concat (blocks b)"
    unfolding bl by (rule arg_cong [of _ _ concat]) (auto simp: l)
  have "rbuf_count_size b = sum_list (map (\<lambda>i. int (length (b_ptr b ! i))) [0..<b_used b])"
    unfolding rbuf_count_size_def min_absorb1 [OF u(1)]
    by (rule arg_cong [of _ _ sum_list]) (auto simp: l)
  also have "\<dots> = int (length (concat (blocks b)))"
    unfolding bl by (simp add: int_length_concat o_def)
  finally show "rbuf_count_size b = int (length (concat (blocks b)))" .
qed

definition append_spec ::
  "u8 list list list \<Rightarrow> u8 list list \<Rightarrow> bool \<Rightarrow> u8 list \<Rightarrow> bool \<Rightarrow> ring_buf \<Rightarrow> int \<times> ring_buf \<Rightarrow> bool" where
  "append_spec msgs part ok block end_flag r res \<longleftrightarrow>
     (if length msgs + 1 = RING_SIZE then res = (-1, r)
      else if length part = MAX_SBUFS then fst res = - ENOMEM \<and> eoc_holds (snd res) msgs []
      else if \<not> ok then fst res = - ENOMEM \<and> eoc_holds (snd res) msgs part
      else fst res = 0 \<and>
        (if end_flag then eoc_holds (snd res) (msgs @ [part @ [block]]) []
         else eoc_holds (snd res) msgs (part @ [block])))"

definition get_spec ::
  "u8 list list list \<Rightarrow> u8 list list \<Rightarrow> bool \<Rightarrow> ring_buf \<Rightarrow> int \<times> u8 list \<times> ring_buf \<Rightarrow> bool" where
  "get_spec msgs part ok r res \<longleftrightarrow>
     (case msgs of
        [] \<Rightarrow> res = (-1, [], r)
      | m # ms \<Rightarrow>
          if ok then fst res = int (length (concat m)) \<and> fst (snd res) = concat m \<and> eoc_holds (snd (snd res)) ms part
          else res = (-1, [], r))"

lemma rbuf_append_spec:
  assumes h: "eoc_holds r msgs part" and n: "0 \<le> n" "n < 65536" "nat n \<le> length buf"
  shows "append_spec msgs part ok (take (nat n) buf) end_flag r (rbuf_append ok r buf n end_flag)"
proof -
  note f = eoc_holds_facts [OF h]
  let ?b = "r_rb r ! r_tail r"
  have full: "inc_index (r_tail r) = r_head r \<longleftrightarrow> length msgs + 1 = RING_SIZE"
    using ring_is_full [OF f(2,3)] f(4) by auto
  consider "length msgs + 1 = RING_SIZE" | "length msgs + 1 \<noteq> RING_SIZE" "length part = MAX_SBUFS"
    | "length msgs + 1 \<noteq> RING_SIZE" "length part \<noteq> MAX_SBUFS" "\<not> ok"
    | "length msgs + 1 \<noteq> RING_SIZE" "length part \<noteq> MAX_SBUFS" ok by blast
  then show ?thesis
  proof cases
    case 1
    with full show ?thesis by (simp add: append_spec_def rbuf_append_def)
  next
    case 2
    have "buf_ok (rbuf_free_buf ?b)" using f(6) by (simp add: buf_ok_def rbuf_free_buf_def)
    moreover have "blocks (rbuf_free_buf ?b) = []" by (simp add: blocks_def rbuf_free_buf_def)
    ultimately have "eoc_holds (r\<lparr>r_rb := (r_rb r)[r_tail r := rbuf_free_buf ?b]\<rparr>) msgs []"
      using eoc_set_tail [OF h] by metis
    with 2 full f(7) show ?thesis by (simp add: append_spec_def rbuf_append_def Let_def)
  next
    case 3
    let ?b' = "?b\<lparr>b_ptr := (b_ptr ?b)[b_used ?b := []]\<rparr>"
    have "buf_ok ?b'" using f(6) by (auto simp: buf_ok_def nth_list_update)
    moreover have "blocks ?b' = part" using f(8) by (simp add: blocks_def)
    ultimately have "eoc_holds (r\<lparr>r_rb := (r_rb r)[r_tail r := ?b']\<rparr>) msgs part"
      using eoc_set_tail [OF h] by metis
    with 3 full f(7) show ?thesis by (simp add: append_spec_def rbuf_append_def Let_def)
  next
    case 4
    define b' where "b' = ?b\<lparr>b_ptr := (b_ptr ?b)[b_used ?b := take (nat n) buf],
        b_size := (b_size ?b)[b_used ?b := word_of_int n], b_used := b_used ?b + 1\<rparr>"
    have "b_used ?b < MAX_SBUFS" using 4 f(7,10) by simp
    note b' = append_buf_ok [OF f(6) this n, folded b'_def]
    have "eoc_holds (r\<lparr>r_rb := (r_rb r)[r_tail r := b']\<rparr>) msgs (blocks b')" by (rule eoc_set_tail [OF h b'(1)])
    then have put: "eoc_holds (r\<lparr>r_rb := (r_rb r)[r_tail r := b']\<rparr>) msgs (part @ [take (nat n) buf])"
      using b'(2) f(8) by simp
    have run: "rbuf_append ok r buf n end_flag =
        (0, if end_flag then r\<lparr>r_rb := (r_rb r)[r_tail r := b'], r_tail := inc_index (r_tail r)\<rparr>
            else r\<lparr>r_rb := (r_rb r)[r_tail r := b']\<rparr>)"
      using 4 full f(7) by (simp add: rbuf_append_def b'_def Let_def)
    have lt: "length msgs + 1 < RING_SIZE" using 4 f(5) by simp
    show ?thesis
    proof (cases end_flag)
      case True
      then show ?thesis using eoc_finish [OF put lt] 4 run by (simp add: append_spec_def)
    qed (use put 4 run in \<open>simp add: append_spec_def\<close>)
  qed
qed

lemma rbuf_get_cur_spec:
  assumes h: "eoc_holds r msgs part"
  shows "get_spec msgs part ok r (rbuf_get_cur ok r)"
proof -
  note f = eoc_holds_facts [OF h]
  have e: "r_head r = r_tail r \<longleftrightarrow> msgs = []" using ring_is_empty [OF f(2,3)] f(4) by simp
  show ?thesis
  proof (cases msgs)
    case Nil
    then show ?thesis using e by (simp add: get_spec_def rbuf_get_cur_def)
  next
    case (Cons m ms)
    note t = eoc_take [OF h [unfolded Cons]]
    show ?thesis
      using e Cons t message_size [OF t(2)] by (simp add: get_spec_def rbuf_get_cur_def Let_def)
  qed
qed

text \<open>Giving up the message being received clears the slot at the head.\<close>

lemma rbuf_abort_new_holds:
  assumes h: "eoc_holds r msgs part" and room: "length msgs + 1 < RING_SIZE"
  shows "eoc_holds (rbuf_abort_new r) (case msgs of [] \<Rightarrow> [] | m # ms \<Rightarrow> [] # ms)
    (case msgs of [] \<Rightarrow> [] | _ \<Rightarrow> part)"
proof -
  note f = eoc_holds_facts [OF h]
  have nf: "inc_index (r_tail r) \<noteq> r_head r" using ring_is_full [OF f(2,3)] f(4) room by auto
  let ?b = "rbuf_free_buf (r_rb r ! r_head r)"
  have all: "\<forall>b \<in> set (r_rb r). buf_ok b" using h unfolding eoc_holds_def by blast
  have "r_rb r ! r_head r \<in> set (r_rb r)" using f(1,2) by simp
  then have b: "buf_ok ?b" using all by (auto simp: buf_ok_def rbuf_free_buf_def)
  have bb: "blocks ?b = []" by (simp add: blocks_def rbuf_free_buf_def)
  show ?thesis
  proof (cases msgs)
    case Nil
    then have "r_head r = r_tail r" using ring_is_empty [OF f(2,3)] f(4) by simp
    then show ?thesis using eoc_set_tail [OF h b] nf Nil bb by (simp add: rbuf_abort_new_def)
  next
    case (Cons m ms)
    let ?r = "r\<lparr>r_rb := (r_rb r)[r_head r := ?b]\<rparr>"
    have ne: "r_head r \<noteq> r_tail r" using ring_is_empty [OF f(2,3)] f(4) Cons by simp
    have q: "queued ?r = Suc (length ms)" using f(4) Cons by (simp add: queued_def)
    have old: "map blocks (segment (r_rb r) RING_SIZE (r_head r) (Suc (length ms))) = m # ms"
      using h f(4) Cons unfolding eoc_holds_def by simp
    have "segment ((r_rb r)[(r_head r + 0) mod RING_SIZE := ?b]) RING_SIZE (r_head r) (Suc (length ms)) =
        (segment (r_rb r) RING_SIZE (r_head r) (Suc (length ms)))[0 := ?b]"
      by (rule segment_update_inside) (use f(1,5) Cons in simp_all)
    then have seg: "map blocks (segment ((r_rb r)[r_head r := ?b]) RING_SIZE (r_head r) (Suc (length ms))) = [] # ms"
      using old f(2) bb by (simp add: map_update segment_Cons)
    have rest: "b_used ((r_rb r)[r_head r := ?b] ! ((r_head r + j) mod RING_SIZE)) = 0"
      if j: "Suc (length ms) < j" "j < RING_SIZE" for j
    proof -
      have "b_used (r_rb r ! ((r_head r + j) mod RING_SIZE)) = 0"
        using eoc_free_slot [OF h, of j] j Cons by simp
      then show ?thesis using f(1,2)
        by (cases "r_head r = (r_head r + j) mod RING_SIZE") (simp_all add: rbuf_free_buf_def)
    qed
    have "\<forall>b \<in> set ((r_rb r)[r_head r := ?b]). buf_ok b"
      using all b set_update_subset_insert [of "r_rb r" "r_head r" ?b] by blast
    then have "eoc_holds ?r ([] # ms) part"
      unfolding eoc_holds_def q using f(1-3,8) ne seg rest by simp
    then show ?thesis using nf Cons by (simp add: rbuf_abort_new_def)
  qed
qed

lemma rbuf_init_holds:
  assumes "length raw = RING_SIZE" "\<forall>b \<in> set raw. length (b_ptr b) = MAX_SBUFS \<and> length (b_size b) = MAX_SBUFS"
  shows "\<exists>r. rbuf_init (Some raw) = Some r \<and> eoc_holds r [] []"
proof -
  have "b_used (map (\<lambda>b. b\<lparr>b_used := 0\<rparr>) raw ! i) = 0" if "i < RING_SIZE" for i
    using assms(1) that by simp
  then show ?thesis
    using assms by (auto simp: rbuf_init_def eoc_holds_def buf_ok_def queued_def blocks_def)
qed

text \<open>A ring as initialised, and one with a message and a part of the next.\<close>

definition empty_ring :: ring_buf where
  "empty_ring = \<lparr>r_rb = replicate RING_SIZE \<lparr>b_ptr = replicate MAX_SBUFS [], b_size = replicate MAX_SBUFS 0, b_used = 0\<rparr>,
     r_head = 0, r_tail = 0\<rparr>"

definition busy_ring :: ring_buf where
  "busy_ring = snd (rbuf_append True (snd (rbuf_append True empty_ring [7] 1 True)) [8, 9] 2 False)"

lemma empty_ring_holds: "eoc_holds empty_ring [] []"
  by (auto simp: empty_ring_def eoc_holds_def buf_ok_def queued_def blocks_def)

lemma busy_ring_holds: "eoc_holds busy_ring [[[7]]] [[8, 9]]"
proof -
  have "append_spec [] [] True (take (nat 1) [7]) True empty_ring (rbuf_append True empty_ring [7] 1 True)"
    by (rule rbuf_append_spec [OF empty_ring_holds]) simp_all
  then have one: "eoc_holds (snd (rbuf_append True empty_ring [7] 1 True)) [[[7]]] []" by (simp add: append_spec_def)
  have "append_spec [[[7]]] [] True (take (nat 2) [8, 9]) False (snd (rbuf_append True empty_ring [7] 1 True)) 
      (rbuf_append True (snd (rbuf_append True empty_ring [7] 1 True)) [8, 9] 2 False)"
    by (rule rbuf_append_spec [OF one]) simp_all
  then show ?thesis by (simp add: append_spec_def busy_ring_def)
qed

section \<open>Properties\<close>

text \<open>C8: The ring refines a queue of messages with one partial message behind it. Adding a block
  appends it to the partial message and the end flag completes that message; a full ring refuses
  the block, a message of 16 blocks is given up, and without memory nothing changes. Reading takes
  the oldest complete message as the concatenation of its blocks and returns its length; without a
  message or without memory it returns -1 and changes nothing.\<close>

theorem eoc_ring_refines:
  assumes "eoc_holds r msgs part" "0 \<le> n" "n < 65536" "nat n \<le> length buf"
  shows "append_spec msgs part ok (take (nat n) buf) end_flag r (rbuf_append ok r buf n end_flag) \<and>
    get_spec msgs part ok r (rbuf_get_cur ok r)"
  using rbuf_append_spec [OF assms] rbuf_get_cur_spec [OF assms(1)] by blast

theorem eoc_ring_refines_witness:
  "append_spec [[[7]]] [[8, 9]] True [10] True busy_ring (rbuf_append True busy_ring [10, 11] 1 True) \<and>
   get_spec [[[7]]] [[8, 9]] True busy_ring (rbuf_get_cur True busy_ring)"
  using eoc_ring_refines [OF busy_ring_holds, of 1 "[10, 11]" True True] by simp

text \<open>Giving up the message being received, while complete messages wait: the oldest complete
  message is emptied, the next read returns it with no byte, and the partial message that was to be
  given up is kept.\<close>

theorem eoc_abort_drops:
  assumes "eoc_holds r (m # msgs) part" "length msgs + 2 < RING_SIZE"
  shows "case rbuf_get_cur True (rbuf_abort_new r) of
    (n, out, r') \<Rightarrow> n = 0 \<and> out = [] \<and> eoc_holds r' msgs part"
proof -
  have "eoc_holds (rbuf_abort_new r) ([] # msgs) part" using rbuf_abort_new_holds [OF assms(1)] assms(2) by simp
  from rbuf_get_cur_spec [OF this, of True] show ?thesis by (auto simp: get_spec_def split: prod.splits)
qed

theorem eoc_abort_drops_witness:
  "case rbuf_get_cur True (rbuf_abort_new busy_ring) of
     (n, out, r') \<Rightarrow> n = 0 \<and> out = [] \<and> eoc_holds r' [] [[8, 9]]"
  by (rule eoc_abort_drops [OF busy_ring_holds]) simp

end
