(* ===== verification/Sdfe4.thy ===== *)
theory Sdfe4
  imports EocRing
begin

text \<open>
  The control library of the SHDSL chip set (\<open>sdfe4_lib.c\<close>, PCI variant): messages from the chip,
  the state of the channels, their monitor, and sending and receiving on the embedded operations
  channel. The host is little-endian and \<open>char\<close> is signed. Sending a message over HDLC is the
  list of the bytes sent; what the chip answers to a command is an argument.
\<close>

section \<open>State\<close>

text \<open>The bit fields: \<open>state\<close> has 3 bits, \<open>conn_state\<close> 5, \<open>eoc_tx\<close> 2.\<close>

record sdfe4_channel =
  ch_state :: "3 word"
  ch_state_change :: bool
  ch_conn_state :: "5 word"
  ch_conn_state_change :: bool
  ch_sdi_dpll_sync :: bool
  ch_enabled :: bool
  ch_eoc :: ring_buf
  ch_eoc_tx :: "2 word"
  ch_perf_prims :: u8

record sdfe4 =
  msg_cntr :: u8
  hw_ch :: "sdfe4_channel list"
  need_reconf :: "bool list"

record sdfe4_msg =
  m_len :: int
  m_buf :: "u8 list"

abbreviation SDFE4_FIFO8 :: nat where "SDFE4_FIFO8 \<equiv> 128"
abbreviation EMB_HDR :: nat where "EMB_HDR \<equiv> 8"

definition MAIN_INIT :: "3 word" where "MAIN_INIT = 0"
definition MAIN_CORE_ACT :: "3 word" where "MAIN_CORE_ACT = 2"
definition MAIN_DATA_MODE :: "3 word" where "MAIN_DATA_MODE = 3"
definition EOC_TX_READY :: "2 word" where "EOC_TX_READY = 2"
definition EOC_TX_FRAME :: "2 word" where "EOC_TX_FRAME = 3"

section \<open>Messages from the chip\<close>

definition sdfe4_msg_init :: "sdfe4_msg \<Rightarrow> u8 list \<Rightarrow> int \<Rightarrow> int \<times> sdfe4_msg" where
  "sdfe4_msg_init msg cmsg len =
     (if len > int SDFE4_FIFO8 then (-1, msg)
      else (0, msg\<lparr>m_buf := take (nat len) cmsg @ drop (nat len) (m_buf msg), m_len := len\<rparr>))"

definition sdfe4_reset_hwdev_chan :: "sdfe4_channel \<Rightarrow> sdfe4_channel" where
  "sdfe4_reset_hwdev_chan c =
     \<lparr>ch_state = 0, ch_state_change = False, ch_conn_state = 0, ch_conn_state_change = False,
      ch_sdi_dpll_sync = False, ch_enabled = ch_enabled c, ch_eoc = ch_eoc c, ch_eoc_tx = ch_eoc_tx c,
      ch_perf_prims = 0\<rparr>"

text \<open>\<open>ptr\<close> is the memory from the block on.\<close>

definition sdfe4_eoc_init :: "bool \<Rightarrow> sdfe4_channel \<Rightarrow> u8 list \<Rightarrow> int \<Rightarrow> sdfe4_channel" where
  "sdfe4_eoc_init ok c ptr size' =
     (if size' < 4 then c
      else if ptr ! 1 \<noteq> 0 then c\<lparr>ch_eoc := rbuf_abort_new (ch_eoc c)\<rparr>
      else c\<lparr>ch_eoc := snd (rbuf_append ok (ch_eoc c) (drop 3 ptr) (sint (ptr ! 2)) (ptr ! 0 \<noteq> 0))\<rparr>)"

definition sdfe4_eoc_rx :: "bool \<Rightarrow> sdfe4_channel \<Rightarrow> int \<times> u8 list \<times> sdfe4_channel" where
  "sdfe4_eoc_rx ok c = (let (n, out, r) = rbuf_get_cur ok (ch_eoc c) in (n, out, c\<lparr>ch_eoc := r\<rparr>))"

definition PEF24624_PAMDSL_ADR :: "u8 \<Rightarrow> nat" where
  "PEF24624_PAMDSL_ADR b = unat (drop_bit 2 (b AND 0xF) AND 0xF)"

definition u16_at :: "u8 list \<Rightarrow> nat \<Rightarrow> u16" where
  "u16_at buf i = ucast (buf ! i) + 256 * ucast (buf ! (i + 1))"

definition upd_ch :: "nat \<Rightarrow> (sdfe4_channel \<Rightarrow> sdfe4_channel) \<Rightarrow> sdfe4 \<Rightarrow> sdfe4" where
  "upd_ch i f hw = hw\<lparr>hw_ch := (hw_ch hw)[i := f (hw_ch hw ! i)]\<rparr>"

definition sdfe4_pamdsl_nfc :: "bool \<Rightarrow> sdfe4_msg \<Rightarrow> sdfe4 \<Rightarrow> int \<times> sdfe4" where
  "sdfe4_pamdsl_nfc ok msg hw =
     (let ch = PEF24624_PAMDSL_ADR (m_buf msg ! 0);
          ackID = u16_at (m_buf msg) 4;
          b = m_buf msg ! EMB_HDR
      in if ackID = 0x0D04 then (0, upd_ch ch (\<lambda>c. c\<lparr>ch_state := ucast b, ch_state_change := True\<rparr>) hw)
         else if ackID = 0x0D14 then (0, upd_ch ch (\<lambda>c. c\<lparr>ch_conn_state := ucast b, ch_conn_state_change := True\<rparr>) hw)
         else if ackID = 0x855F then (0, upd_ch ch (\<lambda>c. c\<lparr>ch_sdi_dpll_sync := True\<rparr>) hw)
         else if ackID = 0x9912 then (0, upd_ch ch (\<lambda>c. c\<lparr>ch_perf_prims := b\<rparr>) hw)
         else if ackID = 0xAD02 then (0, upd_ch ch (\<lambda>c. c\<lparr>ch_eoc_tx := ucast b\<rparr>) hw)
         else if ackID = 0xA912 then
           (0, upd_ch ch (\<lambda>c. sdfe4_eoc_init ok c (drop EMB_HDR (m_buf msg)) (m_len msg - int EMB_HDR)) hw)
         else (-1, hw))"

definition sdfe4_pamdsl_ack :: "u8 \<Rightarrow> u8 \<Rightarrow> u8 list" where
  "sdfe4_pamdsl_ack ch hdr0 = [0xF1, 0xF0 OR (ch AND 0xF), hdr0, 0, 0, 0, 0, 0]"

datatype pamdsl_type = NOT_PAMDSL | PAMDSL_ACK | PAMDSL_NFC | PAMDSL_SYNC | PAMDSL_ERROR

text \<open>The result has the messages sent.\<close>

definition sdfe4_pamdsl_parse :: "bool \<Rightarrow> sdfe4_msg \<Rightarrow> sdfe4 \<Rightarrow> pamdsl_type \<times> u8 list list \<times> sdfe4" where
  "sdfe4_pamdsl_parse ok rmsg hw =
     (let hdr0 = m_buf rmsg ! 2; hdr1 = m_buf rmsg ! 3; chan = m_buf rmsg ! 0 in
      if chan AND 1 \<noteq> 0 then (NOT_PAMDSL, [], hw)
      else if hdr0 AND 0xFE = 0x88 then
        (let hw = (if msg_cntr hw AND 1 \<noteq> hdr0 AND 1 then hw\<lparr>msg_cntr := hdr0 AND 1\<rparr> else hw)
         in (PAMDSL_SYNC, [], hw\<lparr>msg_cntr := msg_cntr hw + 1\<rparr>))
      else if hdr0 AND 0xFE = 0x06 then (PAMDSL_SYNC, [], hw\<lparr>msg_cntr := 0\<rparr>)
      else if hdr0 AND 0xFE = 0x08 then
        (let sent = [sdfe4_pamdsl_ack chan (0x88 OR (hdr0 AND 1))] in
         if hdr1 \<noteq> 0 then
           (PAMDSL_NFC, sent, snd (sdfe4_pamdsl_nfc ok rmsg (hw\<lparr>msg_cntr := msg_cntr hw + 1\<rparr>)))
         else (PAMDSL_ACK, sent, hw))
      else if hdr0 AND 0xFE = 0x8E then (PAMDSL_SYNC, [], hw\<lparr>msg_cntr := msg_cntr hw + 1\<rparr>)
      else (PAMDSL_ERROR, [], hw))"

section \<open>Commands\<close>

text \<open>The message of a command; its parameters follow the header.\<close>

definition pamdsl_msg :: "u8 \<Rightarrow> u16 \<Rightarrow> u8 list \<Rightarrow> u8 \<Rightarrow> u8 list" where
  "pamdsl_msg ch opcd params cntr =
     [0xF1, 0xF0 OR ((push_bit 2 ch OR 2) AND 0xF), 0x08 OR (cntr AND 1), 0,
      ucast (opcd AND 0xFF), ucast (drop_bit 8 opcd AND 0xFF), 0, 0] @ params"

abbreviation SDFE4_EOC_MAXMSG :: nat where "SDFE4_EOC_MAXMSG \<equiv> 112"

text \<open>\<open>dev i msg\<close>: whether the command fails for the \<open>i\<close>-th block, and the transmit state after waiting.
  The result has the blocks sent.\<close>

fun eoc_tx_loop :: "(nat \<Rightarrow> u8 list \<Rightarrow> bool \<times> 2 word) \<Rightarrow> nat \<Rightarrow> nat \<Rightarrow> u8 list \<Rightarrow> int \<times> u8 list list" where
  "eoc_tx_loop dev 0 i ptr = (0, [])"
| "eoc_tx_loop dev (Suc k) i ptr =
     (let cp = (if length ptr > SDFE4_EOC_MAXMSG then SDFE4_EOC_MAXMSG else length ptr);
          msg = (if k = 0 then 1 else 0) # of_nat cp # take cp ptr;
          (failed, tx) = dev i msg
      in if failed then (-1, [msg])
         else if k = 0 \<and> tx \<noteq> EOC_TX_READY then (-1, [msg])
         else if k \<noteq> 0 \<and> tx \<noteq> EOC_TX_FRAME then (-1, [msg])
         else (let (e, msgs) = eoc_tx_loop dev k (i + 1) (drop cp ptr) in (e, msg # msgs)))"

definition sdfe4_eoc_tx :: "(nat \<Rightarrow> u8 list \<Rightarrow> bool \<times> 2 word) \<Rightarrow> u8 list \<Rightarrow> int \<times> u8 list list" where
  "sdfe4_eoc_tx dev ptr = eoc_tx_loop dev (length ptr div SDFE4_EOC_MAXMSG + 1) 0 ptr"

section \<open>The monitor\<close>

text \<open>What the monitor does to the chip and the indicators.\<close>

datatype action =
    Link_led_blink nat | Link_led_fast_blink nat | Link_led_down nat | Link_led_up nat
  | Setup_channel nat | Start_channel nat | Disable_channel nat | Load_config nat

fun state_mon_loop :: "nat list \<Rightarrow> sdfe4 \<Rightarrow> int \<times> action list \<times> sdfe4" where
  "state_mon_loop [] hw = (0, [], hw)"
| "state_mon_loop (i # is) hw =
     (let c = hw_ch hw ! i in
      if \<not> ch_enabled c then state_mon_loop is hw
      else if ch_state_change c \<and> ch_state c = MAIN_INIT then
        (-1, [Link_led_down i, Setup_channel i, Start_channel i], upd_ch i sdfe4_reset_hwdev_chan hw)
      else
        (let a1 = (if ch_state_change c then
                     (if ch_state c = MAIN_CORE_ACT then [Link_led_blink i]
                      else if ch_state c = MAIN_DATA_MODE then [Link_led_fast_blink i] else [])
                   else []);
             hw = upd_ch i (\<lambda>c. c\<lparr>ch_state_change := False, ch_conn_state_change := False\<rparr>) hw;
             a2 = (if ch_sdi_dpll_sync c then [Load_config i, Link_led_up i] else []);
             hw = upd_ch i (\<lambda>c. c\<lparr>ch_sdi_dpll_sync := False\<rparr>) hw;
             a3 = (if need_reconf hw ! i
                   then [Disable_channel i, Link_led_down i, Setup_channel i, Start_channel i] else []);
             hw = (if need_reconf hw ! i
                   then (upd_ch i sdfe4_reset_hwdev_chan hw)\<lparr>need_reconf := (need_reconf hw)[i := False]\<rparr> else hw);
             (r, as, hw) = state_mon_loop is hw
         in (r, a1 @ a2 @ a3 @ as, hw)))"

definition sdfe4_state_mon :: "sdfe4 \<Rightarrow> int \<times> action list \<times> sdfe4" where
  "sdfe4_state_mon hw = state_mon_loop [0, 1, 2, 3] hw"

section \<open>Blocks of a message\<close>

text \<open>The chip at the other end hands over the blocks as they were sent: the end flag, an error byte,
  the length and the data.\<close>

definition notice :: "u8 list \<Rightarrow> u8 list" where
  "notice block = [block ! 0, 0, block ! 1] @ drop 2 block"

definition deliver :: "sdfe4_channel \<Rightarrow> u8 list list \<Rightarrow> sdfe4_channel" where
  "deliver c msgs = fold (\<lambda>m c. sdfe4_eoc_init True c (notice m) (int (length (notice m)))) msgs c"

text \<open>A chip that accepts every block.\<close>

definition accepting :: "(nat \<Rightarrow> u8 list \<Rightarrow> bool \<times> 2 word) \<Rightarrow> bool" where
  "accepting dev \<longleftrightarrow> (\<forall>i m. dev i m = (False, if m ! 0 = 1 then EOC_TX_READY else EOC_TX_FRAME))"

fun eoc_blocks :: "nat \<Rightarrow> u8 list \<Rightarrow> u8 list list" where
  "eoc_blocks 0 ptr = []"
| "eoc_blocks (Suc k) ptr = take SDFE4_EOC_MAXMSG ptr # eoc_blocks k (drop SDFE4_EOC_MAXMSG ptr)"

fun framed :: "u8 list list \<Rightarrow> u8 list list" where
  "framed [] = []"
| "framed (b # bs) = ((if bs = [] then 1 else 0) # of_nat (length b) # b) # framed bs"

lemma length_eoc_blocks [simp]: "length (eoc_blocks k ptr) = k"
  by (induction k ptr rule: eoc_blocks.induct) auto

lemma eoc_blocks_bound: "b \<in> set (eoc_blocks k ptr) \<Longrightarrow> length b \<le> SDFE4_EOC_MAXMSG"
  by (induction k ptr rule: eoc_blocks.induct) auto

lemma concat_eoc_blocks: "length ptr \<le> k * SDFE4_EOC_MAXMSG \<Longrightarrow> concat (eoc_blocks k ptr) = ptr"
  by (induction k ptr rule: eoc_blocks.induct) auto

lemma eoc_blocks_lengths:
  "length ptr = m * SDFE4_EOC_MAXMSG + l \<Longrightarrow> l < SDFE4_EOC_MAXMSG \<Longrightarrow>
   \<exists>bs b. eoc_blocks (Suc m) ptr = bs @ [b] \<and> length bs = m \<and> length b = l \<and>
     (\<forall>x \<in> set bs. length x = SDFE4_EOC_MAXMSG)"
proof (induction m arbitrary: ptr)
  case 0
  then show ?case by (intro exI [of _ "[]"] exI [of _ ptr]) simp
next
  case (Suc m)
  then have "length (drop SDFE4_EOC_MAXMSG ptr) = m * SDFE4_EOC_MAXMSG + l" by simp
  from Suc.IH [OF this Suc.prems(2)] obtain bs b where
    b: "eoc_blocks (Suc m) (drop SDFE4_EOC_MAXMSG ptr) = bs @ [b]" "length bs = m" "length b = l"
      "\<forall>x \<in> set bs. length x = SDFE4_EOC_MAXMSG" by blast
  have "length (take SDFE4_EOC_MAXMSG ptr) = SDFE4_EOC_MAXMSG" using Suc.prems(1) by simp
  with b show ?case by (intro exI [of _ "take SDFE4_EOC_MAXMSG ptr # bs"] exI [of _ b]) simp
qed

lemma eoc_tx_accepting:
  assumes "accepting dev"
  shows "eoc_tx_loop dev k i ptr = (0, framed (eoc_blocks k ptr))"
proof (induction k arbitrary: i ptr)
  case (Suc k)
  have cp: "(if length ptr > SDFE4_EOC_MAXMSG then SDFE4_EOC_MAXMSG else length ptr) =
      length (take SDFE4_EOC_MAXMSG ptr)" by simp
  have tk: "take (length (take SDFE4_EOC_MAXMSG ptr)) ptr = take SDFE4_EOC_MAXMSG ptr"
    "drop (length (take SDFE4_EOC_MAXMSG ptr)) ptr = drop SDFE4_EOC_MAXMSG ptr" by (auto simp: min_def)
  have e: "eoc_blocks k (drop SDFE4_EOC_MAXMSG ptr) = [] \<longleftrightarrow> k = 0" by (cases k) simp_all
  define msg :: "u8 list" where "msg = (if k = 0 then 1 else 0) # of_nat (length (take SDFE4_EOC_MAXMSG ptr)) #
    take SDFE4_EOC_MAXMSG ptr"
  have "dev i msg = (False, if msg ! 0 = 1 then EOC_TX_READY else EOC_TX_FRAME)"
    using assms unfolding accepting_def by blast
  then have d: "dev i msg = (False, if k = 0 then EOC_TX_READY else EOC_TX_FRAME)" by (simp add: msg_def)
  show ?case
    unfolding eoc_tx_loop.simps Let_def cp tk msg_def [symmetric] d
    using Suc.IH [of "i + 1" "drop SDFE4_EOC_MAXMSG ptr"] e by (simp add: msg_def)
qed simp

text \<open>Receiving one block with data.\<close>

lemma eoc_init_block:
  fixes e :: bool and b :: "u8 list"
  assumes h: "eoc_holds (ch_eoc c) msgs part" and b: "b \<noteq> []" "length b \<le> SDFE4_EOC_MAXMSG"
    and room: "length msgs + 1 < RING_SIZE" "length part < MAX_SBUFS"
  defines "m \<equiv> (if e then 1 else 0) # of_nat (length b) # b"
  shows "\<exists>r. sdfe4_eoc_init True c (notice m) (int (length (notice m))) = c\<lparr>ch_eoc := r\<rparr> \<and>
    (if e then eoc_holds r (msgs @ [part @ [b]]) [] else eoc_holds r msgs (part @ [b]))"
proof -
  have n: "notice m = (if e then 1 else 0) # 0 # of_nat (length b) # b" by (simp add: notice_def m_def)
  have big: "\<not> int (length (notice m)) < 4" using b(1) n by (cases b) auto
  have "sint (of_nat (length b) :: u8) = int (length b)"
    using b(2) by (simp add: sint_uint uint_nat unat_of_nat signed_take_bit_int_eq_self)
  then have len: "sint (notice m ! 2) = int (length b)" by (simp add: n)
  have "append_spec msgs part True (take (nat (int (length b))) (drop 3 (notice m))) e (ch_eoc c)
      (rbuf_append True (ch_eoc c) (drop 3 (notice m)) (int (length b)) e)"
    by (rule rbuf_append_spec [OF h]) (use b(2) n in simp_all)
  then have spec: "append_spec msgs part True b e (ch_eoc c)
      (rbuf_append True (ch_eoc c) b (int (length b)) e)" by (simp add: n)
  have run: "sdfe4_eoc_init True c (notice m) (int (length (notice m))) =
      c\<lparr>ch_eoc := snd (rbuf_append True (ch_eoc c) b (int (length b)) e)\<rparr>"
    using big len unfolding sdfe4_eoc_init_def by (simp add: n)
  have "length msgs + 1 \<noteq> RING_SIZE" "length part \<noteq> MAX_SBUFS" using room by simp_all
  then show ?thesis
    unfolding run using spec
    by (intro exI [of _ "snd (rbuf_append True (ch_eoc c) b (int (length b)) e)"])
      (cases e; simp add: append_spec_def)
qed

lemma deliver_parts:
  "eoc_holds (ch_eoc c) msgs part \<Longrightarrow> \<forall>b \<in> set bs. b \<noteq> [] \<and> length b \<le> SDFE4_EOC_MAXMSG \<Longrightarrow>
   length msgs + 1 < RING_SIZE \<Longrightarrow> length part + length bs \<le> MAX_SBUFS \<Longrightarrow>
   \<exists>c'. deliver c (map (\<lambda>b. 0 # of_nat (length b) # b) bs) = c' \<and> eoc_holds (ch_eoc c') msgs (part @ bs)"
proof (induction bs arbitrary: c part)
  case Nil
  then show ?case by (simp add: deliver_def)
next
  case (Cons b bs)
  have "b \<noteq> []" "length b \<le> SDFE4_EOC_MAXMSG" "length part < MAX_SBUFS" using Cons.prems(2,4) by simp_all
  from eoc_init_block [OF Cons.prems(1) this(1,2) Cons.prems(3) this(3), of False] obtain r where
    r: "sdfe4_eoc_init True c (notice (0 # of_nat (length b) # b)) (int (length (notice (0 # of_nat (length b) # b)))) =
      c\<lparr>ch_eoc := r\<rparr>" "eoc_holds r msgs (part @ [b])" by auto
  have "eoc_holds (ch_eoc (c\<lparr>ch_eoc := r\<rparr>)) msgs (part @ [b])" using r(2) by simp
  from Cons.IH [OF this _ Cons.prems(3)] show ?case using Cons.prems(2,4) r(1) by (simp add: deliver_def)
qed

lemma framed_snoc: "framed (bs @ [b]) = map (\<lambda>b. 0 # of_nat (length b) # b) bs @ [1 # of_nat (length b) # b]"
  by (induction bs) auto

lemma deliver_append: "deliver c (ms @ ns) = deliver (deliver c ms) ns"
  by (simp add: deliver_def)

lemma full_blocks:
  "\<forall>x \<in> set bs. length x = SDFE4_EOC_MAXMSG \<Longrightarrow> \<forall>b \<in> set bs. b \<noteq> [] \<and> length b \<le> SDFE4_EOC_MAXMSG"
  by auto

section \<open>Facts on messages and on the monitor\<close>

lemma pamdsl_adr_less: "PEF24624_PAMDSL_ADR b < 4"
proof -
  have "drop_bit 2 (b AND 0xF) AND 0xF \<le> (3 :: u8)"
  proof -
    have m: "(0xF :: u8) = mask 4" by (simp add: mask_eq_exp_minus_1)
    have "unat (drop_bit 2 (b AND 0xF)) = unat (b AND 0xF) div 4" by (simp add: unat_drop_bit_eq drop_bit_eq_div unat_div_distrib)
    moreover have "unat (b AND 0xF) < 16" unfolding m by (simp add: unat_and_mask)
    ultimately have "unat (drop_bit 2 (b AND 0xF)) < 4" by simp
    then have "unat (drop_bit 2 (b AND 0xF) AND 0xF) < 4" unfolding m by (simp add: unat_and_mask)
    then show ?thesis by (simp add: word_le_nat_alt)
  qed
  then show ?thesis by (simp add: PEF24624_PAMDSL_ADR_def word_le_nat_alt)
qed

lemma upd_ch_simps [simp]:
  "length (hw_ch (upd_ch i f hw)) = length (hw_ch hw)" "need_reconf (upd_ch i f hw) = need_reconf hw"
  "msg_cntr (upd_ch i f hw) = msg_cntr hw"
  "j \<noteq> i \<Longrightarrow> hw_ch (upd_ch i f hw) ! j = hw_ch hw ! j"
  "i < length (hw_ch hw) \<Longrightarrow> hw_ch (upd_ch i f hw) ! i = f (hw_ch hw ! i)"
  by (simp_all add: upd_ch_def)

text \<open>A notification changes nothing but its channel, which it leaves enabled or disabled.\<close>

lemma eoc_init_enabled [simp]: "ch_enabled (sdfe4_eoc_init ok c ptr n) = ch_enabled c"
  by (simp add: sdfe4_eoc_init_def)

lemma nfc_channel:
  "\<exists>f. snd (sdfe4_pamdsl_nfc ok msg hw) = upd_ch (PEF24624_PAMDSL_ADR (m_buf msg ! 0)) f hw \<and>
    (\<forall>c. ch_enabled (f c) = ch_enabled c) \<and>
    (\<forall>c. ch_eoc (f c) = ch_eoc c \<or>
       f c = sdfe4_eoc_init ok c (drop EMB_HDR (m_buf msg)) (m_len msg - int EMB_HDR))"
proof -
  have id: "hw = upd_ch i (\<lambda>c. c) hw" for i by (simp add: upd_ch_def)
  show ?thesis
    unfolding sdfe4_pamdsl_nfc_def Let_def
    by (simp split: if_split) (intro conjI impI; (rule exI conjI refl allI | simp)+; use id in fastforce)
qed

text \<open>A block without an error keeps the messages that are complete.\<close>

lemma append_keeps:
  assumes "append_spec msgs part ok b e r res" "eoc_holds r msgs part"
  shows "\<exists>more part'. eoc_holds (snd res) (msgs @ more) part'"
proof -
  have none: "\<exists>more part'. eoc_holds r' (msgs @ more) part'" if "eoc_holds r' msgs p" for r' p
    using that by (intro exI [of _ "[]"] exI [of _ p]) simp
  have one: "\<exists>more part'. eoc_holds r' (msgs @ more) part'" if "eoc_holds r' (msgs @ [m]) p" for r' m p
    using that by blast
  consider "snd res = r" | "eoc_holds (snd res) msgs []" | "eoc_holds (snd res) msgs part"
    | "eoc_holds (snd res) (msgs @ [part @ [b]]) []" | "eoc_holds (snd res) msgs (part @ [b])"
    using assms(1) unfolding append_spec_def by (auto split: if_splits)
  then show ?thesis using none one assms(2) by cases metis+
qed

lemma eoc_init_keeps:
  assumes h: "eoc_holds (ch_eoc c) msgs part" and ok: "ptr ! 1 = 0" and l: "unat (ptr ! 2) \<le> 112" "115 \<le> length ptr"
  shows "\<exists>more part'. eoc_holds (ch_eoc (sdfe4_eoc_init alloc c ptr n)) (msgs @ more) part'"
proof (cases "n < 4")
  case True
  then show ?thesis using h by (intro exI [of _ "[]"] exI [of _ part]) (simp add: sdfe4_eoc_init_def)
next
  case False
  obtain k where k: "unat (ptr ! 2) = k" by blast
  then have u: "uint (ptr ! 2) = int k" using uint_nat [of "ptr ! 2"] by simp
  have kl: "k \<le> 112" using l(1) k by simp
  then have "signed_take_bit 7 (int k) = int k" by (intro signed_take_bit_int_eq_self) simp_all
  then have "sint (ptr ! 2) = int k" by (simp add: sint_uint u)
  then have n: "0 \<le> sint (ptr ! 2)" "sint (ptr ! 2) < 65536" "nat (sint (ptr ! 2)) \<le> length (drop 3 ptr)"
    using l(2) kl by simp_all
  from append_keeps [OF rbuf_append_spec [OF h n, of alloc "ptr ! 0 \<noteq> 0"] h]
  have "\<exists>more part'. eoc_holds (snd (rbuf_append alloc (ch_eoc c) (drop 3 ptr) (sint (ptr ! 2)) (ptr ! 0 \<noteq> 0)))
      (msgs @ more) part'" .
  then show ?thesis using False ok by (simp add: sdfe4_eoc_init_def)
qed

definition same_ch :: "sdfe4 \<Rightarrow> sdfe4 \<Rightarrow> nat \<Rightarrow> bool" where
  "same_ch hw hw' i \<longleftrightarrow> hw_ch hw' ! i = hw_ch hw ! i \<and> need_reconf hw' ! i = need_reconf hw ! i"

definition served :: "sdfe4 \<Rightarrow> sdfe4 \<Rightarrow> nat \<Rightarrow> bool" where
  "served hw hw' i \<longleftrightarrow>
     (if ch_enabled (hw_ch hw ! i) then
        ch_enabled (hw_ch hw' ! i) \<and> \<not> ch_state_change (hw_ch hw' ! i) \<and> \<not> ch_conn_state_change (hw_ch hw' ! i) \<and>
        \<not> ch_sdi_dpll_sync (hw_ch hw' ! i) \<and> \<not> need_reconf hw' ! i
      else same_ch hw hw' i)"

definition restarted :: "sdfe4 \<Rightarrow> action list \<Rightarrow> sdfe4 \<Rightarrow> nat \<Rightarrow> bool" where
  "restarted hw as hw' i \<longleftrightarrow>
     ch_enabled (hw_ch hw ! i) \<and> ch_state_change (hw_ch hw ! i) \<and> ch_state (hw_ch hw ! i) = MAIN_INIT \<and>
     hw_ch hw' ! i = sdfe4_reset_hwdev_chan (hw_ch hw ! i) \<and>
     (\<exists>as0. as = as0 @ [Link_led_down i, Setup_channel i, Start_channel i])"

lemma state_mon_loop_run:
  assumes "state_mon_loop is hw = (r, as, hw')" "distinct is" "\<forall>i \<in> set is. i < length (hw_ch hw)"
    "length (need_reconf hw) = length (hw_ch hw)"
  shows "length (hw_ch hw') = length (hw_ch hw) \<and> length (need_reconf hw') = length (hw_ch hw) \<and>
    (\<forall>j. j \<notin> set is \<longrightarrow> same_ch hw hw' j) \<and>
    (r = 0 \<and> (\<forall>i \<in> set is. served hw hw' i) \<or>
     r = -1 \<and> (\<exists>pre i post. is = pre @ i # post \<and> restarted hw as hw' i \<and>
       (\<forall>j \<in> set pre. served hw hw' j) \<and> (\<forall>j \<in> set post. same_ch hw hw' j)))"
  using assms
proof (induction "is" arbitrary: hw r as hw')
  case Nil
  then show ?case by (simp add: same_ch_def)
next
  case (Cons i "is")
  have i: "i < length (hw_ch hw)" "i \<notin> set is" "distinct is" using Cons.prems by simp_all
  have rest: "?case" if m: "state_mon_loop is hw1 = (r, as1, hw')" "as = as0 @ as1"
      "length (hw_ch hw1) = length (hw_ch hw)" "length (need_reconf hw1) = length (hw_ch hw)"
      "\<forall>j. j \<noteq> i \<longrightarrow> same_ch hw hw1 j" "served hw hw1 i" for hw1 as1 as0
  proof -
    have "\<forall>i \<in> set is. i < length (hw_ch hw1)" "length (need_reconf hw1) = length (hw_ch hw1)"
      using Cons.prems(3) m(3,4) by simp_all
    note ih = Cons.IH [OF m(1) i(3) this]
    have si: "served hw hw' i" using ih i(2) m(6) by (simp add: served_def same_ch_def split: if_splits)
    have tr: "same_ch hw hw' j" if "j \<noteq> i" "same_ch hw1 hw' j" for j using m(5) that by (simp add: same_ch_def)
    have sv: "served hw hw' j" if "j \<noteq> i" "served hw1 hw' j" for j
      using m(5) that by (simp add: served_def same_ch_def split: if_splits)
    have rs: "restarted hw as hw' j" if "j \<noteq> i" "restarted hw1 as1 hw' j" for j
      using m(2,5) that by (auto simp: restarted_def same_ch_def)
    have len: "length (hw_ch hw') = length (hw_ch hw)" "length (need_reconf hw') = length (hw_ch hw)"
      and out: "\<forall>j. j \<notin> set (i # is) \<longrightarrow> same_ch hw hw' j" using ih m(3,4) tr by auto
    have neq: "j \<noteq> i" if "j \<in> set is" for j using that i(2) by blast
    from ih consider "r = 0" "\<forall>i \<in> set is. served hw1 hw' i"
      | pre k post where "r = -1" "is = pre @ k # post" "restarted hw1 as1 hw' k"
          "\<forall>j \<in> set pre. served hw1 hw' j" "\<forall>j \<in> set post. same_ch hw1 hw' j" by blast
    then show ?thesis
    proof cases
      case 1
      then have "\<forall>j \<in> set (i # is). served hw hw' j" using si sv neq by auto
      with 1 len out show ?thesis by blast
    next
      case 2
      have "i # is = (i # pre) @ k # post" using 2(2) by simp
      moreover have "restarted hw as hw' k" using rs [OF neq] 2(2,3) by simp
      moreover have "\<forall>j \<in> set (i # pre). served hw hw' j" using si sv neq 2(2,4) by auto
      moreover have "\<forall>j \<in> set post. same_ch hw hw' j" using tr neq 2(2,5) by auto
      ultimately show ?thesis using 2(1) len out by blast
    qed
  qed
  let ?c = "hw_ch hw ! i"
  consider "\<not> ch_enabled ?c" | "ch_enabled ?c" "ch_state_change ?c \<and> ch_state ?c = MAIN_INIT"
    | "ch_enabled ?c" "\<not> (ch_state_change ?c \<and> ch_state ?c = MAIN_INIT)" by blast
  then show ?case
  proof cases
    case 1
    then have "state_mon_loop is hw = (r, as, hw')" using Cons.prems(1) by simp
    then show ?thesis by (rule rest [of hw as "[]"]) (use 1 Cons.prems(4) in \<open>simp_all add: same_ch_def served_def\<close>)
  next
    case 2
    then have e: "r = -1" "as = [Link_led_down i, Setup_channel i, Start_channel i]"
      "hw' = upd_ch i sdfe4_reset_hwdev_chan hw" using Cons.prems(1) by simp_all
    have other: "same_ch hw hw' j" if "j \<noteq> i" for j using that e(3) by (simp add: same_ch_def)
    have "same_ch hw hw' j" if "j \<in> set is" for j by (rule other) (use that i(2) in blast)
    then have "\<forall>j \<in> set is. same_ch hw hw' j" by blast
    moreover have "\<forall>j. j \<notin> set (i # is) \<longrightarrow> same_ch hw hw' j" using other by simp
    moreover have "restarted hw as hw' i" using 2 e i(1) by (simp add: restarted_def)
    moreover have "length (hw_ch hw') = length (hw_ch hw)" "length (need_reconf hw') = length (hw_ch hw)"
      using e(3) Cons.prems(4) by simp_all
    moreover have "i # is = [] @ i # is" by simp
    moreover have "\<forall>j \<in> set []. served hw hw' j" by simp
    ultimately show ?thesis using e(1) by blast
  next
    case 3
    let ?h = "upd_ch i (\<lambda>c. c\<lparr>ch_sdi_dpll_sync := False\<rparr>)
      (upd_ch i (\<lambda>c. c\<lparr>ch_state_change := False, ch_conn_state_change := False\<rparr>) hw)"
    define hw1 where "hw1 = (if need_reconf hw ! i
      then (upd_ch i sdfe4_reset_hwdev_chan ?h)\<lparr>need_reconf := (need_reconf hw)[i := False]\<rparr> else ?h)"
    obtain as1 as0 where run: "state_mon_loop is hw1 = (r, as1, hw')" "as = as0 @ as1"
      using Cons.prems(1) 3 unfolding state_mon_loop.simps Let_def
      by (auto simp: hw1_def split: prod.splits if_splits)
    show ?thesis
    proof (rule rest [OF run])
      show "length (hw_ch hw1) = length (hw_ch hw)" "length (need_reconf hw1) = length (hw_ch hw)"
        using Cons.prems(4) by (simp_all add: hw1_def)
      show "\<forall>j. j \<noteq> i \<longrightarrow> same_ch hw hw1 j" by (auto simp: same_ch_def hw1_def)
      show "served hw hw1 i"
        using 3(1) i(1) Cons.prems(4) by (simp add: served_def hw1_def sdfe4_reset_hwdev_chan_def)
    qed
  qed
qed

text \<open>A chip that accepts every block, an idle channel, a chip with four channels of which one fell
  back to its initial state, and a notification with a block for the second channel.\<close>

definition accept_all :: "nat \<Rightarrow> u8 list \<Rightarrow> bool \<times> 2 word" where
  "accept_all i m = (False, if m ! 0 = 1 then EOC_TX_READY else EOC_TX_FRAME)"

definition idle_channel :: sdfe4_channel where
  "idle_channel = \<lparr>ch_state = 3, ch_state_change = True, ch_conn_state = 1, ch_conn_state_change = True,
     ch_sdi_dpll_sync = True, ch_enabled = True, ch_eoc = empty_ring, ch_eoc_tx = 0, ch_perf_prims = 0\<rparr>"

definition example_chip :: sdfe4 where
  "example_chip = \<lparr>msg_cntr = 0,
     hw_ch = [idle_channel, idle_channel, idle_channel\<lparr>ch_state := MAIN_INIT\<rparr>, idle_channel],
     need_reconf = [False, True, False, True]\<rparr>"

definition example_notice :: sdfe4_msg where
  "example_notice = \<lparr>m_len = 13, m_buf = [0xF6, 0xF1, 0x08, 1, 0x12, 0xA9, 0, 0, 1, 0, 2, 65, 66] @ replicate 115 0\<rparr>"

lemma accept_all_accepting: "accepting accept_all"
  by (simp add: accepting_def accept_all_def)

lemma idle_channel_holds: "eoc_holds (ch_eoc idle_channel) [] []"
  using empty_ring_holds by (simp add: idle_channel_def)

section \<open>Properties\<close>

text \<open>C20: A message that is not empty, shorter than 1792 bytes (so that it has at most 16 blocks) and whose length is
  not a multiple of 112, sent to a chip that accepts its blocks and delivered to a channel without messages: sending
  returns 0, every command fits the buffer of 128 bytes, and the blocks handed over at the other end complete exactly this
  message, which the next read returns.\<close>

theorem eoc_roundtrip:
  assumes "accepting dev" "length ptr mod SDFE4_EOC_MAXMSG \<noteq> 0" "length ptr < MAX_SBUFS * SDFE4_EOC_MAXMSG"
    "eoc_holds (ch_eoc c) [] []"
  shows "fst (sdfe4_eoc_tx dev ptr) = 0 \<and>
    (\<forall>m \<in> set (snd (sdfe4_eoc_tx dev ptr)). length (pamdsl_msg ch 0xAC02 m cntr) \<le> SDFE4_FIFO8) \<and>
    (case sdfe4_eoc_rx True (deliver c (snd (sdfe4_eoc_tx dev ptr))) of
       (n, out, c') \<Rightarrow> n = int (length ptr) \<and> out = ptr \<and> eoc_holds (ch_eoc c') [] [])"
proof -
  let ?m = "length ptr div SDFE4_EOC_MAXMSG" and ?l = "length ptr mod SDFE4_EOC_MAXMSG"
  have len: "length ptr = ?m * SDFE4_EOC_MAXMSG + ?l" by simp
  have tx: "sdfe4_eoc_tx dev ptr = (0, framed (eoc_blocks (Suc ?m) ptr))"
    by (simp only: sdfe4_eoc_tx_def Suc_eq_plus1 [symmetric] eoc_tx_accepting [OF assms(1)])
  obtain bs b where bl: "eoc_blocks (Suc ?m) ptr = bs @ [b]" "length bs = ?m" "length b = ?l"
      "\<forall>x \<in> set bs. length x = SDFE4_EOC_MAXMSG"
    using eoc_blocks_lengths [OF len] by auto
  have m: "?m < MAX_SBUFS" using assms(3) by (simp add: div_less_iff_less_mult)
  have "?l < SDFE4_EOC_MAXMSG" by simp
  then have "length ptr \<le> Suc ?m * SDFE4_EOC_MAXMSG" using len by simp
  from concat_eoc_blocks [OF this] have all: "concat (bs @ [b]) = ptr" by (simp only: bl(1))
  have parts: "eoc_holds (ch_eoc (deliver c (map (\<lambda>b. 0 # of_nat (length b) # b) bs))) [] bs"
    using deliver_parts [OF assms(4) full_blocks [OF bl(4)]] m bl(2) by simp
  have b: "b \<noteq> []" "length b \<le> SDFE4_EOC_MAXMSG" using bl(3) assms(2) by auto
  obtain r where r: "sdfe4_eoc_init True (deliver c (map (\<lambda>b. 0 # of_nat (length b) # b) bs))
        (notice (1 # of_nat (length b) # b)) (int (length (notice (1 # of_nat (length b) # b)))) =
      (deliver c (map (\<lambda>b. 0 # of_nat (length b) # b) bs))\<lparr>ch_eoc := r\<rparr>" "eoc_holds r [bs @ [b]] []"
    using eoc_init_block [OF parts b _ _, of True] m bl(2) by auto
  have "ch_eoc (deliver c (framed (bs @ [b]))) = r"
    unfolding framed_snoc deliver_append using r(1) by (simp add: deliver_def)
  then have "get_spec [bs @ [b]] [] True r (rbuf_get_cur True (ch_eoc (deliver c (framed (bs @ [b])))))"
    using rbuf_get_cur_spec [OF r(2)] by simp
  then have rx: "case sdfe4_eoc_rx True (deliver c (framed (bs @ [b]))) of
      (n, out, c') \<Rightarrow> n = int (length ptr) \<and> out = ptr \<and> eoc_holds (ch_eoc c') [] []"
    unfolding sdfe4_eoc_rx_def Let_def using all by (auto simp: get_spec_def split: prod.splits)
  have "length m \<le> SDFE4_EOC_MAXMSG + 2" if "m \<in> set (framed bs')" "\<forall>x \<in> set bs'. length x \<le> SDFE4_EOC_MAXMSG" for m bs'
    using that by (induction bs') auto
  moreover have "\<forall>x \<in> set (bs @ [b]). length x \<le> SDFE4_EOC_MAXMSG"
    using eoc_blocks_bound [of _ "Suc ?m" ptr] unfolding bl(1) by blast
  ultimately have "length m \<le> SDFE4_EOC_MAXMSG + 2" if "m \<in> set (framed (bs @ [b]))" for m
    using that by blast
  then have "\<forall>m \<in> set (framed (bs @ [b])). length (pamdsl_msg ch 0xAC02 m cntr) \<le> SDFE4_FIFO8"
    by (fastforce simp: pamdsl_msg_def)
  with tx rx show ?thesis by (simp only: bl(1) fst_conv snd_conv simp_thms)
qed

theorem eoc_roundtrip_witness:
  "fst (sdfe4_eoc_tx accept_all (replicate 113 5)) = 0 \<and>
   list_all (\<lambda>m. length (pamdsl_msg 2 0xAC02 m 0) \<le> SDFE4_FIFO8) (snd (sdfe4_eoc_tx accept_all (replicate 113 5))) \<and>
   (case sdfe4_eoc_rx True (deliver idle_channel (snd (sdfe4_eoc_tx accept_all (replicate 113 5)))) of
      (n, out, c') \<Rightarrow> n = int (length (replicate 113 (5 :: u8))) \<and> out = replicate 113 5 \<and> eoc_holds (ch_eoc c') [] [])"
  unfolding list_all_iff by (rule eoc_roundtrip) (simp_all add: accept_all_accepting idle_channel_holds)

text \<open>A message whose length is a positive multiple of 112, sent in the same way: the last block is
  empty, the receiver ignores its notification, and the message is never completed: nothing can be
  read, and the data stays in front of the next message.\<close>

theorem eoc_multiple_incomplete:
  assumes "accepting dev" "length ptr = k * SDFE4_EOC_MAXMSG" "k < MAX_SBUFS" "eoc_holds (ch_eoc c) [] []"
  shows "fst (sdfe4_eoc_tx dev ptr) = 0 \<and>
    fst (sdfe4_eoc_rx True (deliver c (snd (sdfe4_eoc_tx dev ptr)))) = -1 \<and>
    (\<exists>part. concat part = ptr \<and> eoc_holds (ch_eoc (deliver c (snd (sdfe4_eoc_tx dev ptr)))) [] part)"
proof -
  have k: "length ptr div SDFE4_EOC_MAXMSG = k" using assms(2) by simp
  have tx: "sdfe4_eoc_tx dev ptr = (0, framed (eoc_blocks (Suc k) ptr))"
    by (simp only: sdfe4_eoc_tx_def k Suc_eq_plus1 [symmetric] eoc_tx_accepting [OF assms(1)])
  obtain bs b where bl: "eoc_blocks (Suc k) ptr = bs @ [b]" "length bs = k" "length b = 0"
      "\<forall>x \<in> set bs. length x = SDFE4_EOC_MAXMSG"
    using eoc_blocks_lengths [of ptr k 0] assms(2) by auto
  have "length ptr \<le> Suc k * SDFE4_EOC_MAXMSG" using assms(2) by simp
  from concat_eoc_blocks [OF this] have "concat (bs @ [b]) = ptr" by (simp only: bl(1))
  then have all: "concat bs = ptr" using bl(3) by simp
  let ?c = "deliver c (map (\<lambda>b. 0 # of_nat (length b) # b) bs)"
  have parts: "eoc_holds (ch_eoc ?c) [] bs"
    using deliver_parts [OF assms(4) full_blocks [OF bl(4)]] assms(3) bl(2) by simp
  have "deliver c (framed (bs @ [b])) = ?c"
    unfolding framed_snoc deliver_append using bl(3) by (simp add: deliver_def sdfe4_eoc_init_def notice_def)
  moreover have "fst (rbuf_get_cur True (ch_eoc ?c)) = -1"
    using rbuf_get_cur_spec [OF parts, of True] by (simp add: get_spec_def)
  ultimately show ?thesis
    unfolding tx bl(1) sdfe4_eoc_rx_def Let_def using parts all by (auto split: prod.splits)
qed

theorem eoc_multiple_incomplete_witness:
  "fst (sdfe4_eoc_tx accept_all (replicate 112 5)) = 0 \<and>
   fst (sdfe4_eoc_rx True (deliver idle_channel (snd (sdfe4_eoc_tx accept_all (replicate 112 5))))) = -1 \<and>
   (\<exists>part. concat part = replicate 112 5 \<and>
     eoc_holds (ch_eoc (deliver idle_channel (snd (sdfe4_eoc_tx accept_all (replicate 112 5))))) [] part)"
  by (rule eoc_multiple_incomplete [of _ _ 1]) (simp_all add: accept_all_accepting idle_channel_holds)

text \<open>Parsing a message addresses one of the four channels and changes no other one. No channel is
  enabled or disabled, only a notification changes a channel, an acknowledgement is sent exactly for
  commands, acknowledgements and notifications, to the sending channel. A notification with a block without
  reception error and with a valid length keeps every complete message of the channel.\<close>

theorem pamdsl_parse_addressed:
  assumes "sdfe4_pamdsl_parse ok rmsg hw = (t, sent, hw')" "length (hw_ch hw) = 4" "length (m_buf rmsg) = SDFE4_FIFO8"
    "i = PEF24624_PAMDSL_ADR (m_buf rmsg ! 0)"
  shows "i < 4 \<and> length (hw_ch hw') = 4 \<and> need_reconf hw' = need_reconf hw \<and>
    (\<forall>j. j \<noteq> i \<longrightarrow> hw_ch hw' ! j = hw_ch hw ! j) \<and> ch_enabled (hw_ch hw' ! i) = ch_enabled (hw_ch hw ! i) \<and>
    (t \<noteq> PAMDSL_NFC \<longrightarrow> hw_ch hw' = hw_ch hw) \<and>
    sent = (if t = PAMDSL_ACK \<or> t = PAMDSL_NFC
      then [sdfe4_pamdsl_ack (m_buf rmsg ! 0) (0x88 OR (m_buf rmsg ! 2 AND 1))] else []) \<and>
    (m_buf rmsg ! 9 = 0 \<and> unat (m_buf rmsg ! 10) \<le> SDFE4_EOC_MAXMSG \<longrightarrow>
      (\<forall>msgs part. eoc_holds (ch_eoc (hw_ch hw ! i)) msgs part \<longrightarrow>
        (\<exists>more part'. eoc_holds (ch_eoc (hw_ch hw' ! i)) (msgs @ more) part')))"
proof -
  have i: "i < 4" using assms(4) pamdsl_adr_less by simp
  have keep: "\<exists>more part'. eoc_holds r (msgs @ more) part'" if "eoc_holds r msgs part" for r msgs part
    using that by (intro exI [of _ "[]"] exI [of _ part]) simp
  have cases': "hw_ch hw' = hw_ch hw \<and> need_reconf hw' = need_reconf hw \<and> t \<noteq> PAMDSL_NFC \<or>
      t = PAMDSL_NFC \<and> hw' = snd (sdfe4_pamdsl_nfc ok rmsg (hw\<lparr>msg_cntr := msg_cntr hw + 1\<rparr>))"
    and sent: "sent = (if t = PAMDSL_ACK \<or> t = PAMDSL_NFC
      then [sdfe4_pamdsl_ack (m_buf rmsg ! 0) (0x88 OR (m_buf rmsg ! 2 AND 1))] else [])"
    using assms(1) unfolding sdfe4_pamdsl_parse_def Let_def by (auto split: if_splits)
  from cases' show ?thesis
  proof (elim disjE conjE)
    assume "hw_ch hw' = hw_ch hw" "need_reconf hw' = need_reconf hw" "t \<noteq> PAMDSL_NFC"
    then show ?thesis using i assms(2) sent keep by auto
  next
    assume t: "t = PAMDSL_NFC" and hw': "hw' = snd (sdfe4_pamdsl_nfc ok rmsg (hw\<lparr>msg_cntr := msg_cntr hw + 1\<rparr>))"
    obtain f where f: "hw' = upd_ch i f (hw\<lparr>msg_cntr := msg_cntr hw + 1\<rparr>)" "\<forall>c. ch_enabled (f c) = ch_enabled c"
        "\<forall>c. ch_eoc (f c) = ch_eoc c \<or>
          f c = sdfe4_eoc_init ok c (drop EMB_HDR (m_buf rmsg)) (m_len rmsg - int EMB_HDR)"
      using nfc_channel [of ok rmsg "hw\<lparr>msg_cntr := msg_cntr hw + 1\<rparr>"] unfolding hw' assms(4) by blast
    have ch: "hw_ch hw' ! i = f (hw_ch hw ! i)" using f(1) i assms(2) by simp
    have "\<exists>more part'. eoc_holds (ch_eoc (hw_ch hw' ! i)) (msgs @ more) part'"
      if b: "m_buf rmsg ! 9 = 0" "unat (m_buf rmsg ! 10) \<le> SDFE4_EOC_MAXMSG"
        and h: "eoc_holds (ch_eoc (hw_ch hw ! i)) msgs part" for msgs part
    proof -
      have "\<exists>more part'. eoc_holds (ch_eoc (sdfe4_eoc_init ok (hw_ch hw ! i) (drop EMB_HDR (m_buf rmsg))
          (m_len rmsg - int EMB_HDR))) (msgs @ more) part'"
        by (rule eoc_init_keeps [OF h]) (use b assms(3) in simp_all)
      then show ?thesis using f(3) keep [OF h] unfolding ch by metis
    qed
    then show ?thesis using i f(1,2) ch t sent assms(2) by auto
  qed
qed

theorem pamdsl_parse_addressed_witness:
  "(let hw = example_chip; i = PEF24624_PAMDSL_ADR (m_buf example_notice ! 0) in
    case sdfe4_pamdsl_parse True example_notice hw of (t, sent, hw') \<Rightarrow>
      t = PAMDSL_NFC \<and> i = 1 \<and> length (hw_ch hw') = 4 \<and> hw_ch hw' ! 2 = hw_ch hw ! 2 \<and>
      (\<exists>more part'. eoc_holds (ch_eoc (hw_ch hw' ! i)) ([] @ more) part'))"
proof -
  obtain t sent hw' where run: "sdfe4_pamdsl_parse True example_notice example_chip = (t, sent, hw')"
    by (metis prod.exhaust)
  have l: "length (hw_ch example_chip) = 4" "length (m_buf example_notice) = SDFE4_FIFO8"
    by (simp_all add: example_chip_def example_notice_def)
  have i: "PEF24624_PAMDSL_ADR (m_buf example_notice ! 0) = 1"
    by (simp add: PEF24624_PAMDSL_ADR_def example_notice_def drop_bit_eq_div)
  have h: "eoc_holds (ch_eoc (hw_ch example_chip ! 1)) [] []"
    using idle_channel_holds by (simp add: example_chip_def)
  have b: "m_buf example_notice ! 9 = 0" "unat (m_buf example_notice ! 10) \<le> SDFE4_EOC_MAXMSG"
    by (simp_all add: example_notice_def)
  have t: "t = PAMDSL_NFC"
    using run by (simp add: sdfe4_pamdsl_parse_def example_notice_def Let_def)
  note p = pamdsl_parse_addressed [OF run l refl]
  then have "\<exists>more part'. eoc_holds (ch_eoc (hw_ch hw' ! 1)) ([] @ more) part'" using b h unfolding i by blast
  then show ?thesis using p t unfolding run i Let_def by simp
qed

text \<open>The monitor either serves every channel and returns 0, or it restarts one channel that
  fell back to the initial state and returns -1; the channels before it are served, the ones behind
  it wait for the next call. A served channel has no pending event and no pending configuration,
  a disabled one is not touched.\<close>

theorem state_mon_serves:
  assumes "length (hw_ch hw) = 4" "length (need_reconf hw) = 4" "sdfe4_state_mon hw = (r, as, hw')"
  shows "length (hw_ch hw') = 4 \<and> length (need_reconf hw') = 4 \<and>
    (r = 0 \<and> (\<forall>i < 4. served hw hw' i) \<or>
     r = -1 \<and> (\<exists>i < 4. restarted hw as hw' i \<and> (\<forall>j < i. served hw hw' j) \<and>
       (\<forall>j. i < j \<and> j < 4 \<longrightarrow> same_ch hw hw' j)))"
proof -
  have four: "[0, 1, 2, 3] = [0..<4]" by (simp add: upt_rec)
  have run: "state_mon_loop [0..<4] hw = (r, as, hw')" using assms(3) unfolding sdfe4_state_mon_def four .
  have len: "\<forall>i \<in> set [0..<4]. i < length (hw_ch hw)" "length (need_reconf hw) = length (hw_ch hw)"
    using assms(1,2) by simp_all
  note m = state_mon_loop_run [OF run distinct_upt len]
  from m consider "r = 0" "\<forall>i \<in> set [0..<4]. served hw hw' i"
    | pre i post where "r = -1" "[0..<4] = pre @ i # post" "restarted hw as hw' i"
        "\<forall>j \<in> set pre. served hw hw' j" "\<forall>j \<in> set post. same_ch hw hw' j" by blast
  then show ?thesis
  proof cases
    case 1
    then show ?thesis using m assms(1) by auto
  next
    case 2
    have "4 = length (pre @ i # post)" unfolding 2(2) [symmetric] by simp
    then have l: "length pre < 4" by simp
    have "[0..<4] ! length pre = i" unfolding 2(2) by simp
    then have i: "i = length pre" using l by simp
    have "set pre = set (take (length pre) [0..<4])" unfolding 2(2) by simp
    then have pre: "set pre = {0..<i}" using l i by simp
    have "set post = set (drop (Suc (length pre)) [0..<4])" unfolding 2(2) by simp
    then have post: "set post = {Suc i..<4}" using i by simp
    have "i < 4" using i l by simp
    moreover have "\<forall>j < i. served hw hw' j" using 2(4) unfolding pre by simp
    moreover have "\<forall>j. i < j \<and> j < 4 \<longrightarrow> same_ch hw hw' j" using 2(5) unfolding post by simp
    ultimately show ?thesis using 2(1,3) m assms(1) by auto
  qed
qed

theorem state_mon_serves_witness:
  "case sdfe4_state_mon example_chip of (r, as, hw') \<Rightarrow>
    r = -1 \<and> served example_chip hw' 0 \<and> served example_chip hw' 1 \<and> restarted example_chip as hw' 2 \<and>
    same_ch example_chip hw' 3"
proof -
  obtain r as hw' where run: "sdfe4_state_mon example_chip = (r, as, hw')" by (metis prod.exhaust)
  have r: "r = -1"
    using run by (simp add: sdfe4_state_mon_def example_chip_def idle_channel_def upd_ch_def MAIN_INIT_def
        MAIN_CORE_ACT_def MAIN_DATA_MODE_def sdfe4_reset_hwdev_chan_def split: prod.splits)
  have "length (hw_ch example_chip) = 4" "length (need_reconf example_chip) = 4" by (simp_all add: example_chip_def)
  from state_mon_serves [OF this run] r obtain i where
    i: "i < 4" "restarted example_chip as hw' i" "\<forall>j < i. served example_chip hw' j"
      "\<forall>j. i < j \<and> j < 4 \<longrightarrow> same_ch example_chip hw' j" by auto
  have "i = 0 \<or> i = 1 \<or> i = 2 \<or> i = 3" using i(1) by arith
  then have "i = 2"
    using i(2) by (auto simp: restarted_def example_chip_def idle_channel_def MAIN_INIT_def)
  then show ?thesis using i r unfolding run by simp
qed

end
