(* ===== verification/Sg17Sci.thy ===== *)
theory Sg17Sci
  imports Sdfe4 Sg17Net
begin

text \<open>
  The serial control interface of the SHDSL card (\<open>sg17sci.c\<close>): sending a message to the chip, the
  interrupt handler that receives the chip's messages, and waiting for an answer. What the controller
  and the chip do is a list of interrupts, each with the register contents the handler finds and the control bits
  that the controller cleared; register accesses of 16 bits are byte accesses, as \<open>sg17lan.h\<close> defines them.
\<close>

section \<open>State\<close>

abbreviation SCI_BUFF_SIZE :: nat where "SCI_BUFF_SIZE \<equiv> 2048"
abbreviation EINVAL :: int where "EINVAL \<equiv> 22"
abbreviation EAGAIN :: int where "EAGAIN \<equiv> 11"

record sg17_sci =
  sci_CRA :: u8
  sci_IMR :: u8
  sci_TXLEN :: u8
  rx_msg :: "u8 list"
  rx_len :: u8
  ch_map :: "u8 list"
  sci_tx_packets :: u32
  sci_tx_bytes :: u32
  sci_rx_packets :: u32
  hwdev :: sdfe4
  sci_sent :: "u8 list list"
  sci_waits :: nat

text \<open>An interrupt: the status, the bits cleared in \<open>CRA\<close>, the length and contents of the receive buffer, what
  the stack of the handler held before, and whether memory for a block can be had.\<close>

record sci_irq =
  q_SR :: u8
  q_clear :: u8
  q_RXLEN :: u8
  q_frame :: "u8 list"
  q_stack :: "u8 list"
  q_mem :: bool

section \<open>Operations\<close>

definition sg17_sci_init :: "sg17_sci \<Rightarrow> sg17_sci" where
  "sg17_sci_init s = s\<lparr>sci_tx_packets := 0, sci_tx_bytes := 0, sci_rx_packets := 0, ch_map := ((ch_map s)[0 := 0])[3 := 1]\<rparr>"

definition sg17_sci_enable :: "sg17_sci \<Rightarrow> sg17_sci" where
  "sg17_sci_enable s = s\<lparr>sci_CRA := XRST OR RXEN, sci_IMR := RXS OR TXS OR CRC OR COL\<rparr>"

definition sg17_sci_disable :: "sg17_sci \<Rightarrow> sg17_sci" where
  "sg17_sci_disable s = s\<lparr>sci_CRA := 0, sci_IMR := 0\<rparr>"

definition sg17_sci_xmit :: "u8 list \<Rightarrow> sg17_sci \<Rightarrow> int \<times> sg17_sci" where
  "sg17_sci_xmit msg s =
     (if length msg > SCI_BUFF_SIZE then (- EINVAL, s)
      else if sci_CRA s AND TXEN \<noteq> 0 then (- EAGAIN, s)
      else (0, s\<lparr>sci_sent := sci_sent s @ [msg], sci_TXLEN := of_nat (length msg), sci_CRA := sci_CRA s OR TXEN\<rparr>))"

text \<open>A received message: whether it wakes the sleeper for answers, and the one for notifications.\<close>

definition sci_intr_rx :: "sci_irq \<Rightarrow> sg17_sci \<Rightarrow> bool \<times> bool \<times> sg17_sci" where
  "sci_intr_rx q s =
     (case sdfe4_msg_init \<lparr>m_len = 0, m_buf = q_stack q\<rparr> (q_frame q) (int (unat (q_RXLEN q))) of
        (e, msg) \<Rightarrow>
          if e \<noteq> 0 then (False, False, s)
          else (case sdfe4_pamdsl_parse (q_mem q) msg (hwdev s) of
                  (t, acks, hw) \<Rightarrow>
                    (let s = fold (\<lambda>m s. snd (sg17_sci_xmit m s)) acks
                           (s\<lparr>sci_CRA := sci_CRA s OR RXEN, hwdev := hw\<rparr>)
                     in if t = NOT_PAMDSL \<or> t = PAMDSL_ACK then
                          (True, False, s\<lparr>rx_len := q_RXLEN q,
                             rx_msg := take (unat (q_RXLEN q)) (m_buf msg) @ drop (unat (q_RXLEN q)) (rx_msg s)\<rparr>)
                        else (False, t = PAMDSL_NFC, s))))"

definition sg17_sci_intr :: "sci_irq \<Rightarrow> sg17_sci \<Rightarrow> irqreturn \<times> bool \<times> bool \<times> sg17_sci" where
  "sg17_sci_intr q s =
     (let mask' = sci_IMR s; status = q_SR q AND mask' in
      if status = 0 then (IRQ_NONE, False, False, s)
      else
        (let s = (if status AND TXS \<noteq> 0
                  then s\<lparr>sci_tx_packets := sci_tx_packets s + 1, sci_tx_bytes := sci_tx_bytes s + ucast (sci_TXLEN s)\<rparr> else s);
             (wq, eq, s) =
               (if status AND RXS \<noteq> 0
                then (case sci_intr_rx q s of (wq, eq, s) \<Rightarrow> (wq, eq, s\<lparr>sci_rx_packets := sci_rx_packets s + 1\<rparr>))
                else (False, False, s))
         in (IRQ_HANDLED, wq, eq, s)))"

text \<open>The controller clears its bits, then the handler runs.\<close>

definition sci_irq_run :: "sci_irq \<Rightarrow> sg17_sci \<Rightarrow> bool \<times> sg17_sci" where
  "sci_irq_run q s = (case sg17_sci_intr q (s\<lparr>sci_CRA := sci_CRA s AND NOT (q_clear q)\<rparr>) of (_, wq, _, s) \<Rightarrow> (wq, s))"

definition sci_irqs :: "sci_irq list \<Rightarrow> sg17_sci \<Rightarrow> sg17_sci" where
  "sci_irqs qs s = fold (\<lambda>q s. snd (sci_irq_run q s)) qs s"

text \<open>Sleeping through interrupts until one wakes the sleeper; the others come later.\<close>

fun sci_sleep :: "sci_irq list \<Rightarrow> sg17_sci \<Rightarrow> bool \<times> sci_irq list \<times> sg17_sci" where
  "sci_sleep [] s = (False, [], s)"
| "sci_sleep (q # qs) s = (case sci_irq_run q s of (woken, s) \<Rightarrow> if woken then (True, qs, s) else sci_sleep qs s)"

text \<open>The sleep ends by a wake-up, by a signal or after its time.\<close>

definition sg17_sci_wait_intr :: "sci_irq list \<Rightarrow> bool \<Rightarrow> sg17_sci \<Rightarrow> int \<times> sci_irq list \<times> sg17_sci" where
  "sg17_sci_wait_intr qs signal s =
     (case sci_sleep qs s of
        (woken, rest, s) \<Rightarrow> if sci_CRA s AND RXEN = 0 then (1, rest, s) else (if woken \<or> signal then 1 else 0, rest, s))"

definition sg17_sci_recv :: "nat \<Rightarrow> u8 list \<Rightarrow> sg17_sci \<Rightarrow> int \<times> u8 list" where
  "sg17_sci_recv mlen msg s =
     (if mlen < unat (rx_len s) then (- EINVAL, msg)
      else (0, take (unat (rx_len s)) (rx_msg s) @ drop (unat (rx_len s)) msg))"

fun if2ch_loop :: "u8 list \<Rightarrow> nat \<Rightarrow> int \<Rightarrow> int" where
  "if2ch_loop [] i n = -1"
| "if2ch_loop (c # cs) i n = (if uint c = n then int i else if2ch_loop cs (i + 1) n)"

definition sg17_sci_if2ch :: "sg17_sci \<Rightarrow> int \<Rightarrow> int" where
  "sg17_sci_if2ch s if_num = (if if_num < 0 \<or> if_num > 4 then -1 else if2ch_loop (ch_map s) 0 if_num)"

section \<open>The interface of the control library\<close>

text \<open>The interrupts between sending and waiting, and from then on: those after the wake-up come before the
  answer is read.\<close>

record reaction =
  early :: "sci_irq list"
  late :: "sci_irq list"
  signalled :: bool

type_synonym chip = "u8 list list \<Rightarrow> nat \<Rightarrow> reaction"

definition sdfe4_hdlc_wait_intr :: "chip \<Rightarrow> sg17_sci \<Rightarrow> int \<times> sg17_sci" where
  "sdfe4_hdlc_wait_intr chip s =
     (let r = chip (sci_sent s) (sci_waits s);
          s = sci_irqs (early r) (s\<lparr>sci_waits := sci_waits s + 1\<rparr>)
      in case sg17_sci_wait_intr (late r) (signalled r) s of
           (ret, rest, s) \<Rightarrow> (if ret \<noteq> 0 then 0 else -1, sci_irqs rest s))"

definition sdfe4_hdlc_recv :: "u8 list \<Rightarrow> sg17_sci \<Rightarrow> int \<times> u8 list" where
  "sdfe4_hdlc_recv buf s = sg17_sci_recv SDFE4_FIFO8 buf s"

end
