(* ===== verification/Sdfe4Cmd.thy ===== *)
theory Sdfe4Cmd
  imports Sg17Sci
begin

text \<open>
  The commands of the SHDSL control library over the serial interface (\<open>sdfe4_lib.c\<close>): commands to the
  embedded controllers, to the loader and to the auxiliary block, the setup of a channel, and the download of
  the firmware. \<open>chip\<close> is how chip and controller react to what was sent; \<open>stack\<close> is what an uninitialised
  message buffer holds. Delays are left out.
\<close>

section \<open>One command\<close>

definition u8_to_u32 :: "u8 list \<Rightarrow> u32" where
  "u8_to_u32 src = ucast (src ! 0) + 256 * ucast (src ! 1) + 65536 * ucast (src ! 2) + 16777216 * ucast (src ! 3)"

definition le16 :: "u16 \<Rightarrow> u8 list" where
  "le16 w = [ucast w, ucast (drop_bit 8 w)]"

definition le32 :: "u32 \<Rightarrow> u8 list" where
  "le32 w = [ucast w, ucast (drop_bit 8 w), ucast (drop_bit 16 w), ucast (drop_bit 24 w)]"

definition sdfe4_chk_msglayer :: "u8 list \<Rightarrow> int" where
  "sdfe4_chk_msglayer msg = (if msg ! 0 \<noteq> 0xA9 then -1 else 0)"

text \<open>The result has the buffer with the answer.\<close>

definition sdfe4_pamdsl_cmd ::
  "chip \<Rightarrow> u8 list \<Rightarrow> u16 \<Rightarrow> u8 \<Rightarrow> u16 \<Rightarrow> u8 list \<Rightarrow> sg17_sci \<Rightarrow> int \<times> u8 list \<times> sg17_sci" where
  "sdfe4_pamdsl_cmd chip stack ack_id ch opcd params s =
     (case sg17_sci_xmit (pamdsl_msg ch opcd params (msg_cntr (hwdev s))) s of
        (e, s) \<Rightarrow>
          if e \<noteq> 0 then (-1, stack, s)
          else (case sdfe4_hdlc_wait_intr chip s of
                  (e, s) \<Rightarrow>
                    if e \<noteq> 0 then (-1, stack, s)
                    else (let buf = snd (sdfe4_hdlc_recv stack s)
                          in (if ack_id \<noteq> u16_at buf 4 then -1 else 0, buf, s))))"

abbreviation FW_PKT_SIZE :: nat where "FW_PKT_SIZE \<equiv> 64"

text \<open>\<open>stamp\<close>: a second answer follows. \<open>val\<close> keeps its value when no answer is read.\<close>

definition rs_msg :: "u8 \<Rightarrow> u32 list \<Rightarrow> u8 list" where
  "rs_msg opcd params = [0xF1, 0xF0 OR 0x05, 0, opcd] @ concat (map le32 params)"

definition rs_answer :: "chip \<Rightarrow> u8 list \<Rightarrow> u32 \<Rightarrow> sg17_sci \<Rightarrow> int \<times> u32 \<times> sg17_sci" where
  "rs_answer chip buf val s =
     (case sdfe4_hdlc_wait_intr chip s of
        (e, s) \<Rightarrow>
          if e \<noteq> 0 then (e, val, s)
          else (case sdfe4_hdlc_recv buf s of
                  (e, buf) \<Rightarrow>
                    if e \<noteq> 0 then (e, val, s)
                    else if sdfe4_chk_msglayer (drop 2 buf) \<noteq> 0 then (-1, val, s)
                    else (0, u8_to_u32 (drop 3 buf), s)))"

definition sdfe4_rs_cmd ::
  "chip \<Rightarrow> u8 list \<Rightarrow> u8 \<Rightarrow> u32 list \<Rightarrow> bool \<Rightarrow> u32 \<Rightarrow> sg17_sci \<Rightarrow> int \<times> u32 \<times> sg17_sci" where
  "sdfe4_rs_cmd chip stack opcd params stamp val s =
     (if length params > FW_PKT_SIZE div 4 + 1 then (-1, val, s)
      else
        (let msg = rs_msg opcd params in
         case sg17_sci_xmit msg s of
           (e, s) \<Rightarrow>
             if e \<noteq> 0 then (e, val, s)
             else (let buf = msg @ drop (length msg) stack in
                   case rs_answer chip buf val s of
                     (e, val, s) \<Rightarrow>
                       if e \<noteq> 0 then (e, val, s)
                       else if stamp
                       then rs_answer chip (snd (sdfe4_hdlc_recv buf s)) val s
                       else (0, val, s))))"

definition aux_msg :: "u8 \<Rightarrow> u8 \<Rightarrow> u8 list" where
  "aux_msg opcode param_1 = [0xF1, 0xF0 OR 0x09, opcode, param_1]"

definition sdfe4_aux_cmd :: "chip \<Rightarrow> u8 list \<Rightarrow> u8 \<Rightarrow> u8 \<Rightarrow> u32 \<Rightarrow> sg17_sci \<Rightarrow> int \<times> u32 \<times> sg17_sci" where
  "sdfe4_aux_cmd chip stack opcode param_1 val s =
     (let msg = aux_msg opcode param_1 in
      case sg17_sci_xmit msg s of
        (e, s) \<Rightarrow>
          if e \<noteq> 0 then (e, val, s)
          else (case sdfe4_hdlc_wait_intr chip s of
                  (e, s) \<Rightarrow>
                    if e \<noteq> 0 then (e, val, s)
                    else (case sdfe4_hdlc_recv (msg @ drop (length msg) stack) s of
                            (e, buf) \<Rightarrow>
                              if e \<noteq> 0 then (e, val, s)
                              else if sdfe4_chk_msglayer (drop 2 buf) \<noteq> 0 then (-1, val, s)
                              else (0, u8_to_u32 (drop 3 buf), s))))"

section \<open>Setup of a channel\<close>

record sdfe4_if_cfg =
  cf_mode :: "2 word"
  cf_repeater :: bool
  cf_startup :: u8
  cf_transaction :: "2 word"
  cf_annex :: "2 word"
  cf_input_mode :: u8
  cf_loop :: "2 word"
  cf_tc_pam :: bool
  cf_frequency :: u16
  cf_payload_bits :: u16
  cf_rate :: u16

definition STU_C :: "2 word" where "STU_C = 1"
definition STU_R :: "2 word" where "STU_R = 2"

definition sym_dsl_mode :: "sdfe4_if_cfg \<Rightarrow> u8 list" where
  "sym_dsl_mode c = [ucast (cf_mode c), (if cf_repeater c then 1 else 0), 1] @ replicate 8 0"

definition ghs_mode :: "sdfe4_if_cfg \<Rightarrow> u8 list" where
  "ghs_mode c = [ucast (cf_transaction c), cf_startup c, 0, 0, 8] @ replicate 7 0"

text \<open>The limits of the rates: minimum and maximum, and those for 16 and for 32 levels.\<close>

definition base_rates :: "sdfe4_if_cfg \<Rightarrow> u16 list" where
  "base_rates c =
     (if cf_mode c = STU_R then [192, 2304, 2368, 3840, 768, 5696]
      else if cf_tc_pam c then [0, 0, 0, 0, 768, cf_rate c]
      else if cf_rate c > 2304 then [192, 2304, 2368, cf_rate c, 0, 0]
      else [192, cf_rate c, 0, 0, 0, 0])"

definition caplist :: "sdfe4_if_cfg \<Rightarrow> u8 list" where
  "caplist c = [1, ucast (cf_annex c), 0, 0] @ concat (map le16 (base_rates c)) @ replicate 40 0"

definition sdi_settings :: "sdfe4_if_cfg \<Rightarrow> u8 list" where
  "sdi_settings c = [cf_input_mode c, 8] @ le16 (cf_frequency c) @ le16 (cf_payload_bits c) @
     [0x30, ucast (cf_loop c), 0, 0, 0x10, 0]"

definition sdi_rx :: "u8 list" where
  "sdi_rx = le32 0 @ [0, 1, 1, 0] @ le32 0x93 @ [0, 0, 0, 0]"

definition sdi_tx :: "u8 list" where
  "sdi_tx = le32 0 @ [0, 1, 0, 0] @ le32 0x93 @ [0, 0, 0, 0]"

datatype chan_cmd = Pamdsl u16 u16 "u8 list" | Aux u8 u8

text \<open>The commands in their order: expected acknowledgement, command and parameters.\<close>

definition chan_cmds :: "sdfe4_if_cfg \<Rightarrow> chan_cmd list" where
  "chan_cmds c =
     [Pamdsl 0x2622 0x0404 (sym_dsl_mode c), Pamdsl 0x0604 0x2422 (ghs_mode c), Pamdsl 0x2652 0x2452 (caplist c),
      Aux 0xA1 0x03, Aux 0x89 0x00, Aux 0x81 0x82,
      Pamdsl 0x860F 0x840F (sdi_settings c), Pamdsl 0x862F 0x842F sdi_rx, Pamdsl 0x861F 0x841F sdi_tx,
      Pamdsl 0xA622 0xA422 (le16 800)]"

fun run_cmds :: "chip \<Rightarrow> u8 list \<Rightarrow> u8 \<Rightarrow> chan_cmd list \<Rightarrow> sg17_sci \<Rightarrow> int \<times> sg17_sci" where
  "run_cmds chip stack ch [] s = (0, s)"
| "run_cmds chip stack ch (Pamdsl ack_id opcd params # cs) s =
     (case sdfe4_pamdsl_cmd chip stack ack_id ch opcd params s of
        (e, _, s) \<Rightarrow> if e \<noteq> 0 then (-1, s) else run_cmds chip stack ch cs s)"
| "run_cmds chip stack ch (Aux opcode param_1 # cs) s =
     (case sdfe4_aux_cmd chip stack opcode param_1 0 s of
        (e, _, s) \<Rightarrow> if e \<noteq> 0 then (-1, s) else run_cmds chip stack ch cs s)"

definition sdfe4_setup_chan :: "chip \<Rightarrow> u8 list \<Rightarrow> (nat \<Rightarrow> sdfe4_if_cfg) \<Rightarrow> u8 \<Rightarrow> sg17_sci \<Rightarrow> int \<times> sg17_sci" where
  "sdfe4_setup_chan chip stack cfg ch s = run_cmds chip stack ch (chan_cmds (cfg (unat ch))) s"

definition sdfe4_start_channel :: "chip \<Rightarrow> u8 list \<Rightarrow> u8 \<Rightarrow> sg17_sci \<Rightarrow> int \<times> sg17_sci" where
  "sdfe4_start_channel chip stack ch s =
     (case sdfe4_pamdsl_cmd chip stack 0x0E04 ch 0x0C04 [1, 0, 0] s of
        (e, buf, s) \<Rightarrow> if e \<noteq> 0 then (-1, s) else if buf ! EMB_HDR \<noteq> 1 then (-1, s) else (0, s))"

definition sdfe4_disable_channel :: "chip \<Rightarrow> u8 list \<Rightarrow> u8 \<Rightarrow> sg17_sci \<Rightarrow> int \<times> sg17_sci" where
  "sdfe4_disable_channel chip stack ch s =
     (case sdfe4_pamdsl_cmd chip stack 0x0E04 ch 0x0C04 [0, 0, 0] s of
        (e, _, s) \<Rightarrow> (if e \<noteq> 0 then -1 else 0, s))"

text \<open>Starting the enabled channels of a list.\<close>

fun start_modems :: "chip \<Rightarrow> u8 list \<Rightarrow> nat list \<Rightarrow> sg17_sci \<Rightarrow> int \<times> sg17_sci" where
  "start_modems chip stack [] s = (0, s)"
| "start_modems chip stack (i # is) s =
     (if ch_enabled (hw_ch (hwdev s) ! i) then
        (case sdfe4_start_channel chip stack (of_nat i) s of
           (e, s) \<Rightarrow> if e \<noteq> 0 then (-1, s) else start_modems chip stack is s)
      else start_modems chip stack is s)"

definition sdfe4_start_as_modem :: "chip \<Rightarrow> u8 list \<Rightarrow> sg17_sci \<Rightarrow> int \<times> sg17_sci" where
  "sdfe4_start_as_modem chip stack s = start_modems chip stack [0, 1, 2, 3] s"

definition sdfe4_load_config ::
  "chip \<Rightarrow> u8 list \<Rightarrow> u8 \<Rightarrow> sdfe4_if_cfg \<Rightarrow> sg17_sci \<Rightarrow> int \<times> sdfe4_if_cfg \<times> sg17_sci" where
  "sdfe4_load_config chip stack ch c s =
     (case sdfe4_pamdsl_cmd chip stack 0x4A02 ch 0x4802 [] s of
        (e, buf, s) \<Rightarrow>
          if e \<noteq> 0 then (-1, c, s)
          else (0, c\<lparr>cf_annex := ucast (buf ! 10), cf_tc_pam := (buf ! 27 \<ge> 4), cf_rate := u16_at buf 12\<rparr>, s))"

definition sdfe4_get_statistic :: "chip \<Rightarrow> u8 list \<Rightarrow> u8 \<Rightarrow> u8 list \<Rightarrow> sg17_sci \<Rightarrow> int \<times> u8 list \<times> sg17_sci" where
  "sdfe4_get_statistic chip stack ch stat s =
     (case sdfe4_pamdsl_cmd chip stack 0x9632 ch 0x9432 [] s of
        (e, buf, s) \<Rightarrow> if e \<noteq> 0 then (-1, stat, s) else (0, take 14 (drop 8 buf) @ drop 14 stat, s))"

section \<open>Download of the firmware\<close>

abbreviation FW_CODE_SIZE :: nat where "FW_CODE_SIZE \<equiv> 0x1C000"
abbreviation FW_DATA_SIZE :: nat where "FW_DATA_SIZE \<equiv> 0x8000"
abbreviation FW_DATA_OFFS :: nat where "FW_DATA_OFFS \<equiv> 0x1C000"

definition CODE_CRC :: "u8 list" where "CODE_CRC = [0xE0, 0xF3, 0x4E, 0x7D]"
definition DATA_CRC :: "u8 list" where "DATA_CRC = [0x8F, 0xED, 0xEF, 0xFC]"

text \<open>Reading behind the firmware, looping forever, returning -1, and going on with the last value.\<close>

datatype fw_outcome = Overread | Hangs | Fails sg17_sci | Goes u32 sg17_sci

fun and_then :: "fw_outcome \<Rightarrow> (u32 \<Rightarrow> sg17_sci \<Rightarrow> fw_outcome) \<Rightarrow> fw_outcome" where
  "and_then (Goes val s) f = f val s"
| "and_then out f = out"

definition fw_cmd :: "chip \<Rightarrow> u8 list \<Rightarrow> u8 \<Rightarrow> u32 list \<Rightarrow> u32 \<Rightarrow> sg17_sci \<Rightarrow> fw_outcome" where
  "fw_cmd chip stack opcd params val s =
     (case sdfe4_rs_cmd chip stack opcd params False val s of
        (e, val, s) \<Rightarrow> if e \<noteq> 0 then Fails s else Goes val s)"

text \<open>A packet: its address in words and 16 words, each with its bytes swapped.\<close>

definition fw_packet :: "u8 list \<Rightarrow> nat \<Rightarrow> nat \<Rightarrow> u32 list" where
  "fw_packet fw offs k =
     of_nat (k * FW_PKT_SIZE div 4) #
     map (\<lambda>i. u8_to_u32 (rev (take 4 (drop (offs + k * FW_PKT_SIZE + i * 4) fw)))) [0..<16]"

fun fw_packets :: "chip \<Rightarrow> u8 list \<Rightarrow> u8 list \<Rightarrow> nat \<Rightarrow> nat list \<Rightarrow> u32 \<Rightarrow> sg17_sci \<Rightarrow> fw_outcome" where
  "fw_packets chip stack fw offs [] val s = Goes val s"
| "fw_packets chip stack fw offs (k # ks) val s =
     (if length fw < offs + k * FW_PKT_SIZE + FW_PKT_SIZE then Overread
      else and_then (fw_cmd chip stack 0x03 (fw_packet fw offs k) val s) (fw_packets chip stack fw offs ks))"

text \<open>The chip computes a checksum; when that command fails, the checksum is read.\<close>

definition fw_check :: "chip \<Rightarrow> u8 list \<Rightarrow> u32 \<Rightarrow> u8 list \<Rightarrow> u32 \<Rightarrow> sg17_sci \<Rightarrow> fw_outcome" where
  "fw_check chip stack ctrl crc val s =
     and_then
       (case sdfe4_rs_cmd chip stack 0x01 [ctrl] True val s of
          (e, val, s) \<Rightarrow> if e \<noteq> 0 then fw_cmd chip stack 0x20 [0] val s else Goes val s)
       (\<lambda>val s. if le32 val \<noteq> crc then Fails s else Goes val s)"

definition enabled_mask :: "sdfe4 \<Rightarrow> u32" where
  "enabled_mask hw = fold (\<lambda>i m. if ch_enabled (hw_ch hw ! i) then m OR push_bit i 1 else m) [0..<4] 0"

fun clear_states :: "nat list \<Rightarrow> u32 \<Rightarrow> sg17_sci \<Rightarrow> fw_outcome" where
  "clear_states [] val s = Goes val s"
| "clear_states (i # is) val s =
     (let c = hw_ch (hwdev s) ! i in
      if ch_enabled c \<and> ch_state c \<noteq> MAIN_INIT then Fails s
      else clear_states is val (s\<lparr>hwdev := upd_ch i (\<lambda>c. c\<lparr>ch_state_change := False\<rparr>) (hwdev s)\<rparr>))"

definition sdfe4_download_fw :: "chip \<Rightarrow> u8 list \<Rightarrow> u8 list \<Rightarrow> u32 \<Rightarrow> sg17_sci \<Rightarrow> fw_outcome" where
  "sdfe4_download_fw chip stack fw val s =
     and_then (fw_cmd chip stack 0x61 [0] val s) (\<lambda>val s.
     and_then (fw_cmd chip stack 0x01 [0] val s) (\<lambda>val s.
     and_then (fw_packets chip stack fw 0 [0..<FW_CODE_SIZE div FW_PKT_SIZE] val s) (\<lambda>val s.
     and_then (fw_check chip stack 0x100 CODE_CRC val s) (\<lambda>val s.
     and_then (fw_cmd chip stack 0x01 [0x10000] val s) (\<lambda>val s.
     and_then (fw_packets chip stack fw FW_DATA_OFFS [0..<FW_DATA_SIZE div FW_PKT_SIZE] val s) (\<lambda>val s.
     and_then (fw_check chip stack 0x10100 DATA_CRC val s) (\<lambda>val s.
     and_then (case fw_cmd chip stack 0x41 [0x120C0608] val s of Fails _ \<Rightarrow> Hangs | out \<Rightarrow> out) (\<lambda>val s.
     and_then (fw_cmd chip stack 0x01 [1] val s) (\<lambda>val s.
     and_then (fw_cmd chip stack 0x61 [enabled_mask (hwdev s)] val s) (clear_states [0, 1, 2, 3]))))))))))"

end
