(* ===== verification/Sdfe4Run.thy ===== *)
theory Sdfe4Run
  imports Sdfe4Cmd
begin

text \<open>
  What commands to the SHDSL chip achieve: interrupts keep the configuration of the channels and send nothing but
  acknowledgements, a command gets the first answer that wakes it, and the firmware reaches the loader
  packet by packet.
\<close>

section \<open>Interrupts\<close>

definition same_channels :: "sdfe4 \<Rightarrow> sdfe4 \<Rightarrow> bool" where
  "same_channels hw hw' \<longleftrightarrow> length (hw_ch hw') = length (hw_ch hw) \<and>
     (\<forall>i < length (hw_ch hw). ch_enabled (hw_ch hw' ! i) = ch_enabled (hw_ch hw ! i))"

lemma same_channels_refl [simp]: "same_channels hw hw"
  by (simp add: same_channels_def)

lemma same_channels_trans: "same_channels a b \<Longrightarrow> same_channels b c \<Longrightarrow> same_channels a c"
  by (simp add: same_channels_def)

lemma same_channels_upd:
  "(\<And>c. ch_enabled (f c) = ch_enabled c) \<Longrightarrow> same_channels hw (upd_ch i f hw)"
  unfolding same_channels_def upd_ch_def by (simp, metis nth_list_update_eq nth_list_update_neq)

text \<open>Messages to the loader are told from acknowledgements by their address.\<close>

definition to_loader :: "u8 list \<Rightarrow> bool" where
  "to_loader m \<longleftrightarrow> m ! 1 = 0xF5"

definition rs_sent :: "sg17_sci \<Rightarrow> u8 list list" where
  "rs_sent s = filter to_loader (sci_sent s)"

lemma ack_not_loader:
  assumes "chan AND 1 = 0"
  shows "\<not> to_loader (sdfe4_pamdsl_ack chan h)"
proof
  assume "to_loader (sdfe4_pamdsl_ack chan h)"
  then have "bit (0xF0 OR (chan AND 0xF)) 0 = bit (0xF5 :: u8) 0" by (simp add: to_loader_def sdfe4_pamdsl_ack_def)
  then have "bit chan 0" by (simp add: bit_simps)
  moreover have "bit (chan AND 1) 0 = bit chan 0" by (simp add: bit_simps)
  ultimately show False using assms by simp
qed

lemma parse_frame:
  "case sdfe4_pamdsl_parse ok msg hw of (t, acks, hw') \<Rightarrow> same_channels hw hw' \<and> (\<forall>m \<in> set acks. \<not> to_loader m)"
proof -
  have cn: "same_channels hw (hw\<lparr>msg_cntr := x\<rparr>)" for x by (simp add: same_channels_def)
  have nfc: "same_channels hw (snd (sdfe4_pamdsl_nfc ok msg (hw\<lparr>msg_cntr := x\<rparr>)))" for x
  proof -
    obtain f where "snd (sdfe4_pamdsl_nfc ok msg (hw\<lparr>msg_cntr := x\<rparr>)) =
        upd_ch (PEF24624_PAMDSL_ADR (m_buf msg ! 0)) f (hw\<lparr>msg_cntr := x\<rparr>)" "\<forall>c. ch_enabled (f c) = ch_enabled c"
      using nfc_channel [of ok msg "hw\<lparr>msg_cntr := x\<rparr>"] by blast
    then show ?thesis using same_channels_upd [of f] same_channels_trans [OF cn] by metis
  qed
  show ?thesis
    using nfc [of "msg_cntr hw + 1"] cn ack_not_loader [of "m_buf msg ! 0"]
    by (simp add: sdfe4_pamdsl_parse_def Let_def)
qed

text \<open>The frame of an interrupt: what it leaves alone.\<close>

definition irq_frame :: "sg17_sci \<Rightarrow> sg17_sci \<Rightarrow> bool" where
  "irq_frame s s' \<longleftrightarrow> sci_IMR s' = sci_IMR s \<and> rs_sent s' = rs_sent s \<and> sci_waits s' = sci_waits s \<and>
     same_channels (hwdev s) (hwdev s')"

lemma irq_frame_refl [simp]: "irq_frame s s"
  by (simp add: irq_frame_def)

lemma irq_frame_trans: "irq_frame a b \<Longrightarrow> irq_frame b c \<Longrightarrow> irq_frame a c"
  using same_channels_trans by (auto simp: irq_frame_def)

lemma acks_frame:
  "\<forall>m \<in> set acks. \<not> to_loader m \<Longrightarrow>
   (let s' = fold (\<lambda>m s. snd (sg17_sci_xmit m s)) acks s in
     irq_frame s s' \<and> rx_len s' = rx_len s \<and> rx_msg s' = rx_msg s \<and> hwdev s' = hwdev s)"
proof (induction acks arbitrary: s)
  case Nil
  then show ?case by simp
next
  case (Cons m acks)
  have "irq_frame s (snd (sg17_sci_xmit m s)) \<and> rx_len (snd (sg17_sci_xmit m s)) = rx_len s \<and>
      rx_msg (snd (sg17_sci_xmit m s)) = rx_msg s \<and> hwdev (snd (sg17_sci_xmit m s)) = hwdev s"
    using Cons.prems by (simp add: sg17_sci_xmit_def irq_frame_def rs_sent_def)
  moreover have "\<forall>m \<in> set acks. \<not> to_loader m" using Cons.prems by simp
  ultimately show ?case using Cons.IH [of "snd (sg17_sci_xmit m s)"] irq_frame_trans by (fastforce simp: Let_def)
qed

lemma rx_frame: "irq_frame s (snd (snd (sci_intr_rx q s)))"
proof -
  obtain e msg where m: "sdfe4_msg_init \<lparr>m_len = 0, m_buf = q_stack q\<rparr> (q_frame q) (int (unat (q_RXLEN q))) = (e, msg)"
    by (metis prod.exhaust)
  obtain t acks hw where p: "sdfe4_pamdsl_parse (q_mem q) msg (hwdev s) = (t, acks, hw)" by (metis prod.exhaust)
  have pf: "same_channels (hwdev s) hw" "\<forall>m \<in> set acks. \<not> to_loader m"
    using parse_frame [where ok = "q_mem q" and msg = msg and hw = "hwdev s"] unfolding p by simp_all
  let ?s2 = "s\<lparr>sci_CRA := sci_CRA s OR RXEN, hwdev := hw\<rparr>"
  let ?s3 = "fold (\<lambda>m s. snd (sg17_sci_xmit m s)) acks ?s2"
  have "irq_frame s ?s2" using pf(1) by (simp add: irq_frame_def rs_sent_def)
  then have s3: "irq_frame s ?s3" using acks_frame [OF pf(2), of ?s2] irq_frame_trans by (metis (no_types, lifting))
  then have "irq_frame s (?s3\<lparr>rx_len := l, rx_msg := b\<rparr>)" for l b by (simp add: irq_frame_def rs_sent_def)
  then show ?thesis unfolding sci_intr_rx_def m using s3 by (simp add: Let_def p)
qed

lemma intr_frame: "irq_frame s (snd (snd (snd (sg17_sci_intr q s))))"
proof -
  have tx: "irq_frame s (s\<lparr>sci_tx_packets := a, sci_tx_bytes := b\<rparr>)" for a b by (simp add: irq_frame_def rs_sent_def)
  have rx: "irq_frame s (snd (snd (sci_intr_rx q x))\<lparr>sci_rx_packets := c\<rparr>)" if "irq_frame s x" for x c
    using irq_frame_trans [OF that rx_frame [of x q]] by (simp add: irq_frame_def rs_sent_def)
  show ?thesis using tx rx [OF tx] rx [OF irq_frame_refl]
    by (simp add: sg17_sci_intr_def Let_def case_prod_beta)
qed

lemma irq_run_frame: "irq_frame s (snd (sci_irq_run q s))"
proof -
  have "irq_frame s (s\<lparr>sci_CRA := c\<rparr>)" for c by (simp add: irq_frame_def rs_sent_def)
  then show ?thesis using intr_frame irq_frame_trans by (fastforce simp: sci_irq_run_def case_prod_beta)
qed

text \<open>What every interrupt keeps, waiting keeps: a preorder on states that single interrupts respect.\<close>

locale irq_kept =
  fixes good :: "sci_irq \<Rightarrow> bool" and kept :: "sg17_sci \<Rightarrow> sg17_sci \<Rightarrow> bool"
  assumes kept_refl: "kept s s"
    and kept_trans: "kept a b \<Longrightarrow> kept b c \<Longrightarrow> kept a c"
    and kept_run: "good q \<Longrightarrow> kept s (snd (sci_irq_run q s))"
begin

lemma kept_irqs: "list_all good qs \<Longrightarrow> kept s (sci_irqs qs s)"
proof (induction qs arbitrary: s)
  case Nil
  then show ?case by (simp add: sci_irqs_def kept_refl)
next
  case (Cons q qs)
  then show ?case using kept_trans [OF kept_run [of q s]] by (simp add: sci_irqs_def)
qed

lemma kept_sleep:
  "list_all good qs \<Longrightarrow> kept s (snd (snd (sci_sleep qs s))) \<and> list_all good (fst (snd (sci_sleep qs s)))"
proof (induction qs arbitrary: s)
  case Nil
  then show ?case by (simp add: kept_refl)
next
  case (Cons q qs)
  then show ?case using kept_trans [OF kept_run [of q s]] kept_run [of q s] by (simp add: case_prod_beta)
qed

lemma kept_wait:
  assumes "list_all good (early (chip (sci_sent s) (sci_waits s)) @ late (chip (sci_sent s) (sci_waits s)))"
  shows "kept (s\<lparr>sci_waits := sci_waits s + 1\<rparr>) (snd (sdfe4_hdlc_wait_intr chip s))"
proof -
  let ?r = "chip (sci_sent s) (sci_waits s)"
  let ?s1 = "sci_irqs (early ?r) (s\<lparr>sci_waits := sci_waits s + 1\<rparr>)"
  obtain woken rest s2 where sl: "sci_sleep (late ?r) ?s1 = (woken, rest, s2)" by (metis prod.exhaust)
  have "kept ?s1 s2" "list_all good rest" using kept_sleep [of "late ?r" ?s1] assms sl by simp_all
  then have "kept (s\<lparr>sci_waits := sci_waits s + 1\<rparr>) (sci_irqs rest s2)"
    using assms kept_irqs kept_trans by (metis list_all_append)
  then show ?thesis unfolding sdfe4_hdlc_wait_intr_def Let_def sg17_sci_wait_intr_def sl prod.case
    by (simp only: prod.case snd_conv split: if_split) simp
qed

end

interpretation frame: irq_kept "\<lambda>_. True" irq_frame
  by unfold_locales (use irq_run_frame irq_frame_trans in auto)


section \<open>The mailbox of answers\<close>

text \<open>
  What waiting for an answer comes to: a mailbox of one answer, and whether the receiver is on. A message of at most
  128 bytes turns the receiver on again; one from the loader or an acknowledged answer goes to the mailbox
  and wakes the sleeper.
\<close>

fun frame_kind :: "u8 list \<Rightarrow> pamdsl_type" where
  "frame_kind (chan # _ # hdr0 # hdr1 # _) =
     (if chan AND 1 \<noteq> 0 then NOT_PAMDSL
      else if hdr0 AND 0xFE = 0x88 \<or> hdr0 AND 0xFE = 0x06 \<or> hdr0 AND 0xFE = 0x8E then PAMDSL_SYNC
      else if hdr0 AND 0xFE = 0x08 then (if hdr1 \<noteq> 0 then PAMDSL_NFC else PAMDSL_ACK)
      else PAMDSL_ERROR)"
| "frame_kind _ = PAMDSL_ERROR"

type_synonym mailbox = "bool \<times> u8 list"

definition good_frame :: "u8 \<Rightarrow> sci_irq \<Rightarrow> bool" where
  "good_frame m q \<longleftrightarrow> (q_SR q AND m) AND RXS \<noteq> 0 \<and> unat (q_RXLEN q) \<le> SDFE4_FIFO8"

definition irq_message :: "sci_irq \<Rightarrow> u8 list" where
  "irq_message q = take (unat (q_RXLEN q)) (q_frame q)"

definition answers :: "u8 \<Rightarrow> sci_irq \<Rightarrow> bool" where
  "answers m q \<longleftrightarrow> good_frame m q \<and> frame_kind (irq_message q) \<in> {NOT_PAMDSL, PAMDSL_ACK}"

definition box_step :: "u8 \<Rightarrow> sci_irq \<Rightarrow> mailbox \<Rightarrow> mailbox" where
  "box_step m q b = (good_frame m q \<or> (fst b \<and> q_clear q AND RXEN = 0), if answers m q then irq_message q else snd b)"

definition box_steps :: "u8 \<Rightarrow> sci_irq list \<Rightarrow> mailbox \<Rightarrow> mailbox" where
  "box_steps m qs b = fold (box_step m) qs b"

text \<open>Waiting: answers before the sleep wake nobody; the sleep ends with the first answer after.\<close>

definition await :: "u8 \<Rightarrow> reaction \<Rightarrow> mailbox \<Rightarrow> bool \<times> mailbox" where
  "await m r b =
     (let b = box_steps m (early r) b;
          asleep = takeWhile (\<lambda>q. \<not> answers m q) (late r);
          woken = (list_ex (answers m) (late r) \<or> signalled r \<or> \<not> fst (box_steps m asleep b))
      in (woken, box_steps m (late r) b))"

text \<open>The buffer of the controller holds the bytes it announces, a whole header among them.\<close>

definition irq_ok :: "sci_irq \<Rightarrow> bool" where
  "irq_ok q \<longleftrightarrow> 4 \<le> unat (q_RXLEN q) \<and> unat (q_RXLEN q) \<le> length (q_frame q)"

definition box :: "sg17_sci \<Rightarrow> mailbox" where
  "box s = (sci_CRA s AND RXEN \<noteq> 0, take (unat (rx_len s)) (rx_msg s))"

lemma frame_kind_parse:
  "4 \<le> length (m_buf msg) \<Longrightarrow> fst (sdfe4_pamdsl_parse ok msg hw) = frame_kind (m_buf msg)"
  by (cases "m_buf msg" rule: frame_kind.cases) (simp_all add: sdfe4_pamdsl_parse_def Let_def)

lemma frame_kind_append: "4 \<le> length xs \<Longrightarrow> frame_kind (xs @ ys) = frame_kind xs"
  by (cases xs rule: frame_kind.cases) auto

lemma xmit_box: "box (snd (sg17_sci_xmit m s)) = box s"
  by (simp add: sg17_sci_xmit_def box_def bit.conj_disj_distrib2 RXEN_def TXEN_def)

lemma acks_box: "box (fold (\<lambda>m s. snd (sg17_sci_xmit m s)) acks s) = box s"
  by (induction acks arbitrary: s) (simp_all add: xmit_box)

lemma RXEN_nonzero [simp]: "RXEN \<noteq> 0"
  by (simp add: RXEN_def)

lemma rx_on: "(c OR RXEN) AND RXEN \<noteq> 0"
  by (simp add: bit.conj_disj_distrib2 RXEN_def)

lemma rx_box:
  assumes ok: "irq_ok q"
  shows "case sci_intr_rx q s of (wq, _, s') \<Rightarrow>
     (let good = unat (q_RXLEN q) \<le> SDFE4_FIFO8; kind = frame_kind (irq_message q) in
      wq = (good \<and> kind \<in> {NOT_PAMDSL, PAMDSL_ACK}) \<and>
      box s' = (good \<or> fst (box s), if wq then irq_message q else snd (box s)))"
proof (cases "unat (q_RXLEN q) \<le> SDFE4_FIFO8")
  case False
  then have "int (unat (q_RXLEN q)) > int SDFE4_FIFO8" by linarith
  then have "sci_intr_rx q s = (False, False, s)" unfolding sci_intr_rx_def sdfe4_msg_init_def by (simp only: if_True) simp
  then show ?thesis using False by (simp add: box_def)
next
  case True
  define msg where "msg = \<lparr>m_len = int (unat (q_RXLEN q)), m_buf = irq_message q @ drop (unat (q_RXLEN q)) (q_stack q)\<rparr>"
  have len: "length (irq_message q) = unat (q_RXLEN q)" "4 \<le> length (irq_message q)"
    using ok by (simp_all add: irq_ok_def irq_message_def)
  have m: "sdfe4_msg_init \<lparr>m_len = 0, m_buf = q_stack q\<rparr> (q_frame q) (int (unat (q_RXLEN q))) = (0, msg)"
  proof -
    have "\<not> int (unat (q_RXLEN q)) > int SDFE4_FIFO8" using True by linarith
    then show ?thesis unfolding sdfe4_msg_init_def msg_def irq_message_def by (simp only: if_False nat_int) simp
  qed
  obtain t acks hw where p: "sdfe4_pamdsl_parse (q_mem q) msg (hwdev s) = (t, acks, hw)" by (metis prod.exhaust)
  have t: "t = frame_kind (irq_message q)"
    using frame_kind_parse [of msg "q_mem q" "hwdev s"] frame_kind_append len p by (simp add: msg_def)
  let ?s3 = "fold (\<lambda>m s. snd (sg17_sci_xmit m s)) acks (s\<lparr>sci_CRA := sci_CRA s OR RXEN, hwdev := hw\<rparr>)"
  have b3: "box ?s3 = (True, snd (box s))" unfolding acks_box by (simp add: box_def rx_on)
  have tk: "take (unat (q_RXLEN q)) (m_buf msg) = irq_message q" using len by (simp add: msg_def)
  have "box (?s3\<lparr>rx_len := q_RXLEN q, rx_msg := irq_message q @ drop (unat (q_RXLEN q)) (rx_msg ?s3)\<rparr>) =
      (True, irq_message q)"
    using b3 len by (simp add: box_def)
  then show ?thesis unfolding sci_intr_rx_def m using True b3 by (simp add: p t Let_def tk)
qed

lemma rxen_bit: "x AND RXEN = 0 \<longleftrightarrow> \<not> bit x 1"
  using and_exp_eq_0_iff_not_bit [of x 1] by (simp add: RXEN_def)

lemma intr_box:
  assumes ok: "irq_ok q"
  shows "fst (snd (sg17_sci_intr q s)) = answers (sci_IMR s) q"
    "box (snd (snd (snd (sg17_sci_intr q s)))) =
      (good_frame (sci_IMR s) q \<or> fst (box s), if answers (sci_IMR s) q then irq_message q else snd (box s))"
proof -
  have tx: "box (s\<lparr>sci_tx_packets := a, sci_tx_bytes := b\<rparr>) = box s" for a b by (simp add: box_def)
  have st: "box (x\<lparr>sci_rx_packets := c\<rparr>) = box x" for x c by (simp add: box_def)
  have rx: "fst (sci_intr_rx q x) = (unat (q_RXLEN q) \<le> SDFE4_FIFO8 \<and>
        frame_kind (irq_message q) \<in> {NOT_PAMDSL, PAMDSL_ACK})"
    "box (snd (snd (sci_intr_rx q x))) = (unat (q_RXLEN q) \<le> SDFE4_FIFO8 \<or> fst (box x),
        if fst (sci_intr_rx q x) then irq_message q else snd (box x))" for x
    using rx_box [OF ok, of x] by (simp_all add: case_prod_beta Let_def)
  show "fst (snd (sg17_sci_intr q s)) = answers (sci_IMR s) q"
    using rx(1) by (simp add: sg17_sci_intr_def Let_def case_prod_beta answers_def good_frame_def)
  show "box (snd (snd (snd (sg17_sci_intr q s)))) =
      (good_frame (sci_IMR s) q \<or> fst (box s), if answers (sci_IMR s) q then irq_message q else snd (box s))"
    by (cases "q_SR q AND sci_IMR s = 0"; cases "(q_SR q AND sci_IMR s) AND RXS = 0";
        cases "(q_SR q AND sci_IMR s) AND TXS = 0")
      (simp_all add: sg17_sci_intr_def Let_def case_prod_beta answers_def good_frame_def st rx tx, blast)
qed

lemma irq_box:
  assumes ok: "irq_ok q"
  shows "fst (sci_irq_run q s) = answers (sci_IMR s) q"
    "box (snd (sci_irq_run q s)) = box_step (sci_IMR s) q (box s)"
proof -
  let ?s0 = "s\<lparr>sci_CRA := sci_CRA s AND NOT (q_clear q)\<rparr>"
  have b0: "box ?s0 = (fst (box s) \<and> q_clear q AND RXEN = 0, snd (box s))" by (auto simp: box_def rxen_bit bit_simps)
  show "fst (sci_irq_run q s) = answers (sci_IMR s) q"
    using intr_box(1) [OF ok, of ?s0] by (simp add: sci_irq_run_def case_prod_beta)
  show "box (snd (sci_irq_run q s)) = box_step (sci_IMR s) q (box s)"
    using intr_box(2) [OF ok, of ?s0] b0 by (simp add: sci_irq_run_def case_prod_beta box_step_def)
qed

lemma irqs_box: "list_all irq_ok qs \<Longrightarrow> box (sci_irqs qs s) = box_steps (sci_IMR s) qs (box s)"
proof (induction qs arbitrary: s)
  case Nil
  then show ?case by (simp add: sci_irqs_def box_steps_def)
next
  case (Cons q qs)
  moreover have "sci_IMR (snd (sci_irq_run q s)) = sci_IMR s" using irq_run_frame [of s q] by (simp add: irq_frame_def)
  ultimately show ?case using irq_box(2) [of q s] by (simp add: sci_irqs_def box_steps_def)
qed

text \<open>The message last received fits the buffer of a command.\<close>

definition sci_ok :: "sg17_sci \<Rightarrow> bool" where
  "sci_ok s \<longleftrightarrow> unat (rx_len s) \<le> SDFE4_FIFO8 \<and> unat (rx_len s) \<le> length (rx_msg s)"

lemma acks_ok: "sci_ok (fold (\<lambda>m s. snd (sg17_sci_xmit m s)) acks s) = sci_ok s"
  by (induction acks arbitrary: s) (simp_all add: sg17_sci_xmit_def sci_ok_def)

lemma rx_ok:
  assumes "irq_ok q" "sci_ok s"
  shows "sci_ok (snd (snd (sci_intr_rx q s)))"
proof (cases "int (unat (q_RXLEN q)) > int SDFE4_FIFO8")
  case True
  then have "sci_intr_rx q s = (False, False, s)" unfolding sci_intr_rx_def sdfe4_msg_init_def by (simp only: if_True) simp
  then show ?thesis using assms by simp
next
  case False
  then have le: "unat (q_RXLEN q) \<le> SDFE4_FIFO8" by linarith
  have "sci_ok (s\<lparr>sci_CRA := c, hwdev := h\<rparr>)" for c h using assms(2) by (simp add: sci_ok_def)
  then have a: "sci_ok (fold (\<lambda>m s. snd (sg17_sci_xmit m s)) acks (s\<lparr>sci_CRA := c, hwdev := h\<rparr>))" for acks c h
    by (simp add: acks_ok)
  have u: "sci_ok (x\<lparr>rx_len := q_RXLEN q, rx_msg := take (unat (q_RXLEN q)) (take (unat (q_RXLEN q)) (q_frame q) @ ys) @ zs\<rparr>)"
    for x ys zs using le assms(1) by (simp add: sci_ok_def irq_ok_def del: take_append)
  show ?thesis unfolding sci_intr_rx_def sdfe4_msg_init_def using False a u
    by (simp only: if_False nat_int prod.case simp_thms) (simp add: case_prod_beta Let_def del: take_append)
qed

lemma irq_run_ok:
  assumes "irq_ok q"
  shows "sci_ok s \<longrightarrow> sci_ok (snd (sci_irq_run q s))"
proof
  assume s: "sci_ok s"
  have u: "sci_ok (x\<lparr>sci_CRA := c\<rparr>) = sci_ok x" "sci_ok (x\<lparr>sci_rx_packets := d\<rparr>) = sci_ok x"
    "sci_ok (x\<lparr>sci_tx_packets := d, sci_tx_bytes := e\<rparr>) = sci_ok x" for x c d e by (simp_all add: sci_ok_def)
  show "sci_ok (snd (sci_irq_run q s))" using s rx_ok [OF assms]
    by (simp add: sci_irq_run_def sg17_sci_intr_def Let_def case_prod_beta u)
qed

interpretation fits: irq_kept irq_ok "\<lambda>s s'. sci_ok s \<longrightarrow> sci_ok s'"
  by unfold_locales (use irq_run_ok in blast)+

text \<open>Sleeping: the interrupts before the first answer, that answer, and those left.\<close>

lemma sleep_box:
  "list_all irq_ok qs \<Longrightarrow>
   (case sci_sleep qs s of (woken, rest, s') \<Rightarrow>
      woken = list_ex (answers (sci_IMR s)) qs \<and> sci_IMR s' = sci_IMR s \<and> list_all irq_ok rest \<and>
      box_steps (sci_IMR s) rest (box s') = box_steps (sci_IMR s) qs (box s) \<and>
      (if woken then fst (box s')
       else box s' = box_steps (sci_IMR s) (takeWhile (\<lambda>q. \<not> answers (sci_IMR s) q) qs) (box s)))"
proof (induction qs arbitrary: s)
  case Nil
  then show ?case by (simp add: box_steps_def)
next
  case (Cons q qs)
  obtain w s1 where r: "sci_irq_run q s = (w, s1)" by (metis prod.exhaust)
  have q: "irq_ok q" and qs: "list_all irq_ok qs" using Cons.prems by simp_all
  have i: "sci_IMR s1 = sci_IMR s" using irq_run_frame [of s q] by (simp add: irq_frame_def r)
  have b: "w = answers (sci_IMR s) q" "box s1 = box_step (sci_IMR s) q (box s)" using irq_box [OF q, of s] by (simp_all add: r)
  show ?case
  proof (cases w)
    case True
    then have "fst (box s1)" using b by (simp add: box_step_def answers_def)
    then show ?thesis using True b i qs by (simp add: r box_steps_def)
  next
    case False
    then show ?thesis using Cons.IH [OF qs, of s1] b i by (simp add: r box_steps_def case_prod_beta)
  qed
qed

theorem wait_box:
  assumes ok: "list_all irq_ok (early r @ late r)" and r: "r = chip (sci_sent s) (sci_waits s)"
  shows "(fst (sdfe4_hdlc_wait_intr chip s) = (if fst (await (sci_IMR s) r (box s)) then 0 else -1)) \<and>
    box (snd (sdfe4_hdlc_wait_intr chip s)) = snd (await (sci_IMR s) r (box s))"
proof -
  let ?m = "sci_IMR s"
  define s1 where "s1 = sci_irqs (early r) (s\<lparr>sci_waits := sci_waits s + 1\<rparr>)"
  have b0: "box (s\<lparr>sci_waits := w\<rparr>) = box s" for w by (simp add: box_def)
  have s1: "box s1 = box_steps ?m (early r) (box s)" "sci_IMR s1 = ?m"
    using irqs_box [of "early r" "s\<lparr>sci_waits := sci_waits s + 1\<rparr>"] ok
      frame.kept_irqs [of "early r" "s\<lparr>sci_waits := sci_waits s + 1\<rparr>"]
    by (simp_all add: s1_def b0 irq_frame_def list_all_iff)
  obtain woken rest s2 where sl: "sci_sleep (late r) s1 = (woken, rest, s2)" by (metis prod.exhaust)
  have z: "woken = list_ex (answers ?m) (late r)" "sci_IMR s2 = ?m" "list_all irq_ok rest"
    "box_steps ?m rest (box s2) = box_steps ?m (late r) (box s1)"
    "if woken then fst (box s2) else box s2 = box_steps ?m (takeWhile (\<lambda>q. \<not> answers ?m q) (late r)) (box s1)"
    using sleep_box [of "late r" s1] ok s1(2) by (simp_all add: sl)
  have w: "sdfe4_hdlc_wait_intr chip s =
      (if \<not> fst (box s2) \<or> woken \<or> signalled r then 0 else -1, sci_irqs rest s2)"
    unfolding sdfe4_hdlc_wait_intr_def Let_def r [symmetric] s1_def [symmetric] sg17_sci_wait_intr_def sl
    by (simp add: box_def)
  show ?thesis unfolding w await_def Let_def
    using z s1(1) irqs_box [OF z(3), of s2] by (auto split: if_splits)
qed

section \<open>Commands\<close>

text \<open>A message that the controller takes.\<close>

lemma xmit_taken:
  "sci_CRA s AND TXEN = 0 \<Longrightarrow> length m \<le> SCI_BUFF_SIZE \<Longrightarrow>
   sg17_sci_xmit m s =
     (0, s\<lparr>sci_sent := sci_sent s @ [m], sci_TXLEN := of_nat (length m), sci_CRA := sci_CRA s OR TXEN\<rparr>)"
  by (simp add: sg17_sci_xmit_def)

lemma recv_box: "sci_ok s \<Longrightarrow> sdfe4_hdlc_recv buf s = (0, snd (box s) @ drop (length (snd (box s))) buf)"
  by (simp add: sdfe4_hdlc_recv_def sg17_sci_recv_def sci_ok_def box_def)

lemma pamdsl_msg_length [simp]: "length (pamdsl_msg ch opcd params cntr) = 8 + length params"
  by (simp add: pamdsl_msg_def)

text \<open>A command is a message and a look into the mailbox.\<close>

lemma pamdsl_cmd_run:
  assumes ready: "sci_CRA s AND TXEN = 0" "8 + length params \<le> SCI_BUFF_SIZE" "sci_ok s"
    and r: "r = chip (sci_sent s @ [pamdsl_msg ch opcd params (msg_cntr (hwdev s))]) (sci_waits s)"
    and ok: "list_all irq_ok (early r @ late r)"
  shows "case await (sci_IMR s) r (box s) of (woken, on, a) \<Rightarrow>
    (case sdfe4_pamdsl_cmd chip stack ack_id ch opcd params s of (e, buf, s') \<Rightarrow>
       box s' = (on, a) \<and> sci_ok s' \<and>
       buf = (if woken then a @ drop (length a) stack else stack) \<and>
       e = (if woken \<and> u16_at buf 4 = ack_id then 0 else -1))"
proof -
  define msg where "msg = pamdsl_msg ch opcd params (msg_cntr (hwdev s))"
  define s1 where "s1 = s\<lparr>sci_sent := sci_sent s @ [msg], sci_TXLEN := of_nat (length msg), sci_CRA := sci_CRA s OR TXEN\<rparr>"
  have x: "sg17_sci_xmit msg s = (0, s1)" using xmit_taken [OF ready(1), of msg] ready(2) by (simp add: s1_def msg_def)
  have b1: "box s1 = box s" "sci_IMR s1 = sci_IMR s" "sci_ok s1" and r1: "r = chip (sci_sent s1) (sci_waits s1)"
    using xmit_box [of msg s] x ready(3) r by (simp_all add: s1_def sci_ok_def msg_def)
  obtain e s2 where w: "sdfe4_hdlc_wait_intr chip s1 = (e, s2)" by (metis prod.exhaust)
  have "sci_ok (s1\<lparr>sci_waits := sci_waits s1 + 1\<rparr>)" using b1(3) by (simp add: sci_ok_def)
  then have ok2: "sci_ok s2" using fits.kept_wait [of chip s1] ok w by (simp add: r1)
  have "e = (if fst (await (sci_IMR s) r (box s)) then 0 else -1)" "box s2 = snd (await (sci_IMR s) r (box s))"
    using wait_box [where r = r and chip = chip and s = s1, OF ok r1] w b1 by simp_all
  then show ?thesis
    unfolding sdfe4_pamdsl_cmd_def msg_def [symmetric] x using recv_box [OF ok2, of stack] ok2
    by (simp add: w case_prod_beta Let_def)
qed

text \<open>C14: A command to an embedded controller is a message and one look into the mailbox: when the wait is over, its buffer
  holds the answer that came last, whichever command that answers, over what the stack held, and the
  command succeeds exactly when the sleeper was woken and the identifier in the buffer is the expected one.\<close>

theorem pamdsl_cmd_mailbox:
  assumes "sci_CRA s AND TXEN = 0" "8 + length params \<le> SCI_BUFF_SIZE" "sci_ok s"
    and "r = chip (sci_sent s @ [pamdsl_msg ch opcd params (msg_cntr (hwdev s))]) (sci_waits s)"
    and "list_all irq_ok (early r @ late r)"
  shows "case await (sci_IMR s) r (box s) of (woken, on, a) \<Rightarrow>
    (case sdfe4_pamdsl_cmd chip stack ack_id ch opcd params s of (e, buf, s') \<Rightarrow>
       box s' = (on, a) \<and> sci_ok s' \<and>
       buf = (if woken then a @ drop (length a) stack else stack) \<and>
       e = (if woken \<and> u16_at buf 4 = ack_id then 0 else -1))"
  using assms by (rule pamdsl_cmd_run)

lemma u16_at_append [simp]: "Suc i < length xs \<Longrightarrow> u16_at (xs @ ys) i = u16_at xs i"
  by (simp add: u16_at_def nth_append)

text \<open>A message longer than the receive buffer of the library, arriving while a command waits, turns the receiver
  off, and the wait reports that as success: the command then accepts the answer of an earlier
  command, when that had the same identifier.\<close>

theorem pamdsl_stale_answer:
  assumes "sci_CRA s AND TXEN = 0" "8 + length params \<le> SCI_BUFF_SIZE" "sci_ok s"
    and "chip (sci_sent s @ [pamdsl_msg ch opcd params (msg_cntr (hwdev s))]) (sci_waits s) =
      \<lparr>early = [], late = [q], signalled = False\<rparr>"
    and q: "irq_ok q" "unat (q_RXLEN q) > SDFE4_FIFO8" "q_clear q AND RXEN \<noteq> 0"
    and old: "take (unat (rx_len s)) (rx_msg s) = old" "6 \<le> length old" "u16_at old 4 = ack_id"
  shows "case sdfe4_pamdsl_cmd chip stack ack_id ch opcd params s of (e, buf, _) \<Rightarrow>
    e = 0 \<and> buf = old @ drop (length old) stack"
proof -
  have "\<not> good_frame m q" for m using q(2) by (simp add: good_frame_def)
  then have "await (sci_IMR s) \<lparr>early = [], late = [q], signalled = False\<rparr> (box s) = (True, False, old)"
    using q(3) old(1) by (simp add: await_def box_steps_def box_step_def answers_def box_def)
  then show ?thesis
    using pamdsl_cmd_run [where chip = chip and s = s and ch = ch and opcd = opcd and params = params and
        stack = stack and ack_id = ack_id, OF assms(1-3) assms(4) [symmetric]] q(1) old(2,3)
    by (simp add: case_prod_beta)
qed

text \<open>An answer that arrives before the caller sleeps is lost: the wake-up finds nobody asleep, and the command fails
  although its answer, with the expected identifier, is in the buffer.\<close>

theorem pamdsl_early_answer:
  assumes "sci_CRA s AND TXEN = 0" "8 + length params \<le> SCI_BUFF_SIZE" "sci_ok s"
    and "chip (sci_sent s @ [pamdsl_msg ch opcd params (msg_cntr (hwdev s))]) (sci_waits s) =
      \<lparr>early = [q], late = [], signalled = False\<rparr>"
    and q: "irq_ok q" "answers (sci_IMR s) q"
  shows "case sdfe4_pamdsl_cmd chip stack ack_id ch opcd params s of (e, buf, s') \<Rightarrow>
    e = -1 \<and> take (unat (rx_len s')) (rx_msg s') = irq_message q"
proof -
  have "await (sci_IMR s) \<lparr>early = [q], late = [], signalled = False\<rparr> (box s) = (False, True, irq_message q)"
    using q(2) by (simp add: await_def box_steps_def box_step_def answers_def)
  then show ?thesis
    using pamdsl_cmd_run [where chip = chip and s = s and ch = ch and opcd = opcd and params = params and
        stack = stack and ack_id = ack_id, OF assms(1-3) assms(4) [symmetric]] q(1)
    by (simp add: case_prod_beta box_def)
qed

text \<open>The header has the acknowledgements of the first two commands of the setup swapped. A chip that acknowledges a
  command with the identifier of the command plus 0x200, as all others in the header have it, fails the setup
  of every channel at the first command; nothing else is sent.\<close>

theorem setup_chan_ack_swapped:
  assumes "sci_CRA s AND TXEN = 0" "sci_ok s"
    and r: "r = chip (sci_sent s @ [pamdsl_msg ch 0x0404 (sym_dsl_mode (cfg (unat ch))) (msg_cntr (hwdev s))]) (sci_waits s)"
    and "list_all irq_ok (early r @ late r)"
    and a: "await (sci_IMR s) r (box s) = (True, on, a)" "6 \<le> length a" "u16_at a 4 = 0x0404 + 0x200"
  shows "sdfe4_setup_chan chip stack cfg ch s =
    (-1, snd (snd (sdfe4_pamdsl_cmd chip stack 0x2622 ch 0x0404 (sym_dsl_mode (cfg (unat ch))) s)))"
proof -
  have l: "8 + length (sym_dsl_mode (cfg (unat ch))) \<le> SCI_BUFF_SIZE" by (simp add: sym_dsl_mode_def)
  have "fst (sdfe4_pamdsl_cmd chip stack 0x2622 ch 0x0404 (sym_dsl_mode (cfg (unat ch))) s) = -1"
    using pamdsl_cmd_run [where chip = chip and s = s and ch = ch and opcd = "0x0404" and
        params = "sym_dsl_mode (cfg (unat ch))" and stack = stack and ack_id = "0x2622", OF assms(1) l assms(2) r assms(4)] a
    by (simp add: case_prod_beta)
  then show ?thesis by (simp add: sdfe4_setup_chan_def chan_cmds_def case_prod_beta)
qed

section \<open>What the loader is sent\<close>



















section \<open>A loader that answers\<close>























definition booting :: sg17_sci where
  "booting = \<lparr>sci_CRA = XRST OR RXEN, sci_IMR = RXS OR TXS OR CRC OR COL, sci_TXLEN = 0, rx_msg = replicate 256 0,
     rx_len = 0, ch_map = [0, 255, 255, 1], sci_tx_packets = 0, sci_tx_bytes = 0, sci_rx_packets = 0,
     hwdev = \<lparr>msg_cntr = 0, hw_ch = replicate 4 (idle_channel\<lparr>ch_state := MAIN_INIT\<rparr>), need_reconf = replicate 4 False\<rparr>,
     sci_sent = [], sci_waits = 0\<rparr>"






section \<open>Commands on an example\<close>

text \<open>An answer to a command of channel 0, with the identifier 0x0E04, and a message of 200 bytes.\<close>

definition answer_irq :: "u16 \<Rightarrow> sci_irq" where
  "answer_irq ident =
     \<lparr>q_SR = RXS, q_clear = RXEN OR TXEN, q_RXLEN = 9,
      q_frame = [0xF2, 0xF1, 0x08, 0] @ le16 ident @ [0, 0, 1], q_stack = replicate 128 0, q_mem = True\<rparr>"

definition long_irq :: sci_irq where
  "long_irq = \<lparr>q_SR = RXS, q_clear = RXEN OR TXEN, q_RXLEN = 200,
      q_frame = replicate 200 0, q_stack = replicate 128 0, q_mem = True\<rparr>"

definition steady :: "sci_irq list \<Rightarrow> sci_irq list \<Rightarrow> chip" where
  "steady es ls sent waits = \<lparr>early = es, late = ls, signalled = False\<rparr>"

lemma answer_irq_ok: "irq_ok (answer_irq ident)"
  by (simp add: irq_ok_def answer_irq_def le16_def)

lemma answer_irq_answers: "answers (RXS OR TXS OR CRC OR COL) (answer_irq ident)"
  by (simp add: answers_def good_frame_def irq_message_def answer_irq_def le16_def RXS_def TXS_def CRC_def COL_def)

lemma booting_ready: "sci_CRA booting AND TXEN = 0" "sci_ok booting" "sci_IMR booting = RXS OR TXS OR CRC OR COL"
  by (simp_all add: booting_def sci_ok_def RXEN_def TXEN_def XRST_def)

theorem pamdsl_cmd_mailbox_witness:
  "case sdfe4_pamdsl_cmd (steady [] [answer_irq 0x0E04]) (replicate 128 0) 0x0E04 0 0x0C04 [1, 0, 0] booting of (e, buf, _) \<Rightarrow>
     e = 0 \<and> take 9 buf = [0xF2, 0xF1, 0x08, 0, 4, 0x0E, 0, 0, 1]"
proof -
  have a: "await (sci_IMR booting) (steady [] [answer_irq 0x0E04] sent w) (box booting) =
      (True, True, irq_message (answer_irq 0x0E04))" for sent w
    using answer_irq_answers [of "0x0E04"] by (simp add: await_def steady_def box_steps_def box_step_def booting_ready answers_def)
  have m: "irq_message (answer_irq 0x0E04) = [0xF2, 0xF1, 0x08, 0, 4, 0x0E, 0, 0, 1]"
    by (simp add: irq_message_def answer_irq_def le16_def)
  show ?thesis
    using pamdsl_cmd_mailbox [where chip = "steady [] [answer_irq 0x0E04]" and s = booting and ch = 0 and opcd = "0x0C04" and
        params = "[1, 0, 0]" and stack = "replicate 128 0" and ack_id = "0x0E04", OF booting_ready(1) _ booting_ready(2) refl]
      answer_irq_ok [of "0x0E04"]
    by (simp add: a [unfolded steady_def] m steady_def case_prod_beta u16_at_def)
qed

theorem pamdsl_stale_answer_witness:
  "case sdfe4_pamdsl_cmd (steady [] [long_irq]) (replicate 128 0) 0x0E04 0 0x0C04 [1, 0, 0]
     (booting\<lparr>rx_len := 6, rx_msg := [0xF2, 0xF1, 0x08, 0, 4, 0x0E] @ replicate 250 0\<rparr>) of (e, buf, _) \<Rightarrow>
     e = 0 \<and> take 6 buf = [0xF2, 0xF1, 0x08, 0, 4, 0x0E]"
proof -
  let ?s = "booting\<lparr>rx_len := 6, rx_msg := [0xF2, 0xF1, 0x08, 0, 4, 0x0E] @ replicate 250 0\<rparr>"
  have s: "sci_CRA ?s AND TXEN = 0" "sci_ok ?s" using booting_ready by (simp_all add: sci_ok_def)
  have q: "irq_ok long_irq" "unat (q_RXLEN long_irq) > SDFE4_FIFO8" "q_clear long_irq AND RXEN \<noteq> 0"
    by (simp_all add: irq_ok_def long_irq_def rxen_bit RXEN_def TXEN_def)
  show ?thesis
    using pamdsl_stale_answer [where chip = "steady [] [long_irq]" and s = ?s and ch = 0 and opcd = "0x0C04" and
        params = "[1, 0, 0]" and stack = "replicate 128 0" and ack_id = "0x0E04" and q = long_irq and
        old = "[0xF2, 0xF1, 0x08, 0, 4, 0x0E]", OF s(1) _ s(2) _ q]
    by (simp add: steady_def case_prod_beta u16_at_def)
qed

theorem pamdsl_early_answer_witness:
  "case sdfe4_pamdsl_cmd (steady [answer_irq 0x0E04] []) (replicate 128 0) 0x0E04 0 0x0C04 [1, 0, 0] booting of (e, _, s') \<Rightarrow>
     e = -1 \<and> take (unat (rx_len s')) (rx_msg s') = irq_message (answer_irq 0x0E04)"
  using pamdsl_early_answer [where chip = "steady [answer_irq 0x0E04] []" and s = booting and ch = 0 and opcd = "0x0C04" and
      params = "[1, 0, 0]" and stack = "replicate 128 0" and ack_id = "0x0E04" and q = "answer_irq 0x0E04",
      OF booting_ready(1) _ booting_ready(2) _ answer_irq_ok] answer_irq_answers
  by (simp add: steady_def booting_ready(3))

definition example_cfg :: sdfe4_if_cfg where
  "example_cfg = \<lparr>cf_mode = STU_C, cf_repeater = False, cf_startup = 0, cf_transaction = 1, cf_annex = 2, cf_input_mode = 7,
     cf_loop = 0, cf_tc_pam = False, cf_frequency = 32, cf_payload_bits = 32, cf_rate = 2048\<rparr>"

theorem setup_chan_ack_swapped_witness:
  "fst (sdfe4_setup_chan (steady [] [answer_irq 0x0604]) (replicate 128 0) (\<lambda>_. example_cfg) 0 booting) = -1"
proof -
  have a: "await (sci_IMR booting) (steady [] [answer_irq 0x0604] sent w) (box booting) =
      (True, True, irq_message (answer_irq 0x0604))" for sent w
    using answer_irq_answers [of "0x0604"] by (simp add: await_def steady_def box_steps_def box_step_def booting_ready answers_def)
  have m: "irq_message (answer_irq 0x0604) = [0xF2, 0xF1, 0x08, 0, 4, 6, 0, 0, 1]"
    by (simp add: irq_message_def answer_irq_def le16_def)
  show ?thesis
    using setup_chan_ack_swapped [where chip = "steady [] [answer_irq 0x0604]" and s = booting and ch = 0 and
        cfg = "\<lambda>_. example_cfg" and stack = "replicate 128 0", OF booting_ready(1,2) refl _ a [unfolded m]]
      answer_irq_ok [of "0x0604"]
    by (simp add: steady_def u16_at_def)
qed

end
