(* ===== verification/ImgTrx.thy ===== *)
theory ImgTrx
  imports BcmCrc NvramFlash
begin

text \<open>
  The image builder \<open>trx\<close> (\<open>target/utils/src/trx.c\<close>): files are collected behind a header with their offsets,
  a length and a checksum. The buffer is a function from positions to bytes with the size that was allocated; what
  \<open>malloc\<close> leaves in it is an argument. A write outside the buffer, or through the header pointer after the
  buffer has moved, is \<open>Wild\<close>. The machine is little-endian with 32-bit \<open>long\<close>.
\<close>

section \<open>Checksum\<close>

definition crc_32_tab :: "u32 list" where
  "crc_32_tab = [
     0x00000000, 0x77073096, 0xEE0E612C, 0x990951BA, 0x076DC419, 0x706AF48F,
     0xE963A535, 0x9E6495A3, 0x0EDB8832, 0x79DCB8A4, 0xE0D5E91E, 0x97D2D988,
     0x09B64C2B, 0x7EB17CBD, 0xE7B82D07, 0x90BF1D91, 0x1DB71064, 0x6AB020F2,
     0xF3B97148, 0x84BE41DE, 0x1ADAD47D, 0x6DDDE4EB, 0xF4D4B551, 0x83D385C7,
     0x136C9856, 0x646BA8C0, 0xFD62F97A, 0x8A65C9EC, 0x14015C4F, 0x63066CD9,
     0xFA0F3D63, 0x8D080DF5, 0x3B6E20C8, 0x4C69105E, 0xD56041E4, 0xA2677172,
     0x3C03E4D1, 0x4B04D447, 0xD20D85FD, 0xA50AB56B, 0x35B5A8FA, 0x42B2986C,
     0xDBBBC9D6, 0xACBCF940, 0x32D86CE3, 0x45DF5C75, 0xDCD60DCF, 0xABD13D59,
     0x26D930AC, 0x51DE003A, 0xC8D75180, 0xBFD06116, 0x21B4F4B5, 0x56B3C423,
     0xCFBA9599, 0xB8BDA50F, 0x2802B89E, 0x5F058808, 0xC60CD9B2, 0xB10BE924,
     0x2F6F7C87, 0x58684C11, 0xC1611DAB, 0xB6662D3D, 0x76DC4190, 0x01DB7106,
     0x98D220BC, 0xEFD5102A, 0x71B18589, 0x06B6B51F, 0x9FBFE4A5, 0xE8B8D433,
     0x7807C9A2, 0x0F00F934, 0x9609A88E, 0xE10E9818, 0x7F6A0DBB, 0x086D3D2D,
     0x91646C97, 0xE6635C01, 0x6B6B51F4, 0x1C6C6162, 0x856530D8, 0xF262004E,
     0x6C0695ED, 0x1B01A57B, 0x8208F4C1, 0xF50FC457, 0x65B0D9C6, 0x12B7E950,
     0x8BBEB8EA, 0xFCB9887C, 0x62DD1DDF, 0x15DA2D49, 0x8CD37CF3, 0xFBD44C65,
     0x4DB26158, 0x3AB551CE, 0xA3BC0074, 0xD4BB30E2, 0x4ADFA541, 0x3DD895D7,
     0xA4D1C46D, 0xD3D6F4FB, 0x4369E96A, 0x346ED9FC, 0xAD678846, 0xDA60B8D0,
     0x44042D73, 0x33031DE5, 0xAA0A4C5F, 0xDD0D7CC9, 0x5005713C, 0x270241AA,
     0xBE0B1010, 0xC90C2086, 0x5768B525, 0x206F85B3, 0xB966D409, 0xCE61E49F,
     0x5EDEF90E, 0x29D9C998, 0xB0D09822, 0xC7D7A8B4, 0x59B33D17, 0x2EB40D81,
     0xB7BD5C3B, 0xC0BA6CAD, 0xEDB88320, 0x9ABFB3B6, 0x03B6E20C, 0x74B1D29A,
     0xEAD54739, 0x9DD277AF, 0x04DB2615, 0x73DC1683, 0xE3630B12, 0x94643B84,
     0x0D6D6A3E, 0x7A6A5AA8, 0xE40ECF0B, 0x9309FF9D, 0x0A00AE27, 0x7D079EB1,
     0xF00F9344, 0x8708A3D2, 0x1E01F268, 0x6906C2FE, 0xF762575D, 0x806567CB,
     0x196C3671, 0x6E6B06E7, 0xFED41B76, 0x89D32BE0, 0x10DA7A5A, 0x67DD4ACC,
     0xF9B9DF6F, 0x8EBEEFF9, 0x17B7BE43, 0x60B08ED5, 0xD6D6A3E8, 0xA1D1937E,
     0x38D8C2C4, 0x4FDFF252, 0xD1BB67F1, 0xA6BC5767, 0x3FB506DD, 0x48B2364B,
     0xD80D2BDA, 0xAF0A1B4C, 0x36034AF6, 0x41047A60, 0xDF60EFC3, 0xA867DF55,
     0x316E8EEF, 0x4669BE79, 0xCB61B38C, 0xBC66831A, 0x256FD2A0, 0x5268E236,
     0xCC0C7795, 0xBB0B4703, 0x220216B9, 0x5505262F, 0xC5BA3BBE, 0xB2BD0B28,
     0x2BB45A92, 0x5CB36A04, 0xC2D7FFA7, 0xB5D0CF31, 0x2CD99E8B, 0x5BDEAE1D,
     0x9B64C2B0, 0xEC63F226, 0x756AA39C, 0x026D930A, 0x9C0906A9, 0xEB0E363F,
     0x72076785, 0x05005713, 0x95BF4A82, 0xE2B87A14, 0x7BB12BAE, 0x0CB61B38,
     0x92D28E9B, 0xE5D5BE0D, 0x7CDCEFB7, 0x0BDBDF21, 0x86D3D2D4, 0xF1D4E242,
     0x68DDB3F8, 0x1FDA836E, 0x81BE16CD, 0xF6B9265B, 0x6FB077E1, 0x18B74777,
     0x88085AE6, 0xFF0F6A70, 0x66063BCA, 0x11010B5C, 0x8F659EFF, 0xF862AE69,
     0x616BFFD3, 0x166CCF45, 0xA00AE278, 0xD70DD2EE, 0x4E048354, 0x3903B3C2,
     0xA7672661, 0xD06016F7, 0x4969474D, 0x3E6E77DB, 0xAED16A4A, 0xD9D65ADC,
     0x40DF0B66, 0x37D83BF0, 0xA9BCAE53, 0xDEBB9EC5, 0x47B2CF7F, 0x30B5FFE9,
     0xBDBDF21C, 0xCABAC28A, 0x53B39330, 0x24B4A3A6, 0xBAD03605, 0xCDD70693,
     0x54DE5729, 0x23D967BF, 0xB3667A2E, 0xC4614AB8, 0x5D681B02, 0x2A6F2B94,
     0xB40BBE37, 0xC30C8EA1, 0x5A05DF1B, 0x2D02EF8D]"

text \<open>The octet is a signed character.\<close>

definition UPDC32 :: "u8 \<Rightarrow> u32 \<Rightarrow> u32" where
  "UPDC32 octet crc = crc_32_tab ! unat ((crc XOR scast octet) AND 0xFF) XOR drop_bit 8 crc"

fun crc32_loop :: "u8 list \<Rightarrow> u32 \<Rightarrow> u32" where
  "crc32_loop [] crc = crc"
| "crc32_loop (b # bs) crc = crc32_loop bs (UPDC32 b crc)"

definition crc32buf :: "u8 list \<Rightarrow> u32" where
  "crc32buf buf = crc32_loop buf 0xFFFFFFFF"

section \<open>The buffer\<close>

type_synonym memory = "nat \<Rightarrow> u8"

definition store :: "memory \<Rightarrow> nat \<Rightarrow> u8 list \<Rightarrow> memory" where
  "store m p bs = (\<lambda>i. if p \<le> i \<and> i < p + length bs then bs ! (i - p) else m i)"

definition poke :: "nat \<Rightarrow> memory \<Rightarrow> nat \<Rightarrow> u8 list \<Rightarrow> memory option" where
  "poke size' m p bs = (if p + length bs \<le> size' then Some (store m p bs) else None)"

definition peek :: "memory \<Rightarrow> nat \<Rightarrow> nat \<Rightarrow> u8 list" where
  "peek m p n = map m [p..<p + n]"

section \<open>Building an image\<close>

abbreviation TRX_MAGIC :: u32 where "TRX_MAGIC \<equiv> 0x30524448"
abbreviation TRX_VERSION :: u32 where "TRX_VERSION \<equiv> 1"
abbreviation TRX_MAX_LEN :: u32 where "TRX_MAX_LEN \<equiv> 0x5A0000"
abbreviation HDR :: nat where "HDR \<equiv> 28"

datatype trx_stop = Usage | Failure | Wild

record trx =
  t_mem :: memory
  t_size :: nat
  t_freed :: bool
  t_cur :: u32
  t_maxlen :: u32
  t_i :: nat
  t_in :: bool

text \<open>The options in their order: an input file with its contents, the output file, the size of the buffer with the
  outcome of \<open>realloc\<close> (whether the buffer moved), alignment and position. \<open>None\<close>: the file cannot be opened, or no
  number is given.\<close>

datatype trx_opt =
    In_file "u8 list option" | Out_file bool | Max_len "u32 option" "bool option"
  | Align_to "u32 option" | At_offset "u32 option" | Unknown

definition trx_file :: "u8 list option \<Rightarrow> trx \<Rightarrow> trx_stop + trx" where
  "trx_file f t =
     (if t_freed t then Inl Wild
      else
        (case poke (t_size t) (t_mem t) (16 + 4 * t_i t) (htol32 (t_cur t)) of
           None \<Rightarrow> Inl Wild
         | Some m \<Rightarrow>
             (case f of
                None \<Rightarrow> Inl Usage
              | Some bs \<Rightarrow>
                  (let room = unat (t_maxlen t - t_cur t); n = min (length bs) room;
                       pad = (if n mod 4 \<noteq> 0 then 4 - n mod 4 else 0)
                   in case poke (t_size t) m (unat (t_cur t)) (take n bs) of
                        None \<Rightarrow> Inl Wild
                      | Some m \<Rightarrow>
                          if \<not> length bs < room then Inl Failure
                          else
                            (case poke (t_size t) m (unat (t_cur t) + n) (replicate pad 0) of
                               None \<Rightarrow> Inl Wild
                             | Some m \<Rightarrow> Inr (t\<lparr>t_mem := m, t_i := t_i t + 1, t_in := True,
                                               t_cur := t_cur t + of_nat (n + pad)\<rparr>))))))"

definition trx_maxlen :: "u32 option \<Rightarrow> bool option \<Rightarrow> trx \<Rightarrow> trx_stop + trx" where
  "trx_maxlen v moved t =
     (case v of
        None \<Rightarrow> Inl Usage
      | Some maxlen \<Rightarrow>
          (let maxlen = (if maxlen AND 0xFFF \<noteq> 0 then maxlen + (0x1000 - (maxlen AND 0xFFF)) else maxlen) in
           if maxlen < 0x1000 then Inl Usage
           else
             (case moved of
                None \<Rightarrow> Inl Failure
              | Some b \<Rightarrow> Inr (t\<lparr>t_maxlen := maxlen, t_size := unat maxlen, t_freed := (t_freed t \<or> b)\<rparr>))))"

definition trx_zeros :: "u32 \<Rightarrow> trx \<Rightarrow> trx_stop + trx" where
  "trx_zeros n t =
     (case poke (t_size t) (t_mem t) (unat (t_cur t)) (replicate (unat n) 0) of
        None \<Rightarrow> Inl Wild
      | Some m \<Rightarrow> Inr (t\<lparr>t_mem := m, t_cur := t_cur t + n\<rparr>))"

definition trx_align :: "u32 option \<Rightarrow> trx \<Rightarrow> trx_stop + trx" where
  "trx_align v t =
     (case v of
        None \<Rightarrow> Inl Usage
      | Some n \<Rightarrow> if t_cur t AND (n - 1) \<noteq> 0 then trx_zeros (n - (t_cur t AND (n - 1))) t else Inr t)"

definition trx_offset :: "u32 option \<Rightarrow> trx \<Rightarrow> trx_stop + trx" where
  "trx_offset v t =
     (case v of None \<Rightarrow> Inl Usage | Some n \<Rightarrow> if n < t_cur t then Inr t else trx_zeros (n - t_cur t) t)"

fun trx_opt_step :: "trx_opt \<Rightarrow> trx \<Rightarrow> trx_stop + trx" where
  "trx_opt_step (In_file f) t = trx_file f t"
| "trx_opt_step (Out_file ok) t = (if ok then Inr t else Inl Usage)"
| "trx_opt_step (Max_len v moved) t = trx_maxlen v moved t"
| "trx_opt_step (Align_to v) t = trx_align v t"
| "trx_opt_step (At_offset v) t = trx_offset v t"
| "trx_opt_step Unknown t = Inl Usage"

fun trx_opts :: "trx_opt list \<Rightarrow> trx \<Rightarrow> trx_stop + trx" where
  "trx_opts [] t = Inr t"
| "trx_opts (opt # opts) t = (case trx_opt_step opt t of Inl e \<Rightarrow> Inl e | Inr t \<Rightarrow> trx_opts opts t)"

definition trx_finish :: "trx \<Rightarrow> trx_stop + u8 list" where
  "trx_finish t =
     (if \<not> t_in t then Inl Usage
      else
        (let n = t_cur t AND 0xFFF in
         case if n \<noteq> 0 then trx_zeros (0x1000 - n) t else Inr t of
           Inl e \<Rightarrow> Inl e
         | Inr t \<Rightarrow>
             if t_freed t \<or> t_size t < unat (t_cur t) then Inl Wild
             else
               (let crc = crc32buf (peek (t_mem t) 12 (unat (t_cur t) - 12));
                    m = store (store (t_mem t) 8 (htol32 crc)) 4 (htol32 (t_cur t))
                in Inr (peek m 0 (unat (t_cur t))))))"

text \<open>\<open>junk\<close>: the allocated memory.\<close>

definition trx_main :: "memory \<Rightarrow> trx_opt list \<Rightarrow> trx_stop + u8 list" where
  "trx_main junk opts =
     (let m = store (store junk 0 (htol32 TRX_MAGIC)) 12 (htol32 (push_bit 16 TRX_VERSION)) in
      case trx_opts opts \<lparr>t_mem = m, t_size = unat TRX_MAX_LEN, t_freed = False, t_cur = of_nat HDR,
                           t_maxlen = TRX_MAX_LEN, t_i = 0, t_in = False\<rparr> of
        Inl e \<Rightarrow> Inl e
      | Inr t \<Rightarrow> trx_finish t)"

section \<open>Checksum and reference\<close>

lemma crc_32_tab_eq: "crc_32_tab = crc32_table"
  by (simp only: crc_32_tab_def crc32_table_def)

lemma scast_and_FF: "(crc XOR scast (octet :: u8)) AND 0xFF = (crc XOR ucast octet :: u32) AND 0xFF"
proof -
  have m: "(0xFF :: u32) = mask 8" by (simp add: mask_eq_exp_minus_1)
  have "bit ((crc XOR scast octet) AND mask 8) n = bit ((crc XOR ucast octet) AND mask 8 :: u32) n" if "n < 32" for n
  proof (cases "n < 8")
    case True
    then have "min 7 n = n" by simp
    then show ?thesis using that True by (simp add: bit_simps)
  qed (simp add: bit_simps)
  then show ?thesis unfolding m by (intro bit_word_eqI) simp
qed

lemma UPDC32_step: "UPDC32 octet crc = crc_step crc octet"
  by (simp add: UPDC32_def crc_step_def crc_32_tab_eq scast_and_FF xor.commute)

lemma crc32_loop_ref: "crc32_loop bs crc = crc_ref crc bs"
proof -
  have "crc32_loop bs crc = foldl crc_step crc bs" by (induction bs arbitrary: crc) (simp_all add: UPDC32_step)
  then show ?thesis by (simp add: crc_step_is_ref)
qed

lemma crc32buf_ref: "crc32buf bs = crc_ref 0xFFFFFFFF bs"
  by (simp add: crc32buf_def crc32_loop_ref)

section \<open>Facts on the buffer\<close>

lemma length_peek [simp]: "length (peek m p n) = n"
  by (simp add: peek_def)

lemma peek_nth: "i < n \<Longrightarrow> peek m p n ! i = m (p + i)"
  by (simp add: peek_def)

lemma peek_eqI: "length xs = n \<Longrightarrow> (\<And>i. i < n \<Longrightarrow> m (p + i) = xs ! i) \<Longrightarrow> peek m p n = xs"
  by (rule nth_equalityI) (simp_all add: peek_nth)

lemma peek_store_same: "peek (store m p bs) p (length bs) = bs"
  by (rule peek_eqI) (simp_all add: store_def)

lemma peek_store_disjoint: "p + length bs \<le> q \<or> q + n \<le> p \<Longrightarrow> peek (store m p bs) q n = peek m q n"
  by (rule peek_eqI) (auto simp: store_def peek_nth)

lemma peek_append: "peek m p (a + b) = peek m p a @ peek m (p + a) b"
proof -
  have "[p..<p + (a + b)] = [p..<p + a] @ [p + a..<p + a + b]" using upt_add_eq_append [of p "p + a" b] by (simp add: add.assoc)
  then show ?thesis by (simp add: peek_def)
qed

lemma take_drop_peek: "q + k \<le> n \<Longrightarrow> take k (drop q (peek m p n)) = peek m (p + q) k"
  by (rule nth_equalityI) (simp_all add: peek_nth add.assoc)

lemma drop_peek: "drop q (peek m p n) = peek m (p + q) (n - q)"
  by (rule nth_equalityI) (simp_all add: peek_nth add.assoc)

lemma le32_peek: "peek m (p + q) 4 = htol32 w \<Longrightarrow> q + 4 \<le> n \<Longrightarrow> le32 (peek m p n) q = w"
proof -
  assume w: "peek m (p + q) 4 = htol32 w" and n: "q + 4 \<le> n"
  have "peek m p n = peek m p q @ htol32 w @ peek m (p + q + 4) (n - q - 4)"
    using peek_append [of m p q "n - q"] peek_append [of m "p + q" 4 "n - q - 4"] w n by simp
  then show ?thesis using le32_append [of "peek m p q" q] le32_htol32 by simp
qed

section \<open>Images\<close>

text \<open>Where the files go: each at the current position, followed by its zeros up to a multiple of 4.\<close>

definition up4 :: "nat \<Rightarrow> nat" where
  "up4 n = (n + 3) div 4 * 4"

definition round_to :: "nat \<Rightarrow> nat \<Rightarrow> nat" where
  "round_to k n = (if n mod k = 0 then n else n + (k - n mod k))"

fun layout :: "trx_opt list \<Rightarrow> nat \<Rightarrow> (nat \<times> u8 list) list \<times> nat" where
  "layout [] cur = ([], cur)"
| "layout (In_file (Some bs) # opts) cur =
     (case layout opts (cur + up4 (length bs)) of (fs, e) \<Rightarrow> ((cur, bs) # fs, e))"
| "layout (Align_to (Some a) # opts) cur = layout opts (round_to (unat a) cur)"
| "layout (At_offset (Some n) # opts) cur = layout opts (max cur (unat n))"
| "layout (_ # opts) cur = layout opts cur"

text \<open>Options that name readable files, alignments to powers of two and positions.\<close>

fun plain :: "trx_opt \<Rightarrow> bool" where
  "plain (In_file (Some bs)) = True"
| "plain (Align_to (Some a)) = (\<exists>k < 32. a = 2 ^ k)"
| "plain (At_offset (Some n)) = True"
| "plain (Out_file ok) = ok"
| "plain _ = False"

text \<open>The state after the files \<open>fs\<close>, at the position \<open>cur\<close>.\<close>

definition built :: "(nat \<times> u8 list) list \<Rightarrow> nat \<Rightarrow> trx \<Rightarrow> bool" where
  "built fs cur t \<longleftrightarrow> \<not> t_freed t \<and> t_size t = 0x5A0000 \<and> t_maxlen t = TRX_MAX_LEN \<and>
     unat (t_cur t) = cur \<and> HDR \<le> cur \<and> length fs \<le> 3 \<and> t_i t = length fs \<and> t_in t = (fs \<noteq> []) \<and>
     peek (t_mem t) 0 4 = htol32 TRX_MAGIC \<and> peek (t_mem t) 12 4 = htol32 0x10000 \<and>
     (\<forall>j < length fs. peek (t_mem t) (16 + 4 * j) 4 = htol32 (of_nat (fst (fs ! j)))) \<and>
     (\<forall>(p, bs) \<in> set fs. HDR \<le> p \<and> p + length bs \<le> cur \<and> peek (t_mem t) p (length bs) = bs)"

text \<open>Writing behind the position keeps what was built.\<close>

lemma built_store:
  assumes "built fs cur t" "cur \<le> p" "unat c = cur'" "cur \<le> cur'"
  shows "built fs cur' (t\<lparr>t_mem := store (t_mem t) p bs, t_cur := c\<rparr>)"
proof -
  have keep: "peek (store (t_mem t) p bs) q n = peek (t_mem t) q n" if "q + n \<le> cur" for q n
    using that assms(2) by (intro peek_store_disjoint) simp
  have h: "HDR \<le> cur" using assms(1) by (simp add: built_def)
  show ?thesis using assms h unfolding built_def
    by (auto simp: keep)
qed

lemma built_zeros:
  assumes "built fs cur t" "cur + unat n \<le> 0x5A0000"
  shows "\<exists>t'. trx_zeros n t = Inr t' \<and> built fs (cur + unat n) t'"
proof -
  have c: "unat (t_cur t) = cur" "t_size t = 0x5A0000" using assms(1) by (simp_all add: built_def)
  have "unat (t_cur t + n) = cur + unat n"
    using c assms(2) by (simp add: unat_word_ariths)
  from built_store [OF assms(1) order_refl this, of "replicate (unat n) 0"]
  show ?thesis using c assms(2) by (simp add: trx_zeros_def poke_def)
qed

lemma up4_pad: "n + (if n mod 4 \<noteq> 0 then 4 - n mod 4 else 0) = up4 n"
  unfolding up4_def by presburger

lemma up4_ge: "n \<le> up4 n"
  unfolding up4_def by presburger

lemma built_file:
  assumes b: "built fs cur t" and i: "length fs < 3" and room: "cur + up4 (length bs) < 0x5A0000"
  shows "\<exists>t'. trx_file (Some bs) t = Inr t' \<and> built (fs @ [(cur, bs)]) (cur + up4 (length bs)) t'"
proof -
  let ?pad = "if length bs mod 4 \<noteq> 0 then 4 - length bs mod 4 else 0"
  define m1 where "m1 = store (t_mem t) (16 + 4 * length fs) (htol32 (t_cur t))"
  define m2 where "m2 = store m1 cur bs"
  define m3 where "m3 = store m2 (cur + length bs) (replicate ?pad 0)"
  have c: "unat (t_cur t) = cur" "t_size t = 0x5A0000" "t_maxlen t = TRX_MAX_LEN" "\<not> t_freed t" "t_i t = length fs"
    "HDR \<le> cur" "length fs \<le> 3" using b by (simp_all add: built_def)
  have up: "length bs + ?pad = up4 (length bs)" by (rule up4_pad)
  have rm: "unat (t_maxlen t - t_cur t) = 0x5A0000 - cur"
    unfolding c(3) using c(1) room by (subst unat_sub) (simp_all add: word_le_nat_alt)
  have pokes: "poke (t_size t) (t_mem t) (16 + 4 * t_i t) (htol32 (t_cur t)) = Some m1"
      "poke (t_size t) m1 (unat (t_cur t)) bs = Some m2"
      "poke (t_size t) m2 (unat (t_cur t) + length bs) (replicate ?pad 0) = Some m3"
    using c i room up by (simp_all only: poke_def m1_def m2_def m3_def length_replicate) (simp_all del: mod_less)
  have mn: "min (length bs) (unat (t_maxlen t - t_cur t)) = length bs" "length bs < unat (t_maxlen t - t_cur t)"
    using rm room up by linarith+
  have run: "trx_file (Some bs) t = Inr (t\<lparr>t_mem := m3, t_i := t_i t + 1, t_in := True,
      t_cur := t_cur t + of_nat (up4 (length bs))\<rparr>)"
    unfolding trx_file_def Let_def
    using c(4) mn(2) by (simp only: mn(1) pokes up take_all order_refl option.case if_False if_True simp_thms)
  have cur': "unat (t_cur t + of_nat (up4 (length bs))) = cur + up4 (length bs)"
    using c(1) room by (simp add: unat_word_ariths unat_of_nat_u32)
  have far: "16 + 4 * length fs + 4 \<le> HDR" using i by simp
  have low: "peek m3 q n = peek m1 q n" if "q + n \<le> cur" for q n
    using that unfolding m3_def m2_def by (simp add: peek_store_disjoint)
  have low1: "peek m1 q n = peek (t_mem t) q n" if "q + n \<le> 16 + 4 * length fs \<or> HDR \<le> q" for q n
    using that far unfolding m1_def by (intro peek_store_disjoint) auto
  have "t_cur t = of_nat cur" using c(1) by (rule word_eq_of_nat)
  then have new: "peek m1 (16 + 4 * length fs) 4 = htol32 (of_nat cur)"
    unfolding m1_def using peek_store_same [of "t_mem t" "16 + 4 * length fs" "htol32 (t_cur t)"] by simp
  have mine: "peek m3 cur (length bs) = bs"
    unfolding m3_def m2_def by (simp add: peek_store_disjoint peek_store_same)
  have offs: "peek m3 (16 + 4 * j) 4 = htol32 (of_nat (fst ((fs @ [(cur, bs)]) ! j)))" if "j < length (fs @ [(cur, bs)])" for j
  proof (cases "j < length fs")
    case True
    then have "16 + 4 * j + 4 \<le> cur" using c by simp
    then show ?thesis using True b low low1 by (simp add: built_def nth_append)
  next
    case False
    then have "j = length fs" using that by simp
    then show ?thesis using low [of "16 + 4 * length fs" 4] new far c(6) by simp
  qed
  have files: "HDR \<le> p \<and> p + length f \<le> cur + up4 (length bs) \<and> peek m3 p (length f) = f" if "(p, f) \<in> set (fs @ [(cur, bs)])" for p f
  proof (cases "(p, f) \<in> set fs")
    case True
    then have "HDR \<le> p" "p + length f \<le> cur" "peek (t_mem t) p (length f) = f" using b by (auto simp: built_def)
    then show ?thesis using low low1 by simp
  next
    case False
    then have "p = cur" "f = bs" using that by auto
    then show ?thesis using mine c(6) up by simp
  qed
  have "built (fs @ [(cur, bs)]) (cur + up4 (length bs)) (t\<lparr>t_mem := m3, t_i := t_i t + 1, t_in := True,
      t_cur := t_cur t + of_nat (up4 (length bs))\<rparr>)"
    unfolding built_def using up4_ge [of "length bs"] c i cur' offs files low [of 0 4] low [of 12 4] low1 [of 0 4] low1 [of 12 4] b
    by (simp add: built_def split_beta)
  then show ?thesis using run by blast
qed


lemma unat_exp: "k < 32 \<Longrightarrow> unat ((2 :: u32) ^ k) = 2 ^ k"
proof -
  assume "k < 32"
  then have "(2 :: nat) ^ k < 2 ^ 32" by (rule power_strict_increasing) simp
  then show ?thesis using unat_of_nat_u32 [of "2 ^ k"] by simp
qed

lemma built_align:
  assumes b: "built fs cur t" and k: "k < 32" and room: "round_to (2 ^ k) cur < 0x5A0000"
  shows "\<exists>t'. trx_align (Some (2 ^ k)) t = Inr t' \<and> built fs (round_to (2 ^ k) cur) t'"
proof -
  have c: "unat (t_cur t) = cur" using b by (simp add: built_def)
  have "(2 :: u32) ^ k - 1 = mask k" by (simp add: mask_eq_exp_minus_1)
  then have r: "unat (t_cur t AND (2 ^ k - 1)) = cur mod 2 ^ k"
    using c by (simp add: unat_and_mask)
  have p: "unat ((2 :: u32) ^ k) = 2 ^ k" using k by (simp add: unat_exp)
  have lt: "cur mod 2 ^ k < 2 ^ k" by simp
  show ?thesis
  proof (cases "cur mod 2 ^ k = 0")
    case True
    then have "t_cur t AND (2 ^ k - 1) = 0" using r by (simp add: unat_eq_zero)
    then show ?thesis using b True by (simp add: trx_align_def round_to_def)
  next
    case False
    then have nz: "t_cur t AND (2 ^ k - 1) \<noteq> 0" using r by auto
    have d: "unat (2 ^ k - (t_cur t AND (2 ^ k - 1))) = 2 ^ k - cur mod 2 ^ k"
      using r p lt by (subst unat_sub) (simp_all add: word_le_nat_alt)
    show ?thesis
      using built_zeros [OF b, of "2 ^ k - (t_cur t AND (2 ^ k - 1))"] room nz False unfolding d
      by (simp add: trx_align_def round_to_def)
  qed
qed

lemma built_offset:
  assumes b: "built fs cur t" and room: "max cur (unat n) < 0x5A0000"
  shows "\<exists>t'. trx_offset (Some n) t = Inr t' \<and> built fs (max cur (unat n)) t'"
proof (cases "n < t_cur t")
  case True
  then have "max cur (unat n) = cur" using b by (auto simp: built_def word_less_nat_alt)
  then show ?thesis using b True by (simp add: trx_offset_def)
next
  case False
  then have le: "t_cur t \<le> n" by simp
  have c: "unat (t_cur t) = cur" using b by (simp add: built_def)
  have d: "unat (n - t_cur t) = unat n - cur" using le c by (subst unat_sub) simp_all
  have m: "max cur (unat n) = cur + (unat n - cur)" using le c by (simp add: word_le_nat_alt)
  show ?thesis using built_zeros [OF b, of "n - t_cur t"] room False d m by (simp add: trx_offset_def)
qed

lemma round_to_ge: "cur \<le> round_to k cur"
  by (simp add: round_to_def)

lemma layout_ge: "layout opts cur = (fs, e) \<Longrightarrow> cur \<le> e"
proof (induction opts cur arbitrary: fs rule: layout.induct)
  case (2 bs opts cur)
  then show ?case by (fastforce split: prod.splits)
next
  case (3 a opts cur)
  then show ?case using round_to_ge [of cur "unat a"] by fastforce
qed auto

lemma built_opts:
  "\<lbrakk>built fs cur t; list_all plain opts; layout opts cur = (gs, e); length fs + length gs \<le> 3; e < 0x5A0000\<rbrakk> \<Longrightarrow>
    \<exists>t'. trx_opts opts t = Inr t' \<and> built (fs @ gs) e t'"
proof (induction opts cur arbitrary: fs gs t rule: layout.induct)
  case (2 bs opts cur)
  obtain gs' where l: "layout opts (cur + up4 (length bs)) = (gs', e)" and gs: "gs = (cur, bs) # gs'"
    using 2(4) by (auto split: prod.splits)
  have "cur + up4 (length bs) < 0x5A0000" using layout_ge [OF l] 2(6) by simp
  with built_file [OF 2(2)] gs 2(5) obtain t' where
    t': "trx_file (Some bs) t = Inr t'" "built (fs @ [(cur, bs)]) (cur + up4 (length bs)) t'" by auto
  show ?case using 2(1) [OF t'(2) _ l _ 2(6)] 2(3,5) gs t'(1) by simp
next
  case (3 a opts cur)
  obtain k where k: "k < 32" "a = 2 ^ k" using 3(3) by auto
  have ua: "unat a = 2 ^ k" using k by (simp add: unat_exp)
  have l: "layout opts (round_to (2 ^ k) cur) = (gs, e)" using 3(4) ua by simp
  have "round_to (2 ^ k) cur < 0x5A0000" using layout_ge [OF l] 3(6) by simp
  with built_align [OF 3(2) k(1)] obtain t' where
    t': "trx_align (Some a) t = Inr t'" "built fs (round_to (2 ^ k) cur) t'" unfolding k(2) by blast
  show ?case using 3(1) [of fs t' gs] t' ua l 3(3,5,6) by simp
next
  case (4 n opts cur)
  have l: "layout opts (max cur (unat n)) = (gs, e)" using 4(4) by simp
  have "max cur (unat n) < 0x5A0000" using layout_ge [OF l] 4(6) by simp
  with built_offset [OF 4(2)] obtain t' where
    t': "trx_offset (Some n) t = Inr t'" "built fs (max cur (unat n)) t'" by blast
  show ?case using 4(1) [OF t'(2) _ l 4(5,6)] t'(1) 4(3) by simp
qed auto


section \<open>The finished image\<close>

lemma trx_finish_built:
  assumes b: "built fs e t" and ne: "fs \<noteq> []" and e: "e < 0x5A0000"
  shows "\<exists>img. trx_finish t = Inr img \<and> length img = round_to 0x1000 e \<and> le32 img 0 = TRX_MAGIC \<and>
    le32 img 4 = of_nat (length img) \<and> le32 img 8 = crc_ref 0xFFFFFFFF (drop 12 img) \<and> le32 img 12 = 0x10000 \<and>
    (\<forall>j < length fs. le32 img (16 + 4 * j) = of_nat (fst (fs ! j)) \<and>
       take (length (snd (fs ! j))) (drop (fst (fs ! j)) img) = snd (fs ! j))"
proof -
  let ?n = "t_cur t AND 0xFFF"
  have le: "round_to 0x1000 e \<le> 0x5A0000"
  proof -
    define q r where "q = e div 0x1000" and "r = e mod 0x1000"
    have d: "e = 0x1000 * q + r" "r < 0x1000" by (simp_all add: q_def r_def)
    then have "q < 0x5A0" using e by linarith
    then show ?thesis using d e unfolding round_to_def r_def [symmetric] by auto
  qed
  have c: "unat (t_cur t) = e" "t_in t" using b ne by (simp_all add: built_def)
  have "?n = t_cur t AND mask 12" by (simp add: mask_eq_exp_minus_1)
  then have n: "unat ?n = e mod 0x1000" using c by (simp add: unat_and_mask)
  have "\<exists>t'. (if ?n \<noteq> 0 then trx_zeros (0x1000 - ?n) t else Inr t) = Inr t' \<and> built fs (round_to 0x1000 e) t'"
  proof (cases "e mod 0x1000 = 0")
    case True
    then have "?n = 0" using n by (simp add: unat_eq_zero)
    then show ?thesis using b True by (simp add: round_to_def)
  next
    case False
    then have nz: "?n \<noteq> 0" using n by auto
    have "e mod 0x1000 < 0x1000" by simp
    then have "unat (0x1000 - ?n) = 0x1000 - e mod 0x1000"
      using n by (subst unat_sub) (simp_all add: word_le_nat_alt)
    then show ?thesis using built_zeros [OF b, of "0x1000 - ?n"] le nz False by (simp add: round_to_def)
  qed
  then obtain t' where t': "(if ?n \<noteq> 0 then trx_zeros (0x1000 - ?n) t else Inr t) = Inr t'"
    and b': "built fs (round_to 0x1000 e) t'" by blast
  let ?len = "round_to 0x1000 e"
  define crc where "crc = crc32buf (peek (t_mem t') 12 (?len - 12))"
  define m where "m = store (store (t_mem t') 8 (htol32 crc)) 4 (htol32 (t_cur t'))"
  have c': "unat (t_cur t') = ?len" "\<not> t_freed t'" "t_size t' = 0x5A0000" "HDR \<le> ?len" using b' by (simp_all add: built_def)
  have run: "trx_finish t = Inr (peek m 0 ?len)"
    unfolding trx_finish_def Let_def t' using c(2) c' le by (simp add: m_def crc_def)
  have keep: "peek m q k = peek (t_mem t') q k" if "q + k \<le> 4 \<or> 12 \<le> q" for q k
    using that unfolding m_def by (auto simp: peek_store_disjoint)
  have "peek m 4 4 = htol32 (t_cur t')" unfolding m_def using peek_store_same [of _ 4 "htol32 (t_cur t')"] by simp
  then have len: "le32 (peek m 0 ?len) 4 = t_cur t'" using le32_peek [of m 0 4 "t_cur t'" ?len] c'(4) by simp
  have "peek m 8 4 = htol32 crc"
    unfolding m_def using peek_store_same [of "t_mem t'" 8 "htol32 crc"] by (simp add: peek_store_disjoint)
  then have crc: "le32 (peek m 0 ?len) 8 = crc" using le32_peek [of m 0 8 crc ?len] c'(4) by simp
  have body: "crc = crc_ref 0xFFFFFFFF (drop 12 (peek m 0 ?len))"
    by (simp add: crc_def crc32buf_ref drop_peek keep)
  have magic: "le32 (peek m 0 ?len) 0 = TRX_MAGIC" "le32 (peek m 0 ?len) 12 = 0x10000"
    using b' keep [of 0 4] keep [of 12 4] c'(4) by (auto simp: built_def intro!: le32_peek)
  have offs: "le32 (peek m 0 ?len) (16 + 4 * j) = of_nat (fst (fs ! j))" if "j < length fs" for j
    using b' keep [of "16 + 4 * j" 4] c'(4) that by (auto simp: built_def intro!: le32_peek)
  have files: "take (length (snd (fs ! j))) (drop (fst (fs ! j)) (peek m 0 ?len)) = snd (fs ! j)" if "j < length fs" for j
  proof -
    obtain p bs where f: "fs ! j = (p, bs)" by (cases "fs ! j")
    then have "(p, bs) \<in> set fs" using that by (metis nth_mem)
    then have "HDR \<le> p" "p + length bs \<le> ?len" "peek (t_mem t') p (length bs) = bs" using b' by (auto simp: built_def)
    then show ?thesis using f keep [of p "length bs"] by (simp add: take_drop_peek)
  qed
  have "t_cur t' = of_nat ?len" using c'(1) by (rule word_eq_of_nat)
  then show ?thesis using run len crc body magic offs files by auto
qed

lemma built_start:
  assumes "m = store (store junk 0 (htol32 TRX_MAGIC)) 12 (htol32 (push_bit 16 TRX_VERSION))"
  shows "built [] 28 \<lparr>t_mem = m, t_size = unat TRX_MAX_LEN, t_freed = False, t_cur = of_nat HDR,
    t_maxlen = TRX_MAX_LEN, t_i = 0, t_in = False\<rparr>"
proof -
  have "peek m 0 4 = htol32 TRX_MAGIC"
    unfolding assms using peek_store_same [of junk 0 "htol32 TRX_MAGIC"] by (simp add: peek_store_disjoint)
  moreover have "peek m 12 4 = htol32 0x10000"
    unfolding assms using peek_store_same [of _ 12 "htol32 0x10000"] by (simp add: push_bit_eq_mult)
  ultimately show ?thesis by (simp add: built_def)
qed

lemma trx_main_image:
  assumes "list_all plain opts" "layout opts HDR = (fs, e)" "fs \<noteq> []" "length fs \<le> 3" "e < 0x5A0000"
  shows "\<exists>img. trx_main junk opts = Inr img \<and> length img = round_to 0x1000 e \<and> le32 img 0 = TRX_MAGIC \<and>
    le32 img 4 = of_nat (length img) \<and> le32 img 8 = crc_ref 0xFFFFFFFF (drop 12 img) \<and> le32 img 12 = 0x10000 \<and>
    (\<forall>j < length fs. le32 img (16 + 4 * j) = of_nat (fst (fs ! j)) \<and>
       take (length (snd (fs ! j))) (drop (fst (fs ! j)) img) = snd (fs ! j))"
    "\<forall>(p, f) \<in> set fs. HDR \<le> p \<and> p + length f \<le> e"
proof -
  obtain t where t: "trx_opts opts \<lparr>t_mem = store (store junk 0 (htol32 TRX_MAGIC)) 12 (htol32 (push_bit 16 TRX_VERSION)),
      t_size = unat TRX_MAX_LEN, t_freed = False, t_cur = of_nat HDR, t_maxlen = TRX_MAX_LEN, t_i = 0, t_in = False\<rparr> = Inr t"
    "built fs e t"
    using built_opts [OF built_start [OF refl] assms(1,2) _ assms(5)] assms(4) by auto
  then show "\<exists>img. trx_main junk opts = Inr img \<and> length img = round_to 0x1000 e \<and> le32 img 0 = TRX_MAGIC \<and>
    le32 img 4 = of_nat (length img) \<and> le32 img 8 = crc_ref 0xFFFFFFFF (drop 12 img) \<and> le32 img 12 = 0x10000 \<and>
    (\<forall>j < length fs. le32 img (16 + 4 * j) = of_nat (fst (fs ! j)) \<and>
       take (length (snd (fs ! j))) (drop (fst (fs ! j)) img) = snd (fs ! j))"
    unfolding trx_main_def Let_def using trx_finish_built [OF _ assms(3,5)] by auto
  show "\<forall>(p, f) \<in> set fs. HDR \<le> p \<and> p + length f \<le> e" using t(2) by (auto simp: built_def)
qed

end
