(* ===== verification/FlashMap.thy ===== *)
theory FlashMap
  imports ImgTrx
begin

text \<open>
  The flash of the BCM947xx board (\<open>drivers/mtd/maps/bcm947xx-flash.c\<close>): access to the window, the search for the
  firmware image, the partitions derived from it, and the rewriting of the image's header so that it ends with the
  root file system. The MTD layer is the parameter of theory \<open>NvramFlash\<close>; the kernel's \<open>crc32_le\<close>, \<open>ioremap\<close>, the
  probing of the chip and the registration of partitions are arguments. Positions in the flash are natural numbers,
  the fields of headers and partitions are 32-bit words. Waiting for the callback of an erase is part of the erase, and the
  erase block that the rewriting allocates (unchecked) is there.
\<close>

section \<open>Access to the window\<close>

text \<open>The window is byte-addressed; 16-bit accesses are little-endian.\<close>

definition raw_readw :: "memory \<Rightarrow> nat \<Rightarrow> u16" where
  "raw_readw io a = ucast (io a) OR push_bit 8 (ucast (io (a + 1)))"

record map_info =
  mi_size :: u32
  mi_buswidth :: nat
  mi_priv_1 :: u32
  mi_priv_2 :: u32

definition bcm947xx_map_read8 :: "memory \<Rightarrow> map_info \<Rightarrow> nat \<Rightarrow> u8" where
  "bcm947xx_map_read8 io mi ofs =
     (if mi_priv_2 mi = 1 then io (unat (mi_priv_1 mi) + ofs)
      else
        (let val = raw_readw io (unat (mi_priv_1 mi) + 2 * (ofs div 2)) in
         if odd ofs then ucast (drop_bit 8 val AND 0xFF) else ucast (val AND 0xFF)))"

text \<open>The copy reads 16 bits at a time; the last byte of an odd length is the low half of a word.\<close>

definition bcm947xx_map_copy_from :: "memory \<Rightarrow> map_info \<Rightarrow> nat \<Rightarrow> nat \<Rightarrow> u8 list" where
  "bcm947xx_map_copy_from io mi from len =
     (let src = unat (mi_priv_1 mi) + from in
      if len = 1 then [io src]
      else concat (List.map (\<lambda>i. [ucast (raw_readw io (src + 2 * i)), ucast (drop_bit 8 (raw_readw io (src + 2 * i)))])
               [0..<len div 2]) @
           (if odd len then [ucast (raw_readw io (src + 2 * (len div 2)) AND 0xFF)] else []))"

section \<open>Headers and partitions\<close>

record trx_header =
  th_magic :: u32
  th_len :: u32
  th_crc32 :: u32
  th_flag_version :: u32
  th_offsets :: "u32 list"

definition trx_header_of :: "u8 list \<Rightarrow> trx_header" where
  "trx_header_of b = \<lparr>th_magic = le32 b 0, th_len = le32 b 4, th_crc32 = le32 b 8, th_flag_version = le32 b 12,
     th_offsets = [le32 b 16, le32 b 20, le32 b 24]\<rparr>"

definition trx_header_bytes :: "trx_header \<Rightarrow> u8 list" where
  "trx_header_bytes h = htol32 (th_magic h) @ htol32 (th_len h) @ htol32 (th_crc32 h) @ htol32 (th_flag_version h) @
     concat (List.map htol32 (th_offsets h))"

record mtd_partition =
  pt_name :: "string option"
  pt_offset :: u32
  pt_size :: u32

definition bcm947xx_parts :: "mtd_partition list" where
  "bcm947xx_parts =
     [\<lparr>pt_name = Some ''cfe'', pt_offset = 0, pt_size = 0\<rparr>, \<lparr>pt_name = Some ''linux'', pt_offset = 0, pt_size = 0\<rparr>,
      \<lparr>pt_name = Some ''rootfs'', pt_offset = 0, pt_size = 0\<rparr>, \<lparr>pt_name = Some ''nvram'', pt_offset = 0, pt_size = 0\<rparr>,
      \<lparr>pt_name = Some ''rootfs_data'', pt_offset = 0, pt_size = 0\<rparr>, \<lparr>pt_name = None, pt_offset = 0, pt_size = 0\<rparr>]"

section \<open>Search\<close>

definition blocksize :: "'f mtd \<Rightarrow> nat" where
  "blocksize m = (if mtd_erasesize m < 0x10000 then 0x10000 else mtd_erasesize m)"

text \<open>The loop over the places where an image may start: the first from which \<open>n\<close> bytes can be read that begin with
  the magic number.\<close>

function trx_scan :: "'f mtd \<Rightarrow> 'f \<Rightarrow> nat \<Rightarrow> nat \<Rightarrow> nat \<Rightarrow> (nat \<times> u8 list) option" where
  "trx_scan m fl n size' off =
     (if off < size' then
        (case mtd_read m fl off n of
           (ret, b) \<Rightarrow>
             if ret = 0 \<and> length b = n \<and> le32 b 0 = TRX_MAGIC then Some (off, b)
             else trx_scan m fl n size' (off + blocksize m))
      else None)"
  by pat_completeness auto
termination
  by (relation "measure (\<lambda>(m, fl, n, size', off). size' - off)") (auto simp: blocksize_def)

declare trx_scan.simps [simp del]

definition find_cfe_size :: "'f mtd \<Rightarrow> 'f \<Rightarrow> nat \<Rightarrow> int" where
  "find_cfe_size m fl size' = (case trx_scan m fl 512 size' (128 * 1024) of None \<Rightarrow> - 1 | Some (off, b) \<Rightarrow> int off)"

section \<open>Rewriting a block\<close>

definition erase_write :: "'f mtd \<Rightarrow> 'f \<Rightarrow> nat \<Rightarrow> u8 list \<Rightarrow> int \<times> 'f" where
  "erase_write m fl pos buf =
     (case mtd_erase m fl pos of
        (ret, fl) \<Rightarrow>
          if ret \<noteq> 0 then (ret, fl)
          else
            (case mtd_write m fl pos buf of
               (ret, retlen, fl) \<Rightarrow> if ret \<noteq> 0 then (ret, fl) else if retlen \<noteq> length buf then (- EIO, fl) else (0, fl)))"

section \<open>The root file system\<close>

abbreviation SQUASHFS_MAGIC :: u32 where "SQUASHFS_MAGIC \<equiv> 0x73717368"
abbreviation JFFS2_MAGIC_BITMASK :: u16 where "JFFS2_MAGIC_BITMASK \<equiv> 0x1985"

definition le16 :: "u8 list \<Rightarrow> nat \<Rightarrow> u16" where
  "le16 b i = ucast (b ! i) OR push_bit 8 (ucast (b ! (i + 1)))"

text \<open>The field \<open>bytes_used\<close> of the super block (its low half; the partition size has 32 bits).\<close>

definition bytes_used :: "u8 list \<Rightarrow> u32" where
  "bytes_used sb = le32 sb 63"

definition root_part :: "trx_header \<Rightarrow> nat \<Rightarrow> mtd_partition \<Rightarrow> mtd_partition" where
  "root_part trx off part =
     (let o1 = (if th_offsets trx ! 2 \<noteq> 0 then th_offsets trx ! 2 else th_offsets trx ! 1) in
      part\<lparr>pt_offset := o1 + of_nat off, pt_size := th_len trx - o1\<rparr>)"

text \<open>The size by the kind of file system; \<open>None\<close> for an unknown one.\<close>

definition root_size :: "'f mtd \<Rightarrow> u8 list \<Rightarrow> mtd_partition \<Rightarrow> mtd_partition option" where
  "root_size m buf part =
     (if le32 buf 0 = SQUASHFS_MAGIC then
        (let es = of_nat (mtd_erasesize m) :: u32;
             len = pt_offset part + bytes_used buf;
             len = len + (es - 1);
             len = len AND NOT (es - 1)
         in Some (part\<lparr>pt_size := len - pt_offset part\<rparr>))
      else if le16 buf 0 = JFFS2_MAGIC_BITMASK then Some (part\<lparr>pt_size := 0\<rparr>)
      else None)"

text \<open>The checksum over the image in the flash, 512 bytes at a time, from the flags to the new length.\<close>

function trx_crc :: "(u32 \<Rightarrow> u8 list \<Rightarrow> u32) \<Rightarrow> 'f mtd \<Rightarrow> 'f \<Rightarrow> nat \<Rightarrow> nat \<Rightarrow> nat \<Rightarrow> u32 \<Rightarrow> u32 option" where
  "trx_crc crc32_le m fl off len i crc =
     (if i \<le> len then
        (case mtd_read m fl (off + i) 512 of
           (ret, buf) \<Rightarrow>
             if ret \<noteq> 0 \<or> length buf \<noteq> 512 then None
             else trx_crc crc32_le m fl off len (i + 512) (crc32_le crc (take (min 512 (len - i)) buf)))
      else Some crc)"
  by pat_completeness auto
termination
  by (relation "measure (\<lambda>(c, m, fl, off, len, i, crc). Suc len - i)") auto

declare trx_crc.simps [simp del]

text \<open>The update of the header: a result \<open>False\<close> is the return without a root file system.\<close>

definition trx_update ::
  "(u32 \<Rightarrow> u8 list \<Rightarrow> u32) \<Rightarrow> 'f mtd \<Rightarrow> 'f \<Rightarrow> nat \<Rightarrow> trx_header \<Rightarrow> mtd_partition \<Rightarrow> bool \<times> 'f" where
  "trx_update crc32_le m fl off trx part =
     (let len = pt_offset part + pt_size part - of_nat off in
      if th_len trx = len then (True, fl)
      else
        (case trx_crc crc32_le m fl off (unat len) 12 (NOT 0) of
           None \<Rightarrow> (False, fl)
         | Some crc \<Rightarrow>
             (let trx = trx\<lparr>th_len := len, th_crc32 := crc\<rparr> in
              case mtd_read m fl off (mtd_erasesize m) of
                (ret, block) \<Rightarrow>
                  if ret \<noteq> 0 \<or> length block \<noteq> mtd_erasesize m then (False, fl)
                  else
                    (let block = trx_header_bytes trx @ drop 28 block
                     in (True, snd (erase_write m (unlock m fl off) off block))))))"

definition find_root ::
  "(u32 \<Rightarrow> u8 list \<Rightarrow> u32) \<Rightarrow> 'f mtd \<Rightarrow> 'f \<Rightarrow> nat \<Rightarrow> mtd_partition \<Rightarrow> u32 \<times> mtd_partition \<times> 'f" where
  "find_root crc32_le m fl size' part =
     (case trx_scan m fl 28 size' (128 * 1024) of
        None \<Rightarrow> (- 1, part, fl)
      | Some (off, b) \<Rightarrow>
          (let trx = trx_header_of b; part = root_part trx off part in
           if pt_size part = 0 then (0, part, fl)
           else
             (case mtd_read m fl (unat (pt_offset part)) 512 of
                (ret, buf) \<Rightarrow>
                  if ret \<noteq> 0 \<or> length buf \<noteq> 512 then (0, part, fl)
                  else
                    (case root_size m buf part of
                       None \<Rightarrow> (0, part, fl)
                     | Some part \<Rightarrow>
                         (case trx_update crc32_le m fl off trx part of
                            (True, fl) \<Rightarrow> (pt_size part, part, fl)
                          | (False, fl) \<Rightarrow> (0, part, fl))))))"

section \<open>Partitions\<close>

abbreviation (input) poff :: "mtd_partition list \<Rightarrow> nat \<Rightarrow> u32" where "poff ps i \<equiv> pt_offset (ps ! i)"
abbreviation (input) psize :: "mtd_partition list \<Rightarrow> nat \<Rightarrow> u32" where "psize ps i \<equiv> pt_size (ps ! i)"

definition place :: "nat \<Rightarrow> u32 \<Rightarrow> u32 \<Rightarrow> mtd_partition list \<Rightarrow> mtd_partition list" where
  "place i off size' ps = ps[i := (ps ! i)\<lparr>pt_offset := off, pt_size := size'\<rparr>]"

text \<open>The boot loader, the NVRAM and the firmware with its root file system; on a board with 384 KB of boot loader
  the NVRAM stands behind the boot loader.\<close>

definition fixed_parts :: "u32 \<Rightarrow> u32 \<Rightarrow> u32 \<Rightarrow> mtd_partition list \<Rightarrow> mtd_partition list" where
  "fixed_parts size' nvsize es ps =
     (let cfe_size = psize ps 0 in
      if cfe_size \<noteq> 384 * 1024 then
        (let ps = place 3 (size' - nvsize) nvsize ps in place 1 cfe_size (poff ps 3 - cfe_size) ps)
      else
        (let ps = place 3 cfe_size nvsize ps
         in place 1 (cfe_size + nvsize + es) (size' - cfe_size - 2 * nvsize - es) ps))"

definition data_part :: "u32 \<Rightarrow> u32 \<Rightarrow> mtd_partition list \<Rightarrow> mtd_partition list" where
  "data_part size' es ps =
     (let off = poff ps 2 + psize ps 2;
          off = (if 0 < off mod es then off + (es - off mod es) else off)
      in place 4 off (if psize ps 0 \<noteq> 384 * 1024 then poff ps 3 - off else size' - psize ps 3 - off) ps)"

definition init_mtd_partitions ::
  "(u32 \<Rightarrow> u8 list \<Rightarrow> u32) \<Rightarrow> 'f mtd \<Rightarrow> 'f \<Rightarrow> nat \<Rightarrow> mtd_partition list \<Rightarrow> mtd_partition list option \<times> 'f" where
  "init_mtd_partitions crc32_le m fl size' ps =
     (let cfe_size = find_cfe_size m fl size' in
      if cfe_size < 0 then (None, fl)
      else
        (let es = of_nat (mtd_erasesize m); nvsize = of_nat (ROUNDUP NVRAM_SPACE (mtd_erasesize m));
             ps = fixed_parts (of_nat size') nvsize es (place 0 0 (of_int cfe_size) ps)
         in case find_root crc32_le m fl size' (ps ! 2) of
              (ret, part, fl) \<Rightarrow>
                (let ps = ps[2 := part] in
                 if ret = 0 then
                   (Some (place 2 (poff ps 2) (of_nat size' - poff ps 2 - psize ps 3)
                      (ps[4 := (ps ! 4)\<lparr>pt_name := None\<rparr>])), fl)
                 else (Some (data_part (of_nat size') es ps), fl))))"


section \<open>The driver\<close>

abbreviation ENXIO :: int where "ENXIO \<equiv> 6"
abbreviation CC_CAP_FLASH_MASK :: u32 where "CC_CAP_FLASH_MASK \<equiv> 0x700"
abbreviation PFLASH :: u32 where "PFLASH \<equiv> 0x700"
abbreviation CC_CFG_DS :: u32 where "CC_CFG_DS \<equiv> 0x10"

text \<open>The kernel around the driver: the registers \<open>capabilities\<close> and \<open>flash_config\<close> of a chip with a ChipCommon core,
  mapping, probing, registration of partitions, and the checksum.\<close>

record 'f board =
  bd_cc :: "(u32 \<times> u32) option"
  bd_ioremap :: "u32 \<Rightarrow> u32 \<Rightarrow> u32"
  bd_probe :: "map_info \<Rightarrow> 'f mtd option"
  bd_add_parts :: "mtd_partition list \<Rightarrow> int"
  bd_crc32_le :: "u32 \<Rightarrow> u8 list \<Rightarrow> u32"

text \<open>The static variables of the driver, the mappings and chips that are in use, and the partitions that are
  registered.\<close>

record 'f flash_drv =
  fd_map :: map_info
  fd_mtd :: "'f mtd option"
  fd_parts :: "mtd_partition list"
  fd_iomaps :: "u32 list"
  fd_chips :: nat
  fd_added :: "mtd_partition list option"

definition flash_loaded :: "'f flash_drv" where
  "flash_loaded = \<lparr>fd_map = \<lparr>mi_size = 0x400000, mi_buswidth = 2, mi_priv_1 = 0, mi_priv_2 = 0\<rparr>, fd_mtd = None,
     fd_parts = bcm947xx_parts, fd_iomaps = [], fd_chips = 0, fd_added = None\<rparr>"

text \<open>The type of the flash, and the window with its address and size.\<close>

definition flash_window :: "(u32 \<times> u32) option \<Rightarrow> map_info \<Rightarrow> u32 \<times> map_info \<times> u32 \<times> u32" where
  "flash_window cc mi =
     (case cc of
        None \<Rightarrow> (PFLASH, mi\<lparr>mi_priv_2 := 0\<rparr>, 0x1FC00000, 0x400000)
      | Some (capabilities, flash_config) \<Rightarrow>
          (let fltype = capabilities AND CC_CAP_FLASH_MASK in
           if fltype = PFLASH then
             (fltype, mi\<lparr>mi_priv_2 := 1, mi_size := 32 * 1024 * 1024,
                        mi_buswidth := (if flash_config AND CC_CFG_DS = 0 then 1 else mi_buswidth mi)\<rparr>,
              0x1C000000, 32 * 1024 * 1024)
           else (fltype, mi, 0, 0)))"

definition flash_fail :: "'f flash_drv \<Rightarrow> 'f flash_drv" where
  "flash_fail s =
     (let s = (if fd_mtd s \<noteq> None then s\<lparr>fd_chips := fd_chips s - 1\<rparr> else s);
          s = (if mi_priv_1 (fd_map s) \<noteq> 0 then s\<lparr>fd_iomaps := remove1 (mi_priv_1 (fd_map s)) (fd_iomaps s)\<rparr> else s)
      in s\<lparr>fd_map := (fd_map s)\<lparr>mi_priv_1 := 0\<rparr>\<rparr>)"

definition flash_probe_parts :: "'f board \<Rightarrow> 'f mtd \<Rightarrow> 'f flash_drv \<Rightarrow> 'f \<Rightarrow> (int \<times> 'f flash_drv \<times> 'f) option" where
  "flash_probe_parts bd m s fl =
     (case init_mtd_partitions (bd_crc32_le bd) m fl (mtd_size m) (fd_parts s) of
        (None, fl) \<Rightarrow> None
      | (Some ps, fl) \<Rightarrow>
          (let parts = takeWhile (\<lambda>p. pt_name p \<noteq> None) ps; ret = bd_add_parts bd parts; s = s\<lparr>fd_parts := ps\<rparr> in
           if ret \<noteq> 0 then Some (ret, flash_fail s, fl) else Some (0, s\<lparr>fd_added := Some parts\<rparr>, fl)))"

text \<open>\<open>None\<close>: a null pointer is dereferenced.\<close>

definition init_bcm947xx_map :: "'f board \<Rightarrow> 'f flash_drv \<Rightarrow> 'f \<Rightarrow> (int \<times> 'f flash_drv \<times> 'f) option" where
  "init_bcm947xx_map bd s fl =
     (case flash_window (bd_cc bd) (fd_map s) of
        (fltype, mi, window_addr, window_size) \<Rightarrow>
          (let s = s\<lparr>fd_map := mi\<rparr> in
           if fltype \<noteq> PFLASH then Some (- ENODEV, flash_fail s, fl)
           else
             (let a = bd_ioremap bd window_addr window_size; mi = mi\<lparr>mi_priv_1 := a\<rparr>; s = s\<lparr>fd_map := mi\<rparr> in
              if a = 0 then Some (- EIO, s, fl)
              else
                (let s = s\<lparr>fd_iomaps := a # fd_iomaps s, fd_mtd := bd_probe bd mi\<rparr> in
                 case fd_mtd s of
                   None \<Rightarrow> Some (- ENXIO, s\<lparr>fd_iomaps := remove1 a (fd_iomaps s)\<rparr>, fl)
                 | Some m \<Rightarrow> flash_probe_parts bd m (s\<lparr>fd_chips := fd_chips s + 1\<rparr>) fl))))"

definition cleanup_bcm947xx_map :: "'f flash_drv \<Rightarrow> 'f flash_drv" where
  "cleanup_bcm947xx_map s =
     s\<lparr>fd_added := None, fd_chips := fd_chips s - 1, fd_iomaps := remove1 (mi_priv_1 (fd_map s)) (fd_iomaps s),
       fd_map := (fd_map s)\<lparr>mi_priv_1 := 0\<rparr>\<rparr>"

section \<open>Window\<close>

lemma ucast_u8_u16_id [simp]: "ucast (ucast (x :: u8) :: u16) = x"
  by (rule bit_word_eqI) (simp add: bit_simps)

lemma raw_readw_bytes: "ucast (raw_readw io a) = io a" "ucast (drop_bit 8 (raw_readw io a)) = io (a + 1)"
  by (rule bit_word_eqI; auto simp: raw_readw_def bit_simps dest: bit_imp_le_length)+

lemma ucast_and_FF: "ucast (x AND 0xFF :: u16) = (ucast x :: u8)"
proof -
  have "x AND 0xFF = take_bit 8 x" by (simp add: take_bit_eq_mask mask_eq_exp_minus_1)
  then show ?thesis by (auto intro!: bit_word_eqI simp: bit_simps)
qed

lemma read8_byte: "bcm947xx_map_read8 io mi ofs = io (unat (mi_priv_1 mi) + ofs)"
  by (auto simp: bcm947xx_map_read8_def Let_def ucast_and_FF raw_readw_bytes elim: oddE)

lemma words_bytes: "concat (List.map (\<lambda>i. [io (src + 2 * i), io (Suc (src + 2 * i))]) [0..<n]) = peek io src (2 * n)"
  by (induction n) (simp_all add: peek_def)

lemma copy_from_bytes: "bcm947xx_map_copy_from io mi from len = peek io (unat (mi_priv_1 mi) + from) len"
proof (cases "len = 1")
  case False
  have "len = 2 * (len div 2) + (if odd len then 1 else 0)" by simp
  then have "peek io (unat (mi_priv_1 mi) + from) len = peek io (unat (mi_priv_1 mi) + from) (2 * (len div 2)) @
      peek io (unat (mi_priv_1 mi) + from + 2 * (len div 2)) (if odd len then 1 else 0)"
    using peek_append by metis
  with False show ?thesis
    by (simp add: bcm947xx_map_copy_from_def Let_def ucast_and_FF raw_readw_bytes words_bytes) (simp add: peek_def)
qed (simp add: bcm947xx_map_copy_from_def peek_def)


section \<open>Search\<close>

text \<open>An image whose first \<open>n\<close> bytes can be read.\<close>

definition image_at :: "'f mtd \<Rightarrow> 'f \<Rightarrow> nat \<Rightarrow> nat \<Rightarrow> bool" where
  "image_at m fl n off \<longleftrightarrow>
     (case mtd_read m fl off n of (ret, b) \<Rightarrow> ret = 0 \<and> length b = n \<and> le32 b 0 = TRX_MAGIC)"

lemma trx_scan_step:
  "trx_scan m fl n size' off =
     (if off < size' then
        if image_at m fl n off then Some (off, snd (mtd_read m fl off n)) else trx_scan m fl n size' (off + blocksize m)
      else None)"
  by (subst trx_scan.simps) (simp add: image_at_def split: prod.split)

lemma trx_scan_found:
  "\<lbrakk>\<And>i. i < k \<Longrightarrow> \<not> image_at m fl n (off + i * blocksize m); image_at m fl n (off + k * blocksize m);
    off + k * blocksize m < size'\<rbrakk> \<Longrightarrow>
   trx_scan m fl n size' off = Some (off + k * blocksize m, snd (mtd_read m fl (off + k * blocksize m) n))"
proof (induction k arbitrary: off)
  case 0
  then show ?case by (subst trx_scan_step) simp
next
  case (Suc k)
  have "trx_scan m fl n size' off = trx_scan m fl n size' (off + blocksize m)"
    using Suc.prems(1) [of 0] Suc.prems(3) by (subst trx_scan_step) simp
  moreover have "\<not> image_at m fl n (off + blocksize m + i * blocksize m)" if "i < k" for i
    using Suc.prems(1) [of "Suc i"] that by (simp add: add.assoc)
  ultimately show ?case using Suc.IH [of "off + blocksize m"] Suc.prems(2,3) by (simp add: add.assoc)
qed

lemma trx_scan_None:
  "trx_scan m fl n size' off = None \<longleftrightarrow> (\<forall>i. off + i * blocksize m < size' \<longrightarrow> \<not> image_at m fl n (off + i * blocksize m))"
proof (induction m fl n size' off rule: trx_scan.induct)
  case (1 m fl n size' off)
  show ?case
  proof (cases "off < size' \<and> \<not> image_at m fl n off")
    case True
    then have IH: "trx_scan m fl n size' (off + blocksize m) = None \<longleftrightarrow>
      (\<forall>i. off + blocksize m + i * blocksize m < size' \<longrightarrow> \<not> image_at m fl n (off + blocksize m + i * blocksize m))"
      using 1 by (fastforce simp: image_at_def)
    have "trx_scan m fl n size' off = trx_scan m fl n size' (off + blocksize m)"
      using True by (subst trx_scan_step) simp
    moreover have "(\<forall>i. P (off + i * blocksize m)) \<longleftrightarrow> P off \<and> (\<forall>i. P (off + blocksize m + i * blocksize m))" for P
      by (metis add.assoc add.right_neutral mult_Suc mult_zero_left not0_implies_Suc)
    note this [of "\<lambda>x. x < size' \<longrightarrow> \<not> image_at m fl n x"]
    ultimately show ?thesis using IH True by simp
  next
    case False
    show ?thesis
    proof (cases "off < size'")
      case True
      then show ?thesis using False by (subst trx_scan_step) (auto intro!: exI [of _ 0])
    next
      case f: False
      then show ?thesis by (subst trx_scan_step) auto
    qed
  qed
qed

section \<open>Reliable flash\<close>

text \<open>A NOR flash on which every operation inside it succeeds.\<close>

definition reliable :: "'f mtd \<Rightarrow> ('f \<Rightarrow> u8 list) \<Rightarrow> bool" where
  "reliable m content \<longleftrightarrow> nor_flash m content \<and>
     (\<forall>fl off n. off + n \<le> mtd_size m \<longrightarrow> mtd_read m fl off n = (0, take n (drop off (content fl)))) \<and>
     (\<forall>fl off. off + mtd_erasesize m \<le> mtd_size m \<longrightarrow> fst (mtd_erase m fl off) = 0) \<and>
     (\<forall>fl off b. off + length b \<le> mtd_size m \<longrightarrow> (\<exists>fl'. mtd_write m fl off b = (0, length b, fl')))"

lemma reliableD:
  assumes "reliable m content"
  shows "nor_flash m content"
    "off + n \<le> mtd_size m \<Longrightarrow> mtd_read m fl off n = (0, take n (drop off (content fl)))"
    "length (content fl) = mtd_size m"
  using assms nor_flashD(3) by (auto simp: reliable_def)

lemma program_erased:
  assumes "off + length b \<le> length c"
  shows "program (erased c off (length b)) off b = take off c @ b @ drop (off + length b) c"
  using assms by (intro nth_equalityI) (auto simp: program_nth erased_nth nth_append)

lemma erase_write_reliable:
  assumes r: "reliable m content" and len: "length b = mtd_erasesize m" and fits: "off + length b \<le> mtd_size m"
  shows "\<exists>fl'. erase_write m fl off b = (0, fl') \<and>
    content fl' = take off (content fl) @ b @ drop (off + length b) (content fl)"
proof -
  note nor = reliableD(1) [OF r]
  obtain f where e: "mtd_erase m fl off = (0, f)"
    using r len fits unfolding reliable_def by (metis prod.collapse)
  then have cf: "content f = erased (content fl) off (length b)"
    using nor_flashD(5) [OF nor, of off fl] len fits by auto
  obtain g where w: "mtd_write m f off b = (0, length b, g)" using r fits unfolding reliable_def by blast
  then have "content g = program (content f) off b"
    using nor fits unfolding nor_flash_def by (metis take_all order_refl)
  then show ?thesis
    using e w fits program_erased [of off b "content fl"] reliableD(3) [OF r, of fl] by (simp add: erase_write_def cf)
qed

section \<open>Checksum over the flash\<close>

lemma crc_ref_append: "crc_ref (crc_ref c xs) ys = crc_ref c (xs @ ys)"
  by (simp add: crc_ref_def)

lemma crc_ref_Nil [simp]: "crc_ref c [] = c"
  by (simp add: crc_ref_def)

lemma trx_crc_ref:
  assumes r: "reliable m content" and fits: "off + len + 512 \<le> mtd_size m"
  shows "i \<le> len \<Longrightarrow> trx_crc crc_ref m fl off len i crc =
    Some (crc_ref crc (take (len - i) (drop (off + i) (content fl))))"
proof (induction "len - i" arbitrary: i crc rule: less_induct)
  case less
  let ?b = "take 512 (drop (off + i) (content fl))"
  have rd: "mtd_read m fl (off + i) 512 = (0, ?b)" "length ?b = 512"
    using reliableD(2,3) [OF r] less.prems fits by simp_all
  have step: "trx_crc crc_ref m fl off len i crc =
      trx_crc crc_ref m fl off len (i + 512) (crc_ref crc (take (min 512 (len - i)) ?b))"
    using less.prems rd by (subst trx_crc.simps) simp
  show ?case
  proof (cases "i + 512 \<le> len")
    case True
    then have "take (len - i) (drop (off + i) (content fl)) =
        ?b @ take (len - (i + 512)) (drop (off + (i + 512)) (content fl))"
      using take_add [of 512 "len - (i + 512)" "drop (off + i) (content fl)"] by (simp add: ac_simps)
    then show ?thesis using less.hyps [of "i + 512"] True step by (simp add: crc_ref_append)
  next
    case False
    then show ?thesis using step less.prems by (subst (asm) (2) trx_crc.simps) (simp add: min_def)
  qed
qed


lemma trx_scan_SomeD:
  assumes "trx_scan m fl n size' off = Some (o', b)"
  obtains k where "o' = off + k * blocksize m" "o' < size'" "b = snd (mtd_read m fl o' n)" "image_at m fl n o'"
    "\<And>i. i < k \<Longrightarrow> \<not> image_at m fl n (off + i * blocksize m)"
proof -
  have "\<exists>k. image_at m fl n (off + k * blocksize m) \<and> off + k * blocksize m < size'"
    using assms trx_scan_None [of m fl n size' off] by auto
  define k where "k = (LEAST k. image_at m fl n (off + k * blocksize m) \<and> off + k * blocksize m < size')"
  have k: "image_at m fl n (off + k * blocksize m)" "off + k * blocksize m < size'"
    using LeastI_ex [OF \<open>\<exists>k. _\<close>] unfolding k_def by auto
  have less: "\<not> image_at m fl n (off + i * blocksize m)" if "i < k" for i
  proof -
    have "off + i * blocksize m < size'"
      using k(2) mult_le_mono1 [OF less_imp_le [OF that], of "blocksize m"] by linarith
    then show ?thesis using not_less_Least [OF that [unfolded k_def]] by blast
  qed
  from trx_scan_found [OF less k] assms have "o' = off + k * blocksize m" "b = snd (mtd_read m fl o' n)" by auto
  with k less show thesis by (intro that [of k]) auto
qed

section \<open>Headers\<close>

lemma htol32_nth: "i < 4 \<Longrightarrow> htol32 w ! i = ucast (drop_bit (8 * i) w)"
  by (auto simp: htol32_def less_Suc_eq numeral_eq_Suc)

lemma htol32_le32: "i + 4 \<le> length b \<Longrightarrow> htol32 (le32 b i) = take 4 (drop i b)"
proof -
  have byte: "(ucast (drop_bit (8 * j) (le32 b i)) :: u8) = b ! (i + j)" if "j < 4" for j
  proof -
    have "j = 0 \<or> j = 1 \<or> j = 2 \<or> j = 3" using that by auto
    then show ?thesis
      by (elim disjE; intro bit_word_eqI) (auto simp: le32_def bit_simps dest: bit_imp_le_length)
  qed
  assume "i + 4 \<le> length b"
  then show ?thesis by (intro nth_equalityI) (simp_all add: htol32_nth byte)
qed

lemma length_trx_header_bytes: "length (th_offsets h) = 3 \<Longrightarrow> length (trx_header_bytes h) = 28"
  by (auto simp: trx_header_bytes_def length_Suc_conv numeral_3_eq_3)

lemma le32_words: "i < length ws \<Longrightarrow> le32 (concat (List.map htol32 ws) @ r) (4 * i) = ws ! i"
proof (induction ws arbitrary: i)
  case (Cons w ws)
  show ?case
  proof (cases i)
    case (Suc j)
    have "le32 (htol32 w @ x) (4 + n) = le32 x n" for x n by (simp add: le32_def nth_append add.commute)
    then show ?thesis using Cons Suc by simp
  qed (simp add: le32_htol32)
qed simp

lemma trx_header_of_bytes: "length (th_offsets h) = 3 \<Longrightarrow> trx_header_of (trx_header_bytes h @ r) = h"
proof -
  assume "length (th_offsets h) = 3"
  then obtain a b c where o: "th_offsets h = [a, b, c]" by (auto simp: length_Suc_conv numeral_3_eq_3)
  let ?w = "[th_magic h, th_len h, th_crc32 h, th_flag_version h, a, b, c]"
  have "trx_header_bytes h @ r = concat (List.map htol32 ?w) @ r" by (simp add: trx_header_bytes_def o)
  then show ?thesis
    using le32_words [of _ ?w r] le32_words [of 0 ?w r] le32_words [of 1 ?w r] le32_words [of 2 ?w r] le32_words [of 3 ?w r]
      le32_words [of 4 ?w r] le32_words [of 5 ?w r] le32_words [of 6 ?w r] o
    by (simp add: trx_header_of_def)
qed

lemma trx_header_bytes_of: "28 \<le> length b \<Longrightarrow> trx_header_bytes (trx_header_of b) = take 28 b"
proof -
  assume len: "28 \<le> length b"
  have split: "take (n + 4) b = take n b @ take 4 (drop n b)" for n by (rule take_add)
  have "take 28 b = take 4 b @ take 4 (drop 4 b) @ take 4 (drop 8 b) @ take 4 (drop 12 b) @ take 4 (drop 16 b) @
      take 4 (drop 20 b) @ take 4 (drop 24 b)"
    using split [of 4] split [of 8] split [of 12] split [of 16] split [of 20] split [of 24] by simp
  then show ?thesis using len by (simp add: trx_header_bytes_def trx_header_of_def htol32_le32)
qed


text \<open>An image with a proper header at the start of some bytes.\<close>

definition image_valid :: "u8 list \<Rightarrow> bool" where
  "image_valid b \<longleftrightarrow>
     (let h = trx_header_of b; len = unat (th_len h) in
      th_magic h = TRX_MAGIC \<and> 28 \<le> len \<and> len \<le> length b \<and>
      th_crc32 h = crc_ref 0xFFFFFFFF (take (len - 12) (drop 12 b)))"

section \<open>The updated header\<close>

lemma trx_header_of_take: "trx_header_of (take 28 b) = trx_header_of b"
  by (simp add: trx_header_of_def le32_def)

lemma not_0_u32: "(NOT 0 :: u32) = 0xFFFFFFFF"
  by code_simp

lemma drop_take_append: "j \<le> k \<Longrightarrow> drop j (take k x) @ drop k x = drop j x"
  by (metis append_take_drop_id drop_drop drop_take le_add_diff_inverse2)

lemma update_reliable:
  assumes r: "reliable m content" and es: "28 \<le> mtd_erasesize m" "off + mtd_erasesize m \<le> mtd_size m"
    and h: "h = trx_header_of (drop off (content fl))"
    and len: "pt_offset part + pt_size part - of_nat off = len" "28 \<le> unat len" "off + unat len + 512 \<le> mtd_size m"
    and ne: "th_len h \<noteq> len" and magic: "th_magic h = TRX_MAGIC"
  shows "\<exists>fl' crc. trx_update crc_ref m fl off h part = (True, fl') \<and>
    content fl' = take off (content fl) @ trx_header_bytes (h\<lparr>th_len := len, th_crc32 := crc\<rparr>) @ drop (off + 28) (content fl) \<and>
    image_valid (drop off (content fl'))"
proof -
  let ?c = "content fl"
  define crc where "crc = crc_ref (NOT 0) (take (unat len - 12) (drop (off + 12) ?c))"
  let ?h = "h\<lparr>th_len := len, th_crc32 := crc\<rparr>"
  let ?e = "mtd_erasesize m"
  have o3: "length (th_offsets ?h) = 3" by (simp add: h trx_header_of_def)
  note hl = length_trx_header_bytes [OF o3]
  define block where "block = trx_header_bytes ?h @ drop 28 (take ?e (drop off ?c))"
  have cl: "length ?c = mtd_size m" by (rule reliableD(3) [OF r])
  have bl: "length block = ?e" using es hl cl by (simp add: block_def)
  have u: "content (unlock m fl off) = ?c" by (rule nor_flashD(6) [OF reliableD(1) [OF r]])
  obtain fl' where w: "erase_write m (unlock m fl off) off block = (0, fl')"
    "content fl' = take off ?c @ block @ drop (off + ?e) ?c"
    using erase_write_reliable [OF r bl, of off "unlock m fl off"] es bl u by auto
  have "drop 28 (take ?e (drop off ?c)) @ drop (off + ?e) ?c = drop (off + 28) ?c"
  proof -
    have "drop (off + 28) ?c = take (?e - 28) (drop (off + 28) ?c) @ drop (?e - 28) (drop (off + 28) ?c)"
      by (rule append_take_drop_id [symmetric])
    moreover have "drop (?e - 28) (drop (off + 28) ?c) = drop (off + ?e) ?c"
      using es(1) unfolding drop_drop by (intro arg_cong2 [where f = drop]) simp_all
    moreover have "drop 28 (take ?e (drop off ?c)) = take (?e - 28) (drop (off + 28) ?c)"
      unfolding drop_take drop_drop by (simp add: add.commute)
    ultimately show ?thesis by simp
  qed
  then have c': "content fl' = take off ?c @ trx_header_bytes ?h @ drop (off + 28) ?c"
    using w(2) by (simp add: block_def)
  have c12: "trx_crc crc_ref m fl off (unat len) 12 (NOT 0) = Some crc"
    using trx_crc_ref [OF r len(3), of 12] len(2) by (simp add: crc_def)
  have rd: "mtd_read m fl off ?e = (0, take ?e (drop off ?c))" using es by (intro reliableD(2) [OF r])
  have run: "trx_update crc_ref m fl off h part = (True, fl')"
    unfolding trx_update_def Let_def using len(1) ne c12 rd w(1) cl es by (simp add: block_def)
  have d': "drop off (content fl') = trx_header_bytes ?h @ drop (off + 28) ?c"
    using cl es c' by simp
  have hd': "trx_header_of (drop off (content fl')) = ?h" unfolding d' by (rule trx_header_of_bytes [OF o3])
  have "drop 12 (drop off (content fl')) = drop 12 (drop off ?c)"
  proof -
    have "drop 12 (trx_header_bytes ?h) = drop 12 (trx_header_bytes h)" by (simp add: trx_header_bytes_def)
    moreover have "trx_header_bytes h = take 28 (drop off ?c)"
      unfolding h using cl es by (intro trx_header_bytes_of) simp
    moreover have "drop (off + 28) ?c = drop 28 (drop off ?c)" by (simp add: add.commute)
    moreover note drop_take_append [of 12 28 "drop off ?c"]
    ultimately show ?thesis unfolding d' using hl es cl by simp
  qed
  moreover have "crc = crc_ref 0xFFFFFFFF (take (unat len - 12) (drop (off + 12) ?c))" by (simp only: crc_def not_0_u32)
  ultimately have "image_valid (drop off (content fl'))"
    unfolding image_valid_def hd' Let_def using len magic reliableD(3) [OF r, of fl'] by (simp add: add.commute)
  then show ?thesis using run c' by blast
qed


section \<open>Rounding\<close>

lemma and_not_mask: "unat (x AND NOT (mask k) :: u32) = unat x div 2 ^ k * 2 ^ k"
proof -
  have "x AND NOT (mask k) = push_bit k (drop_bit k x)" by (rule bit_word_eqI) (auto simp: bit_simps)
  moreover have "unat x div 2 ^ k * 2 ^ k < 2 ^ 32"
    using unsigned_less [of x, where 'a = nat] by (simp add: le_less_trans [OF div_times_less_eq_dividend])
  ultimately show ?thesis
    by (simp only: unsigned_push_bit_eq unat_drop_bit) (simp add: push_bit_eq_mult take_bit_nat_eq_self)
qed

lemma round_to_div: "0 < k \<Longrightarrow> (n + (k - 1)) div k * k = round_to k n"
proof -
  assume k: "0 < k"
  define q r where "q = n div k" and "r = n mod k"
  have n: "n = k * q + r" "r < k" using k by (simp_all add: q_def r_def)
  show ?thesis
  proof (cases "r = 0")
    case True
    then have "(n + (k - 1)) div k = q" using n k by (intro div_nat_eqI) simp_all
    then show ?thesis using n True by (simp add: round_to_def)
  next
    case False
    then have "(n + (k - 1)) div k = q + 1" using n k by (intro div_nat_eqI) simp_all
    then show ?thesis using n False unfolding round_to_def r_def [symmetric] by (simp add: algebra_simps)
  qed
qed

lemma align_word:
  assumes es: "es = 2 ^ k" "k < 32" and n: "unat w + es < 2 ^ 32"
  shows "unat ((w + (of_nat es - 1)) AND NOT (of_nat es - 1) :: u32) = round_to es (unat w)"
proof -
  have m: "of_nat es - 1 = (mask k :: u32)" using es by (simp add: mask_eq_exp_minus_1)
  have "unat (mask k :: u32) = es - 1"
    using es unat_exp [of k] by (simp add: mask_eq_exp_minus_1 unat_minus_one)
  then have "unat (w + mask k) = unat w + (es - 1)" using n by (simp add: unat_word_ariths)
  then show ?thesis unfolding m using round_to_div [of es "unat w"] es by (simp add: and_not_mask)
qed


section \<open>Firmware with a squashfs\<close>

text \<open>The position of the root file system relative to the header.\<close>

definition root_offset :: "trx_header \<Rightarrow> u32" where
  "root_offset h = (if th_offsets h ! 2 \<noteq> 0 then th_offsets h ! 2 else th_offsets h ! 1)"

text \<open>Flash with blocks of a power of two of at least 28 bytes, and below 4 GB.\<close>

definition geometry :: "'f mtd \<Rightarrow> bool" where
  "geometry m \<longleftrightarrow> (\<exists>k < 32. mtd_erasesize m = 2 ^ k) \<and> 28 \<le> mtd_erasesize m \<and> mtd_size m + mtd_erasesize m < 2 ^ 32"

text \<open>A valid image at \<open>off\<close> with a squashfs at \<open>root\<close> of \<open>used\<close> bytes, not empty, which ends 512 bytes before the end of the flash.\<close>

definition squashfs_image :: "'f mtd \<Rightarrow> u8 list \<Rightarrow> nat \<Rightarrow> nat \<Rightarrow> nat \<Rightarrow> bool" where
  "squashfs_image m c off root used \<longleftrightarrow>
     (let h = trx_header_of (drop off c) in
      image_valid (drop off c) \<and> root = off + unat (root_offset h) \<and> 28 \<le> unat (root_offset h) \<and>
      th_len h \<noteq> root_offset h) \<and>
     le32 (drop root c) 0 = SQUASHFS_MAGIC \<and> used = unat (bytes_used (drop root c)) \<and> 0 < used \<and>
     off + mtd_erasesize m \<le> mtd_size m \<and> root + 512 \<le> mtd_size m \<and>
     round_to (mtd_erasesize m) (root + used) + 512 \<le> mtd_size m"

lemma le32_take: "i + 4 \<le> n \<Longrightarrow> le32 (take n x) i = le32 x i"
  by (simp add: le32_def)

lemma le32_drop_take: "q + 4 \<le> n \<Longrightarrow> n \<le> length x \<Longrightarrow> le32 (drop q (take n x @ y)) 0 = le32 (drop q x) 0"
  by (simp add: le32_def nth_append)

lemma image_at_reliable:
  "reliable m content \<Longrightarrow> off + n \<le> mtd_size m \<Longrightarrow> 4 \<le> n \<Longrightarrow>
    image_at m fl n off \<longleftrightarrow> le32 (drop off (content fl)) 0 = TRX_MAGIC"
  by (simp add: image_at_def reliableD le32_take)

text \<open>The size of the partition and the new length.\<close>

lemma root_size_squashfs:
  assumes g: "geometry m" and i: "squashfs_image m c off root used" and o: "pt_offset part = of_nat root"
  shows "root_size m (take 512 (drop root c)) part =
    Some (part\<lparr>pt_size := of_nat (round_to (mtd_erasesize m) (root + used) - root)\<rparr>)"
proof -
  let ?es = "mtd_erasesize m"
  obtain k where k: "k < 32" "?es = 2 ^ k" using g by (auto simp: geometry_def)
  have sq: "le32 (drop root c) 0 = SQUASHFS_MAGIC" "used = unat (bytes_used (drop root c))"
    and end': "round_to ?es (root + used) \<le> mtd_size m"
    using i unfolding squashfs_image_def by (blast, blast, linarith)
  have small: "root + used + ?es < 2 ^ 32"
    using end' g round_to_ge [of "root + used" ?es] by (simp add: geometry_def)
  have b: "bytes_used (take 512 (drop root c)) = of_nat used" "le32 (take 512 (drop root c)) 0 = SQUASHFS_MAGIC"
    using sq by (simp_all add: bytes_used_def le32_take)
  have w: "unat (pt_offset part + of_nat used) = root + used" using unat_of_nat_u32 [of "root + used"] small by (simp add: o)
  have "unat ((pt_offset part + of_nat used + (of_nat ?es - 1)) AND NOT (of_nat ?es - 1)) = round_to ?es (root + used)"
    using align_word [OF k(2,1), of "pt_offset part + of_nat used"] small unfolding w by simp
  then have "(pt_offset part + of_nat used + (of_nat ?es - 1)) AND NOT (of_nat ?es - 1) = of_nat (round_to ?es (root + used))"
    by (rule word_eq_of_nat)
  moreover have "root \<le> round_to ?es (root + used)" using round_to_ge [of "root + used" ?es] by simp
  ultimately show ?thesis by (simp add: root_size_def b Let_def o)
qed


text \<open>The part of \<open>find_root\<close> behind the search.\<close>

lemma find_root_squashfs:
  assumes r: "reliable m content" and g: "geometry m" and i: "squashfs_image m (content fl) off root used"
    and scan: "trx_scan m fl 28 (mtd_size m) 0x20000 = Some (off, b)"
    and p: "part' = part\<lparr>pt_offset := of_nat root, pt_size := of_nat (round_to (mtd_erasesize m) (root + used) - root)\<rparr>"
  shows "find_root crc_ref m fl (mtd_size m) part =
    (case trx_update crc_ref m fl off (trx_header_of (drop off (content fl))) part' of
       (True, fl) \<Rightarrow> (pt_size part', part', fl)
     | (False, fl) \<Rightarrow> (0, part', fl))"
proof -
  let ?c = "content fl" and ?h = "trx_header_of (drop off (content fl))"
  have q: "root = off + unat (root_offset ?h)" "th_len ?h \<noteq> root_offset ?h" "root + 512 \<le> mtd_size m"
    "28 \<le> unat (root_offset ?h)"
    using i by (simp_all add: squashfs_image_def Let_def)
  have "snd (mtd_read m fl off 28) = take 28 (drop off ?c)" using reliableD(2) [OF r, of off 28 fl] q by simp
  with trx_scan_SomeD [OF scan] have "b = take 28 (drop off ?c)" by metis
  then have b: "trx_header_of b = ?h" by (simp add: trx_header_of_take)
  have off: "root_offset ?h + of_nat off = of_nat root" unfolding q(1) by simp
  have rp: "root_part ?h off part = part\<lparr>pt_offset := of_nat root, pt_size := th_len ?h - root_offset ?h\<rparr>"
    unfolding off [symmetric] by (simp add: root_part_def root_offset_def Let_def)
  have root: "unat (of_nat root :: u32) = root" using q(3) g unat_of_nat_u32 [of root] by (simp add: geometry_def)
  have rd: "mtd_read m fl root 512 = (0, take 512 (drop root ?c))" using q(3) by (rule reliableD(2) [OF r])
  have l: "length (take 512 (drop root ?c)) = 512" using q(3) reliableD(3) [OF r, of fl] by simp
  have "root_size m (take 512 (drop root ?c)) (root_part ?h off part) = Some part'"
    unfolding p rp by (subst root_size_squashfs [OF g i]) simp_all
  then show ?thesis using scan q(2) root rd l by (simp add: find_root_def b rp Let_def)
qed

text \<open>The search finds the same image when nothing before it and not its magic number has changed.\<close>

lemma trx_scan_again:
  assumes r: "reliable m content" and scan: "trx_scan m fl 28 (mtd_size m) 0x20000 = Some (off, b)"
    and fits: "off + 28 \<le> mtd_size m" and same: "take off (content fl') = take off (content fl)"
    and magic: "le32 (drop off (content fl')) 0 = TRX_MAGIC"
  shows "\<exists>b'. trx_scan m fl' 28 (mtd_size m) 0x20000 = Some (off, b')"
proof -
  obtain k where k: "off = 0x20000 + k * blocksize m" "off < mtd_size m"
    and less: "\<And>i. i < k \<Longrightarrow> \<not> image_at m fl 28 (0x20000 + i * blocksize m)"
    using trx_scan_SomeD [OF scan] by metis
  have "\<not> image_at m fl' 28 (0x20000 + i * blocksize m)" if "i < k" for i
  proof -
    let ?o = "0x20000 + i * blocksize m"
    have "i * blocksize m + blocksize m \<le> k * blocksize m" using mult_le_mono1 [of "Suc i" k "blocksize m"] that by simp
    then have o: "?o + 0x10000 \<le> off" unfolding k(1) by (simp add: blocksize_def split: if_splits)
    have len: "length (content f) = mtd_size m" for f by (rule reliableD(3) [OF r])
    have "drop ?o (take off (content fl')) = drop ?o (take off (content fl))" using same by simp
    then have "take (off - ?o) (drop ?o (content fl')) = take (off - ?o) (drop ?o (content fl))" by (simp add: drop_take)
    moreover have "0 + 4 \<le> off - ?o" using o by simp
    note le32_take [OF this, of "drop ?o (content fl')"] le32_take [OF this, of "drop ?o (content fl)"]
    ultimately have "le32 (drop ?o (content fl')) 0 = le32 (drop ?o (content fl)) 0" by metis
    then show ?thesis
      using less [OF that] image_at_reliable [OF r, of ?o 28] o fits by simp
  qed
  moreover have "image_at m fl' 28 off" using image_at_reliable [OF r fits] magic by simp
  ultimately show ?thesis using trx_scan_found [where k = k and m = m and fl = fl' and n = 28 and off = "0x20000"] k by auto
qed


lemma squashfs_imageD:
  assumes "squashfs_image m c off root used"
  shows "image_valid (drop off c)" "root = off + unat (root_offset (trx_header_of (drop off c)))" "off + 28 \<le> root"
    "0 < used" "off + mtd_erasesize m \<le> mtd_size m" "root + 512 \<le> mtd_size m"
    "round_to (mtd_erasesize m) (root + used) + 512 \<le> mtd_size m" "root < round_to (mtd_erasesize m) (root + used)"
  using assms round_to_ge [of "root + used" "mtd_erasesize m"] unfolding squashfs_image_def Let_def
  by (blast, blast, linarith, blast, blast, blast, linarith, linarith)

text \<open>What the first start leaves, and what it finds the next time.\<close>

lemma find_root_update:
  assumes r: "reliable m content" and g: "geometry m" and i: "squashfs_image m (content fl) off root used"
    and scan: "trx_scan m fl 28 (mtd_size m) 0x20000 = Some (off, b)"
    and e: "e = round_to (mtd_erasesize m) (root + used)"
  shows "\<exists>fl'. find_root crc_ref m fl (mtd_size m) part =
      (of_nat (e - root), part\<lparr>pt_offset := of_nat root, pt_size := of_nat (e - root)\<rparr>, fl') \<and>
    squashfs_image m (content fl') off root used \<and> th_len (trx_header_of (drop off (content fl'))) = of_nat (e - off) \<and>
    take off (content fl') = take off (content fl) \<and> drop (off + 28) (content fl') = drop (off + 28) (content fl) \<and>
    (th_len (trx_header_of (drop off (content fl))) = of_nat (e - off) \<longrightarrow> fl' = fl)"
proof -
  let ?c = "content fl" and ?h = "trx_header_of (drop off (content fl))"
  let ?p = "part\<lparr>pt_offset := of_nat root, pt_size := of_nat (e - root)\<rparr>"
  note d = squashfs_imageD [OF i]
  have len: "pt_offset ?p + pt_size ?p - of_nat off = (of_nat (e - off) :: u32)"
    using d(3,8) e by simp
  have small: "e < 2 ^ 32" using d(7) g e by (simp add: geometry_def)
  then have ulen: "unat (of_nat (e - off) :: u32) = e - off" by (intro unat_of_nat_u32) simp
  note fr = find_root_squashfs [OF r g i scan, of ?p part]
  have magic: "th_magic ?h = TRX_MAGIC" using d(1) by (simp add: image_valid_def Let_def)
  show ?thesis
  proof (cases "th_len ?h = of_nat (e - off)")
    case True
    then have "trx_update crc_ref m fl off ?h ?p = (True, fl)" using len by (simp add: trx_update_def Let_def)
    then show ?thesis using fr i True e by simp
  next
    case False
    have es: "28 \<le> mtd_erasesize m" using g by (simp add: geometry_def)
    have e3: "28 \<le> unat (of_nat (e - off) :: u32)" "off + unat (of_nat (e - off) :: u32) + 512 \<le> mtd_size m"
      using d(3,7,8) ulen e by simp_all
    obtain fl' crc where u: "trx_update crc_ref m fl off ?h ?p = (True, fl')"
      "content fl' = take off ?c @ trx_header_bytes (?h\<lparr>th_len := of_nat (e - off), th_crc32 := crc\<rparr>) @ drop (off + 28) ?c"
      "image_valid (drop off (content fl'))"
      using update_reliable [OF r es d(5) refl len e3 False magic] by blast
    let ?h' = "?h\<lparr>th_len := of_nat (e - off), th_crc32 := crc\<rparr>"
    have o3: "length (th_offsets ?h') = 3" by (simp add: trx_header_of_def)
    have cl: "length ?c = mtd_size m" by (rule reliableD(3) [OF r])
    have to: "length (take off ?c) = off" using cl d(5) by simp
    have hd': "trx_header_of (drop off (content fl')) = ?h'"
      unfolding u(2) using trx_header_of_bytes [OF o3] to by simp
    have tail: "drop (off + 28) (content fl') = drop (off + 28) ?c"
      unfolding u(2) using length_trx_header_bytes [OF o3] to by simp
    have "drop root (content fl') = drop root ?c"
      using tail d(3) by (metis drop_drop le_add_diff_inverse2)
    moreover have ro: "root_offset ?h' = root_offset ?h" by (simp add: root_offset_def)
    moreover have "e - off \<noteq> unat (root_offset ?h)" using d(2,8) e by linarith
    then have "of_nat (e - off) \<noteq> root_offset ?h" using ulen by metis
    ultimately have "squashfs_image m (content fl') off root used"
      using i u(3) unfolding squashfs_image_def Let_def hd' ro by auto
    moreover have "take off (content fl') = take off ?c" unfolding u(2) using to by simp
    ultimately show ?thesis using fr u(1) hd' tail False e by simp
  qed
qed


section \<open>The partition table\<close>

definition named_part :: "string \<Rightarrow> nat \<Rightarrow> nat \<Rightarrow> mtd_partition" where
  "named_part name off len = \<lparr>pt_name = Some name, pt_offset = of_nat off, pt_size = of_nat len\<rparr>"

lemma find_cfe_size_scan:
  assumes r: "reliable m content" and scan: "trx_scan m fl 28 (mtd_size m) 0x20000 = Some (off, b)"
    and fits: "off + 512 \<le> mtd_size m"
  shows "find_cfe_size m fl (mtd_size m) = int off"
proof -
  obtain k where k: "off = 0x20000 + k * blocksize m" "off < mtd_size m" "image_at m fl 28 off"
    and less: "\<And>i. i < k \<Longrightarrow> \<not> image_at m fl 28 (0x20000 + i * blocksize m)"
    using trx_scan_SomeD [OF scan] by metis
  have same: "image_at m fl 512 o' = image_at m fl 28 o'" if "o' \<le> off" for o'
    using that fits image_at_reliable [OF r, of o' 28] image_at_reliable [OF r, of o' 512] by simp
  have "\<not> image_at m fl 512 (0x20000 + i * blocksize m)" if "i < k" for i
  proof -
    have "i * blocksize m \<le> k * blocksize m" using that by simp
    then show ?thesis using less [OF that] same k(1) by simp
  qed
  then show ?thesis
    using trx_scan_found [where k = k and m = m and fl = fl and n = 512 and off = "0x20000"] k same [of off]
    by (simp add: find_cfe_size_def)
qed

lemma round_to_mod: "0 < k \<Longrightarrow> round_to k n mod k = 0"
  using round_to_div [of k n] by (metis mod_mult_self2_is_0)

lemma of_nat_mod_u32: "a < 2 ^ 32 \<Longrightarrow> b < 2 ^ 32 \<Longrightarrow> (of_nat a :: u32) mod of_nat b = of_nat (a mod b)"
  by (rule word_eq_of_nat) (simp only: unat_mod_distrib unat_of_nat_u32)

lemma partitions_layout:
  assumes r: "reliable m content" and g: "geometry m" and i: "squashfs_image m (content fl) off root used"
    and scan: "trx_scan m fl 28 (mtd_size m) 0x20000 = Some (off, b)"
    and e: "e = round_to (mtd_erasesize m) (root + used)"
    and nv: "nv = mtd_size m - ROUNDUP NVRAM_SPACE (mtd_erasesize m)" and fits: "e \<le> nv" and cfe: "off \<noteq> 384 * 1024"
  shows "\<exists>fl'. init_mtd_partitions crc_ref m fl (mtd_size m) bcm947xx_parts =
    (Some [named_part ''cfe'' 0 off, named_part ''linux'' off (nv - off), named_part ''rootfs'' root (e - root),
           named_part ''nvram'' nv (mtd_size m - nv), named_part ''rootfs_data'' e (nv - e),
           \<lparr>pt_name = None, pt_offset = 0, pt_size = 0\<rparr>], fl')"
proof -
  let ?es = "mtd_erasesize m" and ?size = "mtd_size m"
  note d = squashfs_imageD [OF i]
  have es: "0 < ?es" and size: "?size + ?es < 2 ^ 32" using g by (simp_all add: geometry_def)
  have n: "ROUNDUP NVRAM_SPACE ?es \<le> ?size" by (rule nor_flashD(2) [OF reliableD(1) [OF r]])
  have cs: "find_cfe_size m fl ?size = int off" using find_cfe_size_scan [OF r scan] d(3,6) by simp
  obtain fl' where fr: "find_root crc_ref m fl ?size p =
      (of_nat (e - root), p\<lparr>pt_offset := of_nat root, pt_size := of_nat (e - root)\<rparr>, fl')" if "p = bcm947xx_parts ! 2" for p
    using find_root_update [OF r g i scan e] by metis
  have e0: "root < e" "off < root" using d(3,8) e by simp_all
  have small: "e - root < 2 ^ 32" "off < 2 ^ 32" using e0 fits nv size by linarith+
  have ne: "(of_nat (e - root) :: u32) \<noteq> 0"
    using unat_of_nat_u32 [OF small(1)] e0 by (metis unat_0 zero_less_diff less_numeral_extra(3))
  have "unat (384 * 1024 :: u32) = 384 * 1024" by simp
  then have off: "(of_nat off :: u32) \<noteq> 384 * 1024" using unat_of_nat_u32 [OF small(2)] cfe by metis
  have md: "(of_nat e :: u32) mod of_nat ?es = 0"
    using of_nat_mod_u32 [of e ?es] round_to_mod [OF es, of "root + used"] fits nv size e by simp
  have sums: "(of_nat root + of_nat (e - root) :: u32) = of_nat e" "(of_nat ?size - of_nat (ROUNDUP NVRAM_SPACE ?es) :: u32) = of_nat nv"
    "(of_nat nv - of_nat off :: u32) = of_nat (nv - off)" "(of_nat nv - of_nat e :: u32) = of_nat (nv - e)"
    "ROUNDUP NVRAM_SPACE ?es = ?size - nv"
    using e0 fits nv n by simp_all
  have p2: "fixed_parts (of_nat ?size) (of_nat (ROUNDUP NVRAM_SPACE ?es)) (of_nat ?es) (place 0 0 (of_int (int off)) bcm947xx_parts) =
      [named_part ''cfe'' 0 off, named_part ''linux'' off (nv - off), bcm947xx_parts ! 2, named_part ''nvram'' nv (?size - nv), named_part ''rootfs_data'' 0 0,
       \<lparr>pt_name = None, pt_offset = 0, pt_size = 0\<rparr>]"
    using off sums by (simp add: fixed_parts_def place_def bcm947xx_parts_def named_part_def Let_def)
  show ?thesis
    unfolding init_mtd_partitions_def Let_def cs p2
    using fr [OF refl] ne off md sums
    by (simp add: data_part_def place_def named_part_def Let_def) (simp add: bcm947xx_parts_def)
qed

section \<open>The driver's resources\<close>

text \<open>What the driver holds when it is loaded, and when it has failed or has been removed.\<close>

definition holds_flash :: "'f flash_drv \<Rightarrow> bool" where
  "holds_flash s \<longleftrightarrow> fd_iomaps s = [mi_priv_1 (fd_map s)] \<and> fd_chips s = 1 \<and> fd_added s \<noteq> None"

definition holds_nothing :: "'f flash_drv \<Rightarrow> bool" where
  "holds_nothing s \<longleftrightarrow> fd_iomaps s = [] \<and> fd_chips s = 0 \<and> fd_added s = None"

lemma flash_window_base: "flash_window cc mi = (fltype, mi', a, n) \<Longrightarrow> mi_priv_1 mi' = mi_priv_1 mi"
  by (auto simp: flash_window_def Let_def split: option.splits prod.splits if_splits)

lemma probe_parts_balanced:
  assumes "flash_probe_parts bd m s fl = Some (ret, s', fl')"
    and "fd_mtd s = Some m" "mi_priv_1 (fd_map s) \<noteq> 0" "fd_iomaps s = [mi_priv_1 (fd_map s)]" "fd_chips s = 1" "fd_added s = None"
  shows "if ret = 0 then holds_flash s' else holds_nothing s'"
  using assms
  by (auto simp: flash_probe_parts_def flash_fail_def holds_flash_def holds_nothing_def Let_def
      split: prod.splits option.splits if_splits)

lemma init_balanced:
  assumes run: "init_bcm947xx_map bd flash_loaded fl = Some (ret, s', fl')"
  shows "if ret = 0 then holds_flash s' else holds_nothing s'"
proof -
  obtain fltype mi a n where w: "flash_window (bd_cc bd) (fd_map (flash_loaded :: 'a flash_drv)) = (fltype, mi, a, n)"
    by (metis prod_cases4)
  have mi: "mi_priv_1 mi = 0" using flash_window_base [OF w] by (simp add: flash_loaded_def)
  let ?a = "bd_ioremap bd a n"
  consider "fltype \<noteq> PFLASH" | "fltype = PFLASH" "?a = 0"
    | "fltype = PFLASH" "?a \<noteq> 0" "bd_probe bd (mi\<lparr>mi_priv_1 := ?a\<rparr>) = None"
    | m where "fltype = PFLASH" "?a \<noteq> 0" "bd_probe bd (mi\<lparr>mi_priv_1 := ?a\<rparr>) = Some m" by fastforce
  then show ?thesis
  proof cases
    case 4
    define s where "s = flash_loaded\<lparr>fd_map := mi\<lparr>mi_priv_1 := ?a\<rparr>, fd_iomaps := [?a], fd_mtd := Some m, fd_chips := 1\<rparr>"
    have "flash_probe_parts bd m s fl = Some (ret, s', fl')"
      using run 4 by (simp add: init_bcm947xx_map_def w Let_def s_def) (simp add: flash_loaded_def)
    then show ?thesis
      by (rule probe_parts_balanced) (use 4 in \<open>simp_all add: s_def flash_loaded_def\<close>)
  qed (use run w mi in \<open>auto simp: init_bcm947xx_map_def Let_def flash_fail_def flash_loaded_def holds_nothing_def\<close>)
qed

lemma init_with_image:
  assumes w: "flash_window (bd_cc bd) (fd_map (flash_loaded :: 'f flash_drv)) = (PFLASH, mi, a, n)"
    and "bd_ioremap bd a n \<noteq> 0" "bd_probe bd (mi\<lparr>mi_priv_1 := bd_ioremap bd a n\<rparr>) = Some (m :: 'f mtd)"
    and "init_mtd_partitions (bd_crc32_le bd) m fl (mtd_size m) bcm947xx_parts = (Some ps, fl')"
    and "bd_add_parts bd (takeWhile (\<lambda>p. pt_name p \<noteq> None) ps) = 0"
  shows "\<exists>s'. init_bcm947xx_map bd flash_loaded fl = Some (0, s', fl') \<and>
    fd_added s' = Some (takeWhile (\<lambda>p. pt_name p \<noteq> None) ps)"
proof -
  have "fd_parts (flash_loaded :: 'f flash_drv) = bcm947xx_parts" by (simp add: flash_loaded_def)
  then show ?thesis
    using assms unfolding init_bcm947xx_map_def w
    by (simp add: Let_def flash_probe_parts_def)
qed

lemma init_partitions:
  fixes m :: "'f mtd"
  assumes "reliable m content" "geometry m" "squashfs_image m (content fl) off root used"
    and "trx_scan m fl 28 (mtd_size m) 0x20000 = Some (off, b)"
    and "e = round_to (mtd_erasesize m) (root + used)" "nv = mtd_size m - ROUNDUP NVRAM_SPACE (mtd_erasesize m)"
    and "e \<le> nv" "off \<noteq> 384 * 1024"
    and "bd_crc32_le bd = crc_ref" "fst (flash_window (bd_cc bd) (fd_map (flash_loaded :: 'f flash_drv))) = PFLASH"
    and "\<And>a n. bd_ioremap bd a n \<noteq> 0" "\<And>mi. bd_probe bd mi = Some m" "\<And>ps. bd_add_parts bd ps = 0"
  shows "\<exists>s' fl'. init_bcm947xx_map bd flash_loaded fl = Some (0, s', fl') \<and>
    fd_added s' = Some [named_part ''cfe'' 0 off, named_part ''linux'' off (nv - off), named_part ''rootfs'' root (e - root),
      named_part ''nvram'' nv (mtd_size m - nv), named_part ''rootfs_data'' e (nv - e)]"
proof -
  obtain mi a n where w: "flash_window (bd_cc bd) (fd_map (flash_loaded :: 'f flash_drv)) = (PFLASH, mi, a, n)"
    using assms(10) by (cases "flash_window (bd_cc bd) (fd_map (flash_loaded :: 'f flash_drv))") auto
  obtain fl' where "init_mtd_partitions (bd_crc32_le bd) m fl (mtd_size m) bcm947xx_parts =
    (Some [named_part ''cfe'' 0 off, named_part ''linux'' off (nv - off), named_part ''rootfs'' root (e - root),
           named_part ''nvram'' nv (mtd_size m - nv), named_part ''rootfs_data'' e (nv - e),
           \<lparr>pt_name = None, pt_offset = 0, pt_size = 0\<rparr>], fl')"
    using partitions_layout [OF assms(1-8)] unfolding assms(9) by blast
  from init_with_image [OF w assms(11,12) this assms(13)] show ?thesis by (auto simp: named_part_def)
qed

section \<open>A flash in memory\<close>

definition mem_content :: "nat \<Rightarrow> u8 list \<Rightarrow> u8 list" where
  "mem_content n fl = take n (fl @ replicate n 0)"

definition mem_mtd :: "nat \<Rightarrow> nat \<Rightarrow> u8 list mtd" where
  "mem_mtd n es = \<lparr>mtd_size = n, mtd_erasesize = es,
     mtd_read = (\<lambda>fl off k. (0, take k (drop off (mem_content n fl)))),
     mtd_write = (\<lambda>fl off b. (0, length b, program (mem_content n fl) off b)),
     mtd_erase = (\<lambda>fl off. (0, erased (mem_content n fl) off es)),
     mtd_unlock = None\<rparr>"

lemma mem_content_id: "length c = n \<Longrightarrow> mem_content n c = c"
  by (simp add: mem_content_def)

lemma length_mem: "length (mem_content n fl) = n"
  by (simp add: mem_content_def)

lemma reliable_mem:
  assumes "0 < es" "ROUNDUP NVRAM_SPACE es \<le> n"
  shows "reliable (mem_mtd n es) (mem_content n)"
proof -
  have w: "mem_content n (program (mem_content n fl) off b) = program (mem_content n fl) off b"
    if "off + length b \<le> n" for fl off b
    using that by (intro mem_content_id) (simp add: program_nth length_mem)
  have e: "mem_content n (erased (mem_content n fl) off es) = erased (mem_content n fl) off es"
    if "off + es \<le> n" for fl off
    using that by (intro mem_content_id) (simp add: erased_nth length_mem)
  have "nor_flash (mem_mtd n es) (mem_content n)"
    unfolding nor_flash_def using w e assms by (auto simp: mem_mtd_def length_mem intro!: exI [of _ "length _"])
  then show ?thesis unfolding reliable_def by (auto simp: mem_mtd_def)
qed

text \<open>A firmware with an empty kernel and a root file system of 100 bytes in a flash of 256 KB.\<close>

definition blank :: "nat \<Rightarrow> u8 list" where "blank n = replicate n 0xFF"

lemma length_blank [simp]: "length (blank n) = n"
  by (simp add: blank_def)

definition demo_root :: "u8 list" where
  "demo_root = htol32 SQUASHFS_MAGIC @ blank 59 @ htol32 100 @ blank (0x20000 - 95)"

definition demo_header :: "u32 \<Rightarrow> trx_header" where
  "demo_header crc = \<lparr>th_magic = TRX_MAGIC, th_len = 128, th_crc32 = crc, th_flag_version = 0x10000, th_offsets = [28, 28, 0]\<rparr>"

definition demo_crc :: u32 where
  "demo_crc = crc_ref 0xFFFFFFFF (take 116 (drop 12 (trx_header_bytes (demo_header 0) @ demo_root)))"

definition demo_flash :: "u8 list" where
  "demo_flash = blank 0x20000 @ trx_header_bytes (demo_header demo_crc) @ demo_root"

lemma length_demo: "length demo_root = 0x20000 - 28" "length (trx_header_bytes (demo_header c)) = 28"
  by (simp add: demo_root_def) (rule length_trx_header_bytes, simp add: demo_header_def)

lemma demo_content: "mem_content 0x40000 demo_flash = demo_flash"
  by (rule mem_content_id) (simp add: demo_flash_def length_demo)

lemma demo_drop: "drop 0x20000 demo_flash = trx_header_bytes (demo_header demo_crc) @ demo_root"
  "drop 0x2001C demo_flash = demo_root"
  by (simp_all add: demo_flash_def length_demo)

lemma demo_fields: "root_offset (demo_header c) = 28" "th_len (demo_header c) = 128" "th_magic (demo_header c) = TRX_MAGIC"
  "th_crc32 (demo_header c) = c"
  by (simp_all add: demo_header_def root_offset_def)

lemma demo_hd: "trx_header_of (drop 0x20000 demo_flash) = demo_header demo_crc"
  unfolding demo_drop by (rule trx_header_of_bytes) (simp add: demo_header_def)

lemma demo_sb: "le32 demo_root 0 = SQUASHFS_MAGIC" "bytes_used demo_root = 100"
proof -
  show "le32 demo_root 0 = SQUASHFS_MAGIC" by (simp add: demo_root_def le32_htol32)
  have eq: "demo_root = (htol32 SQUASHFS_MAGIC @ blank 59) @ htol32 100 @ blank (0x20000 - 95)" by (simp add: demo_root_def)
  have "length (htol32 SQUASHFS_MAGIC @ blank 59) = 63" by simp
  from le32_append [OF this] have "le32 demo_root 63 = le32 (htol32 100 @ blank (0x20000 - 95)) 0"
    unfolding eq .
  then show "bytes_used demo_root = 100" unfolding bytes_used_def le32_htol32 .
qed

lemma demo_image: "squashfs_image (mem_mtd 0x40000 0x10000) demo_flash 0x20000 0x2001C 100"
proof -
  have "drop 12 (trx_header_bytes (demo_header demo_crc) @ demo_root) = drop 12 (trx_header_bytes (demo_header 0) @ demo_root)"
    by (simp add: trx_header_bytes_def demo_header_def)
  then have "image_valid (drop 0x20000 demo_flash)"
    unfolding image_valid_def demo_hd Let_def demo_fields by (simp add: demo_drop length_demo demo_crc_def)
  then show ?thesis
    unfolding squashfs_image_def Let_def demo_hd demo_fields by (simp add: demo_drop demo_sb mem_mtd_def round_to_def)
qed

lemma demo_reliable: "reliable (mem_mtd 0x40000 0x10000) (mem_content 0x40000)"
  by (rule reliable_mem) (simp_all add: ROUNDUP_def)

lemma demo_geometry: "geometry (mem_mtd 0x40000 0x10000)"
  unfolding geometry_def by (auto simp: mem_mtd_def intro!: exI [of _ 16])

lemma demo_scan: "\<exists>b. trx_scan (mem_mtd 0x40000 0x10000) demo_flash 28 0x40000 0x20000 = Some (0x20000, b)"
proof -
  have "image_at (mem_mtd 0x40000 0x10000) demo_flash 28 0x20000"
    using image_at_reliable [OF demo_reliable, of "0x20000" 28] demo_hd
    by (simp add: demo_content mem_mtd_def trx_header_of_def demo_header_def)
  then show ?thesis by (subst trx_scan_step) simp
qed

section \<open>Properties\<close>

text \<open>C10: The first start rewrites nothing but the header, whose length then ends at the block behind the root file system
  and whose checksum is right; the next start finds the same partition and writes nothing.\<close>

theorem find_root_settles:
  assumes "reliable m content" "geometry m" "squashfs_image m (content fl) off root used"
    and "trx_scan m fl 28 (mtd_size m) 0x20000 = Some (off, b)"
    and e: "e = round_to (mtd_erasesize m) (root + used)"
  shows "\<exists>fl'. find_root crc_ref m fl (mtd_size m) part =
      (of_nat (e - root), part\<lparr>pt_offset := of_nat root, pt_size := of_nat (e - root)\<rparr>, fl') \<and>
    image_valid (drop off (content fl')) \<and> le32 (drop off (content fl')) 4 = of_nat (e - off) \<and>
    take off (content fl') = take off (content fl) \<and> drop (off + 28) (content fl') = drop (off + 28) (content fl) \<and>
    find_root crc_ref m fl' (mtd_size m) part2 =
      (of_nat (e - root), part2\<lparr>pt_offset := of_nat root, pt_size := of_nat (e - root)\<rparr>, fl')"
proof -
  note d = squashfs_imageD [OF assms(3)]
  obtain fl' where 1: "find_root crc_ref m fl (mtd_size m) part =
      (of_nat (e - root), part\<lparr>pt_offset := of_nat root, pt_size := of_nat (e - root)\<rparr>, fl')"
    and i: "squashfs_image m (content fl') off root used"
    and len: "th_len (trx_header_of (drop off (content fl'))) = of_nat (e - off)"
    and same: "take off (content fl') = take off (content fl)" "drop (off + 28) (content fl') = drop (off + 28) (content fl)"
    using find_root_update [OF assms] by blast
  note d' = squashfs_imageD [OF i]
  have "le32 (drop off (content fl')) 0 = TRX_MAGIC" using d'(1) by (simp add: image_valid_def Let_def trx_header_of_def)
  moreover have "off + 28 \<le> mtd_size m" using d(3,6) by simp
  ultimately obtain b' where "trx_scan m fl' 28 (mtd_size m) 0x20000 = Some (off, b')"
    using trx_scan_again [OF assms(1,4) _ same(1)] by blast
  from find_root_update [OF assms(1,2) i this e, of part2] len
  have "find_root crc_ref m fl' (mtd_size m) part2 =
      (of_nat (e - root), part2\<lparr>pt_offset := of_nat root, pt_size := of_nat (e - root)\<rparr>, fl')" by blast
  then show ?thesis using 1 d'(1) len same by (simp add: trx_header_of_def)
qed


lemma find_root_settles_witness:
  "\<exists>fl'. find_root crc_ref (mem_mtd 0x40000 0x10000) demo_flash 0x40000 (bcm947xx_parts ! 2) =
     (0xFFE4, \<lparr>pt_name = Some ''rootfs'', pt_offset = 0x2001C, pt_size = 0xFFE4\<rparr>, fl') \<and>
     image_valid (drop 0x20000 (mem_content 0x40000 fl')) \<and> le32 (drop 0x20000 (mem_content 0x40000 fl')) 4 = 0x10000"
proof -
  obtain b where s: "trx_scan (mem_mtd 0x40000 0x10000) demo_flash 28 0x40000 0x20000 = Some (0x20000, b)"
    using demo_scan by blast
  have "mtd_size (mem_mtd 0x40000 0x10000) = 0x40000" "mtd_erasesize (mem_mtd 0x40000 0x10000) = 0x10000"
    by (simp_all add: mem_mtd_def)
  with s find_root_settles [OF demo_reliable demo_geometry, of demo_flash "0x20000" "0x2001C" 100 b "0x30000"
      "bcm947xx_parts ! 2" "bcm947xx_parts ! 2"] demo_image
  show ?thesis by (auto simp: demo_content bcm947xx_parts_def round_to_def numeral_2_eq_2)
qed


definition demo_board :: "u8 list board" where
  "demo_board = \<lparr>bd_cc = Some (0x700, 0x10), bd_ioremap = (\<lambda>a n. 0xBC000000), bd_probe = (\<lambda>mi. Some (mem_mtd 0x40000 0x10000)),
     bd_add_parts = (\<lambda>ps. 0), bd_crc32_le = crc_ref\<rparr>"

text \<open>The flash driver keeps its mapping and chip exactly when it starts successfully, gives up everything otherwise,
  and everything when it is removed.\<close>

theorem flash_init_balanced:
  assumes "init_bcm947xx_map bd flash_loaded fl = Some (ret, s, fl')"
  shows "if ret = 0 then holds_flash s \<and> holds_nothing (cleanup_bcm947xx_map s) else holds_nothing s"
  using init_balanced [OF assms] by (auto simp: cleanup_bcm947xx_map_def holds_flash_def holds_nothing_def)

lemma flash_init_balanced_witness:
  "init_bcm947xx_map (demo_board\<lparr>bd_probe := (\<lambda>mi. None)\<rparr>) flash_loaded [] =
     Some (- 6, flash_loaded\<lparr>fd_map := \<lparr>mi_size = 0x2000000, mi_buswidth = 2, mi_priv_1 = 0xBC000000, mi_priv_2 = 1\<rparr>\<rparr>, []) \<and>
   holds_nothing (flash_loaded\<lparr>fd_map := \<lparr>mi_size = 0x2000000, mi_buswidth = 2, mi_priv_1 = 0xBC000000, mi_priv_2 = 1\<rparr>\<rparr> :: u8 list flash_drv)"
proof -
  have run: "init_bcm947xx_map (demo_board\<lparr>bd_probe := (\<lambda>mi. None)\<rparr>) flash_loaded [] =
     Some (- 6, flash_loaded\<lparr>fd_map := \<lparr>mi_size = 0x2000000, mi_buswidth = 2, mi_priv_1 = 0xBC000000, mi_priv_2 = 1\<rparr>\<rparr>, [])"
    by (simp add: init_bcm947xx_map_def demo_board_def flash_window_def flash_loaded_def Let_def)
  from flash_init_balanced [OF this] run show ?thesis by simp
qed

text \<open>With no image in the flash the start of the driver dereferences a null pointer.\<close>

theorem flash_init_no_image:
  fixes m :: "'f mtd"
  assumes r: "reliable m content"
    and none: "\<And>i. 0x20000 + i * blocksize m < mtd_size m \<Longrightarrow>
      0x20000 + i * blocksize m + 512 \<le> mtd_size m \<and> le32 (drop (0x20000 + i * blocksize m) (content fl)) 0 \<noteq> TRX_MAGIC"
    and flash: "fst (flash_window (bd_cc bd) (fd_map (flash_loaded :: 'f flash_drv))) = PFLASH"
    and "\<And>a n. bd_ioremap bd a n \<noteq> 0" "\<And>mi. bd_probe bd mi = Some m"
  shows "init_bcm947xx_map bd flash_loaded fl = None"
proof -
  have "trx_scan m fl 512 (mtd_size m) 0x20000 = None"
    unfolding trx_scan_None using image_at_reliable [OF r] none by simp
  then have "init_mtd_partitions c m fl (mtd_size m) ps = (None, fl)" for c ps
    by (simp add: init_mtd_partitions_def find_cfe_size_def)
  then show ?thesis
    using flash assms(4,5) by (auto simp: init_bcm947xx_map_def flash_probe_parts_def Let_def split: prod.split)
qed

lemma le32_blank: "4 \<le> n \<Longrightarrow> le32 (blank n) 0 = 0xFFFFFFFF"
  by (simp add: le32_def blank_def)

lemma flash_init_no_image_witness: "init_bcm947xx_map demo_board flash_loaded (blank 0x40000) = None"
proof (rule flash_init_no_image [OF demo_reliable])
  fix i
  have m: "blocksize (mem_mtd 0x40000 0x10000) = 0x10000" "mtd_size (mem_mtd 0x40000 0x10000) = 0x40000"
    by (simp_all add: blocksize_def mem_mtd_def)
  have c: "mem_content 0x40000 (blank 0x40000) = blank 0x40000" by (rule mem_content_id) simp
  have d: "drop k (blank n) = blank (n - k)" for k n by (simp add: blank_def)
  assume "0x20000 + i * blocksize (mem_mtd 0x40000 0x10000) < mtd_size (mem_mtd 0x40000 0x10000)"
  then have "i < 2" unfolding m by simp
  then show "0x20000 + i * blocksize (mem_mtd 0x40000 0x10000) + 512 \<le> mtd_size (mem_mtd 0x40000 0x10000) \<and>
      le32 (drop (0x20000 + i * blocksize (mem_mtd 0x40000 0x10000)) (mem_content 0x40000 (blank 0x40000))) 0 \<noteq> TRX_MAGIC"
    unfolding m c d by (subst le32_blank) simp_all
qed (simp_all add: demo_board_def flash_window_def)

end
