(* ===== verification/MtdTool.thy ===== *)
theory MtdTool
  imports FlashMap
begin

text \<open>
  The tool that writes firmware (\<open>package/mtd/mtd.c\<close>): checking the image, unlocking, erasing and writing a device.
  The devices are a parameter: their operations are the fields of \<open>mtd_ops\<close>, over a state of any type \<open>'d\<close>. A file
  is the list of what the calls of \<open>read\<close> find: pieces of data, or \<open>None\<close> for a failing call; behind it is the end of
  the file. Sizes are 32-bit words; \<open>Stray\<close> is an access outside a buffer or through a null pointer. A loop that does
  not end has the value \<open>None\<close>.
\<close>

section \<open>Files and devices\<close>

abbreviation BUFSIZE :: nat where "BUFSIZE \<equiv> 0x4000"
abbreviation MAX_ARGS :: nat where "MAX_ARGS \<equiv> 8"

type_synonym infile = "u8 list option list"

text \<open>\<open>read\<close> with its result, the data and the rest of the file.\<close>

fun read_fd :: "nat \<Rightarrow> infile \<Rightarrow> int \<times> u8 list \<times> infile" where
  "read_fd n [] = (0, [], [])"
| "read_fd n (None # r) = (- 1, [], r)"
| "read_fd n (Some bs # r) = (int (length (take n bs)), take n bs, if length bs \<le> n then r else Some (drop n bs) # r)"

datatype target = Mtd_dev int | Path string

record 'd mtd_ops =
  op_open :: "target \<Rightarrow> bool"
  op_info :: "target \<Rightarrow> (u32 \<times> u32) option"
  op_unlock :: "'d \<Rightarrow> target \<Rightarrow> u32 \<Rightarrow> u32 \<Rightarrow> int \<times> 'd"
  op_erase :: "'d \<Rightarrow> target \<Rightarrow> u32 \<Rightarrow> u32 \<Rightarrow> int \<times> 'd"
  op_write :: "'d \<Rightarrow> target \<Rightarrow> nat \<Rightarrow> u8 list \<Rightarrow> int \<times> 'd"

datatype stop = Exit int | Stray

text \<open>The state of the program: the buffer, the bytes in it that are part of the image, and the rest of the image.\<close>

record mtd_prog =
  p_buf :: "u8 list"
  p_buflen :: int
  p_file :: infile

section \<open>Devices by name\<close>

fun starts_with :: "string \<Rightarrow> string \<Rightarrow> bool" where
  "starts_with [] s = True"
| "starts_with (c # pre) [] = False"
| "starts_with (c # pre) (d # s) = (c = d \<and> starts_with pre s)"

fun strstr :: "string \<Rightarrow> string \<Rightarrow> bool" where
  "strstr [] sub = (sub = [])"
| "strstr (c # s) sub = (starts_with sub (c # s) \<or> strstr s sub)"

text \<open>The lines of \<open>/proc/mtd\<close>, each with the number that \<open>sscanf\<close> finds in it.\<close>

definition mtd_open :: "'d mtd_ops \<Rightarrow> (int option \<times> string) list option \<Rightarrow> string \<Rightarrow> target option" where
  "mtd_open ops proc mtd =
     (let t = (case proc of
                 None \<Rightarrow> Path mtd
               | Some ls \<Rightarrow>
                   (case List.find (\<lambda>(i, l). i \<noteq> None \<and> strstr l mtd) ls of
                      Some (Some i, l) \<Rightarrow> Mtd_dev i
                    | _ \<Rightarrow> Path mtd))
      in if op_open ops t then Some t else None)"

section \<open>Checks\<close>

definition into_buf :: "nat \<Rightarrow> u8 list \<Rightarrow> u8 list \<Rightarrow> u8 list" where
  "into_buf o' bs buf = take o' buf @ bs @ drop (o' + length bs) buf"

definition W54_MAGICS :: "u32 list" where
  "W54_MAGICS = [0x47343557, 0x53343557, 0x73343557, 0x46343557, 0x55343557]"

definition image_check_bcom ::
  "'d mtd_ops \<Rightarrow> (int option \<times> string) list option \<Rightarrow> string \<Rightarrow> mtd_prog \<Rightarrow> stop + bool \<times> mtd_prog" where
  "image_check_bcom ops proc mtd p =
     (case read_fd 32 (p_file p) of
        (n, bs, f) \<Rightarrow>
          (let p = p\<lparr>p_buflen := n, p_buf := into_buf 0 bs (p_buf p), p_file := f\<rparr> in
           if n < 32 then Inr (False, p)
           else
             (let p = (if le32 (p_buf p) 0 \<in> set W54_MAGICS then
                         (case read_fd 28 (p_file p) of
                            (n, bs, f) \<Rightarrow> p\<lparr>p_buflen := n, p_buf := into_buf 0 bs (p_buf p), p_file := f\<rparr>)
                       else p)
              in if le32 (p_buf p) 0 \<noteq> TRX_MAGIC \<or> le32 (p_buf p) 4 < 28 then Inr (False, p)
                 else
                   (case mtd_open ops proc mtd of
                      None \<Rightarrow> Inl (Exit 1)
                    | Some t \<Rightarrow>
                        (case op_info ops t of
                           None \<Rightarrow> Inl (Exit 1)
                         | Some (size', erasesize) \<Rightarrow> Inr (\<not> size' < le32 (p_buf p) 4, p))))))"

text \<open>The system type: the text behind the colon and the space of the last line that begins so.\<close>

definition is_broadcom :: "string \<Rightarrow> bool option" where
  "is_broadcom l =
     (if starts_with ''system type'' l \<and> CHR '':'' \<in> set l
      then Some (starts_with ''Broadcom BCM947XX'' (drop 2 (dropWhile (\<lambda>c. c \<noteq> CHR '':'') l)))
      else None)"

definition image_check ::
  "string list option \<Rightarrow> 'd mtd_ops \<Rightarrow> (int option \<times> string) list option \<Rightarrow> string \<Rightarrow> mtd_prog \<Rightarrow>
   stop + bool \<times> mtd_prog" where
  "image_check cpuinfo ops proc mtd p =
     (case cpuinfo of
        None \<Rightarrow> Inl Stray
      | Some ls \<Rightarrow> if Some True \<in> set (map is_broadcom ls) then image_check_bcom ops proc mtd p else Inr (True, p))"

definition mtd_check :: "'d mtd_ops \<Rightarrow> (int option \<times> string) list option \<Rightarrow> string \<Rightarrow> bool" where
  "mtd_check ops proc mtd = (case mtd_open ops proc mtd of None \<Rightarrow> False | Some t \<Rightarrow> op_info ops t \<noteq> None)"

section \<open>Unlocking and erasing\<close>

text \<open>A step yields the reason to stop or a value, and the devices as it leaves them.\<close>

type_synonym ('a, 'd) step = "(stop + 'a) \<times> 'd"

definition mtd_unlock_dev ::
  "'d mtd_ops \<Rightarrow> (int option \<times> string) list option \<Rightarrow> string \<Rightarrow> 'd \<Rightarrow> (unit, 'd) step" where
  "mtd_unlock_dev ops proc mtd d =
     (case mtd_open ops proc mtd of
        None \<Rightarrow> (Inl (Exit 1), d)
      | Some t \<Rightarrow>
          (case op_info ops t of
             None \<Rightarrow> (Inl (Exit 1), d)
           | Some (size', erasesize) \<Rightarrow> (Inr (), snd (op_unlock ops d t 0 size'))))"

partial_function (option) erase_all ::
  "'d mtd_ops \<Rightarrow> target \<Rightarrow> u32 \<Rightarrow> u32 \<Rightarrow> u32 \<Rightarrow> 'd \<Rightarrow> (unit, 'd) step option" where
  "erase_all ops t size' erasesize start d =
     (if start < size' then
        (case op_erase ops (snd (op_unlock ops d t start erasesize)) t start erasesize of
           (ret, d) \<Rightarrow> if ret \<noteq> 0 then Some (Inl (Exit 1), d) else erase_all ops t size' erasesize (start + erasesize) d)
      else Some (Inr (), d))"

definition mtd_erase_dev ::
  "'d mtd_ops \<Rightarrow> (int option \<times> string) list option \<Rightarrow> string \<Rightarrow> 'd \<Rightarrow> (unit, 'd) step option" where
  "mtd_erase_dev ops proc mtd d =
     (case mtd_open ops proc mtd of
        None \<Rightarrow> Some (Inl (Exit 1), d)
      | Some t \<Rightarrow>
          (case op_info ops t of
             None \<Rightarrow> Some (Inl (Exit 1), d)
           | Some (size', erasesize) \<Rightarrow> erase_all ops t size' erasesize 0 d))"

section \<open>Writing\<close>

text \<open>Erasing ahead of the data: up to \<open>e\<close> the device is erased, up to \<open>w\<close> there will be data.\<close>

partial_function (option) erase_ahead ::
  "'d mtd_ops \<Rightarrow> target \<Rightarrow> u32 \<Rightarrow> u32 \<Rightarrow> u32 \<Rightarrow> 'd \<Rightarrow> (u32, 'd) step option" where
  "erase_ahead ops t erasesize w e d =
     (if e < w then
        (case op_erase ops d t e erasesize of
           (ret, d) \<Rightarrow> if ret < 0 then Some (Inl (Exit 1), d) else erase_ahead ops t erasesize w (e + erasesize) d)
      else Some (Inr e, d))"

text \<open>The loop: \<open>pos\<close> is the position in the device. The result of \<open>write\<close> is compared as an unsigned number.\<close>

partial_function (option) write_loop ::
  "'d mtd_ops \<Rightarrow> target \<Rightarrow> u32 \<Rightarrow> nat \<Rightarrow> u32 \<Rightarrow> u32 \<Rightarrow> mtd_prog \<Rightarrow> 'd \<Rightarrow> (mtd_prog, 'd) step option" where
  "write_loop ops t erasesize pos w e p d =
     (if p_buflen p < 0 then Some (Inl Stray, d)
      else
        (case read_fd (BUFSIZE - nat (p_buflen p)) (p_file p) of
           (n, bs, f) \<Rightarrow>
             (let r = of_int (p_buflen p) + of_int n; w = w + r;
                  p = p\<lparr>p_buf := into_buf (nat (p_buflen p)) bs (p_buf p), p_file := f\<rparr>
              in if r = 0 then Some (Inr p, d)
                 else
                   Option.bind (erase_ahead ops t erasesize w e d)
                     (\<lambda>res. case res of
                        (Inl s, d) \<Rightarrow> Some (Inl s, d)
                      | (Inr e, d) \<Rightarrow>
                          if BUFSIZE < unat r then Some (Inl Stray, d)
                          else
                            (case op_write ops d t pos (take (unat r) (p_buf p)) of
                               (result, d) \<Rightarrow>
                                 if (of_int result :: u32) < r then Some (Inl (Exit 1), d)
                                 else write_loop ops t erasesize (pos + nat result) w e (p\<lparr>p_buflen := 0\<rparr>) d)))))"

definition mtd_write_dev ::
  "'d mtd_ops \<Rightarrow> (int option \<times> string) list option \<Rightarrow> string \<Rightarrow> mtd_prog \<Rightarrow> 'd \<Rightarrow> (mtd_prog, 'd) step option" where
  "mtd_write_dev ops proc mtd p d =
     (case mtd_open ops proc mtd of
        None \<Rightarrow> Some (Inl (Exit 1), d)
      | Some t \<Rightarrow>
          (case op_info ops t of
             None \<Rightarrow> Some (Inl (Exit 1), d)
           | Some (size', erasesize) \<Rightarrow> write_loop ops t erasesize 0 0 0 p d))"

section \<open>The program\<close>

datatype mtd_flag = Force | Reboot | Quiet | Erase_first string | Other_flag

datatype mtd_cmd = Cmd_erase string | Cmd_write string string | Cmd_unlock string

text \<open>The options: the array of devices to erase has room for seven names and the null pointer behind them.\<close>

record mtd_args =
  ar_force :: bool
  ar_boot :: bool
  ar_quiet :: nat
  ar_erase :: "string list"

fun mtd_flags :: "mtd_flag list \<Rightarrow> mtd_args \<Rightarrow> stop + mtd_args" where
  "mtd_flags [] a = Inr a"
| "mtd_flags (Force # fs) a = mtd_flags fs (a\<lparr>ar_force := True\<rparr>)"
| "mtd_flags (Reboot # fs) a = mtd_flags fs (a\<lparr>ar_boot := True\<rparr>)"
| "mtd_flags (Quiet # fs) a = mtd_flags fs (a\<lparr>ar_quiet := ar_quiet a + 1\<rparr>)"
| "mtd_flags (Erase_first dev # fs) a =
     (if length (ar_erase a) + 1 < MAX_ARGS then mtd_flags fs (a\<lparr>ar_erase := ar_erase a @ [dev]\<rparr>) else Inl Stray)"
| "mtd_flags (Other_flag # fs) a = Inl (Exit 1)"

definition mtd_command :: "string list \<Rightarrow> mtd_cmd option" where
  "mtd_command argv =
     (case argv of
        [cmd, dev] \<Rightarrow> if cmd = ''unlock'' then Some (Cmd_unlock dev) else if cmd = ''erase'' then Some (Cmd_erase dev) else None
      | [cmd, img, dev] \<Rightarrow> if cmd = ''write'' then Some (Cmd_write img dev) else None
      | _ \<Rightarrow> None)"

fun cmd_device :: "mtd_cmd \<Rightarrow> string" where
  "cmd_device (Cmd_erase dev) = dev"
| "cmd_device (Cmd_unlock dev) = dev"
| "cmd_device (Cmd_write img dev) = dev"

text \<open>The outside of the program: \<open>/proc/cpuinfo\<close>, \<open>/proc/mtd\<close>, the standard input, and what opens as a file.\<close>

record sys =
  y_cpuinfo :: "string list option"
  y_mtd :: "(int option \<times> string) list option"
  y_stdin :: infile
  y_files :: "string \<Rightarrow> infile option"

definition check_image :: "sys \<Rightarrow> 'd mtd_ops \<Rightarrow> bool \<Rightarrow> mtd_cmd \<Rightarrow> mtd_prog \<Rightarrow> stop + mtd_prog" where
  "check_image y ops force cmd p =
     (case cmd of
        Cmd_write img dev \<Rightarrow>
          (case if img = ''-'' then Some (y_stdin y) else y_files y img of
             None \<Rightarrow> Inl (Exit 1)
           | Some f \<Rightarrow>
               (case image_check (y_cpuinfo y) ops (y_mtd y) dev (p\<lparr>p_file := f\<rparr>) of
                  Inl s \<Rightarrow> Inl s
                | Inr (ok, p) \<Rightarrow>
                    if \<not> ok then if force then Inr p else Inl (Exit 1)
                    else if mtd_check ops (y_mtd y) dev then Inr p
                    else Inl (Exit 1)))
      | _ \<Rightarrow> Inr p)"

fun erase_first :: "sys \<Rightarrow> 'd mtd_ops \<Rightarrow> string list \<Rightarrow> 'd \<Rightarrow> (unit, 'd) step option" where
  "erase_first y ops [] d = Some (Inr (), d)"
| "erase_first y ops (dev # devs) d =
     (case mtd_unlock_dev ops (y_mtd y) dev d of
        (Inl s, d) \<Rightarrow> Some (Inl s, d)
      | (Inr _, d) \<Rightarrow>
          (case mtd_erase_dev ops (y_mtd y) dev d of
             None \<Rightarrow> None
           | Some (Inl s, d) \<Rightarrow> Some (Inl s, d)
           | Some (Inr _, d) \<Rightarrow> erase_first y ops devs d))"

definition mtd_do :: "sys \<Rightarrow> 'd mtd_ops \<Rightarrow> mtd_cmd \<Rightarrow> mtd_prog \<Rightarrow> 'd \<Rightarrow> (unit, 'd) step option" where
  "mtd_do y ops cmd p d =
     (case cmd of
        Cmd_unlock dev \<Rightarrow> Some (Inr (), d)
      | Cmd_erase dev \<Rightarrow> mtd_erase_dev ops (y_mtd y) dev d
      | Cmd_write img dev \<Rightarrow>
          (case mtd_write_dev ops (y_mtd y) dev p d of
             None \<Rightarrow> None
           | Some (Inl s, d) \<Rightarrow> Some (Inl s, d)
           | Some (Inr _, d) \<Rightarrow> Some (Inr (), d)))"

text \<open>The result is the exit status, whether the system is told to reboot, and the devices. \<open>buf\<close> is what reading
  \<open>/proc/cpuinfo\<close> leaves in the buffer.\<close>

definition mtd_main ::
  "sys \<Rightarrow> 'd mtd_ops \<Rightarrow> u8 list \<Rightarrow> mtd_flag list \<Rightarrow> string list \<Rightarrow> 'd \<Rightarrow> (bool, 'd) step option" where
  "mtd_main y ops buf flags argv d =
     (case mtd_flags flags \<lparr>ar_force = False, ar_boot = False, ar_quiet = 0, ar_erase = []\<rparr> of
        Inl s \<Rightarrow> Some (Inl s, d)
      | Inr a \<Rightarrow>
          (case mtd_command argv of
             None \<Rightarrow> Some (Inl (Exit 1), d)
           | Some cmd \<Rightarrow>
               (case check_image y ops (ar_force a) cmd \<lparr>p_buf = buf, p_buflen = 0, p_file = []\<rparr> of
                  Inl s \<Rightarrow> Some (Inl s, d)
                | Inr p \<Rightarrow>
                    (case erase_first y ops (ar_erase a) d of
                       None \<Rightarrow> None
                     | Some (Inl s, d) \<Rightarrow> Some (Inl s, d)
                     | Some (Inr _, d) \<Rightarrow>
                         (case if cmd_device cmd \<in> set (ar_erase a) then (Inr (), d)
                               else mtd_unlock_dev ops (y_mtd y) (cmd_device cmd) d of
                            (Inl s, d) \<Rightarrow> Some (Inl s, d)
                          | (Inr _, d) \<Rightarrow>
                              (case mtd_do y ops cmd p d of
                                 None \<Rightarrow> None
                               | Some (Inl s, d) \<Rightarrow> Some (Inl s, d)
                               | Some (Inr _, d) \<Rightarrow> Some (Inr (ar_boot a), d)))))))"


section \<open>Files that can be read\<close>

fun file_data :: "infile \<Rightarrow> u8 list" where
  "file_data [] = []"
| "file_data (Some bs # r) = bs @ file_data r"
| "file_data (None # r) = file_data r"

definition readable :: "infile \<Rightarrow> bool" where
  "readable f \<longleftrightarrow> None \<notin> set f \<and> Some [] \<notin> set f"

lemma read_fd_readable:
  assumes "readable f" "0 < n"
  obtains bs f' where "read_fd n f = (int (length bs), bs, f')" "bs @ file_data f' = file_data f" "readable f'"
    "length bs \<le> n" "bs = [] \<longleftrightarrow> file_data f = []"
proof (cases f)
  case Nil
  then show thesis using that [of "[]" "[]"] by (simp add: readable_def)
next
  case (Cons c r)
  then obtain bs where c: "c = Some bs" "bs \<noteq> []" using assms(1) by (cases c) (auto simp: readable_def)
  show thesis
    by (rule that [of "take n bs" "if length bs \<le> n then r else Some (drop n bs) # r"])
      (use c Cons assms in \<open>auto simp: readable_def\<close>)
qed

section \<open>A device that works\<close>

definition erasable :: "'d mtd_ops \<Rightarrow> target \<Rightarrow> ('d \<Rightarrow> u8 list) \<Rightarrow> nat \<Rightarrow> nat \<Rightarrow> bool" where
  "erasable ops t cont size' es \<longleftrightarrow>
     0 < es \<and> es dvd size' \<and> size' + es < 2 ^ 32 \<and> op_info ops t = Some (of_nat size', of_nat es) \<and>
     (\<forall>d. length (cont d) = size') \<and>
     (\<forall>d a. a + es \<le> size' \<longrightarrow>
        (\<exists>d'. op_erase ops d t (of_nat a) (of_nat es) = (0, d') \<and> cont d' = erased (cont d) a es)) \<and>
     (\<forall>d a n. cont (snd (op_unlock ops d t a n)) = cont d)"

definition writable :: "'d mtd_ops \<Rightarrow> target \<Rightarrow> ('d \<Rightarrow> u8 list) \<Rightarrow> nat \<Rightarrow> bool" where
  "writable ops t cont size' \<longleftrightarrow>
     (\<forall>d pos b. pos + length b \<le> size' \<longrightarrow>
        (\<exists>d'. op_write ops d t pos b = (int (length b), d') \<and> cont d' = program (cont d) pos b))"

lemma erasableD:
  assumes "erasable ops t cont size' es"
  shows "0 < es" "es dvd size'" "size' + es < 2 ^ 32" "op_info ops t = Some (of_nat size', of_nat es)" "length (cont d) = size'"
    "a + es \<le> size' \<Longrightarrow> \<exists>d'. op_erase ops d t (of_nat a) (of_nat es) = (0, d') \<and> cont d' = erased (cont d) a es"
    "cont (snd (op_unlock ops d t k n)) = cont d"
  using assms unfolding erasable_def by blast+

text \<open>The contents when the first \<open>pos\<close> bytes of an image have been written and the device is erased up to \<open>e\<close>.\<close>

definition flashed :: "u8 list \<Rightarrow> nat \<Rightarrow> nat \<Rightarrow> u8 list \<Rightarrow> u8 list" where
  "flashed img pos e old = take pos img @ replicate (e - pos) 0xFF @ drop e old"

lemma flashed_erased:
  assumes "pos \<le> length img" "pos \<le> e" "e \<le> e'" "e' \<le> length old"
  shows "erased (flashed img pos e old) e (e' - e) = flashed img pos e' old"
proof (rule nth_equalityI)
  fix i
  assume "i < length (erased (flashed img pos e old) e (e' - e))"
  then show "erased (flashed img pos e old) e (e' - e) ! i = flashed img pos e' old ! i"
    using assms by (auto simp: erased_nth flashed_def nth_append)
qed (use assms in \<open>simp add: erased_nth flashed_def\<close>)

lemma flashed_program:
  assumes "pos + n \<le> length img" "pos + n \<le> e" "e \<le> length old"
  shows "program (flashed img pos e old) pos (take n (drop pos img)) = flashed img (pos + n) e old"
proof (rule nth_equalityI)
  fix i
  assume "i < length (program (flashed img pos e old) pos (take n (drop pos img)))"
  then show "program (flashed img pos e old) pos (take n (drop pos img)) ! i = flashed img (pos + n) e old ! i"
    using assms by (auto simp: program_nth flashed_def nth_append)
qed (use assms in \<open>simp add: program_nth flashed_def\<close>)

lemma erase_ahead_device:
  assumes dev: "erasable ops t cont size' es" and w: "w \<le> e + k * es" "e + k * es < w + es" and fits: "e + k * es \<le> size'"
  shows "\<exists>d'. erase_ahead ops t (of_nat es) (of_nat w) (of_nat e) d = Some (Inr (of_nat (e + k * es)), d') \<and>
    cont d' = erased (cont d) e (k * es)"
  using w fits
proof (induction k arbitrary: e d)
  case 0
  have "size' < 2 ^ 32" using erasableD(3) [OF dev] by simp
  then have "unat (of_nat e :: u32) = e" "unat (of_nat w :: u32) = w" using 0 by (simp_all only: unat_of_nat_u32)
  then have "\<not> (of_nat e :: u32) < of_nat w" using 0 by (simp add: word_less_nat_alt)
  then show ?case by (subst erase_ahead.simps) simp
next
  case (Suc k)
  have "w < 2 ^ 32" "e < 2 ^ 32" using Suc.prems erasableD(3) [OF dev] by simp_all
  then have "unat (of_nat e :: u32) = e" "unat (of_nat w :: u32) = w" by (simp_all only: unat_of_nat_u32)
  moreover have "e < w" using Suc.prems by simp
  ultimately have less: "(of_nat e :: u32) < of_nat w" by (simp add: word_less_nat_alt)
  have "e + es \<le> size'" using Suc.prems(3) by simp
  then obtain d1 where d1: "op_erase ops d t (of_nat e) (of_nat es) = (0, d1)" "cont d1 = erased (cont d) e es"
    using erasableD(6) [OF dev] by blast
  obtain d' where d': "erase_ahead ops t (of_nat es) (of_nat w) (of_nat (e + es)) d1 = Some (Inr (of_nat (e + es + k * es)), d')"
    "cont d' = erased (cont d1) (e + es) (k * es)"
    using Suc.IH [of "e + es" d1] Suc.prems by (auto simp: ac_simps)
  have "cont d' = erased (cont d) e (es + k * es)"
    unfolding d'(2) d1(2) using Suc.prems(3) erasableD(5) [OF dev, of d] by (intro erased_erased) simp
  moreover have "erase_ahead ops t (of_nat es) (of_nat w) (of_nat e) d = Some (Inr (of_nat (e + es + k * es)), d')"
    using less d1(1) d'(1) by (subst erase_ahead.simps) simp
  ultimately show ?case by (simp add: add.assoc)
qed


lemma round_to_bounds:
  assumes "0 < es"
  shows "n \<le> round_to es n" "round_to es n < n + es" "es dvd round_to es n"
proof -
  have r: "n mod es < es" "n mod es \<le> n" using assms by simp_all
  show "n \<le> round_to es n" by (rule round_to_ge)
  show "round_to es n < n + es" using r assms unfolding round_to_def by (cases "n mod es = 0") simp_all
  show "es dvd round_to es n" using round_to_mod [OF assms, of n] by (simp add: mod_eq_0_iff_dvd)
qed

lemma round_to_le: "0 < es \<Longrightarrow> es dvd s \<Longrightarrow> n \<le> s \<Longrightarrow> round_to es n \<le> s"
proof -
  assume es: "0 < es" and s: "es dvd s" "n \<le> s"
  obtain j k where j: "round_to es n = es * j" and k: "s = es * k" using round_to_bounds(3) [OF es, of n] s(1) by (metis dvdE)
  then have "es * j < es * (k + 1)" using round_to_bounds(2) [OF es, of n] s(2) by simp
  then have "j < k + 1" using es by (simp only: mult_less_cancel1)
  then have "j \<le> k" by simp
  then show "round_to es n \<le> s" unfolding j k by simp
qed

lemma round_to_mono_steps:
  assumes "0 < es" "n \<le> n'"
  obtains k where "round_to es n' = round_to es n + k * es"
proof -
  have "es dvd round_to es n' - round_to es n" using round_to_bounds(3) [OF assms(1)] by simp
  moreover have "round_to es n \<le> round_to es n'"
    using round_to_le [OF assms(1) round_to_bounds(3) [OF assms(1)], of n n'] round_to_bounds(1) [OF assms(1), of n'] assms(2) by simp
  ultimately show thesis by (metis dvdE le_add_diff_inverse mult.commute that)
qed

lemma take_into_buf:
  "k \<le> length buf \<Longrightarrow> take (k + length bs) (into_buf k bs buf) = take k buf @ bs"
  by (simp add: into_buf_def)

lemma split_length: "length xs = n \<Longrightarrow> take n (xs @ ys) = xs \<and> drop n (xs @ ys) = ys"
  by auto

text \<open>One turn of the loop with data: \<open>w\<close> bytes have been read before.\<close>

lemma write_loop_turn:
  assumes dev: "erasable ops t cont size' es" and ok: "readable (p_file p)"
    and k: "p_buflen p = int k" "k \<le> length (p_buf p)" "k < BUFSIZE"
    and img: "drop w img = take k (p_buf p) @ file_data (p_file p)" "w < length img" "length img \<le> size'"
  shows "\<exists>p' d' n. 0 < n \<and> w + n \<le> length img \<and> unat (of_nat n :: u32) = n \<and> readable (p_file p') \<and> p_buflen p' = 0 \<and>
    drop (w + n) img = file_data (p_file p') \<and>
    cont d' = erased (cont d) (round_to es w) (round_to es (w + n) - round_to es w) \<and>
    round_to es w \<le> round_to es (w + n) \<and> round_to es (w + n) \<le> size' \<and>
    write_loop ops t (of_nat es) pos (of_nat w) (of_nat (round_to es w)) p d =
      (case op_write ops d' t pos (take n (drop w img)) of
         (result, d) \<Rightarrow>
           if (of_int result :: u32) < of_nat n then Some (Inl (Exit 1), d)
           else write_loop ops t (of_nat es) (pos + nat result) (of_nat (w + n)) (of_nat (round_to es (w + n))) p' d)"
proof -
  obtain bs f' where rd: "read_fd (BUFSIZE - k) (p_file p) = (int (length bs), bs, f')" "bs @ file_data f' = file_data (p_file p)"
    "readable f'" "length bs \<le> BUFSIZE - k" "bs = [] \<longleftrightarrow> file_data (p_file p) = []"
    using read_fd_readable [OF ok, of "BUFSIZE - k"] k(3) by (metis zero_less_diff)
  define n where "n = k + length bs"
  define E where "E = round_to es (w + n)"
  have es: "0 < es" "es dvd size'" and size: "size' + es < 2 ^ 32" using erasableD(1-3) [OF dev] by blast+
  have d: "drop w img = (take k (p_buf p) @ bs) @ file_data f'" using img(1) rd(2) by simp
  have ltk: "length (take k (p_buf p) @ bs) = n" using k(2) by (simp add: n_def)
  have chunk: "take n (drop w img) = take k (p_buf p) @ bs" "drop n (drop w img) = file_data f'"
    unfolding d using split_length [OF ltk] by blast+
  have "length (drop w img) = n + length (file_data f')" using d ltk by (metis length_append)
  then have fits: "w + n \<le> length img" using img(2) by simp
  have "drop w img \<noteq> []" using img(2) by simp
  then have n0: "0 < n" using img(1) rd(5) k(2) unfolding n_def by auto
  have nB: "n \<le> BUFSIZE" using rd(4) k(3) unfolding n_def by simp
  have E: "w + n \<le> E" "E < w + n + es" "E \<le> size'"
    unfolding E_def using round_to_bounds [OF es(1), of "w + n"] round_to_le [OF es, of "w + n"] fits img(3) by simp_all
  obtain j where j: "E = round_to es w + j * es"
    unfolding E_def using round_to_mono_steps [OF es(1), of w "w + n"] by auto
  obtain d' where d': "erase_ahead ops t (of_nat es) (of_nat (w + n)) (of_nat (round_to es w)) d = Some (Inr (of_nat E), d')"
    "cont d' = erased (cont d) (round_to es w) (E - round_to es w)"
    using erase_ahead_device [OF dev, of "w + n" "round_to es w" j d] E j by auto
  have un: "unat (of_nat n :: u32) = n" using nB by (intro unat_of_nat_u32) simp
  then have nz: "(of_nat n :: u32) \<noteq> 0" using n0 by auto
  let ?p' = "p\<lparr>p_buf := into_buf k bs (p_buf p), p_file := f', p_buflen := 0\<rparr>"
  have tk: "take n (into_buf k bs (p_buf p)) = take n (drop w img)"
    unfolding n_def using take_into_buf [OF k(2)] chunk(1) n_def by simp
  have r: "(of_int (int k) + of_int (int (length bs)) :: u32) = of_nat n" "(of_nat w + of_nat n :: u32) = of_nat (w + n)"
    by (simp_all add: n_def)
  have "write_loop ops t (of_nat es) pos (of_nat w) (of_nat (round_to es w)) p d =
      (case op_write ops d' t pos (take n (drop w img)) of
         (result, d) \<Rightarrow>
           if (of_int result :: u32) < of_nat n then Some (Inl (Exit 1), d)
           else write_loop ops t (of_nat es) (pos + nat result) (of_nat (w + n)) (of_nat E) ?p' d)"
    using d'(1) un nz nB tk
    by (subst write_loop.simps) (simp add: k(1) rd(1) r Let_def del: of_nat_add of_int_of_nat_eq split: prod.split)
  moreover have "drop (w + n) img = file_data f'" using chunk(2) by (simp add: add.commute)
  ultimately show ?thesis
    using n0 fits rd(3) d'(2) un j E(3) unfolding E_def
    by (intro exI [of _ ?p'] exI [of _ d'] exI [of _ n]) simp
qed

lemma write_loop_end:
  assumes "p_buflen p = 0" "p_file p = []"
  shows "write_loop ops t es pos w e p d = Some (Inr p, d)"
  using assms by (subst write_loop.simps) (simp add: Let_def into_buf_def)

lemma file_data_Nil: "readable f \<Longrightarrow> file_data f = [] \<longleftrightarrow> f = []"
  by (induction f rule: file_data.induct) (auto simp: readable_def)

lemma write_loop_exact:
  assumes dev: "erasable ops t cont size' es" "writable ops t cont size'" and old: "length old = size'"
  shows "\<lbrakk>readable (p_file p); p_buflen p = int k; k \<le> length (p_buf p); k < BUFSIZE;
      drop w img = take k (p_buf p) @ file_data (p_file p); w \<le> length img; length img \<le> size';
      cont d = flashed img w (round_to es w) old\<rbrakk> \<Longrightarrow>
    \<exists>p' d'. write_loop ops t (of_nat es) w (of_nat w) (of_nat (round_to es w)) p d = Some (Inr p', d') \<and>
      cont d' = flashed img (length img) (round_to es (length img)) old"
proof (induction "length img - w" arbitrary: w p d k rule: less_induct)
  case less
  show ?case
  proof (cases "w < length img")
    case True
    let ?E = "\<lambda>n. round_to es (w + n)"
    obtain p' d1 n where n: "0 < n" "w + n \<le> length img" "unat (of_nat n :: u32) = n" "readable (p_file p')" "p_buflen p' = 0"
      "drop (w + n) img = file_data (p_file p')" "cont d1 = erased (cont d) (round_to es w) (?E n - round_to es w)"
      "round_to es w \<le> ?E n" "?E n \<le> size'"
      "write_loop ops t (of_nat es) w (of_nat w) (of_nat (round_to es w)) p d =
        (case op_write ops d1 t w (take n (drop w img)) of
           (result, d) \<Rightarrow>
             if (of_int result :: u32) < of_nat n then Some (Inl (Exit 1), d)
             else write_loop ops t (of_nat es) (w + nat result) (of_nat (w + n)) (of_nat (?E n)) p' d)"
      using write_loop_turn [OF dev(1) less.prems(1-5) True less.prems(7), where pos = w and d = d] by blast
    have c1: "cont d1 = flashed img w (?E n) old"
      unfolding n(7) less.prems(8) using less.prems(6) n(8,9) old round_to_bounds(1) [OF erasableD(1) [OF dev(1)]]
      by (intro flashed_erased) simp_all
    have len: "length (take n (drop w img)) = n" using n(2) by simp
    then obtain d2 where d2: "op_write ops d1 t w (take n (drop w img)) = (int n, d2)"
      "cont d2 = program (cont d1) w (take n (drop w img))"
      using dev(2) n(2) less.prems(7) unfolding writable_def by (metis le_trans)
    have c2: "cont d2 = flashed img (w + n) (?E n) old"
      unfolding d2(2) c1 using n(2,9) old round_to_bounds(1) [OF erasableD(1) [OF dev(1)], of "w + n"]
      by (intro flashed_program) simp_all
    have "write_loop ops t (of_nat es) w (of_nat w) (of_nat (round_to es w)) p d =
        write_loop ops t (of_nat es) (w + n) (of_nat (w + n)) (of_nat (?E n)) p' d2"
      unfolding n(10) d2(1) by simp
    then show ?thesis
      using less.hyps [of "w + n" p' 0 d2] n(1,2,4,5,6) c2 True less.prems(7) by simp
  next
    case False
    then have "take k (p_buf p) @ file_data (p_file p) = []" using less.prems(5) by simp
    then have "p_buflen p = 0" "p_file p = []"
      using less.prems(1-3) by (auto simp: file_data_Nil)
    moreover have "w = length img" using False less.prems(6) by simp
    ultimately show ?thesis using less.prems(8) by (simp add: write_loop_end)
  qed
qed

text \<open>What stands on the device when the image has been written.\<close>

definition installed :: "u8 list \<Rightarrow> nat \<Rightarrow> u8 list \<Rightarrow> u8 list" where
  "installed img es old = img @ replicate (round_to es (length img) - length img) 0xFF @ drop (round_to es (length img)) old"

lemma mtd_write_dev_exact:
  assumes dev: "erasable ops t cont size' es" "writable ops t cont size'" and open': "mtd_open ops proc mtd = Some t"
    and "readable (p_file p)" "p_buflen p = int k" "k \<le> length (p_buf p)" "k < BUFSIZE"
    and img: "img = take k (p_buf p) @ file_data (p_file p)" "length img \<le> size'"
  shows "\<exists>p' d'. mtd_write_dev ops proc mtd p d = Some (Inr p', d') \<and> cont d' = installed img es (cont d)"
proof -
  have "round_to es 0 = 0" by (simp add: round_to_def)
  moreover have start: "drop 0 img = take k (p_buf p) @ file_data (p_file p)" "cont d = flashed img 0 (round_to es 0) (cont d)"
    using img(1) by (simp_all add: flashed_def round_to_def)
  ultimately obtain p' d' where "write_loop ops t (of_nat es) 0 0 0 p d = Some (Inr p', d')"
    "cont d' = flashed img (length img) (round_to es (length img)) (cont d)"
    using write_loop_exact [OF dev erasableD(5) [OF dev(1)] assms(4-7) start(1) le0 img(2) start(2)] by auto
  then show ?thesis
    using erasableD(4) [OF dev(1)] open' by (simp add: mtd_write_dev_def installed_def flashed_def)
qed


section \<open>Properties\<close>

lemma le32_prefix: "i + 4 \<le> length a \<Longrightarrow> le32 (a @ b) i = le32 a i"
  by (simp add: le32_def nth_append)

lemma image_valid_append: "image_valid a \<Longrightarrow> image_valid (a @ b)"
proof -
  assume a: "image_valid a"
  then have len: "28 \<le> length a" by (auto simp: image_valid_def Let_def)
  then have "trx_header_of (a @ b) = trx_header_of a" by (simp add: trx_header_of_def le32_prefix)
  then show ?thesis using a len by (simp add: image_valid_def Let_def)
qed

text \<open>The check of an image with a header that the first call of \<open>read\<close> delivers.\<close>

lemma image_check_bcom_trx:
  assumes info: "op_info ops t = Some (of_nat size', es)" "size' < 2 ^ 32" and open': "mtd_open ops proc dev = Some t"
    and p: "p_file p = Some bs # f" "32 \<le> length bs"
    and hd: "le32 bs 0 = TRX_MAGIC" "28 \<le> unat (le32 bs 4)" "unat (le32 bs 4) \<le> size'"
  obtains f' where "image_check_bcom ops proc dev p = Inr (True, p\<lparr>p_buflen := 32, p_buf := into_buf 0 (take 32 bs) (p_buf p), p_file := f'\<rparr>)"
    "take 32 bs @ file_data f' = bs @ file_data f" "readable f \<Longrightarrow> readable f'"
proof -
  let ?f = "if length bs \<le> 32 then f else Some (drop 32 bs) # f"
  have l: "length (take 32 bs) = 32" using p(2) by simp
  have b: "le32 (into_buf 0 (take 32 bs) buf) 0 = TRX_MAGIC" "le32 (into_buf 0 (take 32 bs) buf) 4 = le32 bs 4" for buf
    using hd(1) l by (simp_all add: into_buf_def le32_prefix le32_take)
  have "TRX_MAGIC \<notin> set W54_MAGICS" by (simp add: W54_MAGICS_def)
  moreover have "\<not> le32 bs 4 < 28" using hd(2) by (simp add: word_less_nat_alt)
  moreover have "\<not> of_nat size' < le32 bs 4" using hd(3) unat_of_nat_u32 [OF info(2)] by (simp add: word_less_nat_alt)
  moreover have "read_fd 32 (p_file p) = (32, take 32 bs, ?f)" unfolding p(1) using l by simp
  ultimately have "image_check_bcom ops proc dev p = Inr (True, p\<lparr>p_buflen := 32, p_buf := into_buf 0 (take 32 bs) (p_buf p), p_file := ?f\<rparr>)"
    using info(1) open' b by (simp add: image_check_bcom_def Let_def)
  then show thesis
    by (rule that) (use p(2) in \<open>auto simp: readable_def\<close>)
qed

text \<open>A run up to the writing: the image is checked, the device unlocked, and 32 bytes of the image are in the buffer.\<close>

lemma mtd_main_write:
  assumes dev: "erasable ops t cont size' es" and open': "mtd_open ops (y_mtd y) dev = Some t"
    and cpu: "y_cpuinfo y = Some ls" "Some True \<in> set (map is_broadcom ls)"
    and image: "name \<noteq> ''-''" "y_files y name = Some (Some bs # f)" "32 \<le> length bs" "readable f"
    and img: "img = bs @ file_data f" "image_valid img" "length img \<le> size'" and buf: "length buf = BUFSIZE"
  obtains p d1 where "readable (p_file p)" "p_buflen p = 32" "32 \<le> length (p_buf p)" "take 32 (p_buf p) @ file_data (p_file p) = img"
    "cont d1 = cont d"
    "\<And>p' d'. mtd_write_dev ops (y_mtd y) dev p d1 = Some (Inr p', d') \<Longrightarrow>
       mtd_main y ops buf [Reboot] [''write'', name, dev] d = Some (Inr True, d')"
proof -
  let ?p = "\<lparr>p_buf = buf, p_buflen = 0, p_file = Some bs # f\<rparr>"
  have size: "size' < 2 ^ 32" using erasableD(3) [OF dev] by simp
  have eq: "le32 img 0 = le32 bs 0" "le32 img 4 = le32 bs 4" unfolding img(1) using image(3) by (simp_all add: le32_prefix)
  have hd: "le32 bs 0 = TRX_MAGIC" "28 \<le> unat (le32 bs 4)" "unat (le32 bs 4) \<le> size'"
    using img(2,3) eq by (simp_all add: image_valid_def Let_def trx_header_of_def)
  obtain f' where chk: "image_check_bcom ops (y_mtd y) dev ?p =
      Inr (True, ?p\<lparr>p_buflen := 32, p_buf := into_buf 0 (take 32 bs) buf, p_file := f'\<rparr>)"
    "take 32 bs @ file_data f' = bs @ file_data f" "readable f \<Longrightarrow> readable f'"
    by (rule image_check_bcom_trx [OF erasableD(4) [OF dev] size open' _ image(3) hd, of ?p f]) simp_all
  let ?p' = "\<lparr>p_buf = into_buf 0 (take 32 bs) buf, p_buflen = 32, p_file = f'\<rparr>"
  have check: "check_image y ops False (Cmd_write name dev) \<lparr>p_buf = buf, p_buflen = 0, p_file = []\<rparr> = Inr ?p'"
    using cpu image(1,2) chk(1) open' erasableD(4) [OF dev]
    by (simp add: check_image_def image_check_def mtd_check_def)
  obtain d1 where d1: "mtd_unlock_dev ops (y_mtd y) dev d = (Inr (), d1)" "cont d1 = cont d"
    using open' erasableD(4,7) [OF dev] by (simp add: mtd_unlock_dev_def)
  have l: "length (take 32 bs) = 32" using image(3) by simp
  have b: "take 32 (into_buf 0 (take 32 bs) buf) = take 32 bs" "32 \<le> length (into_buf 0 (take 32 bs) buf)"
    using l buf by (simp_all add: into_buf_def)
  have "mtd_main y ops buf [Reboot] [''write'', name, dev] d = Some (Inr True, d')"
    if "mtd_write_dev ops (y_mtd y) dev ?p' d1 = Some (Inr p2, d')" for p2 d'
    using that check d1(1) by (simp add: mtd_main_def mtd_command_def mtd_do_def)
  then show thesis by (intro that [of ?p' d1]) (use chk(2,3) image(4) b img(1) d1(2) in simp_all)
qed

text \<open>When nothing can be written, every turn erases and goes on.\<close>

lemma write_loop_lost:
  assumes dev: "erasable ops t cont size' es" and fails: "\<And>d pos b. op_write ops d t pos b = (- 1, d)" and old: "length old = size'"
  shows "\<lbrakk>readable (p_file p); p_buflen p = int k; k \<le> length (p_buf p); k < BUFSIZE;
      drop w img = take k (p_buf p) @ file_data (p_file p); w \<le> length img; length img \<le> size';
      cont d = erased old 0 (round_to es w)\<rbrakk> \<Longrightarrow>
    \<exists>p' d'. write_loop ops t (of_nat es) 0 (of_nat w) (of_nat (round_to es w)) p d = Some (Inr p', d') \<and>
      cont d' = erased old 0 (round_to es (length img))"
proof (induction "length img - w" arbitrary: w p d k rule: less_induct)
  case less
  show ?case
  proof (cases "w < length img")
    case True
    let ?E = "\<lambda>n. round_to es (w + n)"
    obtain p' d1 n where n: "0 < n" "w + n \<le> length img" "readable (p_file p')" "p_buflen p' = 0"
      "drop (w + n) img = file_data (p_file p')" "cont d1 = erased (cont d) (round_to es w) (?E n - round_to es w)"
      "round_to es w \<le> ?E n" "?E n \<le> size'"
      "write_loop ops t (of_nat es) 0 (of_nat w) (of_nat (round_to es w)) p d =
        (case op_write ops d1 t 0 (take n (drop w img)) of
           (result, d) \<Rightarrow>
             if (of_int result :: u32) < of_nat n then Some (Inl (Exit 1), d)
             else write_loop ops t (of_nat es) (0 + nat result) (of_nat (w + n)) (of_nat (?E n)) p' d)"
      using write_loop_turn [OF dev less.prems(1-5) True less.prems(7), where pos = 0 and d = d] by blast
    have c1: "cont d1 = erased old 0 (?E n)"
      unfolding n(6) less.prems(8) using erased_erased [of 0 "round_to es w" "?E n - round_to es w" old] n(7,8) old by simp
    have m1: "\<not> (of_int (- 1) :: u32) < x" for x by (simp add: not_less)
    have "write_loop ops t (of_nat es) 0 (of_nat w) (of_nat (round_to es w)) p d =
        write_loop ops t (of_nat es) 0 (of_nat (w + n)) (of_nat (?E n)) p' d1"
      unfolding n(9) fails using m1 by simp
    then show ?thesis
      using less.hyps [of "w + n" p' 0 d1] n(1,2,3,4,5) c1 True less.prems(7) by simp
  next
    case False
    then have "take k (p_buf p) @ file_data (p_file p) = []" using less.prems(5) by simp
    then have "p_buflen p = 0" "p_file p = []"
      using less.prems(1-3) by (auto simp: file_data_Nil)
    moreover have "w = length img" using False less.prems(6) by simp
    ultimately show ?thesis using less.prems(8) by (simp add: write_loop_end)
  qed
qed

text \<open>An image whose first piece is shorter than a header of 32 bytes is refused before anything is done.\<close>

lemma mtd_main_short:
  assumes dev: "erasable ops t cont size' es" and open': "mtd_open ops (y_mtd y) dev = Some t"
    and cpu: "y_cpuinfo y = Some ls" "Some True \<in> set (map is_broadcom ls)"
    and image: "name \<noteq> ''-''" "y_files y name = Some (Some bs # f)" "length bs < 32"
  shows "mtd_main y ops buf [Reboot] [''write'', name, dev] d = Some (Inl (Exit 1), d)"
proof -
  let ?p = "\<lparr>p_buf = buf, p_buflen = 0, p_file = Some bs # f\<rparr>"
  have "\<exists>p. image_check_bcom ops (y_mtd y) dev ?p = Inr (False, p)"
    using image(3) by (simp add: image_check_bcom_def Let_def)
  then obtain p where "image_check_bcom ops (y_mtd y) dev ?p = Inr (False, p)" by blast
  then have "check_image y ops False (Cmd_write name dev) \<lparr>p_buf = buf, p_buflen = 0, p_file = []\<rparr> = Inl (Exit 1)"
    using cpu image(1,2) open' erasableD(4) [OF dev] by (simp add: check_image_def image_check_def mtd_check_def)
  then show ?thesis by (simp add: mtd_main_def mtd_command_def)
qed

text \<open>C11: Writing a valid image from a named file to a device that it fits and that erases and writes reliably, on a
  Broadcom system. When the first read
  returns at least 32 bytes, the rest may come in whatever pieces: the device holds exactly the image, erased up to
  the next block, and the rest of it is unchanged. When the first read returns fewer (a pipe may do that), the same image is refused with
  status 1 and no device is touched.\<close>

theorem mtd_install:
  assumes dev: "erasable ops t cont size' es" "writable ops t cont size'" and open': "mtd_open ops (y_mtd y) dev = Some t"
    and cpu: "y_cpuinfo y = Some ls" "Some True \<in> set (map is_broadcom ls)"
    and image: "name \<noteq> ''-''" "y_files y name = Some (Some bs # f)" "readable f"
    and img: "img = bs @ file_data f" "image_valid img" "length img \<le> size'" and buf: "length buf = BUFSIZE"
  shows "if 32 \<le> length bs then
      \<exists>d'. mtd_main y ops buf [Reboot] [''write'', name, dev] d = Some (Inr True, d') \<and>
        cont d' = installed img es (cont d) \<and> image_valid (cont d')
    else mtd_main y ops buf [Reboot] [''write'', name, dev] d = Some (Inl (Exit 1), d)"
proof (cases "32 \<le> length bs")
  case long: True
  obtain p d1 where p: "readable (p_file p)" "p_buflen p = 32" "32 \<le> length (p_buf p)" "take 32 (p_buf p) @ file_data (p_file p) = img"
    and d1: "cont d1 = cont d"
    and run: "\<And>p' d'. mtd_write_dev ops (y_mtd y) dev p d1 = Some (Inr p', d') \<Longrightarrow>
       mtd_main y ops buf [Reboot] [''write'', name, dev] d = Some (Inr True, d')"
    using mtd_main_write [OF dev(1) open' cpu image(1,2) long image(3) img buf] by metis
  obtain p2 d' where d': "mtd_write_dev ops (y_mtd y) dev p d1 = Some (Inr p2, d')" "cont d' = installed img es (cont d1)"
    using mtd_write_dev_exact [OF dev open' p(1), of 32 img d1] p(2-4) img(3) by auto
  have "image_valid (cont d')" unfolding d'(2) installed_def by (rule image_valid_append [OF img(2)])
  then show ?thesis using run [OF d'(1)] d'(2) d1 long by auto
next
  case False
  then show ?thesis using mtd_main_short [OF dev(1) open' cpu image(1,2)] by simp
qed

text \<open>A device in memory.\<close>

definition mem_ops :: "nat \<Rightarrow> nat \<Rightarrow> u8 list mtd_ops" where
  "mem_ops n es = \<lparr>op_open = (\<lambda>t. True), op_info = (\<lambda>t. Some (of_nat n, of_nat es)), op_unlock = (\<lambda>d t a k. (0, d)),
     op_erase = (\<lambda>d t a k. (0, erased (mem_content n d) (unat a) (unat k))),
     op_write = (\<lambda>d t pos b. (int (length b), program (mem_content n d) pos b))\<rparr>"

lemma erasable_mem:
  assumes "0 < es" "es dvd n" "n + es < 2 ^ 32"
    "op_info ops = op_info (mem_ops n es)" "op_erase ops = op_erase (mem_ops n es)" "op_unlock ops = op_unlock (mem_ops n es)"
  shows "erasable ops t (mem_content n) n es"
proof -
  have u: "unat (of_nat a :: u32) = a" if "a + es \<le> n" for a using that assms(3) by (intro unat_of_nat_u32) simp
  have "unat (of_nat es :: u32) = es" using assms(3) by (intro unat_of_nat_u32) simp
  moreover have "mem_content n (erased (mem_content n d) a es) = erased (mem_content n d) a es" if "a + es \<le> n" for a d
    using that by (intro mem_content_id) (simp add: erased_nth length_mem)
  ultimately show ?thesis unfolding erasable_def assms(4-6) using assms(1-3) u by (simp add: mem_ops_def length_mem)
qed

lemma writable_mem: "writable (mem_ops n es) t (mem_content n) n"
proof -
  have "mem_content n (program (mem_content n d) pos b) = program (mem_content n d) pos b" if "pos + length b \<le> n" for d pos b
    using that by (intro mem_content_id) (simp add: program_nth length_mem)
  then show ?thesis by (simp add: writable_def mem_ops_def)
qed

definition demo_img :: "u8 list" where
  "demo_img = trx_header_bytes (demo_header demo_crc) @ demo_root"

lemma length_demo_img: "length demo_img = 0x20000"
  by (simp add: demo_img_def length_demo)

lemma demo_img_valid: "image_valid demo_img"
  using squashfs_imageD(1) [OF demo_image] by (simp add: demo_img_def demo_drop)

definition demo_sys :: sys where
  "demo_sys = \<lparr>y_cpuinfo = Some [''system type : Broadcom BCM947XX''], y_mtd = Some [(Some 1, ''mtd1: linux'')],
     y_stdin = [], y_files = (\<lambda>f. Some [Some demo_img])\<rparr>"

lemma demo_sys_facts: "y_cpuinfo demo_sys = Some [''system type : Broadcom BCM947XX'']" "y_files demo_sys f = Some [Some demo_img]"
  "Some True \<in> set (map is_broadcom [''system type : Broadcom BCM947XX''])" "readable []"
  "mtd_open (mem_ops n es) (y_mtd demo_sys) ''linux'' = Some (Mtd_dev 1)"
  "mtd_open (mem_ops n es\<lparr>op_write := w\<rparr>) (y_mtd demo_sys) ''linux'' = Some (Mtd_dev 1)"
  by (simp_all add: demo_sys_def is_broadcom_def readable_def mtd_open_def mem_ops_def)

lemma mtd_install_witness:
  "\<exists>d'. mtd_main demo_sys (mem_ops 0x20000 0x10000) (blank 0x4000) [Reboot] [''write'', ''linux.trx'', ''linux''] [] = Some (Inr True, d') \<and>
    mem_content 0x20000 d' = installed demo_img 0x10000 (mem_content 0x20000 []) \<and> image_valid (mem_content 0x20000 d')"
proof -
  have e: "erasable (mem_ops 0x20000 0x10000) (Mtd_dev 1) (mem_content 0x20000) 0x20000 0x10000"
    by (rule erasable_mem) simp_all
  show ?thesis
    using mtd_install [OF e writable_mem demo_sys_facts(5,1,3) _ demo_sys_facts(2) demo_sys_facts(4) _ demo_img_valid,
        of "''linux.trx''" "blank 0x4000" "[]"] by (simp add: length_demo_img)
qed

text \<open>When every write to the device fails, the tool still erases it, reports success and reboots.\<close>

theorem mtd_write_errors_lost:
  assumes dev: "erasable ops t cont size' es" and fails: "\<And>d pos b. op_write ops d t pos b = (- 1, d)"
    and open': "mtd_open ops (y_mtd y) dev = Some t"
    and cpu: "y_cpuinfo y = Some ls" "Some True \<in> set (map is_broadcom ls)"
    and image: "name \<noteq> ''-''" "y_files y name = Some (Some bs # f)" "32 \<le> length bs" "readable f"
    and img: "img = bs @ file_data f" "image_valid img" "length img \<le> size'" and buf: "length buf = BUFSIZE"
  shows "\<exists>d'. mtd_main y ops buf [Reboot] [''write'', name, dev] d = Some (Inr True, d') \<and>
    cont d' = erased (cont d) 0 (round_to es (length img))"
proof -
  obtain p d1 where p: "readable (p_file p)" "p_buflen p = int 32" "32 \<le> length (p_buf p)" "take 32 (p_buf p) @ file_data (p_file p) = img"
    and d1: "cont d1 = cont d"
    and run: "\<And>p' d'. mtd_write_dev ops (y_mtd y) dev p d1 = Some (Inr p', d') \<Longrightarrow>
       mtd_main y ops buf [Reboot] [''write'', name, dev] d = Some (Inr True, d')"
    using mtd_main_write [OF dev open' cpu image img buf] by (metis of_nat_numeral)
  have start: "drop 0 img = take 32 (p_buf p) @ file_data (p_file p)" "cont d1 = erased (cont d) 0 (round_to es 0)"
    using p(4) d1 by (simp_all add: round_to_def)
  have k: "32 < BUFSIZE" by simp
  from write_loop_lost [OF dev fails erasableD(5) [OF dev] p(1-3) k start(1) le0 img(3) start(2)]
  obtain p2 d' where "write_loop ops t (of_nat es) 0 0 0 p d1 = Some (Inr p2, d')"
    "cont d' = erased (cont d) 0 (round_to es (length img))" by (auto simp: round_to_def)
  then show ?thesis using run erasableD(4) [OF dev] open' by (auto simp: mtd_write_dev_def)
qed


lemma mtd_write_errors_lost_witness:
  "\<exists>d'. mtd_main demo_sys (mem_ops 0x20000 0x10000\<lparr>op_write := \<lambda>d t pos b. (- 1, d)\<rparr>) (blank 0x4000) [Reboot]
      [''write'', ''linux.trx'', ''linux''] [] = Some (Inr True, d') \<and>
    mem_content 0x20000 d' = erased (mem_content 0x20000 []) 0 0x20000"
proof -
  have e: "erasable (mem_ops 0x20000 0x10000\<lparr>op_write := \<lambda>d t pos b. (- 1, d)\<rparr>) (Mtd_dev 1) (mem_content 0x20000) 0x20000 0x10000"
    by (rule erasable_mem) simp_all
  have w: "op_write (mem_ops 0x20000 0x10000\<lparr>op_write := \<lambda>d t pos b. (- 1, d)\<rparr>) d (Mtd_dev 1) pos b = (- 1, d)" for d pos b
    by simp
  have "round_to 0x10000 (length demo_img) = 0x20000" unfolding length_demo_img by (simp add: round_to_def)
  moreover have "demo_img = demo_img @ file_data []" "length demo_img \<le> 0x20000" "32 \<le> length demo_img" "length (blank 0x4000) = BUFSIZE"
    "''linux.trx'' \<noteq> ''-''" by (simp_all add: length_demo_img)
  ultimately show ?thesis
    using mtd_write_errors_lost [OF e w demo_sys_facts(6,1,3) _ demo_sys_facts(2) _ demo_sys_facts(4) _ demo_img_valid,
        of "''linux.trx''" "blank 0x4000" "[]"] by simp
qed

end
