(* ===== verification/Firmware.thy ===== *)
theory Firmware
  imports MtdTool
begin

text \<open>
  From the image builder to the start of the board: what \<open>trx\<close> builds, \<open>mtd\<close> accepts and writes, and the flash driver
  finds at the next start.
\<close>

section \<open>The image\<close>

lemma trx_main_valid:
  assumes "list_all plain opts" "layout opts HDR = (fs, e)" "fs \<noteq> []" "length fs \<le> 3" "e < 0x5A0000"
  obtains img where "trx_main junk opts = Inr img" "image_valid img" "th_len (trx_header_of img) = of_nat (length img)"
    "length img = round_to 0x1000 e"
    "\<And>j. j < length fs \<Longrightarrow> th_offsets (trx_header_of img) ! j = of_nat (fst (fs ! j)) \<and>
       take (length (snd (fs ! j))) (drop (fst (fs ! j)) img) = snd (fs ! j)"
proof -
  obtain img where i: "trx_main junk opts = Inr img" "length img = round_to 0x1000 e" "le32 img 0 = TRX_MAGIC"
    "le32 img 4 = of_nat (length img)" "le32 img 8 = crc_ref 0xFFFFFFFF (drop 12 img)"
    and offs: "\<And>j. j < length fs \<Longrightarrow> le32 img (16 + 4 * j) = of_nat (fst (fs ! j)) \<and>
       take (length (snd (fs ! j))) (drop (fst (fs ! j)) img) = snd (fs ! j)"
    using trx_main_image(1) [OF assms, of junk] by blast
  have "HDR \<le> e" using layout_ge [OF assms(2)] .
  moreover have "round_to 0x1000 e < e + 0x1000" by (rule round_to_bounds(2)) simp
  ultimately have len: "28 \<le> length img" "length img < 2 ^ 32" using i(2) round_to_ge [of e "0x1000"] assms(5) by simp_all
  have "unat (of_nat (length img) :: u32) = length img" using len(2) by (rule unat_of_nat_u32)
  then have "image_valid img"
    using i len by (simp add: image_valid_def Let_def trx_header_of_def)
  moreover have "th_offsets (trx_header_of img) ! j = le32 img (16 + 4 * j)" if "j < length fs" for j
  proof -
    have "j = 0 \<or> j = 1 \<or> j = 2" using that assms(4) by auto
    then show ?thesis by (auto simp: trx_header_of_def)
  qed
  ultimately show thesis
    using i offs by (intro that [of img]) (simp_all add: trx_header_of_def)
qed

text \<open>C31: Up to three files with alignments and positions give an image with magic number, length, checksum, and every file
  at its recorded offset.\<close>

theorem trx_image:
  assumes "list_all plain opts" "layout opts HDR = (fs, e)" "fs \<noteq> []" "length fs \<le> 3" "e < 0x5A0000"
  shows "\<exists>img. trx_main junk opts = Inr img \<and> image_valid img \<and> length img = round_to 0x1000 e \<and>
    th_len (trx_header_of img) = of_nat (length img) \<and>
    (\<forall>j < length fs. th_offsets (trx_header_of img) ! j = of_nat (fst (fs ! j)) \<and>
       take (length (snd (fs ! j))) (drop (fst (fs ! j)) img) = snd (fs ! j))"
  using trx_main_valid [OF assms, of junk] by metis

lemma trx_image_witness:
  "\<exists>img. trx_main (\<lambda>i. 0xA5) [In_file (Some [1, 2, 3, 4, 5]), Align_to (Some 32), In_file (Some [9])] = Inr img \<and>
     image_valid img \<and> length img = 0x1000 \<and> th_offsets (trx_header_of img) ! 0 = 28 \<and> th_offsets (trx_header_of img) ! 1 = 64 \<and>
     take 5 (drop 28 img) = [1, 2, 3, 4, 5] \<and> take 1 (drop 64 img) = [9]"
proof -
  have p: "list_all plain [In_file (Some [1, 2, 3, 4, 5]), Align_to (Some 32), In_file (Some [9])]"
    by (auto intro!: exI [of _ 5])
  have l: "layout [In_file (Some [1, 2, 3, 4, 5]), Align_to (Some 32), In_file (Some [9])] HDR = ([(28, [1, 2, 3, 4, 5]), (64, [9])], 68)"
    by (simp add: up4_def round_to_def)
  obtain img where i: "trx_main (\<lambda>i. 0xA5) [In_file (Some [1, 2, 3, 4, 5]), Align_to (Some 32), In_file (Some [9])] = Inr img"
    "image_valid img" "length img = round_to 0x1000 68"
    and f: "\<forall>j < length [(28 :: nat, [1, 2, 3, 4, 5 :: u8]), (64, [9])].
      th_offsets (trx_header_of img) ! j = of_nat (fst ([(28 :: nat, [1, 2, 3, 4, 5 :: u8]), (64, [9])] ! j)) \<and>
      take (length (snd ([(28 :: nat, [1, 2, 3, 4, 5 :: u8]), (64, [9])] ! j))) (drop (fst ([(28 :: nat, [1, 2, 3, 4, 5 :: u8]), (64, [9])] ! j)) img) =
        snd ([(28 :: nat, [1, 2, 3, 4, 5 :: u8]), (64, [9])] ! j)"
    using trx_image [OF p l, of "\<lambda>i. 0xA5"] by auto
  have five: "Suc (Suc (Suc (Suc (Suc 0)))) = 5" by simp
  from f [rule_format, of 0] f [rule_format, of 1] i show ?thesis by (simp add: round_to_def five)
qed

section \<open>In the flash\<close>

lemma image_in_flash:
  assumes opts: "list_all plain opts" "layout opts HDR = ([(p1, f1), (p2, f2), (p3, sq)], e)" "e < 0x5A0000"
    and img: "trx_main junk opts = Inr img" and sq: "le32 sq 0 = SQUASHFS_MAGIC" "67 \<le> length sq" "used = unat (bytes_used sq)" "0 < used"
    and c: "c = pre @ img @ post" "length pre = off"
    and fits: "off + mtd_erasesize m \<le> mtd_size m" "off + p3 + 512 \<le> mtd_size m"
      "round_to (mtd_erasesize m) (off + p3 + used) + 512 \<le> mtd_size m"
  shows "squashfs_image m c off (off + p3) used" "le32 (drop off c) 0 = TRX_MAGIC"
proof -
  let ?fs = "[(p1, f1), (p2, f2), (p3, sq)]"
  have fs: "?fs \<noteq> []" "length ?fs \<le> 3" by simp_all
  obtain img' where i': "trx_main junk opts = Inr img'" "image_valid img'" "th_len (trx_header_of img') = of_nat (length img')"
    "length img' = round_to 0x1000 e"
    and f: "\<And>j. j < length ?fs \<Longrightarrow> th_offsets (trx_header_of img') ! j = of_nat (fst (?fs ! j)) \<and>
       take (length (snd (?fs ! j))) (drop (fst (?fs ! j)) img') = snd (?fs ! j)"
    using trx_main_valid [OF opts(1,2) fs opts(3)] by metis
  have eq: "img' = img" using i'(1) img by simp
  note i = i'(2-4) [unfolded eq] and f = f [unfolded eq]
  have p3: "HDR \<le> p3" "p3 + length sq \<le> e" using trx_main_image(2) [OF opts(1,2) fs opts(3)] by auto
  have le: "e \<le> length img" "length img < e + 0x1000" unfolding i(3) by (rule round_to_ge) (rule round_to_bounds(2), simp)
  have off: "th_offsets (trx_header_of img) ! 2 = of_nat p3" "take (length sq) (drop p3 img) = sq"
    using f [of 2] by simp_all
  have u: "unat (of_nat p3 :: u32) = p3" "unat (of_nat (length img) :: u32) = length img"
    using p3 le opts(3) by (intro unat_of_nat_u32; simp)+
  have d: "drop off c = img @ post" using c by simp
  have valid: "image_valid (drop off c)" unfolding d by (rule image_valid_append [OF i(1)])
  have "28 \<le> length img" using le p3 by simp
  then have hd: "trx_header_of (drop off c) = trx_header_of img" unfolding d by (simp add: trx_header_of_def le32_prefix)
  have "(of_nat p3 :: u32) \<noteq> 0" using u(1) p3(1) by auto
  then have ro: "root_offset (trx_header_of (drop off c)) = of_nat p3" using off(1) by (simp add: hd root_offset_def)
  have ne: "th_len (trx_header_of (drop off c)) \<noteq> of_nat p3"
    unfolding hd i(2) using u le p3 sq(2) by (metis add_le_same_cancel1 le_trans le_zero_eq not_numeral_le_zero)
  have "drop (off + p3) c = drop p3 img @ post"
  proof -
    have "drop (off + p3) c = drop p3 (drop off c)" by (simp add: add.commute)
    then show ?thesis unfolding d using p3 le by simp
  qed
  also have "drop p3 img = sq @ drop (length sq) (drop p3 img)" using off(2) by (metis append_take_drop_id)
  finally have root: "drop (off + p3) c = sq @ drop (length sq) (drop p3 img) @ post" by simp
  have s: "le32 (drop (off + p3) c) 0 = SQUASHFS_MAGIC" "bytes_used (drop (off + p3) c) = bytes_used sq"
    unfolding root bytes_used_def using sq(1,2) by (simp_all add: le32_prefix)
  show "squashfs_image m c off (off + p3) used"
    unfolding squashfs_image_def Let_def ro u(1) using valid ne s sq(3,4) fits p3(1) by simp
  show "le32 (drop off c) 0 = TRX_MAGIC" using valid by (simp add: image_valid_def Let_def trx_header_of_def)
qed


lemma scan_in_flash:
  assumes r: "reliable m content" and off: "off = 0x20000 + k * blocksize m" "off + 28 \<le> mtd_size m"
    and magic: "le32 (drop off (content fl)) 0 = TRX_MAGIC"
    and none: "\<And>i. i < k \<Longrightarrow> le32 (drop (0x20000 + i * blocksize m) (content fl)) 0 \<noteq> TRX_MAGIC"
  shows "\<exists>b. trx_scan m fl 28 (mtd_size m) 0x20000 = Some (off, b)"
proof -
  have "\<not> image_at m fl 28 (0x20000 + i * blocksize m)" if "i < k" for i
  proof -
    have "i * blocksize m \<le> k * blocksize m" using that by simp
    then have "0x20000 + i * blocksize m + 28 \<le> mtd_size m" using off by linarith
    from image_at_reliable [OF r this] none [OF that] show ?thesis by simp
  qed
  moreover have "image_at m fl 28 off" using image_at_reliable [OF r off(2)] magic by simp
  ultimately show ?thesis
    using trx_scan_found [where k = k and m = m and fl = fl and n = 28 and off = "0x20000"] off by auto
qed

text \<open>C4: A firmware of three files that trx has built, placed in the flash, is found by the flash driver at its start,
  which registers the partitions with the root file system where its file is.\<close>

theorem firmware_boots:
  fixes m :: "'f mtd"
  assumes opts: "list_all plain opts" "layout opts HDR = ([(p1, f1), (p2, f2), (p3, sq)], e)" "e < 0x5A0000"
    and img: "trx_main junk opts = Inr img" and sq: "le32 sq 0 = SQUASHFS_MAGIC" "67 \<le> length sq" "used = unat (bytes_used sq)" "0 < used"
    and flash: "reliable m content" "geometry m" "content fl = pre @ img @ post" "length pre = off"
    and place: "off = 0x20000 + k * blocksize m" "off \<noteq> 384 * 1024"
      "\<And>i. i < k \<Longrightarrow> le32 (drop (0x20000 + i * blocksize m) (content fl)) 0 \<noteq> TRX_MAGIC"
    and root: "root = off + p3" "end' = round_to (mtd_erasesize m) (root + used)" "nv = mtd_size m - ROUNDUP NVRAM_SPACE (mtd_erasesize m)"
      "end' \<le> nv" "root + 512 \<le> mtd_size m" "off + mtd_erasesize m \<le> mtd_size m" "end' + 512 \<le> mtd_size m"
    and board: "bd_crc32_le bd = crc_ref" "fst (flash_window (bd_cc bd) (fd_map (flash_loaded :: 'f flash_drv))) = PFLASH"
      "\<And>a n. bd_ioremap bd a n \<noteq> 0" "\<And>mi. bd_probe bd mi = Some m" "\<And>ps. bd_add_parts bd ps = 0"
  shows "\<exists>s' fl'. init_bcm947xx_map bd flash_loaded fl = Some (0, s', fl') \<and>
    fd_added s' = Some [named_part ''cfe'' 0 off, named_part ''linux'' off (nv - off), named_part ''rootfs'' root (end' - root),
      named_part ''nvram'' nv (mtd_size m - nv), named_part ''rootfs_data'' end' (nv - end')]"
proof -
  note f = image_in_flash [OF opts img sq flash(3,4) root(6)]
  have i: "squashfs_image m (content fl) off root used" and magic: "le32 (drop off (content fl)) 0 = TRX_MAGIC"
    using f root by simp_all
  have "off + 28 \<le> mtd_size m" using root(1,5) squashfs_imageD(3) [OF i] by simp
  then obtain b where "trx_scan m fl 28 (mtd_size m) 0x20000 = Some (off, b)"
    using scan_in_flash [OF flash(1) place(1) _ magic place(3)] by blast
  from init_partitions [OF flash(1,2) i this root(2,3,4) place(2) board] show ?thesis .
qed


text \<open>A loader and a kernel of one byte each, and the first 67 bytes of a super block.\<close>

definition demo_sq :: "u8 list" where
  "demo_sq = htol32 SQUASHFS_MAGIC @ blank 59 @ htol32 100"

lemma demo_sq_facts: "length demo_sq = 67" "le32 demo_sq 0 = SQUASHFS_MAGIC" "unat (bytes_used demo_sq) = 100"
proof -
  show "length demo_sq = 67" "le32 demo_sq 0 = SQUASHFS_MAGIC" by (simp_all add: demo_sq_def le32_htol32)
  have eq: "demo_sq = (htol32 SQUASHFS_MAGIC @ blank 59) @ htol32 100 @ []" by (simp add: demo_sq_def)
  have "length (htol32 SQUASHFS_MAGIC @ blank 59) = 63" by simp
  from le32_append [OF this, of "htol32 100 @ []"] show "unat (bytes_used demo_sq) = 100"
    unfolding bytes_used_def eq le32_htol32 by simp
qed

definition demo_opts :: "trx_opt list" where
  "demo_opts = [In_file (Some [1]), In_file (Some [2]), In_file (Some demo_sq)]"

lemma demo_opts_facts: "list_all plain demo_opts" "layout demo_opts HDR = ([(28, [1]), (32, [2]), (36, demo_sq)], 104)"
  by (simp_all add: demo_opts_def up4_def demo_sq_facts)

lemma firmware_boots_witness:
  "\<exists>img s' fl'. trx_main (\<lambda>i. 0) demo_opts = Inr img \<and>
    init_bcm947xx_map demo_board flash_loaded (blank 0x20000 @ img @ blank 0x1F000) = Some (0, s', fl') \<and>
    fd_added s' = Some [named_part ''cfe'' 0 0x20000, named_part ''linux'' 0x20000 0x10000, named_part ''rootfs'' 0x20024 0xFFDC,
      named_part ''nvram'' 0x30000 0x10000, named_part ''rootfs_data'' 0x30000 0]"
proof -
  have fs: "[(28, [1]), (32, [2]), (36, demo_sq)] \<noteq> []" "length [(28 :: nat, [1]), (32, [2]), (36, demo_sq)] \<le> 3" by simp_all
  obtain img where img: "trx_main (\<lambda>i. 0) demo_opts = Inr img" "length img = round_to 0x1000 104"
    by (rule trx_main_valid [OF demo_opts_facts fs, of "\<lambda>i. 0"]) simp_all
  have m: "mtd_size (mem_mtd 0x40000 0x10000) = 0x40000" "mtd_erasesize (mem_mtd 0x40000 0x10000) = 0x10000"
    by (simp_all add: mem_mtd_def)
  have b: "bd_crc32_le demo_board = crc_ref" "bd_ioremap demo_board x n \<noteq> 0" "bd_probe demo_board mi = Some (mem_mtd 0x40000 0x10000)"
    "bd_add_parts demo_board ps = 0" "fst (flash_window (bd_cc demo_board) (fd_map (flash_loaded :: u8 list flash_drv))) = PFLASH" for x n mi ps
    by (simp_all add: demo_board_def flash_window_def)
  have c: "mem_content 0x40000 (blank 0x20000 @ img @ blank 0x1F000) = blank 0x20000 @ img @ blank 0x1F000"
    by (rule mem_content_id) (simp add: img(2) round_to_def)
  have e: "(0x30000 :: nat) = round_to (mtd_erasesize (mem_mtd 0x40000 0x10000)) (0x20024 + 100)" unfolding m by (simp add: round_to_def)
  have nv: "0x30000 = mtd_size (mem_mtd 0x40000 0x10000) - ROUNDUP NVRAM_SPACE (mtd_erasesize (mem_mtd 0x40000 0x10000))"
    unfolding m by (simp add: ROUNDUP_def)
  have k: "(0x20000 :: nat) = 0x20000 + 0 * blocksize (mem_mtd 0x40000 0x10000)" by simp
  have "\<exists>s' fl'. init_bcm947xx_map demo_board flash_loaded (blank 0x20000 @ img @ blank 0x1F000) = Some (0, s', fl') \<and>
    fd_added s' = Some [named_part ''cfe'' 0 0x20000, named_part ''linux'' 0x20000 (0x30000 - 0x20000),
      named_part ''rootfs'' 0x20024 (0x30000 - 0x20024),
      named_part ''nvram'' 0x30000 (mtd_size (mem_mtd 0x40000 0x10000) - 0x30000), named_part ''rootfs_data'' 0x30000 (0x30000 - 0x30000)]"
    by (rule firmware_boots [OF demo_opts_facts _ img(1) demo_sq_facts(2) _ demo_sq_facts(3) [symmetric] _ demo_reliable demo_geometry c
          length_blank k _ _ _ e nv order_refl _ _ _ b(1,5,2,3,4)]) (simp_all add: m demo_sq_facts(1))
  then show ?thesis using img(1) by (simp add: m)
qed

end
