(* ===== verification/Decimal.thy ===== *)
theory Decimal
  imports NvramImage
begin

text \<open>
  Decimal numbers as \<open>printf\<close> writes them, reading them back, and string literals as bytes: what the models of text files
  and of \<open>/proc\<close> entries share.
\<close>

section \<open>Decimal numbers\<close>

fun dec :: "nat \<Rightarrow> cstr" where
  "dec n = (if n < 10 then [0x30 + of_nat n] else dec (n div 10) @ [0x30 + of_nat (n mod 10)])"

declare dec.simps [simp del]

definition is_digit :: "u8 \<Rightarrow> bool" where
  "is_digit c \<longleftrightarrow> 0x30 \<le> c \<and> c \<le> 0x39"

definition undec :: "cstr \<Rightarrow> nat" where
  "undec s = foldl (\<lambda>a c. a * 10 + unat (c - 0x30)) 0 s"

lemma digit_value: "n < 10 \<Longrightarrow> unat ((0x30 + of_nat n :: u8) - 0x30) = n"
  by (simp add: unsigned_of_nat take_bit_eq_mod)

lemma digit_is_digit: "n < 10 \<Longrightarrow> is_digit (0x30 + of_nat n)"
proof -
  assume "n < 10"
  then have "n = 0 \<or> n = 1 \<or> n = 2 \<or> n = 3 \<or> n = 4 \<or> n = 5 \<or> n = 6 \<or> n = 7 \<or> n = 8 \<or> n = 9" by auto
  then show ?thesis by (elim disjE) (simp_all add: is_digit_def)
qed

lemma dec_digits: "list_all is_digit (dec n)"
proof (induction n rule: dec.induct)
  case (1 n)
  then show ?case using digit_is_digit [of n] digit_is_digit [of "n mod 10"] by (subst dec.simps) auto
qed

lemma dec_nonempty: "dec n \<noteq> []"
  by (subst dec.simps) simp

lemma undec_dec: "undec (dec n) = n"
proof (induction n rule: dec.induct)
  case (1 n)
  show ?case
  proof (cases "n < 10")
    case False
    then have "undec (dec n) = undec (dec (n div 10)) * 10 + n mod 10"
      using digit_value [of "n mod 10"] by (subst dec.simps) (simp add: undec_def)
    then show ?thesis using 1 False by simp
  qed (use digit_value [of n] in \<open>subst dec.simps, simp add: undec_def\<close>)
qed

lemma dec_inject [simp]: "dec m = dec n \<longleftrightarrow> m = n"
  using undec_dec by metis

lemma length_dec: "n < 10 ^ Suc i \<Longrightarrow> length (dec n) \<le> Suc i"
proof (induction i arbitrary: n)
  case 0
  then show ?case by (subst dec.simps) simp
next
  case (Suc i)
  then have "n div 10 < 10 ^ Suc i" by (simp add: less_mult_imp_div_less)
  then have "length (dec (n div 10)) \<le> Suc i" by (rule Suc.IH)
  then show ?case by (subst dec.simps) simp
qed

section \<open>String literals\<close>

lemma inj_of_char: "(of_char c :: u8) = of_char d \<longleftrightarrow> c = d"
proof
  have *: "unat (of_char x :: u8) = of_char x" for x
  proof -
    have "(of_char x :: u8) = of_nat (of_char x)" by (rule of_nat_of_char [symmetric])
    moreover have "unat (of_nat (of_char x) :: u8) = of_char x" by (simp only: unsigned_of_nat) (simp add: take_bit_eq_mod)
    ultimately show ?thesis by simp
  qed
  assume "(of_char c :: u8) = of_char d"
  then have "(of_char c :: nat) = of_char d" using * by metis
  then show "c = d" by simp
qed simp

lemma cs_eq [simp]: "cs a = cs b \<longleftrightarrow> a = b"
proof (induction a arbitrary: b)
  case (Cons x a)
  then show ?case by (cases b) (simp_all add: cs_def inj_of_char)
qed (auto simp: cs_def)

lemma length_cs [simp]: "length (cs s) = length s"
  by (simp add: cs_def)

end
