(* ===== verification/KdbText.thy ===== *)
theory KdbText
  imports Decimal
begin

text \<open>
  The texts of the configuration database (\<open>package/webface/kdb.c\<close>): escaping names and values in the file, splitting a
  line at its equals sign, and wildcards. A C string is the list of its bytes without the NUL; \<open>char\<close> is signed. Reading
  past the NUL is \<open>None\<close>.
\<close>

section \<open>Escaping\<close>

abbreviation BSL :: u8 where "BSL \<equiv> 0x5C"
abbreviation STAR :: u8 where "STAR \<equiv> 0x2A"
abbreviation EQUALS :: u8 where "EQUALS \<equiv> 0x3D"
abbreviation NL :: u8 where "NL \<equiv> 0x0A"

text \<open>The digits of the signed character.\<close>

definition octal :: "u8 \<Rightarrow> cstr" where
  "octal c = [BSL, 0x30 + of_int (sint c div 64 mod 8), 0x30 + of_int (sint c div 8 mod 8), 0x30 + of_int (sint c mod 8)]"

text \<open>The branch for the bell character runs into the one for the backspace.\<close>

definition esc_char :: "u8 \<Rightarrow> cstr" where
  "esc_char c =
     (if c = 7 then [BSL, 0x61, BSL, 0x62]
      else if c = 8 then [BSL, 0x62]
      else if c = 12 then [BSL, 0x66]
      else if c = 10 then [BSL, 0x6E]
      else if c = 13 then [BSL, 0x72]
      else if c = 9 then [BSL, 0x74]
      else if c = 11 then [BSL, 0x76]
      else if c = BSL \<or> c = 0x22 \<or> c = 0x27 then [BSL, c]
      else if sint c \<le> 32 \<or> 127 \<le> sint c \<or> c = EQUALS \<or> c = 0x23 then octal c
      else [c])"

fun str_escape :: "cstr \<Rightarrow> cstr" where
  "str_escape [] = []"
| "str_escape (c # s) = esc_char c @ str_escape s"

definition is_octal :: "u8 \<Rightarrow> bool" where
  "is_octal c \<longleftrightarrow> 0x30 \<le> c \<and> c \<le> 0x37"

definition octal_value :: "cstr \<Rightarrow> u8" where
  "octal_value ds = foldl (\<lambda>q c. q * 8 + (c - 0x30)) 0 ds"

definition unesc_char :: "u8 \<Rightarrow> u8" where
  "unesc_char c =
     (if c = 0x61 then 7 else if c = 0x62 then 8 else if c = 0x66 then 12 else if c = 0x6E then 10
      else if c = 0x72 then 13 else if c = 0x74 then 9 else if c = 0x76 then 11 else c)"

function unescape_bytes :: "cstr \<Rightarrow> cstr option" where
  "unescape_bytes s =
     (case s of
        [] \<Rightarrow> Some []
      | c # s \<Rightarrow>
          if c \<noteq> BSL then map_option ((#) c) (unescape_bytes s)
          else
            (case s of
               [] \<Rightarrow> None
             | d # s' \<Rightarrow>
                 if is_octal d then
                   (let ds = takeWhile is_octal (take 3 s)
                    in map_option ((#) (octal_value ds)) (unescape_bytes (drop (length ds) s)))
                 else map_option ((#) (unesc_char d)) (unescape_bytes s')))"
  by pat_completeness auto
termination
  by (relation "measure length") auto

declare unescape_bytes.simps [simp del]

text \<open>The string ends at the first NUL that was written.\<close>

definition c_str :: "cstr \<Rightarrow> cstr" where
  "c_str b = takeWhile (\<lambda>c. c \<noteq> 0) b"

definition str_unescape :: "cstr \<Rightarrow> cstr option" where
  "str_unescape s = map_option c_str (unescape_bytes s)"

section \<open>Pairs\<close>

text \<open>\<open>parse_pair\<close>: \<open>None\<close> where it returns false.\<close>

definition parse_pair :: "cstr \<Rightarrow> (cstr \<times> cstr) option" where
  "parse_pair str =
     (if str = [] then None
      else
        (let s = (if last str = NL then butlast str else str); name = takeWhile (\<lambda>c. c \<noteq> EQUALS) s in
         if length name = length s \<or> name = [] then None else Some (name, drop (length name + 1) s)))"

section \<open>Wildcards\<close>

definition is_wildcarded :: "cstr \<Rightarrow> bool" where
  "is_wildcarded str \<longleftrightarrow> STAR \<in> set str"

function match_wildcard :: "cstr \<Rightarrow> cstr \<Rightarrow> bool" and match_star :: "cstr \<Rightarrow> cstr \<Rightarrow> bool" where
  "match_wildcard [] s = (s = [])"
| "match_wildcard (c # p) s =
     (if c = STAR then p = [] \<or> match_star p s
      else
        (let (c, p) = (if c = BSL \<and> p \<noteq> [] then (hd p, tl p) else (c, p))
         in s \<noteq> [] \<and> hd s = c \<and> match_wildcard p (tl s)))"
| "match_star p [] = False"
| "match_star p (d # s) = (p \<noteq> [] \<and> d = hd p \<and> match_wildcard p (d # s) \<or> match_star p s)"
  by pat_completeness auto
termination
  by (relation "measures [\<lambda>x. case x of Inl (p, s) \<Rightarrow> length p | Inr (p, s) \<Rightarrow> length p,
      \<lambda>x. case x of Inl (p, s) \<Rightarrow> length s | Inr (p, s) \<Rightarrow> length s, \<lambda>x. case x of Inl _ \<Rightarrow> 0 | Inr _ \<Rightarrow> 1]")
    (auto split: if_splits)

section \<open>Escaping and back\<close>

lemma is_octal_digit: "0 \<le> i \<Longrightarrow> i < 8 \<Longrightarrow> is_octal (0x30 + of_int i) \<and> (0x30 + of_int i :: u8) - 0x30 = of_int i"
proof -
  assume i: "0 \<le> i" "i < 8"
  then have "i = 0 \<or> i = 1 \<or> i = 2 \<or> i = 3 \<or> i = 4 \<or> i = 5 \<or> i = 6 \<or> i = 7" by auto
  then show ?thesis by (auto simp: is_octal_def)
qed

lemma octal_value_octal:
  "octal_value [0x30 + of_int (sint c div 64 mod 8), 0x30 + of_int (sint c div 8 mod 8), 0x30 + of_int (sint c mod 8)] = (c :: u8)"
proof -
  let ?p = "sint c"
  have e: "?p mod 512 = (?p div 64 mod 8) * 64 + (?p div 8 mod 8) * 8 + ?p mod 8"
  proof -
    have "?p mod 512 = 64 * (?p div 64 mod 8) + ?p mod 64" using zmod_zmult2_eq [of 8 ?p 64] by simp
    moreover have "?p mod 64 = 8 * (?p div 8 mod 8) + ?p mod 8" using zmod_zmult2_eq [of 8 ?p 8] by simp
    ultimately show ?thesis by simp
  qed
  have "octal_value [0x30 + of_int (?p div 64 mod 8), 0x30 + of_int (?p div 8 mod 8), 0x30 + of_int (?p mod 8)] =
      of_int ((?p div 64 mod 8) * 64 + (?p div 8 mod 8) * 8 + ?p mod 8)"
    by (simp add: octal_value_def algebra_simps)
  also have "\<dots> = of_int (?p mod 512)" by (simp only: e)
  also have "\<dots> = c"
  proof -
    have "(of_int (?p - ?p mod 512) :: u8) = 0"
    proof -
      have "?p - ?p mod 512 = 512 * (?p div 512)" by (simp add: minus_mod_eq_mult_div)
      moreover have "(of_int 512 :: u8) = 0" by code_simp
      ultimately show ?thesis by (simp only: of_int_mult mult_zero_left)
    qed
    then have "(of_int (?p mod 512) :: u8) = of_int ?p" by simp
    then show ?thesis by simp
  qed
  finally show ?thesis .
qed

lemma unescape_plain: "c \<noteq> BSL \<Longrightarrow> unescape_bytes (c # s) = map_option ((#) c) (unescape_bytes s)"
  by (subst unescape_bytes.simps) simp

lemma unescape_letter: "\<not> is_octal d \<Longrightarrow> unescape_bytes (BSL # d # s) = map_option ((#) (unesc_char d)) (unescape_bytes s)"
  by (subst unescape_bytes.simps) simp

lemma unescape_octal: "unescape_bytes (octal c @ s) = map_option ((#) c) (unescape_bytes s)"
proof -
  let ?d = "\<lambda>x. 0x30 + of_int (x mod 8) :: u8"
  have o: "is_octal (?d x)" for x using is_octal_digit [of "x mod 8"] by simp
  show ?thesis
    unfolding octal_def using o octal_value_octal [of c]
    by (subst unescape_bytes.simps) (simp add: Let_def numeral_3_eq_3)
qed

lemma unescape_esc_char: "c \<noteq> 7 \<Longrightarrow> unescape_bytes (esc_char c @ s) = map_option ((#) c) (unescape_bytes s)"
  by (auto simp: esc_char_def unescape_plain unescape_letter unescape_octal is_octal_def unesc_char_def)

text \<open>What is read again for a character: itself, but two for the bell.\<close>

definition reread :: "u8 \<Rightarrow> cstr" where
  "reread c = (if c = 7 then [7, 8] else [c])"

lemma unescape_Nil: "unescape_bytes [] = Some []"
  by (subst unescape_bytes.simps) simp

lemma unescape_esc_reread: "unescape_bytes (esc_char c @ s) = map_option ((@) (reread c)) (unescape_bytes s)"
proof (cases "c = 7")
  case True
  then have "(@) (reread c) = (\<lambda>x. 7 # 8 # x)" by (simp add: reread_def fun_eq_iff)
  then show ?thesis using True
    by (simp add: esc_char_def unescape_letter is_octal_def unesc_char_def option.map_comp comp_def)
next
  case False
  then have "(@) (reread c) = (#) c" by (simp add: reread_def fun_eq_iff)
  then show ?thesis using unescape_esc_char [OF False] by simp
qed

lemma unescape_reread: "unescape_bytes (str_escape s) = Some (concat (List.map reread s))"
  by (induction s) (simp_all add: unescape_Nil unescape_esc_reread)

lemma unescape_escape: "7 \<notin> set s \<Longrightarrow> unescape_bytes (str_escape s) = Some s"
proof -
  assume "7 \<notin> set s"
  then have "concat (List.map reread s) = s" by (induction s) (auto simp: reread_def)
  then show ?thesis by (simp add: unescape_reread)
qed

text \<open>What an escaped text is free of, so that a line can be split again.\<close>

definition plain_char :: "u8 \<Rightarrow> bool" where
  "plain_char c \<longleftrightarrow> c \<noteq> 0 \<and> c \<noteq> NL \<and> c \<noteq> EQUALS"

lemma plain_octal: "plain_char (0x30 + of_int (x mod 8))"
proof -
  have "0 \<le> x mod 8" "x mod 8 < 8" by simp_all
  then have "x mod 8 = 0 \<or> x mod 8 = 1 \<or> x mod 8 = 2 \<or> x mod 8 = 3 \<or> x mod 8 = 4 \<or> x mod 8 = 5 \<or> x mod 8 = 6 \<or> x mod 8 = 7" by auto
  then show ?thesis by (auto simp: plain_char_def)
qed

lemma plain_esc_char: "list_all plain_char (esc_char c)"
proof -
  have "list_all plain_char (octal c)"
    unfolding octal_def using plain_octal [of "sint c div 64"] plain_octal [of "sint c div 8"] plain_octal [of "sint c"]
    by (simp add: plain_char_def)
  then show ?thesis by (auto simp: esc_char_def plain_char_def)
qed

lemma plain_escape: "list_all plain_char (str_escape s)"
  by (induction s) (simp_all add: plain_esc_char)

lemma length_esc_char: "1 \<le> length (esc_char c) \<and> length (esc_char c) \<le> 4"
  by (simp add: esc_char_def octal_def)

lemma length_escape: "length s \<le> length (str_escape s) \<and> length (str_escape s) \<le> 4 * length s"
proof (induction s)
  case (Cons c s)
  then show ?case using length_esc_char [of c] by simp
qed simp

lemma escape_Nil: "str_escape s = [] \<longleftrightarrow> s = []"
  using length_escape [of s] by auto

lemma c_str_id: "0 \<notin> set s \<Longrightarrow> c_str s = s"
  by (auto simp: c_str_def)

section \<open>Lines\<close>

text \<open>A line of escaped texts is split at its equals sign.\<close>

lemma takeWhile_eq_append: "c \<notin> set a \<Longrightarrow> takeWhile (\<lambda>x. x \<noteq> c) (a @ c # b) = a"
  by (induction a) auto

lemma parse_pair_line:
  assumes "name \<noteq> []" "EQUALS \<notin> set name"
  shows "parse_pair (name @ [EQUALS] @ val @ [NL]) = Some (name, val)"
  using assms by (simp add: parse_pair_def Let_def takeWhile_eq_append butlast_append)

lemma parse_pair_arg:
  assumes "name \<noteq> []" "EQUALS \<notin> set name" "val = [] \<or> last val \<noteq> NL"
  shows "parse_pair (name @ [EQUALS] @ val) = Some (name, val)"
  using assms by (auto simp: parse_pair_def Let_def takeWhile_eq_append)

section \<open>Wildcards and patterns\<close>

datatype token = Anything | Literal u8

fun tokens :: "cstr \<Rightarrow> token list" where
  "tokens [] = []"
| "tokens [c] = [if c = STAR then Anything else Literal c]"
| "tokens (c # d # p) =
     (if c = STAR then Anything # tokens (d # p) else if c = BSL then Literal d # tokens p else Literal c # tokens (d # p))"

fun matches :: "token list \<Rightarrow> cstr \<Rightarrow> bool" where
  "matches [] s = (s = [])"
| "matches (Literal c # ts) s = (s \<noteq> [] \<and> hd s = c \<and> matches ts (tl s))"
| "matches (Anything # ts) s = (\<exists>n \<le> length s. matches ts (drop n s))"

text \<open>Patterns in which an asterisk is followed by a character that stands for itself.\<close>

fun simple_pattern :: "cstr \<Rightarrow> bool" where
  "simple_pattern [] = True"
| "simple_pattern [c] = True"
| "simple_pattern (c # d # p) =
     (if c = STAR then d \<noteq> STAR \<and> d \<noteq> BSL \<and> simple_pattern (d # p)
      else if c = BSL then simple_pattern p else simple_pattern (d # p))"

lemma match_star_iff: "p \<noteq> [] \<Longrightarrow> match_star p s \<longleftrightarrow> (\<exists>n < length s. s ! n = hd p \<and> match_wildcard p (drop n s))"
proof (induction s)
  case (Cons d s)
  show ?case
  proof
    assume "match_star p (d # s)"
    then consider "d = hd p" "match_wildcard p (d # s)" | "match_star p s" by auto
    then show "\<exists>n < length (d # s). (d # s) ! n = hd p \<and> match_wildcard p (drop n (d # s))"
    proof cases
      case 2
      then obtain n where "n < length s" "s ! n = hd p" "match_wildcard p (drop n s)" using Cons by auto
      then show ?thesis by (intro exI [of _ "Suc n"]) simp
    qed (intro exI [of _ 0], simp)
  next
    assume "\<exists>n < length (d # s). (d # s) ! n = hd p \<and> match_wildcard p (drop n (d # s))"
    then obtain n where "n < length (d # s)" "(d # s) ! n = hd p" "match_wildcard p (drop n (d # s))" by blast
    then show "match_star p (d # s)" using Cons by (cases n) auto
  qed
qed simp

lemma matches_literal: "tokens p = Literal c # ts \<Longrightarrow> matches (tokens p) s \<Longrightarrow> s \<noteq> [] \<and> hd s = c"
  by simp

lemma tokens_hd: "d \<noteq> STAR \<Longrightarrow> d \<noteq> BSL \<Longrightarrow> \<exists>ts. tokens (d # p) = Literal d # ts"
  by (cases p) auto

lemma match_wildcard_sound: "match_wildcard p s \<Longrightarrow> matches (tokens p) s"
proof (induction p arbitrary: s rule: tokens.induct)
  case (2 c)
  then show ?case by (auto split: if_splits simp: Let_def intro: exI [of _ "length s"])
next
  case (3 c d p)
  consider "c = STAR" | "c = BSL" | "c \<noteq> STAR" "c \<noteq> BSL" by blast
  then show ?case
  proof cases
    case 1
    then have "match_star (d # p) s" using 3(4) by simp
    then obtain n where "n < length s" "match_wildcard (d # p) (drop n s)" using match_star_iff [of "d # p" s] by auto
    then show ?thesis using 3(1) [OF 1] 1 by (auto intro: exI [of _ n] less_imp_le)
  qed (use 3 in \<open>auto simp: Let_def\<close>)
qed simp

lemma match_wildcard_complete: "simple_pattern p \<Longrightarrow> matches (tokens p) s \<Longrightarrow> match_wildcard p s"
proof (induction p arbitrary: s rule: tokens.induct)
  case (2 c)
  then show ?case by (auto split: if_splits simp: Let_def)
next
  case (3 c d p)
  consider "c = STAR" | "c = BSL" | "c \<noteq> STAR" "c \<noteq> BSL" by blast
  then show ?case
  proof cases
    case 1
    then have d: "d \<noteq> STAR" "d \<noteq> BSL" "simple_pattern (d # p)" using 3(4) by auto
    obtain n where n: "n \<le> length s" "matches (tokens (d # p)) (drop n s)" using 3(5) 1 by auto
    obtain ts where "tokens (d # p) = Literal d # ts" using tokens_hd [OF d(1,2)] by blast
    from matches_literal [OF this n(2)] have "drop n s \<noteq> []" "hd (drop n s) = d" by auto
    then have "n < length s" "s ! n = d" by (simp_all add: hd_drop_conv_nth)
    moreover have "match_wildcard (d # p) (drop n s)" using 3(1) [OF 1 d(3) n(2)] .
    ultimately have "match_star (d # p) s" using match_star_iff [of "d # p" s] by auto
    then show ?thesis using 1 by simp
  next
    case 2
    then have "s \<noteq> []" "hd s = d" "match_wildcard p (tl s)" using 3 by auto
    then show ?thesis using 2 by simp
  next
    case ord: 3
    then have "s \<noteq> []" "hd s = c" "match_wildcard (d # p) (tl s)" using 3(3) [of "tl s"] 3(4,5) by auto
    then show ?thesis using ord by simp
  qed
qed simp

text \<open>C35: The wildcard match agrees with the meaning of the pattern, an asterisk for any text and a character behind a
  backslash for itself, for every pattern in which an asterisk is followed by an ordinary character or nothing; for the
  other patterns it accepts only texts of that meaning.\<close>

theorem match_wildcard_meaning:
  "(match_wildcard p s \<longrightarrow> matches (tokens p) s) \<and> (simple_pattern p \<longrightarrow> match_wildcard p s = matches (tokens p) s)"
  using match_wildcard_sound match_wildcard_complete by blast

theorem match_wildcard_meaning_witness:
  "match_wildcard (cs ''sys*valid'') (cs ''sys_eth0_valid'') \<and> matches (tokens (cs ''sys*valid'')) (cs ''sys_eth0_valid'') \<and>
   simple_pattern (cs ''sys*valid'') \<and> \<not> simple_pattern (cs ''a**'') \<and> \<not> match_wildcard (cs ''a**'') (cs ''ab'')"
proof -
  have m: "match_wildcard (cs ''sys*valid'') (cs ''sys_eth0_valid'')" "simple_pattern (cs ''sys*valid'')"
    "\<not> simple_pattern (cs ''a**'')" "\<not> match_wildcard (cs ''a**'') (cs ''ab'')"
    by (simp_all add: cs_def)
  moreover have "matches (tokens (cs ''sys*valid'')) (cs ''sys_eth0_valid'')" using match_wildcard_meaning m(1) by blast
  ultimately show ?thesis by blast
qed

text \<open>C34: What is escaped and read again is the text itself, with a backspace behind every bell character, for every text
  without NUL; the escaped text holds no NUL, newline or equals sign, so a line of the file can be split again.\<close>

theorem str_escape_roundtrip:
  "unescape_bytes (str_escape s) = Some (concat (List.map reread s)) \<and> list_all plain_char (str_escape s) \<and>
    length (str_escape s) \<le> 4 * length s"
  using unescape_reread plain_escape length_escape by auto

end
