(* ===== verification/Kdb.thy ===== *)
theory Kdb
  imports KdbText "HOL-Library.List_Lexorder"
begin

text \<open>
  The configuration database (\<open>package/webface/kdb.c\<close>): a table of names and values in a text file, read at the first
  use, changed by the commands of one call, and written back sorted at its end. Files are a map from names to contents;
  an open file is its name with what is still to be read. What uninitialised arrays hold is part of the environment;
  \<open>None\<close> is an access outside an array or through a null pointer.
\<close>

section \<open>State\<close>

abbreviation MAX_LINES :: nat where "MAX_LINES \<equiv> 2048"
abbreviation MAX_LINE_SIZE :: nat where "MAX_LINE_SIZE \<equiv> 1024"
abbreviation READ_BUFFER_LEN :: nat where "READ_BUFFER_LEN \<equiv> 32768"

text \<open>\<open>st_path\<close> is \<open>None\<close> for the standard input and output.\<close>

record stream =
  st_path :: "cstr option"
  st_rest :: cstr

type_synonym db_record = "cstr \<times> cstr"

record kdb =
  k_filename :: cstr
  k_file :: "stream option"
  k_lines :: "db_record list"
  k_quotation :: nat
  k_local :: bool
  k_export :: bool
  k_count :: bool
  k_need_write :: bool
  k_already_read :: bool
  k_files :: "cstr \<rightharpoonup> cstr"
  k_stdin :: "cstr option"
  k_out :: "cstr list"
  k_out_open :: bool

text \<open>The environment of the process: its variables, whether it runs as root, which files it can create, the name
  \<open>tmpnam\<close> gives, what a shell command does to the files (and its exit status); \<open>v_head\<close> and \<open>v_prefix\<close> are the bytes
  that the arrays \<open>head_buf\<close> and \<open>prefix_name\<close> hold before they are written.\<close>

record kdb_env =
  v_getenv :: "cstr \<Rightarrow> cstr option"
  v_root :: bool
  v_creat :: "cstr \<Rightarrow> bool"
  v_tmpnam :: "cstr option"
  v_system :: "cstr \<Rightarrow> (cstr \<rightharpoonup> cstr) \<Rightarrow> int \<times> (cstr \<rightharpoonup> cstr)"
  v_head :: "kdb \<Rightarrow> cstr"
  v_prefix :: "kdb \<Rightarrow> cstr"

text \<open>The static variables are cleared; the files and the standard input are the system's.\<close>

definition kdbinit :: "(cstr \<rightharpoonup> cstr) \<Rightarrow> cstr option \<Rightarrow> kdb" where
  "kdbinit files input = \<lparr>k_filename = [], k_file = None, k_lines = [], k_quotation = 0, k_local = False,
     k_export = False, k_count = False, k_need_write = False, k_already_read = False, k_files = files, k_stdin = input,
     k_out = [], k_out_open = True\<rparr>"

section \<open>The file\<close>

definition set_dbfilename :: "cstr \<Rightarrow> kdb \<Rightarrow> kdb option" where
  "set_dbfilename f k = (if length f < 255 then Some (k\<lparr>k_filename := f\<rparr>) else None)"

definition get_dbfilename :: "kdb_env \<Rightarrow> kdb \<Rightarrow> kdb option" where
  "get_dbfilename env k =
     (if k_filename k \<noteq> [] then Some k
      else
        (case v_getenv env (cs ''KDB'') of
           Some f \<Rightarrow> set_dbfilename f k
         | None \<Rightarrow>
             if v_root env then Some (k\<lparr>k_filename := cs ''/etc/kdb''\<rparr>)
             else
               (let home = (case v_getenv env (cs ''HOME'') of None \<Rightarrow> cs ''(null)'' | Some h \<Rightarrow> h)
                in set_dbfilename (home @ cs ''/.kdb'') k)))"

definition db_open :: "kdb_env \<Rightarrow> kdb \<Rightarrow> (bool \<times> kdb) option" where
  "db_open env k =
     (if k_file k \<noteq> None then Some (True, k)
      else
        (case get_dbfilename env k of
           None \<Rightarrow> None
         | Some k \<Rightarrow>
             (case k_files k (k_filename k) of
                None \<Rightarrow> Some (False, k)
              | Some c \<Rightarrow> Some (True, k\<lparr>k_file := Some \<lparr>st_path = Some (k_filename k), st_rest = c\<rparr>\<rparr>))))"

definition db_close :: "kdb \<Rightarrow> kdb" where
  "db_close k = k\<lparr>k_file := None\<rparr>"

text \<open>\<open>fgets\<close>: a line with its newline, or as much as fits.\<close>

definition line_length :: "nat \<Rightarrow> cstr \<Rightarrow> nat" where
  "line_length n s = min (n - 1) (length (takeWhile (\<lambda>c. c \<noteq> NL) s) + 1)"

definition fgets :: "nat \<Rightarrow> cstr \<Rightarrow> (cstr \<times> cstr) option" where
  "fgets n s = (if s = [] then None else Some (take (line_length n s) s, drop (line_length n s) s))"

definition HEADER_LINE :: cstr where "HEADER_LINE = cs ''KDB'' @ [NL]"
definition FOOTER_LINE :: cstr where "FOOTER_LINE = cs ''KDB END'' @ [NL]"

definition parse_header :: "cstr \<Rightarrow> bool" where
  "parse_header header \<longleftrightarrow> take 3 HEADER_LINE = take 3 header"

definition db_add :: "cstr \<Rightarrow> cstr \<Rightarrow> db_record list \<Rightarrow> bool \<times> db_record list" where
  "db_add name val ls = (if MAX_LINES \<le> length ls then (False, ls) else (True, ls @ [(name, val)]))"

definition db_unserialize :: "cstr \<Rightarrow> db_record list \<Rightarrow> (bool \<times> db_record list) option" where
  "db_unserialize buf ls =
     (case parse_pair buf of
        None \<Rightarrow> Some (False, ls)
      | Some (name, val) \<Rightarrow>
          (case (str_unescape name, str_unescape val) of
             (Some name, Some val) \<Rightarrow> Some (db_add name val ls)
           | _ \<Rightarrow> None))"

definition db_serialize :: "db_record \<Rightarrow> cstr" where
  "db_serialize r = str_escape (fst r) @ [EQUALS] @ str_escape (snd r) @ [NL]"

text \<open>The loop over the lines: the result, the records and what is left of the file.\<close>

function read_lines :: "cstr \<Rightarrow> db_record list \<Rightarrow> (bool \<times> db_record list \<times> cstr) option" where
  "read_lines s ls =
     (case fgets READ_BUFFER_LEN s of
        None \<Rightarrow> Some (True, ls, s)
      | Some (line, s) \<Rightarrow>
          if c_str line = FOOTER_LINE then Some (True, ls, s)
          else
            (case db_unserialize (c_str line) ls of
               None \<Rightarrow> None
             | Some (False, ls) \<Rightarrow> Some (False, ls, s)
             | Some (True, ls) \<Rightarrow> read_lines s ls))"
  by pat_completeness auto
termination
  by (relation "measure (length o fst)") (auto simp: fgets_def line_length_def split: if_splits)

declare read_lines.simps [simp del]

definition db_read :: "kdb_env \<Rightarrow> kdb \<Rightarrow> (bool \<times> kdb) option" where
  "db_read env k =
     (if k_already_read k then Some (True, k)
      else
        (case db_open env k of
           None \<Rightarrow> None
         | Some (ok, k) \<Rightarrow>
             (case k_file k of
                None \<Rightarrow> Some (False, k)
              | Some st \<Rightarrow>
                  (let (head, rest) = (case fgets 15 (st_rest st) of None \<Rightarrow> (c_str (v_head env k), []) | Some (l, r) \<Rightarrow> (c_str l, r)) in
                   if \<not> parse_header head then Some (False, k\<lparr>k_file := Some (st\<lparr>st_rest := rest\<rparr>)\<rparr>)
                   else
                     (case read_lines rest (k_lines k) of
                        None \<Rightarrow> None
                      | Some (ok, ls, rest) \<Rightarrow>
                          Some (ok, k\<lparr>k_lines := ls, k_already_read := ok, k_file := Some (st\<lparr>st_rest := rest\<rparr>)\<rparr>))))))"

text \<open>Output goes to the standard output as long as it is open.\<close>

definition put :: "cstr \<Rightarrow> kdb \<Rightarrow> kdb" where
  "put s k = (if k_out_open k then k\<lparr>k_out := k_out k @ [s]\<rparr> else k)"

definition db_sort :: "db_record list \<Rightarrow> db_record list" where
  "db_sort ls = sort_key fst ls"

definition kdb_text :: "db_record list \<Rightarrow> cstr" where
  "kdb_text ls = HEADER_LINE @ concat (List.map db_serialize ls) @ FOOTER_LINE"

text \<open>The text is put together in a buffer, with a NUL behind it.\<close>

definition db_write :: "kdb \<Rightarrow> (bool \<times> kdb) option" where
  "db_write k =
     (case k_file k of
        None \<Rightarrow> None
      | Some st \<Rightarrow>
          (let ls = db_sort (k_lines k); text = kdb_text ls; k = k\<lparr>k_lines := ls\<rparr> in
           if READ_BUFFER_LEN < length text + 1 then None
           else
             (case st_path st of
                None \<Rightarrow> Some (True, put text k)
              | Some f \<Rightarrow> Some (True, k\<lparr>k_files := (k_files k)(f \<mapsto> text), k_file := Some (st\<lparr>st_rest := []\<rparr>)\<rparr>))))"

section \<open>The table\<close>

definition find_key :: "cstr \<Rightarrow> db_record list \<Rightarrow> nat option" where
  "find_key key ls = List.find (\<lambda>i. key = fst (ls ! i)) [0..<length ls]"

definition db_set_index :: "nat \<Rightarrow> cstr option \<Rightarrow> cstr option \<Rightarrow> kdb \<Rightarrow> bool \<times> kdb" where
  "db_set_index i name val k =
     (if length (k_lines k) \<le> i then (False, k)
      else
        (let r = k_lines k ! i; r = (case name of None \<Rightarrow> r | Some n \<Rightarrow> (n, snd r)); r = (case val of None \<Rightarrow> r | Some v \<Rightarrow> (fst r, v))
         in (True, k\<lparr>k_lines := (k_lines k)[i := r], k_need_write := True\<rparr>)))"

definition db_set :: "kdb_env \<Rightarrow> cstr \<Rightarrow> cstr \<Rightarrow> kdb \<Rightarrow> (bool \<times> kdb) option" where
  "db_set env name val k =
     (case db_read env k of
        None \<Rightarrow> None
      | Some (False, k) \<Rightarrow> Some (False, k)
      | Some (True, k) \<Rightarrow>
          (let (result, k) = (case find_key name (k_lines k) of
                                Some i \<Rightarrow> db_set_index i (Some name) (Some val) k
                              | None \<Rightarrow> (case db_add name val (k_lines k) of (ok, ls) \<Rightarrow> (ok, k\<lparr>k_lines := ls\<rparr>)))
           in Some (result, if result then k\<lparr>k_need_write := True\<rparr> else k)))"

definition db_del_index :: "nat \<Rightarrow> kdb \<Rightarrow> kdb" where
  "db_del_index i k =
     (if length (k_lines k) \<le> i then k
      else k\<lparr>k_lines := take i (k_lines k) @ drop (Suc i) (k_lines k), k_need_write := True\<rparr>)"

section \<open>Output\<close>

definition print_pair :: "cstr option \<Rightarrow> cstr \<Rightarrow> kdb \<Rightarrow> kdb" where
  "print_pair name val k =
     (let prefix = (if k_local k then cs ''local '' else if k_export k then cs ''export '' else []);
          q = (if k_quotation k = 0 then [] else if k_quotation k = 1 then [0x22] else [0x27]);
          line = (case name of None \<Rightarrow> q @ val @ q | Some n \<Rightarrow> prefix @ n @ [EQUALS] @ q @ val @ q)
      in put (line @ [NL]) k)"

definition print_count :: "nat \<Rightarrow> kdb \<Rightarrow> kdb" where
  "print_count n k = (if k_count k then print_pair (Some (cs ''kdb_lines_count'')) (dec n) k else k)"

end
