(* ===== verification/KdbCmd.thy ===== *)
theory KdbCmd
  imports Kdb "HOL-Library.Monad_Syntax"
begin

text \<open>
  The commands of the configuration database (\<open>package/webface/kdb.c\<close>) and the main loop over them. \<open>None\<close> is an access
  outside an array, through a null pointer, or to an array that was never written.
\<close>

section \<open>Wildcard commands\<close>

abbreviation UNDERSCORE :: u8 where "UNDERSCORE \<equiv> 0x5F"
abbreviation COLON :: u8 where "COLON \<equiv> 0x3A"

definition ENV_STRING :: cstr where "ENV_STRING = cs ''%ENV''"

text \<open>\<open>WILDCARD_LOOP\<close> visits the records whose name matches.\<close>

definition matching :: "cstr \<Rightarrow> db_record list \<Rightarrow> db_record list" where
  "matching pat ls = filter (\<lambda>r. match_wildcard pat (fst r)) ls"

definition get :: "kdb_env \<Rightarrow> cstr \<Rightarrow> kdb \<Rightarrow> (bool \<times> kdb) option" where
  "get env key k = do {
     (_, k) \<leftarrow> db_read env k;
     Some (True, fold (\<lambda>r. print_pair None (snd r)) (matching key (k_lines k)) k) }"

definition isset :: "kdb_env \<Rightarrow> cstr \<Rightarrow> kdb \<Rightarrow> (bool \<times> kdb) option" where
  "isset env key k = do {
     (_, k) \<leftarrow> db_read env k;
     Some (find_key key (k_lines k) \<noteq> None, k) }"

definition list_cmd :: "kdb_env \<Rightarrow> cstr \<Rightarrow> kdb \<Rightarrow> (bool \<times> kdb) option" where
  "list_cmd env key k =
     (let wkey = (if key \<noteq> [] then key else [STAR]) in do {
        (_, k) \<leftarrow> db_read env k;
        let rs = matching wkey (k_lines k);
        Some (True, print_count (length rs) (fold (\<lambda>r. print_pair (Some (fst r)) (snd r)) rs k)) })"

definition keylist :: "kdb_env \<Rightarrow> cstr \<Rightarrow> kdb \<Rightarrow> (bool \<times> kdb) option" where
  "keylist env key k = do {
     (_, k) \<leftarrow> db_read env k;
     let rs = matching key (k_lines k);
     Some (True, print_count (length rs) (fold (\<lambda>r. print_pair None (fst r)) rs k)) }"

definition sublist_cmd :: "kdb_env \<Rightarrow> cstr \<Rightarrow> kdb \<Rightarrow> (bool \<times> kdb) option" where
  "sublist_cmd env key k = do {
     (_, k) \<leftarrow> db_read env k;
     let len = length key;
     let rs = filter (\<lambda>r. len \<noteq> 0 \<and> take len (fst r) = key) (k_lines k);
     Some (True, print_count (length rs) (fold (\<lambda>r. print_pair (Some (drop len (fst r))) (snd r)) rs k)) }"

text \<open>\<open>cut_at\<close> ends a text at the first occurrence of another (\<open>strstr\<close>).\<close>

fun cut_at :: "cstr \<Rightarrow> cstr \<Rightarrow> cstr" where
  "cut_at sub [] = []"
| "cut_at sub (c # s) = (if take (length sub) (c # s) = sub then [] else c # cut_at sub s)"

fun sskeylist_loop :: "cstr \<Rightarrow> cstr \<Rightarrow> cstr \<Rightarrow> db_record list \<Rightarrow> kdb \<Rightarrow> kdb option" where
  "sskeylist_loop pat cut_prefix cut_suffix [] k = Some k"
| "sskeylist_loop pat cut_prefix cut_suffix (r # rs) k =
     (let len = length cut_prefix; strbuf = take (MAX_LINE_SIZE - 1) (fst r @ [EQUALS] @ snd r) in
      if len \<noteq> 0 \<and> match_wildcard pat strbuf \<and> take len (fst r) = cut_prefix then
        (let s = drop len (fst r) in
         if MAX_LINE_SIZE \<le> length s then None
         else sskeylist_loop pat cut_prefix cut_suffix rs (print_pair None (cut_at cut_suffix s) k))
      else sskeylist_loop pat cut_prefix cut_suffix rs k)"

definition sskeylist :: "kdb_env \<Rightarrow> cstr \<Rightarrow> cstr \<Rightarrow> cstr \<Rightarrow> kdb \<Rightarrow> (bool \<times> kdb) option" where
  "sskeylist env pat cut_prefix cut_suffix k = do {
     (_, k) \<leftarrow> db_read env k;
     k \<leftarrow> sskeylist_loop pat cut_prefix cut_suffix (k_lines k) k;
     Some (True, k) }"

section \<open>Setting, deleting, renaming\<close>

text \<open>The value of the environment variable for \<open>%ENV\<close>, the prefix \<open>FORM_\<close> taken off the name.\<close>

definition form_name :: "cstr \<Rightarrow> cstr" where
  "form_name name = (if take 5 name = cs ''FORM_'' then drop 5 name else name)"

definition env_value :: "kdb_env \<Rightarrow> cstr \<Rightarrow> cstr" where
  "env_value env name = (case v_getenv env name of None \<Rightarrow> [] | Some v \<Rightarrow> v)"

definition set_matching :: "cstr \<Rightarrow> cstr \<Rightarrow> kdb \<Rightarrow> kdb" where
  "set_matching iname ivalue k =
     fold (\<lambda>i k. if match_wildcard iname (fst (k_lines k ! i)) then snd (db_set_index i None (Some ivalue) k) else k)
       [0..<length (k_lines k)] k"

definition set_cmd :: "kdb_env \<Rightarrow> cstr \<Rightarrow> kdb \<Rightarrow> (bool \<times> kdb) option" where
  "set_cmd env str k = do {
     (_, k) \<leftarrow> db_read env k;
     case parse_pair str of
       None \<Rightarrow> Some (False, k)
     | Some (iname, ivalue) \<Rightarrow>
         if ivalue = ENV_STRING then (let name = form_name iname in db_set env name (env_value env name) k)
         else if is_wildcarded iname then Some (True, set_matching iname ivalue k)
         else db_set env iname ivalue k }"

definition first_match :: "cstr \<Rightarrow> db_record list \<Rightarrow> nat option" where
  "first_match str ls = List.find (\<lambda>i. match_wildcard str (fst (ls ! i))) [0..<length ls]"

lemma first_match_less: "first_match str ls = Some i \<Longrightarrow> i < length ls"
  by (auto simp: first_match_def find_Some_iff)

text \<open>The outer loop runs until the index is the number of records.\<close>

function del_loop :: "cstr \<Rightarrow> nat \<Rightarrow> kdb \<Rightarrow> kdb" where
  "del_loop str i k =
     (if i = length (k_lines k) then k
      else (case first_match str (k_lines k) of None \<Rightarrow> k | Some j \<Rightarrow> del_loop str j (db_del_index j k)))"
  by pat_completeness auto
termination
  by (relation "measure (\<lambda>(str, i, k). length (k_lines k))") (auto simp: db_del_index_def dest: first_match_less)

declare del_loop.simps [simp del]

definition del :: "kdb_env \<Rightarrow> cstr \<Rightarrow> kdb \<Rightarrow> (bool \<times> kdb) option" where
  "del env str k = do {
     (_, k) \<leftarrow> db_read env k;
     Some (True, del_loop str 0 k) }"

text \<open>\<open>find_key\<close> of a null pointer returns \<open>false\<close>, which is the index 0.\<close>

definition find_key_ptr :: "cstr option \<Rightarrow> db_record list \<Rightarrow> nat option" where
  "find_key_ptr key ls = (case key of None \<Rightarrow> Some 0 | Some key \<Rightarrow> find_key key ls)"

definition rename :: "kdb_env \<Rightarrow> cstr \<Rightarrow> cstr option \<Rightarrow> kdb \<Rightarrow> (bool \<times> kdb) option" where
  "rename env oldkey newkey k = do {
     (_, k) \<leftarrow> db_read env k;
     let k = (case find_key_ptr newkey (k_lines k) of None \<Rightarrow> k | Some i \<Rightarrow> db_del_index i k);
     case find_key oldkey (k_lines k) of
       None \<Rightarrow> Some (False, k)
     | Some i \<Rightarrow> Some (True, snd (db_set_index i newkey None k)\<lparr>k_need_write := True\<rparr>) }"

end
