(* ===== verification/KdbRun.thy ===== *)
theory KdbRun
  imports KdbCmd
begin

text \<open>
  The list commands, the commands on whole files and the main loop of the configuration database
  (\<open>package/webface/kdb.c\<close>). A list is the records \<open>key_0\<close>, \<open>key_1\<close>, \dots
\<close>

section \<open>Lists\<close>

text \<open>A text up to its last underscore (\<open>strrchr\<close>).\<close>

definition upto_last :: "cstr \<Rightarrow> cstr" where
  "upto_last s = rev (dropWhile (\<lambda>c. c \<noteq> UNDERSCORE) (rev s))"

text \<open>\<open>snprintf\<close> of a name and a number into an array of 1024 bytes.\<close>

definition item_name :: "cstr \<Rightarrow> nat \<Rightarrow> cstr" where
  "item_name name i = take (MAX_LINE_SIZE - 1) (name @ dec i)"

lemma find_key_less: "find_key key ls = Some i \<Longrightarrow> i < length ls"
  by (auto simp: find_key_def find_Some_iff)

function listrm_loop :: "cstr \<Rightarrow> cstr \<Rightarrow> nat \<Rightarrow> db_record list \<Rightarrow> kdb \<Rightarrow> (db_record list \<times> kdb) option" where
  "listrm_loop prefix_name key i local_lines k =
     (case find_key (item_name prefix_name i) (k_lines k) of
        None \<Rightarrow> Some (local_lines, k)
      | Some index \<Rightarrow>
          let (name, val) = k_lines k ! index; k = db_del_index index k in
          if name \<noteq> key then
            if MAX_LINE_SIZE \<le> length name \<or> MAX_LINE_SIZE \<le> length val \<or> upto_last name = [] then None
            else listrm_loop prefix_name key (Suc i)
                   (local_lines @ [(item_name (upto_last name) (length local_lines), val)]) k
          else listrm_loop prefix_name key (Suc i) local_lines k)"
  by pat_completeness auto
termination
  by (relation "measure (\<lambda>(p, key, i, l, k). length (k_lines k))")
    (auto simp: db_del_index_def Let_def dest: find_key_less)

declare listrm_loop.simps [simp del]

fun db_set_all :: "kdb_env \<Rightarrow> db_record list \<Rightarrow> kdb \<Rightarrow> kdb option" where
  "db_set_all env [] k = Some k"
| "db_set_all env (r # rs) k = do { (_, k) \<leftarrow> db_set env (fst r) (snd r) k; db_set_all env rs k }"

text \<open>\<open>strncpy\<close> copies the characters up to the underscore and no NUL: the name ends where the array next has one.\<close>

definition prefix_string :: "kdb_env \<Rightarrow> cstr \<Rightarrow> kdb \<Rightarrow> cstr option" where
  "prefix_string env key k =
     (let a = upto_last key @ drop (length (upto_last key)) (v_prefix env k)
      in if 0 \<in> set (take MAX_LINE_SIZE a) then Some (c_str a) else None)"

definition listrm :: "kdb_env \<Rightarrow> cstr \<Rightarrow> kdb \<Rightarrow> (bool \<times> kdb) option" where
  "listrm env key k = do {
     (_, k) \<leftarrow> db_read env k;
     if upto_last key = [] then Some (False, k)
     else do {
       prefix_name \<leftarrow> prefix_string env key k;
       (local_lines, k) \<leftarrow> listrm_loop prefix_name key 0 [] k;
       k \<leftarrow> db_set_all env local_lines k;
       Some (True, k) } }"

definition list_getnextindex :: "cstr \<Rightarrow> db_record list \<Rightarrow> nat option" where
  "list_getnextindex name ls = List.find (\<lambda>i. find_key (item_name name i) ls = None) [0..<MAX_LINES]"

text \<open>The name to add under, with \<open>-1\<close> when every index is taken.\<close>

definition next_name :: "cstr \<Rightarrow> db_record list \<Rightarrow> cstr" where
  "next_name name ls =
     (case list_getnextindex name ls of
        Some i \<Rightarrow> item_name name i
      | None \<Rightarrow> take (MAX_LINE_SIZE - 1) (name @ cs ''-1''))"

definition listadd :: "kdb_env \<Rightarrow> cstr \<Rightarrow> kdb \<Rightarrow> (bool \<times> kdb) option" where
  "listadd env str k = do {
     (_, k) \<leftarrow> db_read env k;
     (name, val) \<leftarrow> parse_pair str;
     if last name \<noteq> UNDERSCORE then Some (False, k)
     else (let s = next_name name (k_lines k);
               v = (if val = ENV_STRING then env_value env (form_name name) else val);
               (ok, ls) = db_add s v (k_lines k)
           in Some (ok, k\<lparr>k_lines := ls, k_need_write := True\<rparr>)) }"

section \<open>Whole files\<close>

definition createdb :: "kdb_env \<Rightarrow> cstr \<Rightarrow> kdb \<Rightarrow> (bool \<times> kdb) option" where
  "createdb env filename k = do {
     k \<leftarrow> (if filename \<noteq> [] then set_dbfilename filename k else Some k);
     k \<leftarrow> get_dbfilename env k;
     if \<not> v_creat env (k_filename k) then Some (False, k)
     else do {
       (_, k) \<leftarrow> db_open env (k\<lparr>k_files := (k_files k)(k_filename k \<mapsto> [])\<rparr>);
       Some (True, k\<lparr>k_need_write := True\<rparr>) } }"

definition std_name :: "cstr \<Rightarrow> bool" where
  "std_name filename \<longleftrightarrow> filename = [] \<or> filename = cs ''-''"

text \<open>The file replaces the open database file, and is closed after reading; the database is opened again.\<close>

definition import_cmd :: "kdb_env \<Rightarrow> cstr \<Rightarrow> kdb \<Rightarrow> (bool \<times> kdb) option" where
  "import_cmd env filename k =
     (case (if std_name filename then k_stdin k else k_files k filename) of
        None \<Rightarrow> if std_name filename then None else Some (False, k)
      | Some content \<Rightarrow>
          (let path = (if std_name filename then None else Some filename) in do {
             (ok, k) \<leftarrow> db_read env (k\<lparr>k_file := Some \<lparr>st_path = path, st_rest = content\<rparr>, k_already_read := False\<rparr>);
             if \<not> ok then Some (False, k)
             else do {
               (_, k) \<leftarrow> db_open env (k\<lparr>k_file := None, k_stdin := (if path = None then None else k_stdin k)\<rparr>);
               (_, k) \<leftarrow> db_write k;
               Some (True, k\<lparr>k_need_write := True\<rparr>) } }))"

text \<open>The file is truncated before the database is read.\<close>

definition export_cmd :: "kdb_env \<Rightarrow> cstr \<Rightarrow> kdb \<Rightarrow> (bool \<times> kdb) option" where
  "export_cmd env filename k =
     (if std_name filename then
        if \<not> k_out_open k then None
        else do {
          (_, k) \<leftarrow> db_read env k;
          let tmp = k_file k;
          (_, k) \<leftarrow> db_write (k\<lparr>k_file := Some \<lparr>st_path = None, st_rest = []\<rparr>\<rparr>);
          Some (True, k\<lparr>k_file := tmp, k_out_open := False\<rparr>) }
      else if \<not> v_creat env filename then Some (False, k)
      else do {
        (_, k) \<leftarrow> db_read env (k\<lparr>k_files := (k_files k)(filename \<mapsto> [])\<rparr>);
        let tmp = k_file k;
        (_, k) \<leftarrow> db_write (k\<lparr>k_file := Some \<lparr>st_path = Some filename, st_rest = []\<rparr>\<rparr>);
        Some (True, k\<lparr>k_file := tmp\<rparr>) })"

definition editor_name :: "kdb_env \<Rightarrow> cstr" where
  "editor_name env = (case v_getenv env (cs ''EDITOR'') of None \<Rightarrow> cs ''vi'' | Some e \<Rightarrow> e)"

text \<open>\<open>edit\<close> runs this program's \<open>export\<close> and an editor by the shell, then imports the result.\<close>

definition edit :: "kdb_env \<Rightarrow> cstr \<Rightarrow> kdb \<Rightarrow> (bool \<times> kdb) option" where
  "edit env me k =
     (case v_tmpnam env of
        None \<Rightarrow> Some (False, k)
      | Some tmpname \<Rightarrow>
          let editor = editor_name env @ cs '' '' @ tmpname; buf = me @ cs '' export > '' @ tmpname in
          if 255 \<le> length editor \<or> 255 \<le> length buf then None
          else
            (let (status, files) = v_system env buf (k_files k); k = k\<lparr>k_files := files\<rparr> in
             if status \<noteq> 0 then Some (False, k)
             else
               (let (status, files) = v_system env editor files; k = k\<lparr>k_files := files\<rparr> in
                if status \<noteq> 0 then Some (True, k)
                else do {
                  (result, k) \<leftarrow> import_cmd env tmpname k;
                  Some (result, k\<lparr>k_files := (k_files k)(tmpname := None)\<rparr>) })))"

section \<open>The main loop\<close>

datatype kdb_opt = OptF cstr | OptQ | OptL | OptE | OptC | OptBad

fun set_opt :: "kdb_opt \<Rightarrow> kdb \<Rightarrow> kdb option" where
  "set_opt (OptF f) k = set_dbfilename f k"
| "set_opt OptQ k = Some (k\<lparr>k_quotation := k_quotation k + 1\<rparr>)"
| "set_opt OptL k = Some (k\<lparr>k_local := True\<rparr>)"
| "set_opt OptE k = Some (k\<lparr>k_export := True\<rparr>)"
| "set_opt OptC k = Some (k\<lparr>k_count := True\<rparr>)"
| "set_opt OptBad k = Some k"

fun set_opts :: "kdb_opt list \<Rightarrow> kdb \<Rightarrow> kdb option" where
  "set_opts [] k = Some k"
| "set_opts (x # xs) k = do { k \<leftarrow> set_opt x k; set_opts xs k }"

text \<open>One command: its result (that of the command before for an unknown one), and the arguments it leaves.\<close>

definition kdb_step :: "kdb_env \<Rightarrow> cstr \<Rightarrow> cstr \<Rightarrow> cstr \<Rightarrow> cstr list \<Rightarrow> bool \<Rightarrow> kdb \<Rightarrow> (bool \<times> cstr list \<times> kdb) option" where
  "kdb_step env me cmd param rest result k =
     (let ret = (\<lambda>rest r. map_option (\<lambda>(ok, k). (ok, rest, k)) r) in
      if cmd = cs ''list'' \<or> cmd = cs ''ls'' then ret rest (list_cmd env param k)
      else if cmd = cs ''set'' then ret rest (set_cmd env param k)
      else if cmd = cs ''get'' then ret rest (get env param k)
      else if cmd = cs ''sls'' \<or> cmd = cs ''slist'' \<or> cmd = cs ''sublist'' then ret rest (sublist_cmd env param k)
      else if cmd = cs ''listrm'' \<or> cmd = cs ''lrm'' then ret rest (listrm env param k)
      else if cmd = cs ''listadd'' \<or> cmd = cs ''ladd'' then ret rest (listadd env param k)
      else if cmd = cs ''isset'' then ret rest (isset env param k)
      else if cmd = cs ''klist'' \<or> cmd = cs ''kls'' then ret rest (keylist env param k)
      else if cmd = cs ''sskls'' then
        if 2 \<le> length rest then ret (drop 2 rest) (sskeylist env param (rest ! 0) (rest ! 1) k)
        else Some (False, rest, k)
      else if cmd = cs ''del'' \<or> cmd = cs ''rm'' then ret rest (del env param k)
      else if cmd = cs ''edit'' then ret rest (edit env me k)
      else if cmd = cs ''rename'' \<or> cmd = cs ''rn'' then
        ret (drop 1 rest) (rename env param (if rest = [] then None else Some (hd rest)) k)
      else if cmd = cs ''create'' then ret rest (createdb env param k)
      else if cmd = cs ''import'' then ret rest (import_cmd env param k)
      else if cmd = cs ''export'' then ret rest (export_cmd env param k)
      else Some (result, rest, k))"

lemma kdb_step_length: "kdb_step env me cmd param rest result k = Some (ok, rest', k') \<Longrightarrow> length rest' \<le> length rest"
  by (auto simp: kdb_step_def Let_def split: if_splits)

text \<open>The parameter of a command is the next argument, unless that is the colon.\<close>

definition take_param :: "cstr list \<Rightarrow> cstr \<times> cstr list" where
  "take_param args = (if args = [] \<or> hd args = [COLON] then ([], args) else (hd args, tl args))"

lemma take_param_length: "(p, rest) = take_param args \<Longrightarrow> length rest \<le> length args"
  by (auto simp: take_param_def split: if_splits)

function kdb_loop :: "kdb_env \<Rightarrow> cstr \<Rightarrow> cstr list \<Rightarrow> bool \<Rightarrow> kdb \<Rightarrow> (bool \<times> kdb) option" where
  "kdb_loop env me [] result k = Some (result, k)"
| "kdb_loop env me (cmd # args) result k =
     (if MAX_LINE_SIZE \<le> length cmd then None
      else if cmd \<noteq> [] \<and> hd cmd = COLON then kdb_loop env me args result k
      else
        (let (param, rest) = take_param args in
         if MAX_LINE_SIZE \<le> length param then None
         else
           (case kdb_step env me cmd param rest result k of
              None \<Rightarrow> None
            | Some (ok, rest, k) \<Rightarrow> if \<not> ok then Some (False, k) else kdb_loop env me (drop 1 rest) True k)))"
  by pat_completeness auto
termination
  by (relation "measure (\<lambda>(env, me, args, r, k). length args)")
    (auto dest!: kdb_step_length dest: take_param_length)

declare kdb_loop.simps [simp del]

text \<open>The whole call: the options as \<open>getopt\<close> gives them, the other arguments, the files and the standard input.
  The result is false where the exit status is 1.\<close>

definition kdb_main :: "kdb_env \<Rightarrow> cstr \<Rightarrow> kdb_opt list \<Rightarrow> cstr list \<Rightarrow> (cstr \<rightharpoonup> cstr) \<Rightarrow> cstr option \<Rightarrow> (bool \<times> kdb) option" where
  "kdb_main env me opts args files input = do {
     k \<leftarrow> set_opts opts (kdbinit files input);
     (result, k) \<leftarrow> kdb_loop env me args False k;
     k \<leftarrow> (if result \<and> k_need_write k then map_option snd (db_write k) else Some k);
     Some (result, db_close k) }"

end
