(* ===== verification/KdbStore.thy ===== *)
theory KdbStore
  imports KdbRun
begin

text \<open>
  Storing and loading the configuration database: the text that is written is read back as the same records, sorted by
  name, and a whole call of the program that sets or deletes changes the table in the file the way it changes a map.
\<close>

section \<open>Reading what was written\<close>

text \<open>A C string that has no bell character, which is not written the way it is read.\<close>

definition text_ok :: "cstr \<Rightarrow> bool" where
  "text_ok s \<longleftrightarrow> 0 \<notin> set s \<and> 7 \<notin> set s"

definition record_ok :: "db_record \<Rightarrow> bool" where
  "record_ok r \<longleftrightarrow> fst r \<noteq> [] \<and> text_ok (fst r) \<and> text_ok (snd r)"

text \<open>A table that can be written: its text with a NUL fits the buffer, and the records their array.\<close>

definition table_ok :: "db_record list \<Rightarrow> bool" where
  "table_ok ls \<longleftrightarrow> list_all record_ok ls \<and> length ls \<le> MAX_LINES \<and> length (kdb_text ls) < READ_BUFFER_LEN"

lemma plain_notin: "list_all plain_char s \<Longrightarrow> 0 \<notin> set s \<and> NL \<notin> set s \<and> EQUALS \<notin> set s"
  by (auto simp: list_all_iff plain_char_def)

lemmas escape_notin = plain_notin [OF plain_escape]

lemma unescape_ok: "text_ok s \<Longrightarrow> str_unescape (str_escape s) = Some s"
  by (simp add: str_unescape_def text_ok_def unescape_escape c_str_id)

lemma unserialize_serialize:
  "record_ok r \<Longrightarrow> length ls < MAX_LINES \<Longrightarrow> db_unserialize (db_serialize r) ls = Some (True, ls @ [r])"
  by (simp add: db_unserialize_def db_serialize_def record_ok_def parse_pair_line escape_Nil escape_notin
      unescape_ok db_add_def del: append.simps append_assoc)

lemma fgets_line:
  assumes "NL \<notin> set a" "length a + 1 < n"
  shows "fgets n (a @ [NL] @ s) = Some (a @ [NL], s)"
proof -
  have "takeWhile (\<lambda>c. c \<noteq> NL) (a @ [NL] @ s) = a" using takeWhile_eq_append [of NL a s] assms by simp
  then have "line_length n (a @ [NL] @ s) = length a + 1" using assms by (simp add: line_length_def min_absorb2)
  then show ?thesis by (simp add: fgets_def)
qed

lemma fgets_serialize:
  assumes "length (db_serialize r) < n"
  shows "fgets n (db_serialize r @ s) = Some (db_serialize r, s)"
  using fgets_line [of "str_escape (fst r) @ [EQUALS] @ str_escape (snd r)" n s] assms escape_notin [of "fst r"]
    escape_notin [of "snd r"]
  by (simp add: db_serialize_def)

lemma serialize_facts: "c_str (db_serialize r) = db_serialize r" "db_serialize r \<noteq> FOOTER_LINE"
proof -
  show "c_str (db_serialize r) = db_serialize r"
    using escape_notin [of "fst r"] escape_notin [of "snd r"] by (intro c_str_id) (auto simp: db_serialize_def)
  have "EQUALS \<in> set (db_serialize r)" by (simp add: db_serialize_def)
  moreover have "EQUALS \<notin> set FOOTER_LINE" by code_simp
  ultimately show "db_serialize r \<noteq> FOOTER_LINE" by metis
qed

lemma footer_facts: "length FOOTER_LINE = 8" "length HEADER_LINE = 4" "c_str FOOTER_LINE = FOOTER_LINE"
  "c_str HEADER_LINE = HEADER_LINE" "parse_header HEADER_LINE"
  by code_simp+

lemma fgets_footer: "fgets READ_BUFFER_LEN (FOOTER_LINE @ s) = Some (FOOTER_LINE, s)"
proof -
  have "FOOTER_LINE = cs ''KDB END'' @ [NL]" "NL \<notin> set (cs ''KDB END'')" "length (cs ''KDB END'') + 1 < READ_BUFFER_LEN"
    by (simp_all add: FOOTER_LINE_def) code_simp+
  then show ?thesis using fgets_line [of "cs ''KDB END''" READ_BUFFER_LEN s] by (metis append_assoc)
qed

lemma fgets_header: "fgets 15 (HEADER_LINE @ s) = Some (HEADER_LINE, s)"
proof -
  have "HEADER_LINE = cs ''KDB'' @ [NL]" "NL \<notin> set (cs ''KDB'')" "length (cs ''KDB'') + 1 < 15"
    by (simp_all add: HEADER_LINE_def) code_simp+
  then show ?thesis using fgets_line [of "cs ''KDB''" 15 s] by (metis append_assoc)
qed

lemma read_lines_records:
  assumes "list_all record_ok ls" "length ls0 + length ls \<le> MAX_LINES"
    "\<forall>r \<in> set ls. length (db_serialize r) < READ_BUFFER_LEN"
  shows "read_lines (concat (List.map db_serialize ls) @ FOOTER_LINE) ls0 = Some (True, ls0 @ ls, [])"
  using assms
proof (induction ls arbitrary: ls0)
  case Nil
  then show ?case using fgets_footer [of "[]"] by (simp add: read_lines.simps [of FOOTER_LINE] footer_facts)
next
  case (Cons r ls)
  let ?s = "concat (List.map db_serialize ls) @ FOOTER_LINE"
  have "fgets READ_BUFFER_LEN (db_serialize r @ ?s) = Some (db_serialize r, ?s)" using Cons.prems by (intro fgets_serialize) simp
  moreover have "db_unserialize (db_serialize r) ls0 = Some (True, ls0 @ [r])"
    using Cons.prems by (intro unserialize_serialize) simp_all
  moreover have "read_lines ?s (ls0 @ [r]) = Some (True, (ls0 @ [r]) @ ls, [])" using Cons.prems by (intro Cons.IH) simp_all
  ultimately show ?case
    by (simp add: read_lines.simps [of "db_serialize r @ ?s"] serialize_facts)
qed

lemma length_serialize_le: "r \<in> set ls \<Longrightarrow> length (db_serialize r) \<le> length (concat (List.map db_serialize ls))"
  by (induction ls) auto

text \<open>Opening a database that is not open yet.\<close>

definition fresh_db :: "kdb_env \<Rightarrow> kdb \<Rightarrow> cstr \<Rightarrow> bool" where
  "fresh_db env k f \<longleftrightarrow> k_file k = None \<and> \<not> k_already_read k \<and> k_lines k = [] \<and>
     map_option k_filename (get_dbfilename env k) = Some f"

lemma get_dbfilename_eq: "get_dbfilename env k = Some k' \<Longrightarrow> k' = k\<lparr>k_filename := k_filename k'\<rparr>"
  by (auto simp: get_dbfilename_def set_dbfilename_def Let_def split: if_splits option.splits)

definition loaded :: "kdb \<Rightarrow> cstr \<Rightarrow> db_record list \<Rightarrow> kdb" where
  "loaded k f ls = k\<lparr>k_filename := f, k_file := Some \<lparr>st_path = Some f, st_rest = []\<rparr>, k_lines := ls, k_already_read := True\<rparr>"

lemma db_read_text:
  assumes "fresh_db env k f" "k_files k f = Some (kdb_text ls)" "table_ok ls"
  shows "db_read env k = Some (True, loaded k f ls)"
proof -
  from assms(1) obtain k1 where k1: "get_dbfilename env k = Some k1" "k_filename k1 = f"
    by (auto simp: fresh_db_def)
  then have e: "k1 = k\<lparr>k_filename := f\<rparr>" using get_dbfilename_eq by metis
  have o: "db_open env k = Some (True, k\<lparr>k_filename := f, k_file := Some \<lparr>st_path = Some f, st_rest = kdb_text ls\<rparr>\<rparr>)"
    using assms k1 e by (simp add: db_open_def fresh_db_def)
  have h: "fgets 15 (kdb_text ls) = Some (HEADER_LINE, concat (List.map db_serialize ls) @ FOOTER_LINE)"
    unfolding kdb_text_def by (rule fgets_header)
  have "\<forall>r \<in> set ls. length (db_serialize r) < READ_BUFFER_LEN"
    using assms(3) length_serialize_le [of _ ls] by (fastforce simp: table_ok_def kdb_text_def)
  then have "read_lines (concat (List.map db_serialize ls) @ FOOTER_LINE) [] = Some (True, [] @ ls, [])"
    using assms(3) by (intro read_lines_records) (simp_all add: table_ok_def)
  then show ?thesis using assms(1) by (simp add: db_read_def fresh_db_def o h footer_facts loaded_def)
qed

lemma kdb_text_length: "length (kdb_text ls) = 12 + sum_list (List.map (length \<circ> db_serialize) ls)"
  by (simp add: kdb_text_def footer_facts length_concat)

lemma db_sort_facts: "mset (db_sort ls) = mset ls" "set (db_sort ls) = set ls" "length (db_sort ls) = length ls"
  "sorted (List.map fst (db_sort ls))"
  by (simp_all add: db_sort_def)

lemma length_text_sort: "length (kdb_text (db_sort ls)) = length (kdb_text ls)"
proof -
  have "mset (List.map (length \<circ> db_serialize) (db_sort ls)) = mset (List.map (length \<circ> db_serialize) ls)"
    by (simp add: db_sort_facts)
  then show ?thesis unfolding kdb_text_length using sum_mset_sum_list by metis
qed

lemma table_ok_sort: "table_ok (db_sort ls) \<longleftrightarrow> table_ok ls"
  by (simp add: table_ok_def length_text_sort db_sort_facts list_all_iff)

lemma db_write_text:
  assumes "k_file k = Some st" "st_path st = Some f" "length (kdb_text (k_lines k)) < READ_BUFFER_LEN"
  shows "db_write k = Some (True, k\<lparr>k_lines := db_sort (k_lines k), k_files := (k_files k)(f \<mapsto> kdb_text (db_sort (k_lines k))),
    k_file := Some (st\<lparr>st_rest := []\<rparr>)\<rparr>)"
  using assms by (simp add: db_write_def Let_def length_text_sort)

end
