(* ===== verification/KdbMap.thy ===== *)
theory KdbMap
  imports KdbStore
begin

text \<open>
  The commands of the configuration database refine operations on a map from names to values. A whole call is
  considered: options, reading the file, the command, writing the file.
\<close>

section \<open>The records and the map\<close>

definition update_table :: "cstr \<Rightarrow> cstr \<Rightarrow> db_record list \<Rightarrow> db_record list" where
  "update_table name val ls = (case find_key name ls of Some i \<Rightarrow> ls[i := (name, val)] | None \<Rightarrow> ls @ [(name, val)])"

definition delete_table :: "cstr \<Rightarrow> db_record list \<Rightarrow> db_record list" where
  "delete_table name ls = (case find_key name ls of Some i \<Rightarrow> take i ls @ drop (Suc i) ls | None \<Rightarrow> ls)"

definition names :: "db_record list \<Rightarrow> cstr list" where
  "names ls = List.map fst ls"

lemma find_key_None: "find_key n ls = None \<longleftrightarrow> n \<notin> set (names ls)"
  by (force simp: find_key_def find_None_iff names_def in_set_conv_nth)

lemma find_key_None_map: "find_key n ls = None \<longleftrightarrow> map_of ls n = None"
  by (simp add: find_key_None names_def map_of_eq_None_iff)

lemma find_key_split:
  assumes "find_key n ls = Some i"
  obtains v where "i < length ls" "ls ! i = (n, v)" "ls = take i ls @ (n, v) # drop (Suc i) ls" "n \<notin> set (names (take i ls))"
proof -
  have i: "i < length ls" "fst (ls ! i) = n" "\<forall>j < i. fst (ls ! j) \<noteq> n"
    using assms by (auto simp: find_key_def find_Some_iff)
  then have "ls ! i = (n, snd (ls ! i))" by (simp add: prod_eq_iff)
  moreover have "n \<notin> set (names (take i ls))" using i by (fastforce simp: names_def in_set_conv_nth)
  ultimately show thesis using that i id_take_nth_drop [OF i(1)] by metis
qed

lemma map_of_not_name: "n \<notin> set (names ls) \<Longrightarrow> map_of ls n = None"
  by (simp add: names_def map_of_eq_None_iff)

lemma find_key_value: "find_key n ls = Some i \<Longrightarrow> map_of ls n = Some (snd (ls ! i))"
proof (erule find_key_split)
  fix v assume a: "i < length ls" "ls ! i = (n, v)" "ls = take i ls @ (n, v) # drop (Suc i) ls" "n \<notin> set (names (take i ls))"
  have "map_of (take i ls @ (n, v) # drop (Suc i) ls) n = Some v"
    using map_of_not_name [OF a(4)] by (simp add: map_add_def)
  then show "map_of ls n = Some (snd (ls ! i))" using a by simp
qed

lemma map_of_update: "map_of (update_table n v ls) = (map_of ls)(n \<mapsto> v)"
proof (cases "find_key n ls")
  case None
  then show ?thesis using map_of_not_name [of n ls] find_key_None [of n ls]
    by (simp add: update_table_def) (auto simp: map_add_def fun_eq_iff split: option.splits)
next
  case (Some i)
  then obtain w where a: "i < length ls" "ls = take i ls @ (n, w) # drop (Suc i) ls" "n \<notin> set (names (take i ls))"
    by (rule find_key_split)
  have "map_of (take i ls @ (n, v) # drop (Suc i) ls) = (map_of (take i ls @ (n, w) # drop (Suc i) ls))(n \<mapsto> v)"
    using map_of_not_name [OF a(3)] by (auto simp: map_add_def fun_eq_iff split: option.splits)
  then show ?thesis using a by (simp add: update_table_def Some upd_conv_take_nth_drop)
qed

lemma names_update: "set (names (update_table n v ls)) = insert n (set (names ls))"
  "distinct (names ls) \<Longrightarrow> distinct (names (update_table n v ls))"
proof -
  have *: "names (update_table n v ls) = (if n \<in> set (names ls) then names ls else names ls @ [n])"
  proof (cases "find_key n ls")
    case None
    then show ?thesis using find_key_None [of n ls] by (simp add: update_table_def names_def)
  next
    case (Some i)
    then obtain w where "i < length ls" "ls ! i = (n, w)" by (rule find_key_split)
    then have "names (ls[i := (n, v)]) = names ls" by (simp add: names_def map_update list_update_same_conv)
    then show ?thesis using Some find_key_None [of n ls] by (auto simp: update_table_def)
  qed
  show "set (names (update_table n v ls)) = insert n (set (names ls))" using * by auto
  show "distinct (names ls) \<Longrightarrow> distinct (names (update_table n v ls))" using * by auto
qed

text \<open>The table keeps the contract of the variable stores, as the one of the NVRAM does.\<close>

interpretation tbl: var_store map_of "\<lambda>ls n v. (0, update_table n v ls)" "\<lambda>ls. distinct (names ls)" "\<lambda>_ _. True" "\<lambda>_ _. True"
  by unfold_locales (auto simp: map_of_update names_update)

lemma distinct_delete: "distinct (names ls) \<Longrightarrow> distinct (names (delete_table n ls)) \<and> n \<notin> set (names (delete_table n ls))"
proof (cases "find_key n ls")
  case (Some i)
  assume d: "distinct (names ls)"
  obtain w where a: "ls = take i ls @ (n, w) # drop (Suc i) ls" using Some by (rule find_key_split)
  then have "distinct (names (take i ls @ (n, w) # drop (Suc i) ls))" using d by simp
  then show ?thesis by (simp add: delete_table_def Some names_def)
next
  case None
  assume "distinct (names ls)"
  then show ?thesis using None find_key_None [of n ls] by (simp add: delete_table_def)
qed

lemma map_of_delete: "distinct (names ls) \<Longrightarrow> map_of (delete_table n ls) = (map_of ls)(n := None)"
proof (cases "find_key n ls")
  case None
  then show ?thesis using find_key_None_map [of n ls] by (auto simp: delete_table_def)
next
  case (Some i)
  assume d: "distinct (names ls)"
  obtain w where a: "ls = take i ls @ (n, w) # drop (Suc i) ls" "n \<notin> set (names (take i ls))" using Some by (rule find_key_split)
  have "distinct (names (take i ls @ (n, w) # drop (Suc i) ls))" using d a(1) by simp
  then have "n \<notin> set (names (drop (Suc i) ls))" by (simp add: names_def)
  then have "map_of (take i ls @ drop (Suc i) ls) = (map_of (take i ls @ (n, w) # drop (Suc i) ls))(n := None)"
    using map_of_not_name [OF a(2)] map_of_not_name [of n "drop (Suc i) ls"]
    by (auto simp: map_add_def fun_eq_iff split: option.splits)
  then show ?thesis using a by (simp add: delete_table_def Some)
qed

lemma map_of_sort: "distinct (names ls) \<Longrightarrow> map_of (db_sort ls) = map_of ls"
proof (rule map_of_eqI)
  assume d: "distinct (names ls)"
  have "mset (List.map fst (db_sort ls)) = mset (List.map fst ls)" by (simp add: db_sort_facts)
  then have d': "distinct (List.map fst (db_sort ls))" using d mset_eq_imp_distinct_iff unfolding names_def by metis
  show "set (List.map fst (db_sort ls)) = set (List.map fst ls)" by (simp add: db_sort_facts)
  show "\<forall>x \<in> set (List.map fst (db_sort ls)). map_of (db_sort ls) x = map_of ls x"
    using map_of_eq_Some_iff [OF d'] map_of_eq_Some_iff [of ls] d by (auto simp: names_def db_sort_facts)
qed

lemma distinct_sort: "distinct (names (db_sort ls)) \<longleftrightarrow> distinct (names ls)"
proof -
  have "mset (names (db_sort ls)) = mset (names ls)" by (simp add: names_def db_sort_facts)
  then show ?thesis using mset_eq_imp_distinct_iff by metis
qed

section \<open>A call with one command\<close>

definition starts :: "kdb_env \<Rightarrow> kdb_opt list \<Rightarrow> (cstr \<rightharpoonup> cstr) \<Rightarrow> cstr option \<Rightarrow> kdb \<Rightarrow> cstr \<Rightarrow> bool" where
  "starts env opts files input k f \<longleftrightarrow>
     set_opts opts (kdbinit files input) = Some k \<and> map_option k_filename (get_dbfilename env k) = Some f"

lemma set_opts_keeps:
  "set_opts opts k = Some k' \<Longrightarrow> k_file k' = k_file k \<and> k_lines k' = k_lines k \<and> k_files k' = k_files k \<and>
     k_need_write k' = k_need_write k \<and> k_already_read k' = k_already_read k \<and> k_out k' = k_out k \<and> k_out_open k' = k_out_open k"
proof (induction opts arbitrary: k)
  case (Cons x xs)
  then obtain k1 where "set_opt x k = Some k1" "set_opts xs k1 = Some k'" by (auto split: bind_splits)
  moreover from this(1) have "k_file k1 = k_file k \<and> k_lines k1 = k_lines k \<and> k_files k1 = k_files k \<and>
     k_need_write k1 = k_need_write k \<and> k_already_read k1 = k_already_read k \<and> k_out k1 = k_out k \<and> k_out_open k1 = k_out_open k"
    by (cases x) (auto simp: set_dbfilename_def split: if_splits)
  ultimately show ?case using Cons.IH by metis
qed simp

lemma starts_fresh:
  assumes "starts env opts files input k f"
  shows "fresh_db env k f" "k_files k = files" "\<not> k_need_write k" "k_out k = []" "k_out_open k"
  using set_opts_keeps [of opts "kdbinit files input" k] assms by (auto simp: starts_def fresh_db_def kdbinit_def)

lemma kdb_loop_single:
  assumes "kdb_step env me cmd param [] False k = Some (ok, [], k')" "length cmd < MAX_LINE_SIZE" "length param < MAX_LINE_SIZE"
    "hd cmd \<noteq> COLON" "param \<noteq> [COLON]"
  shows "kdb_loop env me [cmd, param] False k = Some (ok, k')"
  using assms by (simp add: kdb_loop.simps take_param_def)

lemma kdb_main_written:
  assumes "starts env opts files input k f" "kdb_loop env me args False k = Some (True, k1)" "k_need_write k1"
    "k_file k1 = Some st" "st_path st = Some f" "length (kdb_text (k_lines k1)) < READ_BUFFER_LEN"
  shows "kdb_main env me opts args files input =
    Some (True, k1\<lparr>k_lines := db_sort (k_lines k1), k_files := (k_files k1)(f \<mapsto> kdb_text (db_sort (k_lines k1))), k_file := None\<rparr>)"
  using assms by (simp add: kdb_main_def starts_def db_write_text db_close_def)

lemma kdb_main_read:
  assumes "starts env opts files input k f" "kdb_loop env me args False k = Some (ok, k1)" "\<not> ok \<or> \<not> k_need_write k1"
  shows "kdb_main env me opts args files input = Some (ok, db_close k1)"
  using assms by (auto simp: kdb_main_def starts_def)

lemma kdb_step_eqs:
  "kdb_step env me (cs ''set'') param rest result k = map_option (\<lambda>(ok, k). (ok, rest, k)) (set_cmd env param k)"
  "kdb_step env me (cs ''get'') param rest result k = map_option (\<lambda>(ok, k). (ok, rest, k)) (get env param k)"
  "kdb_step env me (cs ''isset'') param rest result k = map_option (\<lambda>(ok, k). (ok, rest, k)) (isset env param k)"
  "kdb_step env me (cs ''del'') param rest result k = map_option (\<lambda>(ok, k). (ok, rest, k)) (del env param k)"
  "kdb_step env me (cs ''rename'') param rest result k =
     map_option (\<lambda>(ok, k). (ok, drop 1 rest, k)) (rename env param (if rest = [] then None else Some (hd rest)) k)"
  by (simp_all add: kdb_step_def)

lemma command_names:
  "length (cs s) = length s" "hd (cs ''set'') \<noteq> COLON" "hd (cs ''get'') \<noteq> COLON" "hd (cs ''del'') \<noteq> COLON"
  "hd (cs ''rename'') \<noteq> COLON" "hd (cs ''isset'') \<noteq> COLON"
  by (simp add: cs_def) code_simp+

end
