(* ===== verification/KdbCalls.thy ===== *)
theory KdbCalls
  imports KdbMap
begin

text \<open>
  Whole calls of the configuration tool on a stored database: setting, deleting and renaming change the map in the file,
  reading prints from it.
\<close>

lemma db_read_loaded: "k_already_read k \<Longrightarrow> db_read env k = Some (True, k)"
  by (simp add: db_read_def)

text \<open>A stored database, as a call finds it.\<close>

definition stored :: "(cstr \<rightharpoonup> cstr) \<Rightarrow> cstr \<Rightarrow> db_record list \<Rightarrow> bool" where
  "stored files f ls \<longleftrightarrow> files f = Some (kdb_text ls) \<and> table_ok ls \<and> distinct (names ls)"

lemma db_read_stored: "starts env opts files input k f \<Longrightarrow> stored files f ls \<Longrightarrow> db_read env k = Some (True, loaded k f ls)"
  using starts_fresh [of env opts files input k f] by (intro db_read_text) (auto simp: stored_def)

lemma loaded_fields [simp]:
  "k_lines (loaded k f ls) = ls" "k_files (loaded k f ls) = k_files k" "k_out (loaded k f ls) = k_out k"
  "k_already_read (loaded k f ls)" "k_need_write (loaded k f ls) = k_need_write k" "k_out_open (loaded k f ls) = k_out_open k"
  "k_file (loaded k f ls) = Some \<lparr>st_path = Some f, st_rest = []\<rparr>"
  by (simp_all add: loaded_def)

lemma db_set_table:
  assumes "k_already_read k" "length (update_table n v (k_lines k)) \<le> MAX_LINES"
  shows "db_set env n v k = Some (True, k\<lparr>k_lines := update_table n v (k_lines k), k_need_write := True\<rparr>)"
proof (cases "find_key n (k_lines k)")
  case None
  then show ?thesis using assms by (simp add: db_set_def db_read_loaded db_add_def update_table_def)
next
  case (Some i)
  then have "i < length (k_lines k)" by (rule find_key_less)
  then show ?thesis using assms Some by (simp add: db_set_def db_read_loaded db_set_index_def update_table_def)
qed

text \<open>A call that changes the table of a stored database.\<close>

lemma kdb_main_table:
  assumes "starts env opts files input k f" "kdb_loop env me args False k = Some (True, (loaded k f ls)\<lparr>k_lines := ls', k_need_write := True\<rparr>)"
    "table_ok ls'" "distinct (names ls')"
  shows "\<exists>k' ls''. kdb_main env me opts args files input = Some (True, k') \<and> k_out k' = [] \<and> k_files k' = files(f \<mapsto> kdb_text ls'') \<and>
    stored (k_files k') f ls'' \<and> sorted (names ls'') \<and> map_of ls'' = map_of ls'"
proof -
  note s = starts_fresh [OF assms(1)]
  have "length (kdb_text ls') < READ_BUFFER_LEN" using assms(3) by (simp add: table_ok_def)
  then obtain k' where k': "kdb_main env me opts args files input = Some (True, k')" "k_out k' = []"
      "k_files k' = files(f \<mapsto> kdb_text (db_sort ls'))"
    by (simp add: kdb_main_written [OF assms(1,2)] s)
  then have "stored (k_files k') f (db_sort ls')"
    using assms by (simp add: stored_def table_ok_sort distinct_sort)
  then show ?thesis using k' assms(4) map_of_sort db_sort_facts(4) unfolding names_def by metis
qed

text \<open>Writing does not reset the flag, so the flag at the end tells whether the call has written the file.\<close>

lemma kdb_main_flag:
  assumes "starts env opts files input k f" "kdb_loop env me args False k = Some (True, k1)"
    "kdb_main env me opts args files input = Some (ok, k')"
  shows "k_need_write k' \<longleftrightarrow> k_need_write k1"
  using assms
  by (auto simp: kdb_main_def starts_def db_write_def db_close_def put_def Let_def split: if_splits option.splits)

text \<open>C13: A call \<open>set name=value\<close> on a stored database replaces it by one whose map has the name bound to the value and is
  the same elsewhere, sorted by name; no other file changes and nothing is printed.\<close>

theorem kdb_set_refines:
  assumes "starts env opts files input k f" "stored files f ls" "table_ok (update_table n v ls)"
    "n \<noteq> []" "EQUALS \<notin> set n" "\<not> is_wildcarded n" "v \<noteq> ENV_STRING" "v = [] \<or> last v \<noteq> NL"
    "length n + length v + 1 < MAX_LINE_SIZE"
  shows "\<exists>k' ls'. kdb_main env me opts [cs ''set'', n @ [EQUALS] @ v] files input = Some (True, k') \<and> k_out k' = [] \<and>
    k_files k' = files(f \<mapsto> kdb_text ls') \<and> stored (k_files k') f ls' \<and> sorted (names ls') \<and> map_of ls' = (map_of ls)(n \<mapsto> v)"
proof -
  let ?k = "(loaded k f ls)\<lparr>k_lines := update_table n v ls, k_need_write := True\<rparr>"
  have "set_cmd env (n @ [EQUALS] @ v) k = Some (True, ?k)"
    using assms(3) parse_pair_arg [OF assms(4,5,8)] assms(6,7)
    by (simp add: set_cmd_def db_read_stored [OF assms(1,2)] db_set_table table_ok_def del: append.simps)
  then have "kdb_loop env me [cs ''set'', n @ [EQUALS] @ v] False k = Some (True, ?k)"
    using assms(4,9) command_names by (intro kdb_loop_single) (auto simp: kdb_step_eqs Cons_eq_append_conv append_eq_Cons_conv)
  moreover have "distinct (names (update_table n v ls))" using assms(2) by (intro names_update) (simp add: stored_def)
  ultimately show ?thesis using kdb_main_table [OF assms(1) _ assms(3)] by (simp add: map_of_update del: append.simps)
qed

text \<open>A database for the examples.\<close>

definition sample_env :: kdb_env where
  "sample_env = \<lparr>v_getenv = Map.empty, v_root = True, v_creat = (\<lambda>_. True), v_tmpnam = None, v_system = (\<lambda>_ files. (1, files)),
     v_head = (\<lambda>_. [0]), v_prefix = (\<lambda>_. replicate 1024 0)\<rparr>"

definition sample_table :: "db_record list" where
  "sample_table = [(cs ''a_0'', cs ''x''), (cs ''a_1'', cs ''y''), (cs ''b'', cs ''1'')]"

definition sample_files :: "cstr \<rightharpoonup> cstr" where
  "sample_files = [cs ''/etc/kdb'' \<mapsto> kdb_text sample_table]"

lemma starts_root: "starts sample_env [] files None (kdbinit files None) (cs ''/etc/kdb'')"
  by (simp add: starts_def get_dbfilename_def kdbinit_def sample_env_def)

lemmas sample_starts = starts_root [of sample_files]

lemma sample_table_ok: "table_ok sample_table"
  by code_simp

lemma sample_stored: "stored sample_files (cs ''/etc/kdb'') sample_table"
  unfolding stored_def using sample_table_ok by (simp add: sample_files_def) (simp add: names_def sample_table_def)

theorem kdb_set_refines_witness:
  "\<exists>k' ls'. kdb_main sample_env (cs ''kdb'') [] [cs ''set'', cs ''b'' @ [EQUALS] @ cs ''2''] sample_files None = Some (True, k') \<and>
    k_files k' (cs ''/etc/kdb'') = Some (kdb_text ls') \<and> map_of ls' (cs ''b'') = Some (cs ''2'') \<and> map_of ls' (cs ''a_0'') = Some (cs ''x'')"
proof -
  have t: "table_ok (update_table (cs ''b'') (cs ''2'') sample_table)" by code_simp
  have n: "cs ''b'' \<noteq> []" "EQUALS \<notin> set (cs ''b'')" "\<not> is_wildcarded (cs ''b'')" "cs ''2'' \<noteq> ENV_STRING"
    "cs ''2'' = [] \<or> last (cs ''2'') \<noteq> NL" "length (cs ''b'') + length (cs ''2'') + 1 < MAX_LINE_SIZE" by code_simp+
  have "map_of sample_table (cs ''a_0'') = Some (cs ''x'')" by (simp add: sample_table_def)
  then show ?thesis using kdb_set_refines [OF sample_starts sample_stored t n, of "cs ''kdb''"] by fastforce
qed

section \<open>Deleting\<close>

lemma filter_drop_first: "\<forall>j < i. P (xs ! j) \<Longrightarrow> i < length xs \<Longrightarrow> \<not> P (xs ! i) \<Longrightarrow>
    filter P xs = take i xs @ filter P (drop (Suc i) xs)"
proof -
  assume a: "\<forall>j < i. P (xs ! j)" "i < length xs" "\<not> P (xs ! i)"
  have "filter P (take i xs) = take i xs" using a by (intro filter_True) (auto simp: in_set_conv_nth)
  moreover have "filter P xs = filter P (take i xs @ xs ! i # drop (Suc i) xs)" using id_take_nth_drop [OF a(2)] by metis
  ultimately show ?thesis using a(3) by simp
qed

definition unmatched :: "cstr \<Rightarrow> db_record list \<Rightarrow> db_record list" where
  "unmatched pat ls = filter (\<lambda>r. \<not> match_wildcard pat (fst r)) ls"

lemma first_match_None: "first_match pat ls = None \<longleftrightarrow> unmatched pat ls = ls"
  by (auto simp: first_match_def find_None_iff unmatched_def filter_id_conv all_set_conv_all_nth)

lemma first_match_Some:
  assumes "first_match pat ls = Some i"
  shows "unmatched pat ls = unmatched pat (take i ls @ drop (Suc i) ls)" "unmatched pat (take i ls) = take i ls" "unmatched pat ls \<noteq> ls"
proof -
  have i: "i < length ls" "match_wildcard pat (fst (ls ! i))" "\<forall>j < i. \<not> match_wildcard pat (fst (ls ! j))"
    using assms by (auto simp: first_match_def find_Some_iff)
  show t: "unmatched pat (take i ls) = take i ls" unfolding unmatched_def using i by (intro filter_True) (fastforce simp: in_set_conv_nth)
  have "unmatched pat ls = take i ls @ unmatched pat (drop (Suc i) ls)"
    unfolding unmatched_def using i by (intro filter_drop_first) auto
  then show "unmatched pat ls = unmatched pat (take i ls @ drop (Suc i) ls)" using t by (simp add: unmatched_def)
  have "length (unmatched pat ls) < length ls"
    unfolding unmatched_def using i by (intro length_filter_less [of "ls ! i"]) auto
  then show "unmatched pat ls \<noteq> ls" by auto
qed

lemma del_loop_filter:
  assumes "i = length (k_lines k) \<Longrightarrow> unmatched pat (k_lines k) = k_lines k"
  shows "del_loop pat i k = k\<lparr>k_lines := unmatched pat (k_lines k), k_need_write := k_need_write k \<or> unmatched pat (k_lines k) \<noteq> k_lines k\<rparr>"
  using assms
proof (induction pat i k rule: del_loop.induct)
  case (1 pat i k)
  show ?case
  proof (cases "i = length (k_lines k) \<or> first_match pat (k_lines k) = None")
    case True
    then have "unmatched pat (k_lines k) = k_lines k" using 1(2) first_match_None by auto
    then show ?thesis using True by (subst del_loop.simps) auto
  next
    case False
    then obtain j where j: "first_match pat (k_lines k) = Some j" by auto
    let ?ls = "take j (k_lines k) @ drop (Suc j) (k_lines k)"
    have d: "db_del_index j k = k\<lparr>k_lines := ?ls, k_need_write := True\<rparr>"
      using first_match_less [OF j] by (simp add: db_del_index_def)
    have "j = length ?ls \<Longrightarrow> unmatched pat ?ls = ?ls"
      using first_match_Some(2) [OF j] first_match_less [OF j] by simp
    then have "del_loop pat j (db_del_index j k) = k\<lparr>k_lines := unmatched pat ?ls, k_need_write := True\<rparr>"
      using 1(1) [OF _ j] False d by simp
    then show ?thesis using False j first_match_Some(1,3) [OF j] by (subst del_loop.simps) simp
  qed
qed

lemma map_of_unmatched: "map_of (unmatched pat ls) = map_of ls |` {n. \<not> match_wildcard pat n}"
  unfolding unmatched_def by (rule map_of_filter)

lemma text_filter: "length (kdb_text (filter P ls)) \<le> length (kdb_text ls)"
  unfolding kdb_text_length by (induction ls) auto

lemma unmatched_ok:
  "table_ok ls \<Longrightarrow> table_ok (unmatched pat ls)" "distinct (names ls) \<Longrightarrow> distinct (names (unmatched pat ls))"
proof -
  assume t: "table_ok ls"
  then show "table_ok (unmatched pat ls)" using text_filter [of "\<lambda>r. \<not> match_wildcard pat (fst r)" ls]
      length_filter_le [of "\<lambda>r. \<not> match_wildcard pat (fst r)" ls]
    by (simp add: table_ok_def unmatched_def list_all_iff) (metis order.trans length_filter_le)
next
  show "distinct (names ls) \<Longrightarrow> distinct (names (unmatched pat ls))"
    unfolding unmatched_def names_def by (rule distinct_map_filter)
qed

lemma unmatched_id: "unmatched pat ls = ls \<longleftrightarrow> \<not> (\<exists>n \<in> set (names ls). match_wildcard pat n)"
  by (auto simp: unmatched_def filter_id_conv names_def)

text \<open>C23: A call \<open>del pattern\<close> on a stored database leaves one whose map is the old one restricted to the names that the
  pattern does not match. The file is written, sorted, exactly when some name matches. When none does, the call
  does not write: the flag that makes it write is off at the end, and the file has its records in the order
  they had, also when that is not the sorted one.\<close>

theorem kdb_del_refines:
  assumes "starts env opts files input k f" "stored files f ls" "length pat < MAX_LINE_SIZE" "pat \<noteq> [COLON]"
  shows "\<exists>k' ls'. kdb_main env me opts [cs ''del'', pat] files input = Some (True, k') \<and> k_out k' = [] \<and>
    k_files k' = files(f \<mapsto> kdb_text ls') \<and> stored (k_files k') f ls' \<and>
    map_of ls' = map_of ls |` {n. \<not> match_wildcard pat n} \<and>
    (if \<exists>n \<in> set (names ls). match_wildcard pat n then k_need_write k' \<and> sorted (names ls')
     else \<not> k_need_write k' \<and> ls' = ls \<and> k_files k' = files)"
proof -
  note s = starts_fresh [OF assms(1)]
  let ?k1 = "(loaded k f ls)\<lparr>k_lines := unmatched pat ls, k_need_write := unmatched pat ls \<noteq> ls\<rparr>"
  have t: "table_ok (unmatched pat ls)" "distinct (names (unmatched pat ls))" using assms(2) unmatched_ok by (auto simp: stored_def)
  have "del_loop pat 0 (loaded k f ls) = ?k1" using s by (subst del_loop_filter) (simp_all add: unmatched_def)
  then have l: "kdb_loop env me [cs ''del'', pat] False k = Some (True, ?k1)"
    using assms(3,4) command_names by (intro kdb_loop_single) (simp_all add: kdb_step_eqs del_def db_read_stored [OF assms(1,2)])
  have flag: "k_need_write k' \<longleftrightarrow> unmatched pat ls \<noteq> ls"
    if "kdb_main env me opts [cs ''del'', pat] files input = Some (ok, k')" for ok k'
    using kdb_main_flag [OF assms(1) l that] by simp
  show ?thesis
  proof (cases "unmatched pat ls = ls")
    case True
    have same: "files(f \<mapsto> kdb_text ls) = files" using assms(2) by (auto simp: stored_def fun_eq_iff)
    obtain k' where k': "kdb_main env me opts [cs ''del'', pat] files input = Some (True, k')" "k_out k' = []" "k_files k' = files"
      using kdb_main_read [OF assms(1) l] True s by (simp add: db_close_def)
    note u = unmatched_id [THEN iffD1, OF True]
    show ?thesis unfolding if_not_P [OF u]
      by (intro exI [of _ k'] exI [of _ ls] conjI k')
        (use k'(3) same assms(2) map_of_unmatched [of pat ls] flag [OF k'(1)] True in simp_all)
  next
    case False
    then have "k_need_write_update (\<lambda>_. unmatched pat ls \<noteq> ls) k' = k'\<lparr>k_need_write := True\<rparr>" for k' :: kdb by simp
    with l obtain k' ls' where k': "kdb_main env me opts [cs ''del'', pat] files input = Some (True, k')" "k_out k' = []"
        "k_files k' = files(f \<mapsto> kdb_text ls')" "stored (k_files k') f ls'" "sorted (names ls')"
        "map_of ls' = map_of (unmatched pat ls)"
      using kdb_main_table [OF assms(1) _ t, of me] by metis
    have u: "\<exists>n \<in> set (names ls). match_wildcard pat n" using False unmatched_id by blast
    show ?thesis unfolding if_P [OF u]
      by (intro exI [of _ k'] exI [of _ ls'] conjI k') (use k'(6) map_of_unmatched [of pat ls] flag [OF k'(1)] False in simp_all)
  qed
qed

theorem kdb_del_refines_witness:
  "\<exists>k' ls'. kdb_main sample_env (cs ''kdb'') [] [cs ''del'', cs ''a*''] sample_files None = Some (True, k') \<and>
    k_files k' (cs ''/etc/kdb'') = Some (kdb_text ls') \<and> map_of ls' (cs ''a_0'') = None \<and> map_of ls' (cs ''b'') = Some (cs ''1'')"
proof -
  have p: "length (cs ''a*'') < MAX_LINE_SIZE" "cs ''a*'' \<noteq> [COLON]" by (simp_all add: cs_def)
  have m: "match_wildcard (cs ''a*'') (cs ''a_0'')" "\<not> match_wildcard (cs ''a*'') (cs ''b'')" by (simp_all add: cs_def)
  have "map_of sample_table (cs ''b'') = Some (cs ''1'')" by (simp add: sample_table_def)
  moreover obtain k' ls' where "kdb_main sample_env (cs ''kdb'') [] [cs ''del'', cs ''a*''] sample_files None = Some (True, k')"
      "k_files k' = sample_files(cs ''/etc/kdb'' \<mapsto> kdb_text ls')"
      "map_of ls' = map_of sample_table |` {n. \<not> match_wildcard (cs ''a*'') n}"
    using kdb_del_refines [OF sample_starts sample_stored p] by blast
  ultimately show ?thesis using m by (intro exI [of _ k'] exI [of _ ls'] conjI) simp_all
qed

section \<open>Renaming and reading\<close>

definition renamed_table :: "cstr \<Rightarrow> cstr \<Rightarrow> db_record list \<Rightarrow> db_record list" where
  "renamed_table old new ls =
     (let ls = delete_table new ls
      in case find_key old ls of Some i \<Rightarrow> ls[i := (new, snd (ls ! i))] | None \<Rightarrow> ls)"

lemma rename_table:
  assumes "distinct (names ls)" "find_key old ls = Some i" "new \<notin> set (names ls)"
  shows "distinct (names (ls[i := (new, snd (ls ! i))]))"
    "map_of (ls[i := (new, snd (ls ! i))]) = (map_of ls)(old := None, new \<mapsto> the (map_of ls old))"
proof -
  obtain v where v: "i < length ls" "ls ! i = (old, v)" "ls = take i ls @ (old, v) # drop (Suc i) ls" "old \<notin> set (names (take i ls))"
    using assms(2) by (rule find_key_split)
  have d: "distinct (names (take i ls @ (old, v) # drop (Suc i) ls))" "new \<notin> set (names (take i ls @ (old, v) # drop (Suc i) ls))"
    using assms v(3) by simp_all
  have u: "ls[i := (new, snd (ls ! i))] = take i ls @ (new, v) # drop (Suc i) ls" using v by (simp add: upd_conv_take_nth_drop)
  show "distinct (names (ls[i := (new, snd (ls ! i))]))" unfolding u using d by (simp add: names_def)
  have "old \<notin> set (names (drop (Suc i) ls))" "new \<notin> set (names (take i ls))" using d by (simp_all add: names_def)
  then have "map_of (take i ls @ (new, v) # drop (Suc i) ls) = (map_of (take i ls @ (old, v) # drop (Suc i) ls))(old := None, new \<mapsto> v)"
    using map_of_not_name [OF v(4)] map_of_not_name [of new "take i ls"] map_of_not_name [of old "drop (Suc i) ls"]
    by (auto simp: map_add_def fun_eq_iff split: option.splits)
  then show "map_of (ls[i := (new, snd (ls ! i))]) = (map_of ls)(old := None, new \<mapsto> the (map_of ls old))"
    using find_key_value [OF assms(2)] v u by simp
qed

text \<open>A call \<open>rename old new\<close> with a name that is in the stored database and another one moves the value: the map
  has the new name bound to the value of the old one, which is gone; what the new name was bound to before is lost.\<close>

theorem kdb_rename_refines:
  assumes "starts env opts files input k f" "stored files f ls" "map_of ls old = Some v" "new \<noteq> old"
    "table_ok (renamed_table old new ls)" "length old < MAX_LINE_SIZE" "old \<noteq> [COLON]"
  shows "\<exists>k' ls'. kdb_main env me opts [cs ''rename'', old, new] files input = Some (True, k') \<and> k_out k' = [] \<and>
    k_files k' = files(f \<mapsto> kdb_text ls') \<and> stored (k_files k') f ls' \<and> sorted (names ls') \<and>
    map_of ls' = (map_of ls)(old := None, new \<mapsto> v)"
proof -
  have d: "distinct (names ls)" using assms(2) by (simp add: stored_def)
  let ?k = "loaded k f ls" let ?ls = "delete_table new ls"
  have dl: "distinct (names ?ls)" "new \<notin> set (names ?ls)" "map_of ?ls = (map_of ls)(new := None)"
    using distinct_delete [OF d] map_of_delete [OF d] by auto
  then have "map_of ?ls old = Some v" using assms(3,4) by simp
  then have "find_key old ?ls \<noteq> None" using find_key_None_map [of old ?ls] by simp
  then obtain i where i: "find_key old ?ls = Some i" by blast
  let ?r = "?ls[i := (new, snd (?ls ! i))]"
  have r: "renamed_table old new ls = ?r" using i by (simp add: renamed_table_def Let_def)
  let ?k1 = "case find_key_ptr (Some new) (k_lines ?k) of None \<Rightarrow> ?k | Some i \<Rightarrow> db_del_index i ?k"
  have k1: "k_lines ?k1 = ?ls" "?k1\<lparr>k_lines := ls', k_need_write := True\<rparr> = ?k\<lparr>k_lines := ls', k_need_write := True\<rparr>" for ls'
    using find_key_less [of new ls] by (auto simp: find_key_ptr_def delete_table_def db_del_index_def split: option.splits)
  have "db_set_index i (Some new) None ?k1 = (True, ?k1\<lparr>k_lines := ?r, k_need_write := True\<rparr>)"
    using k1(1) find_key_less [OF i] by (simp add: db_set_index_def)
  then have s: "rename env old (Some new) k = Some (True, ?k\<lparr>k_lines := ?r, k_need_write := True\<rparr>)"
    using k1 i unfolding rename_def db_read_stored [OF assms(1,2)] Let_def by simp
  have "kdb_step env me (cs ''rename'') old [new] False k = Some (True, [], ?k\<lparr>k_lines := ?r, k_need_write := True\<rparr>)"
    using s by (simp add: kdb_step_eqs)
  then have "kdb_loop env me [cs ''rename'', old, new] False k = Some (True, ?k\<lparr>k_lines := ?r, k_need_write := True\<rparr>)"
    using assms(6,7) command_names by (simp add: kdb_loop.simps take_param_def)
  moreover have "distinct (names ?r)" "map_of ?r = (map_of ?ls)(old := None, new \<mapsto> the (map_of ?ls old))"
    using rename_table [OF dl(1) i dl(2)] by blast+
  moreover have "(map_of ?ls)(old := None, new \<mapsto> the (map_of ?ls old)) = (map_of ls)(old := None, new \<mapsto> v)"
    using dl(3) assms(3,4) by (simp add: fun_upd_twist fun_eq_iff)
  ultimately show ?thesis using kdb_main_table [OF assms(1) _ assms(5) [unfolded r], of me] by simp
qed

theorem kdb_rename_refines_witness:
  "\<exists>k' ls'. kdb_main sample_env (cs ''kdb'') [] [cs ''rename'', cs ''a_0'', cs ''b''] sample_files None = Some (True, k') \<and>
    k_files k' (cs ''/etc/kdb'') = Some (kdb_text ls') \<and> map_of ls' (cs ''a_0'') = None \<and> map_of ls' (cs ''b'') = Some (cs ''x'')"
proof -
  have p: "length (cs ''a_0'') < MAX_LINE_SIZE" "cs ''a_0'' \<noteq> [COLON]" "cs ''b'' \<noteq> cs ''a_0''" by (simp_all add: cs_def)
  have t: "table_ok (renamed_table (cs ''a_0'') (cs ''b'') sample_table)" by code_simp
  have m: "map_of sample_table (cs ''a_0'') = Some (cs ''x'')" by (simp add: sample_table_def)
  show ?thesis using kdb_rename_refines [OF sample_starts sample_stored m p(3) t p(1,2), of "cs ''kdb''"] p(3)
    by fastforce
qed

lemma match_literal: "STAR \<notin> set n \<Longrightarrow> BSL \<notin> set n \<Longrightarrow> match_wildcard n s \<longleftrightarrow> s = n"
proof (induction n arbitrary: s)
  case (Cons c n)
  then show ?case by (cases s) auto
qed simp

lemma matching_literal:
  assumes "STAR \<notin> set n" "BSL \<notin> set n" "distinct (names ls)"
  shows "matching n ls = (case map_of ls n of None \<Rightarrow> [] | Some v \<Rightarrow> [(n, v)])"
proof -
  have "filter (\<lambda>r. fst r = n) ls = (case map_of ls n of None \<Rightarrow> [] | Some v \<Rightarrow> [(n, v)])"
    using assms(3)
  proof (induction ls)
    case (Cons r ls)
    have "n \<notin> set (names ls) \<Longrightarrow> filter (\<lambda>r. fst r = n) ls = []" by (auto simp: names_def filter_empty_conv)
    then show ?case using Cons by (cases r) (auto simp: names_def)
  qed simp
  then show ?thesis using match_literal [OF assms(1,2)] by (simp add: matching_def)
qed

text \<open>A call \<open>get name\<close> on a stored database, without quoting, prints the value that the map binds to the name on a line,
  or nothing when it is not bound; no file changes. The name has no asterisk and no backslash.\<close>

theorem kdb_get_lookup:
  assumes "starts env opts files input k f" "stored files f ls" "k_quotation k = 0"
    "STAR \<notin> set n" "BSL \<notin> set n" "length n < MAX_LINE_SIZE" "n \<noteq> [COLON]"
  shows "\<exists>k'. kdb_main env me opts [cs ''get'', n] files input = Some (True, k') \<and> k_files k' = files \<and>
    k_out k' = (case map_of ls n of None \<Rightarrow> [] | Some v \<Rightarrow> [v @ [NL]])"
proof -
  note s = starts_fresh [OF assms(1)]
  let ?k = "fold (\<lambda>r. print_pair None (snd r)) (matching n ls) (loaded k f ls)"
  have q: "k_quotation (loaded k f ls) = 0" using assms(3) by (simp add: loaded_def)
  have k: "k_files ?k = files \<and> \<not> k_need_write ?k \<and> k_out ?k = (case map_of ls n of None \<Rightarrow> [] | Some v \<Rightarrow> [v @ [NL]])"
    using s q matching_literal [OF assms(4,5)] assms(2) by (auto simp: stored_def print_pair_def put_def split: option.splits)
  have "kdb_loop env me [cs ''get'', n] False k = Some (True, ?k)"
    using assms(6,7) command_names by (intro kdb_loop_single) (simp_all add: kdb_step_eqs get_def db_read_stored [OF assms(1,2)])
  then have "kdb_main env me opts [cs ''get'', n] files input = Some (True, db_close ?k)"
    using k by (intro kdb_main_read [OF assms(1)]) auto
  then show ?thesis using k by (simp add: db_close_def)
qed

end
