(* ===== verification/KdbList.thy ===== *)
theory KdbList
  imports KdbCalls
begin

text \<open>
  Lists in the configuration database: the records \<open>name_0\<close>, \<open>name_1\<close>, \dots up to the first free index are a list of
  values; \<open>listadd\<close> appends to it and \<open>listrm\<close> removes an element and renumbers the ones behind it.
\<close>

section \<open>Names\<close>

lemma dec_no_underscore: "UNDERSCORE \<notin> set (dec n)"
  using dec_digits [of n] by (auto simp: list_all_iff is_digit_def)

text \<open>A name that lists may have: it ends with an underscore and leaves room for an index.\<close>

definition list_name :: "cstr \<Rightarrow> bool" where
  "list_name name \<longleftrightarrow> name \<noteq> [] \<and> last name = UNDERSCORE \<and> length name + 4 < MAX_LINE_SIZE"

lemma item_name_eq: "list_name name \<Longrightarrow> i \<le> MAX_LINES \<Longrightarrow> item_name name i = name @ dec i"
  using length_dec [of i 3] by (auto simp: item_name_def list_name_def)

lemma item_name_inject: "list_name name \<Longrightarrow> i \<le> MAX_LINES \<Longrightarrow> j \<le> MAX_LINES \<Longrightarrow> item_name name i = item_name name j \<longleftrightarrow> i = j"
  by (simp add: item_name_eq)

lemma upto_last_item: "list_name name \<Longrightarrow> upto_last (name @ dec i) = name"
proof -
  assume n: "list_name name"
  then obtain a where a: "name = a @ [UNDERSCORE]" by (metis list_name_def append_butlast_last_id)
  have "dropWhile (\<lambda>c. c \<noteq> UNDERSCORE) (rev (dec i) @ UNDERSCORE # rev a) = UNDERSCORE # rev a"
    using dec_no_underscore [of i] by (subst dropWhile_append2) auto
  then show ?thesis using a by (simp add: upto_last_def)
qed

section \<open>Lists of values\<close>

definition list_at :: "(cstr \<rightharpoonup> cstr) \<Rightarrow> cstr \<Rightarrow> cstr list \<Rightarrow> bool" where
  "list_at m name xs \<longleftrightarrow> (\<forall>i < length xs. m (item_name name i) = Some (xs ! i)) \<and> m (item_name name (length xs)) = None"

definition remove_nth :: "nat \<Rightarrow> 'a list \<Rightarrow> 'a list" where
  "remove_nth j xs = take j xs @ drop (Suc j) xs"

definition items :: "cstr \<Rightarrow> cstr list \<Rightarrow> db_record list" where
  "items name xs = List.map (\<lambda>i. (item_name name i, xs ! i)) [0..<length xs]"

lemma items_snoc: "items name (xs @ [x]) = items name xs @ [(item_name name (length xs), x)]"
  by (auto simp: items_def nth_append)

lemma remove_nth_snoc:
  "i < length xs \<Longrightarrow> remove_nth j (take (Suc i) xs) = (if i = j then take i xs else remove_nth j (take i xs) @ [xs ! i])"
proof -
  assume i: "i < length xs"
  consider "i < j" | "i = j" | "j < i" by linarith
  then show ?thesis
    by cases (use i in \<open>simp_all add: remove_nth_def take_Suc_conv_app_nth Suc_diff_le\<close>)
qed

lemma remove_nth_take: "i \<le> j \<Longrightarrow> remove_nth j (take i xs) = take i xs"
  by (simp add: remove_nth_def)

lemma length_remove_nth: "j < length xs \<Longrightarrow> length (remove_nth j xs) = length xs - 1"
  by (simp add: remove_nth_def)

text \<open>The tables that adding and removing leave.\<close>

definition delete_items :: "cstr \<Rightarrow> nat list \<Rightarrow> db_record list \<Rightarrow> db_record list" where
  "delete_items name is ls = fold (\<lambda>i. delete_table (item_name name i)) is ls"

definition update_all :: "db_record list \<Rightarrow> db_record list \<Rightarrow> db_record list" where
  "update_all rs ls = fold (\<lambda>r. update_table (fst r) (snd r)) rs ls"

definition removed_table :: "cstr \<Rightarrow> cstr list \<Rightarrow> nat \<Rightarrow> db_record list \<Rightarrow> db_record list" where
  "removed_table name xs j ls = update_all (items name (remove_nth j xs)) (delete_items name [0..<length xs] ls)"

lemma length_update: "length ls \<le> length (update_table n v ls)"
  by (simp add: update_table_def split: option.splits)

lemma length_update_all: "length ls \<le> length (update_all rs ls)"
proof (induction rs arbitrary: ls)
  case (Cons r rs)
  then show ?case using length_update [of ls "fst r" "snd r"] by (simp add: update_all_def) (meson order.trans)
qed (simp add: update_all_def)

lemma db_set_all_table:
  assumes "k_already_read k" "length (update_all rs (k_lines k)) \<le> MAX_LINES"
  shows "db_set_all env rs k = Some (k\<lparr>k_lines := update_all rs (k_lines k), k_need_write := k_need_write k \<or> rs \<noteq> []\<rparr>)"
  using assms
proof (induction rs arbitrary: k)
  case (Cons r rs)
  let ?ls = "update_table (fst r) (snd r) (k_lines k)"
  have "length ?ls \<le> MAX_LINES" using Cons.prems(2) length_update_all [of ?ls rs] by (simp add: update_all_def)
  then show ?case using Cons.IH [of "k\<lparr>k_lines := ?ls, k_need_write := True\<rparr>"] Cons.prems
    by (simp add: db_set_table update_all_def)
qed (simp add: update_all_def)

lemma update_all_set_all: "update_all rs ls = tbl.set_all ls rs"
  by (induction rs arbitrary: ls) (simp_all add: update_all_def)

lemma update_all_facts:
  assumes "distinct (names ls)"
  shows "map_of (update_all rs ls) = map_of ls ++ map_of (rev rs)" "distinct (names (update_all rs ls))"
  using tbl.set_all_get [of ls rs] tbl.set_all_inv [of ls rs] assms by (simp_all add: update_all_set_all list_all_iff)

lemma delete_items_facts:
  assumes "distinct (names ls)"
  shows "distinct (names (delete_items name is ls))"
    "map_of (delete_items name is ls) = map_of ls |` (- (item_name name ` set is))"
proof -
  have "distinct (names (delete_items name is ls)) \<and>
    map_of (delete_items name is ls) = map_of ls |` (- (item_name name ` set is))"
    using assms
  proof (induction "is" arbitrary: ls)
    case (Cons i "is")
    then show ?case using Cons.IH [of "delete_table (item_name name i) ls"] distinct_delete [of ls "item_name name i"]
        map_of_delete [of ls "item_name name i"]
      by (auto simp: delete_items_def restrict_map_def fun_eq_iff)
  qed (simp add: delete_items_def restrict_map_def)
  then show "distinct (names (delete_items name is ls))"
    "map_of (delete_items name is ls) = map_of ls |` (- (item_name name ` set is))" by auto
qed

section \<open>Removing an element\<close>

lemma delete_items_Cons: "delete_items name (i # is) ls = delete_items name is (delete_table (item_name name i) ls)"
  by (simp add: delete_items_def)

lemma listrm_loop_table:
  assumes "list_name name" "length xs \<le> MAX_LINES" "j < length xs" "\<forall>x \<in> set xs. length x < MAX_LINE_SIZE"
    "distinct (names (k_lines k))" "i \<le> length xs"
    "\<forall>p. i \<le> p \<and> p < length xs \<longrightarrow> map_of (k_lines k) (item_name name p) = Some (xs ! p)"
    "map_of (k_lines k) (item_name name (length xs)) = None"
  shows "listrm_loop name (item_name name j) i (items name (remove_nth j (take i xs))) k =
    Some (items name (remove_nth j xs),
      k\<lparr>k_lines := delete_items name [i..<length xs] (k_lines k), k_need_write := k_need_write k \<or> i < length xs\<rparr>)"
  using assms(5-)
proof (induction "length xs - i" arbitrary: i k)
  case 0
  then have i: "i = length xs" by simp
  then have "find_key (item_name name i) (k_lines k) = None" using 0 find_key_None_map by simp
  then show ?case using i by (subst listrm_loop.simps) (simp add: delete_items_def)
next
  case (Suc d)
  then have i: "i < length xs" by simp
  let ?n = "item_name name i" let ?k = "k\<lparr>k_lines := delete_table ?n (k_lines k), k_need_write := True\<rparr>"
  have v: "map_of (k_lines k) ?n = Some (xs ! i)" using Suc.prems i by simp
  then have "find_key ?n (k_lines k) \<noteq> None" using find_key_None_map [of ?n "k_lines k"] by simp
  then obtain q where q: "find_key ?n (k_lines k) = Some q" by blast
  then have r: "k_lines k ! q = (?n, xs ! i)" using find_key_value [OF q] v by (auto elim: find_key_split)
  have del: "db_del_index q k = ?k" using q find_key_less [OF q] by (simp add: db_del_index_def delete_table_def)
  have n: "\<not> MAX_LINE_SIZE \<le> length ?n" "\<not> MAX_LINE_SIZE \<le> length (xs ! i)" "upto_last ?n = name" "name \<noteq> []"
    using i assms(1,2) assms(4) [rule_format, of "xs ! i"] item_name_eq [of name i] upto_last_item [of name i]
    by (auto simp: item_name_def list_name_def)
  have u: "[i..<length xs] = i # [Suc i..<length xs]" using i by (rule upt_conv_Cons)
  have m: "map_of (delete_table ?n (k_lines k)) = (map_of (k_lines k))(?n := None)" "distinct (names (delete_table ?n (k_lines k)))"
    using Suc.prems(1) map_of_delete distinct_delete by auto
  have p: "\<forall>p. Suc i \<le> p \<and> p < length xs \<longrightarrow> map_of (k_lines ?k) (item_name name p) = Some (xs ! p)"
    using Suc.prems(3) m(1) i assms(1,2) by (auto simp: item_name_inject)
  have e: "map_of (k_lines ?k) (item_name name (length xs)) = None" using Suc.prems(4) m(1) by simp
  have ih: "listrm_loop name (item_name name j) (Suc i) (items name (remove_nth j (take (Suc i) xs))) ?k =
    Some (items name (remove_nth j xs),
      ?k\<lparr>k_lines := delete_items name [Suc i..<length xs] (k_lines ?k), k_need_write := k_need_write ?k \<or> Suc i < length xs\<rparr>)"
    by (rule Suc.hyps(1)) (use Suc.hyps(2) m(2) i p e in auto)
  have s: "listrm_loop name (item_name name j) i l k =
      listrm_loop name (item_name name j) (Suc i) (if i = j then l else l @ [(item_name name (length l), xs ! i)]) ?k" for l
    using q r del n i assms(1-3) by (subst listrm_loop.simps) (simp add: item_name_inject)
  have "length (items name (remove_nth j (take i xs))) = length (remove_nth j (take i xs))" by (simp add: items_def)
  then have "(if i = j then items name (remove_nth j (take i xs)) else items name (remove_nth j (take i xs)) @
      [(item_name name (length (items name (remove_nth j (take i xs)))), xs ! i)]) = items name (remove_nth j (take (Suc i) xs))"
    using i by (simp add: remove_nth_snoc items_snoc remove_nth_take)
  then have "listrm_loop name (item_name name j) i (items name (remove_nth j (take i xs))) k =
      listrm_loop name (item_name name j) (Suc i) (items name (remove_nth j (take (Suc i) xs))) ?k"
    unfolding s by simp
  also note ih
  finally show ?case using i by (simp add: u delete_items_Cons)
qed

lemma items_lookup:
  assumes "list_name name" "length ys \<le> MAX_LINES"
  shows "map_of (rev (items name ys)) (item_name name i) = (if i < length ys then Some (ys ! i) else if i \<le> MAX_LINES then None else map_of (rev (items name ys)) (item_name name i))"
    "(\<forall>i < length ys. n \<noteq> item_name name i) \<Longrightarrow> map_of (rev (items name ys)) n = None"
proof -
  have e: "List.map fst (rev (items name ys)) = List.map (item_name name) (rev [0..<length ys])"
    by (simp add: items_def rev_map comp_def)
  show o: "(\<forall>i < length ys. n \<noteq> item_name name i) \<Longrightarrow> map_of (rev (items name ys)) n = None" for n
    unfolding map_of_eq_None_iff by (auto simp: items_def)
  have "distinct (List.map fst (rev (items name ys)))"
    unfolding e using assms by (auto simp: distinct_map inj_on_def item_name_inject)
  moreover have "i < length ys \<Longrightarrow> (item_name name i, ys ! i) \<in> set (rev (items name ys))" by (auto simp: items_def)
  ultimately show "map_of (rev (items name ys)) (item_name name i) = (if i < length ys then Some (ys ! i) else if i \<le> MAX_LINES then None else map_of (rev (items name ys)) (item_name name i))"
    using o [of "item_name name i"] assms by (auto simp: item_name_inject)
qed

lemma removed_table_facts:
  assumes "list_name name" "length xs \<le> MAX_LINES" "j < length xs" "list_at (map_of ls) name xs" "distinct (names ls)"
  shows "distinct (names (removed_table name xs j ls))"
    "list_at (map_of (removed_table name xs j ls)) name (remove_nth j xs)"
    "(\<forall>i < length xs. n \<noteq> item_name name i) \<Longrightarrow> map_of (removed_table name xs j ls) n = map_of ls n"
proof -
  let ?ys = "remove_nth j xs"
  have l: "length ?ys = length xs - 1" using assms(3) by (rule length_remove_nth)
  note d = delete_items_facts [OF assms(5), of name "[0..<length xs]"]
  show "distinct (names (removed_table name xs j ls))" unfolding removed_table_def using d(1) by (rule update_all_facts)
  have m: "map_of (removed_table name xs j ls) = map_of ls |` (- (item_name name ` {0..<length xs})) ++ map_of (rev (items name ?ys))"
    unfolding removed_table_def update_all_facts(1) [OF d(1)] d(2) by simp
  have i: "map_of (removed_table name xs j ls) (item_name name i) = Some (?ys ! i)" if "i < length ?ys" for i
    unfolding m using items_lookup(1) [OF assms(1), of ?ys i] l assms(2) that by simp
  have "map_of (removed_table name xs j ls) (item_name name (length ?ys)) = None"
    unfolding m using items_lookup(1) [OF assms(1), of ?ys "length ?ys"] l assms(2,3) by (simp add: map_add_None restrict_map_def)
  with i show "list_at (map_of (removed_table name xs j ls)) name ?ys" by (simp add: list_at_def)
  show "(\<forall>i < length xs. n \<noteq> item_name name i) \<Longrightarrow> map_of (removed_table name xs j ls) n = map_of ls n"
    unfolding m using items_lookup(2) [OF assms(1), of ?ys n] l assms(2) by (auto simp: map_add_def restrict_map_def)
qed

lemma prefix_string_name:
  assumes "list_name name" "0 \<notin> set name" "length name < length (v_prefix env k)" "v_prefix env k ! length name = 0"
  shows "prefix_string env (name @ dec j) k = Some name"
proof -
  let ?r = "drop (length name) (v_prefix env k)"
  obtain w where "?r = 0 # w" using assms(3,4) Cons_nth_drop_Suc by metis
  moreover have "length name < MAX_LINE_SIZE" using assms(1) by (simp add: list_name_def)
  moreover have "c_str (name @ 0 # w) = name" using takeWhile_eq_append [OF assms(2)] by (simp add: c_str_def)
  ultimately show ?thesis using upto_last_item [OF assms(1), of j] by (simp add: prefix_string_def take_Cons')
qed

lemma kdb_step_lists:
  "kdb_step env me (cs ''listrm'') param rest result k = map_option (\<lambda>(ok, k). (ok, rest, k)) (listrm env param k)"
  "kdb_step env me (cs ''listadd'') param rest result k = map_option (\<lambda>(ok, k). (ok, rest, k)) (listadd env param k)"
  by (simp_all add: kdb_step_def)

lemma list_command_names: "hd (cs ''listrm'') \<noteq> COLON" "hd (cs ''listadd'') \<noteq> COLON"
  by code_simp+

text \<open>C24: A call \<open>listrm name_j\<close> on a stored database removes element j of the list and moves the elements behind it down
  by one; every other name keeps its value. The array for the prefix of the name has to hold a NUL behind it, since the
  code writes none.\<close>

theorem kdb_listrm_removes:
  assumes "starts env opts files input k f" "stored files f ls" "list_name name" "list_at (map_of ls) name xs"
    "j < length xs" "length xs \<le> MAX_LINES" "\<forall>x \<in> set xs. length x < MAX_LINE_SIZE"
    "table_ok (removed_table name xs j ls)"
    "length name < length (v_prefix env (loaded k f ls))" "v_prefix env (loaded k f ls) ! length name = 0"
  shows "\<exists>k' ls'. kdb_main env me opts [cs ''listrm'', item_name name j] files input = Some (True, k') \<and>
    k_files k' = files(f \<mapsto> kdb_text ls') \<and> stored (k_files k') f ls' \<and> sorted (names ls') \<and>
    list_at (map_of ls') name (remove_nth j xs) \<and>
    (\<forall>n. (\<forall>i < length xs. n \<noteq> item_name name i) \<longrightarrow> map_of ls' n = map_of ls n)"
proof -
  let ?k = "loaded k f ls" let ?key = "item_name name j" let ?ls = "removed_table name xs j ls"
  have d: "distinct (names ls)" using assms(2) by (simp add: stored_def)
  have key: "?key = name @ dec j" using item_name_eq assms(3,5,6) by simp
  have "map_of ls ?key = Some (xs ! j)" using assms(4,5) by (simp add: list_at_def)
  then have "(?key, xs ! j) \<in> set ls" by (rule map_of_SomeD)
  then have "record_ok (?key, xs ! j)" using assms(2) by (auto simp: stored_def table_ok_def list_all_iff)
  then have z: "0 \<notin> set name" unfolding key by (simp add: record_ok_def text_ok_def)
  have loop: "listrm_loop name ?key 0 [] ?k = Some (items name (remove_nth j xs),
      ?k\<lparr>k_lines := delete_items name [0..<length xs] ls, k_need_write := True\<rparr>)"
  proof -
    have "items name (remove_nth j (take 0 xs)) = []" by (simp add: items_def remove_nth_def)
    moreover have "0 < length xs" using assms(5) by linarith
    ultimately show ?thesis using listrm_loop_table [OF assms(3,6,5,7), of ?k 0] d assms(4) by (simp add: list_at_def)
  qed
  have t: "update_all (items name (remove_nth j xs)) (delete_items name [0..<length xs] ls) = ?ls" by (simp add: removed_table_def)
  have s: "db_set_all env (items name (remove_nth j xs)) (?k\<lparr>k_lines := delete_items name [0..<length xs] ls, k_need_write := True\<rparr>) =
      Some (?k\<lparr>k_lines := ?ls, k_need_write := True\<rparr>)"
    using assms(8) t by (subst db_set_all_table) (simp_all add: table_ok_def)
  have "listrm env ?key k = Some (True, ?k\<lparr>k_lines := ?ls, k_need_write := True\<rparr>)"
    using prefix_string_name [OF assms(3) z assms(9,10), of j] upto_last_item [OF assms(3), of j] assms(3) loop s
    by (simp add: listrm_def db_read_stored [OF assms(1,2)] key list_name_def)
  moreover have "length ?key < MAX_LINE_SIZE" by (simp add: item_name_def)
  moreover have "?key \<noteq> [COLON]" using assms(3) dec_nonempty [of j] unfolding key by (cases name) (auto simp: list_name_def)
  ultimately have l: "kdb_loop env me [cs ''listrm'', ?key] False k = Some (True, ?k\<lparr>k_lines := ?ls, k_need_write := True\<rparr>)"
    using command_names(1) list_command_names by (intro kdb_loop_single) (simp_all add: kdb_step_lists)
  note r = removed_table_facts [OF assms(3,6,5,4) d]
  obtain k' ls' where "kdb_main env me opts [cs ''listrm'', ?key] files input = Some (True, k')"
      "k_files k' = files(f \<mapsto> kdb_text ls')" "stored (k_files k') f ls'" "sorted (names ls')" "map_of ls' = map_of ?ls"
    using kdb_main_table [OF assms(1) l assms(8) r(1)] by blast
  then show ?thesis using r(2,3) by metis
qed

text \<open>\<open>listadd name_=value\<close> appends.\<close>

lemma next_name_list:
  assumes "list_at (map_of ls) name xs" "length xs < MAX_LINES"
  shows "next_name name ls = item_name name (length xs)"
proof -
  have "list_getnextindex name ls = Some (length xs)"
    using assms unfolding list_getnextindex_def find_Some_iff find_key_None_map list_at_def
    by (intro exI [of _ "length xs"]) auto
  then show ?thesis by (simp add: next_name_def)
qed

theorem kdb_listrm_removes_witness:
  "\<exists>k' ls'. kdb_main sample_env (cs ''kdb'') [] [cs ''listrm'', item_name (cs ''a_'') 0] sample_files None = Some (True, k') \<and>
    list_at (map_of ls') (cs ''a_'') [cs ''y''] \<and> k_files k' (cs ''/etc/kdb'') = Some (kdb_text ls')"
proof -
  have n: "list_name (cs ''a_'')" by code_simp
  have a: "list_at (map_of sample_table) (cs ''a_'') [cs ''x'', cs ''y'']"
  proof -
    have "item_name (cs ''a_'') 0 = cs ''a_0''" "item_name (cs ''a_'') 1 = cs ''a_1''" "item_name (cs ''a_'') 2 = cs ''a_2''"
      by code_simp+
    then show ?thesis by (simp add: list_at_def sample_table_def less_Suc_eq numeral_2_eq_2)
  qed
  have l: "\<forall>x \<in> set [cs ''x'', cs ''y'']. length x < MAX_LINE_SIZE" by (simp add: cs_def)
  have t: "table_ok (removed_table (cs ''a_'') [cs ''x'', cs ''y''] 0 sample_table)" by code_simp
  have v: "length (cs ''a_'') < length (v_prefix sample_env k)" "v_prefix sample_env k ! length (cs ''a_'') = 0" for k
    by (simp_all add: sample_env_def cs_def)
  have r: "remove_nth 0 [cs ''x'', cs ''y''] = [cs ''y'']" by (simp add: remove_nth_def)
  show ?thesis
    using kdb_listrm_removes [OF sample_starts sample_stored n a _ _ l t v, of "cs ''kdb''"] r by auto
qed

theorem kdb_listadd_appends:
  assumes "starts env opts files input k f" "stored files f ls" "list_name name" "list_at (map_of ls) name xs"
    "length xs < MAX_LINES" "EQUALS \<notin> set name" "v \<noteq> ENV_STRING" "v = [] \<or> last v \<noteq> NL"
    "length name + length v + 1 < MAX_LINE_SIZE" "table_ok (ls @ [(item_name name (length xs), v)])"
  shows "\<exists>k' ls'. kdb_main env me opts [cs ''listadd'', name @ [EQUALS] @ v] files input = Some (True, k') \<and>
    k_files k' = files(f \<mapsto> kdb_text ls') \<and> stored (k_files k') f ls' \<and> sorted (names ls') \<and>
    map_of ls' = (map_of ls)(item_name name (length xs) \<mapsto> v)"
proof -
  let ?n = "item_name name (length xs)" let ?ls = "ls @ [(?n, v)]"
  let ?k = "(loaded k f ls)\<lparr>k_lines := ?ls, k_need_write := True\<rparr>"
  have n: "map_of ls ?n = None" using assms(4) by (simp add: list_at_def)
  have "parse_pair (name @ [EQUALS] @ v) = Some (name, v)" using assms by (intro parse_pair_arg) (auto simp: list_name_def)
  moreover have "length ls < MAX_LINES" using assms(10) by (simp add: table_ok_def)
  ultimately have "listadd env (name @ [EQUALS] @ v) k = Some (True, ?k)"
    using assms(3,7) next_name_list [OF assms(4,5)] unfolding listadd_def db_read_stored [OF assms(1,2)] Let_def
    by (simp add: db_add_def list_name_def)
  moreover have "name @ [EQUALS] @ v \<noteq> [COLON]" using assms(3) by (cases name) (auto simp: list_name_def)
  ultimately have l: "kdb_loop env me [cs ''listadd'', name @ [EQUALS] @ v] False k = Some (True, ?k)"
    using assms(9) command_names(1) list_command_names by (intro kdb_loop_single) (simp_all add: kdb_step_lists del: append.simps)
  have "distinct (names ?ls)" using assms(2) n by (auto simp: stored_def names_def map_of_eq_None_iff)
  moreover have "map_of ?ls = (map_of ls)(?n \<mapsto> v)" using n by (auto simp: map_add_def fun_eq_iff split: option.splits)
  ultimately show ?thesis using kdb_main_table [OF assms(1) l assms(10)] by metis
qed

end
