(* ===== verification/KdbSafe.thy ===== *)
theory KdbSafe
  imports KdbCalls
begin

text \<open>
  What a failing call of the configuration tool leaves behind, and the calls that lose records: a damaged line, and
  \<open>rename\<close> without its second name.
\<close>

section \<open>A failing call changes no file\<close>

text \<open>The commands that write files themselves.\<close>

definition file_command :: "cstr \<Rightarrow> bool" where
  "file_command cmd \<longleftrightarrow> cmd \<in> {cs ''edit'', cs ''create'', cs ''import'', cs ''export''}"

lemma get_dbfilename_files: "get_dbfilename env k = Some k' \<Longrightarrow> k_files k' = k_files k"
  using get_dbfilename_eq by (metis kdb.select_convs(10) kdb.surjective kdb.update_convs(1))

lemma db_open_files: "db_open env k = Some (ok, k') \<Longrightarrow> k_files k' = k_files k"
  by (auto simp: db_open_def dest: get_dbfilename_files split: if_splits option.splits)

lemma db_read_files: "db_read env k = Some (ok, k') \<Longrightarrow> k_files k' = k_files k"
  by (auto simp: db_read_def Let_def dest!: db_open_files split: if_splits option.splits prod.splits)

lemma print_files [simp]: "k_files (print_pair n v k) = k_files k" "k_files (print_count c k) = k_files k"
  by (simp_all add: print_pair_def print_count_def put_def Let_def)

lemma fold_print_files [simp]: "k_files (fold (\<lambda>r. print_pair (n r) (v r)) rs k) = k_files k"
  by (induction rs arbitrary: k) simp_all

lemma sskeylist_loop_files: "sskeylist_loop pat p s rs k = Some k' \<Longrightarrow> k_files k' = k_files k"
  by (induction rs arbitrary: k) (auto simp: Let_def split: if_splits)

lemma db_set_index_files [simp]: "k_files (snd (db_set_index i n v k)) = k_files k"
  by (simp add: db_set_index_def Let_def)

lemma db_del_index_files [simp]: "k_files (db_del_index i k) = k_files k"
  by (simp add: db_del_index_def)

lemma set_matching_files [simp]: "k_files (set_matching n v k) = k_files k"
proof -
  have "k_files (fold (\<lambda>i k. if match_wildcard n (fst (k_lines k ! i)) then snd (db_set_index i None (Some v) k) else k) is k) = k_files k" for "is"
    by (induction "is" arbitrary: k) auto
  then show ?thesis by (simp add: set_matching_def)
qed

lemma db_set_files: "db_set env n v k = Some (ok, k') \<Longrightarrow> k_files k' = k_files k"
  by (auto simp: db_set_def db_set_index_def Let_def dest!: db_read_files split: if_splits option.splits prod.splits bool.splits)

lemma del_loop_files: "k_files (del_loop pat i k) = k_files k"
proof (induction pat i k rule: del_loop.induct)
  case (1 pat i k)
  then show ?case by (subst del_loop.simps) (auto split: option.splits)
qed

lemma db_set_all_files: "db_set_all env rs k = Some k' \<Longrightarrow> k_files k' = k_files k"
  by (induction rs arbitrary: k) (fastforce dest: db_set_files split: bind_splits)+

lemma listrm_loop_files: "listrm_loop p key i l k = Some (l', k') \<Longrightarrow> k_files k' = k_files k"
proof (induction p key i l k rule: listrm_loop.induct)
  case (1 p key i l k)
  show ?case
  proof (cases "find_key (item_name p i) (k_lines k)")
    case None
    then show ?thesis using 1(3) by (subst (asm) listrm_loop.simps) simp
  next
    case (Some j)
    obtain n v where "k_lines k ! j = (n, v)" by force
    with 1 Some show ?thesis by (subst (asm) listrm_loop.simps) (auto simp: Let_def split: if_splits)
  qed
qed

lemmas keeps_files = db_read_files sskeylist_loop_files db_set_files db_set_all_files listrm_loop_files

lemma commands_files:
  "list_cmd env p k = Some (ok, k') \<Longrightarrow> k_files k' = k_files k"
  "set_cmd env p k = Some (ok, k') \<Longrightarrow> k_files k' = k_files k"
  "get env p k = Some (ok, k') \<Longrightarrow> k_files k' = k_files k"
  "sublist_cmd env p k = Some (ok, k') \<Longrightarrow> k_files k' = k_files k"
  "listrm env p k = Some (ok, k') \<Longrightarrow> k_files k' = k_files k"
  "listadd env p k = Some (ok, k') \<Longrightarrow> k_files k' = k_files k"
  "isset env p k = Some (ok, k') \<Longrightarrow> k_files k' = k_files k"
  "keylist env p k = Some (ok, k') \<Longrightarrow> k_files k' = k_files k"
  "sskeylist env p q r k = Some (ok, k') \<Longrightarrow> k_files k' = k_files k"
  "del env p k = Some (ok, k') \<Longrightarrow> k_files k' = k_files k"
  "rename env p n k = Some (ok, k') \<Longrightarrow> k_files k' = k_files k"
  unfolding list_cmd_def set_cmd_def get_def sublist_cmd_def listrm_def listadd_def isset_def keylist_def sskeylist_def
    del_def rename_def Let_def
  by (auto simp: del_loop_files dest!: keeps_files split: bind_splits if_splits option.splits prod.splits)

lemma kdb_step_files:
  "kdb_step env me cmd p rest result k = Some (ok, rest', k') \<Longrightarrow> \<not> file_command cmd \<Longrightarrow> k_files k' = k_files k"
  unfolding kdb_step_def Let_def file_command_def
  by (auto dest: commands_files split: if_splits)

lemma kdb_step_rest: "kdb_step env me cmd p rest result k = Some (ok, rest', k') \<Longrightarrow> set rest' \<subseteq> set rest"
  unfolding kdb_step_def Let_def by (auto dest: in_set_dropD split: if_splits)

lemma take_param_set: "take_param args = (p, rest) \<Longrightarrow> set rest \<subseteq> set args"
  by (auto simp: take_param_def dest: list.set_sel(2) split: if_splits)

lemma kdb_loop_files:
  "kdb_loop env me args result k = Some (ok, k') \<Longrightarrow> \<forall>a \<in> set args. \<not> file_command a \<Longrightarrow> k_files k' = k_files k"
proof (induction env me args result k rule: kdb_loop.induct)
  case (1 env me result k)
  then show ?case by (simp add: kdb_loop.simps)
next
  case (2 env me cmd args result k)
  obtain p rest where p: "take_param args = (p, rest)" by force
  show ?case
  proof (cases "cmd \<noteq> [] \<and> hd cmd = COLON")
    case True
    then show ?thesis using 2(1) 2(3,4) by (simp add: kdb_loop.simps split: if_splits)
  next
    case False
    then obtain ok1 rest1 k1 where s: "kdb_step env me cmd p rest result k = Some (ok1, rest1, k1)" "\<not> MAX_LINE_SIZE \<le> length cmd"
        "\<not> MAX_LINE_SIZE \<le> length p" and
        e: "(if \<not> ok1 then Some (False, k1) else kdb_loop env me (drop 1 rest1) True k1) = Some (ok, k')"
      using 2(3) p by (auto simp: kdb_loop.simps split: if_splits option.splits)
    have f: "k_files k1 = k_files k" using kdb_step_files [OF s(1)] 2(4) by simp
    show ?thesis
    proof (cases ok1)
      case True
      have "set (drop 1 rest1) \<subseteq> set args"
        using kdb_step_rest [OF s(1)] take_param_set [OF p] set_drop_subset [of 1 rest1] by blast
      then show ?thesis using 2(2) [OF s(2) False p [symmetric] refl s(3,1) refl refl _] True e 2(4) f by auto
    qed (use e f in simp)
  qed
qed

text \<open>C25: A call without \<open>edit\<close>, \<open>create\<close>, \<open>import\<close> and \<open>export\<close> whose exit status is 1 leaves every file as it was,
  whatever its earlier commands did; one whose exit status is 0 changes at most one file, and only to the text of a
  sorted table.\<close>

theorem kdb_main_atomic:
  assumes "kdb_main env me opts args files input = Some (ok, k')" "\<forall>a \<in> set args. \<not> file_command a"
  shows "k_files k' = files \<or> ok \<and> (\<exists>f ls. k_files k' = files(f \<mapsto> kdb_text ls) \<and> sorted (names ls))"
proof -
  from assms(1) obtain k0 k1 where k: "set_opts opts (kdbinit files input) = Some k0" "kdb_loop env me args False k0 = Some (ok, k1)"
      "(if ok \<and> k_need_write k1 then map_option snd (db_write k1) else Some k1) = Some k' \<or>
       (\<exists>k2. (if ok \<and> k_need_write k1 then map_option snd (db_write k1) else Some k1) = Some k2 \<and> k' = db_close k2)"
    by (auto simp: kdb_main_def split: bind_splits)
  have f: "k_files k1 = files" using kdb_loop_files [OF k(2) assms(2)] set_opts_keeps [OF k(1)] by (simp add: kdbinit_def)
  have w: "db_write k1 = Some (b, k2) \<Longrightarrow> k_files k2 = files \<or> (\<exists>f ls. k_files k2 = files(f \<mapsto> kdb_text ls) \<and> sorted (names ls))" for b k2
    using f db_sort_facts(4) [of "k_lines k1"] unfolding names_def
    by (auto simp: db_write_def Let_def put_def split: option.splits if_splits)
  have c: "k_files (db_close k) = k_files k" for k by (simp add: db_close_def)
  show ?thesis using k(3) f w c by (auto split: if_splits)
qed

theorem kdb_main_atomic_witness:
  "\<exists>k'. kdb_main sample_env (cs ''kdb'') [] [cs ''set'', cs ''b=2'', [COLON], cs ''isset'', cs ''c''] sample_files None = Some (False, k') \<and>
    k_files k' = sample_files"
proof -
  let ?k = "kdbinit sample_files None" let ?ls = "update_table (cs ''b'') (cs ''2'') sample_table"
  let ?k1 = "(loaded ?k (cs ''/etc/kdb'') sample_table)\<lparr>k_lines := ?ls, k_need_write := True\<rparr>"
  have p: "parse_pair (cs ''b=2'') = Some (cs ''b'', cs ''2'')" "cs ''2'' \<noteq> ENV_STRING" "\<not> is_wildcarded (cs ''b'')"
    "length ?ls \<le> MAX_LINES" "find_key (cs ''c'') ?ls = None" by code_simp+
  have c: "length (cs s) = length s" "cs ''b=2'' \<noteq> [COLON]" "cs ''c'' \<noteq> [COLON]" for s by (simp_all add: cs_def)
  have "set_cmd sample_env (cs ''b=2'') ?k = Some (True, ?k1)"
    using p by (simp add: set_cmd_def db_read_stored [OF sample_starts sample_stored] db_set_table)
  moreover have "isset sample_env (cs ''c'') ?k1 = Some (False, ?k1)" using p by (simp add: isset_def db_read_loaded)
  ultimately have "kdb_loop sample_env (cs ''kdb'') [cs ''set'', cs ''b=2'', [COLON], cs ''isset'', cs ''c''] False ?k = Some (False, ?k1)"
    using command_names c by (simp add: kdb_loop.simps take_param_def kdb_step_eqs)
  then obtain k' where k': "kdb_main sample_env (cs ''kdb'') [] [cs ''set'', cs ''b=2'', [COLON], cs ''isset'', cs ''c''] sample_files None = Some (False, k')"
    using kdb_main_read [OF sample_starts] by blast
  have "\<forall>a \<in> set [cs ''set'', cs ''b=2'', [COLON], cs ''isset'', cs ''c'']. \<not> file_command a" by code_simp
  then show ?thesis using kdb_main_atomic [OF k'] k' by blast
qed

section \<open>Calls that lose records\<close>

text \<open>\<open>rename old\<close> without a new name, for a name that is not the first, returns 0 and deletes the first record of the
  database; nothing is renamed.\<close>

theorem kdb_rename_loses_first:
  assumes "starts env opts files input k f" "stored files f (r # ls)" "map_of ls old = Some v"
    "length old < MAX_LINE_SIZE" "old \<noteq> [COLON]"
  shows "\<exists>k' ls'. kdb_main env me opts [cs ''rename'', old] files input = Some (True, k') \<and>
    k_files k' = files(f \<mapsto> kdb_text ls') \<and> mset ls' = mset ls"
proof -
  let ?k = "loaded k f (r # ls)" let ?k1 = "?k\<lparr>k_lines := ls, k_need_write := True\<rparr>"
  have "db_del_index 0 ?k = ?k1" by (simp add: db_del_index_def)
  moreover have "find_key old ls \<noteq> None" using assms(3) find_key_None_map [of old ls] by simp
  then obtain i where i: "find_key old ls = Some i" by blast
  moreover have "db_set_index i None None ?k1 = (True, ?k1)" using find_key_less [OF i] by (simp add: db_set_index_def)
  ultimately have "rename env old None k = Some (True, ?k1)"
    unfolding rename_def db_read_stored [OF assms(1,2)] Let_def by (simp add: find_key_ptr_def)
  then have l: "kdb_loop env me [cs ''rename'', old] False k = Some (True, ?k1)"
    using assms(4,5) command_names by (intro kdb_loop_single) (simp_all add: kdb_step_eqs)
  have "length (kdb_text ls) < READ_BUFFER_LEN" using assms(2) by (simp add: stored_def table_ok_def kdb_text_length)
  then have "\<exists>k'. kdb_main env me opts [cs ''rename'', old] files input = Some (True, k') \<and> k_files k' = files(f \<mapsto> kdb_text (db_sort ls))"
    using starts_fresh [OF assms(1)] by (simp add: kdb_main_written [OF assms(1) l])
  then show ?thesis using db_sort_facts(1) by blast
qed

theorem kdb_rename_loses_first_witness:
  "\<exists>k' ls'. kdb_main sample_env (cs ''kdb'') [] [cs ''rename'', cs ''b''] sample_files None = Some (True, k') \<and>
    k_files k' (cs ''/etc/kdb'') = Some (kdb_text ls') \<and> cs ''a_0'' \<notin> set (names ls') \<and> cs ''b'' \<in> set (names ls')"
proof -
  let ?ls = "[(cs ''a_1'', cs ''y''), (cs ''b'', cs ''1'')]"
  have s: "stored sample_files (cs ''/etc/kdb'') ((cs ''a_0'', cs ''x'') # ?ls)" using sample_stored by (simp add: sample_table_def)
  have p: "map_of ?ls (cs ''b'') = Some (cs ''1'')" "length (cs ''b'') < MAX_LINE_SIZE" "cs ''b'' \<noteq> [COLON]" by (simp, code_simp, code_simp)
  obtain k' ls' where k': "kdb_main sample_env (cs ''kdb'') [] [cs ''rename'', cs ''b''] sample_files None = Some (True, k')"
      "k_files k' = sample_files(cs ''/etc/kdb'' \<mapsto> kdb_text ls')" "mset ls' = mset ?ls"
    using kdb_rename_loses_first [OF sample_starts s p] by blast
  have "set (names ls') = {cs ''a_1'', cs ''b''}" using mset_eq_setD [OF k'(3)] by (simp add: names_def)
  then show ?thesis using k' by auto
qed

text \<open>A line that cannot be read, behind records that can.\<close>

definition damaged_text :: "db_record list \<Rightarrow> cstr \<Rightarrow> cstr \<Rightarrow> cstr" where
  "damaged_text ls bad rest = HEADER_LINE @ concat (List.map db_serialize ls) @ bad @ [NL] @ rest"

definition bad_line :: "cstr \<Rightarrow> bool" where
  "bad_line bad \<longleftrightarrow> NL \<notin> set bad \<and> EQUALS \<notin> set bad \<and> length bad + 1 < READ_BUFFER_LEN \<and> c_str (bad @ [NL]) \<noteq> FOOTER_LINE"

lemma parse_no_equals: "EQUALS \<notin> set s \<Longrightarrow> parse_pair s = None"
proof -
  assume "EQUALS \<notin> set s"
  then have "takeWhile (\<lambda>c. c \<noteq> EQUALS) s = s" "takeWhile (\<lambda>c. c \<noteq> EQUALS) (butlast s) = butlast s"
    by (auto simp: takeWhile_eq_all_conv dest: in_set_butlastD)
  then show ?thesis by (simp add: parse_pair_def Let_def del: takeWhile_eq_all_conv)
qed

lemma read_lines_damaged:
  assumes "list_all record_ok ls" "length ls0 + length ls \<le> MAX_LINES"
    "\<forall>r \<in> set ls. length (db_serialize r) < READ_BUFFER_LEN" "bad_line bad"
  shows "read_lines (concat (List.map db_serialize ls) @ bad @ [NL] @ rest) ls0 = Some (False, ls0 @ ls, rest)"
  using assms
proof (induction ls arbitrary: ls0)
  case Nil
  have f: "fgets READ_BUFFER_LEN (bad @ [NL] @ rest) = Some (bad @ [NL], rest)" using Nil by (intro fgets_line) (simp_all add: bad_line_def)
  have "EQUALS \<notin> set (c_str (bad @ [NL]))" using Nil by (auto simp: bad_line_def c_str_def dest: set_takeWhileD)
  then have "db_unserialize (c_str (bad @ [NL])) ls0 = Some (False, ls0)" by (simp add: db_unserialize_def parse_no_equals)
  then show ?case using Nil f by (simp add: read_lines.simps [of "bad @ [NL] @ rest"] bad_line_def del: append.simps) (simp add: read_lines.simps)
next
  case (Cons r ls)
  let ?s = "concat (List.map db_serialize ls) @ bad @ [NL] @ rest"
  have "fgets READ_BUFFER_LEN (db_serialize r @ ?s) = Some (db_serialize r, ?s)" using Cons.prems by (intro fgets_serialize) simp
  moreover have "db_unserialize (db_serialize r) ls0 = Some (True, ls0 @ [r])"
    using Cons.prems by (intro unserialize_serialize) simp_all
  moreover have "read_lines ?s (ls0 @ [r]) = Some (False, (ls0 @ [r]) @ ls, rest)" using Cons.prems by (intro Cons.IH) simp_all
  ultimately have "read_lines (db_serialize r @ ?s) ls0 = Some (False, ls0 @ r # ls, rest)"
    by (subst read_lines.simps) (simp add: serialize_facts)
  then show ?case by simp
qed

lemma db_read_damaged:
  assumes "fresh_db env k f" "k_files k f = Some (damaged_text ls bad rest)" "table_ok ls" "bad_line bad"
  shows "db_read env k = Some (False, (loaded k f ls)\<lparr>k_file := Some \<lparr>st_path = Some f, st_rest = rest\<rparr>, k_already_read := False\<rparr>)"
proof -
  from assms(1) obtain k1 where k1: "get_dbfilename env k = Some k1" "k_filename k1 = f"
    by (auto simp: fresh_db_def)
  then have e: "k1 = k\<lparr>k_filename := f\<rparr>" using get_dbfilename_eq by metis
  let ?s = "concat (List.map db_serialize ls) @ bad @ [NL] @ rest"
  have o: "db_open env k = Some (True, k\<lparr>k_filename := f, k_file := Some \<lparr>st_path = Some f, st_rest = damaged_text ls bad rest\<rparr>\<rparr>)"
    using assms k1 e by (simp add: db_open_def fresh_db_def)
  have h: "fgets 15 (damaged_text ls bad rest) = Some (HEADER_LINE, ?s)"
    unfolding damaged_text_def by (rule fgets_header)
  have "\<forall>r \<in> set ls. length (db_serialize r) < READ_BUFFER_LEN"
    using assms(3) length_serialize_le [of _ ls] by (fastforce simp: table_ok_def kdb_text_def)
  then have "read_lines ?s [] = Some (False, [] @ ls, rest)"
    using assms(3,4) by (intro read_lines_damaged) (simp_all add: table_ok_def)
  then show ?thesis using assms(1) by (simp add: db_read_def fresh_db_def o h footer_facts loaded_def)
qed

text \<open>C26: On a database with a damaged line \<open>del pattern\<close> ignores that reading failed: when the pattern matches a record in
  front of that line the call returns 0 and writes back only the records in front of it, whatever followed the line.\<close>

theorem kdb_del_truncates:
  assumes "starts env opts files input k f" "files f = Some (damaged_text ls bad rest)" "table_ok ls" "bad_line bad"
    "unmatched pat ls \<noteq> ls" "length pat < MAX_LINE_SIZE" "pat \<noteq> [COLON]"
  shows "\<exists>k'. kdb_main env me opts [cs ''del'', pat] files input = Some (True, k') \<and>
    k_files k' = files(f \<mapsto> kdb_text (db_sort (unmatched pat ls)))"
proof -
  note s = starts_fresh [OF assms(1)]
  let ?k = "(loaded k f ls)\<lparr>k_file := Some \<lparr>st_path = Some f, st_rest = rest\<rparr>, k_already_read := False\<rparr>"
  have r: "db_read env k = Some (False, ?k)" using s assms by (intro db_read_damaged) auto
  have "del_loop pat 0 ?k = ?k\<lparr>k_lines := unmatched pat ls, k_need_write := True\<rparr>"
    using assms(5) by (subst del_loop_filter) (simp_all add: unmatched_def)
  then have l: "kdb_loop env me [cs ''del'', pat] False k = Some (True, ?k\<lparr>k_lines := unmatched pat ls, k_need_write := True\<rparr>)"
    using assms(6,7) command_names by (intro kdb_loop_single) (simp_all add: kdb_step_eqs del_def r)
  have "length (kdb_text (unmatched pat ls)) < READ_BUFFER_LEN" using unmatched_ok(1) [OF assms(3)] by (simp add: table_ok_def)
  then show ?thesis using s by (simp add: kdb_main_written [OF assms(1) l])
qed

definition damaged_files :: "cstr \<rightharpoonup> cstr" where
  "damaged_files = [cs ''/etc/kdb'' \<mapsto> damaged_text sample_table (cs ''bad'') (cs ''c=3'')]"

theorem kdb_del_truncates_witness:
  "\<exists>k'. kdb_main sample_env (cs ''kdb'') [] [cs ''del'', cs ''a_0''] damaged_files None = Some (True, k') \<and>
    k_files k' (cs ''/etc/kdb'') = Some (kdb_text [(cs ''a_1'', cs ''y''), (cs ''b'', cs ''1'')])"
proof -
  have f: "damaged_files (cs ''/etc/kdb'') = Some (damaged_text sample_table (cs ''bad'') (cs ''c=3''))"
    by (simp add: damaged_files_def)
  have p: "bad_line (cs ''bad'')" "unmatched (cs ''a_0'') sample_table \<noteq> sample_table" "length (cs ''a_0'') < MAX_LINE_SIZE"
    "cs ''a_0'' \<noteq> [COLON]" "db_sort (unmatched (cs ''a_0'') sample_table) = [(cs ''a_1'', cs ''y''), (cs ''b'', cs ''1'')]"
    by code_simp+
  show ?thesis using kdb_del_truncates [where files = damaged_files and f = "cs ''/etc/kdb''" and me = "cs ''kdb''", OF starts_root f sample_table_ok p(1-4)] p(5) by auto
qed

end
