(* ===== verification/SwitchCore.thy ===== *)
theory SwitchCore
  imports Decimal
begin

text \<open>
  The core of the Ethernet switch drivers (\<open>package/switch/src/switch-core.c\<close>): the texts of VLANs and media, the files
  under \<open>/proc/switch\<close>, and the registration of drivers. Outcomes of \<open>kmalloc\<close> are arguments; a null dereference or an
  undefined shift is \<open>None\<close>. Calls of \<open>proc_mkdir\<close> and \<open>create_proc_entry\<close> succeed.
\<close>

section \<open>VLANs\<close>

record vlan_config =
  vc_port :: u32
  vc_untag :: u32
  vc_pvid :: u32

text \<open>A handler as it is registered: its name and whether it can be read and written.\<close>

type_synonym switch_config = "cstr \<times> bool \<times> bool"

record switch_driver =
  sd_name :: cstr
  sd_version :: cstr
  sd_interface :: cstr
  sd_cpuport :: nat
  sd_ports :: nat
  sd_vlans :: nat
  sd_driver_handlers :: "switch_config list option"
  sd_port_handlers :: "switch_config list option"
  sd_vlan_handlers :: "switch_config list option"

abbreviation TAB :: u8 where "TAB \<equiv> 9"
abbreviation LF :: u8 where "LF \<equiv> 10"
abbreviation LOWER_U :: u8 where "LOWER_U \<equiv> 0x75"
abbreviation LOWER_T :: u8 where "LOWER_T \<equiv> 0x74"
abbreviation ASTERISK :: u8 where "ASTERISK \<equiv> 0x2A"

definition is_space :: "u8 \<Rightarrow> bool" where
  "is_space c \<longleftrightarrow> c = 0x20 \<or> c = 9 \<or> c = 0xA \<or> c = 0xD"

text \<open>The characters behind a port number set or clear the flags untagged and default.\<close>

definition port_flag :: "u8 \<Rightarrow> bool \<times> bool \<Rightarrow> bool \<times> bool" where
  "port_flag c up =
     (if c = LOWER_U then (True, snd up) else if c = LOWER_T then (False, snd up) else if c = ASTERISK then (fst up, True) else up)"

definition port_flags :: "cstr \<Rightarrow> bool \<Rightarrow> bool \<times> bool" where
  "port_flags suf u = fold port_flag suf (u, False)"

definition add_port :: "nat \<Rightarrow> bool \<Rightarrow> bool \<Rightarrow> vlan_config \<Rightarrow> vlan_config" where
  "add_port j u p c =
     (let m = push_bit j 1 in
      \<lparr>vc_port = vc_port c OR m, vc_untag = (if u then vc_untag c OR m else vc_untag c),
       vc_pvid = (if p then vc_pvid c OR m else vc_pvid c)\<rparr>)"

abbreviation INT_MAX :: nat where "INT_MAX \<equiv> 0x7FFFFFFF"

lemma length_skip: "length (dropWhile P (drop n xs)) < Suc (length xs)"
  using length_dropWhile_le [of P "drop n xs"] by simp

text \<open>The loop over the ports; a number too large for an \<open>int\<close> or for the shift is \<open>None\<close>.\<close>

function vlan_loop :: "switch_driver \<Rightarrow> cstr \<Rightarrow> nat \<Rightarrow> vlan_config \<Rightarrow> (vlan_config \<times> cstr) option" where
  "vlan_loop d [] j c = Some (c, [])"
| "vlan_loop d (ch # buf) j c =
     (if \<not> is_digit ch then Some (c, ch # buf)
      else
        (let j = j * 10 + unat (ch - 0x30) in
         if INT_MAX < j then None
         else if buf \<noteq> [] \<and> is_digit (hd buf) then vlan_loop d buf j c
         else if 32 \<le> j then None
         else
           (let suf = takeWhile (\<lambda>c. \<not> is_space c) buf; (u, p) = port_flags suf (j \<noteq> sd_cpuport d)
            in vlan_loop d (dropWhile is_space (drop (length suf) buf)) 0 (add_port j u p c))))"
  by pat_completeness auto
termination
  by (relation "measure (\<lambda>(d, buf, j, c). length buf)")
    (auto simp: length_skip)

declare vlan_loop.simps [simp del]

text \<open>The mask of \<open>n\<close> ports, computed as \<open>(1 << n) - 1\<close> in an \<open>int\<close>: the shift is undefined from 32 on, and at 31 the
  subtraction overflows.\<close>

definition mask_ports :: "nat \<Rightarrow> vlan_config \<Rightarrow> vlan_config option" where
  "mask_ports n c =
     (if 31 \<le> n then None
      else
        (let m = push_bit n 1 - 1
         in Some \<lparr>vc_port = vc_port c AND m, vc_untag = vc_untag c AND m, vc_pvid = vc_pvid c AND m\<rparr>))"

definition switch_parse_vlan :: "switch_driver \<Rightarrow> bool \<Rightarrow> cstr \<Rightarrow> vlan_config option option" where
  "switch_parse_vlan d alloc buf =
     (if \<not> alloc then None
      else
        (case vlan_loop d (dropWhile is_space buf) 0 \<lparr>vc_port = 0, vc_untag = 0, vc_pvid = 0\<rparr> of
           None \<Rightarrow> None
         | Some (c, rest) \<Rightarrow>
             if rest \<noteq> [] then Some None else map_option Some (mask_ports (sd_ports d) c)))"

section \<open>Media\<close>

abbreviation SWITCH_MEDIA_AUTO :: int where "SWITCH_MEDIA_AUTO \<equiv> 1"
abbreviation SWITCH_MEDIA_100 :: int where "SWITCH_MEDIA_100 \<equiv> 2"
abbreviation SWITCH_MEDIA_FD :: int where "SWITCH_MEDIA_FD \<equiv> 4"

definition to_upper :: "u8 \<Rightarrow> u8" where
  "to_upper c = (if c - 0x61 < 26 then c XOR 0x20 else c)"

definition starts_with :: "cstr \<Rightarrow> cstr \<Rightarrow> bool" where
  "starts_with p s \<longleftrightarrow> take (length p) s = p"

definition switch_parse_media :: "cstr \<Rightarrow> int" where
  "switch_parse_media buf =
     (let str = List.map to_upper buf in
      if starts_with (cs ''AUTO'') str then SWITCH_MEDIA_AUTO
      else if starts_with (cs ''100FD'') str then SWITCH_MEDIA_100 OR SWITCH_MEDIA_FD
      else if starts_with (cs ''100HD'') str then SWITCH_MEDIA_100
      else if starts_with (cs ''10FD'') str then SWITCH_MEDIA_FD
      else if starts_with (cs ''10HD'') str then 0
      else - 1)"

definition switch_print_media :: "int \<Rightarrow> cstr" where
  "switch_print_media media =
     (if media AND SWITCH_MEDIA_AUTO \<noteq> 0 then cs ''Auto''
      else if media = SWITCH_MEDIA_100 OR SWITCH_MEDIA_FD then cs ''100FD''
      else if media = SWITCH_MEDIA_100 then cs ''100HD''
      else if media = SWITCH_MEDIA_FD then cs ''10FD''
      else if media = 0 then cs ''10HD''
      else cs ''Invalid'')"

section \<open>The files\<close>

abbreviation ENOBUFS :: int where "ENOBUFS \<equiv> 105"
abbreviation EFAULT :: int where "EFAULT \<equiv> 14"
abbreviation EINVAL :: int where "EINVAL \<equiv> 22"

text \<open>Reading: the text of the handler, if there is one, and the byte of the page behind it. \<open>pages\<close> counts the pages
  that are allocated; \<open>copied\<close> tells whether a number of bytes can be copied to the user.\<close>

definition switch_proc_read ::
  "bool \<Rightarrow> (int \<Rightarrow> bool) \<Rightarrow> cstr option \<Rightarrow> u8 \<Rightarrow> u32 \<Rightarrow> int \<Rightarrow> int \<Rightarrow> int \<times> u8 list \<times> int \<times> int" where
  "switch_proc_read alloc copied txt junk cnt pos pages =
     (if \<not> alloc then (- ENOBUFS, [], pos, pages)
      else
        (let page = (case txt of None \<Rightarrow> [] | Some t \<Rightarrow> t) @ [junk]; len = int (length page); pages = pages + 1 in
         if pos < len then
           (let n = min (len - pos) (sint cnt) in
            if n < 0 \<or> \<not> copied n then (- EFAULT, [], pos, pages - 1)
            else (n, take (nat n) (drop (nat pos) page), pos + n, pages))
         else (0, [], pos, pages)))"

text \<open>Writing: the handler gets the bytes up to the first NUL.\<close>

definition switch_proc_write ::
  "bool \<Rightarrow> bool \<Rightarrow> (cstr \<Rightarrow> 'w \<Rightarrow> (int \<times> 'w) option) option \<Rightarrow> u8 list \<Rightarrow> 'w \<Rightarrow> (int \<times> 'w) option" where
  "switch_proc_write alloc copied h data w =
     (if \<not> alloc then Some (- ENOBUFS, w)
      else if \<not> copied then Some (- EINVAL, w)
      else
        (case h of
           None \<Rightarrow> Some (- EINVAL, w)
         | Some h \<Rightarrow>
             (case h (takeWhile (\<lambda>c. c \<noteq> 0) data) w of
                None \<Rightarrow> None
              | Some (ret, w) \<Rightarrow> Some (if 0 \<le> ret then int (length data) else ret, w))))"

definition handle_driver_name :: "switch_driver \<Rightarrow> cstr" where
  "handle_driver_name d = sd_name d @ [LF]"

definition handle_driver_version :: "switch_driver \<Rightarrow> cstr" where
  "handle_driver_version d = sd_version d @ [LF]"

section \<open>Registration\<close>

text \<open>A registered driver with its number and its handlers (directory and name), the latest first. The tree is the list of
  the paths under \<open>/proc/switch\<close>.\<close>

type_synonym path = "cstr list"

record registered =
  rg_driver :: switch_driver
  rg_nr :: int
  rg_handlers :: "(path \<times> cstr) list"

record switch_state =
  ss_drivers :: "registered list"
  ss_num :: int
  ss_tree :: "path list"
  ss_kmalloc :: "bool list"

definition sw_kmalloc :: "switch_state \<Rightarrow> bool \<times> switch_state" where
  "sw_kmalloc s = (case ss_kmalloc s of [] \<Rightarrow> (True, s) | b # bs \<Rightarrow> (b, s\<lparr>ss_kmalloc := bs\<rparr>))"

text \<open>An allocation whose result is used unchecked.\<close>

definition sw_alloc :: "switch_state \<Rightarrow> switch_state option" where
  "sw_alloc s = (case sw_kmalloc s of (True, s) \<Rightarrow> Some s | (False, s) \<Rightarrow> None)"

definition proc_mkdir :: "path \<Rightarrow> switch_state \<Rightarrow> switch_state" where
  "proc_mkdir p s = s\<lparr>ss_tree := p # ss_tree s\<rparr>"

definition remove_proc_entry :: "path \<Rightarrow> switch_state \<Rightarrow> switch_state" where
  "remove_proc_entry p s = s\<lparr>ss_tree := remove1 p (ss_tree s)\<rparr>"

fun add_handlers :: "switch_config list \<Rightarrow> path \<Rightarrow> (path \<times> cstr) list \<Rightarrow> switch_state \<Rightarrow> ((path \<times> cstr) list \<times> switch_state) option" where
  "add_handlers [] parent hs s = Some (hs, s)"
| "add_handlers (h # handlers) parent hs s =
     (case sw_alloc s of
        None \<Rightarrow> None
      | Some s \<Rightarrow> add_handlers handlers parent ((parent, fst h) # hs) (proc_mkdir (parent @ [fst h]) s))"

definition global_driver_handlers :: "switch_config list" where
  "global_driver_handlers = [(cs ''driver'', True, False), (cs ''version'', True, False)]"

text \<open>The directories of the ports or the VLANs; the name is printed into an array of four bytes.\<close>

fun add_dirs :: "switch_config list option \<Rightarrow> path \<Rightarrow> nat list \<Rightarrow> (path \<times> cstr) list \<Rightarrow> switch_state \<Rightarrow> ((path \<times> cstr) list \<times> switch_state) option" where
  "add_dirs handlers dir [] hs s = Some (hs, s)"
| "add_dirs handlers dir (i # is) hs s =
     (if 4 \<le> length (dec i) then None
      else
        (let p = dir @ [dec i]; s = proc_mkdir p s in
         (case (case handlers of None \<Rightarrow> Some (hs, s) | Some h \<Rightarrow> add_handlers h p hs s) of
            None \<Rightarrow> None
          | Some (hs, s) \<Rightarrow> add_dirs handlers dir is hs s)))"

definition port_dir :: "switch_driver \<Rightarrow> path" where "port_dir d = [sd_interface d, cs ''port'']"
definition vlan_dir :: "switch_driver \<Rightarrow> path" where "vlan_dir d = [sd_interface d, cs ''vlan'']"

definition do_register :: "switch_driver \<Rightarrow> switch_state \<Rightarrow> (int \<times> registered \<times> switch_state) option" where
  "do_register d s =
     (case sw_kmalloc s of
        (False, s) \<Rightarrow> Some (- ENOBUFS, \<lparr>rg_driver = d, rg_nr = 0, rg_handlers = []\<rparr>, s)
      | (True, s) \<Rightarrow>
          (let nr = ss_num s; s = proc_mkdir [sd_interface d] (s\<lparr>ss_num := nr + 1\<rparr>) in
          (case (case sd_driver_handlers d of
                  None \<Rightarrow> Some ([], s)
                | Some h \<Rightarrow> add_handlers (h @ global_driver_handlers) [sd_interface d] [] s) of
            None \<Rightarrow> None
          | Some (hs, s) \<Rightarrow>
              (case sw_alloc (proc_mkdir (port_dir d) s) of
                 None \<Rightarrow> None
               | Some s \<Rightarrow>
                   (case add_dirs (sd_port_handlers d) (port_dir d) [0..<sd_ports d] hs s of
                      None \<Rightarrow> None
                    | Some (hs, s) \<Rightarrow>
                        (case sw_alloc (proc_mkdir (vlan_dir d) s) of
                           None \<Rightarrow> None
                         | Some s \<Rightarrow>
                             (case add_dirs (sd_vlan_handlers d) (vlan_dir d) [0..<sd_vlans d] hs s of
                                None \<Rightarrow> None
                              | Some (hs, s) \<Rightarrow> Some (0, \<lparr>rg_driver = d, rg_nr = nr, rg_handlers = hs\<rparr>, s))))))))"

definition remove_handlers :: "(path \<times> cstr) list \<Rightarrow> switch_state \<Rightarrow> switch_state" where
  "remove_handlers hs s = fold (\<lambda>(p, n). remove_proc_entry (p @ [n])) hs s"

definition remove_dirs :: "path \<Rightarrow> nat \<Rightarrow> switch_state \<Rightarrow> switch_state" where
  "remove_dirs dir n s = remove_proc_entry dir (fold (\<lambda>i. remove_proc_entry (dir @ [dec i])) [0..<n] s)"

definition do_unregister :: "registered \<Rightarrow> switch_state \<Rightarrow> switch_state" where
  "do_unregister r s =
     (let d = rg_driver r;
          s = remove_dirs (vlan_dir d) (sd_vlans d) (remove_dirs (port_dir d) (sd_ports d) (remove_handlers (rg_handlers r) s));
          s = remove_proc_entry [sd_interface d] s
      in if rg_nr r = ss_num s - 1 then s\<lparr>ss_num := ss_num s - 1\<rparr> else s)"

definition switch_register_driver :: "switch_driver \<Rightarrow> switch_state \<Rightarrow> (int \<times> switch_state) option" where
  "switch_register_driver d s =
     (if \<exists>r \<in> set (ss_drivers s). sd_name (rg_driver r) = sd_name d \<or> sd_interface (rg_driver r) = sd_interface d
      then Some (- EINVAL, s)
      else
        (case sw_alloc s of
           None \<Rightarrow> None
         | Some s \<Rightarrow>
             (case sw_alloc s of
                None \<Rightarrow> None
              | Some s \<Rightarrow>
                  (case sw_alloc s of
                     None \<Rightarrow> None
                   | Some s \<Rightarrow>
                       (case do_register d s of
                          None \<Rightarrow> None
                        | Some (ret, r, s) \<Rightarrow>
                            if ret < 0 then Some (ret, s) else Some (0, s\<lparr>ss_drivers := r # ss_drivers s\<rparr>))))))"

fun take_driver :: "cstr \<Rightarrow> registered list \<Rightarrow> (registered \<times> registered list) option" where
  "take_driver name [] = None"
| "take_driver name (r # rs) =
     (if sd_name (rg_driver r) = name then Some (r, rs)
      else map_option (\<lambda>(x, xs). (x, r # xs)) (take_driver name rs))"

definition switch_unregister_driver :: "cstr \<Rightarrow> switch_state \<Rightarrow> switch_state" where
  "switch_unregister_driver name s =
     (case take_driver name (ss_drivers s) of
        None \<Rightarrow> s
      | Some (r, rs) \<Rightarrow> (do_unregister r s)\<lparr>ss_drivers := rs\<rparr>)"

text \<open>The root directory is the empty path; \<open>ok\<close> tells whether it can be made.\<close>

definition switch_init :: "bool \<Rightarrow> switch_state \<Rightarrow> int \<times> switch_state" where
  "switch_init ok s = (if ok then (0, (proc_mkdir [] s)\<lparr>ss_drivers := []\<rparr>) else (- 19, s))"

definition switch_exit :: "switch_state \<Rightarrow> switch_state" where
  "switch_exit s = remove_proc_entry [] s"

end
