(* ===== verification/SwitchRobo.thy ===== *)
theory SwitchRobo
  imports SwitchCore
begin

text \<open>
  The Broadcom switch driver (\<open>package/switch/src/switch-robo.c\<close>). The calls of the network driver through which the chip is
  reached are parameters on a state of the outside world; a failing write only prints a message. Both operands of a sum are
  evaluated from left to right.
\<close>

section \<open>Access to the chip\<close>

record 'w robo_bus =
  rb_mii_read :: "u16 \<Rightarrow> u8 \<Rightarrow> 'w \<Rightarrow> u16 option \<times> 'w"
  rb_mii_write :: "u16 \<Rightarrow> u8 \<Rightarrow> u16 \<Rightarrow> 'w \<Rightarrow> 'w"
  rb_et_read :: "u8 \<Rightarrow> 'w \<Rightarrow> u16 option \<times> 'w"
  rb_et_write :: "u8 \<Rightarrow> u16 \<Rightarrow> 'w \<Rightarrow> 'w"

text \<open>The static flags of the driver.\<close>

record robo =
  use_et :: bool
  is_5350 :: bool

abbreviation ROBO_PHY_ADDR :: u16 where "ROBO_PHY_ADDR \<equiv> 0x1E"
abbreviation REG_MII_PAGE :: u8 where "REG_MII_PAGE \<equiv> 0x10"
abbreviation REG_MII_ADDR :: u8 where "REG_MII_ADDR \<equiv> 0x11"
abbreviation REG_MII_DATA0 :: u8 where "REG_MII_DATA0 \<equiv> 0x18"
abbreviation REG_MII_PAGE_ENABLE :: u16 where "REG_MII_PAGE_ENABLE \<equiv> 1"
abbreviation REG_MII_ADDR_WRITE :: u16 where "REG_MII_ADDR_WRITE \<equiv> 1"
abbreviation REG_MII_ADDR_READ :: u16 where "REG_MII_ADDR_READ \<equiv> 2"

definition mdio_read :: "'w robo_bus \<Rightarrow> robo \<Rightarrow> u16 \<Rightarrow> u8 \<Rightarrow> 'w \<Rightarrow> u16 \<times> 'w" where
  "mdio_read bus rb phy_id reg w =
     (if use_et rb then
        if phy_id \<noteq> ROBO_PHY_ADDR then (0xFFFF, w)
        else (case rb_et_read bus reg w of (None, w) \<Rightarrow> (0xFFFF, w) | (Some v, w) \<Rightarrow> (v, w))
      else (case rb_mii_read bus phy_id reg w of (None, w) \<Rightarrow> (0xFFFF, w) | (Some v, w) \<Rightarrow> (v, w)))"

definition mdio_write :: "'w robo_bus \<Rightarrow> robo \<Rightarrow> u16 \<Rightarrow> u8 \<Rightarrow> u16 \<Rightarrow> 'w \<Rightarrow> 'w" where
  "mdio_write bus rb phy_id reg val w =
     (if use_et rb then if phy_id \<noteq> ROBO_PHY_ADDR then w else rb_et_write bus reg val w
      else rb_mii_write bus phy_id reg val w)"

text \<open>The operation is looked at three times at most; a time-out is only reported.\<close>

fun robo_poll :: "nat \<Rightarrow> 'w robo_bus \<Rightarrow> robo \<Rightarrow> 'w \<Rightarrow> 'w" where
  "robo_poll 0 bus rb w = w"
| "robo_poll (Suc i) bus rb w =
     (case mdio_read bus rb ROBO_PHY_ADDR REG_MII_ADDR w of
        (v, w) \<Rightarrow> if v AND 3 = 0 then w else robo_poll i bus rb w)"

definition robo_reg :: "'w robo_bus \<Rightarrow> robo \<Rightarrow> u8 \<Rightarrow> u8 \<Rightarrow> u16 \<Rightarrow> 'w \<Rightarrow> 'w" where
  "robo_reg bus rb page reg op w =
     (let w = mdio_write bus rb ROBO_PHY_ADDR REG_MII_PAGE (push_bit 8 (ucast page) OR REG_MII_PAGE_ENABLE) w;
          w = mdio_write bus rb ROBO_PHY_ADDR REG_MII_ADDR (push_bit 8 (ucast reg) OR op) w
      in robo_poll 3 bus rb w)"

fun robo_read_loop :: "nat list \<Rightarrow> 'w robo_bus \<Rightarrow> robo \<Rightarrow> 'w \<Rightarrow> u16 list \<times> 'w" where
  "robo_read_loop [] bus rb w = ([], w)"
| "robo_read_loop (i # is) bus rb w =
     (let (v, w) = mdio_read bus rb ROBO_PHY_ADDR (REG_MII_DATA0 + of_nat i) w; (vs, w) = robo_read_loop is bus rb w in (v # vs, w))"

definition robo_read :: "'w robo_bus \<Rightarrow> robo \<Rightarrow> u8 \<Rightarrow> u8 \<Rightarrow> nat \<Rightarrow> 'w \<Rightarrow> u16 list \<times> 'w" where
  "robo_read bus rb page reg n w = robo_read_loop [0..<n] bus rb (robo_reg bus rb page reg REG_MII_ADDR_READ w)"

definition robo_read16 :: "'w robo_bus \<Rightarrow> robo \<Rightarrow> u8 \<Rightarrow> u8 \<Rightarrow> 'w \<Rightarrow> u16 \<times> 'w" where
  "robo_read16 bus rb page reg w = mdio_read bus rb ROBO_PHY_ADDR REG_MII_DATA0 (robo_reg bus rb page reg REG_MII_ADDR_READ w)"

definition robo_read32 :: "'w robo_bus \<Rightarrow> robo \<Rightarrow> u8 \<Rightarrow> u8 \<Rightarrow> 'w \<Rightarrow> u32 \<times> 'w" where
  "robo_read32 bus rb page reg w =
     (let w = robo_reg bus rb page reg REG_MII_ADDR_READ w;
          (lo, w) = mdio_read bus rb ROBO_PHY_ADDR REG_MII_DATA0 w;
          (hi, w) = mdio_read bus rb ROBO_PHY_ADDR (REG_MII_DATA0 + 1) w
      in (ucast lo + push_bit 16 (ucast hi), w))"

definition robo_write16 :: "'w robo_bus \<Rightarrow> robo \<Rightarrow> u8 \<Rightarrow> u8 \<Rightarrow> u16 \<Rightarrow> 'w \<Rightarrow> 'w" where
  "robo_write16 bus rb page reg val w =
     robo_reg bus rb page reg REG_MII_ADDR_WRITE (mdio_write bus rb ROBO_PHY_ADDR REG_MII_DATA0 val w)"

definition robo_write32 :: "'w robo_bus \<Rightarrow> robo \<Rightarrow> u8 \<Rightarrow> u8 \<Rightarrow> u32 \<Rightarrow> 'w \<Rightarrow> 'w" where
  "robo_write32 bus rb page reg val w =
     (let w = mdio_write bus rb ROBO_PHY_ADDR REG_MII_DATA0 (ucast (val AND 65535)) w;
          w = mdio_write bus rb ROBO_PHY_ADDR (REG_MII_DATA0 + 1) (ucast (drop_bit 16 val)) w
      in robo_reg bus rb page reg REG_MII_ADDR_WRITE w)"

abbreviation ROBO_CTRL_PAGE :: u8 where "ROBO_CTRL_PAGE \<equiv> 0"
abbreviation ROBO_SWITCH_MODE :: u8 where "ROBO_SWITCH_MODE \<equiv> 0x0B"
abbreviation ROBO_VLAN_PAGE :: u8 where "ROBO_VLAN_PAGE \<equiv> 0x34"
abbreviation ROBO_VLAN_CTRL0 :: u8 where "ROBO_VLAN_CTRL0 \<equiv> 0"
abbreviation ROBO_VLAN_CTRL1 :: u8 where "ROBO_VLAN_CTRL1 \<equiv> 1"
abbreviation ROBO_VLAN_CTRL4 :: u8 where "ROBO_VLAN_CTRL4 \<equiv> 4"
abbreviation ROBO_VLAN_CTRL5 :: u8 where "ROBO_VLAN_CTRL5 \<equiv> 5"
abbreviation ROBO_VLAN_TABLE_ACCESS :: u8 where "ROBO_VLAN_TABLE_ACCESS \<equiv> 0x08"
abbreviation ROBO_VLAN_TABLE_ACCESS_5350 :: u8 where "ROBO_VLAN_TABLE_ACCESS_5350 \<equiv> 0x06"
abbreviation ROBO_VLAN_WRITE :: u8 where "ROBO_VLAN_WRITE \<equiv> 0x0A"
abbreviation ROBO_VLAN_WRITE_5350 :: u8 where "ROBO_VLAN_WRITE_5350 \<equiv> 0x08"
abbreviation ROBO_VLAN_READ :: u8 where "ROBO_VLAN_READ \<equiv> 0x0C"
abbreviation ROBO_VLAN_PORT0_DEF_TAG :: u8 where "ROBO_VLAN_PORT0_DEF_TAG \<equiv> 0x10"
abbreviation VLAN_ID_MAX :: nat where "VLAN_ID_MAX \<equiv> 255"
abbreviation VLAN_ID_MAX5350 :: nat where "VLAN_ID_MAX5350 \<equiv> 15"

definition robo_vlan5350 :: "'w robo_bus \<Rightarrow> robo \<Rightarrow> 'w \<Rightarrow> bool \<times> 'w" where
  "robo_vlan5350 bus rb w =
     (let w = robo_write16 bus rb ROBO_VLAN_PAGE ROBO_VLAN_TABLE_ACCESS_5350 15 w;
          (v, w) = robo_read16 bus rb ROBO_VLAN_PAGE ROBO_VLAN_TABLE_ACCESS_5350 w
      in (v = 15, w))"

section \<open>VLANs\<close>

definition DEF_TAG :: "nat \<Rightarrow> u8" where
  "DEF_TAG j = ROBO_VLAN_PORT0_DEF_TAG + push_bit 1 (of_nat j)"

text \<open>The loop over the ports, the same for both table formats.\<close>

fun vlan_ports_text :: "'w robo_bus \<Rightarrow> robo \<Rightarrow> nat \<Rightarrow> (nat \<Rightarrow> bool) \<Rightarrow> (nat \<Rightarrow> bool) \<Rightarrow> nat list \<Rightarrow> 'w \<Rightarrow> cstr \<times> 'w" where
  "vlan_ports_text bus rb nr mem untag [] w = ([], w)"
| "vlan_ports_text bus rb nr mem untag (j # js) w =
     (if mem j then
        (let (flags, w) =
               (if untag j then (if j = 5 then [LOWER_U] else [], w)
                else
                  (let (v, w) = robo_read16 bus rb ROBO_VLAN_PAGE (DEF_TAG j) w
                   in (LOWER_T # (if int (unat v) = int nr then [ASTERISK] else []), w)));
             (rest, w) = vlan_ports_text bus rb nr mem untag js w
         in (dec j @ flags @ [TAB] @ rest, w))
      else vlan_ports_text bus rb nr mem untag js w)"

definition handle_vlan_port_read :: "'w robo_bus \<Rightarrow> robo \<Rightarrow> nat \<Rightarrow> 'w \<Rightarrow> cstr \<times> 'w" where
  "handle_vlan_port_read bus rb nr w =
     (let val16 = of_nat nr OR push_bit 13 1 in
      if is_5350 rb then
        (let w = robo_write16 bus rb ROBO_VLAN_PAGE ROBO_VLAN_TABLE_ACCESS_5350 val16 w;
             (val32, w) = robo_read32 bus rb ROBO_VLAN_PAGE ROBO_VLAN_READ w
         in if bit val32 20 then
              (let (t, w) = vlan_ports_text bus rb nr (bit val32) (\<lambda>j. bit val32 (j + 6)) [0..<6] w in (t @ [LF], w))
            else ([], w))
      else
        (let w = robo_write16 bus rb ROBO_VLAN_PAGE ROBO_VLAN_TABLE_ACCESS val16 w;
             (val16, w) = robo_read16 bus rb ROBO_VLAN_PAGE ROBO_VLAN_READ w
         in if bit val16 14 then
              (let (t, w) = vlan_ports_text bus rb nr (bit val16) (\<lambda>j. bit val16 (j + 7)) [0..<6] w in (t @ [LF], w))
            else ([], w)))"

definition set_tags :: "'w robo_bus \<Rightarrow> robo \<Rightarrow> nat \<Rightarrow> vlan_config \<Rightarrow> nat list \<Rightarrow> 'w \<Rightarrow> 'w" where
  "set_tags bus rb nr c js w =
     fold (\<lambda>j w. if bit (vc_untag c OR vc_pvid c) j then robo_write16 bus rb ROBO_VLAN_PAGE (DEF_TAG j) (of_nat nr) w else w) js w"

definition handle_vlan_port_write :: "'w robo_bus \<Rightarrow> robo \<Rightarrow> switch_driver \<Rightarrow> bool \<Rightarrow> cstr \<Rightarrow> nat \<Rightarrow> 'w \<Rightarrow> (int \<times> 'w) option" where
  "handle_vlan_port_write bus rb d alloc buf nr w =
     (case switch_parse_vlan d alloc buf of
        None \<Rightarrow> None
      | Some None \<Rightarrow> Some (- EINVAL, w)
      | Some (Some c) \<Rightarrow>
          (let w = set_tags bus rb nr c [0..<sd_ports d] w;
               val16 = of_nat nr OR push_bit 12 1 OR push_bit 13 1;
               w = (if is_5350 rb then
                      robo_write16 bus rb ROBO_VLAN_PAGE ROBO_VLAN_TABLE_ACCESS_5350 val16
                        (robo_write32 bus rb ROBO_VLAN_PAGE ROBO_VLAN_WRITE_5350
                           (push_bit 20 1 OR push_bit 6 (vc_untag c) OR vc_port c) w)
                    else
                      robo_write16 bus rb ROBO_VLAN_PAGE ROBO_VLAN_TABLE_ACCESS val16
                        (robo_write16 bus rb ROBO_VLAN_PAGE ROBO_VLAN_WRITE
                           (ucast (push_bit 14 1 OR push_bit 7 (vc_untag c) OR vc_port c)) w))
           in Some (0, w)))"

section \<open>Switching and reset\<close>

definition set_switch :: "'w robo_bus \<Rightarrow> robo \<Rightarrow> bool \<Rightarrow> 'w \<Rightarrow> 'w" where
  "set_switch bus rb state w =
     (let (v, w) = robo_read16 bus rb ROBO_CTRL_PAGE ROBO_SWITCH_MODE w
      in robo_write16 bus rb ROBO_CTRL_PAGE ROBO_SWITCH_MODE (v AND NOT 2 OR (if state then 2 else 0)) w)"

definition flag_line :: "bool \<Rightarrow> cstr" where
  "flag_line b = (if b then [0x31] else [0x30]) @ [LF]"

definition handle_enable_read :: "'w robo_bus \<Rightarrow> robo \<Rightarrow> 'w \<Rightarrow> cstr \<times> 'w" where
  "handle_enable_read bus rb w =
     (let (v, w) = robo_read16 bus rb ROBO_CTRL_PAGE ROBO_SWITCH_MODE w in (flag_line (v AND 2 = 2), w))"

text \<open>The first character; a text is followed by its NUL.\<close>

definition first_char :: "cstr \<Rightarrow> u8" where
  "first_char buf = (if buf = [] then 0 else hd buf)"

definition handle_enable_write :: "'w robo_bus \<Rightarrow> robo \<Rightarrow> cstr \<Rightarrow> 'w \<Rightarrow> int \<times> 'w" where
  "handle_enable_write bus rb buf w = (0, set_switch bus rb (first_char buf = 0x31) w)"

definition handle_enable_vlan_read :: "'w robo_bus \<Rightarrow> robo \<Rightarrow> 'w \<Rightarrow> cstr \<times> 'w" where
  "handle_enable_vlan_read bus rb w =
     (let (v, w) = robo_read16 bus rb ROBO_VLAN_PAGE ROBO_VLAN_CTRL0 w
      in (flag_line (v AND push_bit 7 1 = push_bit 7 1), w))"

definition handle_enable_vlan_write :: "'w robo_bus \<Rightarrow> robo \<Rightarrow> cstr \<Rightarrow> 'w \<Rightarrow> int \<times> 'w" where
  "handle_enable_vlan_write bus rb buf w =
     (let dis = first_char buf \<noteq> 0x31;
          w = robo_write16 bus rb ROBO_VLAN_PAGE ROBO_VLAN_CTRL0 (if dis then 0 else push_bit 7 1 OR push_bit 5 3) w;
          w = robo_write16 bus rb ROBO_VLAN_PAGE ROBO_VLAN_CTRL1 (if dis then 0 else push_bit 1 1 OR push_bit 2 1 OR push_bit 3 1) w;
          w = robo_write16 bus rb ROBO_VLAN_PAGE ROBO_VLAN_CTRL4 (if dis then 0 else push_bit 6 1) w;
          w = robo_write16 bus rb ROBO_VLAN_PAGE ROBO_VLAN_CTRL5 (if dis then 0 else push_bit 3 1) w
      in (0, w))"

definition reset_vlan :: "'w robo_bus \<Rightarrow> robo \<Rightarrow> nat \<Rightarrow> 'w \<Rightarrow> 'w" where
  "reset_vlan bus rb j w =
     (let val16 = of_nat j OR push_bit 12 1 OR push_bit 13 1;
          w = (if is_5350 rb then robo_write32 bus rb ROBO_VLAN_PAGE ROBO_VLAN_WRITE_5350 0 w
               else robo_write16 bus rb ROBO_VLAN_PAGE ROBO_VLAN_WRITE 0 w)
      in robo_write16 bus rb ROBO_VLAN_PAGE (if is_5350 rb then ROBO_VLAN_TABLE_ACCESS_5350 else ROBO_VLAN_TABLE_ACCESS) val16 w)"

definition port_numbers :: "u8 list" where
  "port_numbers = [0, 1, 2, 3, 4, 8]"

definition reset_port :: "'w robo_bus \<Rightarrow> robo \<Rightarrow> nat \<Rightarrow> 'w \<Rightarrow> 'w" where
  "reset_port bus rb j w =
     robo_write16 bus rb ROBO_VLAN_PAGE (DEF_TAG j) 0 (robo_write16 bus rb ROBO_CTRL_PAGE (port_numbers ! j) 0 w)"

definition handle_reset :: "'w robo_bus \<Rightarrow> robo \<Rightarrow> switch_driver \<Rightarrow> bool \<Rightarrow> cstr \<Rightarrow> 'w \<Rightarrow> (int \<times> 'w) option" where
  "handle_reset bus rb d alloc buf w =
     (case switch_parse_vlan d alloc buf of
        None \<Rightarrow> None
      | Some None \<Rightarrow> Some (- EINVAL, w)
      | Some (Some c) \<Rightarrow>
          (let w = set_switch bus rb False w;
               w = fold (reset_vlan bus rb) [0..<(if is_5350 rb then VLAN_ID_MAX5350 else VLAN_ID_MAX) + 1] w
           in if length port_numbers < sd_ports d then None
              else
                (let w = fold (reset_port bus rb) [0..<sd_ports d] w;
                     w = set_switch bus rb True w;
                     w = snd (handle_enable_vlan_write bus rb [0x31] w)
                 in Some (0, w))))"

section \<open>Probing\<close>

text \<open>A network device: its bus, whether it tells its driver, and the address of its PHY, if it has one.\<close>

record 'w robo_net =
  rn_bus :: "'w robo_bus"
  rn_drvinfo :: bool
  rn_phy :: "u16 option"

definition robo_probe :: "(cstr \<Rightarrow> 'w robo_net option) \<Rightarrow> cstr \<Rightarrow> robo \<Rightarrow> 'w \<Rightarrow> bool \<times> robo \<times> 'w" where
  "robo_probe net devname rb w =
     (case net devname of
        None \<Rightarrow> (True, rb, w)
      | Some n \<Rightarrow>
          if \<not> rn_drvinfo n then (True, rb, w)
          else if rn_phy n \<noteq> None \<and> rn_phy n \<noteq> Some ROBO_PHY_ADDR then (True, rb, w)
          else
            (let rb = (if rn_phy n = None then rb\<lparr>use_et := True\<rparr> else rb);
                 (lo, w) = mdio_read (rn_bus n) rb ROBO_PHY_ADDR 2 w;
                 (hi, w) = mdio_read (rn_bus n) rb ROBO_PHY_ADDR 3 w;
                 phyid = (ucast lo :: u32) OR push_bit 16 (ucast hi)
             in if phyid = 0xFFFFFFFF \<or> phyid = 0x55210022 then (True, rb, w)
                else (let (v, w) = robo_vlan5350 (rn_bus n) rb w in (False, rb\<lparr>is_5350 := v\<rparr>, w))))"

definition eth_name :: "nat \<Rightarrow> cstr" where
  "eth_name i = cs ''eth'' @ [0x30 + of_nat i]"

fun robo_find :: "nat list \<Rightarrow> (cstr \<Rightarrow> 'w robo_net option) \<Rightarrow> robo \<Rightarrow> 'w \<Rightarrow> cstr option \<times> robo \<times> 'w" where
  "robo_find [] net rb w = (None, rb, w)"
| "robo_find (i # is) net rb w =
     (case robo_probe net (eth_name i) rb w of
        (notfound, rb, w) \<Rightarrow> if notfound then robo_find is net rb w else (Some (eth_name i), rb, w))"

definition robo_driver :: "cstr \<Rightarrow> switch_driver" where
  "robo_driver device =
     \<lparr>sd_name = cs ''bcm53xx'', sd_version = cs ''0.01'', sd_interface = device, sd_cpuport = 5, sd_ports = 6, sd_vlans = 16,
      sd_driver_handlers = Some [(cs ''enable'', True, True), (cs ''enable_vlan'', True, True), (cs ''reset'', False, True)],
      sd_port_handlers = None, sd_vlan_handlers = Some [(cs ''ports'', True, True)]\<rparr>"

definition robo_init :: "(cstr \<Rightarrow> 'w robo_net option) \<Rightarrow> robo \<Rightarrow> 'w \<Rightarrow> switch_state \<Rightarrow> (int \<times> robo \<times> 'w \<times> switch_state) option" where
  "robo_init net rb w s =
     (case sw_alloc s of
        None \<Rightarrow> None
      | Some s \<Rightarrow>
          (case robo_find [0..<4] net rb w of
             (None, rb, w) \<Rightarrow> Some (- 19, rb, w, s)
           | (Some device, rb, w) \<Rightarrow>
               map_option (\<lambda>(ret, s). (ret, rb, w, s)) (switch_register_driver (robo_driver device) s)))"

definition robo_exit :: "switch_state \<Rightarrow> switch_state" where
  "robo_exit s = switch_unregister_driver (cs ''bcm53xx'') s"

end
