(* ===== verification/SwitchText.thy ===== *)
theory SwitchText
  imports SwitchCore
begin

text \<open>
  What the texts of the switch drivers mean: a line of ports is parsed to the sets of ports it names, the line that the
  drivers print for a VLAN is parsed to that VLAN, and printed media are parsed back.
\<close>

section \<open>Lines of ports\<close>

text \<open>A port of a line: its number, the flags behind it, and the white space that follows.\<close>

type_synonym port_item = "nat \<times> cstr \<times> cstr"

definition item_text :: "port_item \<Rightarrow> cstr" where
  "item_text t = (case t of (n, suf, sp) \<Rightarrow> dec n @ suf @ sp)"

definition flags_ok :: "cstr \<Rightarrow> bool" where
  "flags_ok suf \<longleftrightarrow> list_all (\<lambda>c. \<not> is_space c) suf \<and> (suf \<noteq> [] \<longrightarrow> \<not> is_digit (hd suf))"

fun ports_ok :: "port_item list \<Rightarrow> bool" where
  "ports_ok [] = True"
| "ports_ok ((n, suf, sp) # ts) = (n < 32 \<and> flags_ok suf \<and> list_all is_space sp \<and> (sp = [] \<longrightarrow> ts = []) \<and> ports_ok ts)"

definition item_flags :: "switch_driver \<Rightarrow> port_item \<Rightarrow> bool \<times> bool" where
  "item_flags d t = port_flags (fst (snd t)) (fst t \<noteq> sd_cpuport d)"

definition add_item :: "switch_driver \<Rightarrow> port_item \<Rightarrow> vlan_config \<Rightarrow> vlan_config" where
  "add_item d t c = add_port (fst t) (fst (item_flags d t)) (snd (item_flags d t)) c"

lemma space_no_digit: "is_space c \<Longrightarrow> \<not> is_digit c"
  by (auto simp: is_space_def is_digit_def)

lemma foldl_digits_mono: "j \<le> foldl (\<lambda>a c. a * 10 + unat (c - 0x30 :: u8)) j ds"
proof (induction ds arbitrary: j)
  case (Cons x ds)
  have "j \<le> j * 10 + unat (x - 0x30)" by simp
  also have "\<dots> \<le> foldl (\<lambda>a c. a * 10 + unat (c - 0x30)) (j * 10 + unat (x - 0x30)) ds" by (rule Cons.IH)
  finally show ?case by simp
qed simp

lemma vlan_loop_number:
  assumes "list_all is_digit ds" "ds \<noteq> []" "buf \<noteq> [] \<longrightarrow> \<not> is_digit (hd buf)"
    "foldl (\<lambda>a c. a * 10 + unat (c - 0x30)) j ds = n" "n < 32"
  shows "vlan_loop d (ds @ buf) j c =
    (let suf = takeWhile (\<lambda>c. \<not> is_space c) buf; (u, p) = port_flags suf (n \<noteq> sd_cpuport d)
     in vlan_loop d (dropWhile is_space (drop (length suf) buf)) 0 (add_port n u p c))"
  using assms
proof (induction ds arbitrary: j)
  case (Cons x ds)
  let ?j = "j * 10 + unat (x - 0x30)"
  have j: "?j \<le> n" using foldl_digits_mono [of ?j ds] Cons.prems(4) by simp
  show ?case
  proof (cases "ds = []")
    case True
    then have "?j = n" "is_digit x" using Cons.prems by auto
    then show ?thesis using True Cons.prems(3,5) by (cases buf) (auto simp: vlan_loop.simps(2) Let_def)
  next
    case False
    then have "is_digit (hd (ds @ buf))" "ds @ buf \<noteq> []" using Cons.prems(1) by (cases ds, auto)+
    then have "vlan_loop d ((x # ds) @ buf) j c = vlan_loop d (ds @ buf) ?j c"
      using Cons.prems(1,5) j by (simp add: vlan_loop.simps(2) Let_def)
    then show ?thesis using Cons.IH [of ?j] Cons.prems False by simp
  qed
qed simp

lemma items_start: "ports_ok ts \<Longrightarrow> concat (List.map item_text ts) = [] \<or> \<not> is_space (hd (concat (List.map item_text ts)))"
proof (cases ts)
  case (Cons t ts')
  obtain n suf sp where t: "t = (n, suf, sp)" by (cases t)
  have "is_digit (hd (dec n))" using dec_digits [of n] dec_nonempty [of n] by (cases "dec n") auto
  then have "\<not> is_space (hd (dec n))" using space_no_digit by blast
  then show ?thesis using dec_nonempty [of n] by (simp add: Cons t item_text_def)
qed simp

lemma dropWhile_start: "list_all P sp \<Longrightarrow> r = [] \<or> \<not> P (hd r) \<Longrightarrow> dropWhile P (sp @ r) = r"
  by (induction sp) (cases r, auto)+

lemma vlan_loop_items:
  assumes "ports_ok ts"
  shows "vlan_loop d (concat (List.map item_text ts)) 0 c = Some (fold (add_item d) ts c, [])"
  using assms
proof (induction ts arbitrary: c)
  case Nil
  then show ?case by (simp add: vlan_loop.simps)
next
  case (Cons t ts)
  obtain n suf sp where t: "t = (n, suf, sp)" by (cases t)
  let ?r = "concat (List.map item_text ts)"
  have p: "n < 32" "flags_ok suf" "list_all is_space sp" "sp = [] \<longrightarrow> ts = []" "ports_ok ts" using Cons.prems t by auto
  have r: "?r = [] \<or> \<not> is_space (hd ?r)" using items_start [OF p(5)] .
  have b: "suf @ sp @ ?r \<noteq> [] \<longrightarrow> \<not> is_digit (hd (suf @ sp @ ?r))"
    using p space_no_digit by (cases suf; cases sp) (auto simp: flags_ok_def)
  have tw: "takeWhile (\<lambda>c. \<not> is_space c) (suf @ sp @ ?r) = suf"
  proof -
    have "takeWhile (\<lambda>c. \<not> is_space c) (sp @ ?r) = []" using p(3,4) by (cases sp) auto
    then show ?thesis using p(2) by (simp add: flags_ok_def list_all_iff takeWhile_append)
  qed
  have dw: "dropWhile is_space (sp @ ?r) = ?r" using p(3) r by (rule dropWhile_start)
  have "foldl (\<lambda>a c. a * 10 + unat (c - 0x30)) 0 (dec n) = n" using undec_dec [of n] by (simp add: undec_def)
  then have "vlan_loop d (dec n @ suf @ sp @ ?r) 0 c = vlan_loop d ?r 0 (add_item d t c)"
    by (subst vlan_loop_number [OF dec_digits dec_nonempty b _ p(1)])
      (simp_all add: tw dw t add_item_def item_flags_def split: prod.split)
  moreover have "item_text t = dec n @ suf @ sp" by (simp add: t item_text_def)
  ultimately show ?case using Cons.IH [OF p(5)] by simp
qed

lemma bit_add_port:
  assumes "j < 32" "i < 32"
  shows "bit (vc_port (add_port j u p c)) i \<longleftrightarrow> bit (vc_port c) i \<or> i = j"
    "bit (vc_untag (add_port j u p c)) i \<longleftrightarrow> bit (vc_untag c) i \<or> u \<and> i = j"
    "bit (vc_pvid (add_port j u p c)) i \<longleftrightarrow> bit (vc_pvid c) i \<or> p \<and> i = j"
  using assms by (auto simp: add_port_def Let_def bit_or_iff bit_exp_iff)

lemma bit_items:
  assumes "ports_ok ts" "i < 32"
  shows "bit (vc_port (fold (add_item d) ts c)) i \<longleftrightarrow> bit (vc_port c) i \<or> (\<exists>t \<in> set ts. fst t = i)"
    "bit (vc_untag (fold (add_item d) ts c)) i \<longleftrightarrow> bit (vc_untag c) i \<or> (\<exists>t \<in> set ts. fst t = i \<and> fst (item_flags d t))"
    "bit (vc_pvid (fold (add_item d) ts c)) i \<longleftrightarrow> bit (vc_pvid c) i \<or> (\<exists>t \<in> set ts. fst t = i \<and> snd (item_flags d t))"
  using assms(1)
proof (induction ts arbitrary: c)
  case (Cons t ts)
  obtain n suf sp where t: "t = (n, suf, sp)" by (cases t)
  have n: "fst t < 32" "ports_ok ts" if "ports_ok (t # ts)" using that t by auto
  { case 1 then show ?case using Cons.IH(1) [of "add_item d t c"] n bit_add_port(1) [of "fst t" i] assms(2) by (auto simp: add_item_def) }
  { case 2 then show ?case using Cons.IH(2) [of "add_item d t c"] n bit_add_port(2) [of "fst t" i] assms(2) by (auto simp: add_item_def) }
  { case 3 then show ?case using Cons.IH(3) [of "add_item d t c"] n bit_add_port(3) [of "fst t" i] assms(2) by (auto simp: add_item_def) }
qed simp_all

text \<open>The part of a set of ports below \<open>n\<close>.\<close>

definition low_ports :: "nat \<Rightarrow> u32 \<Rightarrow> u32" where
  "low_ports n w = w AND mask n"

lemma bit_low_ports: "i < 32 \<Longrightarrow> bit (low_ports n w) i \<longleftrightarrow> i < n \<and> bit w i"
  by (auto simp: low_ports_def bit_and_iff bit_mask_iff)

lemma mask_ports_low:
  "mask_ports n c = (if n < 31 then Some \<lparr>vc_port = low_ports n (vc_port c), vc_untag = low_ports n (vc_untag c),
     vc_pvid = low_ports n (vc_pvid c)\<rparr> else None)"
proof -
  have "push_bit n (1 :: u32) - 1 = mask n" by (simp add: mask_eq_exp_minus_1 push_bit_eq_mult)
  then show ?thesis by (simp only: mask_ports_def low_ports_def Let_def not_less if_not_P) simp
qed

section \<open>Parsing a line\<close>

lemma parse_vlan_items:
  assumes "list_all is_space ws" "ports_ok ts"
  shows "switch_parse_vlan d True (ws @ concat (List.map item_text ts)) =
    map_option Some (mask_ports (sd_ports d) (fold (add_item d) ts \<lparr>vc_port = 0, vc_untag = 0, vc_pvid = 0\<rparr>))"
proof -
  have "dropWhile is_space (ws @ concat (List.map item_text ts)) = concat (List.map item_text ts)"
    using assms(1) items_start [OF assms(2)] by (rule dropWhile_start)
  then show ?thesis by (simp add: switch_parse_vlan_def vlan_loop_items [OF assms(2)] Let_def)
qed



definition sample_switch :: switch_driver where
  "sample_switch = \<lparr>sd_name = cs ''bcm53xx'', sd_version = cs ''0.01'', sd_interface = cs ''eth0'', sd_cpuport = 5, sd_ports = 6,
     sd_vlans = 16, sd_driver_handlers = None, sd_port_handlers = None, sd_vlan_handlers = Some [(cs ''ports'', True, True)]\<rparr>"


section \<open>The line of a VLAN\<close>

text \<open>What the drivers print for the members \<open>m\<close>, the tagged ports \<open>t\<close> and the ports \<open>p\<close> whose default is this VLAN.\<close>

definition flag_text :: "(nat \<Rightarrow> bool) \<Rightarrow> (nat \<Rightarrow> bool) \<Rightarrow> nat \<Rightarrow> cstr" where
  "flag_text t p j = (if t j then LOWER_T # (if p j then [ASTERISK] else []) else if j = 5 then [LOWER_U] else [])"

definition vlan_line :: "(nat \<Rightarrow> bool) \<Rightarrow> (nat \<Rightarrow> bool) \<Rightarrow> (nat \<Rightarrow> bool) \<Rightarrow> cstr" where
  "vlan_line m t p = concat (List.map (\<lambda>j. if m j then dec j @ flag_text t p j @ [TAB] else []) [0..<6]) @ [LF]"

definition ports_word :: "(nat \<Rightarrow> bool) \<Rightarrow> u32" where
  "ports_word f = fold (\<lambda>j w. if f j then w OR push_bit j 1 else w) [0..<6] 0"

lemma bit_ports_word: "bit (ports_word f) i \<longleftrightarrow> i < 6 \<and> f i"
proof -
  have "bit (fold (\<lambda>j w. if f j then w OR push_bit j 1 else w) [0..<n] (0 :: u32)) i \<longleftrightarrow> i < n \<and> f i" if "n \<le> 32" for n
    using that
    by (induction n) (auto simp: bit_or_iff bit_exp_iff less_Suc_eq)
  then show ?thesis by (simp add: ports_word_def)
qed

lemma concat_if_filter: "concat (List.map (\<lambda>j. if m j then f j else []) xs) = concat (List.map f (filter m xs))"
  by (induction xs) auto

lemma flags_text_ok: "flags_ok (flag_text t p j)"
  by (simp add: flags_ok_def flag_text_def is_space_def is_digit_def)

lemma parse_vlan_line:
  assumes "sd_ports d = 6" "sd_cpuport d = 5"
  shows "switch_parse_vlan d True (vlan_line m t p) =
    Some (Some \<lparr>vc_port = ports_word m, vc_untag = ports_word (\<lambda>i. m i \<and> \<not> t i), vc_pvid = ports_word (\<lambda>i. m i \<and> t i \<and> p i)\<rparr>)"
proof -
  let ?js = "filter m [0..<6]" let ?f = "\<lambda>sp j. (j, flag_text t p j, sp)"
  define ts where "ts = (if ?js = [] then [] else List.map (?f [TAB]) (butlast ?js) @ [?f [TAB, LF] (last ?js)])"
  define ws where "ws = (if ?js = [] then [LF] else [])"
  have line: "vlan_line m t p = ws @ concat (List.map item_text ts)"
  proof (cases "?js = []")
    case True
    then show ?thesis by (simp add: vlan_line_def concat_if_filter ws_def ts_def)
  next
    case False
    have "concat (List.map (\<lambda>j. dec j @ flag_text t p j @ [TAB]) js) @ [LF] =
        concat (List.map item_text (List.map (?f [TAB]) (butlast js) @ [?f [TAB, LF] (last js)]))" if "js \<noteq> []" for js
      using that by (induction js rule: rev_induct) (simp_all add: item_text_def comp_def)
    from this [OF False] show ?thesis using False by (simp add: vlan_line_def concat_if_filter ws_def ts_def)
  qed
  have app: "ports_ok (List.map (?f [TAB]) xs @ [?f [TAB, LF] x]) \<longleftrightarrow> (\<forall>j \<in> set xs. j < 32) \<and> x < 32" for xs x
    by (induction xs) (auto simp: flags_text_ok is_space_def)
  have "\<forall>j \<in> set (butlast ?js). j < 32" by (auto dest: in_set_butlastD)
  moreover have "last ?js < 32" if "?js \<noteq> []" using last_in_set [OF that] by auto
  ultimately have ok: "ports_ok ts" using app by (simp add: ts_def)
  have ws: "list_all is_space ws" by (simp add: ws_def is_space_def)
  have mem: "(\<exists>x \<in> set ts. fst x = i \<and> P (fst (snd x))) \<longleftrightarrow> i < 6 \<and> m i \<and> P (flag_text t p i)" for P i
  proof (cases "?js = []")
    case True
    then have "\<not> (i < 6 \<and> m i)" by (auto simp: filter_empty_conv)
    then show ?thesis using True by (auto simp: ts_def)
  next
    case False
    have "set ?js = set (butlast ?js @ [last ?js])" by (simp only: append_butlast_last_id [OF False])
    then have s: "i \<in> set ?js \<longleftrightarrow> i \<in> set (butlast ?js) \<or> i = last ?js" by (simp only: set_append list.set) blast
    have "(\<exists>x \<in> set ts. fst x = i \<and> P (fst (snd x))) \<longleftrightarrow> (i \<in> set (butlast ?js) \<or> i = last ?js) \<and> P (flag_text t p i)"
      using False by (auto simp: ts_def)
    moreover have "i \<in> set ?js \<longleftrightarrow> i < 6 \<and> m i" by auto
    ultimately show ?thesis using s by blast
  qed
  have fl: "item_flags d (j, flag_text t p j, sp) = (\<not> t j, t j \<and> p j)" for j sp
    using assms(2) by (auto simp: item_flags_def flag_text_def port_flags_def port_flag_def)
  have ifl: "fst x = i \<and> fst (item_flags d x) \<longleftrightarrow> fst x = i \<and> \<not> t i" "fst x = i \<and> snd (item_flags d x) \<longleftrightarrow> fst x = i \<and> t i \<and> p i"
    if "x \<in> set ts" for x i
  proof -
    obtain j sp where "x = (j, flag_text t p j, sp)" using \<open>x \<in> set ts\<close> by (auto simp: ts_def split: if_splits)
    then show "fst x = i \<and> fst (item_flags d x) \<longleftrightarrow> fst x = i \<and> \<not> t i" "fst x = i \<and> snd (item_flags d x) \<longleftrightarrow> fst x = i \<and> t i \<and> p i"
      using fl by auto
  qed
  let ?z = "\<lparr>vc_port = 0, vc_untag = 0, vc_pvid = 0\<rparr>" let ?c = "fold (add_item d) ts ?z"
  have "low_ports 6 (vc_port ?c) = ports_word m"
    using bit_items(1) [OF ok, of _ d ?z] mem [of _ "\<lambda>_. True"] by (intro bit_word_eqI) (auto simp: bit_low_ports bit_ports_word)
  moreover have "low_ports 6 (vc_untag ?c) = ports_word (\<lambda>i. m i \<and> \<not> t i)"
    using bit_items(2) [OF ok, of _ d ?z] ifl(1) mem [of _ "\<lambda>_. \<not> t _"]
    by (intro bit_word_eqI) (auto simp: bit_low_ports bit_ports_word)
  moreover have "low_ports 6 (vc_pvid ?c) = ports_word (\<lambda>i. m i \<and> t i \<and> p i)"
    using bit_items(3) [OF ok, of _ d ?z] ifl(2) mem [of _ "\<lambda>_. t _ \<and> p _"]
    by (intro bit_word_eqI) (auto simp: bit_low_ports bit_ports_word)
  ultimately show ?thesis using parse_vlan_items [OF ws ok, of d] assms(1) by (simp add: line mask_ports_low)
qed

text \<open>Whatever is parsed: untagged ports and default ports are ports of the VLAN, and below the number of ports.\<close>

definition vlan_ok :: "vlan_config \<Rightarrow> bool" where
  "vlan_ok c \<longleftrightarrow> vc_untag c AND vc_port c = vc_untag c \<and> vc_pvid c AND vc_port c = vc_pvid c"

lemma and_eq_bits: "a AND b = a \<longleftrightarrow> (\<forall>n. bit a n \<longrightarrow> bit (b :: 'a::len word) n)"
proof
  assume a: "a AND b = a"
  show "\<forall>n. bit a n \<longrightarrow> bit b n"
  proof (intro allI impI)
    fix n assume "bit a n"
    then have "bit (a AND b) n" by (simp only: a)
    then show "bit b n" by (simp add: bit_and_iff)
  qed
qed (auto intro: bit_word_eqI simp: bit_and_iff)

lemma or_sub: "a AND b = a \<Longrightarrow> (a OR m) AND (b OR m) = a OR (m :: 'a::len word)" "a AND b = a \<Longrightarrow> a AND (b OR m) = a"
  by (auto simp: and_eq_bits bit_or_iff)

lemma vlan_ok_add: "vlan_ok c \<Longrightarrow> vlan_ok (add_port j u p c)"
  by (auto simp: vlan_ok_def add_port_def Let_def or_sub)

lemma vlan_loop_wf: "vlan_loop d buf j c = Some (c', rest) \<Longrightarrow> vlan_ok c \<Longrightarrow> vlan_ok c'"
proof (induction d buf j c rule: vlan_loop.induct)
  case (2 d ch buf j c)
  show ?case
  proof (cases "is_digit ch \<and> \<not> INT_MAX < j * 10 + unat (ch - 0x30) \<and> \<not> (buf \<noteq> [] \<and> is_digit (hd buf)) \<and> \<not> 32 \<le> j * 10 + unat (ch - 0x30)")
    case True
    then show ?thesis using 2 by (auto simp: vlan_loop.simps Let_def vlan_ok_add split: prod.splits)
  next
    case False
    then show ?thesis using 2 by (auto simp: vlan_loop.simps Let_def split: if_splits)
  qed
qed (simp add: vlan_loop.simps)

lemma parse_vlan_wf:
  assumes "switch_parse_vlan d True buf = Some (Some c)"
  shows "vlan_ok c" "bit (vc_port c) i \<Longrightarrow> i < sd_ports d"
proof -
  obtain c0 rest where c0: "vlan_loop d (dropWhile is_space buf) 0 \<lparr>vc_port = 0, vc_untag = 0, vc_pvid = 0\<rparr> = Some (c0, rest)"
      "c = \<lparr>vc_port = low_ports (sd_ports d) (vc_port c0), vc_untag = low_ports (sd_ports d) (vc_untag c0),
        vc_pvid = low_ports (sd_ports d) (vc_pvid c0)\<rparr>"
    using assms by (auto simp: switch_parse_vlan_def mask_ports_low split: option.splits if_splits)
  have "vlan_ok c0" using vlan_loop_wf [OF c0(1)] by (simp add: vlan_ok_def)
  then show "vlan_ok c" unfolding c0(2) vlan_ok_def by (simp add: and_eq_bits low_ports_def bit_and_iff)
  assume b: "bit (vc_port c) i"
  then have "i < 32" using bit_imp_le_length [of "vc_port c" i] by simp
  then show "i < sd_ports d" using b bit_low_ports [of i "sd_ports d" "vc_port c0"] by (simp add: c0(2))
qed

section \<open>Media\<close>

text \<open>The medium printed for each of the five settings that the files name is parsed back as that setting, in either
  case of the letters; what is parsed from any other text is one of the five or an error.\<close>

theorem switch_media_roundtrip:
  "list_all (\<lambda>m. switch_parse_media (switch_print_media m) = m \<and> switch_parse_media (switch_print_media m @ [LF]) = m) [0, 1, 2, 4, 6] \<and>
    switch_parse_media buf \<in> {- 1, 0, 1, 2, 4, 6}"
proof -
  have "list_all (\<lambda>m. switch_parse_media (switch_print_media m) = m \<and> switch_parse_media (switch_print_media m @ [LF]) = m) [0, 1, 2, 4, 6]"
    by code_simp
  moreover have "SWITCH_MEDIA_100 OR SWITCH_MEDIA_FD = 6" by code_simp
  then have "switch_parse_media buf \<in> {- 1, 0, 1, 2, 4, 6}" by (simp add: switch_parse_media_def Let_def)
  ultimately show ?thesis by blast
qed

section \<open>Reading a file in pieces\<close>

text \<open>Successive reads with the given sizes, and what they return together.\<close>

fun read_pieces :: "cstr option \<Rightarrow> u8 \<Rightarrow> u32 list \<Rightarrow> int \<Rightarrow> int \<Rightarrow> u8 list \<times> int \<times> int" where
  "read_pieces txt junk [] pos pages = ([], pos, pages)"
| "read_pieces txt junk (n # ns) pos pages =
     (let (ret, bs, pos, pages) = switch_proc_read True (\<lambda>_. True) txt junk n pos pages;
          (rest, pos, pages) = read_pieces txt junk ns pos pages
      in (bs @ rest, pos, pages))"

lemma proc_read_piece:
  assumes "0 \<le> pos" "0 < sint n"
  shows "switch_proc_read True (\<lambda>_. True) (Some t) junk n pos pages =
    (let k = min (length (t @ [junk]) - nat pos) (nat (sint n))
     in (int k, take k (drop (nat pos) (t @ [junk])), (if nat pos < length (t @ [junk]) then pos + int k else pos), pages + 1))"
proof -
  let ?p = "t @ [junk]"
  show ?thesis
  proof (cases "pos < int (length ?p)")
    case True
    then have "min (int (length ?p) - pos) (sint n) = int (min (length ?p - nat pos) (nat (sint n)))"
      using assms by linarith
    then show ?thesis using True assms by (simp add: switch_proc_read_def Let_def nat_less_iff)
  next
    case False
    then have "length ?p - nat pos = 0" using assms by simp
    then show ?thesis using False assms by (simp add: switch_proc_read_def Let_def nat_less_iff)
  qed
qed

lemma take_pieces:
  "take (min (length q - i) m) (drop i q) @ take s (drop (i + min (length q - i) m) q) = take (m + s) (drop i q)"
  by (cases "m \<le> length q - i") (simp_all add: min_def take_add add.commute)

lemma min_pieces: "i \<le> L \<Longrightarrow> min L (i + min (L - i) m + s) = min L (i + (m + s))" for i L :: nat
  by linarith

lemma read_pieces_take:
  assumes "0 \<le> pos" "nat pos \<le> length (t @ [junk])" "list_all (\<lambda>n. 0 < sint n) ns"
  shows "read_pieces (Some t) junk ns pos pages =
    (take (sum_list (List.map (nat \<circ> sint) ns)) (drop (nat pos) (t @ [junk])),
     int (min (length (t @ [junk])) (nat pos + sum_list (List.map (nat \<circ> sint) ns))), pages + int (length ns))"
  using assms
proof (induction ns arbitrary: pos pages)
  case Nil
  then show ?case by simp
next
  case (Cons n ns)
  let ?p = "t @ [junk]" let ?k = "min (length ?p - nat pos) (nat (sint n))" let ?s = "sum_list (List.map (nat \<circ> sint) ns)"
  have n: "0 < sint n" "list_all (\<lambda>n. 0 < sint n) ns" using Cons.prems(3) by auto
  define pos' where "pos' = pos + int ?k"
  have pos': "0 \<le> pos'" "nat pos' \<le> length ?p" "nat pos' = nat pos + ?k"
    using Cons.prems(1,2) by (simp_all add: pos'_def nat_add_distrib)
  have r: "switch_proc_read True (\<lambda>_. True) (Some t) junk n pos pages = (int ?k, take ?k (drop (nat pos) ?p), pos', pages + 1)"
    using proc_read_piece [OF Cons.prems(1) n(1), of t junk pages] Cons.prems(2) by (auto simp: pos'_def Let_def)
  have tk: "take ?k (drop (nat pos) ?p) @ take ?s (drop (nat pos') ?p) = take (nat (sint n) + ?s) (drop (nat pos) ?p)"
    unfolding pos'(3) by (rule take_pieces)
  have mn: "min (length ?p) (nat pos' + ?s) = min (length ?p) (nat pos + (nat (sint n) + ?s))"
    unfolding pos'(3) using Cons.prems(2) by (rule min_pieces)
  have pg: "pages + 1 + int (length ns) = pages + int (length (n # ns))" by simp
  have "read_pieces (Some t) junk (n # ns) pos pages =
      (take ?k (drop (nat pos) ?p) @ take ?s (drop (nat pos') ?p), int (min (length ?p) (nat pos' + ?s)), pages + 1 + int (length ns))"
    unfolding read_pieces.simps(2) r Cons.IH [OF pos'(1,2) n(2), of "pages + 1"] Let_def prod.case by (rule refl)
  then show ?case unfolding tk mn pg list.map sum_list.Cons comp_apply .
qed

text \<open>C29: Reads of any positive sizes from the start of a file that sum up to its length or more return its text and one
  byte behind it; but every read, the one at the end included, leaves its page allocated.\<close>

theorem switch_proc_read_leaks:
  assumes "list_all (\<lambda>n. 0 < sint n) ns" "length t < sum_list (List.map (nat \<circ> sint) ns)"
  shows "\<exists>pos. read_pieces (Some t) junk ns 0 pages = (t @ [junk], pos, pages + int (length ns))"
  using read_pieces_take [of 0 t junk ns pages] assms by simp

theorem switch_proc_read_leaks_witness:
  "\<exists>pos. read_pieces (Some (cs ''0'')) 0 [1, 1, 1] 0 0 = (cs ''0'' @ [0], pos, 3)"
proof -
  have a: "list_all (\<lambda>n. 0 < sint n) [1, 1, 1 :: u32]" by simp
  have b: "length (cs ''0'') < sum_list (List.map (nat \<circ> sint) [1, 1, 1 :: u32])" by simp
  show ?thesis using switch_proc_read_leaks [OF a b, of 0 0] by simp
qed

section \<open>Registering and giving up\<close>

definition handler_paths :: "(path \<times> cstr) list \<Rightarrow> path list" where
  "handler_paths hs = List.map (\<lambda>(p, n). p @ [n]) hs"

lemma sw_alloc_keeps: "sw_alloc s = Some s' \<Longrightarrow> ss_tree s' = ss_tree s \<and> ss_drivers s' = ss_drivers s \<and> ss_num s' = ss_num s"
  by (auto simp: sw_alloc_def sw_kmalloc_def split: list.splits bool.splits prod.splits)

lemma mkdir_keeps [simp]: "ss_tree (proc_mkdir p s) = p # ss_tree s" "ss_drivers (proc_mkdir p s) = ss_drivers s"
  "ss_num (proc_mkdir p s) = ss_num s"
  by (simp_all add: proc_mkdir_def)

lemma add_handlers_tree:
  "add_handlers handlers p hs s = Some (hs', s') \<Longrightarrow>
   mset (ss_tree s') + mset (handler_paths hs) = mset (ss_tree s) + mset (handler_paths hs') \<and>
   ss_drivers s' = ss_drivers s \<and> ss_num s' = ss_num s"
proof (induction handlers arbitrary: hs s)
  case (Cons h handlers)
  then obtain s1 where s1: "sw_alloc s = Some s1"
      "add_handlers handlers p ((p, fst h) # hs) (proc_mkdir (p @ [fst h]) s1) = Some (hs', s')" by (auto split: option.splits)
  from Cons.IH [OF s1(2)] sw_alloc_keeps [OF s1(1)] show ?case by (simp add: handler_paths_def)
qed simp

lemma add_dirs_tree:
  "add_dirs handlers dir is hs s = Some (hs', s') \<Longrightarrow>
   mset (ss_tree s') + mset (handler_paths hs) = mset (ss_tree s) + mset (handler_paths hs') + mset (List.map (\<lambda>i. dir @ [dec i]) is) \<and>
   ss_drivers s' = ss_drivers s \<and> ss_num s' = ss_num s"
proof (induction "is" arbitrary: hs s)
  case (Cons i "is")
  let ?p = "dir @ [dec i]"
  from Cons.prems obtain hs1 s1 where s1: "(case handlers of None \<Rightarrow> Some (hs, proc_mkdir ?p s) | Some h \<Rightarrow> add_handlers h ?p hs (proc_mkdir ?p s)) = Some (hs1, s1)"
      "add_dirs handlers dir is hs1 s1 = Some (hs', s')" by (auto simp: Let_def split: option.splits if_splits)
  have a: "mset (ss_tree s1) + mset (handler_paths hs) = mset (ss_tree s) + mset (handler_paths hs1) + {#?p#}"
    "ss_drivers s1 = ss_drivers s \<and> ss_num s1 = ss_num s"
    using s1(1) add_handlers_tree [of _ ?p hs "proc_mkdir ?p s" hs1 s1] by (auto split: option.splits)
  have b: "mset (ss_tree s') + mset (handler_paths hs1) =
      mset (ss_tree s1) + mset (handler_paths hs') + mset (List.map (\<lambda>i. dir @ [dec i]) is)"
    "ss_drivers s' = ss_drivers s1 \<and> ss_num s' = ss_num s1" using Cons.IH [OF s1(2)] by auto
  have "mset (ss_tree s') + mset (handler_paths hs) + (mset (handler_paths hs1) + mset (ss_tree s1)) =
      mset (ss_tree s) + mset (handler_paths hs') + mset (List.map (\<lambda>i. dir @ [dec i]) (i # is)) + (mset (handler_paths hs1) + mset (ss_tree s1))"
    using arg_cong2 [OF a(1) b(1), of "(+)"] by (simp add: ac_simps)
  then show ?case using a(2) b(2) by simp
qed simp

text \<open>Everything that a registered driver has in the tree.\<close>

definition driver_paths :: "registered \<Rightarrow> path list" where
  "driver_paths r =
     (let d = rg_driver r in
      handler_paths (rg_handlers r) @ List.map (\<lambda>i. port_dir d @ [dec i]) [0..<sd_ports d] @ [port_dir d] @
      List.map (\<lambda>i. vlan_dir d @ [dec i]) [0..<sd_vlans d] @ [vlan_dir d, [sd_interface d]])"

lemma do_register_tree:
  assumes "do_register d s = Some (0, r, s')"
  shows "mset (ss_tree s') = mset (ss_tree s) + mset (driver_paths r)" "ss_drivers s' = ss_drivers s" "ss_num s' = ss_num s + 1"
    "rg_driver r = d" "rg_nr r = ss_num s"
proof -
  obtain b s0 where b: "sw_kmalloc s = (b, s0)" by force
  have s0: "ss_tree s0 = ss_tree s" "ss_drivers s0 = ss_drivers s" "ss_num s0 = ss_num s"
    using b by (auto simp: sw_kmalloc_def split: list.splits)
  let ?s1 = "proc_mkdir [sd_interface d] (s0\<lparr>ss_num := ss_num s0 + 1\<rparr>)"
  from assms b have B: b by (cases b) (auto simp: do_register_def)
  with assms b obtain hs1 s2 s3 hs4 s4 s5 hs6 where
    1: "(case sd_driver_handlers d of None \<Rightarrow> Some ([], ?s1) | Some h \<Rightarrow> add_handlers (h @ global_driver_handlers) [sd_interface d] [] ?s1) = Some (hs1, s2)" and
    2: "sw_alloc (proc_mkdir (port_dir d) s2) = Some s3" and
    3: "add_dirs (sd_port_handlers d) (port_dir d) [0..<sd_ports d] hs1 s3 = Some (hs4, s4)" and
    4: "sw_alloc (proc_mkdir (vlan_dir d) s4) = Some s5" and
    5: "add_dirs (sd_vlan_handlers d) (vlan_dir d) [0..<sd_vlans d] hs4 s5 = Some (hs6, s')" and
    6: "r = \<lparr>rg_driver = d, rg_nr = ss_num s0, rg_handlers = hs6\<rparr>"
    by (auto simp: do_register_def Let_def split: option.splits prod.splits)
  have h: "mset (ss_tree s2) = mset (ss_tree ?s1) + mset (handler_paths hs1)" "ss_drivers s2 = ss_drivers ?s1" "ss_num s2 = ss_num ?s1"
    using 1 add_handlers_tree [of _ "[sd_interface d]" "[]" ?s1 hs1 s2] by (auto simp: handler_paths_def split: option.splits)
  note k = sw_alloc_keeps [OF 2] sw_alloc_keeps [OF 4]
  note p = add_dirs_tree [OF 3] and v = add_dirs_tree [OF 5]
  have "mset (ss_tree s') + mset (handler_paths hs4) + (mset (ss_tree s4) + mset (handler_paths hs1)) =
      mset (ss_tree s) + mset (driver_paths r) + (mset (ss_tree s4) + mset (handler_paths hs1)) + mset (handler_paths hs4)"
    using p v k h s0 by (simp add: 6 driver_paths_def Let_def ac_simps)
  then show "mset (ss_tree s') = mset (ss_tree s) + mset (driver_paths r)" by (simp add: ac_simps)
  show "ss_drivers s' = ss_drivers s" "ss_num s' = ss_num s + 1" "rg_driver r = d" "rg_nr r = ss_num s"
    using p v k h s0 6 by simp_all
qed

lemma do_register_ret: "do_register d s = Some (ret, r, s') \<Longrightarrow> ret = 0 \<or> ret = - ENOBUFS"
proof -
  assume a: "do_register d s = Some (ret, r, s')"
  obtain b s0 where "sw_kmalloc s = (b, s0)" by force
  then show ?thesis using a by (cases b) (auto simp: do_register_def Let_def split: option.splits)
qed

lemma remove_paths_tree:
  "mset (ss_tree (fold remove_proc_entry ps s)) = mset (ss_tree s) - mset ps \<and> ss_num (fold remove_proc_entry ps s) = ss_num s"
proof (induction ps arbitrary: s)
  case (Cons p ps)
  then show ?case using Cons.IH [of "remove_proc_entry p s"] by (simp add: remove_proc_entry_def)
qed simp

lemma do_unregister_paths:
  "do_unregister r s = (let s = fold remove_proc_entry (driver_paths r) s in
    if rg_nr r = ss_num s - 1 then s\<lparr>ss_num := ss_num s - 1\<rparr> else s)"
  by (simp add: do_unregister_def remove_dirs_def driver_paths_def remove_handlers_def handler_paths_def Let_def fold_map
      comp_def case_prod_unfold)

text \<open>The outcome of the allocation \<open>i\<close> from a state on.\<close>

definition kmalloc_ok :: "switch_state \<Rightarrow> nat \<Rightarrow> bool" where
  "kmalloc_ok s i \<longleftrightarrow> i < length (ss_kmalloc s) \<longrightarrow> ss_kmalloc s ! i"

lemma sw_kmalloc_ok: "fst (sw_kmalloc s) = kmalloc_ok s 0" "kmalloc_ok (snd (sw_kmalloc s)) i = kmalloc_ok s (Suc i)"
  by (auto simp: sw_kmalloc_def kmalloc_ok_def split: list.splits)

lemma sw_alloc_ok: "sw_alloc s = (if kmalloc_ok s 0 then Some (snd (sw_kmalloc s)) else None)"
  using sw_kmalloc_ok(1) [of s] by (auto simp: sw_alloc_def split: prod.splits bool.splits)

lemma mkdir_ok [simp]: "kmalloc_ok (proc_mkdir p s) i = kmalloc_ok s i" "kmalloc_ok (s\<lparr>ss_num := n\<rparr>) i = kmalloc_ok s i"
  by (simp_all add: kmalloc_ok_def proc_mkdir_def)

lemma sw_alloc_all: "\<forall>i. kmalloc_ok s i \<Longrightarrow> \<exists>s'. sw_alloc s = Some s' \<and> (\<forall>i. kmalloc_ok s' i)"
  unfolding sw_alloc_ok by (intro exI [of _ "snd (sw_kmalloc s)"]) (simp add: sw_kmalloc_ok(2))

lemma add_handlers_total:
  "\<forall>i. kmalloc_ok s i \<Longrightarrow> \<exists>hs' s'. add_handlers handlers p hs s = Some (hs', s') \<and> (\<forall>i. kmalloc_ok s' i)"
proof (induction handlers arbitrary: hs s)
  case (Cons h handlers)
  from sw_alloc_all [OF Cons.prems] obtain s1 where s1: "sw_alloc s = Some s1" "\<forall>i. kmalloc_ok s1 i" by blast
  then have "\<forall>i. kmalloc_ok (proc_mkdir (p @ [fst h]) s1) i" by simp
  from Cons.IH [OF this] show ?case by (simp add: s1(1))
qed simp

lemma add_dirs_total:
  "\<forall>i. kmalloc_ok s i \<Longrightarrow> list_all (\<lambda>i. i < 1000) is \<Longrightarrow>
   \<exists>hs' s'. add_dirs handlers dir is hs s = Some (hs', s') \<and> (\<forall>i. kmalloc_ok s' i)"
proof (induction "is" arbitrary: hs s)
  case (Cons i "is")
  let ?p = "dir @ [dec i]"
  have "length (dec i) \<le> Suc 2" by (rule length_dec) (use Cons.prems(2) in simp)
  then have l: "\<not> 4 \<le> length (dec i)" by simp
  obtain hs1 s1 where h: "(case handlers of None \<Rightarrow> Some (hs, proc_mkdir ?p s) | Some h \<Rightarrow> add_handlers h ?p hs (proc_mkdir ?p s)) =
      Some (hs1, s1)" "\<forall>i. kmalloc_ok s1 i"
    using Cons.prems(1) add_handlers_total [of "proc_mkdir ?p s"] by (cases handlers) fastforce+
  then show ?case using Cons.IH [OF h(2)] Cons.prems(2) l by (simp add: Let_def)
qed simp

lemma do_register_total:
  assumes "\<forall>i. kmalloc_ok s i" "sd_ports d \<le> 1000" "sd_vlans d \<le> 1000"
  shows "\<exists>r s'. do_register d s = Some (0, r, s')"
proof -
  obtain s0 where s0: "sw_kmalloc s = (True, s0)" "\<forall>i. kmalloc_ok s0 i"
    using sw_kmalloc_ok [of s] assms(1) by (cases "sw_kmalloc s") auto
  let ?s1 = "proc_mkdir [sd_interface d] (s0\<lparr>ss_num := ss_num s0 + 1\<rparr>)"
  have "\<forall>i. kmalloc_ok ?s1 i" using s0(2) by simp
  then obtain hs2 s2 where s2: "(case sd_driver_handlers d of None \<Rightarrow> Some ([], ?s1)
      | Some h \<Rightarrow> add_handlers (h @ global_driver_handlers) [sd_interface d] [] ?s1) = Some (hs2, s2)" "\<forall>i. kmalloc_ok s2 i"
    using add_handlers_total [of ?s1] by (cases "sd_driver_handlers d") fastforce+
  obtain s3 where s3: "sw_alloc (proc_mkdir (port_dir d) s2) = Some s3" "\<forall>i. kmalloc_ok s3 i"
    using sw_alloc_all [of "proc_mkdir (port_dir d) s2"] s2(2) by auto
  have "list_all (\<lambda>i. i < 1000) [0..<sd_ports d]" "list_all (\<lambda>i. i < 1000) [0..<sd_vlans d]"
    using assms(2,3) by (auto simp: list_all_iff)
  note n = this
  obtain hs4 s4 where s4: "add_dirs (sd_port_handlers d) (port_dir d) [0..<sd_ports d] hs2 s3 = Some (hs4, s4)" "\<forall>i. kmalloc_ok s4 i"
    using add_dirs_total [OF s3(2) n(1)] by blast
  obtain s5 where s5: "sw_alloc (proc_mkdir (vlan_dir d) s4) = Some s5" "\<forall>i. kmalloc_ok s5 i"
    using sw_alloc_all [of "proc_mkdir (vlan_dir d) s4"] s4(2) by auto
  obtain hs6 s6 where s6: "add_dirs (sd_vlan_handlers d) (vlan_dir d) [0..<sd_vlans d] hs4 s5 = Some (hs6, s6)"
    using add_dirs_total [OF s5(2) n(2)] by blast
  show ?thesis
    unfolding do_register_def s0(1) by (simp add: Let_def s2(1) s3(1) s4(1) s5(1) s6)
qed

lemma do_register_refused:
  assumes "\<not> kmalloc_ok s 0"
  shows "\<exists>r. do_register d s = Some (- ENOBUFS, r, snd (sw_kmalloc s))"
proof -
  obtain s0 where "sw_kmalloc s = (False, s0)" using sw_kmalloc_ok(1) [of s] assms by (cases "sw_kmalloc s") auto
  then show ?thesis by (simp add: do_register_def)
qed

definition name_taken :: "switch_driver \<Rightarrow> switch_state \<Rightarrow> bool" where
  "name_taken d s \<longleftrightarrow>
     (\<exists>r \<in> set (ss_drivers s). sd_name (rg_driver r) = sd_name d \<or> sd_interface (rg_driver r) = sd_interface d)"

lemma register_free:
  assumes "\<not> name_taken d s"
  shows "switch_register_driver d s = (if kmalloc_ok s 0 \<and> kmalloc_ok s 1 \<and> kmalloc_ok s 2 then
      (let s3 = snd (sw_kmalloc (snd (sw_kmalloc (snd (sw_kmalloc s)))))
       in case do_register d s3 of
            None \<Rightarrow> None
          | Some (ret, r, s) \<Rightarrow> if ret < 0 then Some (ret, s) else Some (0, s\<lparr>ss_drivers := r # ss_drivers s\<rparr>))
    else None)"
  using assms
  by (simp add: switch_register_driver_def name_taken_def sw_alloc_ok sw_kmalloc_ok Let_def numeral_2_eq_2)

text \<open>A registered driver is taken out again with all that it has.\<close>

lemma unregister_latest:
  assumes "do_register d s = Some (0, r, s')"
  defines "s2 \<equiv> switch_unregister_driver (sd_name d) (s'\<lparr>ss_drivers := r # ss_drivers s'\<rparr>)"
  shows "mset (ss_tree s2) = mset (ss_tree s)" "ss_drivers s2 = ss_drivers s" "ss_num s2 = ss_num s"
proof -
  let ?s1 = "s'\<lparr>ss_drivers := r # ss_drivers s'\<rparr>"
  note reg = do_register_tree [OF assms(1)]
  have "s2 = (do_unregister r ?s1)\<lparr>ss_drivers := ss_drivers s'\<rparr>"
    using reg(4) by (simp add: s2_def switch_unregister_driver_def)
  moreover have "ss_num (fold remove_proc_entry (driver_paths r) ?s1) = ss_num s + 1"
    using remove_paths_tree [of "driver_paths r" ?s1] reg(3) by simp
  moreover have "mset (ss_tree (fold remove_proc_entry (driver_paths r) ?s1)) = mset (ss_tree s)"
    using remove_paths_tree [of "driver_paths r" ?s1] reg(1) by simp
  ultimately show "mset (ss_tree s2) = mset (ss_tree s)" "ss_drivers s2 = ss_drivers s" "ss_num s2 = ss_num s"
    using reg by (simp_all add: do_unregister_paths Let_def)
qed

text \<open>C28: What a registration does, by the outcomes of its allocations. A driver whose name or interface is taken is refused with
  \<open>-EINVAL\<close>, and nothing changes. Any other is refused, with \<open>-ENOBUFS\<close>, exactly when the allocation of its private data (the
  fourth) fails; then the files, the drivers and the counter stay. Else it is accepted: it heads the list of drivers, the counter is
  one higher and the tree has its files and directories in addition; and unregistering it leaves the tree, the list
  of drivers and the counter as they were, however many ports, VLANs and handlers it has. The call dereferences a null pointer or
  overruns its name buffer only when one of the other allocations fails or the driver has more than 1000 ports or
  VLANs.\<close>

theorem switch_register_balanced:
  shows "case switch_register_driver d s of
      None \<Rightarrow> \<not> name_taken d s \<and> ((\<exists>i. i \<noteq> 3 \<and> \<not> kmalloc_ok s i) \<or> 1000 < sd_ports d \<or> 1000 < sd_vlans d)
    | Some (ret, s1) \<Rightarrow>
        if name_taken d s then ret = - EINVAL \<and> s1 = s
        else if \<not> kmalloc_ok s 3 then
          ret = - ENOBUFS \<and> ss_tree s1 = ss_tree s \<and> ss_drivers s1 = ss_drivers s \<and> ss_num s1 = ss_num s
        else ret = 0 \<and> ss_num s1 = ss_num s + 1 \<and>
          (\<exists>r. rg_driver r = d \<and> rg_nr r = ss_num s \<and> ss_drivers s1 = r # ss_drivers s \<and>
             mset (ss_tree s1) = mset (ss_tree s) + mset (driver_paths r)) \<and>
          mset (ss_tree (switch_unregister_driver (sd_name d) s1)) = mset (ss_tree s) \<and>
          ss_drivers (switch_unregister_driver (sd_name d) s1) = ss_drivers s \<and>
          ss_num (switch_unregister_driver (sd_name d) s1) = ss_num s"
proof (cases "name_taken d s")
  case True
  then show ?thesis by (simp add: switch_register_driver_def name_taken_def)
next
  case False
  define s3 where "s3 = snd (sw_kmalloc (snd (sw_kmalloc (snd (sw_kmalloc s)))))"
  have k: "kmalloc_ok s3 i = kmalloc_ok s (i + 3)" for i by (simp add: s3_def sw_kmalloc_ok numeral_3_eq_3)
  have same: "ss_tree (snd (sw_kmalloc s)) = ss_tree s" "ss_drivers (snd (sw_kmalloc s)) = ss_drivers s"
    "ss_num (snd (sw_kmalloc s)) = ss_num s" for s by (simp_all add: sw_kmalloc_def split: list.split)
  then have same3: "ss_tree s3 = ss_tree s" "ss_drivers s3 = ss_drivers s" "ss_num s3 = ss_num s" by (simp_all add: s3_def)
  note reg = register_free [OF False, folded s3_def, unfolded Let_def]
  show ?thesis
  proof (cases "kmalloc_ok s 0 \<and> kmalloc_ok s 1 \<and> kmalloc_ok s 2")
    case first: True
    show ?thesis
    proof (cases "kmalloc_ok s 3")
      case False
      then obtain r where "do_register d s3 = Some (- ENOBUFS, r, snd (sw_kmalloc s3))"
        using do_register_refused [of s3] k [of 0] by auto
      then show ?thesis using \<open>\<not> name_taken d s\<close> first False by (simp add: reg same same3)
    next
      case fourth: True
      show ?thesis
      proof (cases "do_register d s3")
        case None
        then have "\<not> ((\<forall>i. kmalloc_ok s3 i) \<and> sd_ports d \<le> 1000 \<and> sd_vlans d \<le> 1000)" using do_register_total [of s3 d] by auto
        then have "(\<exists>i. i \<noteq> 3 \<and> \<not> kmalloc_ok s i) \<or> 1000 < sd_ports d \<or> 1000 < sd_vlans d" using fourth k by (metis not_less)
        then show ?thesis using False first None by (simp add: reg)
      next
        case (Some x)
        obtain ret r s' where x: "x = (ret, r, s')" by (cases x)
        have "kmalloc_ok s3 0" using fourth k [of 0] by simp
        then have "ret = 0" using Some x sw_kmalloc_ok(1) [of s3]
          by (cases "sw_kmalloc s3") (auto simp: do_register_def Let_def split: option.splits)
        then have r: "do_register d s3 = Some (0, r, s')" using Some x by simp
        then have "switch_register_driver d s = Some (0, s'\<lparr>ss_drivers := r # ss_drivers s'\<rparr>)" using first by (simp add: reg)
        then show ?thesis
          using False fourth do_register_tree [OF r] unregister_latest [OF r] by (simp add: same3)
      qed
    qed
  next
    case bad: False
    have "(0 :: nat) \<noteq> 3" "(1 :: nat) \<noteq> 3" "(2 :: nat) \<noteq> 3" by simp_all
    with bad have "\<exists>i. i \<noteq> 3 \<and> \<not> kmalloc_ok s i" by blast
    then show ?thesis unfolding reg if_not_P [OF bad] using False by simp
  qed
qed

theorem switch_register_balanced_witness:
  "\<exists>r s1. switch_register_driver sample_switch \<lparr>ss_drivers = [], ss_num = 0, ss_tree = [], ss_kmalloc = []\<rparr> = Some (0, s1) \<and>
    ss_drivers s1 = [r] \<and> ss_tree s1 \<noteq> [] \<and> ss_tree (switch_unregister_driver (sd_name sample_switch) s1) = []"
proof -
  let ?s = "\<lparr>ss_drivers = [], ss_num = 0, ss_tree = [], ss_kmalloc = []\<rparr>"
  have n: "\<not> name_taken sample_switch ?s" "kmalloc_ok ?s i" "sd_ports sample_switch \<le> 1000" "sd_vlans sample_switch \<le> 1000" for i
    by (simp_all add: name_taken_def kmalloc_ok_def sample_switch_def)
  show ?thesis
    using switch_register_balanced [of sample_switch ?s] n
    by (auto simp: driver_paths_def Let_def split: option.splits)
qed

end
