(* ===== verification/SwitchVlan.thy ===== *)
theory SwitchVlan
  imports SwitchText
begin

text \<open>
  The contract of the VLAN files, which both drivers of switch chips keep: what is written to the file of a VLAN is what the
  line that is read from it says, and the file of no other VLAN changes its ports.
\<close>

lemma vlan_line_cong:
  assumes "\<And>j. j < 6 \<Longrightarrow> m j = m' j" "\<And>j. j < 6 \<Longrightarrow> m j \<Longrightarrow> t j = t' j" "\<And>j. j < 6 \<Longrightarrow> p j = p' j"
  shows "vlan_line m t p = vlan_line m' t' p'"
proof -
  have "List.map (\<lambda>j. if m j then dec j @ flag_text t p j @ [TAB] else []) [0..<6] =
      List.map (\<lambda>j. if m' j then dec j @ flag_text t' p' j @ [TAB] else []) [0..<6]"
  proof (rule map_cong [OF refl])
    fix j assume "j \<in> set [0..<6]"
    then have "j < 6" by (simp only: set_upt atLeastLessThan_iff)
    from assms [OF this] show "(if m j then dec j @ flag_text t p j @ [TAB] else []) = (if m' j then dec j @ flag_text t' p' j @ [TAB] else [])"
      by (auto simp: flag_text_def)
  qed
  then show ?thesis by (simp only: vlan_line_def)
qed

section \<open>The contract\<close>

text \<open>The state shows for every VLAN whether it is valid, its members, which of them are tagged, and which ports have it as
  their default.\<close>

locale vlan_switch =
  fixes d :: switch_driver
    and wr :: "cstr \<Rightarrow> nat \<Rightarrow> 's \<Rightarrow> (int \<times> 's) option"
    and rd :: "nat \<Rightarrow> 's \<Rightarrow> cstr \<times> 's"
    and inv :: "'s \<Rightarrow> bool"
    and valid :: "'s \<Rightarrow> nat \<Rightarrow> bool"
    and mem tag dft :: "'s \<Rightarrow> nat \<Rightarrow> nat \<Rightarrow> bool"
  assumes drv: "sd_ports d = 6" "sd_cpuport d = 5"
    and wr_ok: "inv s \<Longrightarrow> nr < sd_vlans d \<Longrightarrow> switch_parse_vlan d True buf = Some (Some c) \<Longrightarrow>
      \<exists>s'. wr buf nr s = Some (0, s') \<and> inv s' \<and> valid s' nr \<and>
        (\<forall>j < 6. mem s' nr j = bit (vc_port c) j) \<and>
        (\<forall>j < 6. bit (vc_port c) j \<longrightarrow> tag s' nr j = (\<not> bit (vc_untag c) j)) \<and>
        (\<forall>j < 6. dft s' nr j = (bit (vc_untag c OR vc_pvid c) j \<or> dft s nr j)) \<and>
        (\<forall>k < sd_vlans d. k \<noteq> nr \<longrightarrow> valid s' k = valid s k \<and> (\<forall>j < 6. mem s' k j = mem s k j))"
    and rd_ok: "inv s \<Longrightarrow> nr < sd_vlans d \<Longrightarrow>
      \<exists>s'. rd nr s = (if valid s nr then vlan_line (mem s nr) (tag s nr) (dft s nr) else [], s') \<and> inv s' \<and>
        (\<forall>k < sd_vlans d. valid s' k = valid s k \<and> (\<forall>j < 6. mem s' k j = mem s k j \<and> tag s' k j = tag s k j \<and> dft s' k j = dft s k j))"
begin

text \<open>What is written is read back: the same ports and the same untagged ports; the default ports of the text that are
  tagged, and those that had this VLAN as their default before.\<close>

lemma write_read:
  assumes "inv s" "nr < sd_vlans d" "switch_parse_vlan d True buf = Some (Some c)"
  shows "\<exists>s1 s2 txt c'. wr buf nr s = Some (0, s1) \<and> rd nr s1 = (txt, s2) \<and> inv s2 \<and>
    switch_parse_vlan d True txt = Some (Some c') \<and> vc_port c' = vc_port c \<and> vc_untag c' = vc_untag c \<and>
    vc_pvid c' = ports_word (\<lambda>j. bit (vc_port c) j \<and> \<not> bit (vc_untag c) j \<and> (bit (vc_pvid c) j \<or> dft s nr j))"
proof -
  note wf = parse_vlan_wf [OF assms(3)]
  from wr_ok [OF assms] obtain s1 where s1: "wr buf nr s = Some (0, s1)" "inv s1" "valid s1 nr"
    "\<forall>j < 6. mem s1 nr j = bit (vc_port c) j" "\<forall>j < 6. bit (vc_port c) j \<longrightarrow> tag s1 nr j = (\<not> bit (vc_untag c) j)"
    "\<forall>j < 6. dft s1 nr j = (bit (vc_untag c OR vc_pvid c) j \<or> dft s nr j)" by blast
  from rd_ok [OF s1(2) assms(2)] s1(3) obtain s2 where s2: "rd nr s1 = (vlan_line (mem s1 nr) (tag s1 nr) (dft s1 nr), s2)" "inv s2"
    by auto
  have sub: "bit (vc_untag c) j \<Longrightarrow> bit (vc_port c) j" for j using wf(1) by (auto simp: vlan_ok_def and_eq_bits)
  have lt: "bit (vc_port c) j \<Longrightarrow> j < 6" for j using wf(2) drv by simp
  have p: "ports_word (mem s1 nr) = vc_port c"
    by (rule bit_word_eqI) (use s1(4) lt in \<open>auto simp: bit_ports_word\<close>)
  have u: "ports_word (\<lambda>i. mem s1 nr i \<and> \<not> tag s1 nr i) = vc_untag c"
    by (rule bit_word_eqI) (use s1(4,5) lt sub in \<open>auto simp: bit_ports_word\<close>)
  have t: "ports_word (\<lambda>i. mem s1 nr i \<and> tag s1 nr i \<and> dft s1 nr i) =
      ports_word (\<lambda>j. bit (vc_port c) j \<and> \<not> bit (vc_untag c) j \<and> (bit (vc_pvid c) j \<or> dft s nr j))"
    by (rule bit_word_eqI) (use s1(4,5,6) lt in \<open>auto simp: bit_ports_word bit_or_iff\<close>)
  let ?c = "\<lparr>vc_port = vc_port c, vc_untag = vc_untag c,
    vc_pvid = ports_word (\<lambda>j. bit (vc_port c) j \<and> \<not> bit (vc_untag c) j \<and> (bit (vc_pvid c) j \<or> dft s nr j))\<rparr>"
  have "switch_parse_vlan d True (vlan_line (mem s1 nr) (tag s1 nr) (dft s1 nr)) = Some (Some ?c)"
    unfolding parse_vlan_line [OF drv] p u t ..
  moreover have "vc_port ?c = vc_port c \<and> vc_untag ?c = vc_untag c \<and>
      vc_pvid ?c = ports_word (\<lambda>j. bit (vc_port c) j \<and> \<not> bit (vc_untag c) j \<and> (bit (vc_pvid c) j \<or> dft s nr j))" by simp
  ultimately show ?thesis using s1(1) s2 by blast
qed

text \<open>Writing one VLAN leaves the members of the others.\<close>

lemma write_others:
  assumes "inv s" "nr < sd_vlans d" "switch_parse_vlan d True buf = Some (Some c)" "wr buf nr s = Some (0, s1)"
    "k < sd_vlans d" "k \<noteq> nr" "j < 6"
  shows "mem s1 k j = mem s k j"
  using wr_ok [OF assms(1-3)] assms(4-) by auto

end

end
