(* ===== verification/SwitchRoboChip.thy ===== *)
theory SwitchRoboChip
  imports SwitchRobo SwitchVlan
begin

text \<open>
  The Broadcom switch driver on its chip: what the registers of the management interface do, and that the driver's accesses
  and its VLAN files work on a chip that does this.
\<close>

section \<open>The chip\<close>

text \<open>The latched page and data, the operation under way with the looks it still takes, the registers and the VLAN table.\<close>

record robo_chip =
  rc_page :: u8
  rc_data0 :: u16
  rc_data1 :: u16
  rc_pending :: "(bool \<times> u8 \<times> nat) option"
  rc_delay :: nat
  rc_reg :: "u8 \<Rightarrow> u8 \<Rightarrow> u32"
  rc_vlan :: "nat \<Rightarrow> u32"

definition access_reg :: "bool \<Rightarrow> u8" where
  "access_reg b = (if b then ROBO_VLAN_TABLE_ACCESS_5350 else ROBO_VLAN_TABLE_ACCESS)"

definition entry_reg :: "bool \<Rightarrow> u8" where
  "entry_reg b = (if b then ROBO_VLAN_WRITE_5350 else ROBO_VLAN_WRITE)"

definition set_reg :: "u8 \<Rightarrow> u8 \<Rightarrow> u32 \<Rightarrow> robo_chip \<Rightarrow> robo_chip" where
  "set_reg page reg v c = c\<lparr>rc_reg := (rc_reg c)(page := (rc_reg c page)(reg := v))\<rparr>"

lemma set_reg_page [simp]: "rc_page (set_reg page reg v c) = rc_page c"
  by (simp add: set_reg_def)

text \<open>Access to the VLAN table: bit 13 starts it, bit 12 makes it a write.\<close>

definition table_access :: "bool \<Rightarrow> u32 \<Rightarrow> robo_chip \<Rightarrow> robo_chip" where
  "table_access b v c =
     (if \<not> bit v 13 then c
      else if bit v 12 then c\<lparr>rc_vlan := (rc_vlan c)(unat (v AND 0xFFF) := rc_reg c ROBO_VLAN_PAGE (entry_reg b))\<rparr>
      else set_reg ROBO_VLAN_PAGE ROBO_VLAN_READ (rc_vlan c (unat (v AND 0xFFF))) c)"

definition run_op :: "bool \<Rightarrow> bool \<Rightarrow> u8 \<Rightarrow> robo_chip \<Rightarrow> robo_chip" where
  "run_op b wr reg c =
     (if wr then
        (let v = ucast (rc_data0 c) OR push_bit 16 (ucast (rc_data1 c)); c = set_reg (rc_page c) reg v c
         in if rc_page c = ROBO_VLAN_PAGE \<and> reg = access_reg b then table_access b (v AND 0xFFFF) c else c)
      else c\<lparr>rc_data0 := ucast (rc_reg c (rc_page c) reg), rc_data1 := ucast (drop_bit 16 (rc_reg c (rc_page c) reg))\<rparr>)"

definition chip_write :: "u8 \<Rightarrow> u16 \<Rightarrow> robo_chip \<Rightarrow> robo_chip" where
  "chip_write r v c =
     (if r = REG_MII_PAGE then c\<lparr>rc_page := ucast (drop_bit 8 v)\<rparr>
      else if r = REG_MII_ADDR then
        c\<lparr>rc_pending := (if v AND 3 = 0 then None else Some (v AND 3 = 1, ucast (drop_bit 8 v), rc_delay c))\<rparr>
      else if r = REG_MII_DATA0 then c\<lparr>rc_data0 := v\<rparr>
      else if r = REG_MII_DATA0 + 1 then c\<lparr>rc_data1 := v\<rparr>
      else c)"

definition chip_read :: "bool \<Rightarrow> u8 \<Rightarrow> robo_chip \<Rightarrow> u16 \<times> robo_chip" where
  "chip_read b r c =
     (if r = REG_MII_ADDR then
        (case rc_pending c of
           None \<Rightarrow> (0, c)
         | Some (wr, reg, 0) \<Rightarrow> (0, run_op b wr reg (c\<lparr>rc_pending := None\<rparr>))
         | Some (wr, reg, Suc k) \<Rightarrow> (if wr then 1 else 2, c\<lparr>rc_pending := Some (wr, reg, k)\<rparr>))
      else if r = REG_MII_DATA0 then (rc_data0 c, c)
      else if r = REG_MII_DATA0 + 1 then (rc_data1 c, c)
      else (0, c))"

text \<open>Through \<open>mdio_read\<close> and \<open>mdio_write\<close> the driver reaches such a chip; \<open>ch\<close> is the chip in the outside world. It is
  ready when no operation is under way and an operation takes at most three looks.\<close>

definition robo_chip_ok :: "'w robo_bus \<Rightarrow> robo \<Rightarrow> ('w \<Rightarrow> robo_chip) \<Rightarrow> bool" where
  "robo_chip_ok bus rb ch \<longleftrightarrow>
     (\<forall>r v w. ch (mdio_write bus rb ROBO_PHY_ADDR r v w) = chip_write r v (ch w)) \<and>
     (\<forall>r w. fst (mdio_read bus rb ROBO_PHY_ADDR r w) = fst (chip_read (is_5350 rb) r (ch w)) \<and>
        ch (snd (mdio_read bus rb ROBO_PHY_ADDR r w)) = snd (chip_read (is_5350 rb) r (ch w)))"

definition ready :: "robo_chip \<Rightarrow> bool" where
  "ready c \<longleftrightarrow> rc_pending c = None \<and> rc_delay c < 3"

section \<open>Register access\<close>

lemma run_op_keeps [simp]: "rc_pending (run_op b wr reg c) = rc_pending c" "rc_delay (run_op b wr reg c) = rc_delay c"
  by (simp_all add: run_op_def Let_def set_reg_def table_access_def)

lemma chip_mdio_read:
  assumes "robo_chip_ok bus rb ch" "mdio_read bus rb ROBO_PHY_ADDR r w = (v, w')"
  shows "v = fst (chip_read (is_5350 rb) r (ch w))" "ch w' = snd (chip_read (is_5350 rb) r (ch w))"
  using assms unfolding robo_chip_ok_def by (metis fst_conv, metis snd_conv)

lemma chip_mdio_write: "robo_chip_ok bus rb ch \<Longrightarrow> ch (mdio_write bus rb ROBO_PHY_ADDR r v w) = chip_write r v (ch w)"
  by (simp add: robo_chip_ok_def)

lemma poll_chip:
  assumes "robo_chip_ok bus rb ch" "rc_pending (ch w) = Some (wr, reg, k)" "k < n"
  shows "ch (robo_poll n bus rb w) = run_op (is_5350 rb) wr reg ((ch w)\<lparr>rc_pending := None\<rparr>)"
  using assms(2,3)
proof (induction n arbitrary: k w)
  case (Suc n)
  obtain v w' where r: "mdio_read bus rb ROBO_PHY_ADDR REG_MII_ADDR w = (v, w')" by force
  note c = chip_mdio_read [OF assms(1) r]
  show ?case
  proof (cases k)
    case 0
    then show ?thesis using c Suc.prems(1) by (simp add: r chip_read_def)
  next
    case (Suc k')
    have v: "v AND 3 \<noteq> 0" "ch w' = (ch w)\<lparr>rc_pending := Some (wr, reg, k')\<rparr>"
      using c Suc.prems(1) by (simp_all add: chip_read_def Suc)
    from Suc.IH [of w' k'] v Suc.prems(2) show ?thesis by (simp add: r Suc)
  qed
qed simp

definition op_code :: "bool \<Rightarrow> u16" where
  "op_code wr = (if wr then REG_MII_ADDR_WRITE else REG_MII_ADDR_READ)"

lemma bit_high: "bit (push_bit 8 (ucast (r :: u8)) :: u16) n \<longleftrightarrow> 8 \<le> n \<and> n < 16 \<and> bit r (n - 8)"
  unfolding bit_push_bit_iff bit_ucast_iff by (auto dest: bit_imp_le_length)

lemma bit_op_code: "bit (op_code wr) n \<longleftrightarrow> n = (if wr then 0 else 1)"
  by (auto simp: op_code_def bit_simps)

lemma bit_3: "bit (3 :: 'a::len word) n \<longleftrightarrow> n < 2 \<and> n < LENGTH('a)"
proof -
  have three: "(3 :: 'a word) = mask 2" by (simp add: mask_eq_exp_minus_1)
  show ?thesis unfolding three bit_mask_iff possible_bit_word by auto
qed

lemma addr_word:
  "(push_bit 8 (ucast (reg :: u8)) OR op_code wr) AND 3 = op_code wr" "ucast (drop_bit 8 (push_bit 8 (ucast reg) OR op_code wr)) = reg"
  by (rule bit_word_eqI, auto simp only: bit_and_iff bit_or_iff bit_high bit_op_code bit_3 bit_ucast_iff bit_drop_bit_eq comp_apply
      split: if_splits; simp)+

lemma page_word: "ucast (drop_bit 8 (push_bit 8 (ucast (page :: u8)) OR (1 :: u16))) = page"
  using addr_word(2) [of page True] by (simp only: op_code_def if_True)

lemma op_code_simps: "op_code wr \<noteq> 0" "(op_code wr = 1) = wr"
  by (simp_all add: op_code_def)

lemma robo_reg_chip:
  assumes "robo_chip_ok bus rb ch" "ready (ch w)"
  shows "ch (robo_reg bus rb page reg (op_code wr) w) = run_op (is_5350 rb) wr reg ((ch w)\<lparr>rc_page := page\<rparr>)"
proof -
  note ok = chip_mdio_write [OF assms(1)]
  let ?w = "mdio_write bus rb ROBO_PHY_ADDR REG_MII_ADDR (push_bit 8 (ucast reg) OR op_code wr)
     (mdio_write bus rb ROBO_PHY_ADDR REG_MII_PAGE (push_bit 8 (ucast page) OR REG_MII_PAGE_ENABLE) w)"
  have c: "ch ?w = (ch w)\<lparr>rc_page := page, rc_pending := Some (wr, reg, rc_delay (ch w))\<rparr>"
    unfolding ok chip_write_def addr_word page_word by (simp add: op_code_simps)
  have "ch (robo_poll 3 bus rb ?w) = run_op (is_5350 rb) wr reg ((ch ?w)\<lparr>rc_pending := None\<rparr>)"
    by (rule poll_chip [OF assms(1), where k = "rc_delay (ch w)"]) (use c assms(2) in \<open>simp_all add: ready_def\<close>)
  moreover have "(ch ?w)\<lparr>rc_pending := None\<rparr> = (ch w)\<lparr>rc_page := page\<rparr>"
    unfolding c using assms(2) by (simp add: ready_def)
  ultimately show ?thesis by (simp add: robo_reg_def Let_def)
qed

text \<open>The halves of a word.\<close>

lemma bit_halves: "bit (ucast (a :: u16) OR push_bit 16 (ucast (b :: u16)) :: u32) n \<longleftrightarrow> (if n < 16 then bit a n else n < 32 \<and> bit b (n - 16))"
  unfolding bit_or_iff bit_push_bit_iff bit_ucast_iff by (auto dest: bit_imp_le_length)

lemma low_half: "ucast (ucast (a :: u16) OR push_bit 16 (ucast (b :: u16)) :: u32) = a"
  by (rule bit_word_eqI) (simp add: bit_ucast_iff bit_halves)

lemma low_half_and: "(ucast (a :: u16) OR push_bit 16 (ucast (b :: u16))) AND 0xFFFF = (ucast a :: u32)"
proof -
  have m: "(0xFFFF :: u32) = mask 16" by (simp add: mask_eq_exp_minus_1)
  show ?thesis unfolding m by (rule bit_word_eqI) (auto simp: bit_and_iff bit_mask_iff bit_halves bit_ucast_iff dest: bit_imp_le_length)
qed

lemma join_halves: "ucast (ucast (v :: u32) :: u16) OR push_bit 16 (ucast (ucast (drop_bit 16 v) :: u16)) = v"
  by (rule bit_word_eqI) (auto simp: bit_halves bit_ucast_iff bit_drop_bit_eq)

lemma add_halves: "ucast (a :: u16) + push_bit 16 (ucast (b :: u16)) = (ucast a OR push_bit 16 (ucast b) :: u32)"
  by (rule disjunctive_add) (auto simp: bit_push_bit_iff bit_ucast_iff dest: bit_imp_le_length)

lemma take_half: "ucast (v AND 65535 :: u32) = (ucast v :: u16)"
proof -
  have m: "(65535 :: u32) = mask 16" by (simp add: mask_eq_exp_minus_1)
  show ?thesis unfolding m by (rule bit_word_eqI) (auto simp: bit_and_iff bit_mask_iff bit_ucast_iff)
qed

text \<open>Reading a register changes no register and not the table.\<close>

lemma ready_run_op [simp]: "ready (run_op b wr reg c) = ready c"
  by (simp add: ready_def)

definition same_regs :: "robo_chip \<Rightarrow> robo_chip \<Rightarrow> bool" where
  "same_regs c c' \<longleftrightarrow> ready c' \<and> rc_reg c' = rc_reg c \<and> rc_vlan c' = rc_vlan c"

lemma robo_read16_chip:
  assumes "robo_chip_ok bus rb ch" "ready (ch w)" "robo_read16 bus rb page reg w = (v, w')"
  shows "v = ucast (rc_reg (ch w) page reg)" "same_regs (ch w) (ch w')"
proof -
  let ?w = "robo_reg bus rb page reg REG_MII_ADDR_READ w"
  have c: "ch ?w = run_op (is_5350 rb) False reg ((ch w)\<lparr>rc_page := page\<rparr>)"
    using robo_reg_chip [OF assms(1,2), of page reg False] by (simp add: op_code_def)
  have "mdio_read bus rb ROBO_PHY_ADDR REG_MII_DATA0 ?w = (v, w')" using assms(3) by (simp add: robo_read16_def)
  note r = chip_mdio_read [OF assms(1) this]
  show "v = ucast (rc_reg (ch w) page reg)" using r(1) by (simp add: c chip_read_def run_op_def)
  show "same_regs (ch w) (ch w')" using r(2) assms(2) by (simp add: c chip_read_def run_op_def same_regs_def ready_def)
qed

lemma robo_read32_chip:
  assumes "robo_chip_ok bus rb ch" "ready (ch w)" "robo_read32 bus rb page reg w = (v, w')"
  shows "v = rc_reg (ch w) page reg" "same_regs (ch w) (ch w')"
proof -
  let ?w = "robo_reg bus rb page reg REG_MII_ADDR_READ w"
  have c: "ch ?w = run_op (is_5350 rb) False reg ((ch w)\<lparr>rc_page := page\<rparr>)"
    using robo_reg_chip [OF assms(1,2), of page reg False] by (simp add: op_code_def)
  obtain lo w1 where lo: "mdio_read bus rb ROBO_PHY_ADDR REG_MII_DATA0 ?w = (lo, w1)" by force
  obtain hi w2 where hi: "mdio_read bus rb ROBO_PHY_ADDR (REG_MII_DATA0 + 1) w1 = (hi, w2)" by force
  note l = chip_mdio_read [OF assms(1) lo] and h = chip_mdio_read [OF assms(1) hi]
  have e: "v = ucast lo + push_bit 16 (ucast hi)" "w' = w2" using assms(3) hi unfolding robo_read32_def Let_def lo by simp_all
  have l1: "lo = ucast (rc_reg (ch w) page reg)" "ch w1 = ch ?w" using l by (simp_all add: c chip_read_def run_op_def)
  have h1: "hi = ucast (drop_bit 16 (rc_reg (ch w) page reg))" "ch w2 = ch ?w"
    using h by (simp_all add: l1 c chip_read_def run_op_def)
  show "v = rc_reg (ch w) page reg" unfolding e l1 h1 add_halves join_halves ..
  show "same_regs (ch w) (ch w')" using assms(2) by (simp add: e h1 c run_op_def same_regs_def ready_def)
qed

text \<open>Writing a register changes this one; writing the access register works on the table.\<close>

lemma robo_write16_chip:
  assumes "robo_chip_ok bus rb ch" "ready (ch w)"
  shows "ch (robo_write16 bus rb page reg val w) = run_op (is_5350 rb) True reg ((ch w)\<lparr>rc_data0 := val, rc_page := page\<rparr>)"
proof -
  let ?w = "mdio_write bus rb ROBO_PHY_ADDR REG_MII_DATA0 val w"
  have c: "ch ?w = (ch w)\<lparr>rc_data0 := val\<rparr>" by (simp add: chip_mdio_write [OF assms(1)] chip_write_def)
  have "ready (ch ?w)" using assms(2) by (simp add: c ready_def)
  from robo_reg_chip [OF assms(1) this, of page reg True] show ?thesis by (simp add: robo_write16_def c op_code_def)
qed

lemma robo_write32_chip:
  assumes "robo_chip_ok bus rb ch" "ready (ch w)"
  shows "ch (robo_write32 bus rb page reg val w) =
    run_op (is_5350 rb) True reg ((ch w)\<lparr>rc_data0 := ucast val, rc_data1 := ucast (drop_bit 16 val), rc_page := page\<rparr>)"
proof -
  let ?w = "mdio_write bus rb ROBO_PHY_ADDR (REG_MII_DATA0 + 1) (ucast (drop_bit 16 val))
     (mdio_write bus rb ROBO_PHY_ADDR REG_MII_DATA0 (ucast (val AND 65535)) w)"
  have c: "ch ?w = (ch w)\<lparr>rc_data0 := ucast val, rc_data1 := ucast (drop_bit 16 val)\<rparr>"
    unfolding chip_mdio_write [OF assms(1)] take_half by (simp add: chip_write_def)
  have "ready (ch ?w)" using assms(2) unfolding c by (simp add: ready_def)
  from robo_reg_chip [OF assms(1) this, of page reg True] show ?thesis
    unfolding c robo_write32_def Let_def op_code_def if_True by simp
qed

definition others_same :: "u8 \<Rightarrow> u8 \<Rightarrow> robo_chip \<Rightarrow> robo_chip \<Rightarrow> bool" where
  "others_same page reg c c' \<longleftrightarrow> ready c' \<and> rc_vlan c' = rc_vlan c \<and> (\<forall>p r. p \<noteq> page \<or> r \<noteq> reg \<longrightarrow> rc_reg c' p r = rc_reg c p r)"

lemma robo_write16_plain:
  assumes "robo_chip_ok bus rb ch" "ready (ch w)" "page \<noteq> ROBO_VLAN_PAGE \<or> reg \<noteq> access_reg (is_5350 rb)"
  shows "ucast (rc_reg (ch (robo_write16 bus rb page reg val w)) page reg) = val"
    "others_same page reg (ch w) (ch (robo_write16 bus rb page reg val w))"
proof -
  have c: "ch (robo_write16 bus rb page reg val w) =
      set_reg page reg (ucast val OR push_bit 16 (ucast (rc_data1 (ch w)))) ((ch w)\<lparr>rc_data0 := val, rc_page := page\<rparr>)"
    using assms(3) unfolding robo_write16_chip [OF assms(1,2)] run_op_def Let_def by auto
  show "ucast (rc_reg (ch (robo_write16 bus rb page reg val w)) page reg) = val"
    unfolding c by (simp add: set_reg_def low_half)
  show "others_same page reg (ch w) (ch (robo_write16 bus rb page reg val w))"
    using assms(2) by (simp add: c set_reg_def others_same_def ready_def)
qed

lemma robo_write32_plain:
  assumes "robo_chip_ok bus rb ch" "ready (ch w)" "page \<noteq> ROBO_VLAN_PAGE \<or> reg \<noteq> access_reg (is_5350 rb)"
  shows "rc_reg (ch (robo_write32 bus rb page reg val w)) page reg = val"
    "others_same page reg (ch w) (ch (robo_write32 bus rb page reg val w))"
proof -
  let ?c = "(ch w)\<lparr>rc_data0 := ucast val, rc_data1 := ucast (drop_bit 16 val), rc_page := page\<rparr>"
  have f: "rc_data0 ?c = ucast val" "rc_data1 ?c = ucast (drop_bit 16 val)" "rc_page ?c = page" by simp_all
  have h: "ucast (rc_data0 ?c) OR push_bit 16 (ucast (rc_data1 ?c)) = val"
    unfolding f join_halves ..
  have c: "ch (robo_write32 bus rb page reg val w) = set_reg page reg val ?c"
    using assms(3) unfolding robo_write32_chip [OF assms(1,2)] run_op_def Let_def if_True h by auto
  show "rc_reg (ch (robo_write32 bus rb page reg val w)) page reg = val" by (simp add: c set_reg_def)
  show "others_same page reg (ch w) (ch (robo_write32 bus rb page reg val w))"
    using assms(2) by (simp add: c set_reg_def others_same_def ready_def)
qed

lemma robo_write16_access:
  assumes "robo_chip_ok bus rb ch" "ready (ch w)"
  shows "ch (robo_write16 bus rb ROBO_VLAN_PAGE (access_reg (is_5350 rb)) val w) =
    table_access (is_5350 rb) (ucast val)
      (set_reg ROBO_VLAN_PAGE (access_reg (is_5350 rb)) (ucast val OR push_bit 16 (ucast (rc_data1 (ch w))))
        ((ch w)\<lparr>rc_data0 := val, rc_page := ROBO_VLAN_PAGE\<rparr>))"
  unfolding robo_write16_chip [OF assms] run_op_def Let_def by (simp add: low_half_and)


section \<open>VLANs of the chip\<close>

text \<open>The entry of the table, its bits, and the VLAN that is the default of a port.\<close>

definition robo_valid :: "bool \<Rightarrow> robo_chip \<Rightarrow> nat \<Rightarrow> bool" where
  "robo_valid b c nr \<longleftrightarrow> bit (rc_vlan c nr) (if b then 20 else 14)"

definition robo_mem :: "robo_chip \<Rightarrow> nat \<Rightarrow> nat \<Rightarrow> bool" where
  "robo_mem c nr j \<longleftrightarrow> bit (rc_vlan c nr) j"

definition robo_tag :: "bool \<Rightarrow> robo_chip \<Rightarrow> nat \<Rightarrow> nat \<Rightarrow> bool" where
  "robo_tag b c nr j \<longleftrightarrow> \<not> bit (rc_vlan c nr) (j + (if b then 6 else 7))"

definition robo_dft :: "robo_chip \<Rightarrow> nat \<Rightarrow> nat \<Rightarrow> bool" where
  "robo_dft c nr j \<longleftrightarrow> unat (ucast (rc_reg c ROBO_VLAN_PAGE (DEF_TAG j)) :: u16) = nr"

lemma tag_registers:
  "list_all (\<lambda>j. list_all (\<lambda>b. DEF_TAG j \<noteq> access_reg b \<and> DEF_TAG j \<noteq> entry_reg b) [True, False] \<and> DEF_TAG j \<noteq> ROBO_VLAN_READ) [0..<6]"
  "list_all (\<lambda>j. list_all (\<lambda>k. (DEF_TAG j = DEF_TAG k) = (j = k)) [0..<6]) [0..<6]"
  "entry_reg b \<noteq> access_reg b" "ROBO_VLAN_READ \<noteq> access_reg b"
  by (code_simp, code_simp) (simp_all add: entry_reg_def access_reg_def)

lemma tag_register:
  assumes "j < 6"
  shows "DEF_TAG j \<noteq> access_reg b" "DEF_TAG j \<noteq> entry_reg b" "DEF_TAG j \<noteq> ROBO_VLAN_READ" "k < 6 \<Longrightarrow> (DEF_TAG j = DEF_TAG k) = (j = k)"
  using tag_registers(1,2) assms by (cases b; auto simp: list_all_iff)+

text \<open>The numbers written into the access register, for the VLANs of the driver.\<close>

lemma access_words:
  "list_all (\<lambda>nr. let v = ucast (of_nat nr OR push_bit 12 1 OR push_bit 13 1 :: u16) :: u32 in bit v 13 \<and> bit v 12 \<and> unat (v AND 0xFFF) = nr) [0..<16]"
  "list_all (\<lambda>nr. let v = ucast (of_nat nr OR push_bit 13 1 :: u16) :: u32 in bit v 13 \<and> \<not> bit v 12 \<and> unat (v AND 0xFFF) = nr) [0..<16]"
  by code_simp+

lemma table_access_cases:
  "bit v 13 \<Longrightarrow> bit v 12 \<Longrightarrow> unat (v AND 0xFFF) = nr \<Longrightarrow>
    table_access b v c = c\<lparr>rc_vlan := (rc_vlan c)(nr := rc_reg c ROBO_VLAN_PAGE (entry_reg b))\<rparr>"
  "bit v 13 \<Longrightarrow> \<not> bit v 12 \<Longrightarrow> unat (v AND 0xFFF) = nr \<Longrightarrow> table_access b v c = set_reg ROBO_VLAN_PAGE ROBO_VLAN_READ (rc_vlan c nr) c"
  by (auto simp: table_access_def)

lemma table_write:
  assumes "robo_chip_ok bus rb ch" "ready (ch w)" "nr < 16"
  defines "w' \<equiv> robo_write16 bus rb ROBO_VLAN_PAGE (access_reg (is_5350 rb)) (of_nat nr OR push_bit 12 1 OR push_bit 13 1) w"
  shows "ready (ch w')" "rc_vlan (ch w') = (rc_vlan (ch w))(nr := rc_reg (ch w) ROBO_VLAN_PAGE (entry_reg (is_5350 rb)))"
    "j < 6 \<Longrightarrow> rc_reg (ch w') ROBO_VLAN_PAGE (DEF_TAG j) = rc_reg (ch w) ROBO_VLAN_PAGE (DEF_TAG j)"
proof -
  let ?v = "ucast (of_nat nr OR push_bit 12 1 OR push_bit 13 1 :: u16) :: u32"
  have v: "bit ?v 13" "bit ?v 12" "unat (?v AND 0xFFF) = nr" using access_words(1) assms(3) unfolding list_all_iff Let_def by auto
  have c: "ch w' = (let c = set_reg ROBO_VLAN_PAGE (access_reg (is_5350 rb)) (ucast (of_nat nr OR push_bit 12 1 OR push_bit 13 1 :: u16) OR
        push_bit 16 (ucast (rc_data1 (ch w)))) ((ch w)\<lparr>rc_data0 := of_nat nr OR push_bit 12 1 OR push_bit 13 1, rc_page := ROBO_VLAN_PAGE\<rparr>)
      in c\<lparr>rc_vlan := (rc_vlan c)(nr := rc_reg c ROBO_VLAN_PAGE (entry_reg (is_5350 rb)))\<rparr>)"
    unfolding w'_def robo_write16_access [OF assms(1,2)] table_access_cases(1) [OF v] Let_def ..
  show "ready (ch w')" using assms(2) by (simp add: c Let_def set_reg_def ready_def)
  show "rc_vlan (ch w') = (rc_vlan (ch w))(nr := rc_reg (ch w) ROBO_VLAN_PAGE (entry_reg (is_5350 rb)))"
    by (simp add: c Let_def set_reg_def tag_registers(3))
  show "rc_reg (ch w') ROBO_VLAN_PAGE (DEF_TAG j) = rc_reg (ch w) ROBO_VLAN_PAGE (DEF_TAG j)" if "j < 6"
    using tag_register(1) [OF that] by (simp add: c Let_def set_reg_def)
qed

lemma table_read:
  assumes "robo_chip_ok bus rb ch" "ready (ch w)" "nr < 16"
  defines "w' \<equiv> robo_write16 bus rb ROBO_VLAN_PAGE (access_reg (is_5350 rb)) (of_nat nr OR push_bit 13 1) w"
  shows "ready (ch w')" "rc_vlan (ch w') = rc_vlan (ch w)" "rc_reg (ch w') ROBO_VLAN_PAGE ROBO_VLAN_READ = rc_vlan (ch w) nr"
    "j < 6 \<Longrightarrow> rc_reg (ch w') ROBO_VLAN_PAGE (DEF_TAG j) = rc_reg (ch w) ROBO_VLAN_PAGE (DEF_TAG j)"
proof -
  let ?v = "ucast (of_nat nr OR push_bit 13 1 :: u16) :: u32"
  have v: "bit ?v 13" "\<not> bit ?v 12" "unat (?v AND 0xFFF) = nr" using access_words(2) assms(3) unfolding list_all_iff Let_def by auto
  have c: "ch w' = (let c = set_reg ROBO_VLAN_PAGE (access_reg (is_5350 rb)) (ucast (of_nat nr OR push_bit 13 1 :: u16) OR
        push_bit 16 (ucast (rc_data1 (ch w)))) ((ch w)\<lparr>rc_data0 := of_nat nr OR push_bit 13 1, rc_page := ROBO_VLAN_PAGE\<rparr>)
      in set_reg ROBO_VLAN_PAGE ROBO_VLAN_READ (rc_vlan c nr) c)"
    unfolding w'_def robo_write16_access [OF assms(1,2)] table_access_cases(2) [OF v] Let_def ..
  show "ready (ch w')" using assms(2) by (simp add: c Let_def set_reg_def ready_def)
  show "rc_vlan (ch w') = rc_vlan (ch w)" "rc_reg (ch w') ROBO_VLAN_PAGE ROBO_VLAN_READ = rc_vlan (ch w) nr"
    by (simp_all add: c Let_def set_reg_def)
  show "rc_reg (ch w') ROBO_VLAN_PAGE (DEF_TAG j) = rc_reg (ch w) ROBO_VLAN_PAGE (DEF_TAG j)" if "j < 6"
    using tag_register(1,3) [OF that] by (simp add: c Let_def set_reg_def)
qed

text \<open>The line of a VLAN.\<close>

lemma same_regs_refl: "ready c \<Longrightarrow> same_regs c c"
  by (simp add: same_regs_def)

lemma same_regs_trans: "same_regs c c' \<Longrightarrow> same_regs c' c'' \<Longrightarrow> same_regs c c''"
  by (simp add: same_regs_def)

lemma same_regs_ready: "same_regs c c' \<Longrightarrow> ready c'"
  by (simp add: same_regs_def)

lemma same_regs_dft: "same_regs c c' \<Longrightarrow> robo_dft c' = robo_dft c"
  by (simp add: same_regs_def robo_dft_def fun_eq_iff)

lemma ports_text_chip:
  assumes "robo_chip_ok bus rb ch" "ready (ch w)" "vlan_ports_text bus rb nr m u js w = (t, w')"
  shows "t = concat (List.map (\<lambda>j. if m j then dec j @ flag_text (\<lambda>j. \<not> u j) (robo_dft (ch w) nr) j @ [TAB] else []) js) \<and>
    same_regs (ch w) (ch w')"
  using assms(2,3)
proof (induction js arbitrary: w t w')
  case Nil
  then show ?case by (simp add: same_regs_refl)
next
  case (Cons j js)
  show ?case
  proof (cases "m j \<and> \<not> u j")
    case True
    obtain v w1 where v: "robo_read16 bus rb ROBO_VLAN_PAGE (DEF_TAG j) w = (v, w1)" by force
    note r = robo_read16_chip [OF assms(1) Cons.prems(1) v]
    obtain rest w2 where rest: "vlan_ports_text bus rb nr m u js w1 = (rest, w2)" by force
    note ih = Cons.IH [OF same_regs_ready [OF r(2)] rest]
    have s: "(int (unat v) = int nr) = robo_dft (ch w) nr j" by (simp only: r(1) robo_dft_def of_nat_eq_iff)
    then have s': "(uint v = int nr) = robo_dft (ch w) nr j" by simp
    have e: "t = dec j @ (LOWER_T # (if robo_dft (ch w) nr j then [ASTERISK] else [])) @ [TAB] @ rest" "w' = w2"
      using Cons.prems(2) True v rest by (simp_all add: Let_def s')
    have w2: "same_regs (ch w1) (ch w2)" and rt:
      "rest = concat (List.map (\<lambda>j. if m j then dec j @ flag_text (\<lambda>j. \<not> u j) (robo_dft (ch w) nr) j @ [TAB] else []) js)"
      using ih by (simp_all only: e same_regs_dft [OF r(2)])
    show ?thesis using same_regs_trans [OF r(2) w2] True by (simp add: e rt flag_text_def)
  next
    case False
    obtain rest w2 where rest: "vlan_ports_text bus rb nr m u js w = (rest, w2)" by force
    then show ?thesis using Cons.IH [OF Cons.prems(1) rest] Cons.prems(2) False by (auto simp: Let_def flag_text_def)
  qed
qed

lemma robo_read_vlan:
  assumes "robo_chip_ok bus rb ch" "ready (ch w)" "nr < 16"
  shows "\<exists>w'. handle_vlan_port_read bus rb nr w =
      (if robo_valid (is_5350 rb) (ch w) nr
       then vlan_line (robo_mem (ch w) nr) (robo_tag (is_5350 rb) (ch w) nr) (robo_dft (ch w) nr) else [], w') \<and>
    ready (ch w') \<and> rc_vlan (ch w') = rc_vlan (ch w) \<and>
    (\<forall>j < 6. rc_reg (ch w') ROBO_VLAN_PAGE (DEF_TAG j) = rc_reg (ch w) ROBO_VLAN_PAGE (DEF_TAG j))"
proof -
  let ?b = "is_5350 rb"
  define w1 where "w1 = robo_write16 bus rb ROBO_VLAN_PAGE (access_reg ?b) (of_nat nr OR push_bit 13 1) w"
  note r = table_read [OF assms, folded w1_def]
  have line: "\<exists>w'. (if val then let (t, w) = vlan_ports_text bus rb nr m u [0..<6] w2 in (t @ [LF], w) else ([], w2)) =
        (if val then vlan_line m (\<lambda>j. \<not> u j) (robo_dft (ch w) nr) else [], w') \<and> ready (ch w') \<and> rc_vlan (ch w') = rc_vlan (ch w) \<and>
      (\<forall>j < 6. rc_reg (ch w') ROBO_VLAN_PAGE (DEF_TAG j) = rc_reg (ch w) ROBO_VLAN_PAGE (DEF_TAG j))"
    if "same_regs (ch w1) (ch w2)" for val m u w2
  proof -
    obtain t w3 where t: "vlan_ports_text bus rb nr m u [0..<6] w2 = (t, w3)" by force
    note p = ports_text_chip [OF assms(1) same_regs_ready [OF that] t]
    have k2: "\<forall>j < 6. rc_reg (ch w2) ROBO_VLAN_PAGE (DEF_TAG j) = rc_reg (ch w) ROBO_VLAN_PAGE (DEF_TAG j)" "rc_vlan (ch w2) = rc_vlan (ch w)"
      using that r by (simp_all add: same_regs_def)
    have "t @ [LF] = vlan_line m (\<lambda>j. \<not> u j) (robo_dft (ch w2) nr)"
      using p unfolding vlan_line_def by (simp only:)
    also have "\<dots> = vlan_line m (\<lambda>j. \<not> u j) (robo_dft (ch w) nr)"
      using k2(1) by (intro vlan_line_cong) (simp_all add: robo_dft_def)
    finally have tl: "t @ [LF] = vlan_line m (\<lambda>j. \<not> u j) (robo_dft (ch w) nr)" .
    have k3: "ready (ch w3)" "rc_vlan (ch w3) = rc_vlan (ch w)"
      "\<forall>j < 6. rc_reg (ch w3) ROBO_VLAN_PAGE (DEF_TAG j) = rc_reg (ch w) ROBO_VLAN_PAGE (DEF_TAG j)"
      using p k2 by (simp_all add: same_regs_def)
    show ?thesis
    proof (cases val)
      case True
      then show ?thesis using t tl k3 by auto
    next
      case False
      then show ?thesis using k2 same_regs_ready [OF that] by auto
    qed
  qed
  show ?thesis
  proof (cases ?b)
    case True
    obtain v w2 where v: "robo_read32 bus rb ROBO_VLAN_PAGE ROBO_VLAN_READ w1 = (v, w2)" by force
    note r32 = robo_read32_chip [OF assms(1) r(1) v]
    have "handle_vlan_port_read bus rb nr w =
        (if bit v 20 then let (t, w) = vlan_ports_text bus rb nr (bit v) (\<lambda>j. bit v (j + 6)) [0..<6] w2 in (t @ [LF], w) else ([], w2))"
      using v True unfolding handle_vlan_port_read_def Let_def w1_def access_reg_def by simp
    moreover have "vlan_line (bit v) (\<lambda>j. \<not> bit v (j + 6)) p = vlan_line (robo_mem (ch w) nr) (robo_tag ?b (ch w) nr) p" for p
      using True r32(1) r(3) by (intro vlan_line_cong) (simp_all add: robo_mem_def robo_tag_def)
    moreover have "bit v 20 = robo_valid ?b (ch w) nr" using r32(1) r(3) True by (simp add: robo_valid_def)
    ultimately show ?thesis using line [OF r32(2), of "bit v 20" "bit v" "\<lambda>j. bit v (j + 6)"] by (simp only:)
  next
    case False
    obtain v w2 where v: "robo_read16 bus rb ROBO_VLAN_PAGE ROBO_VLAN_READ w1 = (v, w2)" by force
    note r16 = robo_read16_chip [OF assms(1) r(1) v]
    have "handle_vlan_port_read bus rb nr w =
        (if bit v 14 then let (t, w) = vlan_ports_text bus rb nr (bit v) (\<lambda>j. bit v (j + 7)) [0..<6] w2 in (t @ [LF], w) else ([], w2))"
      using v False unfolding handle_vlan_port_read_def Let_def w1_def access_reg_def by simp
    moreover have "bit v k = bit (rc_vlan (ch w) nr) k" if "k < 16" for k
      using r16(1) r(3) that by (simp add: bit_ucast_iff)
    then have "vlan_line (bit v) (\<lambda>j. \<not> bit v (j + 7)) p = vlan_line (robo_mem (ch w) nr) (robo_tag ?b (ch w) nr) p" for p
      using False by (intro vlan_line_cong) (simp_all add: robo_mem_def robo_tag_def)
    moreover have "bit v 14 = robo_valid ?b (ch w) nr" using r16(1) r(3) False by (simp add: bit_ucast_iff robo_valid_def)
    ultimately show ?thesis using line [OF r16(2), of "bit v 14" "bit v" "\<lambda>j. bit v (j + 7)"] by (simp only:)
  qed
qed

text \<open>Writing a VLAN.\<close>

definition robo_tags :: "robo_chip \<Rightarrow> nat \<Rightarrow> u16" where
  "robo_tags c j = ucast (rc_reg c ROBO_VLAN_PAGE (DEF_TAG j))"

lemma set_tags_chip:
  assumes "robo_chip_ok bus rb ch" "ready (ch w)" "list_all (\<lambda>j. j < 6) js"
  shows "ready (ch (set_tags bus rb nr c js w)) \<and> rc_vlan (ch (set_tags bus rb nr c js w)) = rc_vlan (ch w) \<and>
    (\<forall>j < 6. robo_tags (ch (set_tags bus rb nr c js w)) j =
       (if j \<in> set js \<and> bit (vc_untag c OR vc_pvid c) j then of_nat nr else robo_tags (ch w) j))"
  using assms(3)
proof (induction js rule: rev_induct)
  case Nil
  then show ?case using assms(2) by (simp add: set_tags_def)
next
  case (snoc j js)
  let ?w = "set_tags bus rb nr c js w"
  have ih: "ready (ch ?w)" "rc_vlan (ch ?w) = rc_vlan (ch w)"
    "\<forall>j < 6. robo_tags (ch ?w) j = (if j \<in> set js \<and> bit (vc_untag c OR vc_pvid c) j then of_nat nr else robo_tags (ch w) j)"
    and j: "j < 6" using snoc by auto
  show ?case
  proof (cases "bit (vc_untag c OR vc_pvid c) j")
    case True
    let ?w' = "robo_write16 bus rb ROBO_VLAN_PAGE (DEF_TAG j) (of_nat nr) ?w"
    have e: "set_tags bus rb nr c (js @ [j]) w = ?w'" using True by (simp add: set_tags_def)
    have "ROBO_VLAN_PAGE \<noteq> ROBO_VLAN_PAGE \<or> DEF_TAG j \<noteq> access_reg (is_5350 rb)" using tag_register(1) [OF j] by simp
    note p = robo_write16_plain [OF assms(1) ih(1) this, of "of_nat nr"]
    have "robo_tags (ch ?w') k = (if k = j then of_nat nr else robo_tags (ch ?w) k)" if "k < 6" for k
      using p tag_register(4) [OF j that] by (auto simp: robo_tags_def others_same_def)
    then show ?thesis using p(2) ih True unfolding e others_same_def by auto
  next
    case False
    then have e: "set_tags bus rb nr c (js @ [j]) w = ?w" by (simp add: set_tags_def)
    show ?thesis using ih False unfolding e by auto
  qed
qed

lemma entry_bits:
  assumes "\<And>j. bit p j \<Longrightarrow> j < 6" "\<And>j. bit u j \<Longrightarrow> bit p j" "j < 6"
  shows "bit (push_bit 20 1 OR push_bit 6 u OR p :: u32) 20" "bit (push_bit 20 1 OR push_bit 6 u OR p :: u32) j = bit p j"
    "bit (push_bit 20 1 OR push_bit 6 u OR p :: u32) (j + 6) = bit u j"
    "bit (push_bit 14 1 OR push_bit 7 u OR p :: u32) 14" "bit (push_bit 14 1 OR push_bit 7 u OR p :: u32) j = bit p j"
    "bit (push_bit 14 1 OR push_bit 7 u OR p :: u32) (j + 7) = bit u j"
proof -
  have "\<not> bit p (j + 6)" "\<not> bit p (j + 7)" using assms(1) [of "j + 6"] assms(1) [of "j + 7"] by auto
  then show "bit (push_bit 20 1 OR push_bit 6 u OR p :: u32) 20" "bit (push_bit 20 1 OR push_bit 6 u OR p :: u32) j = bit p j"
    "bit (push_bit 20 1 OR push_bit 6 u OR p :: u32) (j + 6) = bit u j"
    "bit (push_bit 14 1 OR push_bit 7 u OR p :: u32) 14" "bit (push_bit 14 1 OR push_bit 7 u OR p :: u32) j = bit p j"
    "bit (push_bit 14 1 OR push_bit 7 u OR p :: u32) (j + 7) = bit u j"
    using assms(3) by (auto simp only: bit_or_iff bit_push_bit_iff bit_1_iff possible_bit_word; simp)+
qed

lemma robo_write_vlan:
  assumes "robo_chip_ok bus rb ch" "ready (ch w)" "nr < 16" "sd_ports d = 6" "switch_parse_vlan d True buf = Some (Some c)"
  shows "\<exists>w'. handle_vlan_port_write bus rb d True buf nr w = Some (0, w') \<and> ready (ch w') \<and>
    (\<forall>k. k \<noteq> nr \<longrightarrow> rc_vlan (ch w') k = rc_vlan (ch w) k) \<and> robo_valid (is_5350 rb) (ch w') nr \<and>
    (\<forall>j < 6. robo_mem (ch w') nr j = bit (vc_port c) j \<and> robo_tag (is_5350 rb) (ch w') nr j = (\<not> bit (vc_untag c) j) \<and>
       robo_tags (ch w') j = (if bit (vc_untag c OR vc_pvid c) j then of_nat nr else robo_tags (ch w) j))"
proof -
  let ?b = "is_5350 rb"
  note wf = parse_vlan_wf [OF assms(5)]
  have sub: "bit (vc_untag c) j \<Longrightarrow> bit (vc_port c) j" for j using wf(1) by (auto simp: vlan_ok_def and_eq_bits)
  have lt: "bit (vc_port c) j \<Longrightarrow> j < 6" for j using wf(2) assms(4) by simp
  have js: "list_all (\<lambda>j. j < 6) [0..<sd_ports d]" by (simp add: assms(4) list_all_iff)
  define w1 where "w1 = set_tags bus rb nr c [0..<sd_ports d] w"
  note tags = set_tags_chip [OF assms(1,2) js, of nr c, folded w1_def]
  define w2 where "w2 = (if ?b then robo_write32 bus rb ROBO_VLAN_PAGE ROBO_VLAN_WRITE_5350 (push_bit 20 1 OR push_bit 6 (vc_untag c) OR vc_port c) w1
    else robo_write16 bus rb ROBO_VLAN_PAGE ROBO_VLAN_WRITE (ucast (push_bit 14 1 OR push_bit 7 (vc_untag c) OR vc_port c)) w1)"
  define e where "e = rc_reg (ch w2) ROBO_VLAN_PAGE (entry_reg ?b)"
  have ne: "ROBO_VLAN_PAGE \<noteq> ROBO_VLAN_PAGE \<or> entry_reg ?b \<noteq> access_reg ?b" using tag_registers(3) by simp
  have w2: "others_same ROBO_VLAN_PAGE (entry_reg ?b) (ch w1) (ch w2)"
    "if ?b then e = push_bit 20 1 OR push_bit 6 (vc_untag c) OR vc_port c
      else ucast e = (ucast (push_bit 14 1 OR push_bit 7 (vc_untag c) OR vc_port c) :: u16)"
    using robo_write32_plain [OF assms(1) _ ne, of w1] robo_write16_plain [OF assms(1) _ ne, of w1] tags
    unfolding e_def w2_def entry_reg_def by (cases ?b; simp)+
  have ebits: "bit e (if ?b then 20 else 14)" "bit e j = bit (vc_port c) j" "bit e (j + (if ?b then 6 else 7)) = bit (vc_untag c) j"
    if "j < 6" for j
  proof -
    have s: "bit e k = bit (push_bit 14 1 OR push_bit 7 (vc_untag c) OR vc_port c :: u32) k" if "k < 16" "\<not> ?b" for k
      using w2(2) that bit_ucast_iff [of e k, where 'a = 16] bit_ucast_iff [of "push_bit 14 1 OR push_bit 7 (vc_untag c) OR vc_port c :: u32" k, where 'a = 16]
      by (simp only: if_False) simp
    note eb = entry_bits [where p = "vc_port c" and u = "vc_untag c", OF lt sub that]
    show "bit e (if ?b then 20 else 14)" "bit e j = bit (vc_port c) j" "bit e (j + (if ?b then 6 else 7)) = bit (vc_untag c) j"
      using w2(2) eb s [of 14] s [of j] s [of "j + 7"] that by (cases ?b; simp only: if_True if_False; simp)+
  qed
  define w3 where "w3 = robo_write16 bus rb ROBO_VLAN_PAGE (access_reg ?b) (of_nat nr OR push_bit 12 1 OR push_bit 13 1) w2"
  have r2: "ready (ch w2)" using w2(1) by (simp add: others_same_def)
  note tw = table_write [OF assms(1) r2 assms(3), folded w3_def e_def]
  have "handle_vlan_port_write bus rb d True buf nr w = Some (0, w3)"
    unfolding handle_vlan_port_write_def assms(5) w3_def w2_def w1_def access_reg_def Let_def by simp
  moreover have "rc_vlan (ch w3) = (rc_vlan (ch w))(nr := e)" using tw(2) w2(1) tags by (simp add: others_same_def)
  moreover have "robo_tags (ch w3) j = (if bit (vc_untag c OR vc_pvid c) j then of_nat nr else robo_tags (ch w) j)" if "j < 6" for j
    using tw(3) [OF that] w2(1) tags that tag_register(2) [OF that] assms(4) by (simp add: robo_tags_def others_same_def)
  ultimately show ?thesis using tw(1) ebits ebits(1) [of 0] by (intro exI [of _ w3]) (simp add: robo_valid_def robo_mem_def robo_tag_def)
qed

section \<open>The contract of the VLAN files\<close>

type_synonym 'w robo_sys = "'w robo_bus \<times> robo \<times> ('w \<Rightarrow> robo_chip) \<times> 'w"

fun robo_wr :: "switch_driver \<Rightarrow> cstr \<Rightarrow> nat \<Rightarrow> 'w robo_sys \<Rightarrow> (int \<times> 'w robo_sys) option" where
  "robo_wr d buf nr (bus, rb, ch, w) = map_option (\<lambda>(r, w). (r, (bus, rb, ch, w))) (handle_vlan_port_write bus rb d True buf nr w)"

fun robo_rd :: "nat \<Rightarrow> 'w robo_sys \<Rightarrow> cstr \<times> 'w robo_sys" where
  "robo_rd nr (bus, rb, ch, w) = (let (t, w) = handle_vlan_port_read bus rb nr w in (t, (bus, rb, ch, w)))"

fun robo_inv :: "'w robo_sys \<Rightarrow> bool" where
  "robo_inv (bus, rb, ch, w) = (robo_chip_ok bus rb ch \<and> ready (ch w))"

fun sys_valid :: "'w robo_sys \<Rightarrow> nat \<Rightarrow> bool" where
  "sys_valid (bus, rb, ch, w) = robo_valid (is_5350 rb) (ch w)"

fun sys_mem :: "'w robo_sys \<Rightarrow> nat \<Rightarrow> nat \<Rightarrow> bool" where
  "sys_mem (bus, rb, ch, w) = robo_mem (ch w)"

fun sys_tag :: "'w robo_sys \<Rightarrow> nat \<Rightarrow> nat \<Rightarrow> bool" where
  "sys_tag (bus, rb, ch, w) = robo_tag (is_5350 rb) (ch w)"

fun sys_dft :: "'w robo_sys \<Rightarrow> nat \<Rightarrow> nat \<Rightarrow> bool" where
  "sys_dft (bus, rb, ch, w) = robo_dft (ch w)"

lemma robo_driver_simps: "sd_ports (robo_driver dev) = 6" "sd_cpuport (robo_driver dev) = 5" "sd_vlans (robo_driver dev) = 16"
  by (simp_all add: robo_driver_def)

lemma robo_dft_tags: "robo_dft c nr j = (unat (robo_tags c j) = nr)"
  by (simp add: robo_dft_def robo_tags_def)

interpretation robo: vlan_switch "robo_driver dev" "robo_wr (robo_driver dev)" robo_rd robo_inv sys_valid sys_mem sys_tag sys_dft
  for dev
proof
  show "sd_ports (robo_driver dev) = 6" "sd_cpuport (robo_driver dev) = 5" by (simp_all add: robo_driver_simps)
next
  fix s :: "'w robo_sys" and nr buf c
  assume a: "robo_inv s" "nr < sd_vlans (robo_driver dev)" "switch_parse_vlan (robo_driver dev) True buf = Some (Some c)"
  obtain bus rb ch w where s: "s = (bus, rb, ch, w)" by (cases s)
  have h: "robo_chip_ok bus rb ch" "ready (ch w)" "nr < 16" using a s by (simp_all add: robo_driver_simps)
  from robo_write_vlan [OF h robo_driver_simps(1) a(3)] obtain w' where
    w': "handle_vlan_port_write bus rb (robo_driver dev) True buf nr w = Some (0, w')" "ready (ch w')"
      "\<forall>k. k \<noteq> nr \<longrightarrow> rc_vlan (ch w') k = rc_vlan (ch w) k" "robo_valid (is_5350 rb) (ch w') nr"
      "\<forall>j < 6. robo_mem (ch w') nr j = bit (vc_port c) j \<and> robo_tag (is_5350 rb) (ch w') nr j = (\<not> bit (vc_untag c) j) \<and>
       robo_tags (ch w') j = (if bit (vc_untag c OR vc_pvid c) j then of_nat nr else robo_tags (ch w) j)" by blast
  have u: "unat (of_nat nr :: u16) = nr" using h(3) by (simp add: unat_of_nat take_bit_nat_eq_self)
  show "\<exists>s'. robo_wr (robo_driver dev) buf nr s = Some (0, s') \<and> robo_inv s' \<and> sys_valid s' nr \<and>
        (\<forall>j < 6. sys_mem s' nr j = bit (vc_port c) j) \<and>
        (\<forall>j < 6. bit (vc_port c) j \<longrightarrow> sys_tag s' nr j = (\<not> bit (vc_untag c) j)) \<and>
        (\<forall>j < 6. sys_dft s' nr j = (bit (vc_untag c OR vc_pvid c) j \<or> sys_dft s nr j)) \<and>
        (\<forall>k < sd_vlans (robo_driver dev). k \<noteq> nr \<longrightarrow> sys_valid s' k = sys_valid s k \<and> (\<forall>j < 6. sys_mem s' k j = sys_mem s k j))"
    using w' h u by (intro exI [of _ "(bus, rb, ch, w')"]) (auto simp: s robo_dft_tags robo_valid_def robo_mem_def)
next
  fix s :: "'w robo_sys" and nr
  assume a: "robo_inv s" "nr < sd_vlans (robo_driver dev)"
  obtain bus rb ch w where s: "s = (bus, rb, ch, w)" by (cases s)
  have h: "robo_chip_ok bus rb ch" "ready (ch w)" "nr < 16" using a s by (simp_all add: robo_driver_simps)
  from robo_read_vlan [OF h] obtain w' where w': "handle_vlan_port_read bus rb nr w =
      (if robo_valid (is_5350 rb) (ch w) nr
       then vlan_line (robo_mem (ch w) nr) (robo_tag (is_5350 rb) (ch w) nr) (robo_dft (ch w) nr) else [], w')"
    "ready (ch w')" "rc_vlan (ch w') = rc_vlan (ch w)"
    "\<forall>j < 6. rc_reg (ch w') ROBO_VLAN_PAGE (DEF_TAG j) = rc_reg (ch w) ROBO_VLAN_PAGE (DEF_TAG j)" by blast
  show "\<exists>s'. robo_rd nr s = (if sys_valid s nr then vlan_line (sys_mem s nr) (sys_tag s nr) (sys_dft s nr) else [], s') \<and> robo_inv s' \<and>
        (\<forall>k < sd_vlans (robo_driver dev). sys_valid s' k = sys_valid s k \<and>
          (\<forall>j < 6. sys_mem s' k j = sys_mem s k j \<and> sys_tag s' k j = sys_tag s k j \<and> sys_dft s' k j = sys_dft s k j))"
    using w' h by (intro exI [of _ "(bus, rb, ch, w')"]) (simp add: s robo_valid_def robo_mem_def robo_tag_def robo_dft_def)
qed

text \<open>C15: On a chip whose operations take at most three looks at the address register, a text that parses and is written to
  the file of a VLAN is stored, and the line then read from this file parses to the same ports and the same untagged
  ports; its default ports are the tagged ones of the text that were given as default or were so before. This holds for
  both formats of the VLAN table.\<close>

theorem robo_vlan_roundtrip:
  assumes "robo_chip_ok bus rb ch" "ready (ch w)" "nr < 16" "switch_parse_vlan (robo_driver dev) True buf = Some (Some c)"
  shows "\<exists>w1 w2 txt c'. handle_vlan_port_write bus rb (robo_driver dev) True buf nr w = Some (0, w1) \<and>
    handle_vlan_port_read bus rb nr w1 = (txt, w2) \<and> ready (ch w2) \<and> switch_parse_vlan (robo_driver dev) True txt = Some (Some c') \<and>
    vc_port c' = vc_port c \<and> vc_untag c' = vc_untag c \<and>
    vc_pvid c' = ports_word (\<lambda>j. bit (vc_port c) j \<and> \<not> bit (vc_untag c) j \<and> (bit (vc_pvid c) j \<or> robo_dft (ch w) nr j))"
proof -
  have i: "robo_inv (bus, rb, ch, w)" and n: "nr < sd_vlans (robo_driver dev)" using assms by (simp_all add: robo_driver_simps)
  obtain s1 s2 ln c' where r: "robo_wr (robo_driver dev) buf nr (bus, rb, ch, w) = Some (0, s1)" "robo_rd nr s1 = (ln, s2)" "robo_inv s2"
    "switch_parse_vlan (robo_driver dev) True ln = Some (Some c')" "vc_port c' = vc_port c" "vc_untag c' = vc_untag c"
    "vc_pvid c' = ports_word (\<lambda>j. bit (vc_port c) j \<and> \<not> bit (vc_untag c) j \<and> (bit (vc_pvid c) j \<or> robo_dft (ch w) nr j))"
    using robo.write_read [OF i n assms(4)] by auto
  then obtain w1 where w1: "handle_vlan_port_write bus rb (robo_driver dev) True buf nr w = Some (0, w1)" "s1 = (bus, rb, ch, w1)" by auto
  obtain t w2 where w2: "handle_vlan_port_read bus rb nr w1 = (t, w2)" by force
  have "t = ln" "ready (ch w2)" using r(2,3) by (auto simp: w1 w2)
  then show ?thesis using w1(1) w2 r(4-) by blast
qed

text \<open>A simulated chip behind the driver's own interface, with nothing in it.\<close>

definition sim_robo :: "robo_chip robo_bus" where
  "sim_robo = \<lparr>rb_mii_read = \<lambda>_ r c. (None, c), rb_mii_write = \<lambda>_ _ _ c. c,
     rb_et_read = \<lambda>r c. let (v, c) = chip_read True r c in (Some v, c), rb_et_write = chip_write\<rparr>"

definition sim_chip :: robo_chip where
  "sim_chip = \<lparr>rc_page = 0, rc_data0 = 0, rc_data1 = 0, rc_pending = None, rc_delay = 2, rc_reg = \<lambda>_ _. 0, rc_vlan = \<lambda>_. 0\<rparr>"

lemma sim_read: "mdio_read sim_robo \<lparr>use_et = True, is_5350 = True\<rparr> ROBO_PHY_ADDR r c = chip_read True r c"
  by (cases "chip_read True r c") (simp add: mdio_read_def sim_robo_def)

lemma sim_robo_ok: "robo_chip_ok sim_robo \<lparr>use_et = True, is_5350 = True\<rparr> (\<lambda>c. c)" "ready sim_chip"
  unfolding robo_chip_ok_def sim_read by (simp_all add: mdio_write_def sim_robo_def ready_def sim_chip_def)

theorem robo_vlan_roundtrip_witness:
  "\<exists>w1 w2 txt c'. handle_vlan_port_write sim_robo \<lparr>use_et = True, is_5350 = True\<rparr> (robo_driver (cs ''eth0'')) True [0x30, 9, 0x31, 0x74, 0x2A, 9, 0x35, 0x74, 9, 10] 3 sim_chip = Some (0, w1) \<and>
    handle_vlan_port_read sim_robo \<lparr>use_et = True, is_5350 = True\<rparr> 3 w1 = (txt, w2) \<and>
    switch_parse_vlan (robo_driver (cs ''eth0'')) True txt = Some (Some c') \<and> vc_port c' = 0x23 \<and> vc_untag c' = 1"
proof -
  have l: "vlan_line (\<lambda>j. j = 0 \<or> j = 1 \<or> j = 5) (\<lambda>j. j \<noteq> 0) (\<lambda>j. j = 1) = [0x30, 9, 0x31, 0x74, 0x2A, 9, 0x35, 0x74, 9, 10]"
    by code_simp
  have w: "ports_word (\<lambda>j. j = 0 \<or> j = 1 \<or> j = 5) = 0x23" "ports_word (\<lambda>j. (j = 0 \<or> j = 1 \<or> j = 5) \<and> \<not> j \<noteq> 0) = 1" by code_simp+
  note p = parse_vlan_line [OF robo_driver_simps(1,2), of "cs ''eth0''" "\<lambda>j. j = 0 \<or> j = 1 \<or> j = 5" "\<lambda>j. j \<noteq> 0" "\<lambda>j. j = 1", unfolded l w]
  have n: "(3 :: nat) < 16" by simp
  obtain w1 w2 ln c' where r: "handle_vlan_port_write sim_robo \<lparr>use_et = True, is_5350 = True\<rparr> (robo_driver (cs ''eth0'')) True [0x30, 9, 0x31, 0x74, 0x2A, 9, 0x35, 0x74, 9, 10] 3 sim_chip = Some (0, w1)"
    "handle_vlan_port_read sim_robo \<lparr>use_et = True, is_5350 = True\<rparr> 3 w1 = (ln, w2)"
    "switch_parse_vlan (robo_driver (cs ''eth0'')) True ln = Some (Some c')" "vc_port c' = 0x23" "vc_untag c' = 1"
    using robo_vlan_roundtrip [OF sim_robo_ok n p] unfolding vlan_config.select_convs by (elim exE conjE) (rule that)
  show ?thesis by (rule exI [of _ w1], rule exI [of _ w2], rule exI [of _ ln], rule exI [of _ c'], intro conjI) (rule r)+
qed

end
