(* ===== verification/SwitchAdm.thy ===== *)
theory SwitchAdm
  imports SwitchCore
begin

text \<open>
  The ADM6996 switch driver (\<open>package/switch/src/switch-adm.c\<close>): a serial interface clocked by hand over general purpose
  pins, and the handlers on the registers behind it. The pins of the system on chip are parameters on a state of the outside
  world; delays are left out.
\<close>

section \<open>The serial interface\<close>

record 'w gpio =
  g_out :: "u32 \<Rightarrow> u32 \<Rightarrow> 'w \<Rightarrow> 'w"
  g_outen :: "u32 \<Rightarrow> u32 \<Rightarrow> 'w \<Rightarrow> 'w"
  g_in :: "'w \<Rightarrow> u32 \<times> 'w"

text \<open>The pins, as masks; 0 is none.\<close>

record adm_pins =
  eecs :: u32
  eesk :: u32
  eedi :: u32
  eerc :: u32

text \<open>The bits of an array of bytes in the order of the loops: from the most significant one, and \<open>n\<close> of them.\<close>

definition byte_bits :: "u8 \<Rightarrow> bool list" where
  "byte_bits b = List.map (\<lambda>k. bit b (7 - k)) [0..<8]"

definition buf_bits :: "u8 list \<Rightarrow> nat \<Rightarrow> bool list" where
  "buf_bits buf n = take n (concat (List.map byte_bits buf))"

definition clock_out :: "'w gpio \<Rightarrow> adm_pins \<Rightarrow> bool \<Rightarrow> 'w \<Rightarrow> 'w" where
  "clock_out g p b w =
     g_out g (eesk p) (eesk p) (g_out g (eedi p) (if b then eedi p else 0) (g_out g (eesk p) 0 w))"

definition adm_write :: "'w gpio \<Rightarrow> adm_pins \<Rightarrow> bool \<Rightarrow> u8 list \<Rightarrow> nat \<Rightarrow> 'w \<Rightarrow> 'w" where
  "adm_write g p csel buf n w =
     (let w = g_out g (eecs p) (if csel then eecs p else 0) w;
          w = fold (clock_out g p) (buf_bits buf n) w;
          w = g_out g (eesk p) 0 w
      in if csel then g_out g (eecs p) 0 w else w)"

definition clock_in :: "'w gpio \<Rightarrow> adm_pins \<Rightarrow> 'w \<Rightarrow> bool \<times> 'w" where
  "clock_in g p w =
     (let (v, w) = g_in g (g_out g (eesk p) 0 w); gp = (ucast v :: u8)
      in (ucast gp AND eedi p \<noteq> 0, g_out g (eesk p) (eesk p) w))"

fun clocks_in :: "'w gpio \<Rightarrow> adm_pins \<Rightarrow> nat \<Rightarrow> 'w \<Rightarrow> bool list \<times> 'w" where
  "clocks_in g p 0 w = ([], w)"
| "clocks_in g p (Suc n) w = (let (b, w) = clock_in g p w; (bs, w) = clocks_in g p n w in (b # bs, w))"

text \<open>The bits of a byte are collected from the most significant one.\<close>

definition bits_byte :: "bool list \<Rightarrow> u8" where
  "bits_byte bs = fold (\<lambda>k w. if bs ! k then w OR push_bit (7 - k) 1 else w) [0..<length bs] 0"

fun read_bytes :: "'w gpio \<Rightarrow> adm_pins \<Rightarrow> nat \<Rightarrow> nat \<Rightarrow> 'w \<Rightarrow> u8 list \<times> 'w" where
  "read_bytes g p 0 n w = ([], w)"
| "read_bytes g p (Suc i) n w =
     (let (bs, w) = clocks_in g p (min 8 n) w; (bytes, w) = read_bytes g p i (n - min 8 n) w in (bits_byte bs # bytes, w))"

definition adm_read :: "'w gpio \<Rightarrow> adm_pins \<Rightarrow> bool \<Rightarrow> nat \<Rightarrow> 'w \<Rightarrow> u8 list \<times> 'w" where
  "adm_read g p csel n w =
     (let w = g_out g (eecs p) (if csel then eecs p else 0) w;
          (bytes, w) = read_bytes g p ((n + 7) div 8) n w;
          w = g_out g (eesk p) 0 w
      in (bytes, if csel then g_out g (eecs p) 0 w else w))"

definition adm_enout :: "'w gpio \<Rightarrow> u8 \<Rightarrow> u8 \<Rightarrow> 'w \<Rightarrow> 'w" where
  "adm_enout g pins val w = g_outen g (ucast pins) (ucast pins) (g_out g (ucast pins) (ucast val) w)"

definition adm_disout :: "'w gpio \<Rightarrow> u8 \<Rightarrow> 'w \<Rightarrow> 'w" where
  "adm_disout g pins w = g_outen g (ucast pins) 0 w"

fun adm_adclk :: "'w gpio \<Rightarrow> adm_pins \<Rightarrow> nat \<Rightarrow> 'w \<Rightarrow> 'w" where
  "adm_adclk g p 0 w = w"
| "adm_adclk g p (Suc n) w = adm_adclk g p n (g_out g (eesk p) 0 (g_out g (eesk p) (eesk p) w))"

definition rreg_bits :: "u8 \<Rightarrow> u8 \<Rightarrow> u8 list" where
  "rreg_bits table addr =
     [0xFF, 0xFF, 0xFF, 0xFF, push_bit 4 6 OR (push_bit 3 (table AND 1) OR drop_bit 6 (addr AND 64)), push_bit 2 (addr AND 62)]"

definition word2 :: "u8 \<Rightarrow> u8 \<Rightarrow> u32" where
  "word2 a b = push_bit 8 (ucast a) OR ucast b"

definition adm_rreg :: "'w gpio \<Rightarrow> adm_pins \<Rightarrow> u8 \<Rightarrow> u8 \<Rightarrow> 'w \<Rightarrow> u32 \<times> 'w" where
  "adm_rreg g p table addr w =
     (let w = adm_enout g (ucast (eecs p OR eesk p OR eedi p)) 0 w;
          w = adm_write g p False (rreg_bits table addr) 46 w;
          w = adm_disout g (ucast (eedi p)) w;
          w = adm_adclk g p 2 w;
          (rbits, w) = adm_read g p False 32 w;
          w = adm_adclk g p 2 w;
          w = adm_disout g (ucast (eecs p OR eesk p)) w
      in (if table = 0 then
            if addr AND 1 \<noteq> 0 then word2 (rbits ! 0) (rbits ! 1) else word2 (rbits ! 2) (rbits ! 3)
          else push_bit 16 (word2 (rbits ! 0) (rbits ! 1)) OR word2 (rbits ! 2) (rbits ! 3), w))"

definition wreg_bits :: "u8 \<Rightarrow> u16 \<Rightarrow> u8 list" where
  "wreg_bits addr val =
     [push_bit 5 5 OR drop_bit 3 addr, push_bit 5 addr OR ucast (drop_bit 11 val), ucast (drop_bit 3 val), ucast (push_bit 5 val)]"

definition adm_wreg :: "'w gpio \<Rightarrow> adm_pins \<Rightarrow> u8 \<Rightarrow> u16 \<Rightarrow> 'w \<Rightarrow> 'w" where
  "adm_wreg g p addr val w =
     (let w = adm_enout g (ucast (eecs p OR eesk p OR eedi p)) 0 w;
          w = adm_write g p True (wreg_bits addr val) 27 w;
          w = adm_adclk g p 2 w
      in adm_disout g (ucast (eecs p OR eesk p OR eedi p)) w)"

section \<open>Handlers\<close>

definition port_conf :: "u8 list" where
  "port_conf = [0x01, 0x03, 0x05, 0x07, 0x08, 0x09]"

definition vlan_ports :: "u32 list" where
  "vlan_ports = [push_bit 0 1, push_bit 2 1, push_bit 4 1, push_bit 6 1, push_bit 7 1, push_bit 8 1]"

fun adm_ports_text :: "'w gpio \<Rightarrow> adm_pins \<Rightarrow> nat \<Rightarrow> u32 \<Rightarrow> nat list \<Rightarrow> 'w \<Rightarrow> cstr \<times> 'w" where
  "adm_ports_text g p nr ports [] w = ([], w)"
| "adm_ports_text g p nr ports (i # is) w =
     (if ports AND vlan_ports ! i \<noteq> 0 then
        (let (c, w) = adm_rreg g p 0 (port_conf ! i) w;
             flags = (if bit c 4 then LOWER_T # (if drop_bit 10 (c AND push_bit 10 0xF) = of_nat nr then [ASTERISK] else [])
                      else if i = 5 then [LOWER_U] else []);
             (rest, w) = adm_ports_text g p nr ports is w
         in (dec i @ flags @ [TAB] @ rest, w))
      else adm_ports_text g p nr ports is w)"

definition adm_vlan_port_read :: "'w gpio \<Rightarrow> adm_pins \<Rightarrow> nat \<Rightarrow> 'w \<Rightarrow> cstr \<times> 'w" where
  "adm_vlan_port_read g p nr w =
     (if 15 < nr then ([], w)
      else
        (let (ports, w) = adm_rreg g p 0 (0x13 + of_nat nr) w; (t, w) = adm_ports_text g p nr ports [0..<6] w in (t @ [LF], w)))"

definition port_cfg :: "nat \<Rightarrow> vlan_config \<Rightarrow> nat \<Rightarrow> u32 \<Rightarrow> u32" where
  "port_cfg nr c i cfg =
     (let cfg = (if bit (vc_untag c) i then cfg AND NOT (push_bit 4 1) else cfg OR push_bit 4 1)
      in if bit (vc_untag c OR vc_pvid c) i then cfg AND NOT (push_bit 10 0xF) OR push_bit 10 (of_nat nr) else cfg)"

fun write_ports :: "'w gpio \<Rightarrow> adm_pins \<Rightarrow> nat \<Rightarrow> vlan_config \<Rightarrow> nat list \<Rightarrow> u32 \<Rightarrow> 'w \<Rightarrow> u32 \<times> 'w" where
  "write_ports g p nr c [] ports w = (ports, w)"
| "write_ports g p nr c (i # is) ports w =
     (if bit (vc_port c) i then
        (let (cfg, w) = adm_rreg g p 0 (port_conf ! i) w;
             w = adm_wreg g p (port_conf ! i) (ucast (port_cfg nr c i cfg)) w
         in write_ports g p nr c is (ports OR vlan_ports ! i) w)
      else write_ports g p nr c is (ports AND NOT (vlan_ports ! i)) w)"

definition adm_vlan_port_write :: "'w gpio \<Rightarrow> adm_pins \<Rightarrow> switch_driver \<Rightarrow> bool \<Rightarrow> cstr \<Rightarrow> nat \<Rightarrow> 'w \<Rightarrow> (int \<times> 'w) option" where
  "adm_vlan_port_write g p d alloc buf nr w =
     (case switch_parse_vlan d alloc buf of
        None \<Rightarrow> None
      | Some None \<Rightarrow> Some (- 1, w)
      | Some (Some c) \<Rightarrow>
          if length port_conf < sd_ports d then None
          else
            (let (ports, w) = adm_rreg g p 0 (0x13 + of_nat nr) w;
                 (ports, w) = write_ports g p nr c [0..<sd_ports d] ports w
             in Some (0, adm_wreg g p (0x13 + of_nat nr) (ucast ports) w)))"

definition digit_line :: "bool \<Rightarrow> cstr" where
  "digit_line b = (if b then [0x31] else [0x30]) @ [LF]"

definition first_of :: "cstr \<Rightarrow> u8" where
  "first_of buf = (if buf = [] then 0 else hd buf)"

definition handle_port_enable_read :: "'w gpio \<Rightarrow> adm_pins \<Rightarrow> nat \<Rightarrow> 'w \<Rightarrow> cstr \<times> 'w" where
  "handle_port_enable_read g p nr w =
     (let (reg, w) = adm_rreg g p 0 (port_conf ! nr) w in (digit_line (\<not> bit reg 5), w))"

definition handle_port_enable_write :: "'w gpio \<Rightarrow> adm_pins \<Rightarrow> cstr \<Rightarrow> nat \<Rightarrow> 'w \<Rightarrow> int \<times> 'w" where
  "handle_port_enable_write g p buf nr w =
     (let (reg, w) = adm_rreg g p 0 (port_conf ! nr) w in
      if first_of buf = 0x30 then (0, adm_wreg g p (port_conf ! nr) (ucast (reg OR push_bit 5 1)) w)
      else if first_of buf = 0x31 then (0, adm_wreg g p (port_conf ! nr) (ucast (reg AND NOT (push_bit 5 1))) w)
      else (- 1, w))"

definition media_of :: "u32 \<Rightarrow> int" where
  "media_of reg =
     (if bit reg 1 then SWITCH_MEDIA_AUTO else 0) OR (if bit reg 2 then SWITCH_MEDIA_100 else 0) OR
     (if bit reg 3 then SWITCH_MEDIA_FD else 0)"

definition handle_port_media_read :: "'w gpio \<Rightarrow> adm_pins \<Rightarrow> nat \<Rightarrow> 'w \<Rightarrow> cstr \<times> 'w" where
  "handle_port_media_read g p nr w =
     (let (reg, w) = adm_rreg g p 0 (port_conf ! nr) w in (switch_print_media (media_of reg) @ [LF], w))"

definition media_reg :: "int \<Rightarrow> u32 \<Rightarrow> u32" where
  "media_reg media reg =
     (let reg = reg AND NOT (push_bit 1 1 OR push_bit 2 1 OR push_bit 3 1);
          reg = (if media AND SWITCH_MEDIA_AUTO \<noteq> 0 then reg OR push_bit 1 1 else reg);
          reg = (if media AND SWITCH_MEDIA_100 \<noteq> 0 then reg OR push_bit 2 1 else reg)
      in if media AND SWITCH_MEDIA_FD \<noteq> 0 then reg OR push_bit 3 1 else reg)"

definition handle_port_media_write :: "'w gpio \<Rightarrow> adm_pins \<Rightarrow> cstr \<Rightarrow> nat \<Rightarrow> 'w \<Rightarrow> int \<times> 'w" where
  "handle_port_media_write g p buf nr w =
     (let media = switch_parse_media buf; (reg, w) = adm_rreg g p 0 (port_conf ! nr) w in
      if media < 0 then (- 1, w) else (0, adm_wreg g p (port_conf ! nr) (ucast (media_reg media reg)) w))"

definition handle_vlan_enable_read :: "'w gpio \<Rightarrow> adm_pins \<Rightarrow> 'w \<Rightarrow> cstr \<times> 'w" where
  "handle_vlan_enable_read g p w = (let (reg, w) = adm_rreg g p 0 0x11 w in (digit_line (bit reg 5), w))"

definition handle_vlan_enable_write :: "'w gpio \<Rightarrow> adm_pins \<Rightarrow> cstr \<Rightarrow> 'w \<Rightarrow> int \<times> 'w" where
  "handle_vlan_enable_write g p buf w =
     (let (reg, w) = adm_rreg g p 0 0x11 w in
      if first_of buf = 0x31 then (0, adm_wreg g p 0x11 (ucast (reg OR push_bit 5 1)) w)
      else if first_of buf = 0x30 then (0, adm_wreg g p 0x11 (ucast (reg AND NOT (push_bit 5 1))) w)
      else (- 1, w))"

definition adm_reset_pins :: "'w gpio \<Rightarrow> adm_pins \<Rightarrow> 'w \<Rightarrow> 'w" where
  "adm_reset_pins g p w =
     (let rc = (ucast (eerc p) :: u8);
          w = adm_enout g rc rc w;
          w = adm_enout g rc 0 w;
          w = adm_enout g (ucast (eesk p OR eedi p)) (ucast (eesk p)) w;
          w = adm_enout g rc rc w
      in adm_disout g (ucast (eecs p OR eesk p OR eedi p)) w)"

definition adm_handle_reset :: "'w gpio \<Rightarrow> adm_pins \<Rightarrow> 'w \<Rightarrow> int \<times> 'w" where
  "adm_handle_reset g p w =
     (let w = (if eerc p \<noteq> 0 then adm_reset_pins g p w else w);
          cfg = 0x8000 OR push_bit 10 0xF OR push_bit 4 1 OR 0xF;
          w = adm_wreg g p (port_conf ! 5) cfg w
      in (0, adm_wreg g p 0x11 0xFF30 w))"

text \<open>Numbers in hexadecimal, with leading zeros to a width.\<close>

definition hex_char :: "u32 \<Rightarrow> u8" where
  "hex_char d = (if d < 10 then 0x30 + ucast d else 0x57 + ucast d)"

definition hex_text :: "nat \<Rightarrow> u32 \<Rightarrow> cstr" where
  "hex_text n v = List.map (\<lambda>k. hex_char (drop_bit (4 * k) v AND 0xF)) (rev [0..<n])"

fun dump_regs :: "'w gpio \<Rightarrow> adm_pins \<Rightarrow> u8 \<Rightarrow> nat \<Rightarrow> nat list \<Rightarrow> 'w \<Rightarrow> cstr \<times> 'w" where
  "dump_regs g p table width [] w = ([], w)"
| "dump_regs g p table width (i # is) w =
     (let (v, w) = adm_rreg g p table (of_nat i) w; (rest, w) = dump_regs g p table width is w
      in (cs ''0x'' @ hex_text 2 (of_nat i) @ cs '': 0x'' @ hex_text width v @ [LF] @ rest, w))"

definition handle_registers :: "'w gpio \<Rightarrow> adm_pins \<Rightarrow> 'w \<Rightarrow> cstr \<times> 'w" where
  "handle_registers g p w = dump_regs g p 0 4 [0..<0x34] w"

definition handle_counters :: "'w gpio \<Rightarrow> adm_pins \<Rightarrow> 'w \<Rightarrow> cstr \<times> 'w" where
  "handle_counters g p w = dump_regs g p 1 8 [0..<0x3D] w"

section \<open>Detection\<close>

text \<open>The variables of the NVRAM and the kernel's conversion of numbers are parameters.\<close>

definition getgpiopin :: "(cstr \<Rightarrow> cstr option) \<Rightarrow> cstr \<Rightarrow> nat \<Rightarrow> nat" where
  "getgpiopin nv pin_name def_pin =
     (case List.find (\<lambda>pin. nv (cs ''gpio'' @ dec pin) = Some pin_name) [0..<16] of None \<Rightarrow> def_pin | Some pin \<Rightarrow> pin)"

definition pin_mask :: "nat \<Rightarrow> u32" where
  "pin_mask pin = (if pin = 0 then 0 else push_bit pin 1)"

definition or_empty :: "cstr option \<Rightarrow> cstr" where
  "or_empty v = (case v of None \<Rightarrow> [] | Some s \<Rightarrow> s)"

definition detect_adm :: "(cstr \<Rightarrow> cstr option) \<Rightarrow> (cstr \<Rightarrow> u32) \<Rightarrow> bool \<Rightarrow> adm_pins \<Rightarrow> bool \<times> adm_pins" where
  "detect_adm nv atoi force p =
     (if bit (atoi (or_empty (nv (cs ''boardflags'')))) 7 \<or> force then
        (True, \<lparr>eecs = pin_mask (getgpiopin nv (cs ''adm_eecs'') 2), eesk = pin_mask (getgpiopin nv (cs ''adm_eesk'') 3),
                eedi = pin_mask (getgpiopin nv (cs ''adm_eedi'') 4), eerc = pin_mask (getgpiopin nv (cs ''adm_rc'') 0)\<rparr>)
      else if or_empty (nv (cs ''boardtype'')) = cs ''bcm94710dev'' \<and> take 2 (or_empty (nv (cs ''boardnum''))) = cs ''42'' then
        (True, p\<lparr>eecs := push_bit 2 1, eesk := push_bit 3 1, eedi := push_bit 5 1, eerc := pin_mask (unat (eerc p))\<rparr>)
      else (False, \<lparr>eecs = pin_mask (unat (eecs p)), eesk = pin_mask (unat (eesk p)), eedi = pin_mask (unat (eedi p)),
                eerc = pin_mask (unat (eerc p))\<rparr>))"

definition adm_driver :: switch_driver where
  "adm_driver =
     \<lparr>sd_name = cs ''adm6996'', sd_version = cs ''0.01'', sd_interface = cs ''eth0'', sd_cpuport = 5, sd_ports = 6, sd_vlans = 16,
      sd_driver_handlers = Some [(cs ''registers'', True, False), (cs ''counters'', True, False), (cs ''reset'', False, True),
        (cs ''enable_vlan'', True, True)],
      sd_port_handlers = Some [(cs ''enable'', True, True), (cs ''media'', True, True)],
      sd_vlan_handlers = Some [(cs ''ports'', True, True)]\<rparr>"

definition adm_init :: "(cstr \<Rightarrow> cstr option) \<Rightarrow> (cstr \<Rightarrow> u32) \<Rightarrow> bool \<Rightarrow> adm_pins \<Rightarrow> switch_state \<Rightarrow> (int \<times> adm_pins \<times> switch_state) option" where
  "adm_init nv atoi force p s =
     (case detect_adm nv atoi force p of
        (False, p) \<Rightarrow> Some (- 19, p, s)
      | (True, p) \<Rightarrow> map_option (\<lambda>(ret, s). (ret, p, s)) (switch_register_driver adm_driver s))"

definition adm_exit :: "switch_state \<Rightarrow> switch_state" where
  "adm_exit s = switch_unregister_driver (cs ''adm6996'') s"

end
