(* ===== verification/SwitchAdmChip.thy ===== *)
theory SwitchAdmChip
  imports SwitchAdm SwitchVlan
begin

text \<open>
  The ADM6996 driver on its chip: what the chip does at the edges of its lines, that the frames which the driver clocks out
  and in read and write its registers, and that the VLAN files keep their contract.
\<close>

section \<open>The chip\<close>

text \<open>The latch and the enable of each pin of the host; the frame collected while the chip is selected; the ones of the
  preamble and the command of a read frame; the bits still to be shifted out; the registers and the counters.\<close>

record adm_chip =
  ac_cs :: bool
  ac_sk :: bool
  ac_di :: bool
  ac_cse :: bool
  ac_ske :: bool
  ac_die :: bool
  ac_frame :: "bool list"
  ac_ones :: nat
  ac_cmd :: "bool list option"
  ac_out :: "bool list"
  ac_regs :: "u8 \<Rightarrow> u16"
  ac_counts :: "u8 \<Rightarrow> u32"

definition cs_line :: "adm_chip \<Rightarrow> bool" where "cs_line c \<longleftrightarrow> ac_cs c \<and> ac_cse c"
definition sk_line :: "adm_chip \<Rightarrow> bool" where "sk_line c \<longleftrightarrow> ac_sk c \<and> ac_ske c"

text \<open>The data line: driven by the host, else by the chip, else pulled up.\<close>

definition di_line :: "adm_chip \<Rightarrow> bool" where
  "di_line c \<longleftrightarrow> (if ac_die c then ac_di c else case ac_out c of [] \<Rightarrow> True | b # bs \<Rightarrow> b)"

text \<open>Numbers on the line have the most significant bit first.\<close>

definition of_msb :: "bool list \<Rightarrow> 'a::len word" where
  "of_msb bs = horner_sum of_bool 2 (rev bs)"

definition msb_bits :: "nat \<Rightarrow> 'a::len word \<Rightarrow> bool list" where
  "msb_bits n w = rev (List.map (bit w) [0..<n])"

lemma of_msb_bits: "of_msb (msb_bits n w) = take_bit n w"
  by (simp add: of_msb_def msb_bits_def horner_sum_bit_eq_take_bit)

lemma length_msb_bits [simp]: "length (msb_bits n w) = n"
  by (simp add: msb_bits_def)

text \<open>The answer to a read command (after its start bit 0 and 110): two clocks of turnaround, then two registers or a
  counter.\<close>

definition adm_answer :: "adm_chip \<Rightarrow> bool list \<Rightarrow> bool list" where
  "adm_answer c cmd =
     (if take 3 cmd = [True, True, False] then
        (let a = of_msb (take 6 (drop 6 cmd) @ [False]) in
         [True, True] @ (if cmd ! 3 then msb_bits 32 (ac_counts c a) else msb_bits 16 (ac_regs c (a + 1)) @ msb_bits 16 (ac_regs c a)))
      else [])"

text \<open>A rising edge of the clock.\<close>

definition adm_clock :: "adm_chip \<Rightarrow> adm_chip" where
  "adm_clock c =
     (if cs_line c then c\<lparr>ac_frame := ac_frame c @ [di_line c], ac_ones := 0, ac_cmd := None, ac_out := []\<rparr>
      else if ac_out c \<noteq> [] then c\<lparr>ac_out := tl (ac_out c)\<rparr>
      else
        (case ac_cmd c of
           None \<Rightarrow>
             if di_line c then c\<lparr>ac_ones := ac_ones c + 1\<rparr>
             else if 32 \<le> ac_ones c then c\<lparr>ac_ones := 0, ac_cmd := Some []\<rparr>
             else c\<lparr>ac_ones := 0\<rparr>
         | Some bs \<Rightarrow>
             if length bs < 12 then c\<lparr>ac_cmd := Some (bs @ [di_line c])\<rparr>
             else c\<lparr>ac_cmd := None, ac_out := adm_answer c (bs @ [di_line c])\<rparr>))"

text \<open>The end of a selection: a write frame of 27 bits is carried out.\<close>

definition adm_store :: "adm_chip \<Rightarrow> adm_chip" where
  "adm_store c =
     (let f = ac_frame c in
      if length f = 27 \<and> take 3 f = [True, False, True]
      then c\<lparr>ac_frame := [], ac_regs := (ac_regs c)(of_msb (take 8 (drop 3 f)) := of_msb (drop 11 f))\<rparr>
      else c\<lparr>ac_frame := []\<rparr>)"

text \<open>What follows from new latches and enables: \<open>c\<close> before, \<open>c'\<close> with them.\<close>

definition adm_settle :: "adm_chip \<Rightarrow> adm_chip \<Rightarrow> adm_chip" where
  "adm_settle c c' =
     (let c1 = (if cs_line c \<and> \<not> cs_line c' then adm_store c' else c')
      in if \<not> sk_line c \<and> sk_line c' then adm_clock c1 else c1)"

definition pin_latch :: "u32 \<Rightarrow> u32 \<Rightarrow> u32 \<Rightarrow> bool \<Rightarrow> bool" where
  "pin_latch pin m v old = (if m AND pin \<noteq> 0 then v AND pin \<noteq> 0 else old)"

definition pins_out :: "adm_pins \<Rightarrow> u32 \<Rightarrow> u32 \<Rightarrow> adm_chip \<Rightarrow> adm_chip" where
  "pins_out p m v c =
     adm_settle c (c\<lparr>ac_cs := pin_latch (eecs p) m v (ac_cs c), ac_sk := pin_latch (eesk p) m v (ac_sk c),
       ac_di := pin_latch (eedi p) m v (ac_di c)\<rparr>)"

definition pins_enable :: "adm_pins \<Rightarrow> u32 \<Rightarrow> u32 \<Rightarrow> adm_chip \<Rightarrow> adm_chip" where
  "pins_enable p m v c =
     adm_settle c (c\<lparr>ac_cse := pin_latch (eecs p) m v (ac_cse c), ac_ske := pin_latch (eesk p) m v (ac_ske c),
       ac_die := pin_latch (eedi p) m v (ac_die c)\<rparr>)"

text \<open>The pins reach such a chip; they are three different pins among the first eight.\<close>

definition adm_chip_ok :: "'w gpio \<Rightarrow> adm_pins \<Rightarrow> ('w \<Rightarrow> adm_chip) \<Rightarrow> bool" where
  "adm_chip_ok g p ch \<longleftrightarrow>
     (\<forall>m v w. ch (g_out g m v w) = pins_out p m v (ch w)) \<and> (\<forall>m v w. ch (g_outen g m v w) = pins_enable p m v (ch w)) \<and>
     (\<forall>w. (fst (g_in g w) AND eedi p \<noteq> 0) = di_line (ch w) \<and> ch (snd (g_in g w)) = ch w)"

definition pins_ok :: "adm_pins \<Rightarrow> bool" where
  "pins_ok p \<longleftrightarrow> list_all (\<lambda>m. m \<noteq> 0 \<and> m < 256) [eecs p, eesk p, eedi p] \<and>
     eecs p AND eesk p = 0 \<and> eecs p AND eedi p = 0 \<and> eesk p AND eedi p = 0"

text \<open>Between two operations the lines are released and low, and no frame is under way.\<close>

definition adm_idle :: "adm_chip \<Rightarrow> bool" where
  "adm_idle c \<longleftrightarrow> \<not> ac_cs c \<and> \<not> ac_sk c \<and> \<not> ac_cse c \<and> \<not> ac_ske c \<and> \<not> ac_die c \<and> ac_frame c = [] \<and> ac_ones c \<le> 2 \<and>
     ac_cmd c = None \<and> ac_out c = []"

section \<open>The lines\<close>

lemma pins_facts:
  assumes "pins_ok p"
  shows "eecs p \<noteq> 0" "eesk p \<noteq> 0" "eedi p \<noteq> 0" "eecs p AND eesk p = 0" "eecs p AND eedi p = 0" "eesk p AND eedi p = 0"
    "eesk p AND eecs p = 0" "eedi p AND eecs p = 0" "eedi p AND eesk p = 0"
  using assms by (simp_all add: pins_ok_def and.commute)

lemma small_take: "m < 256 \<Longrightarrow> take_bit 8 m = (m :: u32)"
  by (simp add: word_unat_eq_iff word_less_nat_alt unsigned_take_bit_eq take_bit_nat_eq_self)

lemma bit_small: "m < 256 \<Longrightarrow> bit (m :: u32) n \<Longrightarrow> n < 8"
  using small_take [of m] by (metis bit_take_bit_iff)

lemma small_ucast: "(\<And>n. bit m n \<Longrightarrow> n < 8) \<Longrightarrow> ucast (ucast (m :: u32) :: u8) = m"
  by (rule bit_word_eqI) (auto simp: bit_ucast_iff)

lemma or_and_self: "(a OR b) AND a = a" "(b OR a) AND a = (a :: 'a::len word)"
  by (auto intro: bit_word_eqI simp: bit_simps)

lemma or_and_other: "a AND c = 0 \<Longrightarrow> b AND c = 0 \<Longrightarrow> (a OR b) AND c = (0 :: 'a::len word)"
  by (simp add: bit.conj_disj_distrib2)

text \<open>The operations of the driver on the lines.\<close>

lemma chip_out: "adm_chip_ok g p ch \<Longrightarrow> ch (g_out g m v w) = pins_out p m v (ch w)"
  by (simp add: adm_chip_ok_def)

lemma chip_enable: "adm_chip_ok g p ch \<Longrightarrow> ch (g_outen g m v w) = pins_enable p m v (ch w)"
  by (simp add: adm_chip_ok_def)

lemma out_sk:
  assumes "pins_ok p"
  shows "pins_out p (eesk p) 0 c = c\<lparr>ac_sk := False\<rparr>"
    "pins_out p (eesk p) (eesk p) c = (if \<not> sk_line c \<and> ac_ske c then adm_clock (c\<lparr>ac_sk := True\<rparr>) else c\<lparr>ac_sk := True\<rparr>)"
  using pins_facts [OF assms] by (auto simp: pins_out_def pin_latch_def adm_settle_def cs_line_def sk_line_def Let_def)

lemma out_di:
  assumes "pins_ok p"
  shows "pins_out p (eedi p) (if b then eedi p else 0) c = c\<lparr>ac_di := b\<rparr>"
  using pins_facts [OF assms] by (auto simp: pins_out_def pin_latch_def adm_settle_def cs_line_def sk_line_def Let_def)

lemma out_cs:
  assumes "pins_ok p"
  shows "pins_out p (eecs p) (eecs p) c = c\<lparr>ac_cs := True\<rparr>"
    "pins_out p (eecs p) 0 c = (if cs_line c then adm_store (c\<lparr>ac_cs := False\<rparr>) else c\<lparr>ac_cs := False\<rparr>)"
  using pins_facts [OF assms] by (auto simp: pins_out_def pin_latch_def adm_settle_def cs_line_def sk_line_def Let_def)

lemma pin_words:
  assumes "pins_ok p"
  defines "all \<equiv> ucast (ucast (eecs p OR eesk p OR eedi p) :: u8) :: u32"
    and "two \<equiv> ucast (ucast (eecs p OR eesk p) :: u8) :: u32" and "one \<equiv> ucast (ucast (eedi p) :: u8) :: u32"
  shows "all AND eecs p = eecs p" "all AND eesk p = eesk p" "all AND eedi p = eedi p" "two AND eecs p = eecs p" "two AND eesk p = eesk p"
    "two AND eedi p = 0" "one = eedi p"
proof -
  have l: "eecs p < 256" "eesk p < 256" "eedi p < 256" using assms(1) by (simp_all add: pins_ok_def)
  have a: "all = eecs p OR eesk p OR eedi p" "two = eecs p OR eesk p" "one = eedi p"
    unfolding all_def two_def one_def by (rule small_ucast; use bit_small [OF l(1)] bit_small [OF l(2)] bit_small [OF l(3)] in \<open>auto simp: bit_or_iff\<close>)+
  show "all AND eecs p = eecs p" "all AND eesk p = eesk p" "all AND eedi p = eedi p" "two AND eecs p = eecs p" "two AND eesk p = eesk p" "one = eedi p"
    unfolding a by (auto intro: bit_word_eqI simp: bit_simps)
  show "two AND eedi p = 0" unfolding a using pins_facts [OF assms(1)] by (simp add: or_and_other)
qed

lemma enout_chip:
  assumes "adm_chip_ok g p ch" "pins_ok p" "adm_idle (ch w)"
  shows "ch (adm_enout g (ucast (eecs p OR eesk p OR eedi p)) 0 w) = (ch w)\<lparr>ac_di := False, ac_cse := True, ac_ske := True, ac_die := True\<rparr>"
  using assms(3) unfolding adm_enout_def chip_out [OF assms(1)] chip_enable [OF assms(1)] pins_out_def pins_enable_def pin_latch_def
  by (simp add: pin_words [OF assms(2)] pins_facts [OF assms(2)] adm_settle_def cs_line_def sk_line_def Let_def adm_idle_def)

lemma disout_chip:
  assumes "adm_chip_ok g p ch" "pins_ok p" "\<not> ac_cs (ch w)" "\<not> ac_sk (ch w)"
  shows "ch (adm_disout g (ucast (eecs p OR eesk p OR eedi p)) w) = (ch w)\<lparr>ac_cse := False, ac_ske := False, ac_die := False\<rparr>"
    "ch (adm_disout g (ucast (eedi p)) w) = (ch w)\<lparr>ac_die := False\<rparr>"
    "ch (adm_disout g (ucast (eecs p OR eesk p)) w) = (ch w)\<lparr>ac_cse := False, ac_ske := False\<rparr>"
  using assms(3,4) unfolding adm_disout_def chip_enable [OF assms(1)] pins_enable_def pin_latch_def
  by (simp_all add: pin_words [OF assms(2)] pins_facts [OF assms(2)] adm_settle_def cs_line_def sk_line_def Let_def)

lemma clock_out_chip:
  assumes "adm_chip_ok g p ch" "pins_ok p" "ac_ske (ch w)"
  shows "ch (clock_out g p b w) = adm_clock ((ch w)\<lparr>ac_di := b, ac_sk := True\<rparr>)"
  using assms(3) unfolding clock_out_def chip_out [OF assms(1)] out_sk [OF assms(2)] out_di [OF assms(2)] by (simp add: sk_line_def)

section \<open>Writing a register\<close>

lemma adm_clock_keeps [simp]:
  "ac_cs (adm_clock c) = ac_cs c" "ac_sk (adm_clock c) = ac_sk c" "ac_di (adm_clock c) = ac_di c" "ac_cse (adm_clock c) = ac_cse c"
  "ac_ske (adm_clock c) = ac_ske c" "ac_die (adm_clock c) = ac_die c" "ac_regs (adm_clock c) = ac_regs c" "ac_counts (adm_clock c) = ac_counts c"
  by (simp_all add: adm_clock_def split: option.split)

definition clock_bit :: "bool \<Rightarrow> adm_chip \<Rightarrow> adm_chip" where
  "clock_bit b c = adm_clock (c\<lparr>ac_di := b, ac_sk := True\<rparr>)"

lemma clock_bit_keeps [simp]: "ac_ske (clock_bit b c) = ac_ske c" "ac_cs (clock_bit b c) = ac_cs c"
  by (simp_all add: clock_bit_def)

lemma clocks_out_chip:
  assumes "adm_chip_ok g p ch" "pins_ok p"
  shows "ac_ske (ch w) \<Longrightarrow> ch (fold (clock_out g p) bs w) = fold clock_bit bs (ch w)"
proof (induction bs arbitrary: w)
  case (Cons b bs)
  then have "ch (clock_out g p b w) = clock_bit b (ch w)" by (simp add: clock_out_chip [OF assms] clock_bit_def)
  then show ?case using Cons by simp
qed simp

lemma selected_bits:
  assumes "cs_line c" "ac_die c" "bs \<noteq> []"
  shows "fold clock_bit bs c = c\<lparr>ac_di := last bs, ac_sk := True, ac_frame := ac_frame c @ bs, ac_ones := 0, ac_cmd := None, ac_out := []\<rparr>"
  using assms(3)
proof (induction bs rule: rev_nonempty_induct)
  case (single b)
  then show ?case using assms(1,2) by (simp add: clock_bit_def adm_clock_def cs_line_def di_line_def)
next
  case (snoc b bs)
  then show ?case using assms(1,2) by (simp add: clock_bit_def adm_clock_def cs_line_def di_line_def)
qed

definition clock_edge :: "adm_chip \<Rightarrow> adm_chip" where
  "clock_edge c = (adm_clock (c\<lparr>ac_sk := True\<rparr>))\<lparr>ac_sk := False\<rparr>"

lemma adclk_chip:
  assumes "adm_chip_ok g p ch" "pins_ok p" "ac_ske (ch w)" "\<not> ac_sk (ch w)"
  shows "ch (adm_adclk g p 2 w) = clock_edge (clock_edge (ch w))"
proof -
  have e: "ch (g_out g (eesk p) 0 (g_out g (eesk p) (eesk p) w)) = clock_edge (ch w)" if "ac_ske (ch w)" "\<not> ac_sk (ch w)" for w
    using that unfolding chip_out [OF assms(1)] out_sk [OF assms(2)] by (simp add: clock_edge_def sk_line_def)
  have "adm_adclk g p 2 w = g_out g (eesk p) 0 (g_out g (eesk p) (eesk p) (g_out g (eesk p) 0 (g_out g (eesk p) (eesk p) w)))"
    by (simp add: numeral_2_eq_2)
  then show ?thesis using assms(3,4) by (simp add: e) (simp add: e clock_edge_def)
qed

lemma upt_lists:
  "[0..<6] = [0, 1, 2, 3, 4, 5]" "[0..<8] = [0, 1, 2, 3, 4, 5, 6, 7]" "[0..<16] = [0, 1, 2, 3, 4, 5, 6, 7, 8, 9, 10, 11, 12, 13, 14, 15]"
  by code_simp+

lemma wreg_frame: "buf_bits (wreg_bits addr val) 27 = [True, False, True] @ msb_bits 8 addr @ msb_bits 16 val"
proof -
  have f: "\<not> bit addr 9" "\<not> bit addr 10" "\<not> bit val 16" "\<not> bit val 17" "\<not> bit val 18"
    using bit_imp_le_length [of addr] bit_imp_le_length [of val] by force+
  show ?thesis using f
    by (simp add: buf_bits_def wreg_bits_def byte_bits_def msb_bits_def upt_lists bit_simps flip: push_bit_eq_mult)
qed

lemma store_frame:
  fixes addr :: u8 and val :: u16
  assumes "ac_frame c = [True, False, True] @ msb_bits 8 addr @ msb_bits 16 val"
  shows "adm_store c = c\<lparr>ac_frame := [], ac_regs := (ac_regs c)(addr := val)\<rparr>"
proof -
  have "of_msb (take 8 (drop 3 (ac_frame c))) = addr" "of_msb (drop 11 (ac_frame c)) = val"
    by (simp_all add: assms of_msb_bits take_bit_word_eq_self)
  then show ?thesis by (simp add: adm_store_def Let_def) (simp add: assms)
qed

lemma idle_edges:
  assumes "\<not> cs_line c" "ac_die c" "ac_out c = []" "ac_cmd c = None" "ac_ones c = 0"
  shows "\<exists>n \<le> 2. clock_edge (clock_edge c) = c\<lparr>ac_sk := False, ac_ones := n\<rparr>"
proof (cases "ac_di c")
  case True
  then have "clock_edge (clock_edge c) = c\<lparr>ac_sk := False, ac_ones := 2\<rparr>"
    using assms by (simp add: clock_edge_def adm_clock_def cs_line_def di_line_def)
  then show ?thesis by blast
next
  case False
  then have "clock_edge (clock_edge c) = c\<lparr>ac_sk := False, ac_ones := 0\<rparr>"
    using assms by (simp add: clock_edge_def adm_clock_def cs_line_def di_line_def)
  then show ?thesis by blast
qed

lemma adm_wreg_chip:
  assumes "adm_chip_ok g p ch" "pins_ok p" "adm_idle (ch w)"
  shows "adm_idle (ch (adm_wreg g p addr val w)) \<and> ac_regs (ch (adm_wreg g p addr val w)) = (ac_regs (ch w))(addr := val) \<and>
    ac_counts (ch (adm_wreg g p addr val w)) = ac_counts (ch w)"
proof -
  note ok = assms(1,2)
  let ?bits = "[True, False, True] @ msb_bits 8 addr @ msb_bits 16 val"
  define w1 where "w1 = adm_enout g (ucast (eecs p OR eesk p OR eedi p)) 0 w"
  define w2 where "w2 = g_out g (eecs p) (eecs p) w1"
  define w3 where "w3 = fold (clock_out g p) (buf_bits (wreg_bits addr val) 27) w2"
  define w4 where "w4 = g_out g (eecs p) 0 (g_out g (eesk p) 0 w3)"
  define w5 where "w5 = adm_adclk g p 2 w4"
  have e: "adm_wreg g p addr val w = adm_disout g (ucast (eecs p OR eesk p OR eedi p)) w5"
    by (simp add: adm_wreg_def adm_write_def Let_def w1_def w2_def w3_def w4_def w5_def)
  note i = assms(3) [unfolded adm_idle_def]
  have c1: "ch w1 = (ch w)\<lparr>ac_di := False, ac_cse := True, ac_ske := True, ac_die := True\<rparr>"
    unfolding w1_def by (rule enout_chip [OF assms])
  have c2: "ch w2 = (ch w1)\<lparr>ac_cs := True\<rparr>" unfolding w2_def chip_out [OF ok(1)] out_cs [OF ok(2)] ..
  have "ch w3 = fold clock_bit ?bits (ch w2)"
    unfolding w3_def wreg_frame by (rule clocks_out_chip [OF ok]) (simp add: c2 c1)
  also have "\<dots> = (ch w2)\<lparr>ac_di := last ?bits, ac_sk := True, ac_frame := ac_frame (ch w2) @ ?bits, ac_ones := 0, ac_cmd := None, ac_out := []\<rparr>"
    by (rule selected_bits) (simp_all add: c2 c1 cs_line_def)
  finally have c3: "ch w3 = (ch w2)\<lparr>ac_di := last ?bits, ac_sk := True, ac_frame := ?bits, ac_ones := 0, ac_cmd := None, ac_out := []\<rparr>"
    using i by (simp add: c2 c1)
  have "ch w4 = adm_store ((ch w3)\<lparr>ac_sk := False, ac_cs := False\<rparr>)"
    unfolding w4_def chip_out [OF ok(1)] out_cs [OF ok(2)] out_sk [OF ok(2)] by (simp add: c3 c2 c1 cs_line_def)
  also have "\<dots> = (ch w3)\<lparr>ac_sk := False, ac_cs := False, ac_frame := [], ac_regs := (ac_regs (ch w3))(addr := val)\<rparr>"
    by (subst store_frame [where addr = addr and val = val]) (simp_all add: c3)
  finally have c4: "ch w4 = (ch w3)\<lparr>ac_sk := False, ac_cs := False, ac_frame := [], ac_regs := (ac_regs (ch w3))(addr := val)\<rparr>" .
  have c5: "ch w5 = clock_edge (clock_edge (ch w4))"
    unfolding w5_def by (rule adclk_chip [OF ok]) (simp_all add: c4 c3 c2 c1)
  have "\<exists>n \<le> 2. clock_edge (clock_edge (ch w4)) = (ch w4)\<lparr>ac_sk := False, ac_ones := n\<rparr>"
    by (rule idle_edges) (simp_all add: c4 c3 c2 c1 cs_line_def)
  then obtain n where n: "n \<le> 2" "ch w5 = (ch w4)\<lparr>ac_sk := False, ac_ones := n\<rparr>" unfolding c5 by blast
  have "ch (adm_wreg g p addr val w) = (ch w5)\<lparr>ac_cse := False, ac_ske := False, ac_die := False\<rparr>"
    unfolding e by (rule disout_chip(1) [OF ok]) (simp_all add: n c4)
  then show ?thesis using i n(1) by (simp add: n(2) c4 c3 c2 c1 adm_idle_def)
qed

section \<open>Reading a register\<close>

lemma msb_bits_append: "msb_bits (m + n) w = msb_bits m (drop_bit n w) @ msb_bits n w"
proof -
  have "[0..<m + n] = [0..<n] @ [n..<m + n]" by (metis add.commute upt_add_eq_append zero_le)
  moreover have "List.map (bit w) [n..<m + n] = List.map (bit (drop_bit n w)) [0..<m]"
    by (rule nth_equalityI) (auto simp: bit_drop_bit_eq add.commute)
  ultimately show ?thesis by (simp add: msb_bits_def)
qed

lemma bit_collect:
  "m \<le> 8 \<Longrightarrow> bit (fold (\<lambda>k v. if f k then v OR push_bit (7 - k) 1 else v) [0..<m] (0 :: u8)) n \<longleftrightarrow> n < 8 \<and> 7 - n < m \<and> f (7 - n)"
proof (induction m)
  case (Suc m)
  have "n = 7 - m \<longleftrightarrow> 7 - n = m" if "n < 8" using that Suc.prems by linarith
  moreover have "m < 8" using Suc.prems by simp
  ultimately show ?case using Suc by (auto simp: bit_or_iff bit_exp_iff less_Suc_eq)
qed simp

lemma bits_byte_msb: "bits_byte (msb_bits 8 w) = ucast w"
proof (rule bit_word_eqI)
  fix n assume n: "n < LENGTH(8)"
  have "msb_bits 8 w ! (7 - n) = bit w n" using n by (simp add: msb_bits_def rev_nth)
  then show "bit (bits_byte (msb_bits 8 w)) n = bit (ucast w :: u8) n"
    unfolding bits_byte_def length_msb_bits bit_collect [OF order_refl] using n by (auto simp: bit_ucast_iff)
qed

text \<open>Reading bytes off the line.\<close>

lemma clock_in_chip:
  assumes "adm_chip_ok g p ch" "pins_ok p" "ac_ske (ch w)" "\<not> cs_line (ch w)" "\<not> ac_die (ch w)" "ac_out (ch w) = b # bs"
  shows "fst (clock_in g p w) = b" "ch (snd (clock_in g p w)) = (ch w)\<lparr>ac_sk := True, ac_out := bs\<rparr>"
proof -
  let ?w = "g_out g (eesk p) 0 w"
  have c: "ch ?w = (ch w)\<lparr>ac_sk := False\<rparr>" unfolding chip_out [OF assms(1)] out_sk [OF assms(2)] ..
  have s: "ucast (ucast v :: u8) AND eedi p = v AND eedi p" for v :: u32
    using bit_small [of "eedi p"] assms(2) by (intro bit_word_eqI) (auto simp: bit_and_iff bit_ucast_iff pins_ok_def)
  obtain v w2 where v: "g_in g ?w = (v, w2)" by force
  have "(v AND eedi p \<noteq> 0) = di_line (ch ?w)" "ch w2 = ch ?w" using assms(1) v unfolding adm_chip_ok_def by (metis fst_conv, metis snd_conv)
  then have i: "(v AND eedi p \<noteq> 0) = b" "ch w2 = (ch w)\<lparr>ac_sk := False\<rparr>" using assms(5,6) by (simp_all add: c di_line_def)
  have e: "clock_in g p w = (v AND eedi p \<noteq> 0, g_out g (eesk p) (eesk p) w2)" by (simp add: clock_in_def v s Let_def)
  show "fst (clock_in g p w) = b" by (simp only: e fst_conv i)
  show "ch (snd (clock_in g p w)) = (ch w)\<lparr>ac_sk := True, ac_out := bs\<rparr>"
    unfolding e snd_conv chip_out [OF assms(1)] out_sk [OF assms(2)] i(2)
    using assms(3-6) by (auto simp: sk_line_def adm_clock_def cs_line_def)
qed

lemma clocks_in_chip:
  assumes "adm_chip_ok g p ch" "pins_ok p"
  shows "ac_ske (ch w) \<Longrightarrow> \<not> cs_line (ch w) \<Longrightarrow> \<not> ac_die (ch w) \<Longrightarrow> ac_out (ch w) = bs @ rest \<Longrightarrow> bs \<noteq> [] \<Longrightarrow>
    fst (clocks_in g p (length bs) w) = bs \<and> ch (snd (clocks_in g p (length bs) w)) = (ch w)\<lparr>ac_sk := True, ac_out := rest\<rparr>"
proof (induction bs arbitrary: w)
  case (Cons b bs)
  have o: "ac_out (ch w) = b # (bs @ rest)" using Cons.prems(4) by simp
  note c = clock_in_chip [OF assms Cons.prems(1-3) o]
  obtain b' w1 where w1: "clock_in g p w = (b', w1)" by force
  have w1': "b' = b" "ch w1 = (ch w)\<lparr>ac_sk := True, ac_out := bs @ rest\<rparr>" using c by (simp_all add: w1)
  show ?case
  proof (cases "bs = []")
    case True
    then show ?thesis using w1 w1' by (simp add: Let_def)
  next
    case False
    have "fst (clocks_in g p (length bs) w1) = bs \<and> ch (snd (clocks_in g p (length bs) w1)) = (ch w1)\<lparr>ac_sk := True, ac_out := rest\<rparr>"
      by (rule Cons.IH) (use Cons.prems False in \<open>simp_all add: w1' cs_line_def\<close>)
    then show ?thesis using w1 w1' by (simp add: Let_def case_prod_unfold)
  qed
qed simp

lemma read_bytes_chip:
  assumes "adm_chip_ok g p ch" "pins_ok p"
  shows "ac_ske (ch w) \<Longrightarrow> \<not> cs_line (ch w) \<Longrightarrow> \<not> ac_die (ch w) \<Longrightarrow> ac_out (ch w) = concat bss \<Longrightarrow> list_all (\<lambda>bs. length bs = 8) bss \<Longrightarrow>
    fst (read_bytes g p (length bss) (8 * length bss) w) = List.map bits_byte bss \<and>
    (\<exists>b. ch (snd (read_bytes g p (length bss) (8 * length bss) w)) = (ch w)\<lparr>ac_sk := b, ac_out := []\<rparr>)"
proof (induction bss arbitrary: w)
  case Nil
  have "(ch w)\<lparr>ac_sk := ac_sk (ch w), ac_out := []\<rparr> = ch w" using Nil by simp
  then have "\<exists>b. ch w = (ch w)\<lparr>ac_sk := b, ac_out := []\<rparr>" by metis
  then show ?case by simp
next
  case (Cons bs bss)
  have o: "ac_out (ch w) = bs @ concat bss" "bs \<noteq> []" "length bs = 8" using Cons.prems(4,5) by auto
  note c = clocks_in_chip [OF assms Cons.prems(1-3) o(1,2), unfolded o(3)]
  obtain bs' w1 where w1: "clocks_in g p 8 w = (bs', w1)" by force
  have w1': "bs' = bs" "ch w1 = (ch w)\<lparr>ac_sk := True, ac_out := concat bss\<rparr>" using c by (simp_all add: w1)
  have ih: "fst (read_bytes g p (length bss) (8 * length bss) w1) = List.map bits_byte bss \<and>
    (\<exists>b. ch (snd (read_bytes g p (length bss) (8 * length bss) w1)) = (ch w1)\<lparr>ac_sk := b, ac_out := []\<rparr>)"
    by (rule Cons.IH) (use Cons.prems in \<open>simp_all add: w1' cs_line_def\<close>)
  have "read_bytes g p (length (bs # bss)) (8 * length (bs # bss)) w =
      (bits_byte bs # fst (read_bytes g p (length bss) (8 * length bss) w1), snd (read_bytes g p (length bss) (8 * length bss) w1))"
    by (simp add: w1 w1' Let_def case_prod_unfold)
  then show ?case using ih by (simp add: w1')
qed

text \<open>The command: the preamble, the start and thirteen more bits.\<close>

definition read_cmd :: "u8 \<Rightarrow> u8 \<Rightarrow> bool list" where
  "read_cmd table addr =
     [True, True, False, bit table 0, False, False, bit addr 6, bit addr 5, bit addr 4, bit addr 3, bit addr 2, bit addr 1, False]"

lemma rreg_frame: "buf_bits (rreg_bits table addr) 46 = replicate 32 True @ [False] @ read_cmd table addr"
proof -
  have b: "bit (1 :: u8) k = (k = 0)" "bit (64 :: u8) k = (k = 6)" "bit (62 :: u8) k = (k \<in> {1, 2, 3, 4, 5})" "bit (6 :: u8) k = (k \<in> {1, 2})" for k
  proof -
    show "bit (1 :: u8) k = (k = 0)" by (auto simp: bit_1_iff)
    have "(64 :: u8) = 2 ^ 6" by simp
    then show "bit (64 :: u8) k = (k = 6)" by (simp only: bit_exp_iff) auto
    have "list_all (\<lambda>k. bit (62 :: u8) k = (k \<in> {1, 2, 3, 4, 5}) \<and> bit (6 :: u8) k = (k \<in> {1, 2})) [0..<8]" by code_simp
    moreover have "\<not> bit (62 :: u8) k \<and> \<not> bit (6 :: u8) k" if "8 \<le> k" using that bit_imp_le_length [of "62 :: u8" k] bit_imp_le_length [of "6 :: u8" k] by auto
    ultimately have "bit (62 :: u8) k = (k \<in> {1, 2, 3, 4, 5}) \<and> bit (6 :: u8) k = (k \<in> {1, 2})" by (cases "k < 8") (auto simp: list_all_iff)
    then show "bit (62 :: u8) k = (k \<in> {1, 2, 3, 4, 5})" "bit (6 :: u8) k = (k \<in> {1, 2})" by auto
  qed
  have o: "bit (0xFF :: u8) k = (k < 8)" for k
  proof -
    have "(0xFF :: u8) = mask 8" by (simp add: mask_eq_exp_minus_1)
    then show ?thesis by (simp only: bit_mask_iff possible_bit_word) auto
  qed
  have l: "\<not> bit addr 8" "\<not> bit addr 9" "\<not> bit addr 10" "\<not> bit addr 11" "\<not> bit addr 12" "\<not> bit addr 13" using bit_imp_le_length [of addr] by force+
  let ?x = "push_bit 4 6 OR (push_bit 3 (table AND 1) OR drop_bit 6 (addr AND 64)) :: u8"
  have x: "bit ?x k = (k < 8 \<and> (4 \<le> k \<and> k - 4 \<in> {1, 2} \<or> k = 3 \<and> bit table 0 \<or> k = 0 \<and> bit addr 6))" for k
    unfolding bit_or_iff bit_push_bit_iff bit_drop_bit_eq bit_and_iff comp_apply b possible_bit_word by auto
  let ?y = "push_bit 2 (addr AND 62) :: u8"
  have y: "bit ?y k = (k < 8 \<and> 2 \<le> k \<and> k - 2 \<in> {1, 2, 3, 4, 5} \<and> bit addr (k - 2))" for k
    unfolding bit_push_bit_iff bit_and_iff b possible_bit_word by auto
  have bb: "byte_bits 0xFF = replicate 8 True" "byte_bits ?x = [False, True, True, False, bit table 0, False, False, bit addr 6]"
    "take 6 (byte_bits ?y) = [bit addr 5, bit addr 4, bit addr 3, bit addr 2, bit addr 1, False]"
    unfolding byte_bits_def o x y upt_lists by (simp_all add: eval_nat_numeral)
  have "buf_bits (rreg_bits table addr) 46 =
      byte_bits 0xFF @ byte_bits 0xFF @ byte_bits 0xFF @ byte_bits 0xFF @ byte_bits ?x @ take 6 (byte_bits ?y)"
    unfolding buf_bits_def rreg_bits_def by (simp add: byte_bits_def)
  also have "\<dots> = replicate 32 True @ [False] @ read_cmd table addr"
    unfolding bb read_cmd_def by (simp add: eval_nat_numeral)
  finally show ?thesis .
qed

lemma adm_answer_keeps [simp]:
  "adm_answer (c\<lparr>ac_di := b\<rparr>) bs = adm_answer c bs" "adm_answer (c\<lparr>ac_sk := b\<rparr>) bs = adm_answer c bs"
  "adm_answer (c\<lparr>ac_ones := n\<rparr>) bs = adm_answer c bs" "adm_answer (c\<lparr>ac_cmd := x\<rparr>) bs = adm_answer c bs"
  by (simp_all add: adm_answer_def Let_def)

lemma clock_bit_unselected:
  assumes "\<not> cs_line c" "ac_die c" "ac_out c = []"
  shows "ac_cmd c = None \<Longrightarrow> clock_bit True c = c\<lparr>ac_di := True, ac_sk := True, ac_ones := ac_ones c + 1\<rparr>"
    "ac_cmd c = None \<Longrightarrow> 32 \<le> ac_ones c \<Longrightarrow>
      clock_bit False c = c\<lparr>ac_di := False, ac_sk := True, ac_ones := 0, ac_cmd := Some []\<rparr>"
    "ac_cmd c = Some bs \<Longrightarrow> length bs < 12 \<Longrightarrow> clock_bit b c = c\<lparr>ac_di := b, ac_sk := True, ac_cmd := Some (bs @ [b])\<rparr>"
    "ac_cmd c = Some bs \<Longrightarrow> \<not> length bs < 12 \<Longrightarrow>
      clock_bit b c = c\<lparr>ac_di := b, ac_sk := True, ac_cmd := None, ac_out := adm_answer c (bs @ [b])\<rparr>"
  using assms by (auto simp: clock_bit_def adm_clock_def cs_line_def di_line_def)

lemma preamble_bits:
  assumes "\<not> cs_line c" "ac_die c" "ac_out c = []" "ac_cmd c = None" "0 < n"
  shows "fold clock_bit (replicate n True) c = c\<lparr>ac_di := True, ac_sk := True, ac_ones := ac_ones c + n\<rparr>"
  using assms(5)
proof (induction n rule: nat_induct_non_zero)
  case 1
  then show ?case using clock_bit_unselected(1) [OF assms(1-4)] by simp
next
  case (Suc n)
  let ?c = "c\<lparr>ac_di := True, ac_sk := True, ac_ones := ac_ones c + n\<rparr>"
  have "replicate (Suc n) True = replicate n True @ [True]" by (simp add: replicate_append_same)
  then have "fold clock_bit (replicate (Suc n) True) c = clock_bit True ?c" using Suc.IH by simp
  also have "\<dots> = ?c\<lparr>ac_di := True, ac_sk := True, ac_ones := ac_ones ?c + 1\<rparr>"
    by (rule clock_bit_unselected(1)) (use assms in \<open>simp_all add: cs_line_def\<close>)
  finally show ?case by simp
qed

lemma cmd_bits:
  assumes "\<not> cs_line c" "ac_die c" "ac_out c = []" "ac_cmd c = Some []"
  shows "length bs \<le> 12 \<Longrightarrow> bs \<noteq> [] \<Longrightarrow> fold clock_bit bs c = c\<lparr>ac_di := last bs, ac_sk := True, ac_cmd := Some bs\<rparr>"
proof (induction bs rule: rev_induct)
  case (snoc b bs)
  show ?case
  proof (cases "bs = []")
    case True
    then show ?thesis using clock_bit_unselected(3) [OF assms, of b] by simp
  next
    case False
    let ?c = "c\<lparr>ac_di := last bs, ac_sk := True, ac_cmd := Some bs\<rparr>"
    have "clock_bit b ?c = ?c\<lparr>ac_di := b, ac_sk := True, ac_cmd := Some (bs @ [b])\<rparr>"
      by (rule clock_bit_unselected(3)) (use assms snoc.prems in \<open>simp_all add: cs_line_def\<close>)
    then show ?thesis using False snoc by simp
  qed
qed simp

lemma read_command:
  assumes "\<not> cs_line c" "ac_die c" "ac_out c = []" "ac_cmd c = None" "length cmd = 13"
  shows "fold clock_bit (replicate 32 True @ [False] @ cmd) c =
    c\<lparr>ac_di := last cmd, ac_sk := True, ac_ones := 0, ac_cmd := None, ac_out := adm_answer c cmd\<rparr>"
proof -
  define c1 where "c1 = c\<lparr>ac_di := True, ac_sk := True, ac_ones := ac_ones c + 32\<rparr>"
  have p: "fold clock_bit (replicate 32 True) c = c1" unfolding c1_def by (rule preamble_bits [OF assms(1-4)]) simp
  define c2 where "c2 = c\<lparr>ac_di := False, ac_sk := True, ac_ones := 0, ac_cmd := Some []\<rparr>"
  have "clock_bit False c1 = c1\<lparr>ac_di := False, ac_sk := True, ac_ones := 0, ac_cmd := Some []\<rparr>"
    by (rule clock_bit_unselected(2)) (use assms in \<open>simp_all add: c1_def cs_line_def\<close>)
  then have s: "clock_bit False c1 = c2" by (simp add: c1_def c2_def)
  have ne: "butlast cmd \<noteq> []" "length (butlast cmd) = 12" "cmd = butlast cmd @ [last cmd]" using assms(5) by (cases cmd, auto simp: length_Suc_conv)+
  define c3 where "c3 = c2\<lparr>ac_di := last (butlast cmd), ac_sk := True, ac_cmd := Some (butlast cmd)\<rparr>"
  have q: "fold clock_bit (butlast cmd) c2 = c3" unfolding c3_def
    by (rule cmd_bits) (use assms ne in \<open>simp_all add: c2_def cs_line_def\<close>)
  have "fold clock_bit (replicate 32 True @ [False] @ cmd) c = fold clock_bit cmd c2"
    by (simp only: fold_append comp_apply fold.simps id_apply p s)
  also have "\<dots> = clock_bit (last cmd) c3" by (subst ne(3)) (simp only: fold_append comp_apply q, simp)
  also have "\<dots> = c3\<lparr>ac_di := last cmd, ac_sk := True, ac_cmd := None, ac_out := adm_answer c3 (butlast cmd @ [last cmd])\<rparr>"
    by (rule clock_bit_unselected(4)) (use assms ne in \<open>simp_all add: c3_def c2_def cs_line_def\<close>)
  also have "\<dots> = c\<lparr>ac_di := last cmd, ac_sk := True, ac_ones := 0, ac_cmd := None, ac_out := adm_answer c cmd\<rparr>"
    unfolding ne(3) [symmetric] by (simp add: c3_def c2_def)
  finally show ?thesis .
qed

text \<open>The register that the command names, and the bytes of the answer.\<close>

lemma bit_126: "bit (126 :: u8) k \<longleftrightarrow> 1 \<le> k \<and> k \<le> 6"
proof (cases "k < 8")
  case True
  have "list_all (\<lambda>k. bit (126 :: u8) k = (1 \<le> k \<and> k \<le> 6)) [0..<8]" by code_simp
  then show ?thesis using True by (auto simp: list_all_iff)
next
  case False
  then show ?thesis using bit_imp_le_length [of "126 :: u8" k] by auto
qed

lemma addr_bits: "of_msb [bit addr 6, bit addr 5, bit addr 4, bit addr 3, bit addr 2, bit addr 1, False] = (addr AND 126 :: u8)"
proof -
  have u: "[0..<7] = [0, 1, 2, 3, 4, 5, 6]" by code_simp
  have "msb_bits 7 (addr AND 126) = [bit addr 6, bit addr 5, bit addr 4, bit addr 3, bit addr 2, bit addr 1, False]"
    unfolding msb_bits_def u by (simp add: bit_and_iff bit_126)
  then have "of_msb [bit addr 6, bit addr 5, bit addr 4, bit addr 3, bit addr 2, bit addr 1, False] = take_bit 7 (addr AND 126)"
    using of_msb_bits [of 7 "addr AND 126"] by simp
  also have "\<dots> = addr AND 126"
  proof (rule bit_word_eqI)
    show "bit (take_bit 7 (addr AND 126)) n = bit (addr AND 126) n" for n unfolding bit_take_bit_iff bit_and_iff bit_126 by auto
  qed
  finally show ?thesis .
qed

lemma answer_cmd:
  "adm_answer c (read_cmd table addr) = [True, True] @
    (if bit table 0 then msb_bits 32 (ac_counts c (addr AND 126)) else msb_bits 16 (ac_regs c ((addr AND 126) + 1)) @ msb_bits 16 (ac_regs c (addr AND 126)))"
proof -
  have t: "take 3 (read_cmd table addr) = [True, True, False]" "read_cmd table addr ! 3 = bit table 0"
    "take 6 (drop 6 (read_cmd table addr)) @ [False] = [bit addr 6, bit addr 5, bit addr 4, bit addr 3, bit addr 2, bit addr 1, False]"
    by (simp_all add: read_cmd_def)
  show ?thesis unfolding adm_answer_def t addr_bits Let_def by simp
qed

definition answer_word :: "adm_chip \<Rightarrow> u8 \<Rightarrow> u8 \<Rightarrow> u32" where
  "answer_word c table addr =
     (if bit table 0 then ac_counts c (addr AND 126)
      else push_bit 16 (ucast (ac_regs c ((addr AND 126) + 1))) OR ucast (ac_regs c (addr AND 126)))"

lemma bits_16: "bit (push_bit 16 (ucast (a :: u16)) OR ucast (b :: u16) :: u32) n \<longleftrightarrow> (if n < 16 then bit b n else n < 32 \<and> bit a (n - 16))"
  unfolding bit_or_iff bit_push_bit_iff bit_ucast_iff by (auto dest: bit_imp_le_length)

lemma answer_bits: "adm_answer c (read_cmd table addr) = [True, True] @ msb_bits 32 (answer_word c table addr)"
proof -
  have "msb_bits 32 (push_bit 16 (ucast a) OR ucast b :: u32) = msb_bits 16 a @ msb_bits 16 b" for a b :: u16
  proof -
    have "msb_bits (16 + 16) (push_bit 16 (ucast a) OR ucast b :: u32) =
        msb_bits 16 (drop_bit 16 (push_bit 16 (ucast a) OR ucast b :: u32)) @ msb_bits 16 (push_bit 16 (ucast a) OR ucast b :: u32)"
      by (rule msb_bits_append)
    moreover have "msb_bits 16 (drop_bit 16 (push_bit 16 (ucast a) OR ucast b :: u32)) = msb_bits 16 a"
      unfolding msb_bits_def by (rule arg_cong [where f = rev], rule map_cong [OF refl]) (auto simp only: bit_drop_bit_eq comp_apply bits_16 set_upt; auto dest: bit_imp_le_length)
    moreover have "msb_bits 16 (push_bit 16 (ucast a) OR ucast b :: u32) = msb_bits 16 b"
      unfolding msb_bits_def by (rule arg_cong [where f = rev], rule map_cong [OF refl]) (simp only: bits_16 set_upt atLeastLessThan_iff if_True)
    ultimately show ?thesis by simp
  qed
  then show ?thesis unfolding answer_cmd answer_word_def by simp
qed

lemma word_bytes: "msb_bits 32 (v :: u32) = concat [msb_bits 8 (drop_bit 24 v), msb_bits 8 (drop_bit 16 v), msb_bits 8 (drop_bit 8 v), msb_bits 8 v]"
  using msb_bits_append [of 24 8 v] msb_bits_append [of 16 8 "drop_bit 8 v"] msb_bits_append [of 8 8 "drop_bit 16 v"] by simp

lemma bytes_word:
  fixes v :: u32
  shows "push_bit 16 (word2 (ucast (drop_bit 24 v)) (ucast (drop_bit 16 v))) OR word2 (ucast (drop_bit 8 v)) (ucast v) = v"
    "word2 (ucast (drop_bit 24 v)) (ucast (drop_bit 16 v)) = drop_bit 16 v" "word2 (ucast (drop_bit 8 v)) (ucast v) = v AND 0xFFFF"
proof -
  have w: "bit (word2 a b) n \<longleftrightarrow> (if n < 8 then bit b n else n < 16 \<and> bit a (n - 8))" for a b n
    unfolding word2_def bit_or_iff bit_push_bit_iff bit_ucast_iff by (auto dest: bit_imp_le_length)
  have m: "(0xFFFF :: u32) = mask 16" by (simp add: mask_eq_exp_minus_1)
  show "word2 (ucast (drop_bit 24 v)) (ucast (drop_bit 16 v)) = drop_bit 16 v"
    by (rule bit_word_eqI) (auto simp: w bit_ucast_iff bit_drop_bit_eq dest: bit_imp_le_length)
  show "push_bit 16 (word2 (ucast (drop_bit 24 v)) (ucast (drop_bit 16 v))) OR word2 (ucast (drop_bit 8 v)) (ucast v) = v"
  proof (rule bit_word_eqI)
    fix n assume "n < LENGTH(32)"
    then show "bit (push_bit 16 (word2 (ucast (drop_bit 24 v)) (ucast (drop_bit 16 v))) OR word2 (ucast (drop_bit 8 v)) (ucast v)) n = bit v n"
      unfolding bit_or_iff bit_push_bit_iff w bit_ucast_iff bit_drop_bit_eq comp_apply by (cases "16 \<le> n") auto
  qed
  show "word2 (ucast (drop_bit 8 v)) (ucast v) = v AND 0xFFFF"
    unfolding m by (rule bit_word_eqI) (auto simp: w bit_ucast_iff bit_drop_bit_eq bit_and_iff bit_mask_iff)
qed

lemma reg_pairs: "addr < 128 \<Longrightarrow> (if addr AND 1 \<noteq> 0 then (addr AND 126) + 1 else addr AND 126) = (addr :: u8)"
proof -
  have "list_all (\<lambda>k. let a = of_nat k :: u8 in (if a AND 1 \<noteq> 0 then (a AND 126) + 1 else a AND 126) = a) [0..<128]" by code_simp
  moreover assume "addr < 128"
  then have "unat addr < 128" by (simp add: word_less_nat_alt)
  then have "unat addr \<in> set [0..<128]" by (simp only: set_upt atLeastLessThan_iff le0 simp_thms)
  ultimately have "let a = of_nat (unat addr) :: u8 in (if a AND 1 \<noteq> 0 then (a AND 126) + 1 else a AND 126) = a"
    unfolding list_all_iff by (rule bspec)
  then show ?thesis by (simp add: Let_def)
qed

lemma released_edges:
  assumes "\<not> cs_line c" "\<not> ac_die c" "ac_out c = []" "ac_cmd c = None"
  shows "clock_edge (clock_edge c) = c\<lparr>ac_sk := False, ac_ones := ac_ones c + 2\<rparr>"
  using assms by (simp add: clock_edge_def adm_clock_def cs_line_def di_line_def)

lemma turnaround:
  assumes "\<not> cs_line c" "ac_out c = x # y # bs"
  shows "clock_edge (clock_edge c) = c\<lparr>ac_sk := False, ac_out := bs\<rparr>"
  using assms by (auto simp: clock_edge_def adm_clock_def cs_line_def)

lemma adm_rreg_chip:
  assumes "adm_chip_ok g p ch" "pins_ok p" "adm_idle (ch w)"
  shows "fst (adm_rreg g p table addr w) =
      (if table = 0 then if addr AND 1 \<noteq> 0 then drop_bit 16 (answer_word (ch w) table addr) else answer_word (ch w) table addr AND 0xFFFF
       else answer_word (ch w) table addr) \<and>
    adm_idle (ch (snd (adm_rreg g p table addr w))) \<and> ac_regs (ch (snd (adm_rreg g p table addr w))) = ac_regs (ch w) \<and>
    ac_counts (ch (snd (adm_rreg g p table addr w))) = ac_counts (ch w)"
proof -
  note ok = assms(1,2)
  let ?cmd = "read_cmd table addr" let ?v = "answer_word (ch w) table addr"
  define w1 where "w1 = adm_enout g (ucast (eecs p OR eesk p OR eedi p)) 0 w"
  define w2 where "w2 = g_out g (eecs p) 0 w1"
  define w3 where "w3 = fold (clock_out g p) (buf_bits (rreg_bits table addr) 46) w2"
  define w4 where "w4 = adm_disout g (ucast (eedi p)) (g_out g (eesk p) 0 w3)"
  define w5 where "w5 = g_out g (eecs p) 0 (adm_adclk g p 2 w4)"
  obtain bytes w6 where w6: "read_bytes g p 4 32 w5 = (bytes, w6)" by force
  define w7 where "w7 = adm_adclk g p 2 (g_out g (eesk p) 0 w6)"
  have e: "adm_rreg g p table addr w =
      (if table = 0 then if addr AND 1 \<noteq> 0 then word2 (bytes ! 0) (bytes ! 1) else word2 (bytes ! 2) (bytes ! 3)
       else push_bit 16 (word2 (bytes ! 0) (bytes ! 1)) OR word2 (bytes ! 2) (bytes ! 3), adm_disout g (ucast (eecs p OR eesk p)) w7)"
    using w6 by (simp add: adm_rreg_def adm_write_def adm_read_def Let_def w1_def w2_def w3_def w4_def w5_def w7_def)
  note i = assms(3) [unfolded adm_idle_def]
  have c1: "ch w1 = (ch w)\<lparr>ac_di := False, ac_cse := True, ac_ske := True, ac_die := True\<rparr>"
    unfolding w1_def by (rule enout_chip [OF assms])
  have c2: "ch w2 = (ch w1)\<lparr>ac_cs := False\<rparr>"
    using i unfolding w2_def chip_out [OF ok(1)] out_cs [OF ok(2)] by (simp add: c1 cs_line_def)
  have "ch w3 = fold clock_bit (replicate 32 True @ [False] @ ?cmd) (ch w2)"
    unfolding w3_def rreg_frame by (rule clocks_out_chip [OF ok]) (simp add: c2 c1)
  also have "\<dots> = (ch w2)\<lparr>ac_di := last ?cmd, ac_sk := True, ac_ones := 0, ac_cmd := None, ac_out := adm_answer (ch w2) ?cmd\<rparr>"
    by (rule read_command) (use i in \<open>simp_all add: c2 c1 cs_line_def read_cmd_def\<close>)
  also have "adm_answer (ch w2) ?cmd = adm_answer (ch w) ?cmd" by (simp add: c2 c1 adm_answer_def Let_def)
  also have "\<dots> = True # True # msb_bits 32 ?v" by (simp add: answer_bits)
  finally have c3: "ch w3 = (ch w2)\<lparr>ac_di := last ?cmd, ac_sk := True, ac_ones := 0, ac_cmd := None, ac_out := True # True # msb_bits 32 ?v\<rparr>" .
  have "ch w4 = (ch (g_out g (eesk p) 0 w3))\<lparr>ac_die := False\<rparr>" unfolding w4_def
    by (rule disout_chip(2) [OF ok]) (use i in \<open>simp_all add: chip_out [OF ok(1)] out_sk [OF ok(2)] c3 c2 c1\<close>)
  then have c4: "ch w4 = (ch w3)\<lparr>ac_sk := False, ac_die := False\<rparr>" unfolding chip_out [OF ok(1)] out_sk [OF ok(2)] by simp
  have "ch (adm_adclk g p 2 w4) = clock_edge (clock_edge (ch w4))" by (rule adclk_chip [OF ok]) (simp_all add: c4 c3 c2 c1)
  also have "\<dots> = (ch w4)\<lparr>ac_sk := False, ac_out := msb_bits 32 ?v\<rparr>" by (rule turnaround) (simp_all add: c4 c3 c2 cs_line_def)
  finally have c5: "ch w5 = (ch w4)\<lparr>ac_sk := False, ac_out := msb_bits 32 ?v\<rparr>"
    unfolding w5_def chip_out [OF ok(1)] out_cs [OF ok(2)] by (simp add: c4 c3 c2 cs_line_def)
  let ?bss = "[msb_bits 8 (drop_bit 24 ?v), msb_bits 8 (drop_bit 16 ?v), msb_bits 8 (drop_bit 8 ?v), msb_bits 8 ?v]"
  have "fst (read_bytes g p (length ?bss) (8 * length ?bss) w5) = List.map bits_byte ?bss \<and>
      (\<exists>b. ch (snd (read_bytes g p (length ?bss) (8 * length ?bss) w5)) = (ch w5)\<lparr>ac_sk := b, ac_out := []\<rparr>)"
    by (rule read_bytes_chip [OF ok]) (simp_all add: c5 c4 c3 c2 c1 cs_line_def word_bytes)
  moreover have "length ?bss = 4" "8 * length ?bss = 32" by simp_all
  ultimately have rb: "bytes = List.map bits_byte ?bss" "\<exists>b. ch w6 = (ch w5)\<lparr>ac_sk := b, ac_out := []\<rparr>" by (simp_all only: w6 fst_conv snd_conv)
  then obtain b where c6: "ch w6 = (ch w5)\<lparr>ac_sk := b, ac_out := []\<rparr>" by blast
  have "ch w7 = clock_edge (clock_edge (ch (g_out g (eesk p) 0 w6)))"
    unfolding w7_def by (rule adclk_chip [OF ok]) (simp_all add: chip_out [OF ok(1)] out_sk [OF ok(2)] c6 c5 c4 c3 c2 c1)
  also have "ch (g_out g (eesk p) 0 w6) = (ch w6)\<lparr>ac_sk := False\<rparr>" unfolding chip_out [OF ok(1)] out_sk [OF ok(2)] ..
  also have "clock_edge (clock_edge ((ch w6)\<lparr>ac_sk := False\<rparr>)) = (ch w6)\<lparr>ac_sk := False, ac_ones := 2\<rparr>"
    by (subst released_edges) (simp_all add: c6 c5 c4 c3 c2 cs_line_def)
  finally have c7: "ch w7 = (ch w6)\<lparr>ac_sk := False, ac_ones := 2\<rparr>" .
  have "ch (snd (adm_rreg g p table addr w)) = (ch w7)\<lparr>ac_cse := False, ac_ske := False\<rparr>"
    unfolding e snd_conv by (rule disout_chip(3) [OF ok]) (simp_all add: c7 c6 c5 c4 c3 c2 c1)
  then have "adm_idle (ch (snd (adm_rreg g p table addr w))) \<and> ac_regs (ch (snd (adm_rreg g p table addr w))) = ac_regs (ch w) \<and>
      ac_counts (ch (snd (adm_rreg g p table addr w))) = ac_counts (ch w)"
    using i by (simp add: c7 c6 c5 c4 c3 c2 c1 adm_idle_def)
  moreover have bys: "bytes ! 0 = ucast (drop_bit 24 ?v)" "bytes ! 1 = ucast (drop_bit 16 ?v)" "bytes ! 2 = ucast (drop_bit 8 ?v)" "bytes ! 3 = ucast ?v"
    unfolding rb(1) by (simp_all add: bits_byte_msb)
  ultimately show ?thesis unfolding e fst_conv bys bytes_word(1) unfolding bytes_word(2,3) by simp
qed

lemma adm_rreg_reg:
  assumes "adm_chip_ok g p ch" "pins_ok p" "adm_idle (ch w)" "addr < 128"
  shows "fst (adm_rreg g p 0 addr w) = ucast (ac_regs (ch w) addr)"
proof -
  have m: "(0xFFFF :: u32) = mask 16" by (simp add: mask_eq_exp_minus_1)
  have h: "drop_bit 16 (push_bit 16 (ucast a) OR ucast b :: u32) = ucast a" "(push_bit 16 (ucast a) OR ucast b :: u32) AND 0xFFFF = ucast b" for a b :: u16
    unfolding m by (rule bit_word_eqI; simp only: bit_and_iff bit_mask_iff bits_16 bit_ucast_iff bit_drop_bit_eq comp_apply; auto dest: bit_imp_le_length)+
  have "fst (adm_rreg g p 0 addr w) =
      (if addr AND 1 \<noteq> 0 then drop_bit 16 (answer_word (ch w) 0 addr) else answer_word (ch w) 0 addr AND 0xFFFF)"
    using adm_rreg_chip [OF assms(1-3), of 0 addr] by simp
  also have "answer_word (ch w) 0 addr = push_bit 16 (ucast (ac_regs (ch w) ((addr AND 126) + 1))) OR ucast (ac_regs (ch w) (addr AND 126))"
    unfolding answer_word_def by (subst if_not_P) simp_all
  also have "(if addr AND 1 \<noteq> 0 then drop_bit 16 (push_bit 16 (ucast (ac_regs (ch w) ((addr AND 126) + 1))) OR ucast (ac_regs (ch w) (addr AND 126)) :: u32)
      else (push_bit 16 (ucast (ac_regs (ch w) ((addr AND 126) + 1))) OR ucast (ac_regs (ch w) (addr AND 126))) AND 0xFFFF) =
      ucast (ac_regs (ch w) (if addr AND 1 \<noteq> 0 then (addr AND 126) + 1 else addr AND 126))"
    unfolding h by simp
  finally show ?thesis using reg_pairs [OF assms(4)] by simp
qed

section \<open>The register file\<close>

text \<open>C16: On three different pins among the first eight, the frames that the driver clocks out bit by bit make a chip that
  knows only levels and edges work as a file of registers: after a write of a register, a read of any of the first 128
  returns the value written or, for another register, its old contents; a counter is read in full; and after every
  operation the lines are released with no frame under way.\<close>

theorem adm_register_file:
  assumes "adm_chip_ok g p ch" "pins_ok p" "adm_idle (ch w)" "a < 128"
  shows "fst (adm_rreg g p 0 a (adm_wreg g p addr val w)) = ucast (if a = addr then val else ac_regs (ch w) a) \<and>
    fst (adm_rreg g p 1 a (adm_wreg g p addr val w)) = ac_counts (ch w) (a AND 126) \<and>
    adm_idle (ch (adm_wreg g p addr val w)) \<and> adm_idle (ch (snd (adm_rreg g p 0 a (adm_wreg g p addr val w))))"
proof -
  note wr = adm_wreg_chip [OF assms(1-3), of addr val]
  then have i: "adm_idle (ch (adm_wreg g p addr val w))" by simp
  have "bit (1 :: u8) 0" by simp
  then have c: "answer_word c 1 a = ac_counts c (a AND 126)" for c unfolding answer_word_def by (simp only: if_True)
  show ?thesis using adm_rreg_reg [OF assms(1,2) i assms(4)] adm_rreg_chip [OF assms(1,2) i, of 1 a] adm_rreg_chip [OF assms(1,2) i, of 0 a] wr
    by (simp add: c)
qed

text \<open>A simulated chip on the default pins.\<close>

definition sim_pins :: adm_pins where
  "sim_pins = \<lparr>eecs = 4, eesk = 8, eedi = 16, eerc = 0\<rparr>"

definition sim_gpio :: "adm_chip gpio" where
  "sim_gpio = \<lparr>g_out = pins_out sim_pins, g_outen = pins_enable sim_pins, g_in = \<lambda>c. (if di_line c then 16 else 0, c)\<rparr>"

definition sim_adm :: adm_chip where
  "sim_adm = \<lparr>ac_cs = False, ac_sk = False, ac_di = False, ac_cse = False, ac_ske = False, ac_die = False, ac_frame = [],
     ac_ones = 0, ac_cmd = None, ac_out = [], ac_regs = \<lambda>a. if a = 0x11 then 0xFF00 else 0, ac_counts = \<lambda>_. 7\<rparr>"

lemma sim_adm_ok: "adm_chip_ok sim_gpio sim_pins (\<lambda>c. c)" "pins_ok sim_pins" "adm_idle sim_adm"
  by (auto simp: adm_chip_ok_def sim_gpio_def pins_ok_def sim_pins_def adm_idle_def sim_adm_def)

theorem adm_register_file_witness:
  "fst (adm_rreg sim_gpio sim_pins 0 0x13 (adm_wreg sim_gpio sim_pins 0x13 0x155 sim_adm)) = 0x155 \<and>
    fst (adm_rreg sim_gpio sim_pins 0 0x11 (adm_wreg sim_gpio sim_pins 0x13 0x155 sim_adm)) = 0xFF00"
proof -
  have a: "(0x13 :: u8) < 128" "(0x11 :: u8) < 128" by simp_all
  show ?thesis using adm_register_file [OF sim_adm_ok a(1), of "0x13" "0x155"] adm_register_file [OF sim_adm_ok a(2), of "0x13" "0x155"]
    by (simp add: sim_adm_def)
qed

end
