(* ===== verification/SwitchAdmVlan.thy ===== *)
theory SwitchAdmVlan
  imports SwitchAdmChip
begin

text \<open>
  The VLAN files of the ADM6996 driver keep the contract \<open>vlan_switch\<close> on the register file of the chip.
\<close>

section \<open>The registers of VLANs and ports\<close>

definition map_bit :: "nat \<Rightarrow> nat" where
  "map_bit i = [0, 2, 4, 6, 7, 8] ! i"

definition vlan_reg :: "nat \<Rightarrow> u8" where
  "vlan_reg nr = 0x13 + of_nat nr"

definition pvid_field :: "u32 \<Rightarrow> u32" where
  "pvid_field v = drop_bit 10 (v AND push_bit 10 0xF)"

lemma port_tables:
  "list_all (\<lambda>i. vlan_ports ! i = push_bit (map_bit i) 1 \<and> map_bit i < 16 \<and> port_conf ! i < 128) [0..<6]"
  "list_all (\<lambda>i. list_all (\<lambda>j. (map_bit i = map_bit j) = (i = j) \<and> (port_conf ! i = port_conf ! j) = (i = j)) [0..<6]) [0..<6]"
  "list_all (\<lambda>nr. vlan_reg nr < 128 \<and> list_all (\<lambda>i. vlan_reg nr \<noteq> port_conf ! i) [0..<6] \<and>
     list_all (\<lambda>k. (vlan_reg nr = vlan_reg k) = (nr = k)) [0..<16]) [0..<16]"
  by code_simp+

lemma port_table:
  assumes "i < 6"
  shows "vlan_ports ! i = push_bit (map_bit i) 1" "map_bit i < 16" "port_conf ! i < 128"
    "j < 6 \<Longrightarrow> (map_bit i = map_bit j) = (i = j)" "j < 6 \<Longrightarrow> (port_conf ! i = port_conf ! j) = (i = j)"
  using port_tables(1,2) assms unfolding list_all_iff by (simp_all only: set_upt atLeastLessThan_iff) auto

lemma vlan_table:
  assumes "nr < 16"
  shows "vlan_reg nr < 128" "i < 6 \<Longrightarrow> vlan_reg nr \<noteq> port_conf ! i" "k < 16 \<Longrightarrow> (vlan_reg nr = vlan_reg k) = (nr = k)"
  using port_tables(3) assms unfolding list_all_iff by (simp_all only: set_upt atLeastLessThan_iff) auto

lemma and_port: "i < 6 \<Longrightarrow> (v AND vlan_ports ! i \<noteq> 0) = bit (v :: u32) (map_bit i)"
  by (simp add: port_table(1) and_exp_eq_0_iff_not_bit)

definition adm_mem :: "adm_chip \<Rightarrow> nat \<Rightarrow> nat \<Rightarrow> bool" where
  "adm_mem c nr j \<longleftrightarrow> bit (ac_regs c (vlan_reg nr)) (map_bit j)"

definition adm_tag :: "adm_chip \<Rightarrow> nat \<Rightarrow> bool" where
  "adm_tag c j \<longleftrightarrow> bit (ac_regs c (port_conf ! j)) 4"

definition adm_dft :: "adm_chip \<Rightarrow> nat \<Rightarrow> nat \<Rightarrow> bool" where
  "adm_dft c nr j \<longleftrightarrow> pvid_field (ucast (ac_regs c (port_conf ! j))) = of_nat nr"

definition same_adm :: "adm_chip \<Rightarrow> adm_chip \<Rightarrow> bool" where
  "same_adm c c' \<longleftrightarrow> adm_idle c' \<and> ac_regs c' = ac_regs c"

lemma rreg_same:
  assumes "adm_chip_ok g p ch" "pins_ok p" "adm_idle (ch w)" "addr < 128" "adm_rreg g p 0 addr w = (v, w')"
  shows "v = ucast (ac_regs (ch w) addr)" "same_adm (ch w) (ch w')"
  using adm_rreg_reg [OF assms(1-4)] adm_rreg_chip [OF assms(1-3), of 0 addr] assms(5) by (simp_all add: same_adm_def)

section \<open>Reading a VLAN\<close>

lemma adm_text_chip:
  assumes "adm_chip_ok g p ch" "pins_ok p"
  shows "adm_idle (ch w) \<Longrightarrow> list_all (\<lambda>i. i < 6) js \<Longrightarrow> adm_ports_text g p nr ports js w = (t, w') \<Longrightarrow>
    t = concat (List.map (\<lambda>j. if bit ports (map_bit j) then dec j @ flag_text (adm_tag (ch w)) (adm_dft (ch w) nr) j @ [TAB] else []) js) \<and>
    same_adm (ch w) (ch w')"
proof (induction js arbitrary: w t w')
  case Nil
  then show ?case by (simp add: same_adm_def)
next
  case (Cons j js)
  have j: "j < 6" "list_all (\<lambda>i. i < 6) js" using Cons.prems(2) by simp_all
  show ?case
  proof (cases "bit ports (map_bit j)")
    case True
    obtain c w1 where c: "adm_rreg g p 0 (port_conf ! j) w = (c, w1)" by force
    note r = rreg_same [OF assms Cons.prems(1) port_table(3) [OF j(1)] c]
    obtain rest w2 where rest: "adm_ports_text g p nr ports js w1 = (rest, w2)" by force
    have i1: "adm_idle (ch w1)" "ac_regs (ch w1) = ac_regs (ch w)" using r(2) by (simp_all add: same_adm_def)
    note ih = Cons.IH [OF i1(1) j(2) rest]
    have b: "bit c 4 = adm_tag (ch w) j" "(drop_bit 10 (c AND push_bit 10 0xF) = of_nat nr) = adm_dft (ch w) nr j"
      unfolding r(1) adm_tag_def adm_dft_def pvid_field_def by (simp_all add: bit_ucast_iff)
    have tg: "adm_tag (ch w1) = adm_tag (ch w)" "adm_dft (ch w1) nr = adm_dft (ch w) nr" using i1(2) by (auto simp: adm_tag_def adm_dft_def fun_eq_iff)
    define fl where "fl = (if bit c 4 then LOWER_T # (if drop_bit 10 (c AND push_bit 10 0xF) = of_nat nr then [ASTERISK] else [])
      else if j = 5 then [LOWER_U] else [])"
    have "fl = flag_text (adm_tag (ch w)) (adm_dft (ch w) nr) j" unfolding fl_def b flag_text_def ..
    moreover have "adm_ports_text g p nr ports (j # js) w = (dec j @ fl @ [TAB] @ rest, w2)"
      using True c rest and_port [OF j(1), of ports] unfolding adm_ports_text.simps Let_def fl_def by simp
    ultimately have tw: "t = dec j @ flag_text (adm_tag (ch w)) (adm_dft (ch w) nr) j @ [TAB] @ rest" "w' = w2"
      using Cons.prems(3) by simp_all
    show ?thesis using ih True i1(2) unfolding tw tg by (simp add: same_adm_def)
  next
    case False
    then show ?thesis using Cons.IH [OF Cons.prems(1) j(2), of t w'] Cons.prems(3) and_port [OF j(1), of ports] by simp
  qed
qed

lemma adm_read_vlan:
  assumes "adm_chip_ok g p ch" "pins_ok p" "adm_idle (ch w)" "nr < 16"
  shows "\<exists>w'. adm_vlan_port_read g p nr w = (vlan_line (adm_mem (ch w) nr) (adm_tag (ch w)) (adm_dft (ch w) nr), w') \<and> same_adm (ch w) (ch w')"
proof -
  obtain v w1 where v: "adm_rreg g p 0 (vlan_reg nr) w = (v, w1)" by force
  note r = rreg_same [OF assms(1-3) vlan_table(1) [OF assms(4)] v]
  have i1: "adm_idle (ch w1)" "ac_regs (ch w1) = ac_regs (ch w)" using r(2) by (simp_all add: same_adm_def)
  have js: "list_all (\<lambda>i. i < 6) [0..<6]" by (simp add: list_all_iff)
  obtain t w2 where t: "adm_ports_text g p nr v [0..<6] w1 = (t, w2)" by force
  note x = adm_text_chip [OF assms(1,2) i1(1) js t]
  have lt: "map_bit j < 32" if "j < 6" for j using port_table(2) [OF that] by simp
  have "t @ [LF] = vlan_line (\<lambda>j. bit v (map_bit j)) (adm_tag (ch w1)) (adm_dft (ch w1) nr)"
    using x unfolding vlan_line_def by (simp only:)
  also have "\<dots> = vlan_line (adm_mem (ch w) nr) (adm_tag (ch w)) (adm_dft (ch w) nr)"
    by (rule vlan_line_cong) (use lt i1(2) in \<open>auto simp: r(1) adm_mem_def adm_tag_def adm_dft_def bit_ucast_iff\<close>)
  finally have "t @ [LF] = vlan_line (adm_mem (ch w) nr) (adm_tag (ch w)) (adm_dft (ch w) nr)" .
  moreover have "adm_vlan_port_read g p nr w = (t @ [LF], w2)"
    using assms(4) v t unfolding adm_vlan_port_read_def vlan_reg_def by simp
  ultimately show ?thesis using x i1 by (auto simp: same_adm_def)
qed

section \<open>Writing a VLAN\<close>

lemma bit_pvid_field: "bit (pvid_field v) k \<longleftrightarrow> k < 4 \<and> bit v (10 + k)"
proof -
  have "(0xF :: u32) = mask 4" by (simp add: mask_eq_exp_minus_1)
  then have "bit (push_bit 10 (0xF :: u32)) (10 + k) = (k < 4)" by (simp only: bit_push_bit_iff bit_mask_iff possible_bit_word) auto
  then show ?thesis unfolding pvid_field_def bit_drop_bit_eq comp_apply bit_and_iff by blast
qed

lemma bit_small_nat: "nr < 16 \<Longrightarrow> bit (of_nat nr :: u32) k \<Longrightarrow> k < 4"
proof -
  assume a: "nr < 16" "bit (of_nat nr :: u32) k"
  have "list_all (\<lambda>n. take_bit 4 (of_nat n :: u32) = of_nat n) [0..<16]" by code_simp
  then have "take_bit 4 (of_nat nr :: u32) = of_nat nr" using a(1) unfolding list_all_iff by (simp only: set_upt atLeastLessThan_iff) auto
  then show "k < 4" using a(2) by (metis bit_take_bit_iff)
qed

lemma unsigned_16: "(ucast (ucast (v :: u32) :: u16) :: u32) = take_bit 16 v"
  by (rule bit_word_eqI) (auto simp: bit_ucast_iff bit_take_bit_iff)

lemma port_cfg_fields:
  assumes "nr < 16"
  shows "bit (ucast (port_cfg nr c i cfg) :: u16) 4 = (\<not> bit (vc_untag c) i)"
    "pvid_field (ucast (ucast (port_cfg nr c i cfg) :: u16)) = (if bit (vc_untag c OR vc_pvid c) i then of_nat nr else pvid_field cfg)"
proof -
  have f: "(0xF :: u32) = mask 4" by (simp add: mask_eq_exp_minus_1)
  have f10: "bit (push_bit 10 (0xF :: u32)) k \<longleftrightarrow> 10 \<le> k \<and> k < 14" for k
    unfolding f bit_push_bit_iff bit_mask_iff possible_bit_word by auto
  define d where "d = (if bit (vc_untag c) i then cfg AND NOT (push_bit 4 1) else cfg OR push_bit 4 1)"
  have d: "bit d k \<longleftrightarrow> (if k = 4 then \<not> bit (vc_untag c) i else bit cfg k)" if "k < 32" for k
  proof -
    have s: "bit (push_bit 4 (1 :: u32)) k \<longleftrightarrow> k = 4" unfolding bit_push_bit_iff bit_1_iff using that by auto
    show ?thesis
    proof (cases "bit (vc_untag c) i")
      case True
      show ?thesis unfolding d_def if_P [OF True] bit_and_iff bit_not_iff s using that True by auto
    next
      case False
      show ?thesis unfolding d_def if_not_P [OF False] bit_or_iff s using False by auto
    qed
  qed
  have e: "port_cfg nr c i cfg = (if bit (vc_untag c OR vc_pvid c) i then d AND NOT (push_bit 10 0xF) OR push_bit 10 (of_nat nr) else d)"
    by (simp only: port_cfg_def d_def Let_def)
  have n: "\<not> bit (push_bit 10 (of_nat nr :: u32)) 4" unfolding bit_push_bit_iff by simp
  have b: "bit (port_cfg nr c i cfg) k \<longleftrightarrow>
      (if bit (vc_untag c OR vc_pvid c) i \<and> 10 \<le> k \<and> k < 14 then bit (of_nat nr :: u32) (k - 10) else bit d k)" if "k < 32" for k
  proof (cases "bit (vc_untag c OR vc_pvid c) i")
    case True
    have "bit (push_bit 10 (of_nat nr :: u32)) k \<longleftrightarrow> 10 \<le> k \<and> bit (of_nat nr :: u32) (k - 10)" using that unfolding bit_push_bit_iff by simp
    then have p: "bit (push_bit 10 (of_nat nr :: u32)) k \<longleftrightarrow> 10 \<le> k \<and> k < 14 \<and> bit (of_nat nr :: u32) (k - 10)"
      using bit_small_nat [OF assms, of "k - 10"] by auto
    have e2: "port_cfg nr c i cfg = d AND NOT (push_bit 10 0xF) OR push_bit 10 (of_nat nr)" by (simp only: e if_P [OF True])
    have "bit (port_cfg nr c i cfg) k = (bit d k \<and> \<not> (10 \<le> k \<and> k < 14) \<or> 10 \<le> k \<and> k < 14 \<and> bit (of_nat nr :: u32) (k - 10))"
      using that unfolding e2 bit_or_iff bit_and_iff bit_not_iff f10 p by simp
    then show ?thesis using True by auto
  next
    case False
    then show ?thesis unfolding e by simp
  qed
  show "bit (ucast (port_cfg nr c i cfg) :: u16) 4 = (\<not> bit (vc_untag c) i)" using b [of 4] d [of 4] by (simp add: bit_ucast_iff)
  show "pvid_field (ucast (ucast (port_cfg nr c i cfg) :: u16)) = (if bit (vc_untag c OR vc_pvid c) i then of_nat nr else pvid_field cfg)"
  proof (rule bit_word_eqI)
    fix k assume "k < LENGTH(32)"
    show "bit (pvid_field (ucast (ucast (port_cfg nr c i cfg) :: u16))) k = bit (if bit (vc_untag c OR vc_pvid c) i then of_nat nr else pvid_field cfg) k"
    proof (cases "k < 4")
      case True
      then have "bit (pvid_field (ucast (ucast (port_cfg nr c i cfg) :: u16))) k = bit (port_cfg nr c i cfg) (10 + k)"
        unfolding bit_pvid_field unsigned_16 bit_take_bit_iff by auto
      also have "\<dots> = (if bit (vc_untag c OR vc_pvid c) i then bit (of_nat nr :: u32) k else bit cfg (10 + k))"
        using True b [of "10 + k"] d [of "10 + k"] by (simp split: if_splits)
      finally show ?thesis using True by (auto simp: bit_pvid_field)
    next
      case False
      then show ?thesis using bit_small_nat [OF assms, of k] by (auto simp: bit_pvid_field)
    qed
  qed
qed

text \<open>The loop over the ports, on the registers.\<close>

definition ports_map :: "vlan_config \<Rightarrow> nat list \<Rightarrow> u32 \<Rightarrow> u32" where
  "ports_map c js P = fold (\<lambda>i P. if bit (vc_port c) i then P OR vlan_ports ! i else P AND NOT (vlan_ports ! i)) js P"

definition ports_regs :: "nat \<Rightarrow> vlan_config \<Rightarrow> nat list \<Rightarrow> (u8 \<Rightarrow> u16) \<Rightarrow> u8 \<Rightarrow> u16" where
  "ports_regs nr c js R =
     fold (\<lambda>i R. if bit (vc_port c) i then R(port_conf ! i := ucast (port_cfg nr c i (ucast (R (port_conf ! i))))) else R) js R"

lemma write_ports_chip:
  assumes "adm_chip_ok g p ch" "pins_ok p"
  shows "adm_idle (ch w) \<Longrightarrow> list_all (\<lambda>i. i < 6) js \<Longrightarrow> write_ports g p nr c js P w = (P', w') \<Longrightarrow>
    P' = ports_map c js P \<and> adm_idle (ch w') \<and> ac_regs (ch w') = ports_regs nr c js (ac_regs (ch w))"
proof (induction js arbitrary: w P)
  case Nil
  then show ?case by (simp add: ports_map_def ports_regs_def)
next
  case (Cons j js)
  have j: "j < 6" "list_all (\<lambda>i. i < 6) js" using Cons.prems(2) by simp_all
  show ?case
  proof (cases "bit (vc_port c) j")
    case True
    obtain v w1 where v: "adm_rreg g p 0 (port_conf ! j) w = (v, w1)" by force
    note r = rreg_same [OF assms Cons.prems(1) port_table(3) [OF j(1)] v]
    let ?w = "adm_wreg g p (port_conf ! j) (ucast (port_cfg nr c j v)) w1"
    have i1: "adm_idle (ch w1)" "ac_regs (ch w1) = ac_regs (ch w)" using r(2) by (simp_all add: same_adm_def)
    note wr = adm_wreg_chip [OF assms i1(1), of "port_conf ! j" "ucast (port_cfg nr c j v)"]
    have "write_ports g p nr c js (P OR vlan_ports ! j) ?w = (P', w')" using Cons.prems(3) True v by (simp add: Let_def)
    then show ?thesis using Cons.IH [OF _ j(2), of ?w] wr True by (simp add: ports_map_def ports_regs_def i1(2) r(1))
  next
    case False
    then have "write_ports g p nr c js (P AND NOT (vlan_ports ! j)) w = (P', w')" using Cons.prems(3) by simp
    then show ?thesis using Cons.IH [OF Cons.prems(1) j(2)] False by (simp add: ports_map_def ports_regs_def)
  qed
qed

lemma ports_map_bits:
  assumes "list_all (\<lambda>i. i < 6) js" "j < 6"
  shows "bit (ports_map c js P) (map_bit j) = (if j \<in> set js then bit (vc_port c) j else bit P (map_bit j))"
  using assms(1)
proof (induction js rule: rev_induct)
  case (snoc i js)
  then have i: "i < 6" by simp
  have s: "bit (vlan_ports ! i) (map_bit j) = (i = j)"
    unfolding port_table(1) [OF i] bit_push_bit_iff bit_1_iff port_table(4) [OF i assms(2), symmetric]
    using port_table(2) [OF assms(2)] by auto
  have l: "map_bit j < 32" using port_table(2) [OF assms(2)] by simp
  show ?case
  proof (cases "bit (vc_port c) i")
    case True
    then have "ports_map c (js @ [i]) P = ports_map c js P OR vlan_ports ! i" by (simp add: ports_map_def)
    then show ?thesis using snoc True by (auto simp: bit_or_iff s)
  next
    case False
    then have "ports_map c (js @ [i]) P = ports_map c js P AND NOT (vlan_ports ! i)" by (simp add: ports_map_def)
    then show ?thesis using snoc False l by (auto simp: bit_and_iff bit_not_iff s)
  qed
qed (simp add: ports_map_def)

lemma ports_regs_other: "list_all (\<lambda>i. a \<noteq> port_conf ! i) js \<Longrightarrow> ports_regs nr c js R a = R a"
  by (induction js rule: rev_induct) (auto simp: ports_regs_def)

lemma ports_regs_port:
  assumes "list_all (\<lambda>i. i < 6) js" "distinct js" "j < 6"
  shows "ports_regs nr c js R (port_conf ! j) =
    (if j \<in> set js \<and> bit (vc_port c) j then ucast (port_cfg nr c j (ucast (R (port_conf ! j)))) else R (port_conf ! j))"
  using assms(1,2)
proof (induction js rule: rev_induct)
  case (snoc i js)
  have i: "i < 6" "i \<notin> set js" and ih: "ports_regs nr c js R (port_conf ! j) =
      (if j \<in> set js \<and> bit (vc_port c) j then ucast (port_cfg nr c j (ucast (R (port_conf ! j)))) else R (port_conf ! j))"
    using snoc by auto
  have e: "ports_regs nr c (js @ [i]) R = (if bit (vc_port c) i
      then (ports_regs nr c js R)(port_conf ! i := ucast (port_cfg nr c i (ucast (ports_regs nr c js R (port_conf ! i))))) else ports_regs nr c js R)"
    by (simp add: ports_regs_def)
  show ?case using ih i port_table(5) [OF assms(3) i(1)] unfolding e by auto
qed (simp add: ports_regs_def)

lemma adm_write_vlan:
  assumes "adm_chip_ok g p ch" "pins_ok p" "adm_idle (ch w)" "nr < 16" "sd_ports d = 6" "switch_parse_vlan d True buf = Some (Some c)"
  shows "\<exists>w'. adm_vlan_port_write g p d True buf nr w = Some (0, w') \<and> adm_idle (ch w') \<and>
    (\<forall>j < 6. adm_mem (ch w') nr j = bit (vc_port c) j \<and> (bit (vc_port c) j \<longrightarrow> adm_tag (ch w') j = (\<not> bit (vc_untag c) j)) \<and>
       adm_dft (ch w') nr j = (bit (vc_untag c OR vc_pvid c) j \<or> adm_dft (ch w) nr j)) \<and>
    (\<forall>k < 16. k \<noteq> nr \<longrightarrow> (\<forall>j < 6. adm_mem (ch w') k j = adm_mem (ch w) k j))"
proof -
  have sub: "bit (vc_untag c OR vc_pvid c) j \<Longrightarrow> bit (vc_port c) j" for j
    using parse_vlan_wf(1) [OF assms(6)] by (auto simp: vlan_ok_def and_eq_bits bit_or_iff)
  have js: "list_all (\<lambda>i. i < 6) [0..<6]" "distinct [0..<6]" "set [0..<6] = {..<6}" by (auto simp: list_all_iff)
  obtain P w1 where P: "adm_rreg g p 0 (vlan_reg nr) w = (P, w1)" by force
  note r = rreg_same [OF assms(1-3) vlan_table(1) [OF assms(4)] P]
  have i1: "adm_idle (ch w1)" "ac_regs (ch w1) = ac_regs (ch w)" using r(2) by (simp_all add: same_adm_def)
  obtain P' w2 where w2: "write_ports g p nr c [0..<6] P w1 = (P', w2)" by force
  note wp = write_ports_chip [OF assms(1,2) i1(1) js(1) w2]
  define w3 where "w3 = adm_wreg g p (vlan_reg nr) (ucast P') w2"
  have i2: "adm_idle (ch w2)" using wp by simp
  have R: "ac_regs (ch w3) = (ports_regs nr c [0..<6] (ac_regs (ch w)))(vlan_reg nr := ucast P')" and i3: "adm_idle (ch w3)"
    using adm_wreg_chip [OF assms(1,2) i2, of "vlan_reg nr" "ucast P'"] wp i1(2) by (simp_all add: w3_def)
  have "adm_vlan_port_write g p d True buf nr w = Some (0, w3)"
    using P w2 unfolding adm_vlan_port_write_def assms(5,6) w3_def vlan_reg_def by (simp add: port_conf_def)
  moreover have "adm_mem (ch w3) nr j = bit (vc_port c) j" if "j < 6" for j
    using that port_table(2) [OF that] ports_map_bits [OF js(1) that, of c P] wp js(3)
    by (simp add: adm_mem_def R bit_ucast_iff del: set_upt)
  moreover have reg: "ac_regs (ch w3) (port_conf ! j) =
      (if bit (vc_port c) j then ucast (port_cfg nr c j (ucast (ac_regs (ch w) (port_conf ! j)))) else ac_regs (ch w) (port_conf ! j))" if "j < 6" for j
    using ports_regs_port [OF js(1,2) that, of nr c "ac_regs (ch w)"] vlan_table(2) [OF assms(4) that] that js(3) by (simp add: R del: set_upt)
  moreover have "adm_tag (ch w3) j = (\<not> bit (vc_untag c) j)" if "j < 6" "bit (vc_port c) j" for j
    using reg [OF that(1)] that(2) port_cfg_fields(1) [OF assms(4)] by (simp add: adm_tag_def)
  moreover have "adm_dft (ch w3) nr j = (bit (vc_untag c OR vc_pvid c) j \<or> adm_dft (ch w) nr j)" if "j < 6" for j
  proof (cases "bit (vc_port c) j")
    case True
    have "adm_dft (ch w3) nr j = ((if bit (vc_untag c OR vc_pvid c) j then of_nat nr else pvid_field (ucast (ac_regs (ch w) (port_conf ! j)))) = of_nat nr)"
      unfolding adm_dft_def reg [OF that] if_P [OF True] port_cfg_fields(2) [OF assms(4)] ..
    then show ?thesis by (auto simp: adm_dft_def)
  next
    case False
    then have "\<not> bit (vc_untag c OR vc_pvid c) j" using sub by blast
    then show ?thesis using False unfolding adm_dft_def reg [OF that] by simp
  qed
  moreover have "adm_mem (ch w3) k j = adm_mem (ch w) k j" if "k < 16" "k \<noteq> nr" "j < 6" for k j
  proof -
    have "list_all (\<lambda>i. vlan_reg k \<noteq> port_conf ! i) [0..<6]" using vlan_table(2) [OF that(1)] js(3) by (simp add: list_all_iff del: set_upt)
    from ports_regs_other [OF this, of nr c "ac_regs (ch w)"] show ?thesis
      using vlan_table(3) [OF that(1) assms(4)] that(2) by (simp add: adm_mem_def R)
  qed
  ultimately show ?thesis using i3 by (intro exI [of _ w3] conjI) (blast+)
qed

section \<open>The contract of the VLAN files\<close>

type_synonym 'w adm_sys = "'w gpio \<times> adm_pins \<times> ('w \<Rightarrow> adm_chip) \<times> 'w"

fun adm_wr :: "cstr \<Rightarrow> nat \<Rightarrow> 'w adm_sys \<Rightarrow> (int \<times> 'w adm_sys) option" where
  "adm_wr buf nr (g, p, ch, w) = map_option (\<lambda>(r, w). (r, (g, p, ch, w))) (adm_vlan_port_write g p adm_driver True buf nr w)"

fun adm_rd :: "nat \<Rightarrow> 'w adm_sys \<Rightarrow> cstr \<times> 'w adm_sys" where
  "adm_rd nr (g, p, ch, w) = (let (t, w) = adm_vlan_port_read g p nr w in (t, (g, p, ch, w)))"

fun adm_inv :: "'w adm_sys \<Rightarrow> bool" where
  "adm_inv (g, p, ch, w) = (adm_chip_ok g p ch \<and> pins_ok p \<and> adm_idle (ch w))"

fun asys_mem :: "'w adm_sys \<Rightarrow> nat \<Rightarrow> nat \<Rightarrow> bool" where
  "asys_mem (g, p, ch, w) = adm_mem (ch w)"

fun asys_tag :: "'w adm_sys \<Rightarrow> nat \<Rightarrow> nat \<Rightarrow> bool" where
  "asys_tag (g, p, ch, w) = (\<lambda>_. adm_tag (ch w))"

fun asys_dft :: "'w adm_sys \<Rightarrow> nat \<Rightarrow> nat \<Rightarrow> bool" where
  "asys_dft (g, p, ch, w) = adm_dft (ch w)"

lemma adm_driver_simps: "sd_ports adm_driver = 6" "sd_cpuport adm_driver = 5" "sd_vlans adm_driver = 16"
  by (simp_all add: adm_driver_def)

interpretation adm: vlan_switch adm_driver adm_wr adm_rd adm_inv "\<lambda>_ _. True" asys_mem asys_tag asys_dft
proof
  show "sd_ports adm_driver = 6" "sd_cpuport adm_driver = 5" by (simp_all add: adm_driver_simps)
next
  fix s :: "'w adm_sys" and nr buf c
  assume a: "adm_inv s" "nr < sd_vlans adm_driver" "switch_parse_vlan adm_driver True buf = Some (Some c)"
  obtain g p ch w where s: "s = (g, p, ch, w)" by (cases s)
  have h: "adm_chip_ok g p ch" "pins_ok p" "adm_idle (ch w)" "nr < 16" using a s by (simp_all add: adm_driver_simps)
  from adm_write_vlan [OF h adm_driver_simps(1) a(3)] obtain w' where
    w': "adm_vlan_port_write g p adm_driver True buf nr w = Some (0, w')" "adm_idle (ch w')"
      "\<forall>j < 6. adm_mem (ch w') nr j = bit (vc_port c) j \<and> (bit (vc_port c) j \<longrightarrow> adm_tag (ch w') j = (\<not> bit (vc_untag c) j)) \<and>
       adm_dft (ch w') nr j = (bit (vc_untag c OR vc_pvid c) j \<or> adm_dft (ch w) nr j)"
      "\<forall>k < 16. k \<noteq> nr \<longrightarrow> (\<forall>j < 6. adm_mem (ch w') k j = adm_mem (ch w) k j)" by blast
  show "\<exists>s'. adm_wr buf nr s = Some (0, s') \<and> adm_inv s' \<and> True \<and> (\<forall>j < 6. asys_mem s' nr j = bit (vc_port c) j) \<and>
        (\<forall>j < 6. bit (vc_port c) j \<longrightarrow> asys_tag s' nr j = (\<not> bit (vc_untag c) j)) \<and>
        (\<forall>j < 6. asys_dft s' nr j = (bit (vc_untag c OR vc_pvid c) j \<or> asys_dft s nr j)) \<and>
        (\<forall>k < sd_vlans adm_driver. k \<noteq> nr \<longrightarrow> True = True \<and> (\<forall>j < 6. asys_mem s' k j = asys_mem s k j))"
    using w' h by (intro exI [of _ "(g, p, ch, w')"]) (simp add: s adm_driver_simps)
next
  fix s :: "'w adm_sys" and nr
  assume a: "adm_inv s" "nr < sd_vlans adm_driver"
  obtain g p ch w where s: "s = (g, p, ch, w)" by (cases s)
  have h: "adm_chip_ok g p ch" "pins_ok p" "adm_idle (ch w)" "nr < 16" using a s by (simp_all add: adm_driver_simps)
  from adm_read_vlan [OF h] obtain w' where
    w': "adm_vlan_port_read g p nr w = (vlan_line (adm_mem (ch w) nr) (adm_tag (ch w)) (adm_dft (ch w) nr), w')" "same_adm (ch w) (ch w')" by blast
  have f: "adm_mem (ch w') = adm_mem (ch w)" "adm_tag (ch w') = adm_tag (ch w)" "adm_dft (ch w') = adm_dft (ch w)"
    using w'(2) by (simp_all add: same_adm_def adm_mem_def adm_tag_def adm_dft_def fun_eq_iff)
  show "\<exists>s'. adm_rd nr s = (if True then vlan_line (asys_mem s nr) (asys_tag s nr) (asys_dft s nr) else [], s') \<and> adm_inv s' \<and>
        (\<forall>k < sd_vlans adm_driver. True = True \<and>
          (\<forall>j < 6. asys_mem s' k j = asys_mem s k j \<and> asys_tag s' k j = asys_tag s k j \<and> asys_dft s' k j = asys_dft s k j))"
    using w' h by (intro exI [of _ "(g, p, ch, w')"]) (simp add: s f same_adm_def)
qed

text \<open>C2: On an ADM6996 behind three of the first eight pins, a text that parses and is written to the file of a VLAN is
  stored bit by bit through the serial line, and the line then read parses to the same ports and the same untagged ports;
  its default ports are the tagged ones of the text that were given as default or were so before. The members of every other VLAN stay as they were.\<close>

theorem adm_vlan_roundtrip:
  assumes "adm_chip_ok g p ch" "pins_ok p" "adm_idle (ch w)" "nr < 16" "switch_parse_vlan adm_driver True buf = Some (Some c)"
  shows "\<exists>w1 w2 txt c'. adm_vlan_port_write g p adm_driver True buf nr w = Some (0, w1) \<and> adm_vlan_port_read g p nr w1 = (txt, w2) \<and>
    switch_parse_vlan adm_driver True txt = Some (Some c') \<and> vc_port c' = vc_port c \<and> vc_untag c' = vc_untag c \<and>
    vc_pvid c' = ports_word (\<lambda>j. bit (vc_port c) j \<and> \<not> bit (vc_untag c) j \<and> (bit (vc_pvid c) j \<or> adm_dft (ch w) nr j)) \<and>
    (\<forall>k. \<forall>j. k < 16 \<and> k \<noteq> nr \<and> j < 6 \<longrightarrow> adm_mem (ch w1) k j = adm_mem (ch w) k j)"
proof -
  have i: "adm_inv (g, p, ch, w)" and n: "nr < sd_vlans adm_driver" using assms by (simp_all add: adm_driver_simps)
  obtain s1 s2 ln c' where r: "adm_wr buf nr (g, p, ch, w) = Some (0, s1)" "adm_rd nr s1 = (ln, s2)" "adm_inv s2"
    "switch_parse_vlan adm_driver True ln = Some (Some c')" "vc_port c' = vc_port c" "vc_untag c' = vc_untag c"
    "vc_pvid c' = ports_word (\<lambda>j. bit (vc_port c) j \<and> \<not> bit (vc_untag c) j \<and> (bit (vc_pvid c) j \<or> adm_dft (ch w) nr j))"
    using adm.write_read [OF i n assms(5)] by auto
  have o: "asys_mem s1 k j = adm_mem (ch w) k j" if "k < 16" "k \<noteq> nr" "j < 6" for k j
    using adm.write_others [OF i n assms(5) r(1), of k j] that by (simp add: adm_driver_simps)
  obtain w1 where w1: "adm_vlan_port_write g p adm_driver True buf nr w = Some (0, w1)" "s1 = (g, p, ch, w1)" using r(1) by auto
  obtain t w2 where w2: "adm_vlan_port_read g p nr w1 = (t, w2)" by force
  have "t = ln" using r(2) by (auto simp: w1 w2)
  moreover have "\<forall>k. \<forall>j. k < 16 \<and> k \<noteq> nr \<and> j < 6 \<longrightarrow> adm_mem (ch w1) k j = adm_mem (ch w) k j" using o w1(2) by simp
  ultimately show ?thesis using w1(1) w2 r(4-) by blast
qed

theorem adm_vlan_roundtrip_witness:
  "\<exists>w1 w2 txt c'. adm_vlan_port_write sim_gpio sim_pins adm_driver True [0x30, 9, 0x31, 0x74, 0x2A, 9, 0x35, 0x74, 9, 10] 3 sim_adm = Some (0, w1) \<and>
    adm_vlan_port_read sim_gpio sim_pins 3 w1 = (txt, w2) \<and> switch_parse_vlan adm_driver True txt = Some (Some c') \<and>
    vc_port c' = 0x23 \<and> vc_untag c' = 1"
proof -
  have l: "vlan_line (\<lambda>j. j = 0 \<or> j = 1 \<or> j = 5) (\<lambda>j. j \<noteq> 0) (\<lambda>j. j = 1) = [0x30, 9, 0x31, 0x74, 0x2A, 9, 0x35, 0x74, 9, 10]"
    by code_simp
  have w: "ports_word (\<lambda>j. j = 0 \<or> j = 1 \<or> j = 5) = 0x23" "ports_word (\<lambda>j. (j = 0 \<or> j = 1 \<or> j = 5) \<and> \<not> j \<noteq> 0) = 1" by code_simp+
  note q = parse_vlan_line [OF adm_driver_simps(1,2), of "\<lambda>j. j = 0 \<or> j = 1 \<or> j = 5" "\<lambda>j. j \<noteq> 0" "\<lambda>j. j = 1", unfolded l w]
  have n: "(3 :: nat) < 16" by simp
  obtain w1 w2 ln c' where r: "adm_vlan_port_write sim_gpio sim_pins adm_driver True [0x30, 9, 0x31, 0x74, 0x2A, 9, 0x35, 0x74, 9, 10] 3 sim_adm = Some (0, w1)"
    "adm_vlan_port_read sim_gpio sim_pins 3 w1 = (ln, w2)"
    "switch_parse_vlan adm_driver True ln = Some (Some c')" "vc_port c' = 0x23" "vc_untag c' = 1"
    using adm_vlan_roundtrip [OF sim_adm_ok n q] unfolding vlan_config.select_convs by (elim exE conjE) (rule that)
  show ?thesis by (rule exI [of _ w1], rule exI [of _ w2], rule exI [of _ ln], rule exI [of _ c'], intro conjI) (rule r)+
qed

end
