(* ===== verification/Spec2Isabelle.thy ===== *)
theory Spec2Isabelle
  imports Prelude PktQueue BcmText BcmBuf BcmCrc BcmPower BcmPkt NvramDev DmaSend DmaRecv
    Sg17Run Sdfe4Run Firmware KdbList KdbSafe SwitchRoboChip SwitchAdmVlan
begin

text \<open>
  A verification library for FlyRouter, a firmware distribution for small routers. Most of the
  repository is build system, patches and third-party code; the library models drivers and
  libraries that the repository itself carries as C source, in seven groups.

  \<^bold>\<open>The bcmwl driver library\<close> (\<open>target/linux/package/bcmwl/src/driver\<close>, functions of \<open>bcmutils.c\<close> and macros of
  \<open>bcmutils.h\<close>) is what the wireless driver is built from.
  \<^item> \<open>PktQueue\<close>: the multi-precedence packet queue. Packets are linked through a store of link
    fields; \<open>qrep\<close> relates a queue to one list of packets per precedence. Every \<open>pktq_*\<close> operation
    is shown to act on these lists, to keep the counters and the precedence hint, and to dereference
    no null link. Loops that follow links are partial functions, with results shown to exist.
  \<^item> \<open>BcmText\<close>: the character classes, \<open>bcm_strtoul\<close> on NUL-terminated bytes with 32-bit wrap-around,
    and parsing and printing of Ethernet addresses. A read past the NUL is \<open>None\<close>.
  \<^item> \<open>BcmBuf\<close>: search in and stepping over tag-length-value elements, command buffers, bounded printing,
    the length checks of I/O variables and the error strings.
  \<^item> \<open>BcmCrc\<close>: the 32-bit checksum as compiled for MIPS (bytes up to a word boundary, words, bytes),
    against a bitwise checksum; the unsigned wrap for short counts is kept.
  \<^item> \<open>BcmPower\<close>: conversion between quarter-dBm and milliwatts and the bit count.
  \<^item> \<open>BcmPkt\<close>: copying from chains of packets, their lengths, and the priority of a frame with its
    VLAN tag.

  \<^bold>\<open>The NVRAM\<close> (\<open>target/linux/brcm-2.4/files/arch/mips/bcm947xx\<close>, \<open>nvram.c\<close>, \<open>nvram_linux.c\<close>,
  \<open>utils.c\<close>; \<open>package/nvram/src/nvram.c\<close>) keeps the configuration of the router as name=value pairs.
  \<^item> \<open>NvramHash\<close>: the hash table, its allocator (values are packed in a buffer of 32 KiB, names and tuples
    come from \<open>kmalloc\<close>, whose outcome is an argument), get, set, unset, listing.
  \<^item> \<open>NvramImage\<close>: the 8-bit checksum, generation of the image from the table (\<open>_nvram_commit\<close>),
    the table from the image (\<open>nvram_rehash\<close>), the set that retries after consolidating, and the
    read-only search used before the driver starts.
  \<^item> \<open>NvramFlash\<close>: \<open>nvram_commit\<close> over an MTD device. The device is a record of operations with
    documented behaviour as hypotheses; each may fail or write a prefix only.
  \<^item> \<open>NvramDev\<close>: the character device, the user-mode library on top of it, the early listing.

  \<^bold>\<open>The DMA engine\<close> (\<open>hnddma.c\<close>, \<open>sbhnddma.h\<close> of the bcmwl driver) moves packets between the
  queue above and the hardware, with a 32- and a 64-bit descriptor format.
  \<^item> \<open>DmaAttach\<close>: attach and detach over an allocator that can fail at any step.
  \<^item> \<open>DmaCtl\<close>: the state (registers, descriptor rings, packet pointers, indices) and all register
    operations. What the hardware answers while a loop polls a status is a function of the poll; the loops
    give up after 1000 polls as \<open>SPINWAIT\<close> does (10 ms in steps of 10 us).
  \<^item> \<open>DmaTx\<close>, \<open>DmaRecv\<close>: posting, reclaiming, rotating, receiving. Walks around a ring carry fuel;
    \<open>RING_FUEL\<close> is 512, no less than the largest ring, and the theorems show that it suffices.
  \<^item> \<open>Ring\<close> and \<open>DmaQueue\<close>: index arithmetic on rings, and the locale \<open>dd_engine\<close> with what the proofs
    need of a descriptor format (what writing, erasing and moving a descriptor does), interpreted for both
    formats; \<open>DmaSend\<close>: the locale \<open>tx_source\<close> for reclaiming and the properties of transmission.
    A ring is related to the list of its packets with their descriptors.

  \<^bold>\<open>The SHDSL card\<close> (\<open>package/sigrand-mr17h/mr17h-drv\<close>).
  \<^item> \<open>EocRing\<close>: the ring in which messages of the embedded operations channel are collected block by
    block (\<open>eoc_ring.c\<close>), related to a list of messages with one partial message behind it.
  \<^item> \<open>Sdfe4\<close>: messages from the chip set, the state of the four channels and its monitor, and
    sending and receiving messages in blocks (\<open>sdfe4_lib.c\<close>).
  \<^item> \<open>SgRing\<close>: the rings of packet buffers shared with the card (\<open>sg17ring_funcs.h\<close>), with their DMA mappings; the
    locale \<open>packet_ring\<close> is what the driver's loops need of a ring, interpreted for both directions.
  \<^item> \<open>Sg17Net\<close>, \<open>Sg17Run\<close>: the network device (\<open>sg17main.c\<close>), and runs of driver and card as a step relation with an
    account of every buffer and every DMA mapping.
  \<^item> \<open>Sg17Sci\<close>: the serial interface to the chip (\<open>sg17sci.c\<close>). What controller and chip do while a command
    sleeps is a list of interrupts, chosen by a function of the messages sent so far.
  \<^item> \<open>Sdfe4Cmd\<close>, \<open>Sdfe4Run\<close>: the commands to the chip, the setup of a channel and the firmware download
    (\<open>sdfe4_lib.c\<close>). The locale \<open>irq_kept\<close> carries what interrupts keep through waiting; an
    abstract mailbox of one answer specifies a command, a list of messages the download.

  \<^bold>\<open>Firmware images and flash.\<close>
  \<^item> \<open>ImgTrx\<close>: the image builder (\<open>target/utils/src/trx.c\<close>): the buffer with its position, the options in their
    order, and the header with its checksum, against the bitwise checksum of \<open>BcmCrc\<close>.
  \<^item> \<open>FlashMap\<close>: the flash of the board (\<open>drivers/mtd/maps/bcm947xx-flash.c\<close>): finding the image, the partition table, and
    the rewriting of the header at the first start, over the MTD record of \<open>NvramFlash\<close>.
  \<^item> \<open>MtdTool\<close>: the tool that checks and writes an image (\<open>package/mtd/mtd.c\<close>) over devices as parameters; files are read in
    arbitrary pieces, loops that may not end are partial functions.
  \<^item> \<open>Firmware\<close>: from the files to the registered partitions.

  \<^bold>\<open>The configuration database\<close> (\<open>package/webface/kdb.c\<close>): the table of names and values behind the web interface, kept
  in a text file that a call of the tool reads, changes and writes back.
  \<^item> \<open>KdbText\<close>: escaping and reading back, splitting a line, the wildcard match against the meaning of a pattern.
  \<^item> \<open>Kdb\<close>: files, reading with \<open>fgets\<close>, the table and its changes, sorting and writing, output.
  \<^item> \<open>KdbCmd\<close>, \<open>KdbRun\<close>: one definition per command and the main loop over the command line. What an uninitialised array
    holds, the environment, the shell and the temporary name are fields of the environment record. Records with the same
    name keep their order when sorted (\<open>qsort\<close> promises none). The standard output is not a regular file, so writing the
    table there truncates nothing.
  \<^item> \<open>KdbStore\<close>: what is written is read back. \<open>KdbMap\<close>, \<open>KdbCalls\<close>, \<open>KdbList\<close>: whole calls refine operations on a map and
    on lists of values; the table interprets the locale \<open>var_store\<close> of the NVRAM. \<open>KdbSafe\<close>: failing calls change no
    file, and the calls that lose records.

  \<^bold>\<open>The Ethernet switch drivers\<close> (\<open>target/linux/package/switch/src\<close>) let the user set up VLANs through files under
  \<open>/proc/switch\<close>.
  \<^item> \<open>SwitchCore\<close> (\<open>switch-core.c\<close>): the texts of VLANs and media, reading and writing of the files, and the registration
    of drivers with its tree of files. \<open>SwitchText\<close>: what the texts mean, reading a file in pieces, registering and giving up.
  \<^item> \<open>SwitchRobo\<close> (\<open>switch-robo.c\<close>) and \<open>SwitchAdm\<close> (\<open>switch-adm.c\<close>): all handlers of the two drivers, over the bus
    and the pins as parameters. Polling an operation is bounded by the code itself (three looks).
  \<^item> \<open>SwitchVlan\<close>: the locale \<open>vlan_switch\<close>, the contract of the VLAN files. \<open>SwitchRoboChip\<close>, \<open>SwitchAdmChip\<close> and \<open>SwitchAdmVlan\<close>: what the
    chips behind bus and pins do (page and address registers with a delayed operation, a serial line known by its levels
    and edges), as hypotheses with simulated chips as witnesses; register access works on them, and both drivers interpret
    the contract.

  \<open>Decimal\<close> holds the decimal numbers of the text formats. \<open>Prelude\<close> holds the machine integers, results and the list and
  word lemmas that the theories share.

  \<^bold>\<open>Conventions.\<close> Machine integers are words of their width. Memory that the code walks by pointer is a list of
  bytes with a position. A function whose C source can run into undefined behaviour or not return gives an
  option. Allocation, I/O and hardware answers are arguments; an operation whose end the code sleeps for (erasing flash)
  is one step with its outcome. Debugging output, locks and delays are left out. A property has a number, its position in the manifest; a theorem with hypotheses is
  followed by a witness that applies it.

  \<^bold>\<open>Not modelled.\<close> Register-level drivers (flash chips, GPIO, AVR), kernel registration, command line
  tools that only call system interfaces, vendored code (wireless stacks, Kconfig, LZMA) and generated
  tables. Of the SHDSL card, its PCI probe and sysfs attributes. The other image tools and the cards of
  other generations are left out.
\<close>

end
